(* ===== verification/Prelude.thy ===== *)
theory Prelude
  imports Main "HOL-Library.Word" "HOL-Library.Char_ord" "HOL-Library.List_Lexorder"
begin

section \<open>Prelude: Go's basic types and the lemmas every component shares\<close>

text \<open>
  This theory names the types the model uses for Go's basic types, collects the errors the
  program constructs, and proves the facts on option-valued maps, association lists and
  machine words that the component theories share.

  \<^item> A Go \<^verbatim>\<open>string\<close> is a \<^typ>\<open>string\<close>: Go strings are byte sequences, Isabelle characters
    are bytes, and Go's \<^verbatim>\<open><\<close> on strings is the lexicographic order of \<open>List_Lexorder\<close> over
    \<open>Char_ord\<close>.
  \<^item> A \<^verbatim>\<open>[]byte\<close> is a list of 8-bit words. The code only ever inspects the length of a byte
    slice, so \<^verbatim>\<open>nil\<close> and the empty slice are both \<^term>\<open>[]\<close>.
  \<^item> A \<^verbatim>\<open>time.Time\<close> is the instant it denotes, in nanoseconds since Go's zero time, so the
    zero \<^verbatim>\<open>time.Time\<close> is \<^term>\<open>0::int\<close>. Every timestamp the program makes is
    \<^verbatim>\<open>time.Now().UTC()\<close>, which carries no monotonic reading and no location, so comparing
    instants is comparing the values.
  \<^item> A \<^verbatim>\<open>time.Duration\<close> is a 64-bit word read as two's complement.
\<close>

type_synonym byte = "8 word"
type_synonym bytes = "byte list"
type_synonym time = int
type_synonym duration = "64 word"
type_synonym uint64 = "64 word"
type_synonym int64 = "64 word"

text \<open>
  The errors the program builds. A constructor stands for one \<^verbatim>\<open>errors.New\<close> or
  \<^verbatim>\<open>fmt.Errorf\<close> site (its arguments are the values formatted into the message);
  \<open>ErrText\<close> is an error that comes from outside: a codec, a transport, a handler; \<open>ErrWrap\<close> one a
  transport wraps behind a text.
\<close>

datatype goerror =
    ErrText string
  | ErrClosed
  | ErrSeedNonEmpty
  | ErrBroadcast "string option" goerror
  | ErrMarshalValue string goerror
  | ErrEncodeWire goerror
  | ErrDecodeWire goerror
  | ErrWireVersion byte
  | ErrSnapVersion byte
  | ErrClockSkew duration string duration
  | ErrDecodeValue string goerror
  | ErrDecodeKey string goerror
  | ErrEncodeKey string goerror
  | ErrSlowWatcher nat
  | ErrSnapshot goerror
  | ErrFinalSnapshot goerror
  | ErrCloseTimeout goerror
  | ErrRefreshFetch goerror
  | ErrTransportNil
  | ErrTopicEmpty
  | ErrNodeID goerror
  | ErrSubscribe string goerror
  | ErrFetchSnapshot string goerror
  | ErrLoadSnapshot string goerror
  | ErrWrap string goerror

text \<open>\<^verbatim>\<open>errors.Is(err, ErrBroadcast)\<close>: the error wraps the broadcast sentinel.\<close>

fun is_broadcast :: "goerror \<Rightarrow> bool" where
  "is_broadcast (ErrBroadcast k e) = True"
| "is_broadcast _ = False"

subsection \<open>Collections of facts\<close>

named_theorems store_defs \<open>definitions of the small store helpers, unfolded together\<close>
named_theorems data_simps \<open>what an operation does to the data map\<close>
named_theorems frame_simps \<open>what an operation leaves alone\<close>

subsection \<open>Ranging over a Go map\<close>

text \<open>
  \<^verbatim>\<open>for k, e := range m\<close> visits the entries of a map in an order the language leaves open.
  A loop of the model therefore takes the order as an argument, a list of keys, and the
  theorems hold for every order that lists each key of the map once.
\<close>

definition range_order :: "'k list \<Rightarrow> ('k \<rightharpoonup> 'a) \<Rightarrow> bool" where
  "range_order ks m \<longleftrightarrow> distinct ks \<and> set ks = dom m"

lemma range_order_finite: "range_order ks m \<Longrightarrow> finite (dom m)"
  by (metis List.finite_set range_order_def)

lemma range_order_exists: "finite (dom m) \<Longrightarrow> \<exists>ks. range_order ks m"
  unfolding range_order_def by (metis finite_distinct_list)

subsection \<open>Counting the entries of a map\<close>

definition count_in :: "('a \<Rightarrow> bool) \<Rightarrow> ('k \<rightharpoonup> 'a) \<Rightarrow> nat" where
  "count_in P m = card {k. \<exists>e. m k = Some e \<and> P e}"

text \<open>One write to a map moves the count by what the old and the new entry contribute.\<close>

definition contrib :: "('a \<Rightarrow> bool) \<Rightarrow> 'a option \<Rightarrow> nat" where
  "contrib P oe = (case oe of None \<Rightarrow> 0 | Some e \<Rightarrow> if P e then 1 else 0)"

lemma contrib_simps [simp]:
  "contrib P None = 0"
  "contrib P (Some e) = (if P e then 1 else 0)"
  by (simp_all add: contrib_def)

lemma count_in_empty [simp]: "count_in P Map.empty = 0"
  by (simp add: count_in_def)

lemma count_in_set_fun_upd:
  "{k'. \<exists>e. (m(k := oe)) k' = Some e \<and> P e} =
     (if \<exists>e. oe = Some e \<and> P e then insert k {k'. \<exists>e. m k' = Some e \<and> P e}
      else {k'. \<exists>e. m k' = Some e \<and> P e} - {k})"
  by auto

lemma finite_count_set: "finite (dom m) \<Longrightarrow> finite {k. \<exists>e. m k = Some e \<and> P e}"
  by (rule finite_subset [of _ "dom m"]) auto

lemma count_in_remove:
  assumes "finite (dom m)"
  shows "card ({k'. \<exists>e. m k' = Some e \<and> P e} - {k}) + contrib P (m k) = count_in P m"
proof -
  let ?S = "{k'. \<exists>e. m k' = Some e \<and> P e}"
  have fin: "finite ?S" using assms by (rule finite_count_set)
  show ?thesis
  proof (cases "k \<in> ?S")
    case True
    then have "contrib P (m k) = 1" by auto
    moreover have "card ?S = Suc (card (?S - {k}))" using fin True by (rule card.remove)
    ultimately show ?thesis by (simp add: count_in_def)
  next
    case False
    then have "contrib P (m k) = 0" by (cases "m k") auto
    moreover have "?S - {k} = ?S" using False by blast
    ultimately show ?thesis by (simp only: count_in_def add_0_right)
  qed
qed

lemma count_in_fun_upd:
  assumes "finite (dom m)"
  shows "count_in P (m(k := oe)) + contrib P (m k) = count_in P m + contrib P oe"
proof -
  let ?S = "{k'. \<exists>e. m k' = Some e \<and> P e}"
  have ins: "card (insert k ?S) = Suc (card (?S - {k}))"
    using finite_count_set [OF assms] by (rule card.insert_remove)
  show ?thesis
  proof (cases "\<exists>e. oe = Some e \<and> P e")
    case True
    then have "contrib P oe = 1" by auto
    moreover have "count_in P (m(k := oe)) = card (insert k ?S)"
      unfolding count_in_def count_in_set_fun_upd using True by (simp only: if_True)
    ultimately show ?thesis using ins count_in_remove [OF assms, of P k] by linarith
  next
    case False
    then have "contrib P oe = 0" by (cases oe) auto
    moreover have "count_in P (m(k := oe)) = card (?S - {k})"
      unfolding count_in_def count_in_set_fun_upd using False by (simp only: if_False)
    ultimately show ?thesis using count_in_remove [OF assms, of P k] by linarith
  qed
qed

lemma finite_dom_upd [simp]: "finite (dom (m(k := oe))) \<longleftrightarrow> finite (dom m)"
proof -
  have "dom (m(k := oe)) \<subseteq> insert k (dom m)" "dom m \<subseteq> insert k (dom (m(k := oe)))"
    by (auto split: if_splits)
  then show ?thesis by (meson finite_insert finite_subset)
qed

lemma count_in_disjoint:
  assumes "finite (dom m)"
  shows "count_in P m + count_in (\<lambda>e. \<not> P e) m = card (dom m)"
proof -
  let ?A = "{k. \<exists>e. m k = Some e \<and> P e}" and ?B = "{k. \<exists>e. m k = Some e \<and> \<not> P e}"
  have "dom m = ?A \<union> ?B" by auto
  moreover have "?A \<inter> ?B = {}" by auto
  ultimately show ?thesis
    unfolding count_in_def using finite_count_set [OF assms]
    by (simp add: card_Un_disjoint)
qed

subsection \<open>64-bit integers\<close>

lemma sint_of_int64:
  "- (2 ^ 63) \<le> i \<Longrightarrow> i < 2 ^ 63 \<Longrightarrow> sint (of_int i :: int64) = i"
  by (simp add: sint_sbintrunc' signed_take_bit_int_eq_self)

lemma sint_of_nat64: "n < 2 ^ 63 \<Longrightarrow> sint (of_nat n :: int64) = int n"
  using sint_of_int64 [of "int n"] by simp

end
