(* ===== verification/Wire.thy ===== *)
theory Wire
  imports Prelude
begin

section \<open>Wire format and the interfaces the store is given\<close>

text \<open>
  The messages of \<^verbatim>\<open>wire.go\<close> and the two interfaces a store is constructed over: the value
  codec of \<^verbatim>\<open>codec.go\<close> and the transport of \<^verbatim>\<open>transport.go\<close>. Codecs and transports are
  supplied by the caller of \<^verbatim>\<open>New\<close>, so here they are records of functions that the store
  operations take as arguments; \<open>Memory_Transport\<close> builds the record of one transport.

  The functions of \<^verbatim>\<open>encoding/json\<close> that the store applies to its own envelope types are a
  further record, \<open>Json\<close>. What the program relies on are the predicates
  \<open>json_msg_roundtrip\<close> and \<open>json_snap_roundtrip\<close>: decoding what was encoded gives it back.
\<close>

definition ProtocolVersion :: byte where
  "ProtocolVersion = 1"

definition kindSet :: string where "kindSet = ''set''"
definition kindDelete :: string where "kindDelete = ''delete''"

lemma kinds_distinct [simp]: "kindSet \<noteq> kindDelete" "kindDelete \<noteq> kindSet"
  by (simp_all add: kindSet_def kindDelete_def)

record wireMessage =
  wm_V :: byte
  wm_Kind :: string
  wm_Key :: string
  wm_Value :: bytes
  wm_Origin :: string
  wm_Timestamp :: time
  wm_Seq :: uint64

record wireSnapshotEntry =
  se_Value :: bytes
  se_Timestamp :: time
  se_Origin :: string
  se_Tombstone :: bool
  se_Seq :: uint64

text \<open>
  \<^verbatim>\<open>Entries\<close> is a Go map; the model keeps it as the list of its entries in the order a
  \<^verbatim>\<open>range\<close> over it visits them.
\<close>

record wireSnapshot =
  ws_V :: byte
  ws_Entries :: "(string \<times> wireSnapshotEntry) list"

record 'v Codec =
  Marshal :: "'v \<Rightarrow> goerror + bytes"
  Unmarshal :: "bytes \<Rightarrow> goerror + 'v"

text \<open>
  A transport is its methods over its own state \<open>'t\<close>. \<^verbatim>\<open>Subscribe\<close> returns a channel,
  named by a number; an error is \<open>Inl\<close> or \<open>Some\<close>. \<^verbatim>\<open>FetchSnapshot\<close> returns the empty
  byte list for \<^verbatim>\<open>(nil, nil)\<close>.
\<close>

record 't Transport =
  tr_Publish :: "string \<Rightarrow> bytes \<Rightarrow> 't \<Rightarrow> goerror option \<times> 't"
  tr_Subscribe :: "string \<Rightarrow> 't \<Rightarrow> (goerror + nat) \<times> 't"
  tr_Snapshot :: "string \<Rightarrow> bytes \<Rightarrow> 't \<Rightarrow> goerror option \<times> 't"
  tr_FetchSnapshot :: "string \<Rightarrow> 't \<Rightarrow> (goerror + bytes) \<times> 't"

record Json =
  marshalMsg :: "wireMessage \<Rightarrow> goerror + bytes"
  unmarshalMsg :: "bytes \<Rightarrow> goerror + wireMessage"
  marshalSnap :: "wireSnapshot \<Rightarrow> goerror + bytes"
  unmarshalSnap :: "bytes \<Rightarrow> goerror + wireSnapshot"

text \<open>
  \<^verbatim>\<open>encoding/json\<close> copies a string byte for byte only when it is valid UTF-8 (it replaces
  the invalid bytes of any other string), so what the program relies on is stated for keys
  and origins that are.
\<close>

definition utf8_cont :: "nat \<Rightarrow> bool" where
  "utf8_cont b \<longleftrightarrow> 128 \<le> b \<and> b \<le> 191"

fun utf8_ok :: "nat list \<Rightarrow> bool" where
  "utf8_ok [] = True"
| "utf8_ok (a # xs) =
    (if a < 128 then utf8_ok xs
     else case xs of
       [] \<Rightarrow> False
     | b # ys \<Rightarrow>
         if 194 \<le> a \<and> a \<le> 223 then utf8_cont b \<and> utf8_ok ys
         else case ys of
           [] \<Rightarrow> False
         | c # zs \<Rightarrow>
             if 224 \<le> a \<and> a \<le> 239 then
               utf8_cont b \<and> (a = 224 \<longrightarrow> 160 \<le> b) \<and> (a = 237 \<longrightarrow> b \<le> 159) \<and>
               utf8_cont c \<and> utf8_ok zs
             else case zs of
               [] \<Rightarrow> False
             | d # us \<Rightarrow>
                 240 \<le> a \<and> a \<le> 244 \<and>
                 utf8_cont b \<and> (a = 240 \<longrightarrow> 144 \<le> b) \<and> (a = 244 \<longrightarrow> b \<le> 143) \<and>
                 utf8_cont c \<and> utf8_cont d \<and> utf8_ok us)"

definition valid_utf8 :: "string \<Rightarrow> bool" where
  "valid_utf8 s = utf8_ok (map of_char s)"

text \<open>
  An encoded message decodes to itself, and an encoded snapshot decodes to a snapshot with the
  same version and the same map of entries (the order of a later \<^verbatim>\<open>range\<close> over it is open).
\<close>

definition json_msg_roundtrip :: "Json \<Rightarrow> bool" where
  "json_msg_roundtrip J \<longleftrightarrow>
     (\<forall>m b. marshalMsg J m = Inr b \<longrightarrow>
        valid_utf8 (wm_Kind m) \<longrightarrow> valid_utf8 (wm_Key m) \<longrightarrow> valid_utf8 (wm_Origin m) \<longrightarrow>
        unmarshalMsg J b = Inr m)"

definition json_snap_roundtrip :: "Json \<Rightarrow> bool" where
  "json_snap_roundtrip J \<longleftrightarrow>
     (\<forall>sn b. marshalSnap J sn = Inr b \<longrightarrow>
        (\<forall>(k, e) \<in> set (ws_Entries sn). valid_utf8 k \<and> valid_utf8 (se_Origin e)) \<longrightarrow>
        b \<noteq> [] \<and>
        (\<exists>sn'. unmarshalSnap J b = Inr sn' \<and> ws_V sn' = ws_V sn \<and>
           distinct (map fst (ws_Entries sn')) \<and>
           map_of (ws_Entries sn') = map_of (ws_Entries sn)))"

text \<open>The same reliance for the values: what the codec encoded it decodes.\<close>

definition codec_roundtrip :: "'v Codec \<Rightarrow> bool" where
  "codec_roundtrip c \<longleftrightarrow> (\<forall>v b. Marshal c v = Inr b \<longrightarrow> Unmarshal c b = Inr v)"

end
