(* ===== verification/Store_State.thy ===== *)
theory Store_State
  imports Wire
begin

section \<open>The state of a store, its counters and its options\<close>

text \<open>
  The types of \<^verbatim>\<open>podshare.go\<close> (\<^verbatim>\<open>Event\<close>, \<^verbatim>\<open>entry\<close>, \<^verbatim>\<open>watcher\<close>, \<^verbatim>\<open>storeStats\<close>,
  \<^verbatim>\<open>Store\<close>), the options of \<^verbatim>\<open>options.go\<close>, and the small helpers the operations share.

  How the fields of \<open>store\<close> stand for those of \<^verbatim>\<open>Store[T]\<close>:
  \<^item> \<open>s_watchers\<close> lists the registered watchers (the keys of the map \<^verbatim>\<open>watchers\<close>, in the
    order a \<^verbatim>\<open>range\<close> visits them) by number; \<open>s_wheap\<close> is the heap of the watchers made so
    far, \<open>s_nextw\<close> the first unused number.
  \<^item> \<open>s_closed\<close>: \<^verbatim>\<open>closeCh\<close> is closed. \<open>s_dirty\<close>: the one slot of \<^verbatim>\<open>dirtyCh\<close> is full.
  \<^item> \<open>s_onError\<close>: a callback is installed; \<open>s_reports\<close> is the list of errors it was called
    with. \<open>s_panic\<close>: a goroutine panicked on a closed channel.
  \<^item> \<open>s_zero\<close> is the zero value of \<^verbatim>\<open>T\<close>.
  The transport is an argument of the operations that use it. The logger only prints and is
  not modelled.
\<close>

text \<open>\<^verbatim>\<open>EventKind\<close> is an \<^verbatim>\<open>int\<close> with two named values; \<open>EventOther\<close> is any other value.\<close>

datatype EventKind = EventSet | EventDelete | EventOther int

record 'v Event =
  ev_Kind :: EventKind
  ev_Key :: string
  ev_Value :: 'v
  ev_Origin :: string
  ev_Timestamp :: time

fun EventKind_String :: "EventKind \<Rightarrow> string" where
  "EventKind_String EventSet = ''set''"
| "EventKind_String EventDelete = ''delete''"
| "EventKind_String (EventOther n) = ''unknown''"

record 'v entry =
  e_Value :: 'v
  e_Timestamp :: time
  e_Origin :: string
  e_Tombstone :: bool
  e_Seq :: uint64

text \<open>
  A watcher's channel: its buffered events, its capacity, the number of receivers blocked on
  it (a send to a channel with a blocked receiver succeeds even when the capacity is 0), and
  whether \<^verbatim>\<open>ch\<close> and \<^verbatim>\<open>cancel\<close> are closed.
\<close>

record 'v watcher =
  w_buf :: "'v Event list"
  w_cap :: nat
  w_waiting :: nat
  w_closed :: bool
  w_cancelled :: bool
  w_filter :: "(string \<Rightarrow> bool) option"

record storeStats =
  writesLocal :: uint64
  writesApplied :: uint64
  writesRejected :: uint64
  reads :: uint64
  eventsDispatched :: uint64
  watchersDropped :: uint64
  snapshots :: uint64
  snapshotBytes :: int64
  tombstonesGCed :: uint64
  keysLive :: int64
  tombstones :: int64

record 'v store =
  s_topic :: string
  s_nodeID :: string
  s_codec :: "'v Codec"
  s_seq :: uint64
  s_data :: "string \<rightharpoonup> 'v entry"
  s_watchers :: "nat list"
  s_wheap :: "nat \<Rightarrow> 'v watcher"
  s_nextw :: nat
  s_closed :: bool
  s_watchBuffer :: nat
  s_snapshotInterval :: duration
  s_tombstoneTTL :: duration
  s_gcInterval :: duration
  s_maxClockSkew :: duration
  s_onError :: bool
  s_reports :: "goerror list"
  s_merger :: "('v \<Rightarrow> 'v \<Rightarrow> 'v) option"
  s_dirty :: bool
  s_panic :: bool
  s_zero :: 'v
  s_stats :: storeStats

record Stats =
  WritesLocal :: uint64
  WritesApplied :: uint64
  WritesRejected :: uint64
  Reads :: uint64
  EventsDispatched :: uint64
  WatchersActive :: int
  WatchersDropped :: uint64
  Snapshots :: uint64
  SnapshotBytes :: int64
  Keys_count :: int
  Tombstones_count :: int
  TombstonesGCed :: uint64

subsection \<open>Counters, reports and flags\<close>

definition zero_stats :: storeStats where
  "zero_stats = \<lparr>writesLocal = 0, writesApplied = 0, writesRejected = 0, reads = 0,
     eventsDispatched = 0, watchersDropped = 0, snapshots = 0, snapshotBytes = 0,
     tombstonesGCed = 0, keysLive = 0, tombstones = 0\<rparr>"

definition add_writesLocal :: "uint64 \<Rightarrow> 'v store \<Rightarrow> 'v store" where [store_defs]:
  "add_writesLocal n s = s_stats_update (writesLocal_update (\<lambda>c. c + n)) s"

definition add_writesApplied :: "uint64 \<Rightarrow> 'v store \<Rightarrow> 'v store" where [store_defs]:
  "add_writesApplied n s = s_stats_update (writesApplied_update (\<lambda>c. c + n)) s"

definition add_writesRejected :: "uint64 \<Rightarrow> 'v store \<Rightarrow> 'v store" where [store_defs]:
  "add_writesRejected n s = s_stats_update (writesRejected_update (\<lambda>c. c + n)) s"

definition add_keysLive :: "int64 \<Rightarrow> 'v store \<Rightarrow> 'v store" where [store_defs]:
  "add_keysLive n s = s_stats_update (keysLive_update (\<lambda>c. c + n)) s"

definition add_tombstones :: "int64 \<Rightarrow> 'v store \<Rightarrow> 'v store" where [store_defs]:
  "add_tombstones n s = s_stats_update (tombstones_update (\<lambda>c. c + n)) s"

definition trackTransition :: "bool \<Rightarrow> bool \<Rightarrow> bool \<Rightarrow> bool \<Rightarrow> 'v store \<Rightarrow> 'v store" where
  [store_defs]:
  "trackTransition prevLive prevTomb nowLive nowTomb s =
    (let s1 = (if prevLive \<and> \<not> nowLive then add_keysLive (-1) s else s);
         s2 = (if \<not> prevLive \<and> nowLive then add_keysLive 1 s1 else s1);
         s3 = (if prevTomb \<and> \<not> nowTomb then add_tombstones (-1) s2 else s2)
     in if \<not> prevTomb \<and> nowTomb then add_tombstones 1 s3 else s3)"

definition reportError :: "goerror \<Rightarrow> 'v store \<Rightarrow> 'v store" where [store_defs]:
  "reportError e s = (if s_onError s then s\<lparr>s_reports := s_reports s @ [e]\<rparr> else s)"

definition markDirty :: "'v store \<Rightarrow> 'v store" where [store_defs]:
  "markDirty s = s\<lparr>s_dirty := True\<rparr>"

definition isClosed :: "'v store \<Rightarrow> bool" where [store_defs]:
  "isClosed s = s_closed s"

text \<open>\<^verbatim>\<open>int(len(s.watchers))\<close> and the two \<^verbatim>\<open>int64\<close> gauges read as two's complement.\<close>

definition Stats_of :: "'v store \<Rightarrow> Stats" where
  "Stats_of s =
    \<lparr>WritesLocal = writesLocal (s_stats s), WritesApplied = writesApplied (s_stats s),
     WritesRejected = writesRejected (s_stats s), Reads = reads (s_stats s),
     EventsDispatched = eventsDispatched (s_stats s),
     WatchersActive = int (length (s_watchers s)),
     WatchersDropped = watchersDropped (s_stats s),
     Snapshots = snapshots (s_stats s), SnapshotBytes = snapshotBytes (s_stats s),
     Keys_count = sint (keysLive (s_stats s)),
     Tombstones_count = sint (tombstones (s_stats s)),
     TombstonesGCed = tombstonesGCed (s_stats s)\<rparr>"

subsection \<open>Construction and options\<close>

text \<open>
  The store \<^verbatim>\<open>New\<close> builds before it applies the options: the default codec and the zero
  value of \<^verbatim>\<open>T\<close> are arguments, the durations are in nanoseconds.
\<close>

definition default_store :: "'v \<Rightarrow> 'v Codec \<Rightarrow> string \<Rightarrow> 'v store" where
  "default_store zero jsonCodec topic =
    \<lparr>s_topic = topic, s_nodeID = '''', s_codec = jsonCodec, s_seq = 0, s_data = Map.empty,
     s_watchers = [],
     s_wheap = (\<lambda>_. \<lparr>w_buf = [], w_cap = 0, w_waiting = 0, w_closed = False,
                       w_cancelled = False, w_filter = None\<rparr>),
     s_nextw = 0, s_closed = False, s_watchBuffer = 64,
     s_snapshotInterval = 200000000, s_tombstoneTTL = 86400000000000,
     s_gcInterval = 300000000000, s_maxClockSkew = 60000000000,
     s_onError = False, s_reports = [], s_merger = None, s_dirty = False, s_panic = False,
     s_zero = zero, s_stats = zero_stats\<rparr>"

type_synonym 'v optionFunc = "'v store \<Rightarrow> 'v store"

definition WithCodec :: "'v Codec option \<Rightarrow> 'v optionFunc" where
  "WithCodec c s = (case c of None \<Rightarrow> s | Some c' \<Rightarrow> s\<lparr>s_codec := c'\<rparr>)"

definition WithNodeID :: "string \<Rightarrow> 'v optionFunc" where
  "WithNodeID i s = (if i \<noteq> '''' then s\<lparr>s_nodeID := i\<rparr> else s)"

definition WithWatchBuffer :: "int \<Rightarrow> 'v optionFunc" where
  "WithWatchBuffer n s = (if 0 \<le> n then s\<lparr>s_watchBuffer := nat n\<rparr> else s)"

definition WithSnapshotInterval :: "duration \<Rightarrow> 'v optionFunc" where
  "WithSnapshotInterval d s = (if 0 <s d then s\<lparr>s_snapshotInterval := d\<rparr> else s)"

definition WithTombstoneTTL :: "duration \<Rightarrow> 'v optionFunc" where
  "WithTombstoneTTL d s = (if 0 <s d then s\<lparr>s_tombstoneTTL := d\<rparr> else s)"

definition WithErrorHandler :: "bool \<Rightarrow> 'v optionFunc" where
  "WithErrorHandler fn s = s\<lparr>s_onError := fn\<rparr>"

definition WithMerger :: "('v \<Rightarrow> 'v \<Rightarrow> 'v) option \<Rightarrow> 'v optionFunc" where
  "WithMerger fn s = s\<lparr>s_merger := fn\<rparr>"

definition WithGCInterval :: "duration \<Rightarrow> 'v optionFunc" where
  "WithGCInterval d s = s\<lparr>s_gcInterval := d\<rparr>"

definition WithMaxClockSkew :: "duration \<Rightarrow> 'v optionFunc" where
  "WithMaxClockSkew d s = (if 0 \<le>s d then s\<lparr>s_maxClockSkew := d\<rparr> else s)"

text \<open>The options an application can build: one constructor per \<^verbatim>\<open>With...\<close> function.\<close>

datatype 'v Option =
    OptCodec "'v Codec option" | OptNodeID string | OptWatchBuffer int
  | OptSnapshotInterval duration | OptTombstoneTTL duration | OptErrorHandler bool
  | OptMerger "('v \<Rightarrow> 'v \<Rightarrow> 'v) option" | OptGCInterval duration | OptMaxClockSkew duration

fun Option_apply :: "'v Option \<Rightarrow> 'v optionFunc" where
  "Option_apply (OptCodec c) = WithCodec c"
| "Option_apply (OptNodeID i) = WithNodeID i"
| "Option_apply (OptWatchBuffer n) = WithWatchBuffer n"
| "Option_apply (OptSnapshotInterval d) = WithSnapshotInterval d"
| "Option_apply (OptTombstoneTTL d) = WithTombstoneTTL d"
| "Option_apply (OptErrorHandler f) = WithErrorHandler f"
| "Option_apply (OptMerger f) = WithMerger f"
| "Option_apply (OptGCInterval d) = WithGCInterval d"
| "Option_apply (OptMaxClockSkew d) = WithMaxClockSkew d"

definition apply_options :: "'v Option list \<Rightarrow> 'v optionFunc" where
  "apply_options opts s = fold Option_apply opts s"

lemmas option_defs = WithCodec_def WithNodeID_def WithWatchBuffer_def WithSnapshotInterval_def
  WithTombstoneTTL_def WithErrorHandler_def WithMerger_def WithGCInterval_def
  WithMaxClockSkew_def

subsection \<open>The counters agree with the data map\<close>

text \<open>
  The comment on \<^verbatim>\<open>storeStats\<close>: \<^verbatim>\<open>keysLive\<close> and \<^verbatim>\<open>tombstones\<close> are maintained
  incrementally, and the data map is the ground truth. The counters are 64-bit words, so the
  agreement is modulo \<open>2 ^ 64\<close>.
\<close>

definition live_count :: "(string \<rightharpoonup> 'v entry) \<Rightarrow> nat" where
  "live_count d = count_in (\<lambda>e. \<not> e_Tombstone e) d"

definition tomb_count :: "(string \<rightharpoonup> 'v entry) \<Rightarrow> nat" where
  "tomb_count d = count_in e_Tombstone d"

definition counters_ok :: "'v store \<Rightarrow> bool" where
  "counters_ok s \<longleftrightarrow> finite (dom (s_data s)) \<and>
     keysLive (s_stats s) = of_nat (live_count (s_data s)) \<and>
     tombstones (s_stats s) = of_nat (tomb_count (s_data s))"

definition prev_live :: "'v entry option \<Rightarrow> bool" where
  "prev_live oe = (case oe of None \<Rightarrow> False | Some e \<Rightarrow> \<not> e_Tombstone e)"

definition prev_tomb :: "'v entry option \<Rightarrow> bool" where
  "prev_tomb oe = (case oe of None \<Rightarrow> False | Some e \<Rightarrow> e_Tombstone e)"

lemma prev_simps [simp]:
  "prev_live None = False" "prev_live (Some e) = (\<not> e_Tombstone e)"
  "prev_tomb None = False" "prev_tomb (Some e) = e_Tombstone e"
  by (simp_all add: prev_live_def prev_tomb_def)

lemma trackTransition_frame [frame_simps, simp]:
  "s_data (trackTransition a b c d s) = s_data s"
  "s_seq (trackTransition a b c d s) = s_seq s"
  "s_nodeID (trackTransition a b c d s) = s_nodeID s"
  "s_merger (trackTransition a b c d s) = s_merger s"
  "s_watchers (trackTransition a b c d s) = s_watchers s"
  "s_wheap (trackTransition a b c d s) = s_wheap s"
  "s_panic (trackTransition a b c d s) = s_panic s"
  by (simp_all add: store_defs Let_def)

text \<open>Writing one entry and tracking the transition keeps the agreement.\<close>

lemma count_upd_word:
  fixes P :: "'v entry \<Rightarrow> bool"
  assumes "finite (dom d)"
  shows "(of_nat (count_in P (d(k \<mapsto> e))) :: int64) =
     of_nat (count_in P d) + of_nat (contrib P (Some e)) - of_nat (contrib P (d k))"
proof -
  have "count_in P (d(k \<mapsto> e)) + contrib P (d k) = count_in P d + contrib P (Some e)"
    using count_in_fun_upd [OF assms] .
  then have "(of_nat (count_in P (d(k \<mapsto> e)) + contrib P (d k)) :: int64) =
      of_nat (count_in P d + contrib P (Some e))"
    by simp
  then show ?thesis by (simp only: of_nat_add eq_diff_eq)
qed

lemma trackTransition_stats:
  "keysLive (s_stats (trackTransition a b c d s)) =
     keysLive (s_stats s) + (if \<not> a \<and> c then 1 else 0) - (if a \<and> \<not> c then 1 else 0)"
  "tombstones (s_stats (trackTransition a b c d s)) =
     tombstones (s_stats s) + (if \<not> b \<and> d then 1 else 0) - (if b \<and> \<not> d then 1 else 0)"
  by (simp_all add: store_defs Let_def)

lemma counters_ok_put:
  assumes ok: "counters_ok s"
    and data: "s_data s' = (s_data s)(k \<mapsto> e)"
    and live: "keysLive (s_stats s') = keysLive (s_stats (trackTransition
        (prev_live (s_data s k)) (prev_tomb (s_data s k)) (\<not> e_Tombstone e) (e_Tombstone e) s))"
    and tomb: "tombstones (s_stats s') = tombstones (s_stats (trackTransition
        (prev_live (s_data s k)) (prev_tomb (s_data s k)) (\<not> e_Tombstone e) (e_Tombstone e) s))"
  shows "counters_ok s'"
proof -
  have fin: "finite (dom (s_data s))" using ok by (simp add: counters_ok_def)
  show ?thesis
    unfolding counters_ok_def live_count_def tomb_count_def data live tomb
      trackTransition_stats count_upd_word [OF fin]
    using ok fin
    by (cases "s_data s k") (auto simp: counters_ok_def live_count_def tomb_count_def)
qed

subsection \<open>What the options leave alone\<close>

lemma Option_apply_frame:
  "s_data (Option_apply opt s) = s_data s \<and> s_topic (Option_apply opt s) = s_topic s \<and>
   s_closed (Option_apply opt s) = s_closed s \<and> s_watchers (Option_apply opt s) = s_watchers s \<and>
   s_panic (Option_apply opt s) = s_panic s \<and> s_zero (Option_apply opt s) = s_zero s \<and>
   s_stats (Option_apply opt s) = s_stats s \<and> s_seq (Option_apply opt s) = s_seq s"
  by (cases opt) (simp_all add: option_defs split: option.split)

lemma apply_options_frame [simp]:
  "s_data (apply_options opts s) = s_data s" "s_topic (apply_options opts s) = s_topic s"
  "s_closed (apply_options opts s) = s_closed s" "s_watchers (apply_options opts s) = s_watchers s"
  "s_panic (apply_options opts s) = s_panic s" "s_zero (apply_options opts s) = s_zero s"
  "s_stats (apply_options opts s) = s_stats s" "s_seq (apply_options opts s) = s_seq s"
  by (induction opts arbitrary: s; simp add: apply_options_def Option_apply_frame)+

end
