(* ===== verification/Sample.thy ===== *)
theory Sample
  imports Wire
begin

section \<open>A concrete encoding for the witnesses\<close>

text \<open>
  The JSON functions and the value codec are parameters of the model. This theory gives one
  concrete instance of each, an executable length-prefixed encoding, and proves that it
  satisfies the round-trip hypotheses, so that a theorem that assumes them can be applied to a
  concrete run. Nothing here models code of the repository.
\<close>

definition put_nat :: "nat \<Rightarrow> bytes" where
  "put_nat n = replicate n 1 @ [0]"

fun get_nat :: "bytes \<Rightarrow> (nat \<times> bytes) option" where
  "get_nat [] = None"
| "get_nat (b # bs) = (if b = 0 then Some (0, bs) else map_option (apfst Suc) (get_nat bs))"

definition put_int :: "int \<Rightarrow> bytes" where
  "put_int i = (if i < 0 then 1 else 0) # put_nat (nat \<bar>i\<bar>)"

definition get_int :: "bytes \<Rightarrow> (int \<times> bytes) option" where
  "get_int bs =
    (case bs of
       [] \<Rightarrow> None
     | b # r \<Rightarrow> map_option (apfst (\<lambda>n. if b = 0 then int n else - int n)) (get_nat r))"

definition put_bytes :: "bytes \<Rightarrow> bytes" where
  "put_bytes b = put_nat (length b) @ b"

definition get_bytes :: "bytes \<Rightarrow> (bytes \<times> bytes) option" where
  "get_bytes bs = Option.bind (get_nat bs) (\<lambda>(n, r). Some (take n r, drop n r))"

definition str_bytes :: "string \<Rightarrow> bytes" where
  "str_bytes s = map (\<lambda>c. of_nat (of_char c)) s"

definition bytes_str :: "bytes \<Rightarrow> string" where
  "bytes_str bs = map (\<lambda>b. char_of (unat b)) bs"

lemma get_put_nat [simp]: "get_nat (put_nat n @ r) = Some (n, r)"
  by (induction n) (simp_all add: put_nat_def)

lemma get_put_int [simp]: "get_int (put_int i @ r) = Some (i, r)"
  by (simp add: get_int_def put_int_def)

lemma get_put_bytes [simp]: "get_bytes (put_bytes b @ r) = Some (b, r)"
  by (simp add: get_bytes_def put_bytes_def)

lemma bytes_str_bytes [simp]: "bytes_str (str_bytes s) = s"
  unfolding bytes_str_def str_bytes_def map_map by (rule map_idI) (simp add: unat_of_nat)

subsection \<open>Messages\<close>

definition sample_marshalMsg :: "wireMessage \<Rightarrow> bytes" where
  "sample_marshalMsg m =
    wm_V m # put_bytes (str_bytes (wm_Kind m)) @ put_bytes (str_bytes (wm_Key m)) @
    put_bytes (wm_Value m) @ put_bytes (str_bytes (wm_Origin m)) @
    put_int (wm_Timestamp m) @ put_nat (unat (wm_Seq m))"

definition sample_unmarshalMsg :: "bytes \<Rightarrow> wireMessage option" where
  "sample_unmarshalMsg bs =
    (case bs of [] \<Rightarrow> None | v # r0 \<Rightarrow>
     Option.bind (get_bytes r0) (\<lambda>(kind, r1).
     Option.bind (get_bytes r1) (\<lambda>(key, r2).
     Option.bind (get_bytes r2) (\<lambda>(val, r3).
     Option.bind (get_bytes r3) (\<lambda>(origin, r4).
     Option.bind (get_int r4) (\<lambda>(ts, r5).
     Option.bind (get_nat r5) (\<lambda>(seq, r6).
       Some \<lparr>wm_V = v, wm_Kind = bytes_str kind, wm_Key = bytes_str key, wm_Value = val,
             wm_Origin = bytes_str origin, wm_Timestamp = ts, wm_Seq = of_nat seq\<rparr>)))))))"

lemma sample_msg_roundtrip: "sample_unmarshalMsg (sample_marshalMsg m) = Some m"
  using get_put_nat [of "unat (wm_Seq m)" "[]"]
  by (simp add: sample_unmarshalMsg_def sample_marshalMsg_def)

subsection \<open>Snapshots\<close>

definition put_entry_bytes :: "string \<times> wireSnapshotEntry \<Rightarrow> bytes" where
  "put_entry_bytes ke = (case ke of (k, e) \<Rightarrow>
    put_bytes (str_bytes k) @ put_bytes (se_Value e) @ put_int (se_Timestamp e) @
    put_bytes (str_bytes (se_Origin e)) @ put_nat (if se_Tombstone e then 1 else 0) @
    put_nat (unat (se_Seq e)))"

definition get_entry_bytes :: "bytes \<Rightarrow> ((string \<times> wireSnapshotEntry) \<times> bytes) option" where
  "get_entry_bytes r0 =
    Option.bind (get_bytes r0) (\<lambda>(k, r1).
    Option.bind (get_bytes r1) (\<lambda>(v, r2).
    Option.bind (get_int r2) (\<lambda>(ts, r3).
    Option.bind (get_bytes r3) (\<lambda>(origin, r4).
    Option.bind (get_nat r4) (\<lambda>(tomb, r5).
    Option.bind (get_nat r5) (\<lambda>(seq, r6).
      Some ((bytes_str k, \<lparr>se_Value = v, se_Timestamp = ts, se_Origin = bytes_str origin,
              se_Tombstone = (tomb = 1), se_Seq = of_nat seq\<rparr>), r6)))))))"

fun get_entries :: "nat \<Rightarrow> bytes \<Rightarrow> ((string \<times> wireSnapshotEntry) list) option" where
  "get_entries 0 r = Some []"
| "get_entries (Suc n) r =
    Option.bind (get_entry_bytes r) (\<lambda>(e, r'). map_option ((#) e) (get_entries n r'))"

lemma get_put_entry [simp]: "get_entry_bytes (put_entry_bytes ke @ r) = Some (ke, r)"
  by (cases ke) (simp add: get_entry_bytes_def put_entry_bytes_def)

lemma get_put_entries [simp]:
  "get_entries (length es) (concat (map put_entry_bytes es)) = Some es"
  by (induction es) simp_all

definition sample_marshalSnap :: "wireSnapshot \<Rightarrow> bytes" where
  "sample_marshalSnap sn =
    ws_V sn # put_nat (length (ws_Entries sn)) @ concat (map put_entry_bytes (ws_Entries sn))"

definition sample_unmarshalSnap :: "bytes \<Rightarrow> wireSnapshot option" where
  "sample_unmarshalSnap bs =
    (case bs of [] \<Rightarrow> None | v # r0 \<Rightarrow>
     Option.bind (get_nat r0) (\<lambda>(n, r1).
     Option.bind (get_entries n r1) (\<lambda>es. Some \<lparr>ws_V = v, ws_Entries = es\<rparr>)))"

lemma sample_snap_roundtrip: "sample_unmarshalSnap (sample_marshalSnap sn) = Some sn"
  by (simp add: sample_unmarshalSnap_def sample_marshalSnap_def)

subsection \<open>The instances\<close>

definition bad_input :: goerror where "bad_input = ErrText ''bad input''"

definition or_bad :: "'a option \<Rightarrow> goerror + 'a" where
  "or_bad x = (case x of None \<Rightarrow> Inl bad_input | Some y \<Rightarrow> Inr y)"

definition sample_json :: Json where
  "sample_json =
    \<lparr>marshalMsg = (\<lambda>m. Inr (sample_marshalMsg m)),
     unmarshalMsg = (\<lambda>b. or_bad (sample_unmarshalMsg b)),
     marshalSnap = (\<lambda>sn. if distinct (map fst (ws_Entries sn)) then Inr (sample_marshalSnap sn)
                         else Inl bad_input),
     unmarshalSnap = (\<lambda>b. or_bad (sample_unmarshalSnap b))\<rparr>"

text \<open>Values are strings; the one value \<^verbatim>\<open>bad\<close> cannot be encoded.\<close>

definition sample_codec :: "string Codec" where
  "sample_codec =
    \<lparr>Marshal = (\<lambda>v. if v = ''bad'' then Inl bad_input else Inr (str_bytes v)),
     Unmarshal = (\<lambda>b. Inr (bytes_str b))\<rparr>"

lemma sample_json_msg: "json_msg_roundtrip sample_json"
  by (auto simp: json_msg_roundtrip_def sample_json_def sample_msg_roundtrip or_bad_def)

lemma sample_marshalSnap_nonempty: "sample_marshalSnap sn \<noteq> []"
  by (simp add: sample_marshalSnap_def)

lemma sample_json_snap: "json_snap_roundtrip sample_json"
  by (auto simp: json_snap_roundtrip_def sample_json_def sample_snap_roundtrip or_bad_def
      sample_marshalSnap_nonempty split: if_splits)

lemma sample_codec_roundtrip: "codec_roundtrip sample_codec"
  by (auto simp: codec_roundtrip_def sample_codec_def split: if_splits)

subsection \<open>Two transports\<close>

text \<open>Transports over the log of what was published: one that works and one that is down.\<close>

definition up_transport :: "bytes list Transport" where
  "up_transport =
    \<lparr>tr_Publish = (\<lambda>topic raw log. (None, log @ [raw])),
     tr_Subscribe = (\<lambda>topic log. (Inr 0, log)),
     tr_Snapshot = (\<lambda>topic body log. (None, log)),
     tr_FetchSnapshot = (\<lambda>topic log. (Inr [], log))\<rparr>"

definition down_transport :: "bytes list Transport" where
  "down_transport =
    \<lparr>tr_Publish = (\<lambda>topic raw log. (Some bad_input, log)),
     tr_Subscribe = (\<lambda>topic log. (Inl bad_input, log)),
     tr_Snapshot = (\<lambda>topic body log. (Some bad_input, log)),
     tr_FetchSnapshot = (\<lambda>topic log. (Inl bad_input, log))\<rparr>"

lemma sample_transport_simps [simp]:
  "tr_Publish up_transport topic raw log = (None, log @ [raw])"
  "tr_Publish down_transport topic raw log = (Some bad_input, log)"
  "tr_Snapshot down_transport topic raw log = (Some bad_input, log)"
  by (simp_all add: up_transport_def down_transport_def)

lemma sample_codec_simps [simp]:
  "Marshal sample_codec v = (if v = ''bad'' then Inl bad_input else Inr (str_bytes v))"
  "Unmarshal sample_codec b = Inr (bytes_str b)"
  by (simp_all add: sample_codec_def)

lemma sample_json_simps [simp]:
  "marshalMsg sample_json m = Inr (sample_marshalMsg m)"
  "unmarshalMsg sample_json (sample_marshalMsg m) = Inr m"
  by (simp_all add: sample_json_def or_bad_def sample_msg_roundtrip)

end
