(* ===== verification/Sample_Store.thy ===== *)
theory Sample_Store
  imports Store_State Sample
begin

section \<open>A concrete store and concrete messages for the witnesses\<close>

definition sample_store :: "string \<Rightarrow> string store" where
  "sample_store i = (default_store '''' sample_codec ''t'')\<lparr>s_nodeID := i\<rparr>"

definition sample_msg :: "string \<Rightarrow> string \<Rightarrow> string \<Rightarrow> string \<Rightarrow> time \<Rightarrow> uint64 \<Rightarrow> wireMessage" where
  "sample_msg kind key v origin ts seq =
    \<lparr>wm_V = ProtocolVersion, wm_Kind = kind, wm_Key = key, wm_Value = str_bytes v,
     wm_Origin = origin, wm_Timestamp = ts, wm_Seq = seq\<rparr>"

lemma sample_store_simps [simp]:
  "s_data (sample_store i) = Map.empty" "s_nodeID (sample_store i) = i"
  "s_merger (sample_store i) = None" "s_codec (sample_store i) = sample_codec"
  "s_zero (sample_store i) = ''''" "s_closed (sample_store i) = False"
  "s_seq (sample_store i) = 0" "s_watchers (sample_store i) = []" "s_panic (sample_store i) = False"
  "s_topic (sample_store i) = ''t''" "s_tombstoneTTL (sample_store i) = 86400000000000"
  by (simp_all add: sample_store_def default_store_def)

lemma sample_msg_simps [simp]:
  "wm_V (sample_msg kind key v origin ts seq) = ProtocolVersion"
  "wm_Kind (sample_msg kind key v origin ts seq) = kind"
  "wm_Key (sample_msg kind key v origin ts seq) = key"
  "wm_Value (sample_msg kind key v origin ts seq) = str_bytes v"
  "wm_Origin (sample_msg kind key v origin ts seq) = origin"
  "wm_Timestamp (sample_msg kind key v origin ts seq) = ts"
  "wm_Seq (sample_msg kind key v origin ts seq) = seq"
  by (simp_all add: sample_msg_def)

end
