(* ===== verification/Watchers.thy ===== *)
theory Watchers
  imports Sample_Store
begin

section \<open>Watchers: registration, fan-out, slow-consumer drop, removal\<close>

text \<open>
  \<^verbatim>\<open>Watch\<close>, \<^verbatim>\<open>dispatch\<close>, \<^verbatim>\<open>removeWatcher\<close> and the watch options of \<^verbatim>\<open>podshare.go\<close>,
  with the invariant that keeps the fan-out from sending on a closed channel. In Go both a
  send on a closed channel and closing a channel twice panic; the model sets \<open>s_panic\<close>
  there, and the invariant shows that no operation does.
\<close>

subsection \<open>Watch options\<close>

record watchConfig =
  wc_filter :: "(string \<Rightarrow> bool) option"

type_synonym WatchOption = "watchConfig \<Rightarrow> watchConfig"

definition WatchFilter :: "(string \<Rightarrow> bool) option \<Rightarrow> WatchOption" where
  "WatchFilter fn c = c\<lparr>wc_filter := fn\<rparr>"

definition WatchKey :: "string \<Rightarrow> WatchOption" where
  "WatchKey key = WatchFilter (Some (\<lambda>k. k = key))"

definition hasPrefix :: "string \<Rightarrow> string \<Rightarrow> bool" where
  "hasPrefix s prefix \<longleftrightarrow> length prefix \<le> length s \<and> take (length prefix) s = prefix"

definition WatchPrefix :: "string \<Rightarrow> WatchOption" where
  "WatchPrefix prefix = WatchFilter (Some (\<lambda>k. hasPrefix k prefix))"

subsection \<open>Channel operations\<close>

definition chan_room :: "'v watcher \<Rightarrow> bool" where
  "chan_room w \<longleftrightarrow> length (w_buf w) < w_cap w + w_waiting w"

definition accepts :: "'v watcher \<Rightarrow> string \<Rightarrow> bool" where
  "accepts w key = (case w_filter w of None \<Rightarrow> True | Some f \<Rightarrow> f key)"

definition set_watcher :: "nat \<Rightarrow> 'v watcher \<Rightarrow> 'v store \<Rightarrow> 'v store" where
  "set_watcher i w s = s\<lparr>s_wheap := (s_wheap s)(i := w)\<rparr>"

text \<open>\<^verbatim>\<open>close(w.ch); close(w.cancel)\<close>\<close>

definition close_chans :: "nat \<Rightarrow> 'v store \<Rightarrow> 'v store" where
  "close_chans i s =
    (let w = s_wheap s i in
     if w_closed w then s\<lparr>s_panic := True\<rparr>
     else if w_cancelled w then (set_watcher i (w\<lparr>w_closed := True\<rparr>) s)\<lparr>s_panic := True\<rparr>
     else set_watcher i (w\<lparr>w_closed := True, w_cancelled := True\<rparr>) s)"

definition delete_watcher :: "nat \<Rightarrow> 'v store \<Rightarrow> 'v store" where
  "delete_watcher i s = s\<lparr>s_watchers := removeAll i (s_watchers s)\<rparr>"

subsection \<open>dispatch\<close>

text \<open>The send loop: the watchers it could not send to, and the store.\<close>

fun dispatch_send :: "'v Event \<Rightarrow> nat list \<Rightarrow> nat list \<Rightarrow> 'v store \<Rightarrow> nat list \<times> 'v store" where
  "dispatch_send ev [] toDrop s = (toDrop, s)"
| "dispatch_send ev (i # is) toDrop s =
    (let w = s_wheap s i in
     if \<not> accepts w (ev_Key ev) then dispatch_send ev is toDrop s
     else if w_closed w then (toDrop, s\<lparr>s_panic := True\<rparr>)
     else if chan_room w
       then dispatch_send ev is toDrop (set_watcher i (w\<lparr>w_buf := w_buf w @ [ev]\<rparr>) s)
     else dispatch_send ev is (toDrop @ [i]) s)"

definition drop_watcher :: "nat \<Rightarrow> 'v store \<Rightarrow> 'v store" where
  "drop_watcher i s =
    reportError (ErrSlowWatcher (w_cap (s_wheap s i)))
      (s_stats_update (watchersDropped_update (\<lambda>c. c + 1)) (close_chans i (delete_watcher i s)))"

definition dispatch :: "'v Event \<Rightarrow> 'v store \<Rightarrow> 'v store" where
  "dispatch ev s =
    (let s1 = s_stats_update (eventsDispatched_update (\<lambda>c. c + 1)) s;
         (toDrop, s2) = dispatch_send ev (s_watchers s1) [] s1
     in fold drop_watcher toDrop s2)"

definition dispatch_all :: "'v Event list \<Rightarrow> 'v store \<Rightarrow> 'v store" where
  "dispatch_all evs s = fold dispatch evs s"

subsection \<open>Watch and removeWatcher\<close>

definition removeWatcher :: "nat \<Rightarrow> 'v store \<Rightarrow> 'v store" where
  "removeWatcher i s =
    (if i \<notin> set (s_watchers s) then s else close_chans i (delete_watcher i s))"

definition new_watcher :: "'v store \<Rightarrow> WatchOption list \<Rightarrow> 'v watcher" where
  "new_watcher s opts =
    \<lparr>w_buf = [], w_cap = s_watchBuffer s, w_waiting = 0, w_closed = False,
     w_cancelled = False,
     w_filter = wc_filter (fold (\<lambda>opt c. opt c) opts \<lparr>wc_filter = None\<rparr>)\<rparr>"

text \<open>The number stands for the channel \<^verbatim>\<open>Watch\<close> returns.\<close>

definition Watch :: "WatchOption list \<Rightarrow> 'v store \<Rightarrow> nat \<times> 'v store" where
  "Watch opts s =
    (let i = s_nextw s; w = new_watcher s opts; s1 = s\<lparr>s_nextw := Suc i\<rparr> in
     if isClosed s then (i, set_watcher i (w\<lparr>w_closed := True\<rparr>) s1)
     else (i, (set_watcher i w s1)\<lparr>s_watchers := s_watchers s @ [i]\<rparr>))"

text \<open>The consumer takes an event from its channel, or blocks on it.\<close>

definition watch_recv :: "nat \<Rightarrow> 'v store \<Rightarrow> 'v Event option \<times> 'v store" where
  "watch_recv i s =
    (case w_buf (s_wheap s i) of
       [] \<Rightarrow> (None, if w_closed (s_wheap s i) then s
                    else set_watcher i ((s_wheap s i)\<lparr>w_waiting := Suc (w_waiting (s_wheap s i))\<rparr>) s)
     | ev # evs \<Rightarrow>
         (Some ev, set_watcher i ((s_wheap s i)\<lparr>w_buf := evs,
            w_waiting := w_waiting (s_wheap s i) - 1\<rparr>) s))"

subsection \<open>The invariant\<close>

definition watch_inv :: "'v store \<Rightarrow> bool" where
  "watch_inv s \<longleftrightarrow> \<not> s_panic s \<and> distinct (s_watchers s) \<and>
     (\<forall>i \<in> set (s_watchers s). i < s_nextw s \<and>
        \<not> w_closed (s_wheap s i) \<and> \<not> w_cancelled (s_wheap s i))"

lemma set_watcher_simps [simp]:
  "s_wheap (set_watcher i w s) = (s_wheap s)(i := w)"
  "s_watchers (set_watcher i w s) = s_watchers s"
  "s_panic (set_watcher i w s) = s_panic s"
  "s_nextw (set_watcher i w s) = s_nextw s"
  "s_stats (set_watcher i w s) = s_stats s"
  by (simp_all add: set_watcher_def)

text \<open>What fan-out never touches.\<close>

definition same_core :: "'v store \<Rightarrow> 'v store \<Rightarrow> bool" where
  "same_core s s' \<longleftrightarrow> s_data s' = s_data s \<and> s_seq s' = s_seq s \<and> s_nodeID s' = s_nodeID s \<and>
     s_topic s' = s_topic s \<and> s_codec s' = s_codec s \<and> s_merger s' = s_merger s \<and>
     s_closed s' = s_closed s \<and> s_dirty s' = s_dirty s \<and> s_zero s' = s_zero s \<and>
     s_tombstoneTTL s' = s_tombstoneTTL s \<and> s_maxClockSkew s' = s_maxClockSkew s \<and>
     s_onError s' = s_onError s \<and> s_nextw s' = s_nextw s \<and>
     keysLive (s_stats s') = keysLive (s_stats s) \<and>
     tombstones (s_stats s') = tombstones (s_stats s) \<and>
     writesApplied (s_stats s') = writesApplied (s_stats s) \<and>
     writesRejected (s_stats s') = writesRejected (s_stats s) \<and>
     writesLocal (s_stats s') = writesLocal (s_stats s)"

lemma same_core_refl [simp]: "same_core s s"
  by (simp add: same_core_def)

lemma same_core_trans: "same_core s t \<Longrightarrow> same_core t u \<Longrightarrow> same_core s u"
  by (simp add: same_core_def)

lemma same_core_fold:
  "(\<And>x t. x \<in> set xs \<Longrightarrow> same_core t (f x t)) \<Longrightarrow> same_core s (fold f xs s)"
proof (induction xs arbitrary: s)
  case (Cons x xs)
  have "same_core (f x s) (fold f xs (f x s))" using Cons by simp
  moreover have "same_core s (f x s)" using Cons.prems by simp
  ultimately show ?case by (auto intro: same_core_trans)
qed simp

lemma close_chans_core [simp]: "same_core s (close_chans i s)"
  by (simp add: close_chans_def set_watcher_def same_core_def Let_def)

lemma drop_watcher_core [simp]: "same_core s (drop_watcher i s)"
  by (simp add: drop_watcher_def close_chans_def delete_watcher_def set_watcher_def
      reportError_def same_core_def Let_def)

lemma dispatch_send_core: "same_core s (snd (dispatch_send ev is dr s))"
proof (induction ev "is" dr s rule: dispatch_send.induct)
  case (2 ev i "is" dr s)
  have "same_core s (set_watcher i w s)" for w by (simp add: set_watcher_def same_core_def)
  moreover have "same_core s (s\<lparr>s_panic := True\<rparr>)" by (simp add: same_core_def)
  ultimately show ?case using 2 by (auto simp: Let_def intro: same_core_trans)
qed simp

lemma dispatch_core [simp]: "same_core s (dispatch ev s)"
proof -
  let ?s1 = "s_stats_update (eventsDispatched_update (\<lambda>c. c + 1)) s"
  obtain dr s2 where d: "dispatch_send ev (s_watchers ?s1) [] ?s1 = (dr, s2)"
    by (metis prod.exhaust)
  have "same_core s ?s1" by (simp add: same_core_def)
  moreover have "same_core ?s1 s2" using dispatch_send_core [of ?s1 ev _ "[]"] d by (metis snd_conv)
  moreover have "same_core s2 (fold drop_watcher dr s2)" by (rule same_core_fold) simp
  ultimately show ?thesis
    unfolding dispatch_def Let_def d by (auto intro: same_core_trans)
qed

lemma dispatch_all_core [simp]: "same_core s (dispatch_all evs s)"
  unfolding dispatch_all_def by (rule same_core_fold) simp

lemma dispatch_frame [simp]:
  "s_data (dispatch ev s) = s_data s"
  "s_seq (dispatch ev s) = s_seq s"
  "s_nodeID (dispatch ev s) = s_nodeID s"
  "s_topic (dispatch ev s) = s_topic s"
  "s_codec (dispatch ev s) = s_codec s"
  "s_merger (dispatch ev s) = s_merger s"
  "s_closed (dispatch ev s) = s_closed s"
  "s_dirty (dispatch ev s) = s_dirty s"
  "s_zero (dispatch ev s) = s_zero s"
  "keysLive (s_stats (dispatch ev s)) = keysLive (s_stats s)"
  "tombstones (s_stats (dispatch ev s)) = tombstones (s_stats s)"
  "writesApplied (s_stats (dispatch ev s)) = writesApplied (s_stats s)"
  "writesRejected (s_stats (dispatch ev s)) = writesRejected (s_stats s)"
  "writesLocal (s_stats (dispatch ev s)) = writesLocal (s_stats s)"
  using dispatch_core [of s ev] by (simp_all add: same_core_def)

lemma dispatch_all_frame [simp]:
  "s_data (dispatch_all evs s) = s_data s"
  "s_seq (dispatch_all evs s) = s_seq s"
  "s_nodeID (dispatch_all evs s) = s_nodeID s"
  "s_topic (dispatch_all evs s) = s_topic s"
  "s_codec (dispatch_all evs s) = s_codec s"
  "s_merger (dispatch_all evs s) = s_merger s"
  "s_closed (dispatch_all evs s) = s_closed s"
  "s_dirty (dispatch_all evs s) = s_dirty s"
  "s_zero (dispatch_all evs s) = s_zero s"
  "keysLive (s_stats (dispatch_all evs s)) = keysLive (s_stats s)"
  "tombstones (s_stats (dispatch_all evs s)) = tombstones (s_stats s)"
  "writesApplied (s_stats (dispatch_all evs s)) = writesApplied (s_stats s)"
  "writesLocal (s_stats (dispatch_all evs s)) = writesLocal (s_stats s)"
  using dispatch_all_core [of s evs] by (simp_all add: same_core_def)

subsection \<open>What dispatch does to every watcher\<close>

text \<open>The outcome of one event for one registered, open watcher.\<close>

definition deliver :: "'v Event \<Rightarrow> 'v watcher \<Rightarrow> 'v watcher" where
  "deliver ev w =
    (if \<not> accepts w (ev_Key ev) then w
     else if chan_room w then w\<lparr>w_buf := w_buf w @ [ev]\<rparr>
     else w\<lparr>w_closed := True, w_cancelled := True\<rparr>)"

definition overflows :: "'v Event \<Rightarrow> 'v watcher \<Rightarrow> bool" where
  "overflows ev w \<longleftrightarrow> accepts w (ev_Key ev) \<and> \<not> chan_room w"

definition sent_heap :: "'v Event \<Rightarrow> nat list \<Rightarrow> (nat \<Rightarrow> 'v watcher) \<Rightarrow> nat \<Rightarrow> 'v watcher" where
  "sent_heap ev is h =
    (\<lambda>i. if i \<in> set is \<and> \<not> overflows ev (h i) then deliver ev (h i) else h i)"

lemma sent_heap_Nil: "sent_heap ev [] h = h"
  by (simp add: sent_heap_def)

lemma sent_heap_keep:
  "i \<notin> set is \<Longrightarrow> overflows ev (h i) \<or> deliver ev (h i) = h i \<Longrightarrow>
   sent_heap ev (i # is) h = sent_heap ev is h"
  by (auto simp: sent_heap_def fun_eq_iff)

lemma sent_heap_send:
  "i \<notin> set is \<Longrightarrow> \<not> overflows ev (h i) \<Longrightarrow>
   sent_heap ev (i # is) h = sent_heap ev is (h(i := deliver ev (h i)))"
  by (auto simp: sent_heap_def fun_eq_iff)

lemma dispatch_send_spec:
  assumes "distinct is" "\<forall>i \<in> set is. \<not> w_closed (s_wheap s i)"
  shows "dispatch_send ev is dr s =
    (dr @ filter (\<lambda>i. overflows ev (s_wheap s i)) is,
     s\<lparr>s_wheap := sent_heap ev is (s_wheap s)\<rparr>)"
  using assms
proof (induction "is" arbitrary: dr s)
  case Nil
  show ?case by (simp add: sent_heap_Nil)
next
  case (Cons i "is")
  let ?w = "s_wheap s i"
  have nin: "i \<notin> set is" and dist: "distinct is" and op: "\<not> w_closed ?w"
    and rest: "\<forall>i \<in> set is. \<not> w_closed (s_wheap s i)" using Cons.prems by auto
  consider (skip) "\<not> accepts ?w (ev_Key ev)"
    | (room) "accepts ?w (ev_Key ev)" "chan_room ?w"
    | (full) "accepts ?w (ev_Key ev)" "\<not> chan_room ?w" by blast
  then show ?case
  proof cases
    case skip
    then have "deliver ev ?w = ?w" "\<not> overflows ev ?w" by (simp_all add: deliver_def overflows_def)
    with skip nin Cons.IH [OF dist rest] show ?thesis by (simp add: Let_def sent_heap_keep)
  next
    case room
    then have d: "deliver ev ?w = ?w\<lparr>w_buf := w_buf ?w @ [ev]\<rparr>" and no: "\<not> overflows ev ?w"
      by (simp_all add: deliver_def overflows_def)
    let ?s = "set_watcher i (deliver ev ?w) s"
    have open': "\<forall>j \<in> set is. \<not> w_closed (s_wheap ?s j)" using rest nin by auto
    have flt: "filter (\<lambda>j. overflows ev (s_wheap ?s j)) is =
        filter (\<lambda>j. overflows ev (s_wheap s j)) is"
      using nin by (intro filter_cong) auto
    have "dispatch_send ev (i # is) dr s = dispatch_send ev is dr ?s"
      using room op by (simp add: Let_def d)
    also have "\<dots> = (dr @ filter (\<lambda>j. overflows ev (s_wheap s j)) is,
        ?s\<lparr>s_wheap := sent_heap ev is (s_wheap ?s)\<rparr>)"
      by (simp only: Cons.IH [OF dist open'] flt)
    finally show ?thesis using no sent_heap_send [of i "is" ev "s_wheap s"] nin by (simp add: set_watcher_def)
  next
    case full
    then have "overflows ev ?w" by (simp add: overflows_def)
    with full nin op Cons.IH [OF dist rest] show ?thesis by (simp add: Let_def sent_heap_keep)
  qed
qed

lemma drop_watcher_effect:
  assumes "\<not> w_closed (s_wheap s i)" "\<not> w_cancelled (s_wheap s i)"
  shows "s_watchers (drop_watcher i s) = removeAll i (s_watchers s)"
    "s_wheap (drop_watcher i s) =
       (s_wheap s)(i := (s_wheap s i)\<lparr>w_closed := True, w_cancelled := True\<rparr>)"
    "s_panic (drop_watcher i s) = s_panic s"
    "s_nextw (drop_watcher i s) = s_nextw s"
  using assms
  by (simp_all add: drop_watcher_def close_chans_def delete_watcher_def set_watcher_def
      reportError_def Let_def)

lemma drop_all_effect:
  assumes "distinct dr" "\<forall>i \<in> set dr. \<not> w_closed (s_wheap s i) \<and> \<not> w_cancelled (s_wheap s i)"
  shows "s_watchers (fold drop_watcher dr s) = filter (\<lambda>i. i \<notin> set dr) (s_watchers s) \<and>
    s_wheap (fold drop_watcher dr s) =
      (\<lambda>i. if i \<in> set dr then (s_wheap s i)\<lparr>w_closed := True, w_cancelled := True\<rparr>
            else s_wheap s i) \<and>
    s_panic (fold drop_watcher dr s) = s_panic s \<and>
    s_nextw (fold drop_watcher dr s) = s_nextw s"
  using assms
proof (induction dr arbitrary: s)
  case (Cons i dr)
  have i: "\<not> w_closed (s_wheap s i)" "\<not> w_cancelled (s_wheap s i)" "i \<notin> set dr" "distinct dr"
    using Cons.prems by auto
  note eff = drop_watcher_effect [OF i(1,2)]
  have "\<forall>j \<in> set dr. \<not> w_closed (s_wheap (drop_watcher i s) j) \<and>
      \<not> w_cancelled (s_wheap (drop_watcher i s) j)"
    using Cons.prems i(3) by (auto simp: eff)
  from Cons.IH [OF i(4) this] i(3) show ?case
    by (auto simp: eff removeAll_filter_not_eq fun_eq_iff intro: filter_cong)
qed auto

lemma dispatch_spec:
  assumes "watch_inv s"
  shows "s_wheap (dispatch ev s) =
      (\<lambda>i. if i \<in> set (s_watchers s) then deliver ev (s_wheap s i) else s_wheap s i) \<and>
    s_watchers (dispatch ev s) =
      filter (\<lambda>i. \<not> overflows ev (s_wheap s i)) (s_watchers s) \<and>
    s_panic (dispatch ev s) = s_panic s \<and> s_nextw (dispatch ev s) = s_nextw s"
proof -
  let ?s1 = "s_stats_update (eventsDispatched_update (\<lambda>c. c + 1)) s"
  let ?dr = "filter (\<lambda>i. overflows ev (s_wheap s i)) (s_watchers s)"
  let ?s2 = "?s1\<lparr>s_wheap := sent_heap ev (s_watchers s) (s_wheap s)\<rparr>"
  have inv: "distinct (s_watchers s)"
    "\<forall>i \<in> set (s_watchers s). \<not> w_closed (s_wheap s i) \<and> \<not> w_cancelled (s_wheap s i)"
    using assms by (auto simp: watch_inv_def)
  have "dispatch ev s = fold drop_watcher ?dr ?s2"
    using inv by (simp add: dispatch_def dispatch_send_spec Let_def)
  moreover have "distinct ?dr" using inv by simp
  moreover have "\<forall>i \<in> set ?dr. \<not> w_closed (s_wheap ?s2 i) \<and> \<not> w_cancelled (s_wheap ?s2 i)"
    using inv by (auto simp: sent_heap_def)
  ultimately show ?thesis
    using drop_all_effect [of ?dr ?s2]
    by (auto simp: fun_eq_iff sent_heap_def deliver_def overflows_def intro: filter_cong)
qed

lemma dispatch_inv [intro]: "watch_inv s \<Longrightarrow> watch_inv (dispatch ev s)"
  using dispatch_spec [of s ev]
  by (auto simp: watch_inv_def deliver_def overflows_def)

lemma dispatch_all_inv [intro]: "watch_inv s \<Longrightarrow> watch_inv (dispatch_all evs s)"
  unfolding dispatch_all_def by (induction evs arbitrary: s) auto

subsection \<open>The other watcher operations keep the invariant\<close>

lemma removeWatcher_effect:
  assumes "watch_inv s" "i \<in> set (s_watchers s)"
  shows "s_watchers (removeWatcher i s) = removeAll i (s_watchers s)"
    "s_wheap (removeWatcher i s) =
       (s_wheap s)(i := (s_wheap s i)\<lparr>w_closed := True, w_cancelled := True\<rparr>)"
    "s_panic (removeWatcher i s) = s_panic s"
    "s_nextw (removeWatcher i s) = s_nextw s"
  using assms
  by (simp_all add: watch_inv_def removeWatcher_def close_chans_def delete_watcher_def
      set_watcher_def Let_def)

lemma removeWatcher_core [simp]: "same_core s (removeWatcher i s)"
  by (simp add: removeWatcher_def close_chans_def delete_watcher_def set_watcher_def
      same_core_def Let_def)

lemma removeWatcher_inv [intro]:
  assumes "watch_inv s"
  shows "watch_inv (removeWatcher i s)"
proof (cases "i \<in> set (s_watchers s)")
  case True
  with assms removeWatcher_effect [OF assms True] show ?thesis
    by (auto simp: watch_inv_def distinct_removeAll)
next
  case False
  with assms show ?thesis by (simp add: removeWatcher_def)
qed

lemma Watch_inv [intro]:
  assumes "watch_inv s"
  shows "watch_inv (snd (Watch opts s))"
proof -
  have "s_nextw s \<notin> set (s_watchers s)" using assms by (auto simp: watch_inv_def)
  with assms show ?thesis
    by (auto simp: watch_inv_def Watch_def Let_def new_watcher_def set_watcher_def)
qed

lemma watch_recv_inv [intro]: "watch_inv s \<Longrightarrow> watch_inv (snd (watch_recv i s))"
  by (auto simp: watch_inv_def watch_recv_def split: list.splits)

subsection \<open>Properties\<close>

text \<open>
  \<^verbatim>\<open>dispatch\<close> treats a registered watcher in one of three ways: an event its filter refuses
  leaves it as it is, an event that fits is appended to its channel, and an event that does
  not fit closes both its channels and unregisters it. Nothing panics.
\<close>

theorem dispatch_delivers:
  assumes "watch_inv s" "i \<in> set (s_watchers s)"
  shows "s_wheap (dispatch ev s) i =
      (if \<not> accepts (s_wheap s i) (ev_Key ev) then s_wheap s i
       else if chan_room (s_wheap s i)
       then (s_wheap s i)\<lparr>w_buf := w_buf (s_wheap s i) @ [ev]\<rparr>
       else (s_wheap s i)\<lparr>w_closed := True, w_cancelled := True\<rparr>) \<and>
    (i \<in> set (s_watchers (dispatch ev s)) \<longleftrightarrow>
       \<not> (accepts (s_wheap s i) (ev_Key ev) \<and> \<not> chan_room (s_wheap s i))) \<and>
    \<not> s_panic (dispatch ev s)"
  using dispatch_spec [OF assms(1), of ev] assms
  by (auto simp: deliver_def overflows_def watch_inv_def)

definition sample_event :: "string \<Rightarrow> string Event" where
  "sample_event k = \<lparr>ev_Kind = EventSet, ev_Key = k, ev_Value = ''v'', ev_Origin = ''n'',
     ev_Timestamp = 5\<rparr>"

definition watched_store :: "string store" where
  "watched_store = snd (Watch [WatchKey ''a''] ((sample_store ''n'')\<lparr>s_watchBuffer := 1\<rparr>))"

lemma watched_store_inv: "watch_inv watched_store" "s_watchers watched_store = [0]"
  by (simp_all add: watched_store_def watch_inv_def Watch_def new_watcher_def set_watcher_def
      sample_store_def default_store_def isClosed_def)

theorem dispatch_delivers_witness:
  "w_buf (s_wheap (dispatch (sample_event ''a'') watched_store) 0) = [sample_event ''a''] \<and>
   \<not> s_panic (dispatch (sample_event ''a'') watched_store)"
proof -
  have "accepts (s_wheap watched_store 0) ''a''" "chan_room (s_wheap watched_store 0)"
    "w_buf (s_wheap watched_store 0) = []"
    by (simp_all add: watched_store_def Watch_def new_watcher_def set_watcher_def sample_store_def
        default_store_def isClosed_def accepts_def WatchKey_def WatchFilter_def chan_room_def)
  then show ?thesis
    using dispatch_delivers [OF watched_store_inv(1), of 0 "sample_event ''a''"]
    by (simp add: watched_store_inv(2) sample_event_def)
qed

text \<open>
  The watch options: a watcher without options takes every key, \<^verbatim>\<open>WatchKey\<close> takes one key,
  \<^verbatim>\<open>WatchPrefix\<close> the keys that start with the prefix (every key when it is empty), and when
  several are given the last one counts.
\<close>

theorem watch_options:
  "accepts (new_watcher s []) k \<and>
   (accepts (new_watcher s [WatchKey key]) k \<longleftrightarrow> k = key) \<and>
   (accepts (new_watcher s [WatchPrefix p]) k \<longleftrightarrow> (\<exists>r. k = p @ r)) \<and>
   accepts (new_watcher s (opts @ [WatchPrefix p])) k = accepts (new_watcher s [WatchPrefix p]) k"
proof -
  have "hasPrefix k p \<longleftrightarrow> (\<exists>r. k = p @ r)"
    unfolding hasPrefix_def by (metis append_eq_conv_conj append_take_drop_id length_append le_add1)
  then show ?thesis
    by (simp add: accepts_def new_watcher_def WatchKey_def WatchPrefix_def WatchFilter_def)
qed

end
