(* ===== verification/Lww.thy ===== *)
theory Lww
  imports Watchers
begin

section \<open>Last-write-wins: the order on writes and applyMessage\<close>

text \<open>
  \<^verbatim>\<open>lwwAccept\<close> and \<^verbatim>\<open>applyMessage\<close> of \<^verbatim>\<open>podshare.go\<close>. The specification the comments
  give, "ordered by (Timestamp, Origin, Seq)", is the linear order on \<open>stamp\<close>; the lemmas
  show that both code paths decide exactly this order, and what an accepted and a rejected
  message do to the store.
\<close>

subsection \<open>Stamps: the specification\<close>

datatype stamp = Stamp (st_time: time) (st_origin: string) (st_seq: uint64)

instantiation stamp :: linorder
begin

definition less_stamp :: "stamp \<Rightarrow> stamp \<Rightarrow> bool" where
  "less_stamp a b \<longleftrightarrow>
     st_time a < st_time b \<or>
     st_time a = st_time b \<and>
       (st_origin a < st_origin b \<or> st_origin a = st_origin b \<and> st_seq a < st_seq b)"

definition less_eq_stamp :: "stamp \<Rightarrow> stamp \<Rightarrow> bool" where
  "less_eq_stamp a b \<longleftrightarrow> a < b \<or> a = b"

instance
  by standard (auto simp: less_stamp_def less_eq_stamp_def stamp.expand intro: stamp.expand)

end

definition entry_stamp :: "'v entry \<Rightarrow> stamp" where
  "entry_stamp e = Stamp (e_Timestamp e) (e_Origin e) (e_Seq e)"

definition msg_stamp :: "wireMessage \<Rightarrow> stamp" where
  "msg_stamp m = Stamp (wm_Timestamp m) (wm_Origin m) (wm_Seq m)"

text \<open>A message beats what the map holds under its key.\<close>

definition beats :: "stamp \<Rightarrow> 'v entry option \<Rightarrow> bool" where
  "beats st oe = (case oe of None \<Rightarrow> True | Some e \<Rightarrow> entry_stamp e < st)"

lemma beats_simps [simp]:
  "beats st None" "beats st (Some e) = (entry_stamp e < st)"
  by (simp_all add: beats_def)

subsection \<open>The code\<close>

definition lwwAccept :: "string \<Rightarrow> wireMessage \<Rightarrow> 'v store \<Rightarrow> bool" where
  "lwwAccept key msg s =
    (case s_data s key of
       None \<Rightarrow> True
     | Some existing \<Rightarrow>
         if e_Timestamp existing > wm_Timestamp msg then False
         else if e_Timestamp existing = wm_Timestamp msg then
           (if e_Origin existing > wm_Origin msg then False
            else if e_Origin existing = wm_Origin msg \<and> e_Seq existing \<ge> wm_Seq msg then False
            else True)
         else True)"

definition applyMessage :: "wireMessage \<Rightarrow> 'v \<Rightarrow> 'v store \<Rightarrow> bool \<times> 'v store" where
  "applyMessage msg value s =
    (let rejected =
       (case s_data s (wm_Key msg) of
          None \<Rightarrow> False
        | Some existing \<Rightarrow>
            if e_Timestamp existing > wm_Timestamp msg then True
            else if e_Timestamp existing = wm_Timestamp msg then
              (if e_Origin existing > wm_Origin msg then True
               else if e_Origin existing = wm_Origin msg \<and> e_Seq existing \<ge> wm_Seq msg
                 then True
               else False)
            else False)
     in if rejected then (False, add_writesRejected 1 s)
     else
       let prev = s_data s (wm_Key msg);
           value' = (case (s_merger s, prev) of
                       (Some f, Some p) \<Rightarrow>
                         if wm_Kind msg = kindSet \<and> \<not> e_Tombstone p then f (e_Value p) value
                         else value
                     | _ \<Rightarrow> value);
           s1 = s\<lparr>s_data := (s_data s)(wm_Key msg \<mapsto>
                  \<lparr>e_Value = value', e_Timestamp = wm_Timestamp msg, e_Origin = wm_Origin msg,
                   e_Tombstone = (wm_Kind msg = kindDelete), e_Seq = wm_Seq msg\<rparr>)\<rparr>;
           s2 = add_writesApplied 1 s1;
           nowTomb = (wm_Kind msg = kindDelete);
           s3 = trackTransition (prev_live prev) (prev_tomb prev) (\<not> nowTomb) nowTomb s2;
           kind = (if wm_Kind msg = kindDelete then EventDelete else EventSet)
       in (True, dispatch \<lparr>ev_Kind = kind, ev_Key = wm_Key msg, ev_Value = value',
             ev_Origin = wm_Origin msg, ev_Timestamp = wm_Timestamp msg\<rparr> s3))"

subsection \<open>Both comparisons decide the stamp order\<close>

lemma lww_compare:
  "(if e_Timestamp e > wm_Timestamp m then False
    else if e_Timestamp e = wm_Timestamp m then
      (if e_Origin e > wm_Origin m then False
       else if e_Origin e = wm_Origin m \<and> e_Seq e \<ge> wm_Seq m then False else True)
    else True) \<longleftrightarrow> entry_stamp e < msg_stamp m"
  by (auto simp: entry_stamp_def msg_stamp_def less_stamp_def)

lemma lwwAccept_iff: "lwwAccept k m s \<longleftrightarrow> beats (msg_stamp m) (s_data s k)"
  unfolding lwwAccept_def lww_compare by (simp add: beats_def split: option.split)

text \<open>The value a message stores: merged when a merger is set and a live value is present.\<close>

definition stored_value :: "wireMessage \<Rightarrow> 'v \<Rightarrow> 'v store \<Rightarrow> 'v" where
  "stored_value msg value s =
    (case (s_merger s, s_data s (wm_Key msg)) of
       (Some f, Some p) \<Rightarrow>
         if wm_Kind msg = kindSet \<and> \<not> e_Tombstone p then f (e_Value p) value else value
     | _ \<Rightarrow> value)"

definition msg_entry :: "wireMessage \<Rightarrow> 'v \<Rightarrow> 'v entry" where
  "msg_entry msg value =
    \<lparr>e_Value = value, e_Timestamp = wm_Timestamp msg, e_Origin = wm_Origin msg,
     e_Tombstone = (wm_Kind msg = kindDelete), e_Seq = wm_Seq msg\<rparr>"

definition msg_event :: "wireMessage \<Rightarrow> 'v \<Rightarrow> 'v Event" where
  "msg_event msg value =
    \<lparr>ev_Kind = (if wm_Kind msg = kindDelete then EventDelete else EventSet),
     ev_Key = wm_Key msg, ev_Value = value, ev_Origin = wm_Origin msg,
     ev_Timestamp = wm_Timestamp msg\<rparr>"

lemma msg_entry_simps [simp]:
  "entry_stamp (msg_entry m v) = msg_stamp m"
  "e_Tombstone (msg_entry m v) = (wm_Kind m = kindDelete)"
  "e_Value (msg_entry m v) = v"
  "e_Timestamp (msg_entry m v) = wm_Timestamp m"
  "e_Origin (msg_entry m v) = wm_Origin m"
  "e_Seq (msg_entry m v) = wm_Seq m"
  by (simp_all add: msg_entry_def entry_stamp_def msg_stamp_def)

lemma applyMessage_rejected:
  assumes "\<not> beats (msg_stamp m) (s_data s (wm_Key m))"
  shows "applyMessage m v s = (False, add_writesRejected 1 s)"
proof -
  obtain e where e: "s_data s (wm_Key m) = Some e" "\<not> entry_stamp e < msg_stamp m"
    using assms by (cases "s_data s (wm_Key m)") auto
  with lww_compare [of m e] show ?thesis
    unfolding applyMessage_def Let_def by (auto split: if_splits)
qed

lemma applyMessage_accepted:
  assumes "beats (msg_stamp m) (s_data s (wm_Key m))"
  shows "applyMessage m v s =
    (True, dispatch (msg_event m (stored_value m v s))
      (trackTransition (prev_live (s_data s (wm_Key m))) (prev_tomb (s_data s (wm_Key m)))
        (wm_Kind m \<noteq> kindDelete) (wm_Kind m = kindDelete)
        (add_writesApplied 1
          (s\<lparr>s_data := (s_data s)(wm_Key m \<mapsto> msg_entry m (stored_value m v s))\<rparr>))))"
proof (cases "s_data s (wm_Key m)")
  case None
  then show ?thesis
    unfolding applyMessage_def Let_def
    by (simp add: msg_event_def msg_entry_def stored_value_def split: option.split)
next
  case (Some e)
  with assms lww_compare [of m e] show ?thesis
    unfolding applyMessage_def Let_def
    by (auto simp: msg_event_def msg_entry_def stored_value_def split: option.splits if_splits)
qed

lemma applyMessage_result [simp]:
  "fst (applyMessage m v s) \<longleftrightarrow> beats (msg_stamp m) (s_data s (wm_Key m))"
  by (cases "beats (msg_stamp m) (s_data s (wm_Key m))")
     (simp_all add: applyMessage_accepted applyMessage_rejected)

lemma applyMessage_data:
  "s_data (snd (applyMessage m v s)) =
    (if beats (msg_stamp m) (s_data s (wm_Key m))
     then (s_data s)(wm_Key m \<mapsto> msg_entry m (stored_value m v s)) else s_data s)"
  by (simp add: applyMessage_accepted applyMessage_rejected store_defs Let_def)

lemma applyMessage_frame [simp]:
  "s_seq (snd (applyMessage m v s)) = s_seq s"
  "s_nodeID (snd (applyMessage m v s)) = s_nodeID s"
  "s_topic (snd (applyMessage m v s)) = s_topic s"
  "s_codec (snd (applyMessage m v s)) = s_codec s"
  "s_merger (snd (applyMessage m v s)) = s_merger s"
  "s_closed (snd (applyMessage m v s)) = s_closed s"
  "s_dirty (snd (applyMessage m v s)) = s_dirty s"
  "s_zero (snd (applyMessage m v s)) = s_zero s"
  "writesLocal (s_stats (snd (applyMessage m v s))) = writesLocal (s_stats s)"
  by (cases "beats (msg_stamp m) (s_data s (wm_Key m))";
      simp add: applyMessage_accepted applyMessage_rejected store_defs Let_def)+

lemma applyMessage_counts:
  "writesApplied (s_stats (snd (applyMessage m v s))) + writesRejected (s_stats (snd (applyMessage m v s)))
    = writesApplied (s_stats s) + writesRejected (s_stats s) + 1"
  by (cases "beats (msg_stamp m) (s_data s (wm_Key m))";
      simp add: applyMessage_accepted applyMessage_rejected store_defs Let_def)

lemma applyMessage_counters:
  assumes "counters_ok s"
  shows "counters_ok (snd (applyMessage m v s))"
proof (cases "beats (msg_stamp m) (s_data s (wm_Key m))")
  case True
  show ?thesis
    by (rule counters_ok_put [OF assms, where k = "wm_Key m" and e = "msg_entry m (stored_value m v s)"])
       (simp_all add: True applyMessage_accepted store_defs Let_def)
next
  case False
  with assms show ?thesis
    by (simp add: applyMessage_rejected counters_ok_def store_defs)
qed

lemma watch_inv_cong:
  assumes "s_watchers s' = s_watchers s" "s_wheap s' = s_wheap s" "s_panic s' = s_panic s"
    "s_nextw s' = s_nextw s"
  shows "watch_inv s' = watch_inv s"
  using assms by (simp add: watch_inv_def)

lemma applyMessage_watch_inv:
  assumes "watch_inv s"
  shows "watch_inv (snd (applyMessage m v s))"
proof (cases "beats (msg_stamp m) (s_data s (wm_Key m))")
  case True
  have "watch_inv (trackTransition a b c d (add_writesApplied 1 (s\<lparr>s_data := x\<rparr>)))" for a b c d x
    using assms by (subst watch_inv_cong [of _ s]) (simp_all add: store_defs Let_def)
  with True show ?thesis by (auto simp: applyMessage_accepted)
next
  case False
  with assms show ?thesis
    by (simp add: applyMessage_rejected watch_inv_def store_defs)
qed

subsection \<open>Properties\<close>

text \<open>
  C18. The two copies of the comparison, \<^verbatim>\<open>lwwAccept\<close> and the head of \<^verbatim>\<open>applyMessage\<close>, decide
  the same thing: a message is accepted exactly when the key is absent or the
  \<^verbatim>\<open>(Timestamp, Origin, Seq)\<close> triple of the stored entry is lexicographically smaller.
\<close>

theorem lww_comparisons_agree:
  "(lwwAccept (wm_Key m) m s \<longleftrightarrow> fst (applyMessage m v s)) \<and>
   (lwwAccept k m s \<longleftrightarrow>
      (case s_data s k of
         None \<Rightarrow> True
       | Some e \<Rightarrow> Stamp (e_Timestamp e) (e_Origin e) (e_Seq e)
                    < Stamp (wm_Timestamp m) (wm_Origin m) (wm_Seq m)))"
  by (simp add: lwwAccept_iff beats_def entry_stamp_def msg_stamp_def split: option.split)

text \<open>
  \<^verbatim>\<open>applyMessage\<close> on both branches. A rejected message only counts as rejected. An accepted
  one stores its value (merged with the old one when a merger is set, the message is a set and
  a live value is there), stamped with the message, as a tombstone exactly for a delete, counts
  it and the change of the gauges, and dispatches the event with the stored value.
\<close>

theorem applyMessage_branches:
  "applyMessage m v s =
    (if lwwAccept (wm_Key m) m s then
       (True, dispatch (msg_event m (stored_value m v s))
          (trackTransition (prev_live (s_data s (wm_Key m))) (prev_tomb (s_data s (wm_Key m)))
             (wm_Kind m \<noteq> kindDelete) (wm_Kind m = kindDelete)
             (add_writesApplied 1
               (s\<lparr>s_data := (s_data s)(wm_Key m \<mapsto> msg_entry m (stored_value m v s))\<rparr>))))
     else (False, add_writesRejected 1 s))"
  by (simp add: lwwAccept_iff applyMessage_accepted applyMessage_rejected)

end
