(* ===== verification/Store_Ops.thy ===== *)
theory Store_Ops
  imports Lww
begin

section \<open>Reads and writes of a store, and the receive path\<close>

text \<open>
  The operations of \<^verbatim>\<open>podshare.go\<close> that read and write the replica, one definition each:
  \<^verbatim>\<open>Get\<close>, \<^verbatim>\<open>Keys\<close>, \<^verbatim>\<open>Snapshot\<close>, \<^verbatim>\<open>Set\<close>, \<^verbatim>\<open>SetMany\<close>, \<^verbatim>\<open>Delete\<close>, \<^verbatim>\<open>DeleteMany\<close>,
  \<^verbatim>\<open>Seed\<close>, \<^verbatim>\<open>Version\<close>, \<^verbatim>\<open>TrySet\<close> and \<^verbatim>\<open>handleRaw\<close>. An operation takes the transport
  (\<open>T\<close>, with its state \<open>t\<close>), the JSON functions (\<open>J\<close>) and the value \<^verbatim>\<open>time.Now().UTC()\<close>
  returns (\<open>now\<close>), and returns its result, the store and the transport's state. A part of an
  operation that holds \<^verbatim>\<open>s.mu\<close> is one definition, so that interleavings can be written down.
\<close>

subsection \<open>Reads\<close>

definition Get :: "string \<Rightarrow> 'v store \<Rightarrow> ('v \<times> bool) \<times> 'v store" where
  "Get key s =
    (let s1 = s_stats_update (reads_update (\<lambda>c. c + 1)) s in
     case s_data s1 key of
       None \<Rightarrow> ((s_zero s1, False), s1)
     | Some e \<Rightarrow> if e_Tombstone e then ((s_zero s1, False), s1) else ((e_Value e, True), s1))"

text \<open>\<open>ks\<close> is the order in which \<^verbatim>\<open>range s.data\<close> visits the keys.\<close>

definition Keys :: "string list \<Rightarrow> 'v store \<Rightarrow> string list" where
  "Keys ks s = filter (\<lambda>k. prev_live (s_data s k)) ks"

fun Snapshot_loop :: "string list \<Rightarrow> 'v store \<Rightarrow> (string \<rightharpoonup> 'v) \<Rightarrow> (string \<rightharpoonup> 'v)" where
  "Snapshot_loop [] s out = out"
| "Snapshot_loop (k # ks) s out =
    (case s_data s k of
       None \<Rightarrow> Snapshot_loop ks s out
     | Some e \<Rightarrow> Snapshot_loop ks s (if e_Tombstone e then out else out(k \<mapsto> e_Value e)))"

definition Snapshot :: "string list \<Rightarrow> 'v store \<Rightarrow> (string \<rightharpoonup> 'v)" where
  "Snapshot ks s = Snapshot_loop ks s Map.empty"

subsection \<open>Set and Delete\<close>

definition Set :: "'t Transport \<Rightarrow> Json \<Rightarrow> time \<Rightarrow> string \<Rightarrow> 'v \<Rightarrow> 'v store \<Rightarrow> 't
    \<Rightarrow> goerror option \<times> 'v store \<times> 't" where
  "Set T J now key value s t =
    (if isClosed s then (Some ErrClosed, s, t)
     else
       let s1 = add_writesLocal 1 s in
       case Marshal (s_codec s1) value of
         Inl e \<Rightarrow> (Some (ErrMarshalValue key e), s1, t)
       | Inr payload \<Rightarrow>
           let s2 = s1\<lparr>s_seq := s_seq s1 + 1\<rparr>;
               msg = \<lparr>wm_V = ProtocolVersion, wm_Kind = kindSet, wm_Key = key,
                      wm_Value = payload, wm_Origin = s_nodeID s2, wm_Timestamp = now,
                      wm_Seq = s_seq s2\<rparr>;
               (ok, s3) = applyMessage msg value s2
           in if \<not> ok then (None, s3, t)
              else case marshalMsg J msg of
                Inl e \<Rightarrow> (Some (ErrEncodeWire e), s3, t)
              | Inr raw \<Rightarrow>
                  (case tr_Publish T (s_topic s3) raw t of
                     (Some e, t') \<Rightarrow> (Some (ErrBroadcast None e), s3, t')
                   | (None, t') \<Rightarrow> (None, markDirty s3, t')))"

definition Delete :: "'t Transport \<Rightarrow> Json \<Rightarrow> time \<Rightarrow> string \<Rightarrow> 'v store \<Rightarrow> 't
    \<Rightarrow> goerror option \<times> 'v store \<times> 't" where
  "Delete T J now key s t =
    (if isClosed s then (Some ErrClosed, s, t)
     else
       let s1 = add_writesLocal 1 s;
           s2 = s1\<lparr>s_seq := s_seq s1 + 1\<rparr>;
           msg = \<lparr>wm_V = ProtocolVersion, wm_Kind = kindDelete, wm_Key = key,
                  wm_Value = [], wm_Origin = s_nodeID s2, wm_Timestamp = now,
                  wm_Seq = s_seq s2\<rparr>;
           (ok, s3) = applyMessage msg (s_zero s2) s2
       in if \<not> ok then (None, s3, t)
          else case marshalMsg J msg of
            Inl e \<Rightarrow> (Some (ErrEncodeWire e), s3, t)
          | Inr raw \<Rightarrow>
              (case tr_Publish T (s_topic s3) raw t of
                 (Some e, t') \<Rightarrow> (Some (ErrBroadcast None e), s3, t')
               | (None, t') \<Rightarrow> (None, markDirty s3, t')))"

subsection \<open>Batches\<close>

text \<open>The loop of \<^verbatim>\<open>SetMany\<close> under \<^verbatim>\<open>s.mu\<close>; \<open>kvs\<close> lists the map in the order ranged over.\<close>

fun SetMany_loop :: "time \<Rightarrow> (string \<times> 'v) list \<Rightarrow> 'v store \<Rightarrow> wireMessage list \<Rightarrow> 'v Event list
    \<Rightarrow> goerror option \<times> 'v store \<times> wireMessage list \<times> 'v Event list" where
  "SetMany_loop ts [] s applied events = (None, s, applied, events)"
| "SetMany_loop ts ((k, v) # kvs) s applied events =
    (case Marshal (s_codec s) v of
       Inl e \<Rightarrow> (Some (ErrMarshalValue k e), s, applied, events)
     | Inr payload \<Rightarrow>
         let s1 = s\<lparr>s_seq := s_seq s + 1\<rparr>;
             seq = s_seq s1;
             msg = \<lparr>wm_V = ProtocolVersion, wm_Kind = kindSet, wm_Key = k, wm_Value = payload,
                    wm_Origin = s_nodeID s1, wm_Timestamp = ts, wm_Seq = seq\<rparr>
         in if \<not> lwwAccept k msg s1
            then SetMany_loop ts kvs (add_writesRejected 1 s1) applied events
            else
              let prev = s_data s1 k;
                  newValue = (case (s_merger s1, prev) of
                                (Some f, Some p) \<Rightarrow> if \<not> e_Tombstone p then f (e_Value p) v else v
                              | _ \<Rightarrow> v);
                  s2 = s1\<lparr>s_data := (s_data s1)(k \<mapsto>
                         \<lparr>e_Value = newValue, e_Timestamp = ts, e_Origin = s_nodeID s1,
                          e_Tombstone = False, e_Seq = seq\<rparr>)\<rparr>;
                  s3 = trackTransition (prev_live prev) (prev_tomb prev) True False
                         (add_writesApplied 1 s2)
              in SetMany_loop ts kvs s3 (applied @ [msg])
                   (events @ [\<lparr>ev_Kind = EventSet, ev_Key = k, ev_Value = newValue,
                               ev_Origin = s_nodeID s1, ev_Timestamp = ts\<rparr>]))"

text \<open>The publish loop of both batches stops at the first failure.\<close>

fun publish_all :: "'t Transport \<Rightarrow> Json \<Rightarrow> string \<Rightarrow> wireMessage list \<Rightarrow> 't
    \<Rightarrow> goerror option \<times> 't" where
  "publish_all T J topic [] t = (None, t)"
| "publish_all T J topic (msg # msgs) t =
    (case marshalMsg J msg of
       Inl e \<Rightarrow> (Some (ErrEncodeWire e), t)
     | Inr raw \<Rightarrow>
         (case tr_Publish T topic raw t of
            (Some e, t') \<Rightarrow> (Some (ErrBroadcast (Some (wm_Key msg)) e), t')
          | (None, t') \<Rightarrow> publish_all T J topic msgs t'))"

definition SetMany :: "'t Transport \<Rightarrow> Json \<Rightarrow> time \<Rightarrow> (string \<times> 'v) list \<Rightarrow> 'v store \<Rightarrow> 't
    \<Rightarrow> goerror option \<times> 'v store \<times> 't" where
  "SetMany T J now kvs s t =
    (if isClosed s then (Some ErrClosed, s, t)
     else if kvs = [] then (None, s, t)
     else
       case SetMany_loop now kvs (add_writesLocal (of_nat (length kvs)) s) [] [] of
         (Some e, s1, _, _) \<Rightarrow> (Some e, s1, t)
       | (None, s1, applied, events) \<Rightarrow>
           let s2 = dispatch_all events s1 in
           (case publish_all T J (s_topic s2) applied t of
              (Some e, t') \<Rightarrow> (Some e, s2, t')
            | (None, t') \<Rightarrow> (None, markDirty s2, t')))"

fun DeleteMany_loop :: "time \<Rightarrow> string list \<Rightarrow> 'v store \<Rightarrow> wireMessage list \<Rightarrow> 'v Event list
    \<Rightarrow> 'v store \<times> wireMessage list \<times> 'v Event list" where
  "DeleteMany_loop ts [] s applied events = (s, applied, events)"
| "DeleteMany_loop ts (k # ks) s applied events =
    (let s1 = s\<lparr>s_seq := s_seq s + 1\<rparr>;
         seq = s_seq s1;
         msg = \<lparr>wm_V = ProtocolVersion, wm_Kind = kindDelete, wm_Key = k, wm_Value = [],
                wm_Origin = s_nodeID s1, wm_Timestamp = ts, wm_Seq = seq\<rparr>
     in if \<not> lwwAccept k msg s1
        then DeleteMany_loop ts ks (add_writesRejected 1 s1) applied events
        else
          let prev = s_data s1 k;
              s2 = s1\<lparr>s_data := (s_data s1)(k \<mapsto>
                     \<lparr>e_Value = s_zero s1, e_Timestamp = ts, e_Origin = s_nodeID s1,
                      e_Tombstone = True, e_Seq = seq\<rparr>)\<rparr>;
              s3 = trackTransition (prev_live prev) (prev_tomb prev) False True
                     (add_writesApplied 1 s2)
          in DeleteMany_loop ts ks s3 (applied @ [msg])
               (events @ [\<lparr>ev_Kind = EventDelete, ev_Key = k, ev_Value = s_zero s1,
                           ev_Origin = s_nodeID s1, ev_Timestamp = ts\<rparr>]))"

definition DeleteMany :: "'t Transport \<Rightarrow> Json \<Rightarrow> time \<Rightarrow> string list \<Rightarrow> 'v store \<Rightarrow> 't
    \<Rightarrow> goerror option \<times> 'v store \<times> 't" where
  "DeleteMany T J now keys s t =
    (if isClosed s then (Some ErrClosed, s, t)
     else if keys = [] then (None, s, t)
     else
       case DeleteMany_loop now keys (add_writesLocal (of_nat (length keys)) s) [] [] of
         (s1, applied, events) \<Rightarrow>
           let s2 = dispatch_all events s1 in
           (case publish_all T J (s_topic s2) applied t of
              (Some e, t') \<Rightarrow> (Some e, s2, t')
            | (None, t') \<Rightarrow> (None, markDirty s2, t')))"

subsection \<open>Seed\<close>

fun Seed_loop :: "time \<Rightarrow> (string \<times> 'v) list \<Rightarrow> 'v store \<Rightarrow> 'v store" where
  "Seed_loop ts [] s = s"
| "Seed_loop ts ((k, v) # kvs) s =
    (let s1 = s\<lparr>s_seq := s_seq s + 1\<rparr> in
     Seed_loop ts kvs
       (add_keysLive 1 (s1\<lparr>s_data := (s_data s1)(k \<mapsto>
          \<lparr>e_Value = v, e_Timestamp = ts, e_Origin = s_nodeID s1, e_Tombstone = False,
           e_Seq = s_seq s1\<rparr>)\<rparr>)))"

text \<open>\<^verbatim>\<open>len(s.data) > 0\<close> is that some key is present.\<close>

definition Seed :: "time \<Rightarrow> (string \<times> 'v) list \<Rightarrow> 'v store \<Rightarrow> goerror option \<times> 'v store" where
  "Seed now initial s =
    (if isClosed s then (Some ErrClosed, s)
     else if s_data s \<noteq> Map.empty then (Some ErrSeedNonEmpty, s)
     else
       let n = of_nat (length initial);
           s1 = Seed_loop now initial s
       in (None, markDirty (add_writesApplied n (add_writesLocal n s1))))"

subsection \<open>Version and TrySet\<close>

record Version =
  v_Timestamp :: time
  v_Origin :: string
  v_Seq :: uint64
  v_Exists :: bool

definition Version_of :: "string \<Rightarrow> 'v store \<Rightarrow> Version" where
  "Version_of key s =
    (case s_data s key of
       None \<Rightarrow> \<lparr>v_Timestamp = 0, v_Origin = '''', v_Seq = 0, v_Exists = False\<rparr>
     | Some e \<Rightarrow>
         if e_Tombstone e then \<lparr>v_Timestamp = 0, v_Origin = '''', v_Seq = 0, v_Exists = False\<rparr>
         else \<lparr>v_Timestamp = e_Timestamp e, v_Origin = e_Origin e, v_Seq = e_Seq e,
               v_Exists = True\<rparr>)"

definition TrySet :: "'t Transport \<Rightarrow> Json \<Rightarrow> time \<Rightarrow> string \<Rightarrow> 'v \<Rightarrow> Version \<Rightarrow> 'v store \<Rightarrow> 't
    \<Rightarrow> (bool \<times> goerror option) \<times> 'v store \<times> 't" where
  "TrySet T J now key value prev s t =
    (if isClosed s then ((False, Some ErrClosed), s, t)
     else
       let curV = (case s_data s key of
                     None \<Rightarrow> \<lparr>v_Timestamp = 0, v_Origin = '''', v_Seq = 0, v_Exists = False\<rparr>
                   | Some cur \<Rightarrow>
                       if e_Tombstone cur
                       then \<lparr>v_Timestamp = 0, v_Origin = '''', v_Seq = 0, v_Exists = False\<rparr>
                       else \<lparr>v_Timestamp = e_Timestamp cur, v_Origin = e_Origin cur,
                             v_Seq = e_Seq cur, v_Exists = True\<rparr>)
       in if curV \<noteq> prev then ((False, None), s, t)
          else case Set T J now key value s t of
            (err, s', t') \<Rightarrow> ((True, err), s', t'))"

subsection \<open>The receive path\<close>

text \<open>
  \<^verbatim>\<open>time.Since(ts)\<close>, that is \<^verbatim>\<open>Now().Sub(ts)\<close>: the difference saturates at the ends of the
  64-bit range of a \<^verbatim>\<open>Duration\<close>.
\<close>

definition time_Sub :: "time \<Rightarrow> time \<Rightarrow> duration" where
  "time_Sub a b =
    (if a - b < - (2 ^ 63) then of_int (- (2 ^ 63))
     else if a - b > 2 ^ 63 - 1 then of_int (2 ^ 63 - 1)
     else of_int (a - b))"

definition skew_of :: "time \<Rightarrow> time \<Rightarrow> duration" where
  "skew_of now ts = (let skew = time_Sub now ts in if skew <s 0 then - skew else skew)"

definition check_skew :: "time \<Rightarrow> wireMessage \<Rightarrow> 'v store \<Rightarrow> 'v store" where
  "check_skew now msg s =
    (if 0 <s s_maxClockSkew s then
       let skew = skew_of now (wm_Timestamp msg) in
       if s_maxClockSkew s <s skew
       then reportError (ErrClockSkew skew (wm_Origin msg) (s_maxClockSkew s)) s
       else s
     else s)"

definition handleRaw :: "Json \<Rightarrow> time \<Rightarrow> bytes \<Rightarrow> 'v store \<Rightarrow> 'v store" where
  "handleRaw J now raw s =
    (case unmarshalMsg J raw of
       Inl e \<Rightarrow> reportError (ErrDecodeWire e) s
     | Inr msg \<Rightarrow>
         if wm_V msg > ProtocolVersion then reportError (ErrWireVersion (wm_V msg)) s
         else if wm_Origin msg = s_nodeID s then s
         else
           let s1 = check_skew now msg s in
           if wm_Kind msg = kindSet then
             (case Unmarshal (s_codec s1) (wm_Value msg) of
                Inl e \<Rightarrow> reportError (ErrDecodeValue (wm_Key msg) e) s1
              | Inr value \<Rightarrow> snd (applyMessage msg value s1))
           else snd (applyMessage msg (s_zero s1) s1))"

text \<open>
  \<^verbatim>\<open>recvLoop\<close> handles the messages it takes from the subscription one after the other, until the
  store is closed or the channel is; the list holds those it took, each with the clock at the time.
\<close>

fun recvLoop :: "Json \<Rightarrow> (time \<times> bytes) list \<Rightarrow> 'v store \<Rightarrow> 'v store" where
  "recvLoop J [] s = s"
| "recvLoop J ((now, raw) # rest) s = recvLoop J rest (handleRaw J now raw s)"

end
