(* ===== verification/Snapshots.thy ===== *)
theory Snapshots
  imports Store_Ops
begin

section \<open>Snapshots, tombstone collection, construction and shutdown\<close>

text \<open>
  The second half of \<^verbatim>\<open>podshare.go\<close>: \<^verbatim>\<open>loadSnapshot\<close>, \<^verbatim>\<open>mergeSnapshot\<close>,
  \<^verbatim>\<open>persistSnapshot\<close>, \<^verbatim>\<open>gcTombstones\<close>, \<^verbatim>\<open>finalFlush\<close>, \<^verbatim>\<open>Refresh\<close>, \<^verbatim>\<open>New\<close>,
  \<^verbatim>\<open>CloseWithContext\<close>, and \<^verbatim>\<open>snapshotLoop\<close> as a machine whose steps are the cases its
  \<^verbatim>\<open>select\<close> statements can take.
\<close>

subsection \<open>Loading and merging\<close>

text \<open>\<^verbatim>\<open>var v T\<close>, decoded unless the entry is a tombstone.\<close>

definition snap_value :: "wireSnapshotEntry \<Rightarrow> 'v store \<Rightarrow> goerror + 'v" where
  "snap_value e s =
    (if se_Tombstone e then Inr (s_zero s) else Unmarshal (s_codec s) (se_Value e))"

definition snap_entry :: "wireSnapshotEntry \<Rightarrow> 'v \<Rightarrow> 'v entry" where
  "snap_entry e v =
    \<lparr>e_Value = v, e_Timestamp = se_Timestamp e, e_Origin = se_Origin e,
     e_Tombstone = se_Tombstone e, e_Seq = se_Seq e\<rparr>"

fun loadSnapshot_loop :: "(string \<times> wireSnapshotEntry) list \<Rightarrow> 'v store
    \<Rightarrow> goerror option \<times> 'v store" where
  "loadSnapshot_loop [] s = (None, s)"
| "loadSnapshot_loop ((k, e) # es) s =
    (case snap_value e s of
       Inl err \<Rightarrow> (Some (ErrDecodeKey k err), s)
     | Inr v \<Rightarrow>
         let s1 = s\<lparr>s_data := (s_data s)(k \<mapsto> snap_entry e v)\<rparr> in
         loadSnapshot_loop es
           (if se_Tombstone e then add_tombstones 1 s1 else add_keysLive 1 s1))"

definition loadSnapshot :: "Json \<Rightarrow> bytes \<Rightarrow> 'v store \<Rightarrow> goerror option \<times> 'v store" where
  "loadSnapshot J raw s =
    (case unmarshalSnap J raw of
       Inl e \<Rightarrow> (Some e, s)
     | Inr snap \<Rightarrow>
         if ws_V snap > ProtocolVersion then (Some (ErrSnapVersion (ws_V snap)), s)
         else loadSnapshot_loop (ws_Entries snap) s)"

definition snap_msg :: "wireSnapshotEntry \<Rightarrow> wireMessage" where
  "snap_msg e =
    \<lparr>wm_V = 0, wm_Kind = (if se_Tombstone e then kindDelete else kindSet), wm_Key = '''',
     wm_Value = [], wm_Origin = se_Origin e, wm_Timestamp = se_Timestamp e,
     wm_Seq = se_Seq e\<rparr>"

fun mergeSnapshot_loop :: "(string \<times> wireSnapshotEntry) list \<Rightarrow> 'v store \<Rightarrow> 'v Event list
    \<Rightarrow> goerror option \<times> 'v store \<times> 'v Event list" where
  "mergeSnapshot_loop [] s events = (None, s, events)"
| "mergeSnapshot_loop ((k, e) # es) s events =
    (if \<not> lwwAccept k (snap_msg e) s then mergeSnapshot_loop es s events
     else case snap_value e s of
       Inl err \<Rightarrow> (Some (ErrDecodeKey k err), s, events)
     | Inr v \<Rightarrow>
         let prev = s_data s k;
             s1 = s\<lparr>s_data := (s_data s)(k \<mapsto> snap_entry e v)\<rparr>;
             s2 = trackTransition (prev_live prev) (prev_tomb prev)
                    (\<not> se_Tombstone e) (se_Tombstone e) (add_writesApplied 1 s1)
         in mergeSnapshot_loop es s2
              (events @ [\<lparr>ev_Kind = (if se_Tombstone e then EventDelete else EventSet),
                          ev_Key = k, ev_Value = v, ev_Origin = se_Origin e,
                          ev_Timestamp = se_Timestamp e\<rparr>]))"

text \<open>The part of \<^verbatim>\<open>mergeSnapshot\<close> up to the release of \<^verbatim>\<open>s.mu\<close>; the events are still to be sent.\<close>

definition mergeSnapshot_locked :: "Json \<Rightarrow> bytes \<Rightarrow> 'v store
    \<Rightarrow> goerror option \<times> 'v store \<times> 'v Event list" where
  "mergeSnapshot_locked J raw s =
    (case unmarshalSnap J raw of
       Inl e \<Rightarrow> (Some e, s, [])
     | Inr snap \<Rightarrow>
         if ws_V snap > ProtocolVersion then (Some (ErrSnapVersion (ws_V snap)), s, [])
         else mergeSnapshot_loop (ws_Entries snap) s [])"

definition mergeSnapshot :: "Json \<Rightarrow> bytes \<Rightarrow> 'v store \<Rightarrow> goerror option \<times> 'v store" where
  "mergeSnapshot J raw s =
    (case mergeSnapshot_locked J raw s of
       (Some e, s1, _) \<Rightarrow> (Some e, s1)
     | (None, s1, events) \<Rightarrow> (None, dispatch_all events s1))"

definition Refresh :: "'t Transport \<Rightarrow> Json \<Rightarrow> 'v store \<Rightarrow> 't
    \<Rightarrow> goerror option \<times> 'v store \<times> 't" where
  "Refresh T J s t =
    (if isClosed s then (Some ErrClosed, s, t)
     else case tr_FetchSnapshot T (s_topic s) t of
       (Inl e, t') \<Rightarrow> (Some (ErrRefreshFetch e), s, t')
     | (Inr raw, t') \<Rightarrow>
         if length raw = 0 then (None, s, t')
         else case mergeSnapshot J raw s of (err, s') \<Rightarrow> (err, s', t'))"

subsection \<open>Persisting and collecting\<close>

text \<open>\<^verbatim>\<open>time.Now().UTC().Add(-s.tombstoneTTL)\<close>\<close>

definition ttl_cutoff :: "time \<Rightarrow> 'v store \<Rightarrow> time" where
  "ttl_cutoff now s = now + sint (- s_tombstoneTTL s)"

definition expired :: "time \<Rightarrow> 'v entry \<Rightarrow> bool" where
  "expired cutoff e \<longleftrightarrow> e_Tombstone e \<and> e_Timestamp e < cutoff"

definition snapshot_entry :: "bytes \<Rightarrow> 'v entry \<Rightarrow> wireSnapshotEntry" where
  "snapshot_entry raw e =
    \<lparr>se_Value = raw, se_Timestamp = e_Timestamp e, se_Origin = e_Origin e,
     se_Tombstone = e_Tombstone e, se_Seq = e_Seq e\<rparr>"

text \<open>
  The loop of \<^verbatim>\<open>persistSnapshot\<close> under \<^verbatim>\<open>s.mu\<close>: the error of the codec, the store, the
  number of collected tombstones and the entries of the snapshot.
\<close>

fun persistSnapshot_loop :: "time \<Rightarrow> string list \<Rightarrow> 'v store \<Rightarrow> nat
    \<Rightarrow> (string \<times> wireSnapshotEntry) list
    \<Rightarrow> goerror option \<times> 'v store \<times> nat \<times> (string \<times> wireSnapshotEntry) list" where
  "persistSnapshot_loop cutoff [] s gced es = (None, s, gced, es)"
| "persistSnapshot_loop cutoff (k # ks) s gced es =
    (case s_data s k of
       None \<Rightarrow> persistSnapshot_loop cutoff ks s gced es
     | Some e \<Rightarrow>
         if expired cutoff e then
           persistSnapshot_loop cutoff ks (s\<lparr>s_data := (s_data s)(k := None)\<rparr>) (gced + 1) es
         else if e_Tombstone e then
           persistSnapshot_loop cutoff ks s gced (es @ [(k, snapshot_entry [] e)])
         else case Marshal (s_codec s) (e_Value e) of
           Inl err \<Rightarrow> (Some (ErrEncodeKey k err), s, gced, es)
         | Inr b \<Rightarrow> persistSnapshot_loop cutoff ks s gced (es @ [(k, snapshot_entry b e)]))"

definition add_tombstonesGCed :: "uint64 \<Rightarrow> 'v store \<Rightarrow> 'v store" where [store_defs]:
  "add_tombstonesGCed n s = s_stats_update (tombstonesGCed_update (\<lambda>c. c + n)) s"

definition count_gced :: "nat \<Rightarrow> 'v store \<Rightarrow> 'v store" where
  "count_gced gced s =
    add_tombstonesGCed (of_nat gced) (add_tombstones (- of_nat gced) s)"

text \<open>
  \<^verbatim>\<open>persistSnapshot\<close> in three parts: \<open>persist_collect\<close> runs under \<^verbatim>\<open>s.mu\<close>; the lock is free
  again while \<open>persist_send\<close> encodes the snapshot and hands it to the transport; and
  \<open>persist_count\<close> then updates the counters, also without the lock. \<open>persist_send\<close> returns the
  length of the body.
\<close>

definition persist_collect :: "time \<Rightarrow> string list \<Rightarrow> 'v store
    \<Rightarrow> goerror option \<times> 'v store \<times> nat \<times> (string \<times> wireSnapshotEntry) list" where
  "persist_collect now ks s = persistSnapshot_loop (ttl_cutoff now s) ks s 0 []"

definition persist_send :: "'t Transport \<Rightarrow> Json \<Rightarrow> string \<Rightarrow> (string \<times> wireSnapshotEntry) list \<Rightarrow> 't
    \<Rightarrow> (goerror + nat) \<times> 't" where
  "persist_send T J topic es t =
    (case marshalSnap J \<lparr>ws_V = ProtocolVersion, ws_Entries = es\<rparr> of
       Inl err \<Rightarrow> (Inl err, t)
     | Inr body \<Rightarrow>
         (case tr_Snapshot T topic body t of
            (Some err, t') \<Rightarrow> (Inl err, t')
          | (None, t') \<Rightarrow> (Inr (length body), t')))"

definition add_snapshots :: "uint64 \<Rightarrow> 'v store \<Rightarrow> 'v store" where [store_defs]:
  "add_snapshots n s = s_stats_update (snapshots_update (\<lambda>c. c + n)) s"

definition set_snapshotBytes :: "int64 \<Rightarrow> 'v store \<Rightarrow> 'v store" where [store_defs]:
  "set_snapshotBytes n s = s_stats_update (snapshotBytes_update (\<lambda>_. n)) s"

definition persist_count :: "nat \<Rightarrow> nat \<Rightarrow> 'v store \<Rightarrow> 'v store" where
  "persist_count len gced s =
    (let s1 = set_snapshotBytes (of_nat len) (add_snapshots 1 s)
     in if gced > 0 then count_gced gced s1 else s1)"

definition persistSnapshot :: "'t Transport \<Rightarrow> Json \<Rightarrow> time \<Rightarrow> string list \<Rightarrow> 'v store \<Rightarrow> 't
    \<Rightarrow> goerror option \<times> 'v store \<times> 't" where
  "persistSnapshot T J now ks s t =
    (case persist_collect now ks s of
       (Some err, s1, _, _) \<Rightarrow> (Some err, s1, t)
     | (None, s1, gced, es) \<Rightarrow>
         (case persist_send T J (s_topic s1) es t of
            (Inl err, t') \<Rightarrow> (Some err, s1, t')
          | (Inr len, t') \<Rightarrow> (None, persist_count len gced s1, t')))"

lemmas persist_parts = persist_collect_def persist_send_def persist_count_def add_snapshots_def
  set_snapshotBytes_def

fun gcTombstones_loop :: "time \<Rightarrow> string list \<Rightarrow> 'v store \<Rightarrow> nat \<Rightarrow> 'v store \<times> nat" where
  "gcTombstones_loop cutoff [] s gced = (s, gced)"
| "gcTombstones_loop cutoff (k # ks) s gced =
    (case s_data s k of
       None \<Rightarrow> gcTombstones_loop cutoff ks s gced
     | Some e \<Rightarrow>
         if expired cutoff e
         then gcTombstones_loop cutoff ks (s\<lparr>s_data := (s_data s)(k := None)\<rparr>) (gced + 1)
         else gcTombstones_loop cutoff ks s gced)"

text \<open>\<^verbatim>\<open>gcTombstones\<close> in two parts: only \<open>gc_collect\<close> holds \<^verbatim>\<open>s.mu\<close>.\<close>

definition gc_collect :: "time \<Rightarrow> string list \<Rightarrow> 'v store \<Rightarrow> 'v store \<times> nat" where
  "gc_collect now ks s = gcTombstones_loop (ttl_cutoff now s) ks s 0"

definition gc_count :: "nat \<Rightarrow> 'v store \<Rightarrow> 'v store" where
  "gc_count gced s = (if gced > 0 then markDirty (count_gced gced s) else s)"

definition gcTombstones :: "time \<Rightarrow> string list \<Rightarrow> 'v store \<Rightarrow> 'v store" where
  "gcTombstones now ks s = (case gc_collect now ks s of (s1, gced) \<Rightarrow> gc_count gced s1)"

definition finalFlush :: "'t Transport \<Rightarrow> Json \<Rightarrow> time \<Rightarrow> string list \<Rightarrow> 'v store \<Rightarrow> 't
    \<Rightarrow> 'v store \<times> 't" where
  "finalFlush T J now ks s t =
    (case persistSnapshot T J now ks (s\<lparr>s_dirty := False\<rparr>) t of
       (Some err, s1, t') \<Rightarrow> (reportError (ErrFinalSnapshot err) s1, t')
     | (None, s1, t') \<Rightarrow> (s1, t'))"

subsection \<open>New\<close>

text \<open>
  \<open>randomID\<close> is what the function \<^verbatim>\<open>randomID\<close> returned; a \<^verbatim>\<open>nil\<close> transport is \<^term>\<open>None\<close>.
  The two goroutines \<^verbatim>\<open>New\<close> starts are the runs of \<open>handleRaw\<close> and of the snapshot loop.
\<close>

definition New :: "'v \<Rightarrow> 'v Codec \<Rightarrow> Json \<Rightarrow> goerror + string \<Rightarrow> string \<Rightarrow> 't Transport option
    \<Rightarrow> 'v Option list \<Rightarrow> 't \<Rightarrow> (goerror + 'v store) \<times> 't" where
  "New zero jsonCodec J randomID topic tr opts t =
    (case tr of
       None \<Rightarrow> (Inl ErrTransportNil, t)
     | Some T \<Rightarrow>
         if topic = '''' then (Inl ErrTopicEmpty, t)
         else
           let s0 = apply_options opts (default_store zero jsonCodec topic) in
           case (if s_nodeID s0 = '''' then map_sum ErrNodeID (\<lambda>i. s0\<lparr>s_nodeID := i\<rparr>) randomID
                 else Inr s0) of
             Inl e \<Rightarrow> (Inl e, t)
           | Inr s \<Rightarrow>
               (case tr_Subscribe T topic t of
                  (Inl e, t1) \<Rightarrow> (Inl (ErrSubscribe topic e), t1)
                | (Inr _, t1) \<Rightarrow>
                    (case tr_FetchSnapshot T topic t1 of
                       (Inl e, t2) \<Rightarrow> (Inl (ErrFetchSnapshot topic e), t2)
                     | (Inr raw, t2) \<Rightarrow>
                         if length raw > 0 then
                           (case loadSnapshot J raw s of
                              (Some e, _) \<Rightarrow> (Inl (ErrLoadSnapshot topic e), t2)
                            | (None, s') \<Rightarrow> (Inr s', t2))
                         else (Inr s, t2))))"

subsection \<open>Shutdown\<close>

text \<open>
  \<^verbatim>\<open>CloseWithContext\<close> closes \<^verbatim>\<open>closeCh\<close> and waits for the goroutines, or for its context.
  \<open>cleaned\<close> are the watchers whose clean-up goroutine has run and \<open>flushed\<close> says whether the
  snapshot loop has flushed by the time the wait ends; \<open>ctxErr\<close> is the context's error if it
  ended first. Then the watchers that are left are removed. \<^verbatim>\<open>closeOnce\<close> makes a later call
  return without doing anything.
\<close>

definition CloseWithContext :: "'t Transport \<Rightarrow> Json \<Rightarrow> time \<Rightarrow> string list \<Rightarrow> goerror option
    \<Rightarrow> nat list \<Rightarrow> bool \<Rightarrow> 'v store \<Rightarrow> 't \<Rightarrow> goerror option \<times> 'v store \<times> 't" where
  "CloseWithContext T J now ks ctxErr cleaned flushed s t =
    (if isClosed s then (None, s, t)
     else
       let s1 = s\<lparr>s_closed := True\<rparr>;
           s2 = fold removeWatcher cleaned s1;
           (s3, t3) = (if flushed then finalFlush T J now ks s2 t else (s2, t));
           s4 = (case ctxErr of None \<Rightarrow> s3 | Some e \<Rightarrow> reportError (ErrCloseTimeout e) s3)
       in (ctxErr, fold removeWatcher (s_watchers s4) s4, t3))"

text \<open>\<^verbatim>\<open>Close\<close> waits without a bound: every goroutine has finished.\<close>

definition Close :: "'t Transport \<Rightarrow> Json \<Rightarrow> time \<Rightarrow> string list \<Rightarrow> 'v store \<Rightarrow> 't
    \<Rightarrow> goerror option \<times> 'v store \<times> 't" where
  "Close T J now ks s t = CloseWithContext T J now ks None (s_watchers s) True s t"

subsection \<open>The snapshot loop\<close>

text \<open>
  Where the goroutine is: at the first \<^verbatim>\<open>select\<close>, waiting out the debounce interval, or
  returned. A step is one case of a \<^verbatim>\<open>select\<close> with the code up to the next one.
\<close>

datatype loop_pc = AtSelect | AtTimer | Returned

inductive snapshotLoop :: "'t Transport \<Rightarrow> Json \<Rightarrow> loop_pc \<times> 'v store \<times> 't
    \<Rightarrow> loop_pc \<times> 'v store \<times> 't \<Rightarrow> bool" for T J where
  close_select: "s_closed s \<Longrightarrow> range_order ks (s_data s) \<Longrightarrow>
    snapshotLoop T J (AtSelect, s, t) (Returned, finalFlush T J now ks s t)"
| dirty_select: "s_dirty s \<Longrightarrow>
    snapshotLoop T J (AtSelect, s, t) (AtTimer, s\<lparr>s_dirty := False\<rparr>, t)"
| gc_select: "0 <s s_gcInterval s \<Longrightarrow> range_order ks (s_data s) \<Longrightarrow>
    snapshotLoop T J (AtSelect, s, t) (AtSelect, gcTombstones now ks s, t)"
| close_timer: "s_closed s \<Longrightarrow> range_order ks (s_data s) \<Longrightarrow>
    snapshotLoop T J (AtTimer, s, t) (Returned, finalFlush T J now ks s t)"
| timer: "range_order ks (s_data s) \<Longrightarrow>
    persistSnapshot T J now ks (s\<lparr>s_dirty := False\<rparr>) t = (err, s1, t1) \<Longrightarrow>
    snapshotLoop T J (AtTimer, s, t)
      (AtSelect, (case err of None \<Rightarrow> s1 | Some e \<Rightarrow> reportError (ErrSnapshot e) s1), t1)"

inductive_cases snapshotLoop_selectE: "snapshotLoop T J (AtSelect, s, t) c"
inductive_cases snapshotLoop_timerE: "snapshotLoop T J (AtTimer, s, t) c"
inductive_simps snapshotLoop_returned [simp]: "snapshotLoop T J (Returned, s, t) c"

end
