(* ===== verification/Store_Inv.thy ===== *)
theory Store_Inv
  imports Snapshots
begin

section \<open>What every store operation preserves\<close>

text \<open>
  Every operation changes the store through a few primitive changes: storing an entry that
  won the comparison (\<open>put_entry\<close>), storing an entry under a fresh key, fanning an event out,
  removing a watcher, and changes that touch neither the data, nor the two gauges, nor the
  watchers (\<open>minor\<close>). The locale \<open>store_change\<close> is this interface: a reflexive and transitive
  relation that the primitives satisfy relates the store before and after every operation. It
  contains the smaller interface \<open>message_change\<close> of the operations that apply one message.
  It is interpreted three times: the gauges agree with the map, the watcher invariant holds,
  and the stamp under a key never decreases.
\<close>

subsection \<open>The primitive changes\<close>

definition put_entry :: "string \<Rightarrow> 'v entry \<Rightarrow> 'v store \<Rightarrow> 'v store" where
  "put_entry k e s =
    trackTransition (prev_live (s_data s k)) (prev_tomb (s_data s k))
      (\<not> e_Tombstone e) (e_Tombstone e)
      (add_writesApplied 1 (s\<lparr>s_data := (s_data s)(k \<mapsto> e)\<rparr>))"

definition minor :: "'v store \<Rightarrow> 'v store \<Rightarrow> bool" where
  "minor s s' \<longleftrightarrow> s_data s' = s_data s \<and> keysLive (s_stats s') = keysLive (s_stats s) \<and>
     tombstones (s_stats s') = tombstones (s_stats s) \<and> s_watchers s' = s_watchers s \<and>
     s_wheap s' = s_wheap s \<and> s_panic s' = s_panic s \<and> s_nextw s' = s_nextw s"

lemma minor_simps [simp]:
  "minor s (add_writesLocal n s)"
  "minor s (add_writesRejected n s)"
  "minor s (add_writesApplied n s)"
  "minor s (markDirty s)"
  "minor s (reportError e s)"
  "minor s (s\<lparr>s_seq := q\<rparr>)"
  "minor s (s\<lparr>s_dirty := d\<rparr>)"
  "minor s (s\<lparr>s_closed := c\<rparr>)"
  "minor s (s_stats_update (reads_update f) s)"
  "minor s (s_stats_update (snapshots_update f) s)"
  "minor s (s_stats_update (snapshotBytes_update g) s)"
  "minor s (check_skew now msg s)"
  by (simp_all add: minor_def store_defs check_skew_def Let_def)

lemma put_entry_data [simp]: "s_data (put_entry k e s) = (s_data s)(k \<mapsto> e)"
  by (simp add: put_entry_def store_defs Let_def)

lemma put_entry_frame [simp]:
  "s_seq (put_entry k e s) = s_seq s"
  "s_nodeID (put_entry k e s) = s_nodeID s"
  "s_codec (put_entry k e s) = s_codec s"
  "s_merger (put_entry k e s) = s_merger s"
  "s_topic (put_entry k e s) = s_topic s"
  "s_closed (put_entry k e s) = s_closed s"
  "s_zero (put_entry k e s) = s_zero s"
  "writesApplied (s_stats (put_entry k e s)) = writesApplied (s_stats s) + 1"
  by (simp_all add: put_entry_def store_defs Let_def)

lemma applyMessage_put:
  "beats (msg_stamp m) (s_data s (wm_Key m)) \<Longrightarrow>
   snd (applyMessage m v s) = dispatch (msg_event m (stored_value m v s))
     (put_entry (wm_Key m) (msg_entry m (stored_value m v s)) s)"
  by (simp add: applyMessage_accepted put_entry_def)

lemma stored_value_set:
  "wm_Kind m = kindSet \<Longrightarrow> stored_value m v s =
    (case (s_merger s, s_data s (wm_Key m)) of
       (Some f, Some p) \<Rightarrow> if \<not> e_Tombstone p then f (e_Value p) v else v
     | _ \<Rightarrow> v)"
  by (simp add: stored_value_def split: option.split)

lemma stored_value_other: "wm_Kind m \<noteq> kindSet \<Longrightarrow> stored_value m v s = v"
  by (simp add: stored_value_def split: option.split)

text \<open>One turn of the batch loops, on each branch.\<close>

lemma SetMany_loop_accept:
  assumes "Marshal (s_codec s) v = Inr payload"
    and "msg = \<lparr>wm_V = ProtocolVersion, wm_Kind = kindSet, wm_Key = k, wm_Value = payload,
                wm_Origin = s_nodeID s, wm_Timestamp = ts, wm_Seq = s_seq s + 1\<rparr>"
    and "beats (msg_stamp msg) (s_data s k)"
  shows "SetMany_loop ts ((k, v) # kvs) s applied events =
    SetMany_loop ts kvs (put_entry k (msg_entry msg (stored_value msg v s)) (s\<lparr>s_seq := s_seq s + 1\<rparr>))
      (applied @ [msg]) (events @ [msg_event msg (stored_value msg v s)])"
proof -
  have "lwwAccept k msg (s\<lparr>s_seq := s_seq s + 1\<rparr>)" using assms(3) by (simp add: lwwAccept_iff)
  then show ?thesis
    using assms(1)
    by (simp add: assms(2) Let_def put_entry_def msg_entry_def msg_event_def stored_value_set)
qed

lemma SetMany_loop_reject:
  assumes "Marshal (s_codec s) v = Inr payload"
    and "\<not> beats (Stamp ts (s_nodeID s) (s_seq s + 1)) (s_data s k)"
  shows "SetMany_loop ts ((k, v) # kvs) s applied events =
    SetMany_loop ts kvs (add_writesRejected 1 (s\<lparr>s_seq := s_seq s + 1\<rparr>)) applied events"
  using assms by (simp add: Let_def lwwAccept_iff msg_stamp_def)

lemma DeleteMany_loop_accept:
  assumes "msg = \<lparr>wm_V = ProtocolVersion, wm_Kind = kindDelete, wm_Key = k, wm_Value = [],
                wm_Origin = s_nodeID s, wm_Timestamp = ts, wm_Seq = s_seq s + 1\<rparr>"
    and "beats (msg_stamp msg) (s_data s k)"
  shows "DeleteMany_loop ts (k # ks) s applied events =
    DeleteMany_loop ts ks (put_entry k (msg_entry msg (s_zero s)) (s\<lparr>s_seq := s_seq s + 1\<rparr>))
      (applied @ [msg]) (events @ [msg_event msg (s_zero s)])"
proof -
  have "lwwAccept k msg (s\<lparr>s_seq := s_seq s + 1\<rparr>)" using assms(2) by (simp add: lwwAccept_iff)
  then show ?thesis
    by (simp add: assms(1) Let_def put_entry_def msg_entry_def msg_event_def)
qed

lemma DeleteMany_loop_reject:
  assumes "\<not> beats (Stamp ts (s_nodeID s) (s_seq s + 1)) (s_data s k)"
  shows "DeleteMany_loop ts (k # ks) s applied events =
    DeleteMany_loop ts ks (add_writesRejected 1 (s\<lparr>s_seq := s_seq s + 1\<rparr>)) applied events"
  using assms by (simp add: Let_def lwwAccept_iff msg_stamp_def)

lemma snap_msg_stamp: "msg_stamp (snap_msg e) = entry_stamp (snap_entry e v)"
  by (simp add: msg_stamp_def snap_msg_def entry_stamp_def snap_entry_def)

lemma mergeSnapshot_loop_accept:
  assumes "beats (entry_stamp (snap_entry e v)) (s_data s k)" "snap_value e s = Inr v"
  shows "\<exists>ev. mergeSnapshot_loop ((k, e) # es) s events =
    mergeSnapshot_loop es (put_entry k (snap_entry e v) s) (events @ [ev])"
proof -
  have "lwwAccept k (snap_msg e) s" using assms(1) by (simp add: lwwAccept_iff snap_msg_stamp [of e v])
  with assms(2) show ?thesis by (auto simp: Let_def put_entry_def snap_entry_def)
qed

subsection \<open>The interface\<close>

text \<open>
  The operations that apply one message at a time need less: a relation that applying a message
  and the minor changes satisfy.
\<close>

locale message_change =
  fixes R :: "'v store \<Rightarrow> 'v store \<Rightarrow> bool"
  assumes M_refl: "R s s"
    and M_trans: "R s s' \<Longrightarrow> R s' s'' \<Longrightarrow> R s s''"
    and M_minor: "minor s s' \<Longrightarrow> R s s'"
    and M_apply: "R s (snd (applyMessage m v s))"
begin

lemma R_minor_apply: "minor s s' \<Longrightarrow> R s (snd (applyMessage m v s'))"
  by (rule M_trans [OF M_minor M_apply])

lemma R_then_minor: "R s s' \<Longrightarrow> minor s' s'' \<Longrightarrow> R s s''"
  by (rule M_trans [OF _ M_minor])

lemma R_markDirty: "R s s' \<Longrightarrow> R s (markDirty s')"
  by (erule R_then_minor) simp

lemma R_report: "R s s' \<Longrightarrow> R s (reportError e s')"
  by (erule R_then_minor) simp

lemma R_add_local: "R s s' \<Longrightarrow> R s (add_writesLocal n s')"
  by (erule R_then_minor) simp

lemma R_add_applied: "R s s' \<Longrightarrow> R s (add_writesApplied n s')"
  by (erule R_then_minor) simp

lemma minor_local: "minor s ((add_writesLocal n s)\<lparr>s_seq := q\<rparr>)"
  by (simp add: minor_def store_defs)

lemmas R_intros = M_refl R_markDirty R_report R_minor_apply [OF minor_local]
  R_minor_apply [OF minor_simps(12)] minor_simps [THEN M_minor]

lemma R_Get: "R s (snd (Get k s))"
  by (auto simp: Get_def Let_def intro: M_minor split: option.split)

lemma R_Set: "R s (fst (snd (Set T J now k v s t)))"
  unfolding Set_def Let_def
  by (auto simp: case_prod_unfold intro: R_intros split: sum.split option.split)

lemma R_Delete: "R s (fst (snd (Delete T J now k s t)))"
  unfolding Delete_def Let_def
  by (auto simp: case_prod_unfold intro: R_intros split: sum.split option.split)

lemma R_TrySet: "R s (fst (snd (TrySet T J now k v prev s t)))"
  using R_Set [of s T J now k v t]
  by (simp add: TrySet_def Let_def case_prod_unfold M_refl)

lemma R_handleRaw: "R s (handleRaw J now raw s)"
  unfolding handleRaw_def Let_def
  by (auto intro: R_intros split: sum.split)

end

text \<open>The primitive changes give the contract for messages.\<close>

locale store_change =
  fixes R :: "'v store \<Rightarrow> 'v store \<Rightarrow> bool"
  assumes R_refl: "R s s"
    and R_trans: "R s s' \<Longrightarrow> R s' s'' \<Longrightarrow> R s s''"
    and R_put: "beats (entry_stamp e) (s_data s k) \<Longrightarrow> R s (put_entry k e s)"
    and R_fresh: "s_data s k = None \<Longrightarrow>
      R s ((if e_Tombstone e then add_tombstones 1 else add_keysLive 1)
             (s\<lparr>s_data := (s_data s)(k \<mapsto> e)\<rparr>))"
    and R_dispatch: "R s (dispatch ev s)"
    and R_removeWatcher: "R s (removeWatcher i s)"
    and R_minor: "minor s s' \<Longrightarrow> R s s'"
begin

lemma R_step: "R s s' \<Longrightarrow> R s' (f s') \<Longrightarrow> R s (f s')"
  by (rule R_trans)

lemma R_fold: "(\<And>x s. x \<in> set xs \<Longrightarrow> R s (f x s)) \<Longrightarrow> R s (fold f xs s)"
  by (induction xs arbitrary: s) (auto intro: R_refl R_trans)

lemma R_dispatch_all: "R s (dispatch_all evs s)"
  unfolding dispatch_all_def by (rule R_fold) (rule R_dispatch)

lemma R_apply: "R s (snd (applyMessage m v s))"
proof (cases "beats (msg_stamp m) (s_data s (wm_Key m))")
  case True
  then have "R s (put_entry (wm_Key m) (msg_entry m (stored_value m v s)) s)"
    by (intro R_put) simp
  then show ?thesis unfolding applyMessage_put [OF True] by (rule R_trans [OF _ R_dispatch])
next
  case False
  then show ?thesis by (simp add: applyMessage_rejected R_minor)
qed

end

sublocale store_change \<subseteq> message_change
  by unfold_locales (rule R_refl, erule (1) R_trans, erule R_minor, rule R_apply)

context store_change
begin

text \<open>The batch loops.\<close>

lemma R_put_seq:
  "beats (entry_stamp e) (s_data s k) \<Longrightarrow> R (put_entry k e (s\<lparr>s_seq := q\<rparr>)) s' \<Longrightarrow> R s s'"
  by (rule R_trans [OF R_minor, of s "s\<lparr>s_seq := q\<rparr>"], simp)
     (rule R_trans [OF R_put], simp_all)

lemma R_SetMany_loop: "R s (fst (snd (SetMany_loop ts kvs s applied events)))"
proof (induction kvs arbitrary: s applied events)
  case Nil
  then show ?case by (simp add: R_refl)
next
  case (Cons kv kvs)
  obtain k v where kv: "kv = (k, v)" by (cases kv)
  show ?case
  proof (cases "Marshal (s_codec s) v")
    case (Inl e)
    then show ?thesis by (simp add: kv R_refl)
  next
    case (Inr payload)
    define msg where "msg = \<lparr>wm_V = ProtocolVersion, wm_Kind = kindSet, wm_Key = k,
      wm_Value = payload, wm_Origin = s_nodeID s, wm_Timestamp = ts, wm_Seq = s_seq s + 1\<rparr>"
    have st: "msg_stamp msg = Stamp ts (s_nodeID s) (s_seq s + 1)"
      by (simp add: msg_def msg_stamp_def)
    show ?thesis
    proof (cases "beats (msg_stamp msg) (s_data s k)")
      case True
      show ?thesis
        unfolding kv SetMany_loop_accept [OF Inr msg_def True]
        by (rule R_put_seq [OF _ Cons.IH]) (simp add: True)
    next
      case False
      have "minor s (add_writesRejected 1 (s\<lparr>s_seq := s_seq s + 1\<rparr>))"
        by (simp add: minor_def store_defs)
      with False show ?thesis
        unfolding kv SetMany_loop_reject [OF Inr False [unfolded st]]
        by (auto intro: R_trans [OF R_minor Cons.IH])
    qed
  qed
qed

lemma R_after_local: "R (add_writesLocal n s) s' \<Longrightarrow> R s s'"
  by (rule R_trans [OF R_minor]) simp_all

lemma R_SetMany: "R s (fst (snd (SetMany T J now kvs s t)))"
proof -
  let ?L = "SetMany_loop now kvs (add_writesLocal (of_nat (length kvs)) s) [] []"
  have "R s (fst (snd ?L))" by (rule R_after_local) (rule R_SetMany_loop)
  moreover from this have "R s (dispatch_all evs (fst (snd ?L)))" for evs
    by (rule R_trans [OF _ R_dispatch_all])
  ultimately show ?thesis
    unfolding SetMany_def Let_def
    by (auto simp: case_prod_unfold intro: R_refl R_markDirty split: option.split)
qed

lemma R_DeleteMany_loop: "R s (fst (DeleteMany_loop ts ks s applied events))"
proof (induction ks arbitrary: s applied events)
  case Nil
  then show ?case by (simp add: R_refl)
next
  case (Cons k ks)
  define msg where "msg = \<lparr>wm_V = ProtocolVersion, wm_Kind = kindDelete, wm_Key = k,
    wm_Value = [], wm_Origin = s_nodeID s, wm_Timestamp = ts, wm_Seq = s_seq s + 1\<rparr>"
  have st: "msg_stamp msg = Stamp ts (s_nodeID s) (s_seq s + 1)"
    by (simp add: msg_def msg_stamp_def)
  show ?case
  proof (cases "beats (msg_stamp msg) (s_data s k)")
    case True
    show ?thesis
      unfolding DeleteMany_loop_accept [OF msg_def True]
      by (rule R_put_seq [OF _ Cons.IH]) (simp add: True)
  next
    case False
    show ?thesis
      unfolding DeleteMany_loop_reject [OF False [unfolded st]]
      by (rule R_trans [OF R_minor Cons.IH]) (simp add: minor_def store_defs)
  qed
qed

lemma R_DeleteMany: "R s (fst (snd (DeleteMany T J now ks s t)))"
proof -
  let ?L = "DeleteMany_loop now ks (add_writesLocal (of_nat (length ks)) s) [] []"
  have "R s (fst ?L)" by (rule R_after_local) (rule R_DeleteMany_loop)
  then have "R s (dispatch_all evs (fst ?L))" for evs by (rule R_trans [OF _ R_dispatch_all])
  then show ?thesis
    unfolding DeleteMany_def Let_def
    by (auto simp: case_prod_unfold intro: R_refl R_markDirty split: option.split)
qed

lemma R_fresh_trans:
  "s_data s k = None \<Longrightarrow>
   R ((if e_Tombstone e then add_tombstones 1 else add_keysLive 1)
        (s\<lparr>s_data := (s_data s)(k \<mapsto> e)\<rparr>)) s' \<Longrightarrow> R s s'"
  by (rule R_trans [OF R_fresh])

lemma R_Seed_loop:
  "distinct (map fst kvs) \<Longrightarrow> (\<forall>k \<in> fst ` set kvs. s_data s k = None) \<Longrightarrow> R s (Seed_loop ts kvs s)"
proof (induction kvs arbitrary: s)
  case Nil
  then show ?case by (simp add: R_refl)
next
  case (Cons kv kvs)
  obtain k v where kv: "kv = (k, v)" by (cases kv)
  let ?s1 = "s\<lparr>s_seq := s_seq s + 1\<rparr>"
  let ?e = "\<lparr>e_Value = v, e_Timestamp = ts, e_Origin = s_nodeID s, e_Tombstone = False,
             e_Seq = s_seq s + 1\<rparr>"
  let ?s2 = "add_keysLive 1 (?s1\<lparr>s_data := (s_data ?s1)(k \<mapsto> ?e)\<rparr>)"
  have "R ?s2 (Seed_loop ts kvs ?s2)"
    using Cons.prems by (intro Cons.IH) (auto simp: kv store_defs)
  then have "R ?s1 (Seed_loop ts kvs ?s2)"
    using Cons.prems R_fresh_trans [of ?s1 k ?e] by (simp add: kv)
  then have "R s (Seed_loop ts kvs ?s2)" by (rule R_trans [OF R_minor, rotated]) simp
  then show ?case by (simp add: kv Let_def)
qed

lemma R_Seed: "distinct (map fst kvs) \<Longrightarrow> R s (snd (Seed now kvs s))"
  unfolding Seed_def Let_def
  by (auto intro!: R_refl R_markDirty R_add_local R_add_applied R_Seed_loop)

lemma R_loadSnapshot_loop:
  "distinct (map fst es) \<Longrightarrow> (\<forall>k \<in> fst ` set es. s_data s k = None) \<Longrightarrow>
   R s (snd (loadSnapshot_loop es s))"
proof (induction es arbitrary: s)
  case Nil
  then show ?case by (simp add: R_refl)
next
  case (Cons ke es)
  obtain k e where ke: "ke = (k, e)" by (cases ke)
  show ?case
  proof (cases "snap_value e s")
    case (Inl err)
    then show ?thesis by (simp add: ke R_refl)
  next
    case (Inr v)
    let ?s1 = "(if se_Tombstone e then add_tombstones 1 else add_keysLive 1)
      (s\<lparr>s_data := (s_data s)(k \<mapsto> snap_entry e v)\<rparr>)"
    have "R ?s1 (snd (loadSnapshot_loop es ?s1))"
      using Cons.prems by (intro Cons.IH) (auto simp: ke store_defs)
    then have "R s (snd (loadSnapshot_loop es ?s1))"
      using Cons.prems R_fresh_trans [of s k "snap_entry e v"] by (simp add: ke snap_entry_def)
    with Inr show ?thesis by (simp add: ke Let_def split: if_splits)
  qed
qed

lemma R_mergeSnapshot_loop: "R s (fst (snd (mergeSnapshot_loop es s events)))"
proof (induction es arbitrary: s events)
  case Nil
  then show ?case by (simp add: R_refl)
next
  case (Cons ke es)
  obtain k e where ke: "ke = (k, e)" by (cases ke)
  show ?case
  proof (cases "lwwAccept k (snap_msg e) s")
    case False
    with Cons.IH show ?thesis by (simp add: ke)
  next
    case True
    show ?thesis
    proof (cases "snap_value e s")
      case (Inl err)
      with True show ?thesis by (simp add: ke R_refl)
    next
      case (Inr v)
      have b: "beats (entry_stamp (snap_entry e v)) (s_data s k)"
        using True by (simp add: lwwAccept_iff snap_msg_stamp [of e v])
      obtain ev where ev: "mergeSnapshot_loop ((k, e) # es) s events =
          mergeSnapshot_loop es (put_entry k (snap_entry e v) s) (events @ [ev])"
        using mergeSnapshot_loop_accept [OF b Inr] by blast
      show ?thesis unfolding ke ev by (rule R_trans [OF R_put [OF b] Cons.IH])
    qed
  qed
qed

lemma R_mergeSnapshot_locked: "R s (fst (snd (mergeSnapshot_locked J raw s)))"
  unfolding mergeSnapshot_locked_def
  by (auto intro: R_refl R_mergeSnapshot_loop split: sum.split)

lemma R_mergeSnapshot: "R s (snd (mergeSnapshot J raw s))"
proof -
  have "R s (fst (snd (mergeSnapshot_locked J raw s)))" by (rule R_mergeSnapshot_locked)
  moreover from this have "R s (dispatch_all evs (fst (snd (mergeSnapshot_locked J raw s))))" for evs
    by (rule R_trans [OF _ R_dispatch_all])
  ultimately show ?thesis
    unfolding mergeSnapshot_def by (auto simp: case_prod_unfold split: option.split)
qed

lemma R_Refresh: "R s (fst (snd (Refresh T J s t)))"
  unfolding Refresh_def
  by (auto simp: case_prod_unfold intro: R_refl R_mergeSnapshot split: sum.split)

lemma R_remove_all: "R s (fold removeWatcher is s)"
  by (rule R_fold) (rule R_removeWatcher)

end

subsection \<open>The gauges\<close>

lemma counters_ok_cong:
  "minor s s' \<Longrightarrow> counters_ok s' = counters_ok s"
  by (simp add: minor_def counters_ok_def)

lemma counters_put: "counters_ok s \<Longrightarrow> counters_ok (put_entry k e s)"
  by (erule counters_ok_put [where k = k and e = e])
     (simp_all add: put_entry_def store_defs Let_def)

lemma counters_fresh:
  assumes "counters_ok s" "s_data s k = None"
  shows "counters_ok ((if e_Tombstone e then add_tombstones 1 else add_keysLive 1)
    (s\<lparr>s_data := (s_data s)(k \<mapsto> e)\<rparr>))"
  using assms(1)
  by (rule counters_ok_put [where k = k and e = e])
     (simp_all add: assms(2) store_defs Let_def)

interpretation gauges: store_change "\<lambda>s s'. counters_ok s \<longrightarrow> counters_ok s'"
proof unfold_locales
  show "counters_ok s \<longrightarrow> counters_ok (dispatch ev s)" for s :: "'v store" and ev
    by (simp add: counters_ok_def)
  show "counters_ok s \<longrightarrow> counters_ok (removeWatcher i s)" for s :: "'v store" and i
    using removeWatcher_core [of s i] by (simp add: counters_ok_def same_core_def)
  show "minor s s' \<Longrightarrow> counters_ok s \<longrightarrow> counters_ok s'" for s s' :: "'v store"
    by (simp add: counters_ok_cong)
  show "s_data s k = None \<Longrightarrow> counters_ok s \<longrightarrow>
      counters_ok ((if e_Tombstone e then add_tombstones 1 else add_keysLive 1)
        (s\<lparr>s_data := (s_data s)(k \<mapsto> e)\<rparr>))" for s :: "'v store" and k e
    using counters_fresh by blast
qed (auto intro: counters_put)

subsection \<open>The watchers\<close>

interpretation winv: store_change "\<lambda>s s'. watch_inv s \<longrightarrow> watch_inv s'"
proof unfold_locales
  show "minor s s' \<Longrightarrow> watch_inv s \<longrightarrow> watch_inv s'" for s s' :: "'v store"
    by (simp add: minor_def watch_inv_def)
  show "watch_inv s \<longrightarrow> watch_inv (put_entry k e s)" for s :: "'v store" and k e
    by (simp add: watch_inv_def put_entry_def store_defs Let_def)
  show "watch_inv s \<longrightarrow> watch_inv ((if e_Tombstone e then add_tombstones 1 else add_keysLive 1)
      (s\<lparr>s_data := (s_data s)(k \<mapsto> e)\<rparr>))" for s :: "'v store" and k e
    by (simp add: watch_inv_def store_defs)
qed auto

subsection \<open>Stamps never decrease\<close>

definition data_le :: "(string \<rightharpoonup> 'v entry) \<Rightarrow> (string \<rightharpoonup> 'v entry) \<Rightarrow> bool" where
  "data_le d d' \<longleftrightarrow> (\<forall>k e. d k = Some e \<longrightarrow>
     (\<exists>e'. d' k = Some e' \<and> (e' = e \<or> entry_stamp e < entry_stamp e')))"

lemma data_le_refl [simp]: "data_le d d"
  by (simp add: data_le_def)

lemma data_le_trans:
  assumes "data_le d d'" "data_le d' d''"
  shows "data_le d d''"
  unfolding data_le_def
proof (intro allI impI)
  fix k e assume "d k = Some e"
  with assms(1) obtain e1 where 1: "d' k = Some e1" "e1 = e \<or> entry_stamp e < entry_stamp e1"
    unfolding data_le_def by blast
  with assms(2) obtain e2 where 2: "d'' k = Some e2" "e2 = e1 \<or> entry_stamp e1 < entry_stamp e2"
    unfolding data_le_def by blast
  from 1(2) 2(2) have "e2 = e \<or> entry_stamp e < entry_stamp e2" by (auto intro: less_trans)
  with 2(1) show "\<exists>e'. d'' k = Some e' \<and> (e' = e \<or> entry_stamp e < entry_stamp e')" by blast
qed

lemma data_le_upd: "beats (entry_stamp e) (d k) \<Longrightarrow> data_le d (d(k \<mapsto> e))"
  by (auto simp: data_le_def)

interpretation stamps: store_change "\<lambda>s s'. data_le (s_data s) (s_data s')"
proof unfold_locales
  show "data_le (s_data s) (s_data (removeWatcher i s))" for s :: "'v store" and i
    using removeWatcher_core [of s i] by (simp add: same_core_def)
  show "minor s s' \<Longrightarrow> data_le (s_data s) (s_data s')" for s s' :: "'v store"
    by (simp add: minor_def)
  show "s_data s k = None \<Longrightarrow> data_le (s_data s)
      (s_data ((if e_Tombstone e then add_tombstones 1 else add_keysLive 1)
        (s\<lparr>s_data := (s_data s)(k \<mapsto> e)\<rparr>)))" for s :: "'v store" and k e
    by (simp add: store_defs data_le_upd)
qed (auto intro: data_le_trans data_le_upd)

end
