(* ===== verification/Tombstones.thy ===== *)
theory Tombstones
  imports Store_Inv
begin

section \<open>Tombstone collection and snapshot persistence\<close>

text \<open>
  What the two collecting loops (\<^verbatim>\<open>gcTombstones\<close> and \<^verbatim>\<open>persistSnapshot\<close>) leave in the map,
  how they move the counters, and the round trip of a snapshot through \<^verbatim>\<open>persistSnapshot\<close>
  and \<^verbatim>\<open>loadSnapshot\<close>.
\<close>

subsection \<open>What is collected\<close>

definition expired_at :: "time \<Rightarrow> (string \<rightharpoonup> 'v entry) \<Rightarrow> string \<Rightarrow> bool" where
  "expired_at cutoff d k = (case d k of None \<Rightarrow> False | Some e \<Rightarrow> expired cutoff e)"

definition collect_on :: "time \<Rightarrow> string list \<Rightarrow> (string \<rightharpoonup> 'v entry) \<Rightarrow> (string \<rightharpoonup> 'v entry)" where
  "collect_on cutoff ks d = (\<lambda>k. if k \<in> set ks \<and> expired_at cutoff d k then None else d k)"

definition n_expired :: "time \<Rightarrow> string list \<Rightarrow> (string \<rightharpoonup> 'v entry) \<Rightarrow> nat" where
  "n_expired cutoff ks d = length (filter (expired_at cutoff d) ks)"

lemma collect_on_Nil [simp]: "collect_on c [] d = d"
  by (simp add: collect_on_def)

lemma n_expired_Nil [simp]: "n_expired c [] d = 0"
  by (simp add: n_expired_def)

lemma collect_on_keep: "\<not> expired_at c d k \<Longrightarrow> collect_on c (k # ks) d = collect_on c ks d"
  by (auto simp: collect_on_def fun_eq_iff)

lemma collect_on_drop:
  "k \<notin> set ks \<Longrightarrow> expired_at c d k \<Longrightarrow> collect_on c (k # ks) d = collect_on c ks (d(k := None))"
  by (auto simp: collect_on_def expired_at_def fun_eq_iff)

lemma n_expired_Cons:
  "k \<notin> set ks \<Longrightarrow> n_expired c (k # ks) d =
     (if expired_at c d k then Suc (n_expired c ks (d(k := None))) else n_expired c ks d)"
proof -
  assume "k \<notin> set ks"
  then have "filter (expired_at c (d(k := None))) ks = filter (expired_at c d) ks"
    by (intro filter_cong) (auto simp: expired_at_def)
  then show ?thesis by (simp add: n_expired_def)
qed

lemma collect_stored:
  "s\<lparr>s_data := collect_on c ks d\<rparr>\<lparr>s_data := d'\<rparr> = s\<lparr>s_data := d'\<rparr>"
  by simp

lemma gcTombstones_loop_spec:
  "distinct ks \<Longrightarrow> gcTombstones_loop c ks s n =
    (s\<lparr>s_data := collect_on c ks (s_data s)\<rparr>, n + n_expired c ks (s_data s))"
proof (induction ks arbitrary: s n)
  case (Cons k ks)
  then have nin: "k \<notin> set ks" and dist: "distinct ks" by auto
  show ?case
  proof (cases "expired_at c (s_data s) k")
    case True
    then obtain e where "s_data s k = Some e" "expired c e"
      by (auto simp: expired_at_def split: option.splits)
    with True nin show ?thesis
      using Cons.IH [OF dist]
      by (simp add: collect_on_drop [OF nin True] n_expired_Cons [OF nin] del: fun_upd_apply)
  next
    case False
    with nin Cons.IH [OF dist] show ?thesis
      by (auto simp: collect_on_keep n_expired_Cons expired_at_def split: option.split)
  qed
qed simp

text \<open>Collecting moves the tombstone count by the number collected and keeps the live count.\<close>

lemma collect_count:
  assumes "distinct ks" "finite (dom d)"
  shows "finite (dom (collect_on c ks d)) \<and>
    tomb_count (collect_on c ks d) + n_expired c ks d = tomb_count d \<and>
    live_count (collect_on c ks d) = live_count d"
  using assms
proof (induction ks arbitrary: d)
  case (Cons k ks)
  then have nin: "k \<notin> set ks" and dist: "distinct ks" and fin: "finite (dom d)" by auto
  show ?case
  proof (cases "expired_at c d k")
    case True
    then obtain e where e: "d k = Some e" "e_Tombstone e"
      by (auto simp: expired_at_def expired_def split: option.splits)
    have "tomb_count (d(k := None)) + 1 = tomb_count d" "live_count (d(k := None)) = live_count d"
      using count_in_fun_upd [OF fin, of e_Tombstone k None]
        count_in_fun_upd [OF fin, of "\<lambda>e. \<not> e_Tombstone e" k None] e
      by (simp_all add: tomb_count_def live_count_def)
    moreover have "finite (dom (d(k := None)))" using fin by simp
    ultimately show ?thesis
      using Cons.IH [OF dist, of "d(k := None)"] True nin
      by (simp add: collect_on_drop n_expired_Cons del: fun_upd_apply)
  next
    case False
    with nin Cons.IH [OF dist fin] show ?thesis by (simp add: collect_on_keep n_expired_Cons)
  qed
qed simp

lemma count_gced_effect:
  assumes "counters_ok s" "distinct ks"
    and data: "s_data s' = collect_on c ks (s_data s)"
    and live: "keysLive (s_stats s') = keysLive (s_stats s)"
    and tomb: "tombstones (s_stats s') = tombstones (s_stats s)"
  shows "counters_ok (count_gced (n_expired c ks (s_data s)) s')"
proof -
  have fin: "finite (dom (s_data s))" using assms(1) by (simp add: counters_ok_def)
  note cc = collect_count [OF assms(2) fin, of c]
  have "(of_nat (tomb_count (s_data s)) :: int64) =
      of_nat (tomb_count (collect_on c ks (s_data s))) + of_nat (n_expired c ks (s_data s))"
    unfolding of_nat_add [symmetric] using cc by (simp only:)
  then have "(of_nat (tomb_count (s_data s)) - of_nat (n_expired c ks (s_data s)) :: int64) =
      of_nat (tomb_count (collect_on c ks (s_data s)))"
    by (simp only: diff_eq_eq)
  with cc show ?thesis
    using assms(1) data live tomb
    by (simp add: counters_ok_def count_gced_def store_defs)
qed

lemma count_gced_0: "count_gced 0 s = s"
  by (simp add: count_gced_def store_defs)

lemma gcTombstones_eq:
  assumes "distinct ks"
  defines "s1 \<equiv> \<lambda>s c. s\<lparr>s_data := collect_on c ks (s_data s)\<rparr>"
  shows "gcTombstones now ks s =
    (let c = ttl_cutoff now s; n = n_expired c ks (s_data s) in
     if n > 0 then markDirty (count_gced n (s1 s c)) else s1 s c)"
  by (simp add: gcTombstones_def gc_collect_def gc_count_def gcTombstones_loop_spec [OF assms(1)] Let_def s1_def)

lemma gcTombstones_counters:
  assumes "counters_ok s" "distinct ks"
  shows "counters_ok (gcTombstones now ks s)"
proof -
  let ?c = "ttl_cutoff now s"
  let ?s1 = "s\<lparr>s_data := collect_on ?c ks (s_data s)\<rparr>"
  have "counters_ok (count_gced (n_expired ?c ks (s_data s)) ?s1)"
    by (rule count_gced_effect [OF assms]) simp_all
  then show ?thesis
    unfolding gcTombstones_eq [OF assms(2)] Let_def
    by (auto simp: count_gced_0 counters_ok_def store_defs)
qed

subsection \<open>persistSnapshot\<close>

text \<open>The entry \<^verbatim>\<open>persistSnapshot\<close> writes for a key that it keeps.\<close>

definition encode_entry :: "'v Codec \<Rightarrow> 'v entry \<Rightarrow> goerror + wireSnapshotEntry" where
  "encode_entry c e =
    (if e_Tombstone e then Inr (snapshot_entry [] e)
     else map_sum id (\<lambda>b. snapshot_entry b e) (Marshal c (e_Value e)))"

fun kept_entries :: "'v Codec \<Rightarrow> time \<Rightarrow> string list \<Rightarrow> (string \<rightharpoonup> 'v entry)
    \<Rightarrow> (string \<times> wireSnapshotEntry) list" where
  "kept_entries c lim [] d = []"
| "kept_entries c lim (k # ks) d =
    (case d k of
       None \<Rightarrow> kept_entries c lim ks d
     | Some e \<Rightarrow>
         if expired lim e then kept_entries c lim ks d
         else case encode_entry c e of
           Inl err \<Rightarrow> kept_entries c lim ks d
         | Inr we \<Rightarrow> (k, we) # kept_entries c lim ks d)"

definition all_encodable :: "'v Codec \<Rightarrow> (string \<rightharpoonup> 'v entry) \<Rightarrow> bool" where
  "all_encodable c d \<longleftrightarrow>
     (\<forall>k e. d k = Some e \<longrightarrow> \<not> e_Tombstone e \<longrightarrow> (\<exists>b. Marshal c (e_Value e) = Inr b))"

lemma kept_entries_cong:
  "(\<And>k. k \<in> set ks \<Longrightarrow> d k = d' k) \<Longrightarrow> kept_entries c lim ks d = kept_entries c lim ks d'"
  by (induction ks) (auto split: option.split sum.split)

lemma all_encodable_drop: "all_encodable c d \<Longrightarrow> all_encodable c (d(k := None))"
  by (simp add: all_encodable_def)

lemma persistSnapshot_loop_spec:
  "distinct ks \<Longrightarrow> all_encodable (s_codec s) (s_data s) \<Longrightarrow>
   persistSnapshot_loop lim ks s n es =
    (None, s\<lparr>s_data := collect_on lim ks (s_data s)\<rparr>, n + n_expired lim ks (s_data s),
     es @ kept_entries (s_codec s) lim ks (s_data s))"
proof (induction ks arbitrary: s n es)
  case (Cons k ks)
  then have nin: "k \<notin> set ks" and dist: "distinct ks"
    and enc: "all_encodable (s_codec s) (s_data s)" by auto
  note IH = Cons.IH [OF dist]
  show ?case
  proof (cases "s_data s k")
    case None
    then have "\<not> expired_at lim (s_data s) k" by (simp add: expired_at_def)
    with None IH [OF enc] nin show ?thesis by (simp add: collect_on_keep n_expired_Cons)
  next
    case (Some e)
    show ?thesis
    proof (cases "expired lim e")
      case True
      with Some have ex: "expired_at lim (s_data s) k" by (simp add: expired_at_def)
      let ?s = "s\<lparr>s_data := (s_data s)(k := None)\<rparr>"
      have "kept_entries (s_codec s) lim ks ((s_data s)(k := None)) =
          kept_entries (s_codec s) lim ks (s_data s)"
        using nin by (intro kept_entries_cong) auto
      then show ?thesis
        using Some True ex nin IH [of ?s] all_encodable_drop [OF enc]
        by (simp add: collect_on_drop n_expired_Cons del: fun_upd_apply)
    next
      case False
      with Some have ex: "\<not> expired_at lim (s_data s) k" by (simp add: expired_at_def)
      show ?thesis
      proof (cases "e_Tombstone e")
        case True
        with Some False ex nin IH [OF enc] show ?thesis
          by (simp add: collect_on_keep n_expired_Cons encode_entry_def)
      next
        case live: False
        with enc Some obtain b where "Marshal (s_codec s) (e_Value e) = Inr b"
          unfolding all_encodable_def by blast
        with Some False live ex nin IH [OF enc] show ?thesis
          by (simp add: collect_on_keep n_expired_Cons encode_entry_def)
      qed
    qed
  qed
qed simp

lemma persistSnapshot_loop_frame:
  assumes "persistSnapshot_loop lim ks s n es = (err, s1, n1, es1)"
  shows "\<exists>d. s1 = s\<lparr>s_data := d\<rparr>"
  using assms
proof (induction ks arbitrary: s n es)
  case Nil
  then have "s1 = s\<lparr>s_data := s_data s\<rparr>" by simp
  then show ?case by blast
next
  case (Cons k ks)
  show ?case
  proof (cases "s_data s k")
    case None
    with Cons show ?thesis by simp
  next
    case (Some e)
    have self: "\<exists>d. s = s\<lparr>s_data := d\<rparr>" by (rule exI [of _ "s_data s"]) simp
    consider (gone) "expired lim e" | (tomb) "\<not> expired lim e" "e_Tombstone e"
      | (live) "\<not> expired lim e" "\<not> e_Tombstone e" by blast
    then show ?thesis
    proof cases
      case gone
      with Some Cons.prems have "persistSnapshot_loop lim ks (s\<lparr>s_data := (s_data s)(k := None)\<rparr>)
          (n + 1) es = (err, s1, n1, es1)" by simp
      from Cons.IH [OF this] show ?thesis by auto
    next
      case tomb
      with Some Cons show ?thesis by auto
    next
      case live
      with Some Cons self show ?thesis by (auto split: sum.splits)
    qed
  qed
qed

lemma persistSnapshot_frame:
  assumes "persistSnapshot T J now ks s t = (err, s', t')"
  shows "s_watchers s' = s_watchers s \<and> s_wheap s' = s_wheap s \<and> s_panic s' = s_panic s \<and>
    s_nextw s' = s_nextw s \<and> s_closed s' = s_closed s \<and> s_nodeID s' = s_nodeID s \<and>
    s_seq s' = s_seq s \<and> s_topic s' = s_topic s \<and> s_onError s' = s_onError s"
proof -
  obtain e s1 n es where loop:
      "persistSnapshot_loop (ttl_cutoff now s) ks s 0 [] = (e, s1, n, es)"
    by (metis prod.exhaust)
  from persistSnapshot_loop_frame [OF loop] obtain d where d: "s1 = s\<lparr>s_data := d\<rparr>" by blast
  show ?thesis
    using assms unfolding persistSnapshot_def persist_parts loop
    by (auto simp: d Let_def count_gced_def store_defs split: option.splits sum.splits prod.splits
        if_splits)
qed

text \<open>On every codable map the outcome is decided by the encoder and the transport.\<close>

lemma persistSnapshot_eq:
  assumes "distinct ks" "all_encodable (s_codec s) (s_data s)"
  shows "persistSnapshot T J now ks s t =
    (let c = ttl_cutoff now s;
         s1 = s\<lparr>s_data := collect_on c ks (s_data s)\<rparr>;
         n = n_expired c ks (s_data s);
         snap = \<lparr>ws_V = ProtocolVersion, ws_Entries = kept_entries (s_codec s) c ks (s_data s)\<rparr>
     in case marshalSnap J snap of
          Inl err \<Rightarrow> (Some err, s1, t)
        | Inr body \<Rightarrow>
            (case tr_Snapshot T (s_topic s) body t of
               (Some err, t') \<Rightarrow> (Some err, s1, t')
             | (None, t') \<Rightarrow>
                 (None, count_gced n (s_stats_update
                    (snapshotBytes_update (\<lambda>_. of_nat (length body)) \<circ>
                     snapshots_update (\<lambda>c. c + 1)) s1), t')))"
  unfolding persistSnapshot_def persist_parts persistSnapshot_loop_spec [OF assms]
  by (auto simp: Let_def count_gced_0 split: sum.split prod.split option.split)

lemma persistSnapshot_counters:
  assumes "counters_ok s" "distinct ks" "all_encodable (s_codec s) (s_data s)"
    and "persistSnapshot T J now ks s t = (None, s', t')"
  shows "counters_ok s'"
proof -
  let ?c = "ttl_cutoff now s"
  from assms(4) have "\<exists>b. s' = count_gced (n_expired ?c ks (s_data s)) (s_stats_update
       (snapshotBytes_update (\<lambda>_. b) \<circ> snapshots_update (\<lambda>c. c + 1))
       (s\<lparr>s_data := collect_on ?c ks (s_data s)\<rparr>))"
    unfolding persistSnapshot_eq [OF assms(2,3)] Let_def
    by (auto split: sum.splits prod.splits option.splits)
  then show ?thesis
    using count_gced_effect [OF assms(1,2)] by auto
qed

subsection \<open>The round trip of a snapshot\<close>

text \<open>A snapshot carries no value for a tombstone, so a loaded tombstone has the zero value.\<close>

definition norm_entry :: "'v \<Rightarrow> 'v entry \<Rightarrow> 'v entry" where
  "norm_entry zero e = (if e_Tombstone e then e\<lparr>e_Value := zero\<rparr> else e)"

definition norm_data :: "'v \<Rightarrow> (string \<rightharpoonup> 'v entry) \<Rightarrow> (string \<rightharpoonup> 'v entry)" where
  "norm_data zero d = (\<lambda>k. map_option (norm_entry zero) (d k))"

text \<open>What \<^verbatim>\<open>loadSnapshot\<close> makes of a list of entries that all decode.\<close>

definition decode_entry :: "'v store \<Rightarrow> wireSnapshotEntry \<Rightarrow> 'v entry" where
  "decode_entry s we = (case snap_value we s of Inl _ \<Rightarrow> snap_entry we (s_zero s) | Inr v \<Rightarrow> snap_entry we v)"

definition decodable :: "'v store \<Rightarrow> (string \<times> wireSnapshotEntry) list \<Rightarrow> bool" where
  "decodable s es \<longleftrightarrow> (\<forall>(k, we) \<in> set es. \<exists>v. snap_value we s = Inr v)"

lemma snap_value_cong:
  "s_zero s' = s_zero s \<Longrightarrow> s_codec s' = s_codec s \<Longrightarrow> snap_value e s' = snap_value e s"
  by (simp add: snap_value_def)

lemma map_of_cong_distinct:
  assumes "map_of xs = map_of ys" "distinct (map fst xs)" "distinct (map fst ys)"
  shows "set xs = set ys"
  using assms by (metis map_of_inject_set)

lemma loadSnapshot_loop_spec:
  assumes "distinct (map fst es)" "decodable s es"
  shows "fst (loadSnapshot_loop es s) = None \<and>
    s_data (snd (loadSnapshot_loop es s)) =
      s_data s ++ (\<lambda>k. map_option (decode_entry s) (map_of es k))"
  using assms
proof (induction es arbitrary: s)
  case Nil
  then show ?case by (simp add: map_add_def fun_eq_iff)
next
  case (Cons ke es)
  obtain k e where ke: "ke = (k, e)" by (cases ke)
  with Cons.prems obtain v where v: "snap_value e s = Inr v" by (auto simp: decodable_def)
  let ?s1 = "(if se_Tombstone e then add_tombstones 1 else add_keysLive 1)
    (s\<lparr>s_data := (s_data s)(k \<mapsto> snap_entry e v)\<rparr>)"
  have cong: "snap_value w ?s1 = snap_value w s" for w
    by (rule snap_value_cong) (simp_all add: store_defs)
  have zero: "s_zero ?s1 = s_zero s" by (simp add: store_defs)
  have dec: "decode_entry ?s1 = decode_entry s"
    by (rule ext) (simp only: decode_entry_def cong zero)
  have dec': "decodable ?s1 es"
    using Cons.prems(2) unfolding decodable_def cong by simp
  have kd: "k \<notin> dom (map_of es)" using Cons.prems by (simp add: ke dom_map_of_conv_image_fst)
  have "s_data ?s1 = (s_data s)(k \<mapsto> decode_entry s e)"
    by (simp add: store_defs decode_entry_def v)
  with Cons.IH [of ?s1] dec dec' kd Cons.prems v show ?case
    by (auto simp: ke Let_def fun_eq_iff map_add_def domIff split: option.split if_splits)
qed

lemma encode_decode_entry:
  assumes "codec_roundtrip (s_codec s)" "encode_entry (s_codec s) e = Inr we"
    and "s_codec s' = s_codec s" "s_zero s' = zero"
  shows "snap_value we s' = Inr (e_Value (norm_entry zero e)) \<and>
    decode_entry s' we = norm_entry zero e"
proof (cases "e_Tombstone e")
  case True
  with assms show ?thesis
    by (auto simp: encode_entry_def snapshot_entry_def snap_value_def decode_entry_def
        snap_entry_def norm_entry_def)
next
  case False
  then obtain b where b: "Marshal (s_codec s) (e_Value e) = Inr b" "we = snapshot_entry b e"
    using assms(2) by (cases "Marshal (s_codec s) (e_Value e)") (auto simp: encode_entry_def)
  then have "Unmarshal (s_codec s) b = Inr (e_Value e)"
    using assms(1) unfolding codec_roundtrip_def by blast
  with False b assms(3) show ?thesis
    by (simp add: snapshot_entry_def snap_value_def decode_entry_def snap_entry_def norm_entry_def)
qed

lemma kept_entries_keys:
  "fst ` set (kept_entries c lim ks d) \<subseteq> set ks"
  by (induction ks) (auto split: option.splits sum.splits if_splits)

lemma kept_entries_distinct: "distinct ks \<Longrightarrow> distinct (map fst (kept_entries c lim ks d))"
proof (induction ks)
  case (Cons k ks)
  then show ?case
    using kept_entries_keys [of c lim ks d] by (auto split: option.splits sum.splits)
qed simp

lemma kept_entries_sound:
  assumes "all_encodable c d" "k \<in> set ks" "distinct ks"
  shows "map_of (kept_entries c lim ks d) k =
    (case d k of None \<Rightarrow> None
     | Some e \<Rightarrow> if expired lim e then None
                 else case encode_entry c e of Inl _ \<Rightarrow> None | Inr we \<Rightarrow> Some we)"
  using assms(2,3)
proof (induction ks)
  case (Cons k' ks)
  show ?case
  proof (cases "k = k'")
    case True
    then have "k \<notin> set ks" using Cons.prems by simp
    then have "map_of (kept_entries c lim ks d) k = None"
      using kept_entries_keys [of c lim ks d] by (auto simp: map_of_eq_None_iff)
    with True show ?thesis by (auto split: option.split sum.split)
  next
    case False
    with Cons show ?thesis by (auto split: option.split sum.split)
  qed
qed simp

lemma encode_entry_ok:
  "all_encodable c d \<Longrightarrow> d k = Some e \<Longrightarrow> \<exists>we. encode_entry c e = Inr we"
  unfolding all_encodable_def encode_entry_def by (cases "e_Tombstone e") force+

text \<open>Decoding the kept entries gives the collected map back.\<close>

lemma decode_kept:
  assumes "range_order ks d" "all_encodable (s_codec s) d" "codec_roundtrip (s_codec s)"
    and "s_codec s' = s_codec s" "s_zero s' = zero"
    and es: "map_of es = map_of (kept_entries (s_codec s) lim ks d)" "distinct (map fst es)"
  shows "decodable s' es \<and>
    (\<lambda>k. map_option (decode_entry s') (map_of es k)) = norm_data zero (collect_on lim ks d)"
proof -
  have ks: "distinct ks" "set ks = dom d" using assms(1) by (auto simp: range_order_def)
  note sound = kept_entries_sound [OF assms(2) _ ks(1), of _ lim]
  have out: "map_of es k = None" if "d k = None" for k
  proof -
    have "k \<notin> fst ` set (kept_entries (s_codec s) lim ks d)"
      using kept_entries_keys [of "s_codec s" lim ks d] ks(2) that by auto
    then show ?thesis by (simp add: es(1) map_of_eq_None_iff)
  qed
  have key: "map_option (decode_entry s') (map_of es k) = norm_data zero (collect_on lim ks d) k
      \<and> (\<forall>we. map_of es k = Some we \<longrightarrow> (\<exists>v. snap_value we s' = Inr v))" for k
  proof (cases "d k")
    case None
    then show ?thesis using out by (simp add: norm_data_def collect_on_def)
  next
    case (Some e)
    then have k: "k \<in> set ks" using ks(2) by auto
    obtain we where we: "encode_entry (s_codec s) e = Inr we"
      using encode_entry_ok [OF assms(2) Some] by blast
    note ed = encode_decode_entry [OF assms(3) we assms(4,5)]
    show ?thesis
      using sound [OF k] Some we ed k
      by (auto simp: es(1) norm_data_def collect_on_def expired_at_def)
  qed
  then have "decodable s' es"
    using es(2) by (auto simp: decodable_def)
  with key show ?thesis by blast
qed

subsection \<open>Properties\<close>

lemma collect_range:
  "range_order ks d \<Longrightarrow> collect_on c ks d k = (if expired_at c d k then None else d k)"
  by (auto simp: collect_on_def range_order_def expired_at_def split: option.splits)

lemma gcTombstones_data:
  "distinct ks \<Longrightarrow> s_data (gcTombstones now ks s) = collect_on (ttl_cutoff now s) ks (s_data s)"
  by (simp add: gcTombstones_eq Let_def count_gced_def store_defs)

lemma sint_uminus:
  fixes w :: int64
  assumes "0 <s w"
  shows "sint (- w) = - sint w"
proof -
  have "0 < sint w" "sint w < 2 ^ 63"
    using assms sint_lt [of w] by (simp_all add: word_sless_alt)
  then have "signed_take_bit 63 (- sint w) = - sint w"
    by (intro signed_take_bit_int_eq_self) simp_all
  then show ?thesis by (simp add: sint_word_ariths)
qed

text \<open>
  C31. \<^verbatim>\<open>gcTombstones\<close> removes exactly the tombstones whose timestamp lies more than the TTL
  before now. Live entries and younger tombstones stay as they are, so no \<^verbatim>\<open>Get\<close> changes its
  answer, and the gauges still agree with the map.
\<close>

theorem gc_removes_expired_tombstones:
  assumes "range_order ks (s_data s)" "0 <s s_tombstoneTTL s" "counters_ok s"
  shows "s_data (gcTombstones now ks s) k =
      (case s_data s k of
         None \<Rightarrow> None
       | Some e \<Rightarrow> if e_Tombstone e \<and> e_Timestamp e < now - sint (s_tombstoneTTL s)
                   then None else Some e) \<and>
    snd (fst (Get k (gcTombstones now ks s))) = snd (fst (Get k s)) \<and>
    counters_ok (gcTombstones now ks s)"
proof -
  have ks: "distinct ks" using assms(1) by (simp add: range_order_def)
  have d: "s_data (gcTombstones now ks s) k =
      (case s_data s k of
         None \<Rightarrow> None
       | Some e \<Rightarrow> if e_Tombstone e \<and> e_Timestamp e < now - sint (s_tombstoneTTL s)
                   then None else Some e)"
    by (simp add: gcTombstones_data [OF ks] collect_range [OF assms(1)] expired_at_def expired_def
        ttl_cutoff_def sint_uminus [OF assms(2)] split: option.split)
  then have "snd (fst (Get k (gcTombstones now ks s))) = snd (fst (Get k s))"
    by (auto simp: Get_def Let_def split: option.split)
  with d gcTombstones_counters [OF assms(3) ks] show ?thesis by blast
qed

definition old_tomb :: "string entry" where
  "old_tomb = \<lparr>e_Value = '''', e_Timestamp = 1, e_Origin = ''z'', e_Tombstone = True, e_Seq = 1\<rparr>"

definition tomb_store :: "string store" where
  "tomb_store = (sample_store ''n'')\<lparr>s_data := [''k'' \<mapsto> old_tomb], s_tombstoneTTL := 10,
     s_stats := zero_stats\<lparr>tombstones := 1\<rparr>\<rparr>"

lemma tomb_store_simps [simp]:
  "s_data tomb_store = [''k'' \<mapsto> old_tomb]" "s_tombstoneTTL tomb_store = 10"
  "s_codec tomb_store = sample_codec" "s_topic tomb_store = ''t''" "s_zero tomb_store = ''''"
  "tombstones (s_stats tomb_store) = 1" "tombstonesGCed (s_stats tomb_store) = 0"
  by (simp_all add: tomb_store_def zero_stats_def)

lemma tomb_store_ok: "counters_ok tomb_store" "range_order [''k''] (s_data tomb_store)"
proof -
  have "count_in P [''k'' \<mapsto> old_tomb] = (if P old_tomb then 1 else 0)" for P
    using count_in_fun_upd [of Map.empty P "''k''" "Some old_tomb"]
    by (simp add: contrib_def count_in_def)
  then show "counters_ok tomb_store"
    by (simp add: counters_ok_def live_count_def tomb_count_def)
       (simp add: tomb_store_def zero_stats_def old_tomb_def)
  show "range_order [''k''] (s_data tomb_store)" by (simp add: range_order_def)
qed

theorem gc_removes_expired_tombstones_witness:
  "s_data (gcTombstones 12 [''k''] tomb_store) ''k'' = None \<and>
   s_data (gcTombstones 11 [''k''] tomb_store) ''k'' = Some old_tomb"
  using gc_removes_expired_tombstones [OF tomb_store_ok(2) _ tomb_store_ok(1), of 12 "''k''"]
    gc_removes_expired_tombstones [OF tomb_store_ok(2) _ tomb_store_ok(1), of 11 "''k''"]
  by (simp add: word_sless_alt old_tomb_def)

text \<open>
  The TTL bounds the protection of a delete. While the tombstone is in the map a write with a
  smaller or equal stamp is rejected; once \<^verbatim>\<open>gcTombstones\<close> has collected it the same message is
  accepted, and a late write resurrects the key.
\<close>

theorem collected_tombstone_resurrects:
  assumes "range_order ks (s_data s)" "s_data s k = Some e" "expired (ttl_cutoff now s) e"
    and "wm_Key m = k" "wm_Kind m = kindSet" "msg_stamp m \<le> entry_stamp e"
  shows "\<not> fst (applyMessage m v s) \<and>
    fst (Get k (snd (applyMessage m v (gcTombstones now ks s)))) = (v, True)"
proof -
  have ks: "distinct ks" using assms(1) by (simp add: range_order_def)
  have "s_data (gcTombstones now ks s) k = None"
    using assms(2,3) by (simp add: gcTombstones_data [OF ks] collect_range [OF assms(1)] expired_at_def)
  then show ?thesis
    using assms(2,4-6) by (auto simp: applyMessage_data Get_def Let_def stored_value_def
        split: option.split)
qed

theorem collected_tombstone_resurrects_witness:
  "\<not> fst (applyMessage (sample_msg kindSet ''k'' ''x'' ''a'' 1 1) ''x'' tomb_store) \<and>
   fst (Get ''k'' (snd (applyMessage (sample_msg kindSet ''k'' ''x'' ''a'' 1 1) ''x''
     (gcTombstones 12 [''k''] tomb_store)))) = (''x'', True)"
proof -
  have "msg_stamp (sample_msg kindSet ''k'' ''x'' ''a'' 1 1) \<le> entry_stamp old_tomb"
    "expired (ttl_cutoff 12 tomb_store) old_tomb"
    by (simp_all add: msg_stamp_def entry_stamp_def old_tomb_def less_eq_stamp_def less_stamp_def
        less_char_def expired_def ttl_cutoff_def)
  then show ?thesis
    using collected_tombstone_resurrects [OF tomb_store_ok(2), of "''k''" old_tomb 12
        "sample_msg kindSet ''k'' ''x'' ''a'' 1 1" "''x''"]
    by simp
qed

text \<open>
  A failed snapshot leaves the tombstone gauge wrong. When persisting fails after the loop
  (the transport refuses the snapshot), the collected tombstones are gone from the map but are
  still counted: the gauge exceeds the number of tombstones by exactly the number collected,
  and \<^verbatim>\<open>tombstonesGCed\<close> does not count them.
\<close>

theorem failed_persist_leaks_gauge:
  assumes "counters_ok s" "distinct ks" "all_encodable (s_codec s) (s_data s)"
    and "persistSnapshot T J now ks s t = (Some err, s', t')"
  shows "tombstones (s_stats s') =
      of_nat (tomb_count (s_data s') + n_expired (ttl_cutoff now s) ks (s_data s)) \<and>
    tombstonesGCed (s_stats s') = tombstonesGCed (s_stats s)"
proof -
  let ?c = "ttl_cutoff now s"
  have s': "s' = s\<lparr>s_data := collect_on ?c ks (s_data s)\<rparr>"
    using assms(4) unfolding persistSnapshot_eq [OF assms(2,3)] Let_def
    by (auto split: sum.splits prod.splits option.splits)
  have "finite (dom (s_data s))" using assms(1) by (simp add: counters_ok_def)
  then have "tomb_count (collect_on ?c ks (s_data s)) + n_expired ?c ks (s_data s) =
      tomb_count (s_data s)"
    using collect_count [OF assms(2)] by blast
  with assms(1) show ?thesis unfolding s' counters_ok_def by (simp del: of_nat_add)
qed

theorem failed_persist_leaks_gauge_witness:
  "\<exists>s'. persistSnapshot down_transport sample_json 12 [''k''] tomb_store [] = (Some bad_input, s', []) \<and>
     s_data s' = Map.empty \<and> tombstones (s_stats s') = 1"
proof -
  have enc: "all_encodable (s_codec tomb_store) (s_data tomb_store)"
    by (simp add: all_encodable_def old_tomb_def)
  have exp: "expired_at (ttl_cutoff 12 tomb_store) [''k'' \<mapsto> old_tomb] ''k''"
    by (simp add: expired_at_def expired_def old_tomb_def ttl_cutoff_def)
  have d: "collect_on (ttl_cutoff 12 tomb_store) [''k''] [''k'' \<mapsto> old_tomb] = Map.empty"
    using exp by (auto simp: collect_on_def fun_eq_iff)
  let ?s' = "tomb_store\<lparr>s_data := Map.empty\<rparr>"
  have p: "persistSnapshot down_transport sample_json 12 [''k''] tomb_store [] = (Some bad_input, ?s', [])"
    using enc d
    by (subst persistSnapshot_eq) (simp_all add: Let_def sample_json_def kept_entries_distinct
        split: option.split sum.split)
  have "tombstones (s_stats ?s') = of_nat (tomb_count (s_data ?s') +
      n_expired (ttl_cutoff 12 tomb_store) [''k''] (s_data tomb_store))"
    using failed_persist_leaks_gauge [OF tomb_store_ok(1) _ enc p] by simp
  also have "\<dots> = 1"
    using exp by (simp add: n_expired_def tomb_count_def count_in_def)
  finally have "tombstones (s_stats ?s') = 1" .
  with p show ?thesis by auto
qed

end
