(* ===== verification/Convergence.thy ===== *)
theory Convergence
  imports Tombstones
begin

section \<open>Convergence of replicas\<close>

text \<open>
  The promise of the package: pods that receive the same writes hold the same map, whatever
  the order and however often each write arrives. The abstract statement is a locale over a
  state transformer whose updates commute and are idempotent; \<open>lww_upd\<close>, the effect of an
  accepted or rejected write on the map, is its instance, and \<open>applyMessage\<close> refines
  \<open>lww_upd\<close> when no merger is installed. With a merger it does not, and the last section
  shows what happens instead.
\<close>

subsection \<open>The abstract replica\<close>

locale replica =
  fixes upd :: "'m \<Rightarrow> 's \<Rightarrow> 's"
    and compat :: "'m \<Rightarrow> 'm \<Rightarrow> bool"
  assumes upd_commute: "compat x y \<Longrightarrow> upd x (upd y s) = upd y (upd x s)"
    and upd_idem: "upd x (upd x s) = upd x s"
begin

lemma fold_upd_commute:
  "\<forall>x \<in> set xs. compat x y \<Longrightarrow> fold upd xs (upd y s) = upd y (fold upd xs s)"
proof (induction xs arbitrary: s)
  case (Cons x xs)
  then have "upd x (upd y s) = upd y (upd x s)" by (intro upd_commute) simp
  with Cons show ?case by simp
qed simp

lemma fold_fold_commute:
  "\<forall>x \<in> set xs. \<forall>y \<in> set ys. compat x y \<Longrightarrow>
   fold upd xs (fold upd ys s) = fold upd ys (fold upd xs s)"
  by (induction ys arbitrary: s) (simp_all add: fold_upd_commute)

lemma upd_absorb:
  "\<forall>x \<in> set xs. compat x y \<Longrightarrow> y \<in> set xs \<Longrightarrow> upd y (fold upd xs s) = fold upd xs s"
proof (induction xs arbitrary: s)
  case (Cons x xs)
  show ?case
  proof (cases "y = x")
    case True
    have "upd y (fold upd xs (upd y s)) = fold upd xs (upd y (upd y s))"
      using Cons.prems(1) by (simp add: fold_upd_commute)
    with True show ?thesis by (simp add: upd_idem)
  next
    case False
    with Cons show ?thesis by simp
  qed
qed simp

lemma fold_absorb:
  "\<forall>x \<in> set xs. \<forall>y \<in> set xs. compat x y \<Longrightarrow> set ys \<subseteq> set xs \<Longrightarrow>
   fold upd ys (fold upd xs s) = fold upd xs s"
  by (induction ys) (simp_all add: upd_absorb)

theorem converge:
  assumes "\<forall>x \<in> set xs. \<forall>y \<in> set xs. compat x y" "set xs = set ys"
  shows "fold upd xs s = fold upd ys s"
proof -
  have "fold upd xs s = fold upd ys (fold upd xs s)"
    using assms by (simp add: fold_absorb)
  also have "\<dots> = fold upd xs (fold upd ys s)"
    using assms by (intro fold_fold_commute) simp
  also have "\<dots> = fold upd ys s"
    using assms by (intro fold_absorb) simp_all
  finally show ?thesis .
qed

end

subsection \<open>Last-write-wins on the map\<close>

definition lww_upd :: "string \<times> 'v entry \<Rightarrow> (string \<rightharpoonup> 'v entry) \<Rightarrow> (string \<rightharpoonup> 'v entry)" where
  "lww_upd w d =
    (if beats (entry_stamp (snd w)) (d (fst w)) then d(fst w \<mapsto> snd w) else d)"

definition write_compat :: "string \<times> 'v entry \<Rightarrow> string \<times> 'v entry \<Rightarrow> bool" where
  "write_compat x y \<longleftrightarrow>
     fst x \<noteq> fst y \<or> entry_stamp (snd x) \<noteq> entry_stamp (snd y) \<or> x = y"

lemma lww_upd_same_key:
  assumes "entry_stamp e \<noteq> entry_stamp e'"
  shows "lww_upd (k, e) (lww_upd (k, e') d) = lww_upd (k, e') (lww_upd (k, e) d)"
proof (cases "d k")
  case None
  with assms show ?thesis
    by (cases "entry_stamp e < entry_stamp e'") (auto simp: lww_upd_def)
next
  case (Some x)
  consider "entry_stamp e < entry_stamp e'" | "entry_stamp e' < entry_stamp e"
    using assms by (meson linorder_neqE)
  then show ?thesis
    using Some by cases (auto simp: lww_upd_def)
qed

interpretation lww: replica lww_upd write_compat
proof unfold_locales
  fix x y :: "string \<times> 'v entry" and s
  assume c: "write_compat x y"
  show "lww_upd x (lww_upd y s) = lww_upd y (lww_upd x s)"
  proof (cases "fst x = fst y")
    case True
    with c lww_upd_same_key [of "snd x" "snd y" "fst x" s] show ?thesis
      by (cases x; cases y) (auto simp: write_compat_def)
  next
    case False
    then show ?thesis by (auto simp: lww_upd_def fun_upd_twist)
  qed
next
  fix x :: "string \<times> 'v entry" and s
  show "lww_upd x (lww_upd x s) = lww_upd x s" by (simp add: lww_upd_def)
qed

lemma lww_upd_at:
  "lww_upd w d k = (if k = fst w \<and> beats (entry_stamp (snd w)) (d k) then Some (snd w) else d k)"
  by (auto simp: lww_upd_def)

subsection \<open>applyMessage refines the map update\<close>

type_synonym 'v wmsg = "wireMessage \<times> 'v"

definition abs_write :: "'v wmsg \<Rightarrow> string \<times> 'v entry" where
  "abs_write w = (wm_Key (fst w), msg_entry (fst w) (snd w))"

definition apply_all :: "'v wmsg list \<Rightarrow> 'v store \<Rightarrow> 'v store" where
  "apply_all ws s = fold (\<lambda>w s. snd (applyMessage (fst w) (snd w) s)) ws s"

lemma applyMessage_refines:
  "s_merger s = None \<Longrightarrow>
   s_data (snd (applyMessage m v s)) = lww_upd (abs_write (m, v)) (s_data s)"
  by (simp add: applyMessage_data lww_upd_def abs_write_def stored_value_def)

lemma apply_all_refines:
  "s_merger s = None \<Longrightarrow>
   s_data (apply_all ws s) = fold lww_upd (map abs_write ws) (s_data s)"
  unfolding apply_all_def
  by (induction ws arbitrary: s) (simp_all add: applyMessage_refines)

text \<open>No two different writes carry the same stamp for the same key.\<close>

definition unique_stamps :: "'v wmsg set \<Rightarrow> bool" where
  "unique_stamps W \<longleftrightarrow> (\<forall>x \<in> W. \<forall>y \<in> W.
     wm_Key (fst x) = wm_Key (fst y) \<longrightarrow> msg_stamp (fst x) = msg_stamp (fst y) \<longrightarrow> x = y)"

lemma unique_stamps_compat:
  "unique_stamps (set ws) \<Longrightarrow>
   \<forall>x \<in> set (map abs_write ws). \<forall>y \<in> set (map abs_write ws). write_compat x y"
  by (fastforce simp: unique_stamps_def write_compat_def abs_write_def)

lemma apply_all_converge:
  assumes "s_merger s = None" "s_merger s' = None" "s_data s = s_data s'"
    and "unique_stamps (set xs)" "set xs = set ys"
  shows "s_data (apply_all xs s) = s_data (apply_all ys s')"
  unfolding apply_all_refines [OF assms(1)] apply_all_refines [OF assms(2)] assms(3)
  using assms(4,5) by (intro lww.converge unique_stamps_compat) simp_all

text \<open>Under every key the map ends with the write of the greatest stamp.\<close>

definition dominated :: "string \<Rightarrow> 'v entry \<Rightarrow> (string \<times> 'v entry) list \<Rightarrow> bool" where
  "dominated k e ws \<longleftrightarrow>
     (\<forall>w \<in> set ws. fst w = k \<longrightarrow> snd w = e \<or> entry_stamp (snd w) < entry_stamp e)"

lemma fold_lww_upd_keep:
  "dominated k e ws \<Longrightarrow> d k = Some e \<Longrightarrow> fold lww_upd ws d k = Some e"
proof (induction ws arbitrary: d)
  case (Cons w ws)
  have "lww_upd w d k = Some e"
    using Cons.prems by (auto simp: lww_upd_at dominated_def)
  with Cons show ?case by (simp add: dominated_def)
qed simp

lemma fold_lww_upd_max:
  "dominated k e ws \<Longrightarrow> (k, e) \<in> set ws \<Longrightarrow> beats (entry_stamp e) (d k) \<Longrightarrow>
   fold lww_upd ws d k = Some e"
proof (induction ws arbitrary: d)
  case (Cons w ws)
  have dom: "dominated k e ws" using Cons.prems(1) by (simp add: dominated_def)
  show ?case
  proof (cases "w = (k, e)")
    case True
    then have "lww_upd w d k = Some e" using Cons.prems by (simp add: lww_upd_at)
    then show ?thesis using fold_lww_upd_keep [OF dom] by simp
  next
    case False
    with Cons.prems(1,3) have "beats (entry_stamp e) (lww_upd w d k)"
      by (cases w) (auto simp: lww_upd_at dominated_def)
    with False Cons dom show ?thesis by simp
  qed
qed simp

subsection \<open>With a merger, the order of arrival matters\<close>

text \<open>
  \<^verbatim>\<open>applyMessage\<close> merges only when the incoming message wins the comparison; a message that
  loses is dropped unmerged. Of two writes to a fresh key, the replica that receives the older
  one first stores the merged value, the other one stores the newer value alone.
\<close>

lemma merger_two_orders:
  assumes "s_merger s = Some f" "s_data s k = None"
    and "wm_Key m1 = k" "wm_Key m2 = k" "wm_Kind m1 = kindSet" "wm_Kind m2 = kindSet"
    and "msg_stamp m1 < msg_stamp m2"
  shows "s_data (apply_all [(m1, v1), (m2, v2)] s) k = Some (msg_entry m2 (f v1 v2))"
    and "s_data (apply_all [(m2, v2), (m1, v1)] s) k = Some (msg_entry m2 v2)"
  using assms
  by (simp_all add: apply_all_def applyMessage_data stored_value_def)

subsection \<open>Properties\<close>

text \<open>
  Without a merger the replica does not depend on the order in which messages are applied,
  nor on how often each is: two stores that start with the same data and apply the same set of
  messages, in any order and with any repetitions, end with the same data, tombstones included.
\<close>

theorem apply_any_order:
  assumes "s_merger s = None" "s_merger s' = None" "s_data s = s_data s'"
    and "unique_stamps (set xs)" "set xs = set ys"
  shows "s_data (apply_all xs s) = s_data (apply_all ys s')"
  using assms by (rule apply_all_converge)

definition two_writes :: "string wmsg list" where
  "two_writes = [(sample_msg kindSet ''k'' ''x'' ''a'' 1 1, ''x''),
                 (sample_msg kindDelete ''k'' '''' ''b'' 1 1, '''')]"

lemma two_writes_unique: "unique_stamps (set two_writes)"
  by (simp add: unique_stamps_def two_writes_def sample_msg_def msg_stamp_def)

theorem apply_any_order_witness:
  "s_data (apply_all two_writes (sample_store ''n'')) =
   s_data (apply_all (rev two_writes @ two_writes) (sample_store ''m''))"
  by (rule apply_any_order) (simp_all add: two_writes_unique)

text \<open>
  C6. The value that wins: when a store without a merger has applied a list of messages, the
  entry under a key is that of the message with the greatest \<^verbatim>\<open>(Timestamp, Origin, Seq)\<close>,
  provided it also beats what the store held before.
\<close>

theorem greatest_stamp_wins:
  assumes "s_merger s = None" "(m, v) \<in> set ws" "beats (msg_stamp m) (s_data s (wm_Key m))"
    and max: "\<forall>w \<in> set ws. wm_Key (fst w) = wm_Key m \<longrightarrow>
      w = (m, v) \<or> msg_stamp (fst w) < msg_stamp m"
  shows "s_data (apply_all ws s) (wm_Key m) = Some (msg_entry m v)"
proof -
  have "dominated (wm_Key m) (msg_entry m v) (map abs_write ws)"
    using max by (fastforce simp: dominated_def abs_write_def)
  moreover have "(wm_Key m, msg_entry m v) \<in> set (map abs_write ws)"
    using assms(2) by (force simp: abs_write_def)
  ultimately show ?thesis
    unfolding apply_all_refines [OF assms(1)] using assms(3) by (intro fold_lww_upd_max) simp_all
qed

theorem greatest_stamp_wins_witness:
  "s_data (apply_all (rev two_writes) (sample_store ''n'')) ''k'' =
     Some (msg_entry (sample_msg kindDelete ''k'' '''' ''b'' 1 1) '''')"
proof -
  let ?m = "sample_msg kindDelete ''k'' '''' ''b'' 1 1"
  have lt: "msg_stamp (sample_msg kindSet ''k'' ''x'' ''a'' 1 1) < msg_stamp ?m"
    by (simp add: msg_stamp_def sample_msg_def less_stamp_def less_char_def)
  have key: "wm_Key ?m = ''k''" by (simp add: sample_msg_def)
  show ?thesis
    using greatest_stamp_wins [of "sample_store ''n''" ?m "''''" "rev two_writes"] lt
    by (simp add: two_writes_def key)
qed

text \<open>
  With a merger two replicas can stay apart for good. For every merger \<open>f\<close>, a store that
  applies an older set before a newer one keeps \<open>f v1 v2\<close>, one that applies the newer set first
  drops the older one and keeps \<open>v2\<close>. No property of \<open>f\<close> (commutative, associative, idempotent)
  makes the two equal, because a message that loses the comparison is never merged.
\<close>

theorem merger_depends_on_order:
  assumes "s_merger s = Some f" "s_data s k = None"
    and "wm_Key m1 = k" "wm_Key m2 = k" "wm_Kind m1 = kindSet" "wm_Kind m2 = kindSet"
    and "msg_stamp m1 < msg_stamp m2"
  shows "map_option e_Value (s_data (apply_all [(m1, v1), (m2, v2)] s) k) = Some (f v1 v2) \<and>
    map_option e_Value (s_data (apply_all [(m2, v2), (m1, v1)] s) k) = Some v2"
  using merger_two_orders [OF assms] by simp

text \<open>The merger of the witness is the join of a semilattice, the union of two sets.\<close>

definition union_store :: "nat set store" where
  "union_store = (default_store {} \<lparr>Marshal = (\<lambda>v. Inr []), Unmarshal = (\<lambda>b. Inr {})\<rparr> ''t'')
     \<lparr>s_merger := Some (\<union>)\<rparr>"

lemma union_store_simps: "s_merger union_store = Some (\<union>)" "s_data union_store = Map.empty"
  by (simp_all add: union_store_def default_store_def)

theorem merger_depends_on_order_witness:
  "map_option e_Value (s_data (apply_all
      [(sample_msg kindSet ''k'' '''' ''a'' 1 1, {1}), (sample_msg kindSet ''k'' '''' ''a'' 2 2, {2})]
      union_store) ''k'') = Some {1, 2} \<and>
   map_option e_Value (s_data (apply_all
      [(sample_msg kindSet ''k'' '''' ''a'' 2 2, {2}), (sample_msg kindSet ''k'' '''' ''a'' 1 1, {1})]
      union_store) ''k'') = Some {2}"
  using merger_depends_on_order [of union_store "(\<union>)" "''k''"
      "sample_msg kindSet ''k'' '''' ''a'' 1 1" "sample_msg kindSet ''k'' '''' ''a'' 2 2" "{1}" "{2}"]
  by (simp add: msg_stamp_def less_stamp_def union_store_simps insert_commute)

end
