(* ===== verification/Writes.thy ===== *)
theory Writes
  imports Store_Inv Convergence
begin

section \<open>What the write operations do\<close>

text \<open>
  The functional behaviour of \<^verbatim>\<open>Set\<close>, \<^verbatim>\<open>Delete\<close>, \<^verbatim>\<open>SetMany\<close>, \<^verbatim>\<open>DeleteMany\<close>, \<^verbatim>\<open>Seed\<close> and
  \<^verbatim>\<open>TrySet\<close> on every branch. A single write is one message stamped with the next sequence
  number and applied (\<open>Set_eq\<close>, \<open>Delete_eq\<close>); a batch is the same as its messages applied one
  by one.
\<close>

subsection \<open>Single writes\<close>

definition stamp_msg :: "string \<Rightarrow> string \<Rightarrow> bytes \<Rightarrow> time \<Rightarrow> 'v store \<Rightarrow> wireMessage" where
  "stamp_msg kind key payload now s =
    \<lparr>wm_V = ProtocolVersion, wm_Kind = kind, wm_Key = key, wm_Value = payload,
     wm_Origin = s_nodeID s, wm_Timestamp = now, wm_Seq = s_seq s + 1\<rparr>"

definition stamped :: "'v store \<Rightarrow> 'v store" where
  "stamped s = (add_writesLocal 1 s)\<lparr>s_seq := s_seq s + 1\<rparr>"

lemma stamp_msg_simps [simp]:
  "wm_Kind (stamp_msg kind key p now s) = kind" "wm_Key (stamp_msg kind key p now s) = key"
  "wm_V (stamp_msg kind key p now s) = ProtocolVersion"
  "msg_stamp (stamp_msg kind key p now s) = Stamp now (s_nodeID s) (s_seq s + 1)"
  by (simp_all add: stamp_msg_def msg_stamp_def)

lemma stamped_frame [simp]:
  "s_data (stamped s) = s_data s" "s_merger (stamped s) = s_merger s"
  "s_topic (stamped s) = s_topic s" "s_zero (stamped s) = s_zero s"
  "s_dirty (stamped s) = s_dirty s" "s_seq (stamped s) = s_seq s + 1"
  "s_codec (stamped s) = s_codec s"
  by (simp_all add: stamped_def store_defs)

text \<open>The common tail of \<^verbatim>\<open>Set\<close> and \<^verbatim>\<open>Delete\<close>: apply, and publish what was applied.\<close>

definition write_tail :: "'t Transport \<Rightarrow> Json \<Rightarrow> wireMessage \<Rightarrow> 'v \<Rightarrow> 'v store \<Rightarrow> 't
    \<Rightarrow> goerror option \<times> 'v store \<times> 't" where
  "write_tail T J m v s t =
    (if \<not> beats (msg_stamp m) (s_data s (wm_Key m)) then (None, snd (applyMessage m v s), t)
     else case marshalMsg J m of
       Inl e \<Rightarrow> (Some (ErrEncodeWire e), snd (applyMessage m v s), t)
     | Inr raw \<Rightarrow>
         (case tr_Publish T (s_topic s) raw t of
            (Some e, t') \<Rightarrow> (Some (ErrBroadcast None e), snd (applyMessage m v s), t')
          | (None, t') \<Rightarrow> (None, markDirty (snd (applyMessage m v s)), t')))"

lemma Set_eq:
  "Set T J now k v s t =
    (if s_closed s then (Some ErrClosed, s, t)
     else case Marshal (s_codec s) v of
       Inl e \<Rightarrow> (Some (ErrMarshalValue k e), add_writesLocal 1 s, t)
     | Inr p \<Rightarrow> write_tail T J (stamp_msg kindSet k p now s) v (stamped s) t)"
  unfolding Set_def write_tail_def
  by (simp add: Let_def case_prod_unfold isClosed_def stamp_msg_def stamped_def store_defs
      split: sum.split option.split)

lemma Delete_eq:
  "Delete T J now k s t =
    (if s_closed s then (Some ErrClosed, s, t)
     else write_tail T J (stamp_msg kindDelete k [] now s) (s_zero s) (stamped s) t)"
  unfolding Delete_def write_tail_def
  by (simp add: Let_def case_prod_unfold isClosed_def stamp_msg_def stamped_def store_defs
      split: sum.split option.split)

lemma write_tail_data:
  "s_data (fst (snd (write_tail T J m v s t))) =
    (if beats (msg_stamp m) (s_data s (wm_Key m))
     then (s_data s)(wm_Key m \<mapsto> msg_entry m (stored_value m v s)) else s_data s)"
  by (auto simp: write_tail_def applyMessage_data markDirty_def case_prod_unfold
      split: sum.split option.split)

lemma write_tail_broadcast:
  "fst (write_tail T J m v s t) = Some e \<Longrightarrow>
   beats (msg_stamp m) (s_data s (wm_Key m)) \<and>
   fst (snd (write_tail T J m v s t)) = snd (applyMessage m v s)"
  by (auto simp: write_tail_def split: if_splits sum.splits prod.splits option.splits)

subsection \<open>Batches are their messages one by one\<close>

text \<open>The messages of a batch, numbered from \<open>q + 1\<close>; a value the codec refuses ends the batch.\<close>

fun set_msgs :: "time \<Rightarrow> 'v store \<Rightarrow> uint64 \<Rightarrow> (string \<times> 'v) list \<Rightarrow> 'v wmsg list" where
  "set_msgs ts s q [] = []"
| "set_msgs ts s q ((k, v) # kvs) =
    (case Marshal (s_codec s) v of
       Inl _ \<Rightarrow> []
     | Inr p \<Rightarrow> (\<lparr>wm_V = ProtocolVersion, wm_Kind = kindSet, wm_Key = k, wm_Value = p,
                 wm_Origin = s_nodeID s, wm_Timestamp = ts, wm_Seq = q + 1\<rparr>, v)
               # set_msgs ts s (q + 1) kvs)"

fun delete_msgs :: "time \<Rightarrow> 'v store \<Rightarrow> uint64 \<Rightarrow> string list \<Rightarrow> 'v wmsg list" where
  "delete_msgs ts s q [] = []"
| "delete_msgs ts s q (k # ks) =
    (\<lparr>wm_V = ProtocolVersion, wm_Kind = kindDelete, wm_Key = k, wm_Value = [],
      wm_Origin = s_nodeID s, wm_Timestamp = ts, wm_Seq = q + 1\<rparr>, s_zero s)
    # delete_msgs ts s (q + 1) ks"

definition encodable_all :: "'v store \<Rightarrow> (string \<times> 'v) list \<Rightarrow> bool" where
  "encodable_all s kvs \<longleftrightarrow> (\<forall>kv \<in> set kvs. \<exists>p. Marshal (s_codec s) (snd kv) = Inr p)"

lemma set_msgs_cong:
  "s_codec s' = s_codec s \<Longrightarrow> s_nodeID s' = s_nodeID s \<Longrightarrow> set_msgs ts s' q kvs = set_msgs ts s q kvs"
  by (induction kvs arbitrary: q) (auto split: sum.split)

lemma delete_msgs_cong:
  "s_zero s' = s_zero s \<Longrightarrow> s_nodeID s' = s_nodeID s \<Longrightarrow>
   delete_msgs ts s' q ks = delete_msgs ts s q ks"
  by (induction ks arbitrary: q) auto

lemma stored_value_cong:
  "s_merger s' = s_merger s \<Longrightarrow> s_data s' = s_data s \<Longrightarrow> stored_value m v s' = stored_value m v s"
  by (simp add: stored_value_def)

lemma apply_all_cong:
  "s_merger s' = s_merger s \<Longrightarrow> s_data s' = s_data s \<Longrightarrow>
   s_data (apply_all ws s') = s_data (apply_all ws s)"
  unfolding apply_all_def
proof (induction ws arbitrary: s s')
  case (Cons w ws)
  have "s_data (snd (applyMessage m v s')) = s_data (snd (applyMessage m v s))" for m v
    using Cons.prems by (simp add: applyMessage_data stored_value_cong [of s' s])
  then show ?case using Cons.prems by (simp add: Cons.IH [of "snd (applyMessage m v s')"
        "snd (applyMessage m v s)" for m v])
qed simp

lemma apply_all_Cons [simp]:
  "apply_all (w # ws) s = apply_all ws (snd (applyMessage (fst w) (snd w) s))"
  by (simp add: apply_all_def)

lemma apply_all_Nil [simp]: "apply_all [] s = s"
  by (simp add: apply_all_def)

lemma set_many_step:
  fixes s :: "'v store"
  assumes "Marshal (s_codec s) v = Inr p"
  obtains s' applied' events' where
    "\<And>kvs. SetMany_loop ts ((k, v) # kvs) s applied events = SetMany_loop ts kvs s' applied' events'"
    "s_codec s' = s_codec s" "s_nodeID s' = s_nodeID s" "s_seq s' = s_seq s + 1"
    "s_merger s' = s_merger s" "s_wheap s' = s_wheap s" "s_watchers s' = s_watchers s"
    "s_data s' = s_data (snd (applyMessage
      \<lparr>wm_V = ProtocolVersion, wm_Kind = kindSet, wm_Key = k, wm_Value = p,
       wm_Origin = s_nodeID s, wm_Timestamp = ts, wm_Seq = s_seq s + 1\<rparr> v s))"
proof -
  define m where "m = \<lparr>wm_V = ProtocolVersion, wm_Kind = kindSet, wm_Key = k, wm_Value = p,
       wm_Origin = s_nodeID s, wm_Timestamp = ts, wm_Seq = s_seq s + 1\<rparr>"
  have m: "wm_Key m = k" "msg_stamp m = Stamp ts (s_nodeID s) (s_seq s + 1)"
    by (simp_all add: m_def msg_stamp_def)
  show ?thesis
  proof (cases "beats (msg_stamp m) (s_data s k)")
    case True
    show ?thesis
      by (rule that [OF SetMany_loop_accept [OF assms m_def True]])
         (simp_all add: True [unfolded m] m applyMessage_data put_entry_def store_defs Let_def flip: m_def)
  next
    case False
    then show ?thesis
      by (intro that [OF SetMany_loop_reject [OF assms]])
         (simp_all add: m applyMessage_data store_defs flip: m_def)
  qed
qed

lemma SetMany_loop_data:
  assumes "encodable_all s kvs"
  shows "fst (SetMany_loop ts kvs s applied events) = None \<and>
    s_data (fst (snd (SetMany_loop ts kvs s applied events))) =
      s_data (apply_all (set_msgs ts s (s_seq s) kvs) s)"
  using assms
proof (induction kvs arbitrary: s applied events)
  case (Cons kv kvs)
  obtain k v where kv: "kv = (k, v)" by (cases kv)
  obtain p where p: "Marshal (s_codec s) v = Inr p"
    using Cons.prems by (auto simp: kv encodable_all_def)
  obtain s' ap ev where st: "SetMany_loop ts (kv # kvs) s applied events = SetMany_loop ts kvs s' ap ev"
      "s_codec s' = s_codec s" "s_nodeID s' = s_nodeID s" "s_seq s' = s_seq s + 1"
      "s_merger s' = s_merger s"
      "s_data s' = s_data (snd (applyMessage \<lparr>wm_V = ProtocolVersion, wm_Kind = kindSet,
        wm_Key = k, wm_Value = p, wm_Origin = s_nodeID s, wm_Timestamp = ts,
        wm_Seq = s_seq s + 1\<rparr> v s))"
    using set_many_step [OF p] kv by metis
  have "encodable_all s' kvs" using Cons.prems by (simp add: encodable_all_def st(2))
  then show ?case
    using Cons.IH [of s' ap ev] st
    by (simp add: kv p set_msgs_cong [of s' s] apply_all_cong [OF _ st(6)])
qed simp

lemma SetMany_loop_bad:
  assumes "encodable_all s kvs" "Marshal (s_codec s) v = Inl e"
  shows "\<exists>ap ev s'. SetMany_loop ts (kvs @ (k, v) # rest) s applied events =
      (Some (ErrMarshalValue k e), s', ap, ev) \<and>
    s_data s' = s_data (apply_all (set_msgs ts s (s_seq s) kvs) s) \<and>
    s_wheap s' = s_wheap s \<and> s_watchers s' = s_watchers s"
  using assms
proof (induction kvs arbitrary: s applied events)
  case (Cons kv kvs)
  obtain k' v' where kv: "kv = (k', v')" by (cases kv)
  obtain p where p: "Marshal (s_codec s) v' = Inr p"
    using Cons.prems by (auto simp: kv encodable_all_def)
  obtain s' ap ev where st: "SetMany_loop ts (kv # kvs @ (k, v) # rest) s applied events =
        SetMany_loop ts (kvs @ (k, v) # rest) s' ap ev"
      "s_codec s' = s_codec s" "s_nodeID s' = s_nodeID s" "s_seq s' = s_seq s + 1"
      "s_merger s' = s_merger s" "s_wheap s' = s_wheap s" "s_watchers s' = s_watchers s"
      "s_data s' = s_data (snd (applyMessage \<lparr>wm_V = ProtocolVersion, wm_Kind = kindSet,
        wm_Key = k', wm_Value = p, wm_Origin = s_nodeID s, wm_Timestamp = ts,
        wm_Seq = s_seq s + 1\<rparr> v' s))"
    using set_many_step [OF p] kv by metis
  have "encodable_all s' kvs" "Marshal (s_codec s') v = Inl e"
    using Cons.prems by (simp_all add: encodable_all_def st(2))
  from Cons.IH [OF this, of ap ev] show ?case
    using st(1,3-) by (simp add: kv p set_msgs_cong [OF st(2,3)] apply_all_cong [OF _ st(8)])
qed simp

lemma delete_many_step:
  fixes s :: "'v store"
  obtains s' applied' events' where
    "\<And>ks. DeleteMany_loop ts (k # ks) s applied events = DeleteMany_loop ts ks s' applied' events'"
    "s_zero s' = s_zero s" "s_nodeID s' = s_nodeID s" "s_seq s' = s_seq s + 1"
    "s_merger s' = s_merger s"
    "s_data s' = s_data (snd (applyMessage
      \<lparr>wm_V = ProtocolVersion, wm_Kind = kindDelete, wm_Key = k, wm_Value = [],
       wm_Origin = s_nodeID s, wm_Timestamp = ts, wm_Seq = s_seq s + 1\<rparr> (s_zero s) s))"
proof -
  define m where "m = \<lparr>wm_V = ProtocolVersion, wm_Kind = kindDelete, wm_Key = k, wm_Value = [],
       wm_Origin = s_nodeID s, wm_Timestamp = ts, wm_Seq = s_seq s + 1\<rparr>"
  have m: "wm_Key m = k" "msg_stamp m = Stamp ts (s_nodeID s) (s_seq s + 1)" "wm_Kind m = kindDelete"
    by (simp_all add: m_def msg_stamp_def)
  show ?thesis
  proof (cases "beats (msg_stamp m) (s_data s k)")
    case True
    show ?thesis
      by (rule that [OF DeleteMany_loop_accept [OF m_def True]])
         (simp_all add: True [unfolded m] m applyMessage_data stored_value_other put_entry_def store_defs Let_def
           flip: m_def)
  next
    case False
    then show ?thesis
      by (intro that [OF DeleteMany_loop_reject])
         (simp_all add: m applyMessage_data store_defs flip: m_def)
  qed
qed

lemma DeleteMany_loop_data:
  "s_data (fst (DeleteMany_loop ts ks s applied events)) =
   s_data (apply_all (delete_msgs ts s (s_seq s) ks) s)"
proof (induction ks arbitrary: s applied events)
  case (Cons k ks)
  obtain s' ap ev where st: "DeleteMany_loop ts (k # ks) s applied events = DeleteMany_loop ts ks s' ap ev"
      "s_zero s' = s_zero s" "s_nodeID s' = s_nodeID s" "s_seq s' = s_seq s + 1"
      "s_merger s' = s_merger s"
      "s_data s' = s_data (snd (applyMessage \<lparr>wm_V = ProtocolVersion, wm_Kind = kindDelete,
        wm_Key = k, wm_Value = [], wm_Origin = s_nodeID s, wm_Timestamp = ts,
        wm_Seq = s_seq s + 1\<rparr> (s_zero s) s))"
    using delete_many_step by metis
  then show ?case
    using Cons.IH [of s' ap ev]
    by (simp add: delete_msgs_cong [of s' s] apply_all_cong [OF _ st(6)])
qed simp

subsection \<open>Properties\<close>

text \<open>
  Read your writes. On an open store without a merger, a \<^verbatim>\<open>Set\<close> of an encodable value whose
  stamp beats what the key holds is what the next \<^verbatim>\<open>Get\<close> of the key returns, whatever the
  transport answers; every other key reads as before.
\<close>

theorem Set_then_Get:
  assumes "\<not> s_closed s" "s_merger s = None" "Marshal (s_codec s) v = Inr p"
    and "beats (Stamp now (s_nodeID s) (s_seq s + 1)) (s_data s k)"
  shows "fst (Get k (fst (snd (Set T J now k v s t)))) = (v, True) \<and>
    s_data (fst (snd (Set T J now k v s t))) = (s_data s)(k \<mapsto>
      \<lparr>e_Value = v, e_Timestamp = now, e_Origin = s_nodeID s, e_Tombstone = False,
       e_Seq = s_seq s + 1\<rparr>)"
proof -
  have "s_data (fst (snd (Set T J now k v s t))) =
      (s_data s)(k \<mapsto> msg_entry (stamp_msg kindSet k p now s) v)"
    using assms by (simp add: Set_eq write_tail_data stored_value_def)
  then show ?thesis by (simp add: Get_def Let_def msg_entry_def stamp_msg_def)
qed

theorem Set_then_Get_witness:
  "fst (Get ''k'' (fst (snd (Set down_transport sample_json 5 ''k'' ''x'' (sample_store ''n'') [])))) =
     (''x'', True)"
  using Set_then_Get [of "sample_store ''n''" "''x''" "str_bytes ''x''" 5 "''k''" down_transport
      sample_json "[]"]
  by simp

text \<open>
  A failed broadcast. When \<^verbatim>\<open>Set\<close> or \<^verbatim>\<open>Delete\<close> returns an error that wraps
  \<^verbatim>\<open>ErrBroadcast\<close> the local write has taken effect: the entry under the key carries the
  write's stamp and the sequence number has advanced. The store is not marked dirty, so the
  snapshot loop does not learn of the write from this call.
\<close>

theorem broadcast_error_applied:
  assumes "fst (Set T J now k v s t) = Some e" "is_broadcast e"
  shows "\<exists>x. s_data (fst (snd (Set T J now k v s t))) k = Some x \<and>
      entry_stamp x = Stamp now (s_nodeID s) (s_seq s + 1) \<and> \<not> e_Tombstone x \<and>
    s_seq (fst (snd (Set T J now k v s t))) = s_seq s + 1 \<and>
    s_dirty (fst (snd (Set T J now k v s t))) = s_dirty s"
proof -
  have open': "\<not> s_closed s" using assms by (auto simp: Set_eq)
  then obtain p where p: "Marshal (s_codec s) v = Inr p"
    using assms by (cases "Marshal (s_codec s) v") (auto simp: Set_eq)
  let ?m = "stamp_msg kindSet k p now s"
  have w: "Set T J now k v s t = write_tail T J ?m v (stamped s) t"
    using open' p by (simp add: Set_eq)
  note bc = write_tail_broadcast [of T J ?m v "stamped s" t e]
  show ?thesis using bc assms(1) unfolding w by (simp add: applyMessage_data)
qed

theorem broadcast_error_applied_witness:
  "\<exists>x. s_data (fst (snd (Set down_transport sample_json 5 ''k'' ''x'' (sample_store ''n'') []))) ''k'' =
     Some x \<and> entry_stamp x = Stamp 5 ''n'' 1 \<and> \<not> e_Tombstone x"
proof -
  have "fst (Set down_transport sample_json 5 ''k'' ''x'' (sample_store ''n'') []) =
      Some (ErrBroadcast None bad_input)"
    by (simp add: Set_eq write_tail_def)
  then show ?thesis
    using broadcast_error_applied [of down_transport sample_json 5 "''k''" "''x''" "sample_store ''n''"
        "[]" "ErrBroadcast None bad_input"]
    by auto
qed

text \<open>
  A closed store refuses: every operation that takes a context or seeds returns
  \<^verbatim>\<open>ErrClosed\<close> and changes neither the store nor the transport.
\<close>

theorem closed_store_refuses:
  assumes "s_closed s"
  shows "Set T J now k v s t = (Some ErrClosed, s, t) \<and>
    Delete T J now k s t = (Some ErrClosed, s, t) \<and>
    SetMany T J now kvs s t = (Some ErrClosed, s, t) \<and>
    DeleteMany T J now ks s t = (Some ErrClosed, s, t) \<and>
    TrySet T J now k v ver s t = ((False, Some ErrClosed), s, t) \<and>
    Seed now kvs s = (Some ErrClosed, s) \<and>
    Refresh T J s t = (Some ErrClosed, s, t)"
  using assms
  by (simp add: Set_def Delete_def SetMany_def DeleteMany_def TrySet_def Seed_def Refresh_def
      isClosed_def)

theorem closed_store_refuses_witness:
  "Set up_transport sample_json 5 ''k'' ''x'' ((sample_store ''n'')\<lparr>s_closed := True\<rparr>) [] =
     (Some ErrClosed, (sample_store ''n'')\<lparr>s_closed := True\<rparr>, [])"
  using closed_store_refuses [of "(sample_store ''n'')\<lparr>s_closed := True\<rparr>" up_transport sample_json 5
      "''k''" "''x''" "[]"]
  by simp

text \<open>
  C33. Deletes shield. After a \<^verbatim>\<open>Delete\<close> whose stamp beats what the key holds, \<^verbatim>\<open>Get\<close> misses,
  whatever the transport answered, and it still misses after any message for the key with a
  smaller or equal stamp: a late write from a peer cannot resurrect the key.
\<close>

theorem Delete_shields:
  assumes "\<not> s_closed s" "beats (Stamp now (s_nodeID s) (s_seq s + 1)) (s_data s k)"
    and "wm_Key m = k" "msg_stamp m \<le> Stamp now (s_nodeID s) (s_seq s + 1)"
  shows "fst (Get k (fst (snd (Delete T J now k s t)))) = (s_zero s, False) \<and>
    \<not> fst (applyMessage m v (fst (snd (Delete T J now k s t)))) \<and>
    fst (Get k (snd (applyMessage m v (fst (snd (Delete T J now k s t)))))) = (s_zero s, False)"
proof -
  let ?s = "fst (snd (Delete T J now k s t))"
  have d: "s_data ?s k = Some (msg_entry (stamp_msg kindDelete k [] now s) (s_zero s))"
    using assms by (simp add: Delete_eq write_tail_data stored_value_other)
  have z: "s_zero ?s = s_zero s"
    using assms(1) by (auto simp: Delete_eq write_tail_def markDirty_def case_prod_unfold
        split: sum.split option.split)
  have rej: "\<not> beats (msg_stamp m) (s_data ?s (wm_Key m))" using assms(3,4) d by simp
  show ?thesis
    using d z rej by (simp add: Get_def Let_def applyMessage_data)
qed

theorem Delete_shields_witness:
  "\<not> fst (applyMessage (sample_msg kindSet ''k'' ''x'' ''z'' 4 9) ''x''
     (fst (snd (Delete up_transport sample_json 5 ''k'' (sample_store ''n'') []))))"
  using Delete_shields [of "sample_store ''n''" 5 "''k''" "sample_msg kindSet ''k'' ''x'' ''z'' 4 9"
      up_transport sample_json "[]" "''x''"]
  by (simp add: msg_stamp_def less_eq_stamp_def less_stamp_def)

text \<open>
  C29. A batch is its writes one by one. When every value of the map can be encoded, \<^verbatim>\<open>SetMany\<close>
  leaves the data that applying its messages one after the other leaves (in the order the map
  is ranged over, with consecutive sequence numbers), merger or not and whatever the transport
  answers. The same holds of \<^verbatim>\<open>DeleteMany\<close>.
\<close>

theorem batch_is_writes_one_by_one:
  assumes "\<not> s_closed s" "encodable_all s kvs"
  shows "s_data (fst (snd (SetMany T J now kvs s t))) =
      s_data (apply_all (set_msgs now s (s_seq s) kvs) s) \<and>
    s_data (fst (snd (DeleteMany T J now ks s t))) =
      s_data (apply_all (delete_msgs now s (s_seq s) ks) s)"
proof (intro conjI)
  let ?s = "add_writesLocal (of_nat (length kvs)) s"
  let ?L = "SetMany_loop now kvs ?s [] []"
  have fr: "s_data ?s = s_data s" "s_merger ?s = s_merger s" "s_seq ?s = s_seq s"
    "s_codec ?s = s_codec s" "s_nodeID ?s = s_nodeID s"
    by (simp_all add: store_defs)
  have "encodable_all ?s kvs" using assms(2) by (simp add: encodable_all_def fr)
  note L = SetMany_loop_data [OF this, of now "[]" "[]"]
  have "s_data (fst (snd ?L)) = s_data (apply_all (set_msgs now s (s_seq s) kvs) s)" "fst ?L = None"
    using L by (simp_all add: fr set_msgs_cong [OF fr(4,5)] apply_all_cong [OF fr(2,1)])
  then show "s_data (fst (snd (SetMany T J now kvs s t))) =
      s_data (apply_all (set_msgs now s (s_seq s) kvs) s)"
    using assms(1)
    by (auto simp: SetMany_def isClosed_def Let_def case_prod_unfold markDirty_def
        split: option.split)
next
  let ?s = "add_writesLocal (of_nat (length ks)) s"
  have fr: "s_data ?s = s_data s" "s_merger ?s = s_merger s" "s_seq ?s = s_seq s"
    "s_zero ?s = s_zero s" "s_nodeID ?s = s_nodeID s"
    by (simp_all add: store_defs)
  have "s_data (fst (DeleteMany_loop now ks ?s [] [])) =
      s_data (apply_all (delete_msgs now s (s_seq s) ks) s)"
    by (simp add: DeleteMany_loop_data fr delete_msgs_cong [OF fr(4,5)] apply_all_cong [OF fr(2,1)])
  then show "s_data (fst (snd (DeleteMany T J now ks s t))) =
      s_data (apply_all (delete_msgs now s (s_seq s) ks) s)"
    using assms(1)
    by (auto simp: DeleteMany_def isClosed_def Let_def case_prod_unfold markDirty_def
        split: option.split)
qed

theorem batch_is_writes_one_by_one_witness:
  "s_data (fst (snd (SetMany up_transport sample_json 5 [(''a'', ''x''), (''b'', ''y'')]
      (sample_store ''n'') []))) =
   s_data (apply_all (set_msgs 5 (sample_store ''n'') 0 [(''a'', ''x''), (''b'', ''y'')])
      (sample_store ''n''))"
  using batch_is_writes_one_by_one [of "sample_store ''n''" "[(''a'', ''x''), (''b'', ''y'')]"
      up_transport sample_json 5 "[]"]
  by (simp add: encodable_all_def)

text \<open>
  \<^verbatim>\<open>SetMany\<close> is not all or nothing when a value cannot be encoded. If the range over the map
  meets a value the codec refuses after other values, the call returns the encoding error with
  those earlier writes in the replica, and without having dispatched an event or published a
  message for any of them.
\<close>

theorem SetMany_stops_half_way:
  assumes "\<not> s_closed s" "encodable_all s kvs" "Marshal (s_codec s) v = Inl e"
  shows "\<exists>s'. SetMany T J now (kvs @ (k, v) # rest) s t = (Some (ErrMarshalValue k e), s', t) \<and>
    s_data s' = s_data (apply_all (set_msgs now s (s_seq s) kvs) s) \<and>
    s_wheap s' = s_wheap s \<and> s_watchers s' = s_watchers s"
proof -
  define n :: uint64 where "n = of_nat (length (kvs @ (k, v) # rest))"
  let ?s = "add_writesLocal n s"
  have fr: "s_data ?s = s_data s" "s_merger ?s = s_merger s" "s_seq ?s = s_seq s"
    "s_codec ?s = s_codec s" "s_nodeID ?s = s_nodeID s" "s_wheap ?s = s_wheap s"
    "s_watchers ?s = s_watchers s"
    by (simp_all add: store_defs)
  have "encodable_all ?s kvs" "Marshal (s_codec ?s) v = Inl e"
    using assms(2,3) by (simp_all add: encodable_all_def fr)
  from SetMany_loop_bad [OF this, of now k rest "[]" "[]"] obtain ap ev s' where
    L: "SetMany_loop now (kvs @ (k, v) # rest) ?s [] [] = (Some (ErrMarshalValue k e), s', ap, ev)"
      "s_data s' = s_data (apply_all (set_msgs now s (s_seq s) kvs) s)"
      "s_wheap s' = s_wheap s" "s_watchers s' = s_watchers s"
    by (auto simp: fr set_msgs_cong [OF fr(4,5)] apply_all_cong [OF fr(2,1)])
  then show ?thesis
    unfolding SetMany_def n_def [symmetric] using assms(1) by (simp add: isClosed_def)
qed

theorem SetMany_stops_half_way_witness:
  "\<exists>s'. SetMany up_transport sample_json 5 [(''a'', ''x''), (''b'', ''bad'')] (sample_store ''n'') [] =
     (Some (ErrMarshalValue ''b'' bad_input), s', []) \<and>
     map_option e_Value (s_data s' ''a'') = Some ''x'' \<and> s_watchers s' = []"
  using SetMany_stops_half_way [of "sample_store ''n''" "[(''a'', ''x'')]" "''bad''" bad_input
      up_transport sample_json 5 "''b''" "[]" "[]"]
  by (auto simp: encodable_all_def applyMessage_data stored_value_def)

text \<open>
  \<^verbatim>\<open>TrySet\<close> on an open store writes nothing unless the caller's version is the key's current
  one (the version of an absent or deleted key is the zero version). When it is, the write is
  issued and the answer is \<^verbatim>\<open>true\<close>; the replica changes only if the new stamp beats the old
  one, so \<^verbatim>\<open>(true, nil)\<close> is also the answer to a write that last-write-wins rejected.
\<close>

theorem TrySet_outcomes:
  assumes "\<not> s_closed s" "Marshal (s_codec s) v = Inr p" "s_merger s = None"
  shows "if Version_of k s \<noteq> ver then TrySet T J now k v ver s t = ((False, None), s, t)
    else fst (fst (TrySet T J now k v ver s t)) \<and>
      (if beats (Stamp now (s_nodeID s) (s_seq s + 1)) (s_data s k)
       then s_data (fst (snd (TrySet T J now k v ver s t))) = (s_data s)(k \<mapsto>
          \<lparr>e_Value = v, e_Timestamp = now, e_Origin = s_nodeID s, e_Tombstone = False,
           e_Seq = s_seq s + 1\<rparr>)
       else snd (fst (TrySet T J now k v ver s t)) = None \<and>
         s_data (fst (snd (TrySet T J now k v ver s t))) = s_data s \<and>
         snd (snd (TrySet T J now k v ver s t)) = t)"
proof -
  have eq: "TrySet T J now k v ver s t =
    (if Version_of k s \<noteq> ver then ((False, None), s, t)
     else ((True, fst (Set T J now k v s t)), snd (Set T J now k v s t)))"
    using assms(1)
    by (simp add: TrySet_def Version_of_def isClosed_def Let_def case_prod_unfold split: option.split)
  let ?m = "stamp_msg kindSet k p now s"
  have set: "Set T J now k v s t = write_tail T J ?m v (stamped s) t"
    using assms by (simp add: Set_eq)
  have d: "s_data (fst (snd (Set T J now k v s t))) =
      (if beats (Stamp now (s_nodeID s) (s_seq s + 1)) (s_data s k)
       then (s_data s)(k \<mapsto> msg_entry ?m v) else s_data s)"
    using assms(3) by (simp add: set write_tail_data stored_value_def)
  have "fst (Set T J now k v s t) = None \<and> snd (snd (Set T J now k v s t)) = t"
    if "\<not> beats (Stamp now (s_nodeID s) (s_seq s + 1)) (s_data s k)"
    using that by (simp add: set write_tail_def)
  with d show ?thesis by (simp add: eq msg_entry_def stamp_msg_def)
qed

definition newer_entry :: "string entry" where
  "newer_entry = \<lparr>e_Value = ''old'', e_Timestamp = 9, e_Origin = ''z'', e_Tombstone = False, e_Seq = 1\<rparr>"

theorem TrySet_outcomes_witness:
  "fst (TrySet up_transport sample_json 5 ''k'' ''new''
     \<lparr>v_Timestamp = 9, v_Origin = ''z'', v_Seq = 1, v_Exists = True\<rparr>
     ((sample_store ''n'')\<lparr>s_data := [''k'' \<mapsto> newer_entry]\<rparr>) []) = (True, None) \<and>
   s_data (fst (snd (TrySet up_transport sample_json 5 ''k'' ''new''
     \<lparr>v_Timestamp = 9, v_Origin = ''z'', v_Seq = 1, v_Exists = True\<rparr>
     ((sample_store ''n'')\<lparr>s_data := [''k'' \<mapsto> newer_entry]\<rparr>) []))) = [''k'' \<mapsto> newer_entry]"
proof -
  let ?s = "(sample_store ''n'')\<lparr>s_data := [''k'' \<mapsto> newer_entry]\<rparr>"
  have "Version_of ''k'' ?s = \<lparr>v_Timestamp = 9, v_Origin = ''z'', v_Seq = 1, v_Exists = True\<rparr>"
    "\<not> beats (Stamp 5 ''n'' 1) (Some newer_entry)"
    by (simp_all add: Version_of_def newer_entry_def entry_stamp_def less_stamp_def)
  then show ?thesis
    using TrySet_outcomes [of ?s "''new''" "str_bytes ''new''" "''k''"
        "\<lparr>v_Timestamp = 9, v_Origin = ''z'', v_Seq = 1, v_Exists = True\<rparr>" up_transport sample_json 5 "[]"]
    by (simp add: prod_eq_iff del: beats_simps)
qed

end
