(* ===== verification/Cluster.thy ===== *)
theory Cluster
  imports Writes
begin

section \<open>A cluster of stores over an unreliable network\<close>

text \<open>
  Any number of stores share a topic. A store writes with \<^verbatim>\<open>Set\<close> or \<^verbatim>\<open>Delete\<close> at any clock
  value; every published message can reach every store any number of times, in any order, or
  never. The transport here is the log of all published messages, \<open>net_transport\<close>; a delivery
  picks any message of the log. Ghost field \<open>c_seen\<close> records which published messages a store
  has produced or received. The invariant shows that the map of a store is determined by that
  set, so that stores with the same set have the same map.
\<close>

definition net_transport :: "bytes list Transport" where
  "net_transport =
    \<lparr>tr_Publish = (\<lambda>topic raw net. (None, net @ [raw])),
     tr_Subscribe = (\<lambda>topic net. (Inr 0, net)),
     tr_Snapshot = (\<lambda>topic body net. (None, net)),
     tr_FetchSnapshot = (\<lambda>topic net. (Inr [], net))\<rparr>"

record 'v cluster =
  c_node :: "nat \<Rightarrow> 'v store"
  c_net :: "bytes list"
  c_seen :: "nat \<Rightarrow> bytes set"

text \<open>The fields of a store the cluster looks at.\<close>

definition same_replica :: "'v store \<Rightarrow> 'v store \<Rightarrow> bool" where
  "same_replica s t \<longleftrightarrow> s_seq t = s_seq s \<and> s_nodeID t = s_nodeID s \<and> s_merger t = s_merger s \<and>
     s_codec t = s_codec s \<and> s_zero t = s_zero s \<and> s_data t = s_data s"

text \<open>
  A local write counts as a step when it returns no error (a failed broadcast is reported to
  the caller) and the 64-bit sequence counter does not wrap. Everything else a store
  does that leaves these fields alone (reads, watches and their consumers, errors) is one step.
\<close>

inductive cluster_step :: "Json \<Rightarrow> 'v cluster \<Rightarrow> 'v cluster \<Rightarrow> bool" for J where
  step_Set: "s_seq (c_node C i) + 1 \<noteq> 0 \<Longrightarrow> valid_utf8 k \<Longrightarrow>
    Set net_transport J now k v (c_node C i) (c_net C) = (None, s', net') \<Longrightarrow>
    cluster_step J C (C\<lparr>c_node := (c_node C)(i := s'), c_net := net',
      c_seen := (c_seen C)(i := c_seen C i \<union> set (drop (length (c_net C)) net'))\<rparr>)"
| step_Delete: "s_seq (c_node C i) + 1 \<noteq> 0 \<Longrightarrow> valid_utf8 k \<Longrightarrow>
    Delete net_transport J now k (c_node C i) (c_net C) = (None, s', net') \<Longrightarrow>
    cluster_step J C (C\<lparr>c_node := (c_node C)(i := s'), c_net := net',
      c_seen := (c_seen C)(i := c_seen C i \<union> set (drop (length (c_net C)) net'))\<rparr>)"
| step_deliver: "raw \<in> set (c_net C) \<Longrightarrow>
    cluster_step J C (C\<lparr>c_node := (c_node C)(i := handleRaw J now raw (c_node C i)),
      c_seen := (c_seen C)(i := insert raw (c_seen C i))\<rparr>)"
| step_other: "same_replica (c_node C i) s' \<Longrightarrow> cluster_step J C (C\<lparr>c_node := (c_node C)(i := s')\<rparr>)"

text \<open>
  The start: empty stores without a merger, with distinct node ids, one codec that round
  trips, and one zero value.
\<close>

definition cluster_start :: "Json \<Rightarrow> 'v Codec \<Rightarrow> 'v \<Rightarrow> 'v cluster \<Rightarrow> bool" where
  "cluster_start J c z C \<longleftrightarrow>
     json_msg_roundtrip J \<and> codec_roundtrip c \<and> c_net C = [] \<and>
     inj (\<lambda>i. s_nodeID (c_node C i)) \<and>
     (\<forall>i. s_merger (c_node C i) = None \<and> s_codec (c_node C i) = c \<and> s_zero (c_node C i) = z \<and>
        valid_utf8 (s_nodeID (c_node C i)) \<and> s_data (c_node C i) = Map.empty \<and>
        c_seen C i = {})"

inductive reachable :: "Json \<Rightarrow> 'v Codec \<Rightarrow> 'v \<Rightarrow> 'v cluster \<Rightarrow> bool" for J c z where
  start: "cluster_start J c z C \<Longrightarrow> reachable J c z C"
| step: "reachable J c z C \<Longrightarrow> cluster_step J C C' \<Longrightarrow> reachable J c z C'"

subsection \<open>Local writes\<close>

text \<open>What a write that returns no error did: nothing but count, or apply and publish.\<close>

definition local_msg :: "'v store \<Rightarrow> 'v \<Rightarrow> wireMessage \<Rightarrow> bool" where
  "local_msg s v m \<longleftrightarrow> wm_V m = ProtocolVersion \<and> wm_Origin m = s_nodeID s \<and>
     wm_Seq m = s_seq s + 1 \<and> valid_utf8 (wm_Key m) \<and>
     (wm_Kind m = kindSet \<and> Marshal (s_codec s) v = Inr (wm_Value m) \<or>
      wm_Kind m = kindDelete \<and> v = s_zero s)"

definition wrote :: "Json \<Rightarrow> 'v store \<Rightarrow> bytes list \<Rightarrow> 'v store \<Rightarrow> bytes list \<Rightarrow> bool" where
  "wrote J s net s' net' \<longleftrightarrow>
     s_seq s' = s_seq s + 1 \<and> s_nodeID s' = s_nodeID s \<and> s_merger s' = s_merger s \<and>
     s_codec s' = s_codec s \<and> s_zero s' = s_zero s \<and>
     (s_data s' = s_data s \<and> net' = net \<or>
      (\<exists>m v raw. local_msg s v m \<and> marshalMsg J m = Inr raw \<and> net' = net @ [raw] \<and>
         s_data s' = lww_upd (abs_write (m, v)) (s_data s)))"

lemma net_publish [simp]: "tr_Publish net_transport topic raw net = (None, net @ [raw])"
  by (simp add: net_transport_def)

text \<open>The common tail of both writes: apply the message, then publish it if it was applied.\<close>

lemma apply_publish_wrote:
  fixes s :: "'v store" and m v
  defines "s3 \<equiv> snd (applyMessage m v ((add_writesLocal 1 s)\<lparr>s_seq := s_seq s + 1\<rparr>))"
  assumes "s_merger s = None" "local_msg s v m"
    and out: "if beats (msg_stamp m) (s_data s (wm_Key m))
      then \<exists>raw. marshalMsg J m = Inr raw \<and> s' = markDirty s3 \<and> net' = net @ [raw]
      else s' = s3 \<and> net' = net"
  shows "wrote J s net s' net'"
proof -
  have data: "s_data s3 = lww_upd (abs_write (m, v)) (s_data s)"
    unfolding s3_def using assms(2) by (subst applyMessage_refines) (simp_all add: store_defs)
  have frame: "s_seq s3 = s_seq s + 1" "s_nodeID s3 = s_nodeID s" "s_merger s3 = s_merger s"
    "s_codec s3 = s_codec s" "s_zero s3 = s_zero s"
    by (simp_all add: s3_def store_defs)
  show ?thesis
  proof (cases "beats (msg_stamp m) (s_data s (wm_Key m))")
    case True
    with out obtain raw where "marshalMsg J m = Inr raw" "s' = markDirty s3" "net' = net @ [raw]"
      by auto
    with assms(3) data frame show ?thesis by (auto simp: wrote_def markDirty_def)
  next
    case False
    then have "s_data s3 = s_data s" by (simp add: s3_def applyMessage_data store_defs)
    with False out frame show ?thesis by (simp add: wrote_def)
  qed
qed

lemma Set_wrote:
  assumes "s_merger s = None" "valid_utf8 k"
    and "Set net_transport J now k v s net = (None, s', net')"
  shows "wrote J s net s' net'"
proof -
  from assms(3) obtain payload where p: "Marshal (s_codec s) v = Inr payload"
    by (cases "Marshal (s_codec s) v") (auto simp: Set_def Let_def store_defs split: if_splits)
  let ?m = "\<lparr>wm_V = ProtocolVersion, wm_Kind = kindSet, wm_Key = k, wm_Value = payload,
    wm_Origin = s_nodeID s, wm_Timestamp = now, wm_Seq = s_seq s + 1\<rparr>"
  show ?thesis
  proof (rule apply_publish_wrote [of s v ?m])
    show "local_msg s v ?m" using p assms(2) by (simp add: local_msg_def)
  qed (use assms p in \<open>auto simp: Set_def Let_def case_prod_unfold store_defs
        split: if_splits sum.splits\<close>)
qed

lemma Delete_wrote:
  assumes "s_merger s = None" "valid_utf8 k"
    and "Delete net_transport J now k s net = (None, s', net')"
  shows "wrote J s net s' net'"
proof -
  let ?m = "\<lparr>wm_V = ProtocolVersion, wm_Kind = kindDelete, wm_Key = k, wm_Value = [],
    wm_Origin = s_nodeID s, wm_Timestamp = now, wm_Seq = s_seq s + 1\<rparr>"
  show ?thesis
  proof (rule apply_publish_wrote [of s "s_zero s" ?m])
    show "local_msg s (s_zero s) ?m" using assms(2) by (simp add: local_msg_def)
  qed (use assms in \<open>auto simp: Delete_def Let_def case_prod_unfold store_defs
        split: if_splits sum.splits\<close>)
qed

subsection \<open>The invariant\<close>

text \<open>What a receiver makes of a published message.\<close>

definition dec_write :: "Json \<Rightarrow> 'v Codec \<Rightarrow> 'v \<Rightarrow> bytes \<Rightarrow> 'v wmsg option" where
  "dec_write J c z raw =
    (case unmarshalMsg J raw of
       Inl _ \<Rightarrow> None
     | Inr m \<Rightarrow>
         if wm_Kind m = kindSet then
           (case Unmarshal c (wm_Value m) of Inl _ \<Rightarrow> None | Inr v \<Rightarrow> Some (m, v))
         else Some (m, z))"

definition published_ok :: "Json \<Rightarrow> 'v Codec \<Rightarrow> 'v \<Rightarrow> 'v cluster \<Rightarrow> bytes \<Rightarrow> bool" where
  "published_ok J c z C raw \<longleftrightarrow>
     (\<exists>m v i. dec_write J c z raw = Some (m, v) \<and> wm_V m = ProtocolVersion \<and>
        wm_Origin m = s_nodeID (c_node C i) \<and> wm_Seq m \<le> s_seq (c_node C i) \<and>
        raw \<in> c_seen C i)"

definition writes_of :: "Json \<Rightarrow> 'v Codec \<Rightarrow> 'v \<Rightarrow> bytes set \<Rightarrow> 'v wmsg set" where
  "writes_of J c z R = {w. \<exists>raw \<in> R. dec_write J c z raw = Some w}"

definition determined :: "'v wmsg set \<Rightarrow> (string \<rightharpoonup> 'v entry) \<Rightarrow> bool" where
  "determined W d \<longleftrightarrow> (\<exists>ws. set ws = W \<and> d = fold lww_upd (map abs_write ws) Map.empty)"

definition cluster_inv :: "Json \<Rightarrow> 'v Codec \<Rightarrow> 'v \<Rightarrow> 'v cluster \<Rightarrow> bool" where
  "cluster_inv J c z C \<longleftrightarrow>
     json_msg_roundtrip J \<and> codec_roundtrip c \<and> inj (\<lambda>i. s_nodeID (c_node C i)) \<and>
     (\<forall>i. s_merger (c_node C i) = None \<and> s_codec (c_node C i) = c \<and> s_zero (c_node C i) = z \<and>
        valid_utf8 (s_nodeID (c_node C i)) \<and> c_seen C i \<subseteq> set (c_net C) \<and>
        determined (writes_of J c z (c_seen C i)) (s_data (c_node C i))) \<and>
     (\<forall>raw \<in> set (c_net C). published_ok J c z C raw) \<and>
     unique_stamps (writes_of J c z (set (c_net C)))"

lemma determined_unique:
  assumes "unique_stamps W" "determined W d" "determined W d'"
  shows "d = d'"
proof -
  obtain ws ws' where w: "set ws = W" "d = fold lww_upd (map abs_write ws) Map.empty"
    and w': "set ws' = W" "d' = fold lww_upd (map abs_write ws') Map.empty"
    using assms(2,3) by (auto simp: determined_def)
  have "fold lww_upd (map abs_write ws) Map.empty = fold lww_upd (map abs_write ws') Map.empty"
    using assms(1) w w' by (intro lww.converge unique_stamps_compat) simp_all
  with w w' show ?thesis by simp
qed

lemma determined_insert:
  "determined W d \<Longrightarrow> determined (insert w W) (lww_upd (abs_write w) d)"
  unfolding determined_def
  by (elim exE, rule_tac x = "ws @ [w]" in exI) auto

lemma writes_of_simps [simp]:
  "writes_of J c z {} = {}"
  "writes_of J c z (insert raw R) =
     (case dec_write J c z raw of None \<Rightarrow> writes_of J c z R
      | Some w \<Rightarrow> insert w (writes_of J c z R))"
  by (auto simp: writes_of_def split: option.split)

lemma writes_of_mono: "R \<subseteq> R' \<Longrightarrow> writes_of J c z R \<subseteq> writes_of J c z R'"
  by (auto simp: writes_of_def)

lemma unique_stamps_mono: "unique_stamps W' \<Longrightarrow> W \<subseteq> W' \<Longrightarrow> unique_stamps W"
  by (auto simp: unique_stamps_def)

lemma start_inv: "cluster_start J c z C \<Longrightarrow> cluster_inv J c z C"
  by (auto simp: cluster_start_def cluster_inv_def determined_def unique_stamps_def)

lemma dec_local:
  assumes "json_msg_roundtrip J" "codec_roundtrip c" "s_codec s = c" "s_zero s = z"
    and "local_msg s v m" "marshalMsg J m = Inr raw" "valid_utf8 (s_nodeID s)"
  shows "dec_write J c z raw = Some (m, v)"
proof -
  have k: "valid_utf8 kindSet" "valid_utf8 kindDelete"
    by (simp_all add: valid_utf8_def kindSet_def kindDelete_def of_char_def)
  from assms have "unmarshalMsg J raw = Inr m"
    unfolding json_msg_roundtrip_def local_msg_def using k by metis
  moreover have "Unmarshal c b = Inr v" if "Marshal c v = Inr b" for b
    using assms(2) that unfolding codec_roundtrip_def by blast
  ultimately show ?thesis
    using assms(3-5) by (auto simp: dec_write_def local_msg_def)
qed

subsection \<open>Every step keeps the invariant\<close>

lemma check_skew_frame [simp]:
  "s_data (check_skew now m s) = s_data s" "s_seq (check_skew now m s) = s_seq s"
  "s_nodeID (check_skew now m s) = s_nodeID s" "s_codec (check_skew now m s) = s_codec s"
  "s_merger (check_skew now m s) = s_merger s" "s_zero (check_skew now m s) = s_zero s"
  by (simp_all add: check_skew_def reportError_def Let_def)

lemma reportError_frame [simp]:
  "s_data (reportError e s) = s_data s" "s_seq (reportError e s) = s_seq s"
  "s_nodeID (reportError e s) = s_nodeID s" "s_codec (reportError e s) = s_codec s"
  "s_merger (reportError e s) = s_merger s" "s_zero (reportError e s) = s_zero s"
  by (simp_all add: reportError_def)

lemma handleRaw_frame [simp]:
  "s_seq (handleRaw J now raw s) = s_seq s" "s_nodeID (handleRaw J now raw s) = s_nodeID s"
  "s_codec (handleRaw J now raw s) = s_codec s" "s_merger (handleRaw J now raw s) = s_merger s"
  "s_zero (handleRaw J now raw s) = s_zero s"
  by (simp_all add: handleRaw_def Let_def split: sum.split)

lemma handleRaw_own:
  "unmarshalMsg J raw = Inr m \<Longrightarrow> wm_V m = ProtocolVersion \<Longrightarrow> wm_Origin m = s_nodeID s \<Longrightarrow>
   handleRaw J now raw s = s"
  by (simp add: handleRaw_def)

lemma handleRaw_data:
  assumes "dec_write J (s_codec s) (s_zero s) raw = Some (m, v)" "wm_V m = ProtocolVersion"
    and "wm_Origin m \<noteq> s_nodeID s" "s_merger s = None"
  shows "s_data (handleRaw J now raw s) = lww_upd (abs_write (m, v)) (s_data s)"
  using assms
  by (auto simp: handleRaw_def dec_write_def Let_def applyMessage_refines
      split: sum.splits if_splits)

lemma published_ok_mono:
  assumes "published_ok J c z C raw"
    and "\<And>i. s_nodeID (c_node C' i) = s_nodeID (c_node C i)"
    and "\<And>i. s_seq (c_node C i) \<le> s_seq (c_node C' i)" "\<And>i. c_seen C i \<subseteq> c_seen C' i"
  shows "published_ok J c z C' raw"
  using assms unfolding published_ok_def by (metis order_trans subsetD)

lemma seq_grows: "(q :: uint64) + 1 \<noteq> 0 \<Longrightarrow> q < q + 1"
  by (simp add: word_less_nat_alt unatSuc add.commute)

lemma fresh_stamp:
  assumes "cluster_inv J c z C" "local_msg (c_node C i) v m" "s_seq (c_node C i) + 1 \<noteq> 0"
    and "(m', v') \<in> writes_of J c z (set (c_net C))"
  shows "msg_stamp m' \<noteq> msg_stamp m"
proof
  assume eq: "msg_stamp m' = msg_stamp m"
  obtain raw where raw: "raw \<in> set (c_net C)" "dec_write J c z raw = Some (m', v')"
    using assms(4) by (auto simp: writes_of_def)
  then obtain j where j: "wm_Origin m' = s_nodeID (c_node C j)" "wm_Seq m' \<le> s_seq (c_node C j)"
    using assms(1) by (fastforce simp: cluster_inv_def published_ok_def)
  have m: "wm_Origin m = s_nodeID (c_node C i)" "wm_Seq m = s_seq (c_node C i) + 1"
    using assms(2) by (simp_all add: local_msg_def)
  have "j = i"
    using assms(1) j(1) m(1) eq by (auto simp: cluster_inv_def msg_stamp_def dest: injD)
  with j(2) m(2) eq have "s_seq (c_node C i) + 1 \<le> s_seq (c_node C i)"
    by (simp add: msg_stamp_def)
  with seq_grows [OF assms(3)] show False by simp
qed

lemma unique_stamps_insert:
  assumes "unique_stamps W" "\<And>m' v'. (m', v') \<in> W \<Longrightarrow> msg_stamp m' \<noteq> msg_stamp m"
  shows "unique_stamps (insert (m, v) W)"
  using assms unfolding unique_stamps_def by force

lemma local_step_inv:
  assumes inv: "cluster_inv J c z C" and nw: "s_seq (c_node C i) + 1 \<noteq> 0"
    and wr: "wrote J (c_node C i) (c_net C) s' net'"
  shows "cluster_inv J c z (C\<lparr>c_node := (c_node C)(i := s'), c_net := net',
      c_seen := (c_seen C)(i := c_seen C i \<union> set (drop (length (c_net C)) net'))\<rparr>)"
    (is "cluster_inv J c z ?C'")
proof -
  let ?s = "c_node C i"
  have fr: "s_seq s' = s_seq ?s + 1" "s_nodeID s' = s_nodeID ?s" "s_merger s' = s_merger ?s"
    "s_codec s' = s_codec ?s" "s_zero s' = s_zero ?s"
    using wr by (simp_all add: wrote_def)
  have old: "published_ok J c z ?C' raw" if "published_ok J c z C raw" for raw
    using that fr seq_grows [OF nw]
    by (rule_tac published_ok_mono) (auto simp: less_imp_le)
  have ids: "(\<lambda>j. s_nodeID (c_node ?C' j)) = (\<lambda>j. s_nodeID (c_node C j))"
    using fr by (auto simp: fun_eq_iff)
  from wr consider (none) "s_data s' = s_data ?s" "net' = c_net C"
    | (pub) m v raw where "local_msg ?s v m" "marshalMsg J m = Inr raw" "net' = c_net C @ [raw]"
        "s_data s' = lww_upd (abs_write (m, v)) (s_data ?s)"
    by (auto simp: wrote_def)
  then show ?thesis
  proof cases
    case none
    with inv fr old ids show ?thesis by (simp add: cluster_inv_def)
  next
    case pub
    have dec: "dec_write J c z raw = Some (m, v)"
      using inv pub(1,2) by (intro dec_local) (auto simp: cluster_inv_def)
    have "published_ok J c z ?C' raw"
      unfolding published_ok_def using dec pub(1,3) fr by (auto simp: local_msg_def)
    moreover have "unique_stamps (insert (m, v) (writes_of J c z (set (c_net C))))"
      using inv fresh_stamp [OF inv pub(1) nw]
      by (intro unique_stamps_insert) (auto simp: cluster_inv_def)
    moreover have "determined (insert (m, v) (writes_of J c z (c_seen C i))) (s_data s')"
      using inv pub(4) by (auto simp: cluster_inv_def intro: determined_insert)
    ultimately show ?thesis
      using inv fr old ids pub(3) dec by (auto simp: cluster_inv_def)
  qed
qed

lemma deliver_step_inv:
  assumes inv: "cluster_inv J c z C" and raw: "raw \<in> set (c_net C)"
  shows "cluster_inv J c z (C\<lparr>c_node := (c_node C)(i := handleRaw J now raw (c_node C i)),
      c_seen := (c_seen C)(i := insert raw (c_seen C i))\<rparr>)"
    (is "cluster_inv J c z ?C'")
proof -
  let ?s = "c_node C i"
  obtain m v j where m: "dec_write J c z raw = Some (m, v)" "wm_V m = ProtocolVersion"
      "wm_Origin m = s_nodeID (c_node C j)" "raw \<in> c_seen C j"
    using inv raw by (force simp: cluster_inv_def published_ok_def)
  have s: "s_codec ?s = c" "s_zero ?s = z" "s_merger ?s = None"
    "determined (writes_of J c z (c_seen C i)) (s_data ?s)"
    using inv by (auto simp: cluster_inv_def)
  have det: "determined (writes_of J c z (insert raw (c_seen C i)))
      (s_data (handleRaw J now raw ?s))"
  proof (cases "wm_Origin m = s_nodeID ?s")
    case True
    with m(3) inv have "j = i" by (auto simp: cluster_inv_def dest: injD)
    with m(4) have "insert raw (c_seen C i) = c_seen C i" by auto
    moreover have "unmarshalMsg J raw = Inr m"
      using m(1) by (auto simp: dec_write_def split: sum.splits if_splits)
    ultimately show ?thesis using True m(2) s(4) by (simp add: handleRaw_own del: writes_of_simps)
  next
    case False
    with m s show ?thesis by (simp add: handleRaw_data determined_insert)
  qed
  have "published_ok J c z ?C' r" if "published_ok J c z C r" for r
    using that by (rule published_ok_mono) auto
  moreover have "(\<lambda>j. s_nodeID (c_node ?C' j)) = (\<lambda>j. s_nodeID (c_node C j))"
    by (auto simp: fun_eq_iff)
  ultimately show ?thesis
    using inv raw det by (auto simp: cluster_inv_def simp del: writes_of_simps)
qed

lemma other_step_inv:
  assumes inv: "cluster_inv J c z C" and s': "same_replica (c_node C i) s'"
  shows "cluster_inv J c z (C\<lparr>c_node := (c_node C)(i := s')\<rparr>)"
    (is "cluster_inv J c z ?C'")
proof -
  have "(\<lambda>j. s_nodeID (c_node ?C' j)) = (\<lambda>j. s_nodeID (c_node C j))"
    using s' by (auto simp: fun_eq_iff same_replica_def)
  moreover have "published_ok J c z ?C' r" if "published_ok J c z C r" for r
    using that by (rule published_ok_mono) (use s' in \<open>auto simp: same_replica_def\<close>)
  ultimately show ?thesis using inv s' by (simp add: cluster_inv_def same_replica_def)
qed

lemma step_inv: "cluster_step J C C' \<Longrightarrow> cluster_inv J c z C \<Longrightarrow> cluster_inv J c z C'"
proof (induction rule: cluster_step.induct)
  case (step_Set C i k now v s' net')
  then show ?case
    by (intro local_step_inv Set_wrote) (auto simp: cluster_inv_def)
next
  case (step_Delete C i k now s' net')
  then show ?case
    by (intro local_step_inv Delete_wrote) (auto simp: cluster_inv_def)
next
  case (step_deliver raw C i now)
  then show ?case by (intro deliver_step_inv)
next
  case (step_other C i s')
  then show ?case by (intro other_step_inv)
qed

lemma reachable_inv: "reachable J c z C \<Longrightarrow> cluster_inv J c z C"
  by (induction rule: reachable.induct) (auto intro: start_inv step_inv)

lemma same_seen_same_data:
  assumes "cluster_inv J c z C" "c_seen C i = c_seen C j"
  shows "s_data (c_node C i) = s_data (c_node C j)"
proof (rule determined_unique)
  have "unique_stamps (writes_of J c z (set (c_net C)))" "c_seen C i \<subseteq> set (c_net C)"
    using assms(1) by (auto simp: cluster_inv_def)
  then show "unique_stamps (writes_of J c z (c_seen C i))"
    using unique_stamps_mono writes_of_mono by metis
  have "determined (writes_of J c z (c_seen C l)) (s_data (c_node C l))" for l
    using assms(1) by (simp add: cluster_inv_def)
  then show "determined (writes_of J c z (c_seen C i)) (s_data (c_node C i))"
    "determined (writes_of J c z (c_seen C i)) (s_data (c_node C j))"
    using assms(2) by metis+
qed

subsection \<open>Properties\<close>

text \<open>
  Strong eventual consistency. In every cluster of stores without a merger that is reached
  by sets, deletes, reads and deliveries, in any interleaving, with messages delivered late, out of
  order or more than once, two nodes that have seen the same messages (their own and the
  delivered ones) hold the same replica, entry by entry.
\<close>

theorem cluster_convergence:
  assumes "reachable J c z C" "c_seen C i = c_seen C j"
  shows "s_data (c_node C i) = s_data (c_node C j)"
  using assms by (intro same_seen_same_data [OF reachable_inv])

definition sample_cluster :: "string cluster" where
  "sample_cluster = \<lparr>c_node = (\<lambda>i. sample_store (replicate i CHR ''a'')), c_net = [], c_seen = (\<lambda>_. {})\<rparr>"

lemma sample_cluster_start: "cluster_start sample_json sample_codec '''' sample_cluster"
proof -
  have "utf8_ok (map of_char (replicate i CHR ''a''))" for i
    by (induction i) (simp_all add: of_char_def)
  moreover have "inj (\<lambda>i. replicate i CHR ''a'')"
    by (rule injI) (metis length_replicate)
  ultimately show ?thesis
    by (simp add: cluster_start_def sample_cluster_def sample_json_msg sample_codec_roundtrip
        valid_utf8_def)
qed

theorem cluster_convergence_witness:
  "\<exists>C :: string cluster. c_seen C 0 = c_seen C 1 \<and> c_seen C 0 \<noteq> {} \<and>
     s_data (c_node C 0) = s_data (c_node C 1) \<and>
     map_option e_Value (s_data (c_node C 1) ''k'') = Some ''x''"
proof -
  let ?s = "sample_store []"
  let ?m = "stamp_msg kindSet ''k'' (str_bytes ''x'') 5 ?s"
  let ?raw = "sample_marshalMsg ?m"
  let ?s' = "markDirty (snd (applyMessage ?m ''x'' (stamped ?s)))"
  have "Set net_transport sample_json 5 ''k'' ''x'' (c_node sample_cluster 0) (c_net sample_cluster) =
      (None, ?s', [?raw])"
    by (simp add: sample_cluster_def Set_eq write_tail_def)
  moreover have "s_seq (c_node sample_cluster 0) + 1 \<noteq> 0" "valid_utf8 ''k''"
    by (simp_all add: sample_cluster_def valid_utf8_def of_char_def)
  moreover have "reachable sample_json sample_codec '''' sample_cluster"
    by (rule reachable.start [OF sample_cluster_start])
  ultimately obtain C1 where C1: "reachable sample_json sample_codec '''' C1"
      "C1 = sample_cluster\<lparr>c_node := (c_node sample_cluster)(0 := ?s'), c_net := [?raw],
        c_seen := (c_seen sample_cluster)(0 := {?raw})\<rparr>"
    using reachable.step [OF _ cluster_step.step_Set [where C = sample_cluster and i = 0]]
    by (fastforce simp: sample_cluster_def)
  let ?C = "C1\<lparr>c_node := (c_node C1)(1 := handleRaw sample_json 6 ?raw (c_node C1 1)),
      c_seen := (c_seen C1)(1 := insert ?raw (c_seen C1 1))\<rparr>"
  have r: "reachable sample_json sample_codec '''' ?C"
    by (rule reachable.step [OF C1(1) cluster_step.step_deliver]) (simp add: C1(2))
  have seen: "c_seen ?C 0 = {?raw}" "c_seen ?C 1 = {?raw}"
    by (simp_all add: C1(2) sample_cluster_def)
  then have eq: "s_data (c_node ?C 0) = s_data (c_node ?C 1)"
    by (intro cluster_convergence [OF r]) simp
  have "map_option e_Value (s_data (c_node ?C 0) ''k'') = Some ''x''"
    by (simp add: C1(2) applyMessage_data stored_value_def markDirty_def)
  then have val: "map_option e_Value (s_data (c_node ?C 1) ''k'') = Some ''x''"
    by (simp only: eq)
  have "c_seen ?C 0 = c_seen ?C 1 \<and> c_seen ?C 0 \<noteq> {}" by (simp only: seen) simp
  with eq val show ?thesis by blast
qed

lemma recvLoop_data:
  assumes "s_merger s = None" "s_codec s = c" "s_zero s = z"
    and "\<forall>raw \<in> snd ` set xs. \<exists>m v. dec_write J c z raw = Some (m, v) \<and>
      wm_V m = ProtocolVersion \<and> wm_Origin m \<noteq> s_nodeID s"
  shows "s_data (recvLoop J xs s) =
    fold lww_upd (map (\<lambda>x. abs_write (the (dec_write J c z (snd x)))) xs) (s_data s)"
  using assms
proof (induction xs arbitrary: s)
  case (Cons x xs)
  obtain now raw where x: "x = (now, raw)" by (cases x)
  obtain m v where mv: "dec_write J c z raw = Some (m, v)" "wm_V m = ProtocolVersion"
      "wm_Origin m \<noteq> s_nodeID s"
    using Cons.prems(4) by (auto simp: x)
  have "s_data (handleRaw J now raw s) = lww_upd (abs_write (m, v)) (s_data s)"
    using mv Cons.prems(1-3) by (intro handleRaw_data) auto
  then show ?case
    using Cons.IH [of "handleRaw J now raw s"] Cons.prems mv by (simp add: x)
qed simp

lemma writes_of_decoded:
  assumes "\<forall>raw \<in> R. \<exists>w. dec_write J c z raw = Some w"
  shows "writes_of J c z R = (\<lambda>raw. the (dec_write J c z raw)) ` R"
proof (intro equalityI subsetI)
  fix w assume "w \<in> writes_of J c z R"
  then obtain raw where "raw \<in> R" "dec_write J c z raw = Some w" by (auto simp: writes_of_def)
  then show "w \<in> (\<lambda>raw. the (dec_write J c z raw)) ` R" by (intro image_eqI [of _ _ raw]) simp_all
next
  fix w assume "w \<in> (\<lambda>raw. the (dec_write J c z raw)) ` R"
  then show "w \<in> writes_of J c z R" using assms by (force simp: writes_of_def)
qed

text \<open>
  The receive loop. A store without a merger that takes messages of other nodes from its
  subscription, in whatever order and however often each arrives, ends with the data that
  applying the decoded messages gives; two such stores that start with the same data and took
  the same messages hold the same replica.
\<close>

theorem recvLoop_converges:
  assumes "s_merger s = None" "s_merger s' = None" "s_data s = s_data s'"
    and "s_codec s = c" "s_codec s' = c" "s_zero s = z" "s_zero s' = z"
    and foreign: "\<forall>raw \<in> snd ` set rs. \<exists>m v. dec_write J c z raw = Some (m, v) \<and>
      wm_V m = ProtocolVersion \<and> wm_Origin m \<noteq> s_nodeID s \<and> wm_Origin m \<noteq> s_nodeID s'"
    and "unique_stamps (writes_of J c z (snd ` set rs))" "snd ` set rs = snd ` set rs'"
  shows "s_data (recvLoop J rs s) = s_data (recvLoop J rs' s')"
proof -
  let ?w = "\<lambda>x. the (dec_write J c z (snd x))"
  have "\<forall>raw \<in> snd ` set rs. \<exists>w. dec_write J c z raw = Some w" using foreign by blast
  note dec = writes_of_decoded [OF this]
  have ws: "set (map ?w rs) = writes_of J c z (snd ` set rs)"
    "set (map ?w rs') = writes_of J c z (snd ` set rs)"
    by (simp_all add: dec image_image assms(10) [symmetric])
       (simp add: assms(10) image_image [of "\<lambda>raw. the (dec_write J c z raw)" snd, symmetric])
  have "fold lww_upd (map abs_write (map ?w rs)) (s_data s) =
      fold lww_upd (map abs_write (map ?w rs')) (s_data s)"
    using assms(9) ws by (intro lww.converge unique_stamps_compat) (simp_all only: list.set_map [of abs_write])
  moreover have "s_data (recvLoop J rs s) = fold lww_upd (map abs_write (map ?w rs)) (s_data s)"
    using recvLoop_data [OF assms(1,4,6), of rs J] foreign by (force simp: comp_def)
  moreover have "s_data (recvLoop J rs' s') = fold lww_upd (map abs_write (map ?w rs')) (s_data s')"
    using recvLoop_data [OF assms(2,5,7), of rs' J] foreign assms(10) by (force simp: comp_def)
  ultimately show ?thesis using assms(3) by simp
qed

definition raw_x :: bytes where
  "raw_x = sample_marshalMsg (sample_msg kindSet ''k'' ''x'' ''p'' 1 1)"

definition raw_y :: bytes where
  "raw_y = sample_marshalMsg (sample_msg kindSet ''k'' ''y'' ''q'' 1 1)"

lemma raw_dec:
  "dec_write sample_json sample_codec '''' raw_x = Some (sample_msg kindSet ''k'' ''x'' ''p'' 1 1, ''x'')"
  "dec_write sample_json sample_codec '''' raw_y = Some (sample_msg kindSet ''k'' ''y'' ''q'' 1 1, ''y'')"
  by (simp_all add: dec_write_def raw_x_def raw_y_def)

theorem recvLoop_converges_witness:
  "s_data (recvLoop sample_json [(5, raw_x), (6, raw_y)] (sample_store ''n'')) =
   s_data (recvLoop sample_json [(7, raw_y), (8, raw_x), (9, raw_x)] (sample_store ''m''))"
proof (rule recvLoop_converges)
  show "unique_stamps (writes_of sample_json sample_codec '''' (snd ` set [(5, raw_x), (6, raw_y)]))"
    by (simp add: raw_dec unique_stamps_def msg_stamp_def)
  show "\<forall>raw \<in> snd ` set [(5, raw_x), (6, raw_y)].
      \<exists>m v. dec_write sample_json sample_codec '''' raw = Some (m, v) \<and> wm_V m = ProtocolVersion \<and>
        wm_Origin m \<noteq> s_nodeID (sample_store ''n'') \<and> wm_Origin m \<noteq> s_nodeID (sample_store ''m'')"
    by (simp add: raw_dec)
qed auto

end
