(* ===== verification/Receive.thy ===== *)
theory Receive
  imports Writes
begin

section \<open>The receive path: messages and snapshots of other nodes\<close>

text \<open>
  What \<^verbatim>\<open>handleRaw\<close> does with a message it cannot or must not apply, what it does with a kind it
  does not know, when the clock-skew check reports, and how \<^verbatim>\<open>mergeSnapshot\<close> combines a
  snapshot with the replica: entry by entry, by the same order as a message.
\<close>

subsection \<open>Saturating differences\<close>

lemma time_Sub_exact:
  "\<bar>now - ts\<bar> < 2 ^ 63 \<Longrightarrow> sint (time_Sub now ts) = now - ts"
  by (simp add: time_Sub_def sint_of_int64 abs_if del: of_int_diff split: if_splits)

lemma time_Sub_min: "now - ts < - (2 ^ 63) \<Longrightarrow> time_Sub now ts = of_int (- (2 ^ 63))"
  by (simp add: time_Sub_def)

lemma sint_minus_exact:
  fixes w :: int64
  shows "- (2 ^ 63) < sint w \<Longrightarrow> sint (- w) = - sint w"
  using sint_lt [of w]
  by (simp add: sint_word_ariths signed_take_bit_int_eq_self)

lemma skew_of_exact:
  assumes "\<bar>now - ts\<bar> < 2 ^ 63"
  shows "sint (skew_of now ts) = \<bar>now - ts\<bar>"
proof -
  have s: "sint (time_Sub now ts) = now - ts" by (rule time_Sub_exact [OF assms])
  have "sint (- time_Sub now ts) = - (now - ts)" if "now - ts < 0"
    using sint_minus_exact [of "time_Sub now ts"] assms that by (simp add: s)
  then show ?thesis
    by (simp add: skew_of_def Let_def word_sless_alt s abs_if)
qed

lemma skew_of_min: "now - ts < - (2 ^ 63) \<Longrightarrow> sint (skew_of now ts) = - (2 ^ 63)"
  by (simp add: skew_of_def Let_def time_Sub_min word_sless_alt)

subsection \<open>Merging a snapshot\<close>

text \<open>The entries of a snapshot as writes of the specification.\<close>

definition snap_writes :: "'v store \<Rightarrow> (string \<times> wireSnapshotEntry) list \<Rightarrow> (string \<times> 'v entry) list" where
  "snap_writes s es = map (\<lambda>(k, we). (k, decode_entry s we)) es"

lemma decode_entry_cong:
  "s_zero s' = s_zero s \<Longrightarrow> s_codec s' = s_codec s \<Longrightarrow> decode_entry s' we = decode_entry s we"
  by (simp add: decode_entry_def snap_value_cong [of s' s] split: sum.split)

lemma decodable_cong:
  "s_zero s' = s_zero s \<Longrightarrow> s_codec s' = s_codec s \<Longrightarrow> decodable s' es = decodable s es"
  by (simp add: decodable_def snap_value_cong [of s' s])

lemma decode_entry_stamp: "entry_stamp (decode_entry s we) = msg_stamp (snap_msg we)"
  by (simp add: decode_entry_def snap_msg_stamp [symmetric] split: sum.split)

lemma mergeSnapshot_loop_data:
  assumes "decodable s es"
  shows "fst (mergeSnapshot_loop es s events) = None \<and>
    s_data (fst (snd (mergeSnapshot_loop es s events))) =
      fold lww_upd (snap_writes s es) (s_data s)"
  using assms
proof (induction es arbitrary: s events)
  case Nil
  then show ?case by (simp add: snap_writes_def)
next
  case (Cons ke es)
  obtain k e where ke: "ke = (k, e)" by (cases ke)
  obtain v where v: "snap_value e s = Inr v" using Cons.prems by (auto simp: ke decodable_def)
  have dec: "decodable s es" using Cons.prems by (simp add: decodable_def)
  have de: "decode_entry s e = snap_entry e v" by (simp add: decode_entry_def v)
  show ?case
  proof (cases "beats (entry_stamp (snap_entry e v)) (s_data s k)")
    case True
    let ?s = "put_entry k (snap_entry e v) s"
    obtain ev where ev: "mergeSnapshot_loop ((k, e) # es) s events = mergeSnapshot_loop es ?s (events @ [ev])"
      using mergeSnapshot_loop_accept [OF True v] by blast
    have w: "snap_writes ?s es = snap_writes s es"
      by (simp add: snap_writes_def decode_entry_cong [of ?s s])
    have "decodable ?s es" using dec by (simp add: decodable_cong [of ?s s])
    from Cons.IH [OF this, of "events @ [ev]"]
    have "fst (mergeSnapshot_loop es ?s (events @ [ev])) = None \<and>
        s_data (fst (snd (mergeSnapshot_loop es ?s (events @ [ev])))) =
          fold lww_upd (snap_writes s es) (lww_upd (k, decode_entry s e) (s_data s))"
      using True by (simp add: w de lww_upd_def [of "(k, snap_entry e v)"] del: fun_upd_apply)
    then show ?thesis unfolding ke ev by (simp add: snap_writes_def)
  next
    case False
    then have "\<not> lwwAccept k (snap_msg e) s" by (simp add: lwwAccept_iff snap_msg_stamp [of e v])
    with Cons.IH [OF dec, of events] False show ?thesis
      by (simp add: ke snap_writes_def de lww_upd_def)
  qed
qed

definition decodable_snapshot :: "Json \<Rightarrow> bytes \<Rightarrow> 'v store \<Rightarrow> (string \<times> wireSnapshotEntry) list \<Rightarrow> bool" where
  "decodable_snapshot J raw s es \<longleftrightarrow>
     (\<exists>sn. unmarshalSnap J raw = Inr sn \<and> \<not> ws_V sn > ProtocolVersion \<and> ws_Entries sn = es) \<and>
     distinct (map fst es) \<and> decodable s es"

lemma mergeSnapshot_data:
  assumes "decodable_snapshot J raw s es"
  shows "fst (mergeSnapshot J raw s) = None \<and>
    s_data (snd (mergeSnapshot J raw s)) = fold lww_upd (snap_writes s es) (s_data s)"
proof -
  obtain sn where sn: "unmarshalSnap J raw = Inr sn" "\<not> ws_V sn > ProtocolVersion" "ws_Entries sn = es"
    and d: "decodable s es"
    using assms by (auto simp: decodable_snapshot_def)
  obtain s1 evs where "mergeSnapshot_loop es s [] = (None, s1, evs)"
      "s_data s1 = fold lww_upd (snap_writes s es) (s_data s)"
    using mergeSnapshot_loop_data [OF d, of "[]"] by (metis prod.collapse)
  with sn show ?thesis by (simp add: mergeSnapshot_def mergeSnapshot_locked_def)
qed

lemma fold_lww_pointwise:
  "distinct (map fst ws) \<Longrightarrow>
   fold lww_upd ws d k =
     (case map_of ws k of
        None \<Rightarrow> d k
      | Some e \<Rightarrow> if beats (entry_stamp e) (d k) then Some e else d k)"
proof (induction ws arbitrary: d)
  case (Cons w ws)
  show ?case
  proof (cases "fst w = k")
    case True
    then have "map_of ws k = None" using Cons.prems by (auto simp: map_of_eq_None_iff)
    then show ?thesis using Cons True by (simp add: lww_upd_at)
  next
    case False
    then show ?thesis using Cons by (auto simp: lww_upd_at split: option.split)
  qed
qed simp

lemma mergeSnapshot_frame:
  "s_zero (snd (mergeSnapshot J raw s)) = s_zero s \<and> s_codec (snd (mergeSnapshot J raw s)) = s_codec s"
proof -
  have loop: "s_zero (fst (snd (mergeSnapshot_loop es s evs))) = s_zero s \<and>
      s_codec (fst (snd (mergeSnapshot_loop es s evs))) = s_codec s" for es evs and s :: "'a store"
    by (induction es s evs rule: mergeSnapshot_loop.induct)
       (auto simp: Let_def store_defs split: sum.splits)
  have "s_zero (fst (snd (mergeSnapshot_locked J raw s))) = s_zero s \<and>
      s_codec (fst (snd (mergeSnapshot_locked J raw s))) = s_codec s"
    using loop by (simp add: mergeSnapshot_locked_def split: sum.split)
  then show ?thesis
    by (simp add: mergeSnapshot_def case_prod_unfold split: option.split)
qed

subsection \<open>What only reports\<close>

definition only_reports :: "'v store \<Rightarrow> 'v store \<Rightarrow> bool" where
  "only_reports s s' \<longleftrightarrow> (\<exists>rs. s' = s\<lparr>s_reports := s_reports s @ rs\<rparr>)"

lemma only_reports_refl [simp]: "only_reports s s"
  unfolding only_reports_def by (rule exI [of _ "[]"]) simp

lemma only_reports_trans: "only_reports s s' \<Longrightarrow> only_reports s' s'' \<Longrightarrow> only_reports s s''"
proof -
  assume "only_reports s s'" "only_reports s' s''"
  then obtain rs rs' where "s' = s\<lparr>s_reports := s_reports s @ rs\<rparr>" "s'' = s'\<lparr>s_reports := s_reports s' @ rs'\<rparr>"
    unfolding only_reports_def by blast
  then have "s'' = s\<lparr>s_reports := s_reports s @ (rs @ rs')\<rparr>" by simp
  then show ?thesis unfolding only_reports_def by (rule exI)
qed

lemma reportError_only [simp]: "only_reports s (reportError e s)"
proof (cases "s_onError s")
  case True
  then show ?thesis unfolding only_reports_def by (intro exI [of _ "[e]"]) (simp add: reportError_def)
qed (simp add: reportError_def)

lemma check_skew_only [simp]: "only_reports s (check_skew now m s)"
  by (simp add: check_skew_def Let_def)

lemma check_skew_codec: "s_codec (check_skew now m s) = s_codec s"
  by (simp add: check_skew_def reportError_def Let_def)

subsection \<open>Properties\<close>

text \<open>
  C35. Messages that must not be applied. Bytes that do not decode, a message of a newer protocol
  version, the node's own message, and a set whose value the codec refuses leave the replica,
  the sequence counter and every watcher as they are; at most the error callback sees them.
\<close>

theorem bad_messages_are_dropped:
  assumes "case unmarshalMsg J raw of
      Inl e \<Rightarrow> True
    | Inr m \<Rightarrow> wm_V m > ProtocolVersion \<or> wm_Origin m = s_nodeID s \<or>
        (wm_Kind m = kindSet \<and> (\<exists>e. Unmarshal (s_codec s) (wm_Value m) = Inl e))"
  shows "\<exists>rs. handleRaw J now raw s = s\<lparr>s_reports := s_reports s @ rs\<rparr>"
proof -
  have "only_reports s (handleRaw J now raw s)"
  proof (cases "unmarshalMsg J raw")
    case (Inl e)
    then show ?thesis by (simp add: handleRaw_def)
  next
    case (Inr m)
    have "only_reports s (reportError e (check_skew now m s))" for e
      by (rule only_reports_trans [OF check_skew_only reportError_only])
    with Inr assms show ?thesis by (auto simp: handleRaw_def Let_def check_skew_codec)
  qed
  then show ?thesis by (simp add: only_reports_def)
qed

theorem bad_messages_are_dropped_witness:
  "\<exists>rs. handleRaw sample_json 5 [] (sample_store ''n'') =
     (sample_store ''n'')\<lparr>s_reports := s_reports (sample_store ''n'') @ rs\<rparr>"
  by (rule bad_messages_are_dropped)
     (simp add: sample_json_def sample_unmarshalMsg_def or_bad_def)

text \<open>
  A message of another node that decodes and wins reaches the replica: the next \<^verbatim>\<open>Get\<close> gives
  the decoded value after a set and misses after a delete. A message whose kind is neither is not
  refused: it overwrites the key with a live entry that holds the zero value.
\<close>

theorem handleRaw_applies:
  assumes "unmarshalMsg J raw = Inr m" "\<not> wm_V m > ProtocolVersion" "wm_Origin m \<noteq> s_nodeID s"
    and "beats (msg_stamp m) (s_data s (wm_Key m))" "s_merger s = None"
    and "wm_Kind m = kindSet \<longrightarrow> Unmarshal (s_codec s) (wm_Value m) = Inr v"
  shows "fst (Get (wm_Key m) (handleRaw J now raw s)) =
    (if wm_Kind m = kindSet then (v, True)
     else if wm_Kind m = kindDelete then (s_zero s, False)
     else (s_zero s, True))"
proof -
  have c: "s_data (check_skew now m s) = s_data s" "s_codec (check_skew now m s) = s_codec s"
    "s_zero (check_skew now m s) = s_zero s" "s_merger (check_skew now m s) = s_merger s"
    by (simp_all add: check_skew_def reportError_def Let_def)
  show ?thesis
    using assms
    by (auto simp: handleRaw_def Let_def c applyMessage_data Get_def stored_value_def)
qed

theorem handleRaw_applies_witness:
  "fst (Get ''k'' (handleRaw sample_json 5 (sample_marshalMsg (sample_msg ''expire'' ''k'' ''x'' ''p'' 4 1))
     (sample_store ''n''))) = ('''', True)"
  using handleRaw_applies [of sample_json "sample_marshalMsg (sample_msg ''expire'' ''k'' ''x'' ''p'' 4 1)"
      "sample_msg ''expire'' ''k'' ''x'' ''p'' 4 1" "sample_store ''n''" "''x''" 5]
  by (simp add: kindSet_def kindDelete_def)

text \<open>
  The clock-skew check. When the clocks are less than 292 years apart (\<open>2 ^ 63\<close> ns) a
  positive limit makes \<^verbatim>\<open>handleRaw\<close> report exactly the messages whose distance from now exceeds
  it. A message dated further in the future than that is never reported: the saturated
  difference is the least 64-bit integer, whose negation is itself, negative.
\<close>

theorem clock_skew_reports:
  "(if s_maxClockSkew s = 0 \<or> s_maxClockSkew s <s 0 then check_skew now m s = s
    else if now - wm_Timestamp m < - (2 ^ 63) then check_skew now m s = s
    else if \<bar>now - wm_Timestamp m\<bar> < 2 ^ 63 then
      check_skew now m s =
        (if sint (s_maxClockSkew s) < \<bar>now - wm_Timestamp m\<bar>
         then reportError (ErrClockSkew (skew_of now (wm_Timestamp m)) (wm_Origin m) (s_maxClockSkew s)) s
         else s)
    else True)"
proof -
  have "0 < sint (s_maxClockSkew s)" if "s_maxClockSkew s \<noteq> 0" "\<not> s_maxClockSkew s <s 0"
    using that signed_eq_0_iff [where 'a = int and w = "s_maxClockSkew s"] by (simp add: word_sless_alt)
  then show ?thesis
    using skew_of_exact [of now "wm_Timestamp m"] skew_of_min [of now "wm_Timestamp m"]
    by (auto simp: check_skew_def Let_def word_sless_alt)
qed

text \<open>
  C32. \<^verbatim>\<open>Refresh\<close> merges like messages. Merging a snapshot that decodes takes, key by key, the
  entry with the greater \<^verbatim>\<open>(Timestamp, Origin, Seq)\<close>, the replica's own when the two are equal, and leaves the keys the snapshot
  does not have; merging it a second time changes nothing.
\<close>

theorem merge_takes_greater_stamp:
  assumes "decodable_snapshot J raw s es"
  shows "s_data (snd (mergeSnapshot J raw s)) k =
      (case (map_of es k, s_data s k) of
         (None, old) \<Rightarrow> old
       | (Some we, None) \<Rightarrow> Some (decode_entry s we)
       | (Some we, Some e) \<Rightarrow>
           if e_Timestamp e < se_Timestamp we \<or>
              e_Timestamp e = se_Timestamp we \<and>
                (e_Origin e < se_Origin we \<or> e_Origin e = se_Origin we \<and> e_Seq e < se_Seq we)
           then Some (decode_entry s we) else Some e) \<and>
    s_data (snd (mergeSnapshot J raw (snd (mergeSnapshot J raw s)))) =
      s_data (snd (mergeSnapshot J raw s))"
proof -
  let ?s1 = "snd (mergeSnapshot J raw s)"
  have es: "distinct (map fst (snap_writes s es))"
    using assms by (simp add: decodable_snapshot_def snap_writes_def comp_def case_prod_unfold)
  have fr: "s_zero ?s1 = s_zero s" "s_codec ?s1 = s_codec s" using mergeSnapshot_frame by blast+
  have d1: "s_data ?s1 = fold lww_upd (snap_writes s es) (s_data s)"
    using mergeSnapshot_data [OF assms] by blast
  have "decodable_snapshot J raw ?s1 es"
    using assms by (simp add: decodable_snapshot_def decodable_cong [OF fr])
  moreover have "snap_writes ?s1 es = snap_writes s es"
    by (simp add: snap_writes_def decode_entry_cong [OF fr])
  ultimately have "s_data (snd (mergeSnapshot J raw ?s1)) =
      fold lww_upd (snap_writes s es) (fold lww_upd (snap_writes s es) (s_data s))"
    using mergeSnapshot_data [of J raw ?s1 es] d1 by simp
  also have "\<dots> = fold lww_upd (snap_writes s es) (s_data s)"
    using es by (intro lww.fold_absorb) (auto simp: write_compat_def distinct_map inj_on_def)
  finally have idem: "s_data (snd (mergeSnapshot J raw ?s1)) = s_data ?s1" using d1 by simp
  have "map_of (snap_writes s es) k = map_option (decode_entry s) (map_of es k)"
    unfolding snap_writes_def by (induction es) auto
  then have "s_data ?s1 k =
      (case map_of es k of
         None \<Rightarrow> s_data s k
       | Some we \<Rightarrow> if beats (msg_stamp (snap_msg we)) (s_data s k) then Some (decode_entry s we) else s_data s k)"
    unfolding d1 fold_lww_pointwise [OF es]
    by (simp add: decode_entry_stamp split: option.split)
  then have "s_data ?s1 k =
      (case (map_of es k, s_data s k) of
         (None, old) \<Rightarrow> old
       | (Some we, None) \<Rightarrow> Some (decode_entry s we)
       | (Some we, Some e) \<Rightarrow>
           if e_Timestamp e < se_Timestamp we \<or>
              e_Timestamp e = se_Timestamp we \<and>
                (e_Origin e < se_Origin we \<or> e_Origin e = se_Origin we \<and> e_Seq e < se_Seq we)
           then Some (decode_entry s we) else Some e)"
    by (auto simp: msg_stamp_def entry_stamp_def snap_msg_def less_stamp_def split: option.split)
  with idem show ?thesis by blast
qed

definition one_entry :: "(string \<times> wireSnapshotEntry) list" where
  "one_entry = [(''k'', \<lparr>se_Value = str_bytes ''x'', se_Timestamp = 3, se_Origin = ''p'',
     se_Tombstone = False, se_Seq = 1\<rparr>)]"

text \<open>A store that holds the key with the same timestamp from the node \<open>o\<close>.\<close>

definition rival_store :: "string \<Rightarrow> string store" where
  "rival_store i = (sample_store ''n'')\<lparr>s_data := [''k'' \<mapsto> \<lparr>e_Value = ''y'', e_Timestamp = 3, e_Origin = i,
     e_Tombstone = False, e_Seq = 9\<rparr>]\<rparr>"

theorem merge_takes_greater_stamp_witness:
  "map_option e_Value (s_data (snd (mergeSnapshot sample_json
     (sample_marshalSnap \<lparr>ws_V = 1, ws_Entries = one_entry\<rparr>) (rival_store ''o''))) ''k'') = Some ''x'' \<and>
   map_option e_Value (s_data (snd (mergeSnapshot sample_json
     (sample_marshalSnap \<lparr>ws_V = 1, ws_Entries = one_entry\<rparr>) (rival_store ''q''))) ''k'') = Some ''y''"
proof -
  have "decodable_snapshot sample_json (sample_marshalSnap \<lparr>ws_V = 1, ws_Entries = one_entry\<rparr>)
      (rival_store i) one_entry" for i
    by (simp add: decodable_snapshot_def sample_json_def or_bad_def sample_snap_roundtrip rival_store_def
        decodable_def snap_value_def one_entry_def ProtocolVersion_def)
  from merge_takes_greater_stamp [OF this [of "''o''"], of "''k''"] merge_takes_greater_stamp [OF this [of "''q''"], of "''k''"]
  show ?thesis
    by (simp add: one_entry_def rival_store_def less_list_code decode_entry_def snap_value_def snap_entry_def)
qed

end
