(* ===== verification/Transport_Contract.thy ===== *)
theory Transport_Contract
  imports Tombstones
begin

section \<open>What a store needs of its transport\<close>

text \<open>
  The contract of \<^verbatim>\<open>transport.go\<close> for a transport that is open: publishing and subscribing
  succeed and leave the snapshots alone (subscribing, to a topic that is \<open>free\<close>: only the
  in-memory transport takes a second subscriber), \<^verbatim>\<open>Snapshot\<close> replaces the snapshot of its topic, and
  \<^verbatim>\<open>FetchSnapshot\<close> returns the latest snapshot of the topic or nothing. The locale
  \<open>snapshot_store\<close> is the part of it that concerns subscriptions and the own snapshots, which the
  P2P mesh keeps as well; \<open>transport_contract\<close> extends it. The lemmas are about a store that runs
  on such a transport: a broadcast reaches the transport, a persisted replica is what a store
  constructed later starts with. The locale \<open>message_bus\<close> is the contract for the messages.
\<close>

subsection \<open>Loading what was persisted\<close>

text \<open>The keys and origins of a replica that JSON keeps as they are.\<close>

definition utf8_data :: "(string \<rightharpoonup> 'v entry) \<Rightarrow> bool" where
  "utf8_data d \<longleftrightarrow> (\<forall>k e. d k = Some e \<longrightarrow> valid_utf8 k \<and> valid_utf8 (e_Origin e))"

lemma kept_entries_utf8:
  "utf8_data d \<Longrightarrow> (k, we) \<in> set (kept_entries c lim ks d) \<Longrightarrow>
   valid_utf8 k \<and> valid_utf8 (se_Origin we)"
proof (induction ks)
  case (Cons k' ks)
  have enc: "se_Origin w = e_Origin e" if "encode_entry c e = Inr w" for e w
    using that by (cases "Marshal c (e_Value e)")
      (auto simp: encode_entry_def snapshot_entry_def split: if_splits)
  from Cons show ?case
    by (auto simp: utf8_data_def enc split: option.splits sum.splits if_splits)
qed simp

text \<open>Loading the bytes that persisting a replica produced.\<close>

lemma load_persisted:
  assumes J: "json_snap_roundtrip J" "codec_roundtrip (s_codec s)"
    and d: "range_order ks (s_data s)" "all_encodable (s_codec s) (s_data s)" "utf8_data (s_data s)"
    and body: "marshalSnap J \<lparr>ws_V = ProtocolVersion,
      ws_Entries = kept_entries (s_codec s) lim ks (s_data s)\<rparr> = Inr body"
    and s': "s_codec s' = s_codec s" "s_data s' = Map.empty"
  shows "body \<noteq> [] \<and> fst (loadSnapshot J body s') = None \<and>
    s_data (snd (loadSnapshot J body s')) =
      norm_data (s_zero s') (collect_on lim ks (s_data s))"
proof -
  let ?sn = "\<lparr>ws_V = ProtocolVersion, ws_Entries = kept_entries (s_codec s) lim ks (s_data s)\<rparr>"
  have "\<forall>(k, e) \<in> set (ws_Entries ?sn). valid_utf8 k \<and> valid_utf8 (se_Origin e)"
    using kept_entries_utf8 [OF d(3)] by auto
  then obtain sn' where sn': "body \<noteq> []" "unmarshalSnap J body = Inr sn'" "ws_V sn' = ProtocolVersion"
      "distinct (map fst (ws_Entries sn'))"
      "map_of (ws_Entries sn') = map_of (kept_entries (s_codec s) lim ks (s_data s))"
    using J(1) body unfolding json_snap_roundtrip_def by fastforce
  note dk = decode_kept [OF d(1,2) J(2) s'(1) refl sn'(5,4)]
  have "fst (loadSnapshot_loop (ws_Entries sn') s') = None"
    "s_data (snd (loadSnapshot_loop (ws_Entries sn') s')) =
       norm_data (s_zero s') (collect_on lim ks (s_data s))"
    using loadSnapshot_loop_spec [OF sn'(4), of s'] dk by (simp_all add: s'(2))
  with sn' show ?thesis by (simp add: loadSnapshot_def)
qed

text \<open>
  The entries of a loaded replica: the expired tombstones are gone, the others hold the
  zero value.
\<close>

lemma norm_collect:
  assumes "range_order ks d"
  shows "norm_data z (collect_on lim ks d) = (\<lambda>k. case d k of
      None \<Rightarrow> None
    | Some e \<Rightarrow> if expired lim e then None
                else if e_Tombstone e then Some (e\<lparr>e_Value := z\<rparr>) else Some e)"
  unfolding norm_data_def fun_eq_iff
  by (auto simp: collect_range [OF assms] expired_at_def norm_entry_def split: option.split)

text \<open>\<^verbatim>\<open>Close\<close> of a store leaves it closed.\<close>

lemma removeWatcher_closed: "s_closed (removeWatcher i s) = s_closed s"
  using removeWatcher_core [of s i] by (simp add: same_core_def)

lemma removeWatchers_closed: "s_closed (fold removeWatcher is s) = s_closed s"
  by (induction "is" arbitrary: s) (simp_all add: removeWatcher_closed)

lemma finalFlush_closed: "s_closed (fst (finalFlush T J now ks s t)) = s_closed s"
proof -
  obtain err s1 t1 where p: "persistSnapshot T J now ks (s\<lparr>s_dirty := False\<rparr>) t = (err, s1, t1)"
    by (metis prod.exhaust)
  from persistSnapshot_frame [OF p] p show ?thesis
    by (cases err) (auto simp: finalFlush_def reportError_def)
qed

lemma Close_closed:
  assumes "Close T J now ks s t = (err, s', t')"
  shows "s_closed s'"
  using assms finalFlush_closed [of T J now ks "fold removeWatcher (s_watchers s) (s\<lparr>s_closed := True\<rparr>)" t]
  by (auto simp: Close_def CloseWithContext_def isClosed_def removeWatchers_closed Let_def split: if_splits prod.splits)

subsection \<open>The contract\<close>

locale snapshot_store =
  fixes T :: "'t Transport"
    and usable :: "'t \<Rightarrow> bool"
    and stored :: "'t \<Rightarrow> (string \<rightharpoonup> bytes)"
    and free :: "'t \<Rightarrow> string \<Rightarrow> bool"
  assumes subscribe_ok: "usable t \<Longrightarrow> free t topic \<Longrightarrow>
      \<exists>c t'. tr_Subscribe T topic t = (Inr c, t') \<and> usable t' \<and> stored t' = stored t"
    and snapshot_ok: "usable t \<Longrightarrow>
      \<exists>t'. tr_Snapshot T topic body t = (None, t') \<and> usable t' \<and>
        stored t' = (stored t)(topic \<mapsto> body) \<and> free t' = free t"
begin

lemma persist_ok:
  assumes "usable t" "distinct ks" "all_encodable (s_codec s) (s_data s)"
    and body: "marshalSnap J \<lparr>ws_V = ProtocolVersion, ws_Entries =
      kept_entries (s_codec s) (ttl_cutoff now s) ks (s_data s)\<rparr> = Inr body"
  shows "\<exists>s' t'. persistSnapshot T J now ks s t = (None, s', t') \<and> usable t' \<and>
    stored t' = (stored t)(s_topic s \<mapsto> body) \<and> free t' = free t \<and>
    s_data s' = collect_on (ttl_cutoff now s) ks (s_data s)"
proof -
  obtain t' where "tr_Snapshot T (s_topic s) body t = (None, t')" "usable t'"
      "stored t' = (stored t)(s_topic s \<mapsto> body)" "free t' = free t"
    using snapshot_ok [OF assms(1)] by blast
  then show ?thesis
    by (simp add: persistSnapshot_eq [OF assms(2,3)] body Let_def count_gced_def store_defs)
qed

text \<open>A store constructed where the topic is free, from what \<^verbatim>\<open>FetchSnapshot\<close> returned.\<close>

lemma New_fetched:
  assumes "usable t" "free t topic" "topic \<noteq> ''''" "body \<noteq> []"
    and fetch: "\<And>c t1. tr_Subscribe T topic t = (Inr c, t1) \<Longrightarrow> usable t1 \<Longrightarrow> stored t1 = stored t \<Longrightarrow>
      \<exists>t2. tr_FetchSnapshot T topic t1 = (Inr body, t2)"
    and load: "\<And>s0. s_codec s0 = s_codec (apply_options opts (default_store z jc topic)) \<Longrightarrow>
      s_data s0 = Map.empty \<Longrightarrow> s_zero s0 = z \<Longrightarrow>
      fst (loadSnapshot J body s0) = None \<and> s_data (snd (loadSnapshot J body s0)) = d"
  shows "\<exists>s t'. New z jc J (Inr i) topic (Some T) opts t = (Inr s, t') \<and> s_data s = d"
proof -
  let ?s0 = "apply_options opts (default_store z jc topic)"
  let ?s = "if s_nodeID ?s0 = '''' then ?s0\<lparr>s_nodeID := i\<rparr> else ?s0"
  obtain c t1 where sub: "tr_Subscribe T topic t = (Inr c, t1)" "usable t1" "stored t1 = stored t"
    using subscribe_ok [OF assms(1,2)] by blast
  from fetch [OF this] obtain t2 where f: "tr_FetchSnapshot T topic t1 = (Inr body, t2)" by blast
  have "s_data ?s0 = Map.empty" "s_zero ?s0 = z" by (simp_all add: default_store_def)
  then have "fst (loadSnapshot J body ?s) = None \<and> s_data (snd (loadSnapshot J body ?s)) = d"
    by (intro load) simp_all
  then obtain s' where "loadSnapshot J body ?s = (None, s')" "s_data s' = d"
    by (metis prod.collapse)
  with sub f assms(3,4) show ?thesis
    by (auto simp: New_def Let_def split: if_splits)
qed

text \<open>
  A store constructed from the bytes another one persisted has the persisted replica: the
  expired tombstones are gone, the others hold the zero value.
\<close>

lemma New_loads:
  fixes s :: "'v store"
  assumes J: "json_snap_roundtrip J" "codec_roundtrip (s_codec s)"
    and d: "range_order ks (s_data s)" "all_encodable (s_codec s) (s_data s)" "utf8_data (s_data s)"
    and body: "marshalSnap J \<lparr>ws_V = ProtocolVersion,
      ws_Entries = kept_entries (s_codec s) lim ks (s_data s)\<rparr> = Inr body"
    and opts: "s_codec (apply_options opts (default_store z jc topic)) = s_codec s"
    and t: "usable t" "free t topic" "topic \<noteq> ''''"
    and fetch: "\<And>c t1. tr_Subscribe T topic t = (Inr c, t1) \<Longrightarrow> usable t1 \<Longrightarrow> stored t1 = stored t \<Longrightarrow>
      \<exists>t2. tr_FetchSnapshot T topic t1 = (Inr body, t2)"
  shows "\<exists>s2 t'. New z jc J (Inr i) topic (Some T) opts t = (Inr s2, t') \<and>
    s_data s2 = (\<lambda>k. case s_data s k of
      None \<Rightarrow> None
    | Some e \<Rightarrow> if expired lim e then None
                else if e_Tombstone e then Some (e\<lparr>e_Value := z\<rparr>) else Some e)"
proof -
  note lp = load_persisted [OF J d body]
  have "body \<noteq> []" using lp [of "s\<lparr>s_data := Map.empty\<rparr>"] by simp
  with lp opts fetch show ?thesis
    unfolding norm_collect [OF d(1), symmetric] by (intro New_fetched [OF t]) auto
qed

end

text \<open>A transport that also takes every message and returns the latest snapshot itself.\<close>

locale transport_contract = snapshot_store +
  assumes publish_ok: "usable t \<Longrightarrow>
      \<exists>t'. tr_Publish T topic raw t = (None, t') \<and> usable t' \<and> stored t' = stored t \<and> free t' = free t"
    and fetch_ok: "usable t \<Longrightarrow>
      tr_FetchSnapshot T topic t = (Inr (case stored t topic of None \<Rightarrow> [] | Some b \<Rightarrow> b), t)"
begin

text \<open>A write whose encodings succeed returns no error on an open store.\<close>

lemma Set_ok:
  assumes "usable t" "\<not> s_closed s" "Marshal (s_codec s) v = Inr b" "\<And>m. \<exists>raw. marshalMsg J m = Inr raw"
  shows "fst (Set T J now k v s t) = None \<and> usable (snd (snd (Set T J now k v s t)))"
proof -
  have pub: "\<exists>t'. tr_Publish T topic raw t = (None, t') \<and> usable t'" for topic raw
    using publish_ok [OF assms(1)] by blast
  obtain ms where ms: "\<And>m. marshalMsg J m = Inr (ms m)" using assms(4) by metis
  obtain p where p: "\<And>topic raw. tr_Publish T topic raw t = (None, p topic raw)"
      "\<And>topic raw. usable (p topic raw)"
    using pub by metis
  show ?thesis
    using assms(1-3) by (simp add: Set_def Let_def case_prod_unfold ms p isClosed_def store_defs)
qed

text \<open>
  A replica that was persisted is what a store constructed on the topic afterwards starts with,
  over the same transport or over another one that sees the same snapshot.
\<close>

lemma restart_loads:
  assumes J: "json_snap_roundtrip J" "codec_roundtrip (s_codec s)"
    and d: "range_order ks (s_data s)" "all_encodable (s_codec s) (s_data s)" "utf8_data (s_data s)"
    and body: "marshalSnap J \<lparr>ws_V = ProtocolVersion, ws_Entries =
      kept_entries (s_codec s) (ttl_cutoff now s) ks (s_data s)\<rparr> = Inr body"
    and "usable t" "s_topic s \<noteq> ''''"
    and opts: "s_codec (apply_options opts (default_store z jc (s_topic s))) = s_codec s"
  shows "\<exists>s' t'. persistSnapshot T J now ks s t = (None, s', t') \<and> usable t' \<and> free t' = free t \<and>
    (\<forall>t2. usable t2 \<longrightarrow> free t2 (s_topic s) \<longrightarrow> stored t2 (s_topic s) = stored t' (s_topic s) \<longrightarrow>
      (\<exists>s2 t''. New z jc J (Inr i) (s_topic s) (Some T) opts t2 = (Inr s2, t'') \<and>
        s_data s2 = (\<lambda>k. case s_data s k of
          None \<Rightarrow> None
        | Some e \<Rightarrow> if expired (ttl_cutoff now s) e then None
                    else if e_Tombstone e then Some (e\<lparr>e_Value := z\<rparr>) else Some e)))"
proof -
  have ks: "distinct ks" using d(1) by (simp add: range_order_def)
  obtain s' t' where p: "persistSnapshot T J now ks s t = (None, s', t')" "usable t'"
      "stored t' = (stored t)(s_topic s \<mapsto> body)" "free t' = free t"
    using persist_ok [OF assms(7) ks d(2) body] by blast
  then have "\<exists>t4. tr_FetchSnapshot T (s_topic s) t3 = (Inr body, t4)"
    if "usable t3" "stored t3 (s_topic s) = stored t' (s_topic s)" for t3
    using fetch_ok [OF that(1), of "s_topic s"] that(2) p(3) by simp
  with p New_loads [OF J d body opts _ _ assms(8)] show ?thesis by auto
qed

end

subsection \<open>A transport that delivers\<close>

text \<open>
  What the messages of stores and calls need: a published message is queued for every subscriber of
  the topic that has room, and every subscriber receives its queue in order.
\<close>

locale message_bus =
  fixes T :: "'t Transport"
    and up :: "'t \<Rightarrow> bool"
    and subs :: "'t \<Rightarrow> string \<Rightarrow> nat list"
    and queue :: "'t \<Rightarrow> nat \<Rightarrow> bytes list"
    and depth :: nat
    and recv :: "nat \<Rightarrow> 't \<Rightarrow> bytes option \<times> 't"
  assumes publish_bus: "up t \<Longrightarrow>
      \<exists>t'. tr_Publish T topic raw t = (None, t') \<and> up t' \<and> subs t' = subs t \<and>
        queue t' = (\<lambda>i. if i \<in> set (subs t topic) \<and> length (queue t i) < depth
                        then queue t i @ [raw] else queue t i)"
    and recv_bus: "up t \<Longrightarrow> queue t i = raw # raws \<Longrightarrow>
      \<exists>t'. recv i t = (Some raw, t') \<and> up t' \<and> subs t' = subs t \<and> queue t' = (queue t)(i := raws)"
    and recv_none: "queue t i = [] \<Longrightarrow> recv i t = (None, t)"
    and depth_pos: "0 < depth"
begin

text \<open>A message published to an empty inbox is what its owner receives next.\<close>

lemma publish_recv:
  assumes "up t" "i \<in> set (subs t topic)" "queue t i = []"
  shows "\<exists>t1 t2. tr_Publish T topic raw t = (None, t1) \<and> recv i t1 = (Some raw, t2) \<and> up t2 \<and>
    subs t2 = subs t \<and> queue t2 i = [] \<and>
    (\<forall>j. j \<notin> set (subs t topic) \<longrightarrow> queue t2 j = queue t j)"
proof -
  obtain t1 where t1: "tr_Publish T topic raw t = (None, t1)" "up t1" "subs t1 = subs t"
      "queue t1 = (\<lambda>i. if i \<in> set (subs t topic) \<and> length (queue t i) < depth
                        then queue t i @ [raw] else queue t i)"
    using publish_bus [OF assms(1)] by blast
  have "queue t1 i = [raw]" using t1(4) assms(2,3) depth_pos by simp
  from recv_bus [OF t1(2) this] obtain t2 where
      "recv i t1 = (Some raw, t2)" "up t2" "subs t2 = subs t1" "queue t2 = (queue t1)(i := [])"
    by blast
  with t1 assms(2) show ?thesis by auto
qed

end

end
