(* ===== verification/Cluster_Sync.thy ===== *)
theory Cluster_Sync
  imports Cluster Receive Transport_Contract
begin

section \<open>Clusters with batches and snapshots\<close>

text \<open>
  The cluster of \<open>Cluster\<close> with the rest of what replicas exchange. A node also writes with
  \<^verbatim>\<open>SetMany\<close>, \<^verbatim>\<open>DeleteMany\<close> and \<^verbatim>\<open>TrySet\<close>; it persists snapshots, and any node can \<^verbatim>\<open>Refresh\<close> from
  any snapshot that was ever persisted, or be constructed by \<^verbatim>\<open>New\<close> from it. Every snapshot carries
  a ghost set, the messages its writer had seen; merging it adds them to the messages the reader
  has seen. The map of a node stays determined by the messages it has seen, directly or through
  snapshots.
\<close>

subsection \<open>Batches as chains of writes\<close>

inductive wrotes :: "Json \<Rightarrow> 'v store \<Rightarrow> bytes list \<Rightarrow> 'v store \<Rightarrow> bytes list \<Rightarrow> bool" for J where
  none: "same_replica s s' \<Longrightarrow> wrotes J s net s' net"
| more: "s_seq s + 1 \<noteq> 0 \<Longrightarrow> wrote J s net s1 net1 \<Longrightarrow> wrotes J s1 net1 s' net' \<Longrightarrow>
    wrotes J s net s' net'"

lemma wrote_left: "same_replica s t \<Longrightarrow> wrote J t net s' net' \<Longrightarrow> wrote J s net s' net'"
  by (simp add: same_replica_def wrote_def local_msg_def)

lemma wrotes_left: "wrotes J t net s' net' \<Longrightarrow> same_replica s t \<Longrightarrow> wrotes J s net s' net'"
proof (induction rule: wrotes.induct)
  case (none t s' net)
  then show ?case by (intro wrotes.none) (simp add: same_replica_def)
next
  case (more t net s1 net1 s' net')
  show ?case
    by (rule wrotes.more [OF _ wrote_left [OF more.prems more.hyps(2)] more.hyps(3)])
       (use more in \<open>simp add: same_replica_def\<close>)
qed

lemma wrotes_right: "wrotes J s net t net' \<Longrightarrow> same_replica t s' \<Longrightarrow> wrotes J s net s' net'"
proof (induction rule: wrotes.induct)
  case (none s t net)
  then show ?case by (intro wrotes.none) (simp add: same_replica_def)
qed (blast intro: wrotes.more)

lemma wrotes_prefix: "wrotes J s net s' net' \<Longrightarrow> \<exists>xs. net' = net @ xs"
proof (induction rule: wrotes.induct)
  case (more s net s1 net1 s' net')
  then show ?case by (auto simp: wrote_def)
qed simp

lemma seq_room:
  fixes q :: uint64
  assumes "unat q + Suc n < 2 ^ 64"
  shows "q + 1 \<noteq> 0" "unat (q + 1) + n < 2 ^ 64"
proof -
  have "unat (q + 1) = unat q + 1"
    using assms by (simp add: unat_word_ariths)
  with assms show "unat (q + 1) + n < 2 ^ 64" by simp
  with \<open>unat (q + 1) = unat q + 1\<close> show "q + 1 \<noteq> 0" by auto
qed

lemma publish_net_Cons:
  "publish_all net_transport J topic (m # ms) net = (None, net') \<Longrightarrow>
   \<exists>raw. marshalMsg J m = Inr raw \<and> publish_all net_transport J topic ms (net @ [raw]) = (None, net')"
  by (auto split: sum.splits)

lemma wrote_accept:
  assumes "local_msg s v m" "marshalMsg J m = Inr raw" "beats (msg_stamp m) (s_data s (wm_Key m))"
    and "s' = put_entry (wm_Key m) (msg_entry m v) (s\<lparr>s_seq := s_seq s + 1\<rparr>)"
  shows "wrote J s net s' (net @ [raw])"
proof -
  have "s_data s' = lww_upd (abs_write (m, v)) (s_data s)"
    using assms(3,4) by (simp add: put_entry_data lww_upd_def abs_write_def)
  moreover have "s_seq s' = s_seq s + 1" "s_nodeID s' = s_nodeID s" "s_merger s' = s_merger s"
    "s_codec s' = s_codec s" "s_zero s' = s_zero s"
    using assms(4) by simp_all
  ultimately show ?thesis
    unfolding wrote_def using assms(1,2) by blast
qed

lemma SetMany_loop_wrotes:
  assumes "SetMany_loop ts kvs s applied events = (None, s', applied', events')" "s_merger s = None"
    and "\<forall>kv \<in> set kvs. valid_utf8 (fst kv)" "unat (s_seq s) + length kvs < 2 ^ 64"
  shows "\<exists>ms. applied' = applied @ ms \<and>
    (\<forall>net net'. publish_all net_transport J topic ms net = (None, net') \<longrightarrow> wrotes J s net s' net')"
  using assms
proof (induction kvs arbitrary: s applied events)
  case Nil
  then show ?case by (auto simp: same_replica_def intro: wrotes.none)
next
  case (Cons kv kvs)
  obtain k v where kv: "kv = (k, v)" by (cases kv)
  obtain p where p: "Marshal (s_codec s) v = Inr p"
    using Cons.prems(1) by (cases "Marshal (s_codec s) v") (auto simp: kv)
  define m where "m = \<lparr>wm_V = ProtocolVersion, wm_Kind = kindSet, wm_Key = k, wm_Value = p,
       wm_Origin = s_nodeID s, wm_Timestamp = ts, wm_Seq = s_seq s + 1\<rparr>"
  have m: "wm_Key m = k" "msg_stamp m = Stamp ts (s_nodeID s) (s_seq s + 1)" "local_msg s v m"
    using Cons.prems(3) p by (simp_all add: m_def msg_stamp_def local_msg_def kv)
  have room: "s_seq s + 1 \<noteq> 0" "unat (s_seq s + 1) + length kvs < 2 ^ 64"
    using seq_room [of "s_seq s" "length kvs"] Cons.prems(4) by simp_all
  show ?case
  proof (cases "beats (msg_stamp m) (s_data s k)")
    case True
    let ?s = "put_entry k (msg_entry m (stored_value m v s)) (s\<lparr>s_seq := s_seq s + 1\<rparr>)"
    have "SetMany_loop ts kvs ?s (applied @ [m]) (events @ [msg_event m (stored_value m v s)]) =
        (None, s', applied', events')"
      using Cons.prems(1) SetMany_loop_accept [OF p m_def True, of kvs applied events] by (simp add: kv)
    from Cons.IH [OF this] Cons.prems(2,3) room obtain ms where ms: "applied' = applied @ m # ms"
        "\<And>net net'. publish_all net_transport J topic ms net = (None, net') \<Longrightarrow> wrotes J ?s net s' net'"
      by auto
    have "wrote J s net ?s (net @ [raw])" if "marshalMsg J m = Inr raw" for net raw
      using that m True Cons.prems(2) by (intro wrote_accept [of s v m]) (simp_all add: stored_value_def)
    then have "wrotes J s net s' net'" if "publish_all net_transport J topic (m # ms) net = (None, net')"
      for net net'
      using publish_net_Cons [OF that] ms(2) room(1) by (blast intro: wrotes.more)
    with ms(1) show ?thesis by (intro exI [of _ "m # ms"]) (simp del: publish_all.simps)
  next
    case False
    let ?s = "add_writesRejected 1 (s\<lparr>s_seq := s_seq s + 1\<rparr>)"
    have "SetMany_loop ts kvs ?s applied events = (None, s', applied', events')"
      using Cons.prems(1) SetMany_loop_reject [OF p, of ts k kvs applied events] False m(2) by (simp add: kv)
    from Cons.IH [OF this] Cons.prems(2,3) room obtain ms where ms: "applied' = applied @ ms"
        "\<And>net net'. publish_all net_transport J topic ms net = (None, net') \<Longrightarrow> wrotes J ?s net s' net'"
      by (auto simp: store_defs)
    have "wrote J s net ?s net" for net by (simp add: wrote_def store_defs)
    with ms room(1) show ?thesis by (blast intro: wrotes.more)
  qed
qed

lemma DeleteMany_loop_wrotes:
  assumes "DeleteMany_loop ts ks s applied events = (s', applied', events')" "s_merger s = None"
    and "\<forall>k \<in> set ks. valid_utf8 k" "unat (s_seq s) + length ks < 2 ^ 64"
  shows "\<exists>ms. applied' = applied @ ms \<and>
    (\<forall>net net'. publish_all net_transport J topic ms net = (None, net') \<longrightarrow> wrotes J s net s' net')"
  using assms
proof (induction ks arbitrary: s applied events)
  case Nil
  then show ?case by (auto simp: same_replica_def intro: wrotes.none)
next
  case (Cons k ks)
  define m where "m = \<lparr>wm_V = ProtocolVersion, wm_Kind = kindDelete, wm_Key = k, wm_Value = [],
       wm_Origin = s_nodeID s, wm_Timestamp = ts, wm_Seq = s_seq s + 1\<rparr>"
  have m: "wm_Key m = k" "msg_stamp m = Stamp ts (s_nodeID s) (s_seq s + 1)" "local_msg s (s_zero s) m"
    using Cons.prems(3) by (simp_all add: m_def msg_stamp_def local_msg_def)
  have room: "s_seq s + 1 \<noteq> 0" "unat (s_seq s + 1) + length ks < 2 ^ 64"
    using seq_room [of "s_seq s" "length ks"] Cons.prems(4) by simp_all
  show ?case
  proof (cases "beats (msg_stamp m) (s_data s k)")
    case True
    let ?s = "put_entry k (msg_entry m (s_zero s)) (s\<lparr>s_seq := s_seq s + 1\<rparr>)"
    have "DeleteMany_loop ts ks ?s (applied @ [m]) (events @ [msg_event m (s_zero s)]) = (s', applied', events')"
      using Cons.prems(1) DeleteMany_loop_accept [OF m_def True, of ks applied events] by simp
    from Cons.IH [OF this] Cons.prems(2,3) room obtain ms where ms: "applied' = applied @ m # ms"
        "\<And>net net'. publish_all net_transport J topic ms net = (None, net') \<Longrightarrow> wrotes J ?s net s' net'"
      by auto
    have "wrote J s net ?s (net @ [raw])" if "marshalMsg J m = Inr raw" for net raw
      using that m True by (intro wrote_accept [of s "s_zero s" m]) simp_all
    then have "wrotes J s net s' net'" if "publish_all net_transport J topic (m # ms) net = (None, net')"
      for net net'
      using publish_net_Cons [OF that] ms(2) room(1) by (blast intro: wrotes.more)
    with ms(1) show ?thesis by (intro exI [of _ "m # ms"]) (simp del: publish_all.simps)
  next
    case False
    let ?s = "add_writesRejected 1 (s\<lparr>s_seq := s_seq s + 1\<rparr>)"
    have "DeleteMany_loop ts ks ?s applied events = (s', applied', events')"
      using Cons.prems(1) DeleteMany_loop_reject [of ts s k ks applied events] False m(2) by simp
    from Cons.IH [OF this] Cons.prems(2,3) room obtain ms where ms: "applied' = applied @ ms"
        "\<And>net net'. publish_all net_transport J topic ms net = (None, net') \<Longrightarrow> wrotes J ?s net s' net'"
      by (auto simp: store_defs)
    have "wrote J s net ?s net" for net by (simp add: wrote_def store_defs)
    with ms room(1) show ?thesis by (blast intro: wrotes.more)
  qed
qed

subsection \<open>Writes that snapshots can carry\<close>

text \<open>
  The entries a snapshot keeps as they are: key and origin survive JSON, a live value can be
  encoded, a tombstone holds the zero value.
\<close>

definition clean_write :: "'v Codec \<Rightarrow> 'v \<Rightarrow> string \<times> 'v entry \<Rightarrow> bool" where
  "clean_write c z w \<longleftrightarrow> valid_utf8 (fst w) \<and> valid_utf8 (e_Origin (snd w)) \<and>
     (if e_Tombstone (snd w) then e_Value (snd w) = z else \<exists>b. Marshal c (e_Value (snd w)) = Inr b)"

definition clean_data :: "'v Codec \<Rightarrow> 'v \<Rightarrow> (string \<rightharpoonup> 'v entry) \<Rightarrow> bool" where
  "clean_data c z d \<longleftrightarrow> (\<forall>k e. d k = Some e \<longrightarrow> clean_write c z (k, e))"

definition clean_inv :: "Json \<Rightarrow> 'v Codec \<Rightarrow> 'v \<Rightarrow> 'v cluster \<Rightarrow> bool" where
  "clean_inv J c z C \<longleftrightarrow> cluster_inv J c z C \<and>
     (\<forall>w \<in> writes_of J c z (set (c_net C)). clean_write c z (abs_write w))"

lemma clean_fold:
  "\<forall>w \<in> set ws. clean_write c z w \<Longrightarrow> clean_data c z d \<Longrightarrow> clean_data c z (fold lww_upd ws d)"
proof (induction ws arbitrary: d)
  case (Cons w ws)
  then have "clean_data c z (lww_upd w d)" by (auto simp: clean_data_def lww_upd_at)
  with Cons show ?case by simp
qed simp

lemma determined_clean:
  assumes "determined W d" "\<forall>w \<in> W. clean_write c z (abs_write w)"
  shows "clean_data c z d"
proof -
  obtain ws where "set ws = W" "d = fold lww_upd (map abs_write ws) Map.empty"
    using assms(1) by (auto simp: determined_def)
  with assms(2) show ?thesis by (auto intro!: clean_fold simp: clean_data_def [of c z Map.empty])
qed

lemma node_clean:
  assumes "clean_inv J c z C"
  shows "clean_data c z (s_data (c_node C i))"
proof (rule determined_clean)
  show "determined (writes_of J c z (c_seen C i)) (s_data (c_node C i))"
    using assms by (simp add: clean_inv_def cluster_inv_def)
  have "writes_of J c z (c_seen C i) \<subseteq> writes_of J c z (set (c_net C))"
    using assms by (intro writes_of_mono) (simp add: clean_inv_def cluster_inv_def)
  then show "\<forall>w \<in> writes_of J c z (c_seen C i). clean_write c z (abs_write w)"
    using assms by (auto simp: clean_inv_def)
qed

lemma clean_data_encodable:
  assumes "clean_data c z d"
  shows "all_encodable c d" "utf8_data d" "norm_data z d = d"
proof -
  have "norm_entry z e = e" if "d k = Some e" for k e
  proof -
    have "clean_write c z (k, e)" using assms that by (simp add: clean_data_def)
    then show ?thesis by (cases e) (auto simp: clean_write_def norm_entry_def)
  qed
  then show "norm_data z d = d"
    unfolding norm_data_def fun_eq_iff by (metis option.exhaust option.simps(8,9))
  have "\<exists>b. Marshal c (e_Value e) = Inr b" if "d k = Some e" "\<not> e_Tombstone e" for k e
    using assms that unfolding clean_data_def clean_write_def by (metis snd_conv)
  then show "all_encodable c d" by (auto simp: all_encodable_def)
  show "utf8_data d" using assms by (auto simp: utf8_data_def clean_data_def clean_write_def)
qed

lemma local_msg_clean:
  assumes "local_msg s v m" "valid_utf8 (s_nodeID s)" "s_codec s = c" "s_zero s = z"
  shows "clean_write c z (abs_write (m, v))"
  using assms by (auto simp: clean_write_def local_msg_def abs_write_def msg_entry_def)

lemma local_step_clean:
  assumes inv: "clean_inv J c z C" and nw: "s_seq (c_node C i) + 1 \<noteq> 0"
    and wr: "wrote J (c_node C i) (c_net C) s' net'"
  shows "clean_inv J c z (C\<lparr>c_node := (c_node C)(i := s'), c_net := net',
      c_seen := (c_seen C)(i := c_seen C i \<union> set (drop (length (c_net C)) net'))\<rparr>)"
proof -
  have s: "json_msg_roundtrip J" "codec_roundtrip c" "s_codec (c_node C i) = c" "s_zero (c_node C i) = z"
    "valid_utf8 (s_nodeID (c_node C i))"
    using inv by (auto simp: clean_inv_def cluster_inv_def)
  have "\<forall>w \<in> writes_of J c z (set net'). clean_write c z (abs_write w)"
  proof (cases "net' = c_net C")
    case False
    with wr obtain m v raw where m: "local_msg (c_node C i) v m" "marshalMsg J m = Inr raw"
        "net' = c_net C @ [raw]"
      by (auto simp: wrote_def)
    with s have "dec_write J c z raw = Some (m, v)" by (intro dec_local)
    with m s inv show ?thesis by (auto simp: clean_inv_def local_msg_clean)
  qed (use inv in \<open>simp add: clean_inv_def\<close>)
  with local_step_inv [of J c z C i s' net'] inv nw wr show ?thesis by (simp add: clean_inv_def)
qed

text \<open>One node changes without publishing: its map must be determined by what it has seen now.\<close>

lemma node_step_clean:
  assumes inv: "clean_inv J c z C"
    and fr: "s_nodeID s' = s_nodeID (c_node C i)" "s_merger s' = None" "s_codec s' = c" "s_zero s' = z"
      "s_seq (c_node C i) \<le> s_seq s'"
    and R: "c_seen C i \<subseteq> R" "R \<subseteq> set (c_net C)" "determined (writes_of J c z R) (s_data s')"
  shows "clean_inv J c z (C\<lparr>c_node := (c_node C)(i := s'), c_seen := (c_seen C)(i := R)\<rparr>)"
    (is "clean_inv J c z ?C'")
proof -
  have "(\<lambda>j. s_nodeID (c_node ?C' j)) = (\<lambda>j. s_nodeID (c_node C j))"
    using fr by (auto simp: fun_eq_iff)
  moreover have "published_ok J c z ?C' r" if "published_ok J c z C r" for r
    using that by (rule published_ok_mono) (use fr R in auto)
  ultimately show ?thesis
    using assms by (simp add: clean_inv_def cluster_inv_def)
qed

lemma same_replica_clean:
  assumes "clean_inv J c z C" "same_replica (c_node C i) s'"
  shows "clean_inv J c z (C\<lparr>c_node := (c_node C)(i := s')\<rparr>)"
proof -
  have "clean_inv J c z (C\<lparr>c_node := (c_node C)(i := s'), c_seen := (c_seen C)(i := c_seen C i)\<rparr>)"
    by (rule node_step_clean) (use assms in \<open>auto simp: same_replica_def clean_inv_def cluster_inv_def\<close>)
  then show ?thesis by simp
qed

lemma wrotes_clean:
  assumes "wrotes J s net s' net'" "clean_inv J c z C" "c_node C i = s" "c_net C = net"
  shows "clean_inv J c z (C\<lparr>c_node := (c_node C)(i := s'), c_net := net',
      c_seen := (c_seen C)(i := c_seen C i \<union> set (drop (length (c_net C)) net'))\<rparr>)"
  using assms
proof (induction arbitrary: C rule: wrotes.induct)
  case (none s s' net)
  have "C\<lparr>c_node := (c_node C)(i := s'), c_net := net,
      c_seen := (c_seen C)(i := c_seen C i \<union> set (drop (length (c_net C)) net))\<rparr> =
    C\<lparr>c_node := (c_node C)(i := s')\<rparr>"
    using none.prems by (intro cluster.equality) auto
  then show ?case using none by (simp only: same_replica_clean)
next
  case (more s net s1 net1 s' net')
  let ?C1 = "C\<lparr>c_node := (c_node C)(i := s1), c_net := net1,
      c_seen := (c_seen C)(i := c_seen C i \<union> set (drop (length (c_net C)) net1))\<rparr>"
  have "clean_inv J c z ?C1" using more.prems more.hyps by (intro local_step_clean) simp_all
  then have inv: "clean_inv J c z (?C1\<lparr>c_node := (c_node ?C1)(i := s'), c_net := net',
      c_seen := (c_seen ?C1)(i := c_seen ?C1 i \<union> set (drop (length (c_net ?C1)) net'))\<rparr>)"
    by (rule more.IH) simp_all
  obtain xs ys where "net1 = net @ xs" "net' = net1 @ ys"
    using wrotes_prefix [OF more.hyps(3)] more.hyps(2) by (auto simp: wrote_def)
  then have eq: "?C1\<lparr>c_node := (c_node ?C1)(i := s'), c_net := net',
      c_seen := (c_seen ?C1)(i := c_seen ?C1 i \<union> set (drop (length (c_net ?C1)) net'))\<rparr> =
    C\<lparr>c_node := (c_node C)(i := s'), c_net := net',
      c_seen := (c_seen C)(i := c_seen C i \<union> set (drop (length (c_net C)) net'))\<rparr>"
    using more.prems by (intro cluster.equality) (auto simp: fun_eq_iff)
  show ?case using inv unfolding eq .
qed

lemma SetMany_wrotes:
  assumes "SetMany net_transport J now kvs s net = (None, s', net')" "s_merger s = None"
    and "\<forall>kv \<in> set kvs. valid_utf8 (fst kv)" "unat (s_seq s) + length kvs < 2 ^ 64"
  shows "wrotes J s net s' net'"
proof (cases "kvs = []")
  case False
  let ?s = "add_writesLocal (of_nat (length kvs)) s"
  have pre: "same_replica s ?s" by (simp add: same_replica_def store_defs)
  obtain s1 ms evs where loop: "SetMany_loop now kvs ?s [] [] = (None, s1, ms, evs)"
    and pub: "publish_all net_transport J (s_topic (dispatch_all evs s1)) ms net = (None, net')"
    and s': "s' = markDirty (dispatch_all evs s1)"
    using assms(1) False by (auto simp: SetMany_def Let_def split: if_splits prod.splits option.splits)
  have "same_replica s1 s'" by (simp add: s' same_replica_def store_defs)
  moreover have "wrotes J ?s net s1 net'"
    using SetMany_loop_wrotes [OF loop, of J "s_topic (dispatch_all evs s1)"] assms(2-4) pub
    by (auto simp: store_defs)
  ultimately show ?thesis using pre by (blast intro: wrotes_left wrotes_right)
qed (use assms(1) in \<open>auto simp: SetMany_def same_replica_def intro: wrotes.none split: if_splits\<close>)

lemma DeleteMany_wrotes:
  assumes "DeleteMany net_transport J now ks s net = (None, s', net')" "s_merger s = None"
    and "\<forall>k \<in> set ks. valid_utf8 k" "unat (s_seq s) + length ks < 2 ^ 64"
  shows "wrotes J s net s' net'"
proof (cases "ks = []")
  case False
  let ?s = "add_writesLocal (of_nat (length ks)) s"
  have pre: "same_replica s ?s" by (simp add: same_replica_def store_defs)
  obtain s1 ms evs where loop: "DeleteMany_loop now ks ?s [] [] = (s1, ms, evs)"
    and pub: "publish_all net_transport J (s_topic (dispatch_all evs s1)) ms net = (None, net')"
    and s': "s' = markDirty (dispatch_all evs s1)"
    using assms(1) False by (auto simp: DeleteMany_def Let_def split: if_splits prod.splits option.splits)
  have "same_replica s1 s'" by (simp add: s' same_replica_def store_defs)
  moreover have "wrotes J ?s net s1 net'"
    using DeleteMany_loop_wrotes [OF loop, of J "s_topic (dispatch_all evs s1)"] assms(2-4) pub
    by (auto simp: store_defs)
  ultimately show ?thesis using pre by (blast intro: wrotes_left wrotes_right)
qed (use assms(1) in \<open>auto simp: DeleteMany_def same_replica_def intro: wrotes.none split: if_splits\<close>)

lemma TrySet_wrotes:
  assumes "TrySet net_transport J now k v ver s net = ((ok, None), s', net')" "s_merger s = None"
    and "valid_utf8 k" "s_seq s + 1 \<noteq> 0"
  shows "wrotes J s net s' net'"
proof (cases ok)
  case True
  then have "Set net_transport J now k v s net = (None, s', net')"
    using assms(1) by (auto simp: TrySet_def Let_def split: if_splits prod.splits)
  then have "wrote J s net s' net'" by (rule Set_wrote [OF assms(2,3)])
  moreover have "wrotes J s' net' s' net'" by (simp add: wrotes.none same_replica_def)
  ultimately show ?thesis using assms(4) by (rule_tac wrotes.more)
next
  case False
  then have "s' = s \<and> net' = net"
    using assms(1) by (auto simp: TrySet_def Let_def split: if_splits prod.splits)
  then show ?thesis by (simp add: wrotes.none same_replica_def)
qed

subsection \<open>Merging determined maps\<close>

definition join_data :: "(string \<rightharpoonup> 'v entry) \<Rightarrow> (string \<rightharpoonup> 'v entry) \<Rightarrow> (string \<rightharpoonup> 'v entry)" where
  "join_data a b = (\<lambda>k. case b k of
      None \<Rightarrow> a k
    | Some e \<Rightarrow> if beats (entry_stamp e) (a k) then Some e else a k)"

lemma lww_upd_join: "lww_upd w (join_data a b) = join_data a (lww_upd w b)"
proof
  fix k
  show "lww_upd w (join_data a b) k = join_data a (lww_upd w b) k"
    by (cases "b k"; cases "a k") (auto simp: lww_upd_at join_data_def)
qed

lemma fold_lww_join: "fold lww_upd ws (join_data a b) = join_data a (fold lww_upd ws b)"
  by (induction ws arbitrary: b) (simp_all add: lww_upd_join)

lemma determined_join:
  assumes "determined W a" "determined W' b"
  shows "determined (W \<union> W') (join_data a b)"
proof -
  obtain ws ws' where "set ws = W" "a = fold lww_upd (map abs_write ws) Map.empty"
    "set ws' = W'" "b = fold lww_upd (map abs_write ws') Map.empty"
    using assms by (auto simp: determined_def)
  moreover have "join_data a Map.empty = a" by (simp add: join_data_def)
  ultimately show ?thesis
    unfolding determined_def
    by (intro exI [of _ "ws @ ws'"]) (metis fold_append fold_lww_join map_append set_append comp_apply)
qed

lemma writes_of_Un: "writes_of J c z (A \<union> B) = writes_of J c z A \<union> writes_of J c z B"
  by (auto simp: writes_of_def)

lemma determined_empty [simp]: "determined {} d \<longleftrightarrow> d = Map.empty"
  by (simp add: determined_def)

lemma join_empty [simp]: "join_data Map.empty d = d"
  by (simp add: join_data_def fun_eq_iff split: option.split)

subsection \<open>What a snapshot holds\<close>

definition snap_holds :: "Json \<Rightarrow> 'v Codec \<Rightarrow> 'v \<Rightarrow> bytes \<Rightarrow> (string \<rightharpoonup> 'v entry) \<Rightarrow> bool" where
  "snap_holds J c z body d \<longleftrightarrow> body \<noteq> [] \<and>
     (\<exists>sn. unmarshalSnap J body = Inr sn \<and> ws_V sn = ProtocolVersion \<and>
        distinct (map fst (ws_Entries sn)) \<and>
        (\<forall>s. s_codec s = c \<longrightarrow> s_zero s = z \<longrightarrow> decodable s (ws_Entries sn) \<and>
           (\<lambda>k. map_option (decode_entry s) (map_of (ws_Entries sn) k)) = d))"

lemma map_of_snap_writes: "map_of (snap_writes s es) k = map_option (decode_entry s) (map_of es k)"
  unfolding snap_writes_def by (induction es) auto

lemma merge_snap_holds:
  assumes "snap_holds J c z body d" "s_codec s = c" "s_zero s = z"
  shows "fst (mergeSnapshot J body s) = None" "s_data (snd (mergeSnapshot J body s)) = join_data (s_data s) d"
proof -
  obtain sn where sn: "unmarshalSnap J body = Inr sn" "ws_V sn = ProtocolVersion"
      "distinct (map fst (ws_Entries sn))" "decodable s (ws_Entries sn)"
      "(\<lambda>k. map_option (decode_entry s) (map_of (ws_Entries sn) k)) = d"
    using assms unfolding snap_holds_def by blast
  then have "decodable_snapshot J body s (ws_Entries sn)" by (simp add: decodable_snapshot_def)
  note m = mergeSnapshot_data [OF this]
  show "fst (mergeSnapshot J body s) = None" using m by blast
  have "distinct (map fst (snap_writes s (ws_Entries sn)))"
    using sn(3) by (simp add: snap_writes_def comp_def case_prod_unfold)
  moreover have "map_of (snap_writes s (ws_Entries sn)) = d"
    using sn(5) by (simp add: fun_eq_iff map_of_snap_writes)
  ultimately show "s_data (snd (mergeSnapshot J body s)) = join_data (s_data s) d"
    using m by (simp add: fun_eq_iff fold_lww_pointwise join_data_def)
qed

lemma load_snap_holds:
  assumes "snap_holds J c z body d" "s_codec s = c" "s_zero s = z" "s_data s = Map.empty"
  shows "fst (loadSnapshot J body s) = None" "s_data (snd (loadSnapshot J body s)) = d"
proof -
  obtain sn where sn: "unmarshalSnap J body = Inr sn" "ws_V sn = ProtocolVersion"
      "distinct (map fst (ws_Entries sn))" "decodable s (ws_Entries sn)"
      "(\<lambda>k. map_option (decode_entry s) (map_of (ws_Entries sn) k)) = d"
    using assms unfolding snap_holds_def by blast
  from loadSnapshot_loop_spec [OF sn(3,4)] sn assms(4)
  show "fst (loadSnapshot J body s) = None" "s_data (snd (loadSnapshot J body s)) = d"
    by (simp_all add: loadSnapshot_def)
qed

lemma persist_snap_holds:
  assumes "json_snap_roundtrip J" "codec_roundtrip c" "s_codec s = c" "s_zero s = z"
    and d: "range_order ks (s_data s)" "clean_data c z (s_data s)"
      "\<forall>k e. s_data s k = Some e \<longrightarrow> \<not> expired (ttl_cutoff now s) e"
    and p: "persistSnapshot T J now ks s t = (None, s', t')"
  shows "same_replica s s' \<and> (\<exists>body. tr_Snapshot T (s_topic s) body t = (None, t') \<and>
    snap_holds J c z body (s_data s))"
proof -
  note cl = clean_data_encodable [OF d(2)]
  let ?lim = "ttl_cutoff now s"
  let ?es = "kept_entries c ?lim ks (s_data s)"
  have ks: "distinct ks" using d(1) by (simp add: range_order_def)
  have all: "collect_on ?lim ks (s_data s) = s_data s"
    using d(1,3) by (auto simp: fun_eq_iff collect_range expired_at_def split: option.splits)
  have enc: "all_encodable (s_codec s) (s_data s)" using cl(1) assms(3) by simp
  obtain body n g where body: "marshalSnap J \<lparr>ws_V = ProtocolVersion, ws_Entries = ?es\<rparr> = Inr body"
      "tr_Snapshot T (s_topic s) body t = (None, t')" "s' = count_gced n (s_stats_update g s)"
    using p assms(3) unfolding persistSnapshot_eq [OF ks enc]
    by (auto simp: Let_def all split: sum.splits prod.splits option.splits)
  have "\<forall>(k, e) \<in> set ?es. valid_utf8 k \<and> valid_utf8 (se_Origin e)"
    using kept_entries_utf8 [OF cl(2)] by auto
  then obtain sn where sn: "body \<noteq> []" "unmarshalSnap J body = Inr sn" "ws_V sn = ProtocolVersion"
      "distinct (map fst (ws_Entries sn))" "map_of (ws_Entries sn) = map_of ?es"
    using assms(1) body(1) unfolding json_snap_roundtrip_def by fastforce
  have "decodable u (ws_Entries sn) \<and>
      (\<lambda>k. map_option (decode_entry u) (map_of (ws_Entries sn) k)) = s_data s"
    if "s_codec u = c" "s_zero u = z" for u
    using decode_kept [OF d(1) enc _ _ that(2), of "ws_Entries sn" ?lim] assms(2,3) that sn cl(3) all
    by simp
  with sn have "snap_holds J c z body (s_data s)" by (auto simp: snap_holds_def)
  with body show ?thesis by (auto simp: same_replica_def count_gced_def store_defs)
qed

subsection \<open>The cluster with snapshots\<close>

text \<open>The snapshots written so far; \<open>n\<close> is the one the transport answers with.\<close>

definition snap_transport :: "nat \<Rightarrow> bytes list Transport" where
  "snap_transport n =
    \<lparr>tr_Publish = (\<lambda>topic raw snaps. (None, snaps)),
     tr_Subscribe = (\<lambda>topic snaps. (Inr 0, snaps)),
     tr_Snapshot = (\<lambda>topic body snaps. (None, snaps @ [body])),
     tr_FetchSnapshot = (\<lambda>topic snaps. (Inr (if n < length snaps then snaps ! n else []), snaps))\<rparr>"

lemma snap_transport_simps [simp]:
  "tr_Subscribe (snap_transport n) topic snaps = (Inr 0, snaps)"
  "tr_Snapshot (snap_transport n) topic body snaps = (None, snaps @ [body])"
  "tr_FetchSnapshot (snap_transport n) topic snaps = (Inr (if n < length snaps then snaps ! n else []), snaps)"
  by (simp_all add: snap_transport_def)

record 'v sync =
  y_cluster :: "'v cluster"
  y_snaps :: "bytes list"
  y_kept :: "bytes set list"

definition after_write :: "'v cluster \<Rightarrow> nat \<Rightarrow> 'v store \<Rightarrow> bytes list \<Rightarrow> 'v cluster" where
  "after_write C i s' net' = C\<lparr>c_node := (c_node C)(i := s'), c_net := net',
      c_seen := (c_seen C)(i := c_seen C i \<union> set (drop (length (c_net C)) net'))\<rparr>"

definition after_merge :: "'v cluster \<Rightarrow> nat \<Rightarrow> 'v store \<Rightarrow> bytes set \<Rightarrow> 'v cluster" where
  "after_merge C i s' R = C\<lparr>c_node := (c_node C)(i := s'), c_seen := (c_seen C)(i := c_seen C i \<union> R)\<rparr>"

text \<open>
  A step that writes returns no error and does not exhaust the sequence numbers. A snapshot is
  persisted while no tombstone has outlived its TTL. A node that has neither written nor received
  can be constructed by \<^verbatim>\<open>New\<close> from any snapshot.
\<close>

inductive sync_step :: "Json \<Rightarrow> 'v Codec \<Rightarrow> 'v \<Rightarrow> 'v sync \<Rightarrow> 'v sync \<Rightarrow> bool" for J c z where
  base: "cluster_step J (y_cluster Y) C' \<Longrightarrow> sync_step J c z Y (Y\<lparr>y_cluster := C'\<rparr>)"
| set_many: "C = y_cluster Y \<Longrightarrow> s = c_node C i \<Longrightarrow>
    \<forall>kv \<in> set kvs. valid_utf8 (fst kv) \<Longrightarrow> unat (s_seq s) + length kvs < 2 ^ 64 \<Longrightarrow>
    SetMany net_transport J now kvs s (c_net C) = (None, s', net') \<Longrightarrow>
    sync_step J c z Y (Y\<lparr>y_cluster := after_write C i s' net'\<rparr>)"
| delete_many: "C = y_cluster Y \<Longrightarrow> s = c_node C i \<Longrightarrow>
    \<forall>k \<in> set ks. valid_utf8 k \<Longrightarrow> unat (s_seq s) + length ks < 2 ^ 64 \<Longrightarrow>
    DeleteMany net_transport J now ks s (c_net C) = (None, s', net') \<Longrightarrow>
    sync_step J c z Y (Y\<lparr>y_cluster := after_write C i s' net'\<rparr>)"
| try_set: "C = y_cluster Y \<Longrightarrow> s = c_node C i \<Longrightarrow> valid_utf8 k \<Longrightarrow> s_seq s + 1 \<noteq> 0 \<Longrightarrow>
    TrySet net_transport J now k v ver s (c_net C) = ((ok, None), s', net') \<Longrightarrow>
    sync_step J c z Y (Y\<lparr>y_cluster := after_write C i s' net'\<rparr>)"
| persist: "C = y_cluster Y \<Longrightarrow> s = c_node C i \<Longrightarrow> range_order ks (s_data s) \<Longrightarrow>
    \<forall>k e. s_data s k = Some e \<longrightarrow> \<not> expired (ttl_cutoff now s) e \<Longrightarrow>
    persistSnapshot (snap_transport n) J now ks s (y_snaps Y) = (None, s', snaps') \<Longrightarrow>
    sync_step J c z Y \<lparr>y_cluster = after_merge C i s' {}, y_snaps = snaps',
      y_kept = y_kept Y @ [c_seen C i]\<rparr>"
| refresh: "C = y_cluster Y \<Longrightarrow> n < length (y_snaps Y) \<Longrightarrow>
    Refresh (snap_transport n) J (c_node C i) (y_snaps Y) = (None, s', snaps') \<Longrightarrow>
    sync_step J c z Y (Y\<lparr>y_cluster := after_merge C i s' (y_kept Y ! n)\<rparr>)"
| join: "C = y_cluster Y \<Longrightarrow> n < length (y_snaps Y) \<Longrightarrow> c_seen C i = {} \<Longrightarrow> s_seq (c_node C i) = 0 \<Longrightarrow>
    New z jc J (Inr rid) topic (Some (snap_transport n)) opts (y_snaps Y) = (Inr s', snaps') \<Longrightarrow>
    s_nodeID s' = s_nodeID (c_node C i) \<Longrightarrow> s_merger s' = None \<Longrightarrow> s_codec s' = c \<Longrightarrow>
    sync_step J c z Y (Y\<lparr>y_cluster := after_merge C i s' (y_kept Y ! n)\<rparr>)"

inductive sync_reach :: "Json \<Rightarrow> 'v Codec \<Rightarrow> 'v \<Rightarrow> 'v sync \<Rightarrow> bool" for J c z where
  start: "json_snap_roundtrip J \<Longrightarrow> cluster_start J c z C \<Longrightarrow>
    sync_reach J c z \<lparr>y_cluster = C, y_snaps = [], y_kept = []\<rparr>"
| step: "sync_reach J c z Y \<Longrightarrow> sync_step J c z Y Y' \<Longrightarrow> sync_reach J c z Y'"

definition snaps_ok :: "Json \<Rightarrow> 'v Codec \<Rightarrow> 'v \<Rightarrow> bytes set \<Rightarrow> bytes list \<Rightarrow> bytes set list \<Rightarrow> bool" where
  "snaps_ok J c z N snaps kept \<longleftrightarrow> list_all2 (\<lambda>body R. R \<subseteq> N \<and>
     (\<exists>d. determined (writes_of J c z R) d \<and> snap_holds J c z body d)) snaps kept"

definition sync_inv :: "Json \<Rightarrow> 'v Codec \<Rightarrow> 'v \<Rightarrow> 'v sync \<Rightarrow> bool" where
  "sync_inv J c z Y \<longleftrightarrow> json_snap_roundtrip J \<and> clean_inv J c z (y_cluster Y) \<and>
     snaps_ok J c z (set (c_net (y_cluster Y))) (y_snaps Y) (y_kept Y)"

subsection \<open>Every step keeps the invariant\<close>

lemma mergeSnapshot_replica:
  "s_seq (snd (mergeSnapshot J raw s)) = s_seq s \<and> s_nodeID (snd (mergeSnapshot J raw s)) = s_nodeID s \<and>
   s_merger (snd (mergeSnapshot J raw s)) = s_merger s"
proof -
  have loop: "s_seq (fst (snd (mergeSnapshot_loop es s evs))) = s_seq s \<and>
      s_nodeID (fst (snd (mergeSnapshot_loop es s evs))) = s_nodeID s \<and>
      s_merger (fst (snd (mergeSnapshot_loop es s evs))) = s_merger s" for es evs and s :: "'a store"
    by (induction es s evs rule: mergeSnapshot_loop.induct)
       (auto simp: Let_def store_defs split: sum.splits)
  then show ?thesis
    by (simp add: mergeSnapshot_def mergeSnapshot_locked_def case_prod_unfold split: option.split sum.split)
qed

lemma loadSnapshot_replica:
  assumes "loadSnapshot J raw s = (e, s')"
  shows "s_seq s' = s_seq s \<and> s_zero s' = s_zero s \<and> s_codec s' = s_codec s"
proof -
  have "s_seq (snd (loadSnapshot_loop es s)) = s_seq s \<and> s_zero (snd (loadSnapshot_loop es s)) = s_zero s \<and>
      s_codec (snd (loadSnapshot_loop es s)) = s_codec s" for es and s :: "'a store"
    by (induction es s rule: loadSnapshot_loop.induct) (auto simp: Let_def store_defs split: sum.splits)
  moreover have "s' = snd (loadSnapshot J raw s)" using assms by simp
  ultimately show ?thesis by (simp add: loadSnapshot_def split: sum.split)
qed

lemma deliver_clean:
  assumes "clean_inv J c z C" "raw \<in> set (c_net C)"
  shows "clean_inv J c z (C\<lparr>c_node := (c_node C)(i := handleRaw J now raw (c_node C i)),
      c_seen := (c_seen C)(i := insert raw (c_seen C i))\<rparr>)"
  using assms deliver_step_inv [of J c z C raw i now] by (simp add: clean_inv_def)

lemma base_clean:
  "cluster_step J C C' \<Longrightarrow> clean_inv J c z C \<Longrightarrow> clean_inv J c z C' \<and> set (c_net C) \<subseteq> set (c_net C')"
proof (induction rule: cluster_step.induct)
  case (step_Set C i k now v s' net')
  then have "wrote J (c_node C i) (c_net C) s' net'"
    by (intro Set_wrote) (auto simp: clean_inv_def cluster_inv_def)
  moreover from this have "set (c_net C) \<subseteq> set net'" by (auto simp: wrote_def)
  ultimately show ?case using step_Set by (simp add: local_step_clean)
next
  case (step_Delete C i k now s' net')
  then have "wrote J (c_node C i) (c_net C) s' net'"
    by (intro Delete_wrote) (auto simp: clean_inv_def cluster_inv_def)
  moreover from this have "set (c_net C) \<subseteq> set net'" by (auto simp: wrote_def)
  ultimately show ?case using step_Delete by (simp add: local_step_clean)
next
  case (step_deliver raw C i now)
  then show ?case by (simp add: deliver_clean)
next
  case (step_other C i s')
  then show ?case by (simp add: clean_inv_def other_step_inv)
qed

lemma snaps_ok_mono: "snaps_ok J c z N snaps kept \<Longrightarrow> N \<subseteq> N' \<Longrightarrow> snaps_ok J c z N' snaps kept"
  unfolding snaps_ok_def by (erule list_all2_mono) blast

lemma snaps_ok_nth:
  assumes "snaps_ok J c z N snaps kept" "n < length snaps"
  obtains d where "kept ! n \<subseteq> N" "determined (writes_of J c z (kept ! n)) d" "snap_holds J c z (snaps ! n) d"
  using assms unfolding snaps_ok_def list_all2_conv_all_nth by blast

lemma write_step_inv:
  assumes inv: "sync_inv J c z Y"
    and w: "wrotes J (c_node (y_cluster Y) i) (c_net (y_cluster Y)) s' net'"
  shows "sync_inv J c z (Y\<lparr>y_cluster := after_write (y_cluster Y) i s' net'\<rparr>)"
proof -
  have "clean_inv J c z (after_write (y_cluster Y) i s' net')"
    unfolding after_write_def using inv by (intro wrotes_clean [OF w]) (simp_all add: sync_inv_def)
  moreover have "set (c_net (y_cluster Y)) \<subseteq> set net'" using wrotes_prefix [OF w] by auto
  ultimately show ?thesis
    using inv by (auto simp: sync_inv_def after_write_def elim: snaps_ok_mono)
qed

lemma merge_step_inv:
  assumes inv: "sync_inv J c z Y" "R \<subseteq> set (c_net (y_cluster Y))" "determined (writes_of J c z R) d"
    and s': "s_nodeID s' = s_nodeID (c_node (y_cluster Y) i)" "s_merger s' = None" "s_codec s' = c" "s_zero s' = z"
      "s_seq (c_node (y_cluster Y) i) \<le> s_seq s'" "s_data s' = join_data (s_data (c_node (y_cluster Y) i)) d"
  shows "sync_inv J c z (Y\<lparr>y_cluster := after_merge (y_cluster Y) i s' R\<rparr>)"
proof -
  let ?C = "y_cluster Y"
  have C: "clean_inv J c z ?C" "c_seen ?C i \<subseteq> set (c_net ?C)"
      "determined (writes_of J c z (c_seen ?C i)) (s_data (c_node ?C i))"
    using inv(1) by (auto simp: sync_inv_def clean_inv_def cluster_inv_def)
  have "clean_inv J c z (after_merge ?C i s' R)"
    unfolding after_merge_def
    by (rule node_step_clean [OF C(1)])
       (use inv(2,3) s' C(2,3) in \<open>auto simp: writes_of_Un intro: determined_join\<close>)
  with inv(1) show ?thesis by (simp add: sync_inv_def after_merge_def)
qed

lemma persist_step_inv:
  assumes inv: "sync_inv J c z Y" and C: "C = y_cluster Y" "s = c_node C i"
    and ks: "range_order ks (s_data s)" "\<forall>k e. s_data s k = Some e \<longrightarrow> \<not> expired (ttl_cutoff now s) e"
    and p: "persistSnapshot (snap_transport n) J now ks s (y_snaps Y) = (None, s', snaps')"
  shows "sync_inv J c z \<lparr>y_cluster = after_merge C i s' {}, y_snaps = snaps', y_kept = y_kept Y @ [c_seen C i]\<rparr>"
proof -
  have cl: "clean_inv J c z C" "json_snap_roundtrip J" using inv C by (simp_all add: sync_inv_def)
  have s: "codec_roundtrip c" "s_codec s = c" "s_zero s = z" "c_seen C i \<subseteq> set (c_net C)"
      "determined (writes_of J c z (c_seen C i)) (s_data s)"
    using cl C by (auto simp: clean_inv_def cluster_inv_def)
  have "clean_data c z (s_data s)" using node_clean [OF cl(1)] C by simp
  from persist_snap_holds [OF cl(2) s(1-3) ks(1) this ks(2) p]
  obtain body where b: "same_replica s s'" "snaps' = y_snaps Y @ [body]" "snap_holds J c z body (s_data s)"
    by auto
  have "after_merge C i s' {} = C\<lparr>c_node := (c_node C)(i := s')\<rparr>"
    by (simp add: after_merge_def)
  then have "clean_inv J c z (after_merge C i s' {})"
    using same_replica_clean [OF cl(1), of i s'] b(1) C by simp
  moreover have "snaps_ok J c z (set (c_net C)) (y_snaps Y @ [body]) (y_kept Y @ [c_seen C i])"
    using inv b s C unfolding sync_inv_def snaps_ok_def by (auto intro: list_all2_appendI)
  ultimately show ?thesis using cl b by (simp add: sync_inv_def after_merge_def)
qed

lemma Refresh_snap:
  assumes "Refresh (snap_transport n) J s snaps = (e, s', snaps')" "\<not> isClosed s" "n < length snaps"
    and "snap_holds J c z (snaps ! n) d" "s_codec s = c" "s_zero s = z"
  shows "e = None" "s_data s' = join_data (s_data s) d" "s_seq s' = s_seq s" "s_nodeID s' = s_nodeID s"
    "s_merger s' = s_merger s" "s_codec s' = c" "s_zero s' = z"
proof -
  have "snaps ! n \<noteq> []" using assms(4) by (simp add: snap_holds_def)
  with assms(1-3) have "e = fst (mergeSnapshot J (snaps ! n) s)" "s' = snd (mergeSnapshot J (snaps ! n) s)"
    by (auto simp: Refresh_def case_prod_unfold)
  with merge_snap_holds [OF assms(4-6)] mergeSnapshot_replica [of J "snaps ! n" s]
    mergeSnapshot_frame [of J "snaps ! n" s] assms(5,6)
  show "e = None" "s_data s' = join_data (s_data s) d" "s_seq s' = s_seq s" "s_nodeID s' = s_nodeID s"
    "s_merger s' = s_merger s" "s_codec s' = c" "s_zero s' = z"
    by simp_all
qed

lemma New_snap:
  assumes "New z jc J (Inr rid) topic (Some (snap_transport n)) opts snaps = (Inr s', snaps')" "n < length snaps"
    and "snap_holds J c z (snaps ! n) d" "s_codec s' = c"
  shows "s_data s' = d" "s_seq s' = 0" "s_zero s' = z"
proof -
  let ?s0 = "apply_options opts (default_store z jc topic)"
  obtain s where s: "loadSnapshot J (snaps ! n) s = (None, s')"
      "s_data s = Map.empty" "s_zero s = z" "s_seq s = 0"
  proof (rule that)
    let ?s = "if s_nodeID ?s0 = '''' then ?s0\<lparr>s_nodeID := rid\<rparr> else ?s0"
    have "snaps ! n \<noteq> []" using assms(3) by (simp add: snap_holds_def)
    then show "loadSnapshot J (snaps ! n) ?s = (None, s')"
      using assms(1,2) by (auto simp: New_def Let_def split: if_splits sum.splits prod.splits option.splits)
  qed (simp_all add: default_store_def)
  note r = loadSnapshot_replica [OF s(1)]
  with s show "s_seq s' = 0" "s_zero s' = z" by simp_all
  show "s_data s' = d"
    using load_snap_holds(2) [OF assms(3), of s] s r assms(4) by simp
qed

lemma sync_step_inv: "sync_step J c z Y Y' \<Longrightarrow> sync_inv J c z Y \<Longrightarrow> sync_inv J c z Y'"
proof (induction rule: sync_step.induct)
  case (base Y C')
  with base_clean [of J "y_cluster Y" C' c z] show ?case
    by (auto simp: sync_inv_def elim: snaps_ok_mono)
next
  case (set_many C Y s i kvs now s' net')
  then have "wrotes J s (c_net C) s' net'"
    by (intro SetMany_wrotes) (auto simp: sync_inv_def clean_inv_def cluster_inv_def)
  with set_many show ?case by (simp add: write_step_inv)
next
  case (delete_many C Y s i ks now s' net')
  then have "wrotes J s (c_net C) s' net'"
    by (intro DeleteMany_wrotes) (auto simp: sync_inv_def clean_inv_def cluster_inv_def)
  with delete_many show ?case by (simp add: write_step_inv)
next
  case (try_set C Y s i k now v ver ok s' net')
  then have "wrotes J s (c_net C) s' net'"
    by (intro TrySet_wrotes) (auto simp: sync_inv_def clean_inv_def cluster_inv_def)
  with try_set show ?case by (simp add: write_step_inv)
next
  case (persist C Y s i ks now n s' snaps')
  then show ?case by (intro persist_step_inv)
next
  case (refresh C Y n i s' snaps')
  obtain d where d: "y_kept Y ! n \<subseteq> set (c_net C)" "determined (writes_of J c z (y_kept Y ! n)) d"
      "snap_holds J c z (y_snaps Y ! n) d"
    using refresh by (auto simp: sync_inv_def elim: snaps_ok_nth)
  have s: "s_codec (c_node C i) = c" "s_zero (c_node C i) = z" "s_merger (c_node C i) = None"
    using refresh by (auto simp: sync_inv_def clean_inv_def cluster_inv_def)
  have "\<not> isClosed (c_node C i)" using refresh by (auto simp: Refresh_def)
  note r = Refresh_snap [OF refresh.hyps(3) this refresh.hyps(2) d(3) s(1,2)]
  show ?case
    using merge_step_inv [OF refresh.prems, of "y_kept Y ! n" d s' i] d r s(3) refresh.hyps(1) by simp
next
  case (join C Y n i jc rid topic opts s' snaps')
  obtain d where d: "y_kept Y ! n \<subseteq> set (c_net C)" "determined (writes_of J c z (y_kept Y ! n)) d"
      "snap_holds J c z (y_snaps Y ! n) d"
    using join by (auto simp: sync_inv_def elim: snaps_ok_nth)
  have "determined (writes_of J c z (c_seen C i)) (s_data (c_node C i))"
    using join.prems join.hyps(1) by (auto simp: sync_inv_def clean_inv_def cluster_inv_def)
  then have "s_data (c_node C i) = Map.empty" using join.hyps(3) by simp
  with New_snap [OF join.hyps(5,2) d(3) join.hyps(8)] d join.hyps
  show ?case using merge_step_inv [OF join.prems, of "y_kept Y ! n" d s' i] by simp
qed

lemma sync_reach_inv: "sync_reach J c z Y \<Longrightarrow> sync_inv J c z Y"
proof (induction rule: sync_reach.induct)
  case (start C)
  then have "c_net C = []" by (simp add: cluster_start_def)
  with start start_inv [of J c z C] show ?case by (simp add: sync_inv_def clean_inv_def snaps_ok_def)
qed (rule sync_step_inv)

subsection \<open>Properties\<close>

text \<open>
  C1. Strong eventual consistency of the whole protocol. In every cluster of stores without a
  merger that is reached by \<^verbatim>\<open>Set\<close>, \<^verbatim>\<open>Delete\<close>, \<^verbatim>\<open>SetMany\<close>, \<^verbatim>\<open>DeleteMany\<close>, \<^verbatim>\<open>TrySet\<close>, deliveries
  in any order, late or repeated, persisted snapshots, \<^verbatim>\<open>Refresh\<close> from any of them and nodes
  constructed by \<^verbatim>\<open>New\<close> from any of them, two nodes that have seen the same messages, directly or
  through snapshots, hold the same replica, entry by entry.
\<close>

theorem synced_replicas_agree:
  assumes "sync_reach J c z Y" "c_seen (y_cluster Y) i = c_seen (y_cluster Y) j"
  shows "s_data (c_node (y_cluster Y) i) = s_data (c_node (y_cluster Y) j)"
proof (rule same_seen_same_data [OF _ assms(2)])
  show "cluster_inv J c z (y_cluster Y)"
    using sync_reach_inv [OF assms(1)] by (simp add: sync_inv_def clean_inv_def)
qed

text \<open>
  C2. \<^verbatim>\<open>Refresh\<close> repairs missed messages. In every such cluster, when a node \<open>j\<close> persists a snapshot
  and an open node \<open>i\<close> that has seen no more than \<open>j\<close> refreshes from it, the call returns no error
  and node \<open>i\<close> holds exactly the replica of node \<open>j\<close>, whatever messages it had missed.
\<close>

theorem refresh_repairs:
  assumes r: "sync_reach J c z Y" "c_seen (y_cluster Y) i \<subseteq> c_seen (y_cluster Y) j"
    and p: "range_order ks (s_data (c_node (y_cluster Y) j))"
      "\<forall>k e. s_data (c_node (y_cluster Y) j) k = Some e \<longrightarrow> \<not> expired (ttl_cutoff now (c_node (y_cluster Y) j)) e"
      "persistSnapshot (snap_transport n) J now ks (c_node (y_cluster Y) j) (y_snaps Y) = (None, sj, snaps)"
    and f: "\<not> isClosed (c_node (y_cluster Y) i)"
      "Refresh (snap_transport (length (y_snaps Y))) J (c_node (y_cluster Y) i) snaps = (err, si, snaps')"
  shows "err = None \<and> s_data si = s_data (c_node (y_cluster Y) j)"
proof -
  let ?C = "y_cluster Y"
  have inv: "json_snap_roundtrip J" "clean_inv J c z ?C" "cluster_inv J c z ?C"
    using sync_reach_inv [OF r(1)] by (auto simp: sync_inv_def clean_inv_def)
  have s: "codec_roundtrip c" "s_codec (c_node ?C l) = c" "s_zero (c_node ?C l) = z"
      "c_seen ?C l \<subseteq> set (c_net ?C)" "determined (writes_of J c z (c_seen ?C l)) (s_data (c_node ?C l))"
      "unique_stamps (writes_of J c z (set (c_net ?C)))" for l
    using inv(3) by (auto simp: cluster_inv_def)
  from persist_snap_holds [OF inv(1) s(1-3) p(1) node_clean [OF inv(2)] p(2,3)]
  obtain body where b: "snaps = y_snaps Y @ [body]" "snap_holds J c z body (s_data (c_node ?C j))"
    by auto
  have "n' < length snaps" "snap_holds J c z (snaps ! n') (s_data (c_node ?C j))" if "n' = length (y_snaps Y)" for n'
    using b that by simp_all
  note rf = Refresh_snap(1,2) [OF f(2,1) this [OF refl] s(2,3)]
  have "determined (writes_of J c z (c_seen ?C j)) (join_data (s_data (c_node ?C i)) (s_data (c_node ?C j)))"
    using determined_join [OF s(5) [of i] s(5) [of j]] r(2)
    by (simp add: writes_of_Un [symmetric] Un_absorb1)
  moreover have "unique_stamps (writes_of J c z (c_seen ?C j))"
    by (rule unique_stamps_mono [OF s(6) writes_of_mono [OF s(4)]])
  ultimately show ?thesis using determined_unique s(5) rf by metis
qed

text \<open>A sample run: node 0 writes, persists, and node 1, which received nothing, refreshes.\<close>

definition sample_written :: "string store" where
  "sample_written = fst (snd (Set net_transport sample_json 5 ''k'' ''x'' (sample_store []) []))"

definition sample_sync :: "string sync" where
  "sample_sync = \<lparr>y_cluster = after_write sample_cluster 0 sample_written
      (snd (snd (Set net_transport sample_json 5 ''k'' ''x'' (sample_store []) []))),
    y_snaps = [], y_kept = []\<rparr>"

lemma sample_Set:
  "Set net_transport sample_json 5 ''k'' ''x'' (sample_store []) [] =
     (None, sample_written, [sample_marshalMsg (stamp_msg kindSet ''k'' (str_bytes ''x'') 5 (sample_store []))])"
  by (simp add: sample_written_def Set_eq write_tail_def)

lemma sample_written_data: "s_data sample_written = [''k'' \<mapsto>
    \<lparr>e_Value = ''x'', e_Timestamp = 5, e_Origin = [], e_Tombstone = False, e_Seq = 1\<rparr>]"
  by (simp add: sample_written_def Set_eq write_tail_def applyMessage_data markDirty_def msg_entry_def
      stamp_msg_def stored_value_def)

lemma sample_sync_reach: "sync_reach sample_json sample_codec '''' sample_sync"
proof -
  let ?Y = "\<lparr>y_cluster = sample_cluster, y_snaps = [], y_kept = []\<rparr>"
  have "sync_reach sample_json sample_codec '''' ?Y"
    by (rule sync_reach.start [OF sample_json_snap sample_cluster_start])
  moreover have "cluster_step sample_json (y_cluster ?Y) (y_cluster sample_sync)"
    unfolding sample_sync_def after_write_def sample_Set select_convs snd_conv
    by (rule cluster_step.step_Set [where now = 5 and k = "''k''" and v = "''x''"])
       (simp_all add: sample_cluster_def sample_Set valid_utf8_def of_char_def)
  ultimately have "sync_reach sample_json sample_codec '''' (?Y\<lparr>y_cluster := y_cluster sample_sync\<rparr>)"
    by (rule sync_reach.step [OF _ sync_step.base])
  then show ?thesis by (simp add: sample_sync_def)
qed

lemma sample_sync_nodes:
  "c_node (y_cluster sample_sync) 0 = sample_written" "c_node (y_cluster sample_sync) (Suc 0) = sample_store ''a''"
  "c_seen (y_cluster sample_sync) (Suc 0) = {}" "y_snaps sample_sync = []" "y_kept sample_sync = []"
  by (simp_all add: sample_sync_def after_write_def sample_cluster_def)

lemma sample_persist:
  obtains s1 body where "range_order [''k''] (s_data sample_written)"
    "\<forall>k e. s_data sample_written k = Some e \<longrightarrow> \<not> expired (ttl_cutoff 6 sample_written) e"
    "persistSnapshot (snap_transport 0) sample_json 6 [''k''] sample_written [] = (None, s1, [body])"
    "s_data s1 = s_data sample_written"
proof -
  have d: "s_data sample_written ''k'' = Some \<lparr>e_Value = ''x'', e_Timestamp = 5, e_Origin = [], e_Tombstone = False, e_Seq = 1\<rparr>"
    by (simp add: sample_written_data)
  have c: "s_codec sample_written = sample_codec"
    by (simp add: sample_written_def Set_eq write_tail_def markDirty_def)
  have "\<exists>s1 body. persistSnapshot (snap_transport 0) sample_json 6 [''k''] sample_written [] = (None, s1, [body]) \<and>
      s_data s1 = s_data sample_written"
    by (simp add: persistSnapshot_def persist_parts d c expired_def Let_def sample_json_def)
  then show thesis
    using that by (fastforce simp: range_order_def sample_written_data expired_def)
qed

theorem refresh_repairs_witness:
  "\<exists>body s1 si. persistSnapshot (snap_transport 0) sample_json 6 [''k''] sample_written [] = (None, s1, [body]) \<and>
     Refresh (snap_transport 0) sample_json (sample_store ''a'') [body] = (None, si, [body]) \<and>
     s_data si = s_data sample_written"
proof -
  obtain s1 body where p: "range_order [''k''] (s_data sample_written)"
    "\<forall>k e. s_data sample_written k = Some e \<longrightarrow> \<not> expired (ttl_cutoff 6 sample_written) e"
    "persistSnapshot (snap_transport 0) sample_json 6 [''k''] sample_written [] = (None, s1, [body])"
    by (rule sample_persist)
  obtain err si snaps' where r: "Refresh (snap_transport 0) sample_json (sample_store ''a'') [body] = (err, si, snaps')"
    by (metis prod.exhaust)
  have "snaps' = [body]" using r by (auto simp: Refresh_def isClosed_def case_prod_unfold split: if_splits)
  moreover have "err = None \<and> s_data si = s_data sample_written"
    using refresh_repairs [OF sample_sync_reach, of 1 0 "[''k'']" 6 0 s1 "[body]" err si snaps'] p r
    by (simp add: sample_sync_nodes isClosed_def)
  ultimately show ?thesis using p(3) r by blast
qed

theorem synced_replicas_agree_witness:
  "\<exists>Y :: string sync. c_seen (y_cluster Y) 0 \<noteq> {} \<and> c_seen (y_cluster Y) 0 = c_seen (y_cluster Y) 1 \<and>
     y_snaps Y \<noteq> [] \<and> s_data (c_node (y_cluster Y) 0) = s_data (c_node (y_cluster Y) 1) \<and>
     map_option e_Value (s_data (c_node (y_cluster Y) 1) ''k'') = Some ''x''"
proof -
  obtain s1 body where p: "range_order [''k''] (s_data sample_written)"
    "\<forall>k e. s_data sample_written k = Some e \<longrightarrow> \<not> expired (ttl_cutoff 6 sample_written) e"
    "persistSnapshot (snap_transport 0) sample_json 6 [''k''] sample_written [] = (None, s1, [body])"
    "s_data s1 = s_data sample_written"
    by (rule sample_persist)
  let ?Y1 = "\<lparr>y_cluster = after_merge (y_cluster sample_sync) 0 s1 {}, y_snaps = [body],
      y_kept = [c_seen (y_cluster sample_sync) 0]\<rparr>"
  have "sync_step sample_json sample_codec '''' sample_sync ?Y1"
    using sync_step.persist [OF refl refl, of "[''k'']" sample_sync 0 6 0 sample_json s1 "[body]"] p
    by (simp add: sample_sync_nodes)
  with sample_sync_reach have r1: "sync_reach sample_json sample_codec '''' ?Y1" by (rule sync_reach.step)
  obtain err si snaps' where r: "Refresh (snap_transport 0) sample_json (sample_store ''a'') [body] = (err, si, snaps')"
    by (metis prod.exhaust)
  have n1: "c_node (y_cluster ?Y1) 1 = sample_store ''a''" "c_seen (y_cluster ?Y1) 1 = {}"
    by (simp_all add: after_merge_def sample_sync_nodes)
  obtain d where "snap_holds sample_json sample_codec '''' body d"
    using sync_reach_inv [OF r1] by (auto simp: sync_inv_def snaps_ok_def)
  then have "err = None"
    by (intro Refresh_snap(1) [OF r]) (simp_all add: isClosed_def)
  let ?Y2 = "?Y1\<lparr>y_cluster := after_merge (y_cluster ?Y1) 1 si (c_seen (y_cluster sample_sync) 0)\<rparr>"
  have "sync_step sample_json sample_codec '''' ?Y1 ?Y2"
    using sync_step.refresh [OF refl, of 0 ?Y1 sample_json 1 si snaps'] r n1 \<open>err = None\<close> by simp
  with r1 have r2: "sync_reach sample_json sample_codec '''' ?Y2" by (rule sync_reach.step)
  have seen: "c_seen (y_cluster ?Y2) 0 = c_seen (y_cluster ?Y2) 1"
    using n1 by (simp add: after_merge_def)
  have n0: "s_data (c_node (y_cluster ?Y2) 0) = s_data s1" by (simp add: after_merge_def)
  have "c_seen (y_cluster ?Y2) 0 \<noteq> {}"
    by (simp add: after_merge_def sample_sync_def after_write_def sample_cluster_def sample_Set)
  moreover have "s_data (c_node (y_cluster ?Y2) 0) = s_data (c_node (y_cluster ?Y2) 1)"
    by (rule synced_replicas_agree [OF r2 seen])
  moreover have "map_option e_Value (s_data (c_node (y_cluster ?Y2) 1) ''k'') = Some ''x''"
    unfolding synced_replicas_agree [OF r2 seen, symmetric] n0 p(4) by (simp add: sample_written_data)
  moreover have "y_snaps ?Y2 \<noteq> []" by simp
  ultimately show ?thesis using seen by blast
qed

end
