(* ===== verification/Store_Steps.thy ===== *)
theory Store_Steps
  imports Tombstones Writes
begin

section \<open>Interleavings of a store's goroutines\<close>

text \<open>
  A store is used by many goroutines at once. A step of this machine is a part of an
  operation that runs atomically: the part of a method that holds \<^verbatim>\<open>s.mu\<close>, one \<^verbatim>\<open>dispatch\<close>
  (which holds \<^verbatim>\<open>watchersMu\<close>), one atomic counter update, or one call of the transport. A
  method that is between two such parts is kept in the pools of the machine: writes that have
  their stamp and wait for \<^verbatim>\<open>s.mu\<close>, applied messages that wait to be published (a
  publication may be followed by \<^verbatim>\<open>markDirty\<close>, a step of its own), and the
  events that \<^verbatim>\<open>SetMany\<close>, \<^verbatim>\<open>DeleteMany\<close> and \<^verbatim>\<open>mergeSnapshot\<close> collected under the lock
  and dispatch after they released it. Any order of steps is a run.
\<close>

datatype loop_at =
    AtLoop
  | GcCollected nat | GcSubtracted nat | GcTallied
  | SnapCollected "(string \<times> wireSnapshotEntry) list" nat | SnapSent nat nat
  | SnapCounted nat nat | SnapSized nat | SnapSubtracted nat

record ('v, 't) run =
  r_store :: "'v store"
  r_tr :: "'t"
  r_writes :: "(wireMessage \<times> 'v) list"
  r_out :: "wireMessage list"
  r_events :: "'v Event list list"
  r_loop :: loop_at
  r_lost :: nat

inductive store_step :: "'t Transport \<Rightarrow> Json \<Rightarrow> ('v, 't) run \<Rightarrow> ('v, 't) run \<Rightarrow> bool" for T J where
  set_stamp: "\<not> isClosed (r_store r) \<Longrightarrow> Marshal (s_codec (r_store r)) v = Inr payload \<Longrightarrow>
    store_step T J r (r\<lparr>
      r_store := (add_writesLocal 1 (r_store r))\<lparr>s_seq := s_seq (r_store r) + 1\<rparr>,
      r_writes := r_writes r @ [(stamp_msg kindSet k payload now (r_store r), v)]\<rparr>)"
| delete_stamp: "\<not> isClosed (r_store r) \<Longrightarrow>
    store_step T J r (r\<lparr>
      r_store := (add_writesLocal 1 (r_store r))\<lparr>s_seq := s_seq (r_store r) + 1\<rparr>,
      r_writes := r_writes r @
        [(stamp_msg kindDelete k [] now (r_store r), s_zero (r_store r))]\<rparr>)"
| write_apply: "(m, v) \<in> set (r_writes r) \<Longrightarrow>
    store_step T J r (r\<lparr>r_store := snd (applyMessage m v (r_store r)),
      r_writes := remove1 (m, v) (r_writes r),
      r_out := (if fst (applyMessage m v (r_store r)) then r_out r @ [m] else r_out r)\<rparr>)"
| publish: "m \<in> set (r_out r) \<Longrightarrow> marshalMsg J m = Inr raw \<Longrightarrow>
    tr_Publish T (s_topic (r_store r)) raw (r_tr r) = (err, t') \<Longrightarrow>
    store_step T J r (r\<lparr>r_tr := t', r_out := remove1 m (r_out r)\<rparr>)"
| mark: "store_step T J r (r\<lparr>r_store := markDirty (r_store r)\<rparr>)"
| batch_set: "\<not> isClosed (r_store r) \<Longrightarrow>
    SetMany_loop now kvs (add_writesLocal (of_nat (length kvs)) (r_store r)) [] [] =
      (err, s', applied, events) \<Longrightarrow>
    store_step T J r (r\<lparr>r_store := s',
      r_out := (if err = None then r_out r @ applied else r_out r),
      r_events := (if err = None then r_events r @ [events] else r_events r)\<rparr>)"
| batch_delete: "\<not> isClosed (r_store r) \<Longrightarrow>
    DeleteMany_loop now ks (add_writesLocal (of_nat (length ks)) (r_store r)) [] [] =
      (s', applied, events) \<Longrightarrow>
    store_step T J r (r\<lparr>r_store := s', r_out := r_out r @ applied,
      r_events := r_events r @ [events]\<rparr>)"
| merge: "mergeSnapshot_locked J raw (r_store r) = (err, s', events) \<Longrightarrow>
    store_step T J r (r\<lparr>r_store := s',
      r_events := (if err = None then r_events r @ [events] else r_events r)\<rparr>)"
| dispatch_one: "i < length (r_events r) \<Longrightarrow> r_events r ! i = ev # evs \<Longrightarrow>
    store_step T J r (r\<lparr>r_store := dispatch ev (r_store r),
      r_events := (r_events r)[i := evs]\<rparr>)"
| receive: "store_step T J r (r\<lparr>r_store := handleRaw J now raw (r_store r)\<rparr>)"
| seed: "distinct (map fst kvs) \<Longrightarrow>
    store_step T J r (r\<lparr>r_store := snd (Seed now kvs (r_store r))\<rparr>)"
| read: "store_step T J r (r\<lparr>r_store := snd (Get k (r_store r))\<rparr>)"
| watch: "store_step T J r (r\<lparr>r_store := snd (Watch opts (r_store r))\<rparr>)"
| unwatch: "store_step T J r (r\<lparr>r_store := removeWatcher i (r_store r)\<rparr>)"
| consume: "store_step T J r (r\<lparr>r_store := snd (watch_recv i (r_store r))\<rparr>)"
| report: "store_step T J r (r\<lparr>r_store := reportError e (r_store r)\<rparr>)"
| close: "store_step T J r (r\<lparr>r_store := (r_store r)\<lparr>s_closed := True\<rparr>\<rparr>)"

text \<open>
  The goroutine of \<^verbatim>\<open>snapshotLoop\<close>. Its two functions delete expired tombstones under
  \<^verbatim>\<open>s.mu\<close> and correct the counters later, without the lock, so that the other goroutines run
  in between. \<open>loop_at\<close> says where it is: between two passes; in \<^verbatim>\<open>gcTombstones\<close> after the
  unlock, after the update of the gauge, before \<^verbatim>\<open>markDirty\<close>; in \<^verbatim>\<open>persistSnapshot\<close> after the
  unlock with the entries to send, after the transport took the body of that length, after
  each of the counter updates that follow. The numbers are the tombstones it deleted. When a
  pass begins (a tick, the debounce timer, shutdown) is left open. \<open>r_lost\<close> is no variable of
  the program: it adds up what snapshots deleted that then returned an error.
\<close>

inductive loop_step :: "'t Transport \<Rightarrow> Json \<Rightarrow> ('v, 't) run \<Rightarrow> ('v, 't) run \<Rightarrow> bool" for T J where
  drain: "r_loop r = AtLoop \<Longrightarrow> loop_step T J r (r\<lparr>r_store := (r_store r)\<lparr>s_dirty := False\<rparr>\<rparr>)"
| collect: "r_loop r = AtLoop \<Longrightarrow> range_order ks (s_data (r_store r)) \<Longrightarrow>
    gc_collect now ks (r_store r) = (s', n) \<Longrightarrow>
    loop_step T J r (r\<lparr>r_store := s', r_loop := (if n > 0 then GcCollected n else AtLoop)\<rparr>)"
| gc_gauge: "r_loop r = GcCollected n \<Longrightarrow>
    loop_step T J r (r\<lparr>r_store := add_tombstones (- of_nat n) (r_store r), r_loop := GcSubtracted n\<rparr>)"
| gc_tally: "r_loop r = GcSubtracted n \<Longrightarrow>
    loop_step T J r (r\<lparr>r_store := add_tombstonesGCed (of_nat n) (r_store r), r_loop := GcTallied\<rparr>)"
| gc_mark: "r_loop r = GcTallied \<Longrightarrow>
    loop_step T J r (r\<lparr>r_store := markDirty (r_store r), r_loop := AtLoop\<rparr>)"
| persist: "r_loop r = AtLoop \<Longrightarrow> range_order ks (s_data (r_store r)) \<Longrightarrow>
    persist_collect now ks (r_store r) = (None, s', n, es) \<Longrightarrow>
    loop_step T J r (r\<lparr>r_store := s', r_loop := SnapCollected es n\<rparr>)"
| persist_encode_err: "r_loop r = AtLoop \<Longrightarrow> range_order ks (s_data (r_store r)) \<Longrightarrow>
    persist_collect now ks (r_store r) = (Some err, s', n, es) \<Longrightarrow>
    loop_step T J r (r\<lparr>r_store := s', r_lost := r_lost r + n\<rparr>)"
| send: "r_loop r = SnapCollected es n \<Longrightarrow>
    persist_send T J (s_topic (r_store r)) es (r_tr r) = (Inr len, t') \<Longrightarrow>
    loop_step T J r (r\<lparr>r_tr := t', r_loop := SnapSent len n\<rparr>)"
| send_err: "r_loop r = SnapCollected es n \<Longrightarrow>
    persist_send T J (s_topic (r_store r)) es (r_tr r) = (Inl err, t') \<Longrightarrow>
    loop_step T J r (r\<lparr>r_tr := t', r_loop := AtLoop, r_lost := r_lost r + n\<rparr>)"
| snap_count: "r_loop r = SnapSent len n \<Longrightarrow>
    loop_step T J r (r\<lparr>r_store := add_snapshots 1 (r_store r), r_loop := SnapCounted len n\<rparr>)"
| snap_size: "r_loop r = SnapCounted len n \<Longrightarrow>
    loop_step T J r (r\<lparr>r_store := set_snapshotBytes (of_nat len) (r_store r),
      r_loop := (if n > 0 then SnapSized n else AtLoop)\<rparr>)"
| snap_gauge: "r_loop r = SnapSized n \<Longrightarrow>
    loop_step T J r (r\<lparr>r_store := add_tombstones (- of_nat n) (r_store r), r_loop := SnapSubtracted n\<rparr>)"
| snap_tally: "r_loop r = SnapSubtracted n \<Longrightarrow>
    loop_step T J r (r\<lparr>r_store := add_tombstonesGCed (of_nat n) (r_store r), r_loop := AtLoop\<rparr>)"



text \<open>
  A store as \<^verbatim>\<open>New\<close> leaves it on a topic without a snapshot; a run may also begin with the
  snapshot \<^verbatim>\<open>New\<close> loaded, a JSON object and so with one entry per key.
\<close>

definition fresh_run :: "('v, 't) run \<Rightarrow> bool" where
  "fresh_run r \<longleftrightarrow> (\<exists>z c topic opts i. r_store r =
       (apply_options opts (default_store z c topic))\<lparr>s_nodeID := i\<rparr>) \<and>
     r_writes r = [] \<and> r_out r = [] \<and> r_events r = [] \<and> r_loop r = AtLoop \<and> r_lost r = 0"

inductive runs :: "'t Transport \<Rightarrow> Json \<Rightarrow> ('v, 't) run \<Rightarrow> bool" for T J where
  runs_start: "fresh_run r \<Longrightarrow> runs T J r"
| runs_loaded: "fresh_run r \<Longrightarrow> unmarshalSnap J raw = Inr snap \<Longrightarrow>
    distinct (map fst (ws_Entries snap)) \<Longrightarrow> loadSnapshot J raw (r_store r) = (None, s') \<Longrightarrow>
    runs T J (r\<lparr>r_store := s'\<rparr>)"
| runs_step: "runs T J r \<Longrightarrow> store_step T J r r' \<Longrightarrow> runs T J r'"
| runs_loop: "runs T J r \<Longrightarrow> loop_step T J r r' \<Longrightarrow> runs T J r'"

text \<open>Undisturbed, the steps of a pass are \<^verbatim>\<open>gcTombstones\<close> and \<^verbatim>\<open>persistSnapshot\<close>.\<close>

lemma gcTombstones_alone:
  assumes "r_loop r = AtLoop" "range_order ks (s_data (r_store r))"
  shows "(loop_step T J)\<^sup>*\<^sup>* r (r\<lparr>r_store := gcTombstones now ks (r_store r)\<rparr>)"
proof -
  obtain s' n where c: "gc_collect now ks (r_store r) = (s', n)" by (cases "gc_collect now ks (r_store r)")
  note 1 = loop_step.collect [OF assms c, of T J]
  show ?thesis
  proof (cases "n = 0")
    case True
    with 1 c assms(1) show ?thesis by (cases r) (auto simp: gcTombstones_def gc_count_def)
  next
    case False
    let ?r1 = "r\<lparr>r_store := s', r_loop := GcCollected n\<rparr>"
    note 2 = loop_step.gc_gauge [of ?r1 n T J, simplified]
    note 3 = loop_step.gc_tally [of "r\<lparr>r_store := add_tombstones (- of_nat n) s', r_loop := GcSubtracted n\<rparr>" n T J, simplified]
    note 4 = loop_step.gc_mark [of "r\<lparr>r_store := count_gced n s', r_loop := GcTallied\<rparr>" T J, simplified]
    have "r\<lparr>r_store := x, r_loop := AtLoop\<rparr> = r\<lparr>r_store := x\<rparr>" for x using assms(1) by simp
    with 1 2 3 4 False c show ?thesis
      by (auto simp: gcTombstones_def gc_count_def count_gced_def
          intro: converse_rtranclp_into_rtranclp)
  qed
qed

lemma persistSnapshot_alone:
  assumes "r_loop r = AtLoop" "range_order ks (s_data (r_store r))"
    and "persistSnapshot T J now ks (r_store r) (r_tr r) = (None, s', t')"
  shows "(loop_step T J)\<^sup>*\<^sup>* r (r\<lparr>r_store := s', r_tr := t'\<rparr>)"
proof -
  from assms(3) obtain s1 n es len where c: "persist_collect now ks (r_store r) = (None, s1, n, es)"
    and p: "persist_send T J (s_topic s1) es (r_tr r) = (Inr len, t')" and s': "s' = persist_count len n s1"
    by (auto simp: persistSnapshot_def split: prod.splits option.splits sum.splits)
  note 1 = loop_step.persist [OF assms(1,2) c, of T J]
  note 2 = loop_step.send [of "r\<lparr>r_store := s1, r_loop := SnapCollected es n\<rparr>" es n T J, simplified, OF p]
  note 3 = loop_step.snap_count [of "r\<lparr>r_store := s1, r_tr := t', r_loop := SnapSent len n\<rparr>" len n T J, simplified]
  note 4 = loop_step.snap_size [of "r\<lparr>r_store := add_snapshots 1 s1, r_tr := t', r_loop := SnapCounted len n\<rparr>"
      len n T J, simplified]
  let ?s = "set_snapshotBytes (of_nat len) (add_snapshots 1 s1)"
  note 5 = loop_step.snap_gauge [of "r\<lparr>r_store := ?s, r_tr := t', r_loop := SnapSized n\<rparr>" n T J, simplified]
  note 6 = loop_step.snap_tally [of "r\<lparr>r_store := add_tombstones (- of_nat n) ?s, r_tr := t',
      r_loop := SnapSubtracted n\<rparr>" n T J, simplified]
  show ?thesis
    using 1 2 3 4 5 6 assms(1) unfolding s' persist_count_def Let_def count_gced_def
    by (cases r; cases "n = 0") (auto intro: converse_rtranclp_into_rtranclp)
qed

subsection \<open>What the locked parts keep\<close>

lemma Watch_data [simp]: "s_data (snd (Watch opts s)) = s_data s"
  by (simp add: Watch_def Let_def set_watcher_def)

lemma Watch_stats [simp]: "s_stats (snd (Watch opts s)) = s_stats s"
  by (simp add: Watch_def Let_def set_watcher_def)

lemma watch_recv_data [simp]:
  "s_data (snd (watch_recv i s)) = s_data s" "s_stats (snd (watch_recv i s)) = s_stats s"
  by (simp_all add: watch_recv_def set_watcher_def split: list.split)

text \<open>The two loops of the collector change the data map only.\<close>

lemma gcTombstones_loop_frame:
  "gcTombstones_loop lim ks s n = (s', n') \<Longrightarrow> \<exists>d. s' = s\<lparr>s_data := d\<rparr>"
proof (induction ks arbitrary: s n)
  case Nil
  then have "s' = s\<lparr>s_data := s_data s\<rparr>" by simp
  then show ?case by blast
next
  case (Cons k ks)
  from Cons.prems consider "gcTombstones_loop lim ks s n = (s', n')"
    | "gcTombstones_loop lim ks (s\<lparr>s_data := (s_data s)(k := None)\<rparr>) (n + 1) = (s', n')"
    by (auto split: option.splits if_splits)
  then show ?case
  proof cases
    case 2
    from Cons.IH [OF this] show ?thesis by auto
  qed (rule Cons.IH)
qed

lemma watch_inv_data [simp]: "watch_inv (s\<lparr>s_data := d\<rparr>) = watch_inv s"
  by (rule watch_inv_cong) simp_all

lemma gc_collect_watch: "gc_collect now ks s = (s', n) \<Longrightarrow> watch_inv s' = watch_inv s"
  unfolding gc_collect_def by (drule gcTombstones_loop_frame) auto

lemma persist_collect_watch: "persist_collect now ks s = (err, s', n, es) \<Longrightarrow> watch_inv s' = watch_inv s"
  unfolding persist_collect_def by (drule persistSnapshot_loop_frame) auto





lemma fresh_inv:
  assumes "fresh_run r"
  shows "watch_inv (r_store r)" "counters_ok (r_store r)"
  using assms
  by (auto simp: fresh_run_def watch_inv_def counters_ok_def default_store_def live_count_def
      tomb_count_def count_in_def zero_stats_def)

subsection \<open>Steps\<close>

context store_change
begin

lemma R_batch_set:
  "SetMany_loop now kvs (add_writesLocal n s) [] [] = (err, s', applied, events) \<Longrightarrow> R s s'"
  using R_SetMany_loop [of "add_writesLocal n s" now kvs "[]" "[]"] R_after_local by fastforce

lemma R_batch_delete:
  "DeleteMany_loop now ks (add_writesLocal n s) [] [] = (s', applied, events) \<Longrightarrow> R s s'"
  using R_DeleteMany_loop [of "add_writesLocal n s" now ks "[]" "[]"] R_after_local by fastforce

lemma R_merge: "mergeSnapshot_locked J raw s = (err, s', events) \<Longrightarrow> R s s'"
  using R_mergeSnapshot_locked [of s J raw] by simp

lemma R_close: "R s (s\<lparr>s_closed := c\<rparr>)"
  by (rule R_minor) simp

text \<open>A step that is not the work of a watcher's owner.\<close>

lemma store_step_R:
  assumes "store_step T J r r'"
    and watch: "\<And>opts. R (r_store r) (snd (Watch opts (r_store r)))"
    and consume: "\<And>i. R (r_store r) (snd (watch_recv i (r_store r)))"
  shows "R (r_store r) (r_store r')"
  using assms(1)
  by cases
    (simp_all add: R_refl R_apply R_batch_set R_batch_delete R_merge R_dispatch R_handleRaw
      R_Seed R_Get watch consume R_removeWatcher R_minor R_close minor_local)

end

lemma store_step_watch_inv: "store_step T J r r' \<Longrightarrow> watch_inv (r_store r) \<Longrightarrow> watch_inv (r_store r')"
  using winv.store_step_R [of T J r r'] by auto

lemma watch_inv_loop [simp]:
  "watch_inv (s\<lparr>s_dirty := b\<rparr>) = watch_inv s" "watch_inv (markDirty s) = watch_inv s"
  "watch_inv (add_tombstones x s) = watch_inv s" "watch_inv (add_tombstonesGCed y s) = watch_inv s"
  "watch_inv (add_snapshots y s) = watch_inv s" "watch_inv (set_snapshotBytes x s) = watch_inv s"
  by (rule watch_inv_cong; simp add: store_defs)+

lemma loop_step_watch_inv:
  assumes "loop_step T J r r'"
  shows "watch_inv (r_store r') = watch_inv (r_store r)"
  using assms by cases (simp_all add: gc_collect_watch persist_collect_watch)

lemma loaded_R:
  fixes R :: "'v store \<Rightarrow> 'v store \<Rightarrow> bool"
  assumes "store_change R" "fresh_run r" "unmarshalSnap J raw = Inr snap"
    "distinct (map fst (ws_Entries snap))" "loadSnapshot J raw (r_store r) = (None, s')"
  shows "R (r_store r) s'"
proof -
  have "s_data (r_store r) = Map.empty" using assms(2) by (auto simp: fresh_run_def default_store_def)
  then have "R (r_store r) (snd (loadSnapshot_loop (ws_Entries snap) (r_store r)))"
    using store_change.R_loadSnapshot_loop [OF assms(1,4)] by simp
  then show ?thesis using assms(3,5) by (simp add: loadSnapshot_def split: if_splits)
qed

lemma runs_watch_inv: "runs T J r \<Longrightarrow> watch_inv (r_store r)"
proof (induction rule: runs.induct)
  case (runs_loaded r raw snap s')
  with loaded_R [OF winv.store_change_axioms runs_loaded] show ?case by (simp add: fresh_inv)
qed (simp_all add: fresh_inv store_step_watch_inv loop_step_watch_inv)











subsection \<open>Properties\<close>

text \<open>
  C7. No interleaving panics. In every run of a store (concurrent writes, batches, refreshes,
  deliveries, watcher registrations and removals, slow-watcher drops, collections, snapshots and
  shutdown, in any order) no send hits a closed channel and no channel is closed twice, and
  every registered watcher is open.
\<close>

theorem no_interleaving_panics:
  assumes "runs T J r"
  shows "\<not> s_panic (r_store r) \<and> distinct (s_watchers (r_store r)) \<and>
    (\<forall>i \<in> set (s_watchers (r_store r)).
       \<not> w_closed (s_wheap (r_store r) i) \<and> \<not> w_cancelled (s_wheap (r_store r) i))"
  using runs_watch_inv [OF assms] by (auto simp: watch_inv_def)

definition start_run :: "(string, bytes list) run" where
  "start_run = \<lparr>r_store = sample_store ''n'', r_tr = [], r_writes = [], r_out = [], r_events = [],
    r_loop = AtLoop, r_lost = 0\<rparr>"

lemma start_run_fresh: "fresh_run start_run"
proof -
  have "r_store start_run =
      (apply_options [] (default_store '''' sample_codec ''t''))\<lparr>s_nodeID := ''n''\<rparr>"
    by (simp add: start_run_def sample_store_def apply_options_def)
  then have "\<exists>z c topic opts i. r_store start_run =
      (apply_options opts (default_store z c topic))\<lparr>s_nodeID := i\<rparr>" by blast
  moreover have "r_writes start_run = []" "r_out start_run = []" "r_events start_run = []"
    "r_loop start_run = AtLoop" "r_lost start_run = 0"
    by (simp_all add: start_run_def)
  ultimately show ?thesis unfolding fresh_run_def by blast
qed

definition watching_run :: "(string, bytes list) run" where
  "watching_run = start_run\<lparr>r_store := snd (Watch [] (sample_store ''n''))\<rparr>"

lemma watching_run_runs: "runs up_transport sample_json watching_run"
proof -
  have "store_step up_transport sample_json start_run watching_run"
    unfolding watching_run_def
    using store_step.watch [of up_transport sample_json start_run "[]"] by (simp add: start_run_def)
  then show ?thesis by (rule runs_step [OF runs_start [OF start_run_fresh]])
qed

theorem no_interleaving_panics_witness:
  "s_watchers (r_store watching_run) = [0] \<and> \<not> w_closed (s_wheap (r_store watching_run) 0)"
  using no_interleaving_panics [OF watching_run_runs]
  by (simp add: watching_run_def Watch_def isClosed_def Let_def start_run_def sample_store_def
      default_store_def set_watcher_def)













text \<open>
  C19. A replica never goes back. Every write, batch, delivery and refresh keeps each key, and
  its entry is either the same or one with a greater \<^verbatim>\<open>(Timestamp, Origin, Seq)\<close>, whatever the
  transport and the codecs answer.
\<close>

theorem replica_never_goes_back:
  "data_le (s_data s) (s_data (fst (snd (Set T J now k v s t)))) \<and>
   data_le (s_data s) (s_data (fst (snd (Delete T J now k s t)))) \<and>
   data_le (s_data s) (s_data (fst (snd (TrySet T J now k v ver s t)))) \<and>
   data_le (s_data s) (s_data (fst (snd (SetMany T J now kvs s t)))) \<and>
   data_le (s_data s) (s_data (fst (snd (DeleteMany T J now ks s t)))) \<and>
   data_le (s_data s) (s_data (handleRaw J now raw s)) \<and>
   data_le (s_data s) (s_data (fst (snd (Refresh T J s t))))"
  by (intro conjI stamps.R_Set stamps.R_Delete stamps.R_TrySet stamps.R_SetMany
      stamps.R_DeleteMany stamps.R_handleRaw stamps.R_Refresh)

text \<open>
  \<^verbatim>\<open>mergeSnapshot\<close> can show a watcher an old event after a newer one. There is a run in which
  a snapshot is merged, a newer message for the same key arrives before the merge has
  dispatched its events, and the watcher's channel then holds the newer event first and the
  older one last, while the replica holds the newer value.
\<close>

theorem merge_events_out_of_order:
  "\<exists>r :: (string, bytes list) run. runs up_transport sample_json r \<and>
     map (\<lambda>ev. (ev_Key ev, ev_Value ev, ev_Timestamp ev)) (w_buf (s_wheap (r_store r) 0)) =
       [(''k'', ''new'', 4), (''k'', ''old'', 3)] \<and>
     map_option e_Value (s_data (r_store r) ''k'') = Some ''new''"
proof -
  let ?s0 = "snd (Watch [] (sample_store ''n''))"
  let ?we = "\<lparr>se_Value = str_bytes ''old'', se_Timestamp = 3, se_Origin = ''p'',
     se_Tombstone = False, se_Seq = 1\<rparr>"
  let ?snap = "sample_marshalSnap \<lparr>ws_V = 1, ws_Entries = [(''k'', ?we)]\<rparr>"
  let ?e = "snap_entry ?we ''old''"
  let ?ev = "\<lparr>ev_Kind = EventSet, ev_Key = ''k'', ev_Value = ''old'', ev_Origin = ''p'', ev_Timestamp = 3\<rparr>"
  let ?m = "sample_msg kindSet ''k'' ''new'' ''q'' 4 1"
  have s0: "s_data ?s0 = Map.empty" "s_watchers ?s0 = [0]" "s_codec ?s0 = sample_codec"
    "s_nodeID ?s0 = ''n''" "s_maxClockSkew ?s0 = 60000000000" "s_merger ?s0 = None"
    "w_buf (s_wheap ?s0 0) = []" "w_cap (s_wheap ?s0 0) = 64" "w_filter (s_wheap ?s0 0) = None"
    "watch_inv ?s0"
    by (simp_all add: Watch_def isClosed_def Let_def set_watcher_def new_watcher_def sample_store_def
        default_store_def watch_inv_def)
  let ?s1 = "put_entry ''k'' ?e ?s0"
  have merge: "mergeSnapshot_locked sample_json ?snap ?s0 = (None, ?s1, [?ev])"
    by (simp add: mergeSnapshot_locked_def sample_json_def or_bad_def sample_snap_roundtrip
        ProtocolVersion_def lwwAccept_def s0 snap_value_def put_entry_def Let_def snap_entry_def)
  have s1: "s_watchers ?s1 = [0]" "s_wheap ?s1 = s_wheap ?s0" "watch_inv ?s1"
    "s_maxClockSkew ?s1 = 60000000000"
    using s0 winv.R_put [of ?e ?s0 "''k''"]
    by (simp_all add: put_entry_def store_defs Let_def)
  have b: "beats (msg_stamp ?m) (s_data ?s1 (wm_Key ?m))"
    by (simp add: msg_stamp_def entry_stamp_def snap_entry_def less_stamp_def)
  have "check_skew 4 ?m ?s1 = ?s1"
    by (simp add: check_skew_def skew_of_def time_Sub_def Let_def s1 word_sless_alt)
  then have recv: "handleRaw sample_json 4 (sample_marshalMsg ?m) ?s1 =
      dispatch (msg_event ?m ''new'') (put_entry ''k'' (msg_entry ?m ''new'') ?s1)" (is "_ = ?s2")
    using applyMessage_put [OF b, of "''new''"] s0
    by (simp add: handleRaw_def ProtocolVersion_def stored_value_def)
  let ?p = "put_entry ''k'' (msg_entry ?m ''new'') ?s1"
  have p: "s_watchers ?p = [0]" "s_wheap ?p = s_wheap ?s0" "watch_inv ?p"
    using s1 winv.R_put [of "msg_entry ?m ''new''" ?s1 "''k''"] b
    by (simp_all add: put_entry_def store_defs Let_def)
  have h2: "s_wheap ?s2 0 = (s_wheap ?s0 0)\<lparr>w_buf := [msg_event ?m ''new'']\<rparr>" "s_watchers ?s2 = [0]"
    "watch_inv ?s2"
    using dispatch_spec [OF p(3), of "msg_event ?m ''new''"] p s0
    by (auto simp: deliver_def overflows_def accepts_def chan_room_def)
  have h3: "w_buf (s_wheap (dispatch ?ev ?s2) 0) = [msg_event ?m ''new'', ?ev]"
    using dispatch_spec [OF h2(3), of ?ev] h2 s0
    by (simp add: deliver_def accepts_def chan_room_def)
  let ?r0 = "watching_run"
  let ?r1 = "?r0\<lparr>r_store := ?s1, r_events := [[?ev]]\<rparr>"
  let ?r2 = "?r1\<lparr>r_store := ?s2\<rparr>"
  let ?r3 = "?r2\<lparr>r_store := dispatch ?ev ?s2, r_events := [[]]\<rparr>"
  have "store_step up_transport sample_json ?r0 ?r1"
    using store_step.merge [of sample_json ?snap ?r0 None ?s1 "[?ev]" up_transport] merge
    by (simp add: watching_run_def start_run_def)
  then have "runs up_transport sample_json ?r1" by (rule runs_step [OF watching_run_runs])
  moreover have "store_step up_transport sample_json ?r1 ?r2"
    using store_step.receive [of up_transport sample_json ?r1 4 "sample_marshalMsg ?m"] recv by simp
  ultimately have "runs up_transport sample_json ?r2" by (rule runs_step)
  moreover have "store_step up_transport sample_json ?r2 ?r3"
    using store_step.dispatch_one [of 0 ?r2 ?ev "[]" up_transport sample_json] by simp
  ultimately have "runs up_transport sample_json ?r3" by (rule runs_step)
  moreover have "s_data (dispatch ?ev ?s2) ''k'' = Some (msg_entry ?m ''new'')" by simp
  ultimately show ?thesis
    using h3 by (intro exI [of _ ?r3]) (simp add: msg_event_def)
qed

end
