(* ===== verification/Watch_Replay.thy ===== *)
theory Watch_Replay
  imports Store_Steps
begin

section \<open>Rebuilding the map from a watcher's channel\<close>

text \<open>
  What a consumer of \<^verbatim>\<open>Watch\<close> can rely on. A store is used by one operation after another (local
  writes, batches, received messages, refreshes, snapshots, tombstone collections, other
  watchers) while one consumer takes events from its channel. As long as it has not been dropped,
  the map as \<^verbatim>\<open>Get\<close> answered it at registration, changed by the events it has taken and the ones
  that wait in its channel, is the map as \<^verbatim>\<open>Get\<close> answers it now, for every key its filter accepts.
\<close>

subsection \<open>The map a reader sees, and replaying events\<close>

definition view :: "'v store \<Rightarrow> (string \<rightharpoonup> 'v)" where
  "view s = (\<lambda>k. case fst (Get k s) of (v, ok) \<Rightarrow> if ok then Some v else None)"

definition replay1 :: "'v Event \<Rightarrow> (string \<rightharpoonup> 'v) \<Rightarrow> (string \<rightharpoonup> 'v)" where
  "replay1 ev m = m(ev_Key ev := (if ev_Kind ev = EventSet then Some (ev_Value ev) else None))"

definition replay :: "'v Event list \<Rightarrow> (string \<rightharpoonup> 'v) \<Rightarrow> (string \<rightharpoonup> 'v)" where
  "replay evs m = fold replay1 evs m"

lemma view_at:
  "view s k = (case s_data s k of None \<Rightarrow> None | Some e \<Rightarrow> if e_Tombstone e then None else Some (e_Value e))"
  by (simp add: view_def Get_def Let_def split: option.split)

lemma view_cong: "s_data s' = s_data s \<Longrightarrow> view s' = view s"
  by (simp add: fun_eq_iff view_at)

lemma replay_simps [simp]:
  "replay [] m = m" "replay (ev # evs) m = replay evs (replay1 ev m)"
  "replay (evs @ evs') m = replay evs' (replay evs m)"
  by (simp_all add: replay_def)

text \<open>The events under other keys do not matter for a key.\<close>

lemma replay_at:
  "m k = m' k \<Longrightarrow> \<forall>ev \<in> set evs. ev_Key ev = k \<longrightarrow> P ev \<Longrightarrow> replay (filter P evs) m k = replay evs m' k"
proof (induction evs arbitrary: m m')
  case (Cons ev evs)
  show ?case
  proof (cases "P ev")
    case True
    have "replay (filter P evs) (replay1 ev m) k = replay evs (replay1 ev m') k"
      using Cons.prems by (intro Cons.IH) (auto simp: replay1_def)
    with True show ?thesis by simp
  next
    case False
    with Cons have "replay (filter P evs) m k = replay evs (replay1 ev m') k"
      by (intro Cons.IH) (auto simp: replay1_def)
    with False show ?thesis by simp
  qed
qed simp

subsection \<open>Changes that tell the watchers\<close>

definition feed :: "'v Event list \<Rightarrow> 'v watcher \<Rightarrow> 'v watcher" where
  "feed evs w = w\<lparr>w_buf := w_buf w @ filter (\<lambda>ev. accepts w (ev_Key ev)) evs\<rparr>"

lemma feed_simps [simp]:
  "feed [] w = w" "w_filter (feed evs w) = w_filter w" "accepts (feed evs w) k = accepts w k"
  "feed evs' (feed evs w) = feed (evs @ evs') w"
  by (simp_all add: feed_def accepts_def)

definition same_watch :: "'v store \<Rightarrow> 'v store \<Rightarrow> bool" where
  "same_watch s s' \<longleftrightarrow> s_watchers s' = s_watchers s \<and> s_wheap s' = s_wheap s \<and>
     s_panic s' = s_panic s \<and> s_nextw s' = s_nextw s"

lemma same_watch_simps [simp]:
  "same_watch s s" "same_watch s (put_entry k e s)" "same_watch s (s\<lparr>s_seq := q\<rparr>)"
  "same_watch s (add_writesRejected n s)" "same_watch s (add_writesLocal n s)"
  by (simp_all add: same_watch_def put_entry_def store_defs Let_def)

lemma same_watch_trans: "same_watch s s1 \<Longrightarrow> same_watch s1 s' \<Longrightarrow> same_watch s s'"
  by (simp add: same_watch_def)

text \<open>
  \<open>told evs s s'\<close>: the map has changed by the events \<open>evs\<close>, and every watcher that is still
  registered got those of them its filter accepts.
\<close>

definition told :: "'v Event list \<Rightarrow> 'v store \<Rightarrow> 'v store \<Rightarrow> bool" where
  "told evs s s' \<longleftrightarrow> view s' = replay evs (view s) \<and>
     (watch_inv s \<longrightarrow> watch_inv s' \<and> s_nextw s' = s_nextw s \<and> set (s_watchers s') \<subseteq> set (s_watchers s) \<and>
       (\<forall>i \<in> set (s_watchers s'). s_wheap s' i = feed evs (s_wheap s i)))"

definition tells :: "'v store \<Rightarrow> 'v store \<Rightarrow> bool" where
  "tells s s' \<longleftrightarrow> (\<exists>evs. told evs s s')"

lemma told_trans: "told evs s s1 \<Longrightarrow> told evs' s1 s' \<Longrightarrow> told (evs @ evs') s s'"
  unfolding told_def
proof (intro conjI impI ballI; elim conjE)
  assume 1: "watch_inv s \<longrightarrow> watch_inv s1 \<and> s_nextw s1 = s_nextw s \<and> set (s_watchers s1) \<subseteq> set (s_watchers s) \<and>
      (\<forall>i \<in> set (s_watchers s1). s_wheap s1 i = feed evs (s_wheap s i))"
    and 2: "watch_inv s1 \<longrightarrow> watch_inv s' \<and> s_nextw s' = s_nextw s1 \<and> set (s_watchers s') \<subseteq> set (s_watchers s1) \<and>
      (\<forall>i \<in> set (s_watchers s'). s_wheap s' i = feed evs' (s_wheap s1 i))"
    and inv: "watch_inv s"
  show "watch_inv s'" "s_nextw s' = s_nextw s" "set (s_watchers s') \<subseteq> set (s_watchers s)" using 1 2 inv by auto
  show "s_wheap s' i = feed (evs @ evs') (s_wheap s i)" if "i \<in> set (s_watchers s')" for i
  proof -
    have "i \<in> set (s_watchers s1)" using 1 2 inv that by blast
    then have "s_wheap s1 i = feed evs (s_wheap s i)" using 1 inv by blast
    moreover have "s_wheap s' i = feed evs' (s_wheap s1 i)" using 1 2 inv that by blast
    ultimately show ?thesis by simp
  qed
qed simp

lemma told_quiet: "view s' = view s \<Longrightarrow> same_watch s s' \<Longrightarrow> told [] s s'"
  unfolding told_def same_watch_def watch_inv_def by simp

lemma minor_told: "minor s s' \<Longrightarrow> told [] s s'"
  by (rule told_quiet, rule view_cong) (simp_all add: minor_def same_watch_def)

lemma dispatch_feed:
  assumes "watch_inv s" "i \<in> set (s_watchers (dispatch ev s))"
  shows "i \<in> set (s_watchers s) \<and> s_wheap (dispatch ev s) i = feed [ev] (s_wheap s i)"
  using dispatch_spec [OF assms(1), of ev] assms(2)
  by (auto simp: feed_def deliver_def overflows_def)

lemma dispatch_nextw [simp]: "s_nextw (dispatch ev s) = s_nextw s"
  using dispatch_core [of s ev] by (simp add: same_core_def)

lemma dispatch_all_feed:
  assumes "watch_inv s"
  shows "s_nextw (dispatch_all evs s) = s_nextw s \<and> (\<forall>i \<in> set (s_watchers (dispatch_all evs s)).
    i \<in> set (s_watchers s) \<and> s_wheap (dispatch_all evs s) i = feed evs (s_wheap s i))"
  using assms
proof (induction evs arbitrary: s)
  case (Cons ev evs)
  have d: "dispatch_all (ev # evs) s = dispatch_all evs (dispatch ev s)" by (simp add: dispatch_all_def)
  have "watch_inv (dispatch ev s)" using Cons.prems by (rule dispatch_inv)
  from Cons.IH [OF this] dispatch_feed [OF Cons.prems, of _ ev] show ?case unfolding d by auto
qed (simp add: dispatch_all_def)

text \<open>Changing the map under the lock, then dispatching what changed.\<close>

lemma told_dispatch_all:
  assumes "view s1 = replay evs (view s)" "same_watch s s1"
  shows "told evs s (dispatch_all evs s1)"
proof -
  have "view (dispatch_all evs s1) = replay evs (view s)" using assms(1) view_cong [of "dispatch_all evs s1" s1] by simp
  moreover have "watch_inv s1" if "watch_inv s" using that assms(2) by (simp add: same_watch_def watch_inv_def)
  ultimately show ?thesis
    using assms(2) dispatch_all_feed [of s1 evs] dispatch_all_inv [of s1 evs] by (auto simp: told_def same_watch_def)
qed

lemma view_put:
  "view (put_entry k e s) = (view s)(k := (if e_Tombstone e then None else Some (e_Value e)))"
  by (simp add: fun_eq_iff view_at)

lemma view_put_event:
  "ev_Key ev = k \<Longrightarrow> ev_Kind ev = (if e_Tombstone e then EventDelete else EventSet) \<Longrightarrow> ev_Value ev = e_Value e \<Longrightarrow>
   view (put_entry k e s) = replay1 ev (view s)"
  by (simp add: view_put replay1_def)

lemma apply_told: "tells s (snd (applyMessage m v s))"
proof (cases "beats (msg_stamp m) (s_data s (wm_Key m))")
  case True
  let ?ev = "msg_event m (stored_value m v s)"
  let ?s1 = "put_entry (wm_Key m) (msg_entry m (stored_value m v s)) s"
  have "view ?s1 = replay [?ev] (view s)"
    unfolding replay_simps by (rule view_put_event) (simp_all add: msg_event_def)
  then have "told [?ev] s (dispatch_all [?ev] ?s1)" by (rule told_dispatch_all) simp
  then show ?thesis unfolding tells_def applyMessage_put [OF True] by (auto simp: dispatch_all_def)
next
  case False
  have "told [] s (add_writesRejected 1 s)" by (rule minor_told) simp
  with False show ?thesis unfolding tells_def by (auto simp: applyMessage_rejected)
qed

interpretation tell: message_change tells
proof unfold_locales
  show "tells s s" for s :: "'v store" using told_quiet [of s s] by (auto simp: tells_def)
  show "tells s s' \<Longrightarrow> tells s' s'' \<Longrightarrow> tells s s''" for s s' s'' :: "'v store"
    unfolding tells_def using told_trans by blast
  show "minor s s' \<Longrightarrow> tells s s'" for s s' :: "'v store"
    using minor_told by (auto simp: tells_def)
qed (rule apply_told)

subsection \<open>Batches, refreshes and collections\<close>

text \<open>Under the lock the map changes and the watchers do not.\<close>

definition changed :: "'v Event list \<Rightarrow> 'v store \<Rightarrow> 'v store \<Rightarrow> bool" where
  "changed evs s s' \<longleftrightarrow> view s' = replay evs (view s) \<and> same_watch s s'"

lemma changed_refl: "changed [] s s"
  by (simp add: changed_def)

lemma changed_trans: "changed evs s s1 \<Longrightarrow> changed evs' s1 s' \<Longrightarrow> changed (evs @ evs') s s'"
  unfolding changed_def using same_watch_trans [of s s1 s'] by simp

lemma changed_seq: "changed [] s (s\<lparr>s_seq := q\<rparr>)"
  unfolding changed_def using view_cong [of "s\<lparr>s_seq := q\<rparr>" s] by simp

lemma changed_reject: "changed [] s (add_writesRejected n (s\<lparr>s_seq := q\<rparr>))"
  unfolding changed_def using view_cong [of "add_writesRejected n (s\<lparr>s_seq := q\<rparr>)" s]
  by (simp add: store_defs same_watch_def)

lemma changed_local: "changed [] s (add_writesLocal n s)"
  unfolding changed_def using view_cong [of "add_writesLocal n s" s] by (simp add: store_defs same_watch_def)

lemma changed_put:
  "ev_Key ev = k \<Longrightarrow> ev_Kind ev = (if e_Tombstone e then EventDelete else EventSet) \<Longrightarrow> ev_Value ev = e_Value e \<Longrightarrow>
   changed [ev] s (put_entry k e s)"
  unfolding changed_def by (simp add: view_put_event)

lemma changed_put_seq:
  "wm_Key m = k \<Longrightarrow> changed [msg_event m v] s (put_entry k (msg_entry m v) (s\<lparr>s_seq := q\<rparr>))"
  using changed_trans [OF changed_seq changed_put, of "msg_event m v" k "msg_entry m v" s q]
  by (simp add: msg_event_def)

lemma changed_told: "changed evs s s1 \<Longrightarrow> told evs s (dispatch_all evs s1)"
  unfolding changed_def by (blast intro: told_dispatch_all)

lemma SetMany_loop_changed:
  "SetMany_loop ts kvs s applied events = (None, s', applied', events') \<Longrightarrow>
   \<exists>evs. events' = events @ evs \<and> changed evs s s'"
proof (induction kvs arbitrary: s applied events)
  case (Cons kv kvs)
  obtain k v where kv: "kv = (k, v)" by (cases kv)
  obtain p where p: "Marshal (s_codec s) v = Inr p"
    using Cons.prems by (cases "Marshal (s_codec s) v") (auto simp: kv)
  define m where "m = \<lparr>wm_V = ProtocolVersion, wm_Kind = kindSet, wm_Key = k, wm_Value = p,
       wm_Origin = s_nodeID s, wm_Timestamp = ts, wm_Seq = s_seq s + 1\<rparr>"
  have m: "wm_Key m = k" "msg_stamp m = Stamp ts (s_nodeID s) (s_seq s + 1)"
    by (simp_all add: m_def msg_stamp_def)
  show ?case
  proof (cases "beats (msg_stamp m) (s_data s k)")
    case True
    let ?ev = "msg_event m (stored_value m v s)"
    let ?s = "put_entry k (msg_entry m (stored_value m v s)) (s\<lparr>s_seq := s_seq s + 1\<rparr>)"
    have "SetMany_loop ts kvs ?s (applied @ [m]) (events @ [?ev]) = (None, s', applied', events')"
      using Cons.prems SetMany_loop_accept [OF p m_def True, of kvs applied events] by (simp add: kv)
    from Cons.IH [OF this] obtain evs where e: "events' = events @ [?ev] @ evs" and c: "changed evs ?s s'" by auto
    from changed_trans [OF changed_put_seq [OF m(1)] c] e show ?thesis by blast
  next
    case False
    let ?s = "add_writesRejected 1 (s\<lparr>s_seq := s_seq s + 1\<rparr>)"
    have "SetMany_loop ts kvs ?s applied events = (None, s', applied', events')"
      using Cons.prems SetMany_loop_reject [OF p, of ts k kvs applied events] False m(2) by (simp add: kv)
    from Cons.IH [OF this] obtain evs where e: "events' = events @ evs" and c: "changed evs ?s s'" by blast
    from changed_trans [OF changed_reject c] e show ?thesis by auto
  qed
qed (simp add: changed_refl)

lemma DeleteMany_loop_changed:
  "DeleteMany_loop ts ks s applied events = (s', applied', events') \<Longrightarrow>
   \<exists>evs. events' = events @ evs \<and> changed evs s s'"
proof (induction ks arbitrary: s applied events)
  case (Cons k ks)
  define m where "m = \<lparr>wm_V = ProtocolVersion, wm_Kind = kindDelete, wm_Key = k, wm_Value = [],
       wm_Origin = s_nodeID s, wm_Timestamp = ts, wm_Seq = s_seq s + 1\<rparr>"
  have m: "wm_Key m = k" "msg_stamp m = Stamp ts (s_nodeID s) (s_seq s + 1)"
    by (simp_all add: m_def msg_stamp_def)
  show ?case
  proof (cases "beats (msg_stamp m) (s_data s k)")
    case True
    let ?ev = "msg_event m (s_zero s)"
    let ?s = "put_entry k (msg_entry m (s_zero s)) (s\<lparr>s_seq := s_seq s + 1\<rparr>)"
    have "DeleteMany_loop ts ks ?s (applied @ [m]) (events @ [?ev]) = (s', applied', events')"
      using Cons.prems DeleteMany_loop_accept [OF m_def True, of ks applied events] by simp
    from Cons.IH [OF this] obtain evs where e: "events' = events @ [?ev] @ evs" and c: "changed evs ?s s'" by auto
    from changed_trans [OF changed_put_seq [OF m(1)] c] e show ?thesis by blast
  next
    case False
    let ?s = "add_writesRejected 1 (s\<lparr>s_seq := s_seq s + 1\<rparr>)"
    have "DeleteMany_loop ts ks ?s applied events = (s', applied', events')"
      using Cons.prems DeleteMany_loop_reject [of ts s k ks applied events] False m(2) by simp
    from Cons.IH [OF this] obtain evs where e: "events' = events @ evs" and c: "changed evs ?s s'" by blast
    from changed_trans [OF changed_reject c] e show ?thesis by auto
  qed
qed (simp add: changed_refl)

lemma mergeSnapshot_loop_changed:
  "mergeSnapshot_loop es s events = (None, s', events') \<Longrightarrow>
   \<exists>evs. events' = events @ evs \<and> changed evs s s'"
proof (induction es arbitrary: s events)
  case (Cons ke es)
  obtain k e where ke: "ke = (k, e)" by (cases ke)
  show ?case
  proof (cases "lwwAccept k (snap_msg e) s")
    case True
    with Cons.prems obtain v where v: "snap_value e s = Inr v"
      by (cases "snap_value e s") (auto simp: ke)
    let ?ev = "\<lparr>ev_Kind = (if se_Tombstone e then EventDelete else EventSet), ev_Key = k, ev_Value = v,
        ev_Origin = se_Origin e, ev_Timestamp = se_Timestamp e\<rparr>"
    let ?s = "put_entry k (snap_entry e v) s"
    have "mergeSnapshot_loop es ?s (events @ [?ev]) = (None, s', events')"
      using Cons.prems True v by (simp add: ke Let_def put_entry_def snap_entry_def)
    from Cons.IH [OF this] obtain evs where "events' = events @ [?ev] @ evs" "changed evs ?s s'" by auto
    moreover have "changed [?ev] s ?s" by (rule changed_put) (simp_all add: snap_entry_def)
    ultimately show ?thesis using changed_trans by blast
  next
    case False
    with Cons show ?thesis by (simp add: ke)
  qed
qed (simp add: changed_refl)

lemma SetMany_tells:
  assumes "SetMany T J now kvs s t = (err, s', t')" "encodable_all s kvs"
  shows "tells s s'"
proof -
  let ?s = "add_writesLocal (of_nat (length kvs)) s"
  obtain e s1 ms evs where loop: "SetMany_loop now kvs ?s [] [] = (e, s1, ms, evs)" by (metis prod.exhaust)
  have "e = None" using SetMany_loop_data [of ?s kvs now "[]" "[]"] assms(2) loop
    by (simp add: encodable_all_def store_defs)
  with loop have "changed evs ?s s1" using SetMany_loop_changed [of now kvs ?s "[]" "[]" s1 ms evs] by auto
  then have "told evs s (dispatch_all evs s1)" using changed_trans [OF changed_local] changed_told by fastforce
  then have "tells s (dispatch_all evs s1)" by (auto simp: tells_def)
  moreover have "s' = s \<or> s' = dispatch_all evs s1 \<or> s' = markDirty (dispatch_all evs s1)"
    using assms(1) \<open>e = None\<close> by (auto simp: SetMany_def loop Let_def split: if_splits prod.splits option.splits)
  ultimately show ?thesis using tell.R_markDirty tell.M_refl by blast
qed

lemma DeleteMany_tells:
  assumes "DeleteMany T J now ks s t = (err, s', t')"
  shows "tells s s'"
proof -
  let ?s = "add_writesLocal (of_nat (length ks)) s"
  obtain s1 ms evs where loop: "DeleteMany_loop now ks ?s [] [] = (s1, ms, evs)" by (metis prod.exhaust)
  then have "changed evs ?s s1" using DeleteMany_loop_changed [of now ks ?s "[]" "[]" s1 ms evs] by auto
  then have "told evs s (dispatch_all evs s1)" using changed_trans [OF changed_local] changed_told by fastforce
  then have "tells s (dispatch_all evs s1)" by (auto simp: tells_def)
  moreover have "s' = s \<or> s' = dispatch_all evs s1 \<or> s' = markDirty (dispatch_all evs s1)"
    using assms by (auto simp: DeleteMany_def loop Let_def split: if_splits prod.splits option.splits)
  ultimately show ?thesis using tell.R_markDirty tell.M_refl by blast
qed

lemma Refresh_tells:
  assumes "Refresh T J s t = (None, s', t')"
  shows "tells s s'"
proof -
  have m: "tells s s1" if "mergeSnapshot J raw s = (None, s1)" for raw s1
  proof -
    obtain e s2 evs where l: "mergeSnapshot_locked J raw s = (e, s2, evs)" by (metis prod.exhaust)
    with that have "e = None" "s1 = dispatch_all evs s2" by (cases e; simp add: mergeSnapshot_def)+
    moreover from l this(1) have "changed evs s s2"
      using mergeSnapshot_loop_changed [of _ s "[]" s2 evs]
      by (auto simp: mergeSnapshot_locked_def split: sum.splits if_splits)
    ultimately show ?thesis using changed_told by (auto simp: tells_def)
  qed
  then show ?thesis
    using assms tell.M_refl by (auto simp: Refresh_def split: if_splits sum.splits prod.splits)
qed

lemma view_collect: "distinct ks \<Longrightarrow> s_data s' = collect_on lim ks (s_data s) \<Longrightarrow> view s' = view s"
  by (auto simp: fun_eq_iff view_at collect_on_def expired_at_def expired_def split: option.splits)

lemma gc_tells:
  assumes "distinct ks"
  shows "tells s (gcTombstones now ks s)"
proof -
  have "view (gcTombstones now ks s) = view s"
    by (rule view_collect [OF assms gcTombstones_data [OF assms]])
  moreover have "same_watch s (gcTombstones now ks s)"
    using assms by (auto simp: gcTombstones_eq Let_def same_watch_def count_gced_def store_defs)
  ultimately show ?thesis unfolding tells_def using told_quiet by blast
qed

lemma persist_loop_view:
  "persistSnapshot_loop lim ks s n es = (err, s', n', es') \<Longrightarrow> view s' = view s"
proof (induction ks arbitrary: s n es)
  case (Cons k ks)
  have "view (s\<lparr>s_data := (s_data s)(k := None)\<rparr>) = view s" if "s_data s k = Some e" "expired lim e" for e
    using that by (auto simp: fun_eq_iff view_at expired_def)
  with Cons show ?case by (auto split: option.splits if_splits sum.splits)
qed simp

lemma persist_tells:
  assumes "persistSnapshot T J now ks s t = (err, s', t')"
  shows "tells s s'"
proof -
  obtain e s1 n es where loop: "persistSnapshot_loop (ttl_cutoff now s) ks s 0 [] = (e, s1, n, es)"
    by (metis prod.exhaust)
  have "s_data s' = s_data s1"
    using assms unfolding persistSnapshot_def persist_parts loop
    by (auto simp: Let_def count_gced_def store_defs split: option.splits sum.splits prod.splits if_splits)
  then have "view s' = view s" using persist_loop_view [OF loop] view_cong [of s' s1] by simp
  moreover have "same_watch s s'" using persistSnapshot_frame [OF assms] by (simp add: same_watch_def)
  ultimately show ?thesis unfolding tells_def using told_quiet by blast
qed

lemma remove_tells: "tells s (removeWatcher j s)"
proof -
  have "view (removeWatcher j s) = view s"
    using removeWatcher_core [of s j] by (intro view_cong) (simp add: same_core_def)
  moreover have "s_nextw (removeWatcher j s) = s_nextw s"
    using removeWatcher_core [of s j] by (simp add: same_core_def)
  moreover have "set (s_watchers (removeWatcher j s)) \<subseteq> set (s_watchers s) \<and>
      (\<forall>i \<in> set (s_watchers (removeWatcher j s)). s_wheap (removeWatcher j s) i = s_wheap s i)" if "watch_inv s"
  proof (cases "j \<in> set (s_watchers s)")
    case True
    then show ?thesis using removeWatcher_effect [OF that True] by auto
  qed (simp add: removeWatcher_def)
  ultimately have "told [] s (removeWatcher j s)" by (simp add: told_def removeWatcher_inv)
  then show ?thesis by (auto simp: tells_def)
qed

subsection \<open>A store and the consumer of one watcher\<close>

text \<open>
  The state is the store, the transport and the events the consumer of watcher \<open>i\<close> has taken.
  A batch must be encodable and a \<^verbatim>\<open>Refresh\<close> must succeed: a failure half-way leaves entries in the
  map that were never dispatched.
\<close>

inductive watch_step :: "'t Transport \<Rightarrow> Json \<Rightarrow> nat \<Rightarrow> 'v store \<times> 't \<times> 'v Event list
    \<Rightarrow> 'v store \<times> 't \<times> 'v Event list \<Rightarrow> bool" for T J i where
  set: "Set T J now k v s t = (err, s', t') \<Longrightarrow> watch_step T J i (s, t, taken) (s', t', taken)"
| delete: "Delete T J now k s t = (err, s', t') \<Longrightarrow> watch_step T J i (s, t, taken) (s', t', taken)"
| try_set: "TrySet T J now k v ver s t = (res, s', t') \<Longrightarrow> watch_step T J i (s, t, taken) (s', t', taken)"
| set_many: "encodable_all s kvs \<Longrightarrow> SetMany T J now kvs s t = (err, s', t') \<Longrightarrow>
    watch_step T J i (s, t, taken) (s', t', taken)"
| delete_many: "DeleteMany T J now ks s t = (err, s', t') \<Longrightarrow> watch_step T J i (s, t, taken) (s', t', taken)"
| receive: "watch_step T J i (s, t, taken) (handleRaw J now raw s, t, taken)"
| refresh: "Refresh T J s t = (None, s', t') \<Longrightarrow> watch_step T J i (s, t, taken) (s', t', taken)"
| collect: "distinct ks \<Longrightarrow> watch_step T J i (s, t, taken) (gcTombstones now ks s, t, taken)"
| persist: "persistSnapshot T J now ks s t = (err, s', t') \<Longrightarrow> watch_step T J i (s, t, taken) (s', t', taken)"
| read: "watch_step T J i (s, t, taken) (snd (Get k s), t, taken)"
| watch: "watch_step T J i (s, t, taken) (snd (Watch opts s), t, taken)"
| cancel: "watch_step T J i (s, t, taken) (removeWatcher j s, t, taken)"
| other: "j \<noteq> i \<Longrightarrow> watch_step T J i (s, t, taken) (snd (watch_recv j s), t, taken)"
| take_event: "watch_recv i s = (Some ev, s') \<Longrightarrow> watch_step T J i (s, t, taken) (s', t, taken @ [ev])"
| wait: "watch_recv i s = (None, s') \<Longrightarrow> watch_step T J i (s, t, taken) (s', t, taken)"

definition follows :: "(string \<Rightarrow> bool) option \<Rightarrow> (string \<rightharpoonup> 'v) \<Rightarrow> nat \<Rightarrow> 'v store \<Rightarrow> 'v Event list \<Rightarrow> bool" where
  "follows f V i s taken \<longleftrightarrow> watch_inv s \<and> i < s_nextw s \<and>
     (i \<in> set (s_watchers s) \<longrightarrow> w_filter (s_wheap s i) = f \<and>
       (\<forall>k. accepts (s_wheap s i) k \<longrightarrow> replay (taken @ w_buf (s_wheap s i)) V k = view s k))"

lemma tells_follows:
  assumes "tells s s'" "follows f V i s taken"
  shows "follows f V i s' taken"
proof -
  obtain evs where t: "told evs s s'" using assms(1) by (auto simp: tells_def)
  have s: "watch_inv s" "i < s_nextw s" using assms(2) by (simp_all add: follows_def)
  then have s': "watch_inv s'" "s_nextw s' = s_nextw s" using t by (simp_all add: told_def)
  have "w_filter (s_wheap s' i) = f \<and>
      (\<forall>k. accepts (s_wheap s' i) k \<longrightarrow> replay (taken @ w_buf (s_wheap s' i)) V k = view s' k)"
    if "i \<in> set (s_watchers s')"
  proof -
    have i: "i \<in> set (s_watchers s)" "s_wheap s' i = feed evs (s_wheap s i)"
      using t s(1) that by (auto simp: told_def)
    have old: "w_filter (s_wheap s i) = f" "\<And>k. accepts (s_wheap s i) k \<Longrightarrow>
        replay (taken @ w_buf (s_wheap s i)) V k = view s k"
      using assms(2) i(1) by (auto simp: follows_def)
    have "replay (taken @ w_buf (s_wheap s' i)) V k = view s' k" if "accepts (s_wheap s i) k" for k
    proof -
      have "replay (taken @ w_buf (s_wheap s' i)) V k =
          replay (filter (\<lambda>ev. accepts (s_wheap s i) (ev_Key ev)) evs) (replay (taken @ w_buf (s_wheap s i)) V) k"
        by (simp add: i(2) feed_def)
      also have "\<dots> = replay evs (view s) k" using old(2) that by (intro replay_at) auto
      also have "\<dots> = view s' k" using t by (simp add: told_def)
      finally show ?thesis .
    qed
    with old(1) i(2) show ?thesis by simp
  qed
  with s s' show ?thesis by (simp add: follows_def)
qed

lemma watch_step_follows:
  assumes "watch_step T J i (s, t, taken) (s', t', taken')" "follows f V i s taken"
  shows "follows f V i s' taken'"
proof -
  have inv: "watch_inv s" "i < s_nextw s" using assms(2) by (simp_all add: follows_def)
  have ops: "follows f V i u taken" if "tells s u" for u using tells_follows [OF that assms(2)] .
  from assms(1) show ?thesis
  proof cases
    case (set now k v err)
    then show ?thesis using ops [of s'] tell.R_Set [of s T J now k v t] by simp
  next
    case (delete now k err)
    then show ?thesis using ops [of s'] tell.R_Delete [of s T J now k t] by simp
  next
    case (try_set now k v ver res)
    then show ?thesis using ops [of s'] tell.R_TrySet [of s T J now k v ver t] by simp
  next
    case (watch opts)
    have "i \<noteq> s_nextw s" using inv by simp
    moreover have "view s' = view s" unfolding watch by (rule view_cong) simp
    ultimately show ?thesis
      using assms(2) Watch_inv [OF inv(1), of opts]
      by (auto simp: watch follows_def Watch_def Let_def set_watcher_def)
  next
    case (other j)
    have "view s' = view s" unfolding other by (rule view_cong) simp
    then show ?thesis
      using assms(2) watch_recv_inv [OF inv(1), of j] other
      by (auto simp: follows_def watch_recv_def split: list.splits)
  next
    case (take_event ev)
    then obtain evs where buf: "w_buf (s_wheap s i) = ev # evs"
        "s' = set_watcher i ((s_wheap s i)\<lparr>w_buf := evs, w_waiting := w_waiting (s_wheap s i) - 1\<rparr>) s"
      by (auto simp: watch_recv_def split: list.splits if_splits)
    have "view s' = view s" unfolding buf by (rule view_cong) (simp add: set_watcher_def)
    then show ?thesis
      using assms(2) watch_recv_inv [OF inv(1), of i] take_event buf by (auto simp: follows_def accepts_def)
  next
    case wait
    then have buf: "w_buf (s_wheap s i) = []" "s' = s \<or>
        s' = set_watcher i ((s_wheap s i)\<lparr>w_waiting := Suc (w_waiting (s_wheap s i))\<rparr>) s"
      by (auto simp: watch_recv_def split: list.splits if_splits)
    then have "view s' = view s" by (intro view_cong) (auto simp: set_watcher_def)
    then show ?thesis
      using assms(2) watch_recv_inv [OF inv(1), of i] wait buf by (auto simp: follows_def accepts_def)
  qed (auto intro: ops SetMany_tells DeleteMany_tells Refresh_tells gc_tells persist_tells remove_tells
        tell.R_handleRaw tell.R_Get)
qed

subsection \<open>Properties\<close>

lemma Watch_follows:
  assumes "watch_inv s" "Watch opts s = (i, s0)"
  shows "follows (w_filter (new_watcher s opts)) (view s) i s0 []"
proof -
  have s0: "s0 = snd (Watch opts s)" "i = s_nextw s" using assms(2) by (auto simp: Watch_def Let_def split: if_splits)
  have "view s0 = view s" unfolding s0 by (rule view_cong) simp
  moreover have "i \<notin> set (s_watchers s)" using assms(1) s0(2) by (auto simp: watch_inv_def)
  ultimately show ?thesis
    using Watch_inv [OF assms(1), of opts] s0
    by (auto simp: follows_def Watch_def Let_def set_watcher_def new_watcher_def split: if_splits)
qed

lemma watch_steps_follow:
  assumes "(watch_step T J i)\<^sup>*\<^sup>* c c'" "follows f V i (fst c) (snd (snd c))"
  shows "follows f V i (fst c') (snd (snd c'))"
  using assms
proof (induction rule: rtranclp_induct)
  case (step c' c'')
  then show ?case using watch_step_follows by (metis prod.collapse)
qed

text \<open>
  C9. A watcher that keeps up can rebuild the map. After \<^verbatim>\<open>Watch\<close> on a store, through any sequence
  of writes, encodable batches, received messages, successful refreshes, snapshots, collections
  and other watchers' work, while the consumer takes events whenever it likes: if the watcher is
  still registered, replaying the events taken so far and those waiting in its channel, in order,
  on the map as \<^verbatim>\<open>Get\<close> answered it at registration gives, for every key its options accept, exactly
  what \<^verbatim>\<open>Get\<close> answers now. No event is missing, duplicated or out of order.
\<close>

theorem watcher_rebuilds_the_map:
  assumes "watch_inv s" "Watch opts s = (i, s0)"
    and "(watch_step T J i)\<^sup>*\<^sup>* (s0, t, []) (s', t', taken)"
    and "i \<in> set (s_watchers s')" "accepts (new_watcher s opts) k"
  shows "replay (taken @ w_buf (s_wheap s' i)) (view s) k = view s' k"
proof -
  have f: "follows (w_filter (new_watcher s opts)) (view s) i s' taken"
    using watch_steps_follow [OF assms(3)] Watch_follows [OF assms(1,2)] by simp
  then have "accepts (s_wheap s' i) k = accepts (new_watcher s opts) k"
    using assms(4) by (simp add: follows_def accepts_def)
  with f assms(4,5) show ?thesis by (simp add: follows_def)
qed

definition replay_start :: "string store" where
  "replay_start = (sample_store ''n'')\<lparr>s_watchBuffer := 1\<rparr>"

lemma replay_start_ok: "watch_inv replay_start" "\<not> s_closed replay_start" "s_data replay_start = Map.empty"
  "s_nextw replay_start = 0" "s_codec replay_start = sample_codec" "s_merger replay_start = None"
  "s_watchers replay_start = []" "s_watchBuffer replay_start = 1" "s_seq replay_start = 0" "s_nodeID replay_start = ''n''"
  by (simp_all add: replay_start_def watch_inv_def sample_store_def default_store_def)

lemma replay_watch: "Watch [WatchKey ''k''] replay_start =
    (0, (set_watcher 0 (new_watcher replay_start [WatchKey ''k'']) (replay_start\<lparr>s_nextw := 1\<rparr>))\<lparr>s_watchers := [0]\<rparr>)"
  by (simp add: Watch_def Let_def isClosed_def replay_start_ok)

theorem watcher_rebuilds_the_map_witness:
  "\<exists>s' t' taken. (watch_step up_transport sample_json 0)\<^sup>*\<^sup>* (snd (Watch [WatchKey ''k''] replay_start), [], []) (s', t', taken) \<and>
     taken \<noteq> [] \<and> replay (taken @ w_buf (s_wheap s' 0)) (view replay_start) ''k'' = view s' ''k'' \<and>
     view s' ''k'' = Some ''x''"
proof -
  let ?s0 = "snd (Watch [WatchKey ''k''] replay_start)"
  let ?m = "stamp_msg kindSet ''k'' (str_bytes ''x'') 5 ?s0"
  let ?ev = "msg_event ?m ''x''"
  let ?w = "new_watcher replay_start [WatchKey ''k'']"
  obtain err s1 t1 where set: "Set up_transport sample_json 5 ''k'' ''x'' ?s0 [] = (err, s1, t1)"
    by (metis prod.exhaust)
  have s0: "s_wheap ?s0 0 = ?w" "s_watchers ?s0 = [0]" "s_data ?s0 = Map.empty" "s_merger ?s0 = None"
    "\<not> s_closed ?s0" "s_codec ?s0 = sample_codec" "watch_inv ?s0"
    using Watch_inv [OF replay_start_ok(1), of "[WatchKey ''k'']"]
    by (simp_all add: replay_watch replay_start_ok set_watcher_def)
  let ?p = "put_entry ''k'' (msg_entry ?m ''x'') (stamped ?s0)"
  have p: "s_wheap ?p = s_wheap ?s0" "s_watchers ?p = [0]" "watch_inv ?p"
    using s0 by (auto simp: put_entry_def stamped_def store_defs Let_def watch_inv_def)
  have ap: "snd (applyMessage ?m ''x'' (stamped ?s0)) = dispatch ?ev ?p"
    by (subst applyMessage_put) (simp_all add: s0 replay_start_ok(3) stored_value_def stamped_def store_defs)
  have "s1 = snd (applyMessage ?m ''x'' (stamped ?s0)) \<or> s1 = markDirty (snd (applyMessage ?m ''x'' (stamped ?s0)))"
    using set s0 by (auto simp: Set_eq write_tail_def split: if_splits sum.splits prod.splits option.splits)
  moreover have w: "accepts ?w (ev_Key ?ev)" "chan_room ?w" "w_buf ?w = []"
    by (simp_all add: accepts_def chan_room_def new_watcher_def WatchKey_def WatchFilter_def msg_event_def
        replay_start_ok(8))
  moreover have d: "s_wheap (dispatch ?ev ?p) 0 = deliver ?ev ?w"
    "s_watchers (dispatch ?ev ?p) = filter (\<lambda>i. \<not> overflows ?ev (s_wheap ?p i)) [0]"
    using dispatch_spec [OF p(3), of ?ev] p(1,2) s0(1) by simp_all
  moreover have "view (dispatch ?ev ?p) ''k'' = Some ''x''" by (simp add: view_at)
  ultimately have s1: "s_wheap s1 0 = ?w\<lparr>w_buf := [?ev]\<rparr>" "s_watchers s1 = [0]" "view s1 ''k'' = Some ''x''"
    unfolding ap using p(1) s0(1) view_cong [of "markDirty (dispatch ?ev ?p)" "dispatch ?ev ?p"]
    by (auto simp: markDirty_def deliver_def overflows_def)
  let ?s2 = "set_watcher 0 (?w\<lparr>w_buf := [], w_waiting := 0\<rparr>) s1"
  have "watch_recv 0 s1 = (Some ?ev, ?s2)" by (simp add: watch_recv_def s1 new_watcher_def)
  then have "watch_step up_transport sample_json 0 (s1, t1, []) (?s2, t1, [] @ [?ev])" by (rule watch_step.take_event)
  then have steps: "(watch_step up_transport sample_json 0)\<^sup>*\<^sup>* (?s0, [], []) (?s2, t1, [?ev])"
    using watch_step.set [OF set, of 0 "[]"] by (simp add: rtranclp.rtrancl_into_rtrancl)
  have k: "accepts ?w ''k''" by (simp add: accepts_def new_watcher_def WatchKey_def WatchFilter_def)
  have "Watch [WatchKey ''k''] replay_start = (0, ?s0)" by (simp add: replay_watch)
  from watcher_rebuilds_the_map [OF replay_start_ok(1) this steps _ k]
  have "replay ([?ev] @ w_buf (s_wheap ?s2 0)) (view replay_start) ''k'' = view ?s2 ''k''" by (simp add: s1)
  moreover have "view ?s2 ''k'' = Some ''x''" using s1(3) by (simp add: view_at set_watcher_def)
  ultimately show ?thesis using steps by blast
qed

end
