(* ===== verification/P2P_Frame.thy ===== *)
theory P2P_Frame
  imports Prelude
begin

unbundle bit_operations_syntax

section \<open>The P2P wire frame\<close>

text \<open>
  \<^verbatim>\<open>writeFrame\<close> and \<^verbatim>\<open>readFrame\<close> of \<^verbatim>\<open>transport/p2p.go\<close>: a frame is
  \<^verbatim>\<open>[u32 totalLen][u8 type][u16 topicLen][topic][payload]\<close>, big endian. A writer is the list
  of bytes it was given; a reader is the list of bytes still to come, and \<^verbatim>\<open>io.ReadFull\<close>
  fails with \<^verbatim>\<open>EOF\<close> on an empty stream and with \<^verbatim>\<open>ErrUnexpectedEOF\<close> on a short one. The
  lengths are kept at their widths: the 32-bit and the 16-bit field are words.
\<close>

datatype frame_error =
    TopicTooLong | FrameTooLarge nat | FrameTooSmall nat | InvalidTopicLength
  | EOF | UnexpectedEOF

definition p2pMsgEvent :: byte where "p2pMsgEvent = 1"
definition p2pMsgSnapReq :: byte where "p2pMsgSnapReq = 2"
definition p2pMsgSnapResp :: byte where "p2pMsgSnapResp = 3"
definition p2pMaxFrame :: nat where "p2pMaxFrame = 64 * 1024 * 1024"

record p2pFrame =
  f_msgType :: byte
  f_topic :: string
  f_payload :: bytes

subsection \<open>Big-endian integers\<close>

definition put_u16 :: "16 word \<Rightarrow> bytes" where
  "put_u16 w = [ucast (drop_bit 8 w), ucast w]"

definition put_u32 :: "32 word \<Rightarrow> bytes" where
  "put_u32 w = [ucast (drop_bit 24 w), ucast (drop_bit 16 w), ucast (drop_bit 8 w), ucast w]"

definition get_u16 :: "byte \<Rightarrow> byte \<Rightarrow> 16 word" where
  "get_u16 a b = push_bit 8 (ucast a) OR ucast b"

definition get_u32 :: "byte \<Rightarrow> byte \<Rightarrow> byte \<Rightarrow> byte \<Rightarrow> 32 word" where
  "get_u32 a b c d =
    push_bit 24 (ucast a) OR push_bit 16 (ucast b) OR push_bit 8 (ucast c) OR ucast d"

definition bytes_of_string :: "string \<Rightarrow> bytes" where
  "bytes_of_string s = map (\<lambda>c. of_nat (of_char c)) s"

definition string_of_bytes :: "bytes \<Rightarrow> string" where
  "string_of_bytes bs = map (\<lambda>b. char_of (unat b)) bs"

subsection \<open>writeFrame and readFrame\<close>

definition writeFrame :: "byte \<Rightarrow> string \<Rightarrow> bytes \<Rightarrow> frame_error + bytes" where
  "writeFrame msgType topic payload =
    (if length topic > 0xFFFF then Inl TopicTooLong
     else
       let totalLen = 1 + 2 + length topic + length payload in
       if totalLen > p2pMaxFrame then Inl (FrameTooLarge totalLen)
       else
         let hdr = put_u32 (of_nat totalLen) @ [msgType] @ put_u16 (of_nat (length topic)) @
                   bytes_of_string topic
         in Inr (hdr @ (if length payload > 0 then payload else [])))"

definition readFull :: "nat \<Rightarrow> bytes \<Rightarrow> frame_error + bytes \<times> bytes" where
  "readFull n r =
    (if n \<le> length r then Inr (take n r, drop n r)
     else if r = [] then Inl EOF else Inl UnexpectedEOF)"

text \<open>The frame and the rest of the stream.\<close>

definition readFrame :: "bytes \<Rightarrow> frame_error + p2pFrame \<times> bytes" where
  "readFrame r =
    (case readFull 4 r of
       Inl e \<Rightarrow> Inl e
     | Inr (hdr, r1) \<Rightarrow>
         let totalLen = get_u32 (hdr ! 0) (hdr ! 1) (hdr ! 2) (hdr ! 3) in
         if totalLen < 3 then Inl (FrameTooSmall (unat totalLen))
         else if unat totalLen > p2pMaxFrame then Inl (FrameTooLarge (unat totalLen))
         else case readFull (unat totalLen) r1 of
           Inl e \<Rightarrow> Inl e
         | Inr (buf, r2) \<Rightarrow>
             let mt = buf ! 0; tlen = unat (get_u16 (buf ! 1) (buf ! 2)) in
             if 3 + tlen > length buf then Inl InvalidTopicLength
             else
               let topic = string_of_bytes (take tlen (drop 3 buf));
                   payload = (if 3 + tlen < length buf then drop (3 + tlen) buf else [])
               in Inr (\<lparr>f_msgType = mt, f_topic = topic, f_payload = payload\<rparr>, r2))"

subsection \<open>Round trips of the parts\<close>

lemma get_put_u16: "get_u16 (ucast (drop_bit 8 w)) (ucast w) = w"
  unfolding get_u16_def by (rule bit_word_eqI) (auto simp: bit_simps)

lemma get_put_u32:
  "get_u32 (ucast (drop_bit 24 w)) (ucast (drop_bit 16 w)) (ucast (drop_bit 8 w)) (ucast w) = w"
  unfolding get_u32_def
  apply (rule bit_word_eqI)
  apply (auto simp: bit_simps)
  subgoal for n by (cases "16 \<le> n") auto
  subgoal for n by (cases "24 \<le> n"; cases "16 \<le> n") auto
  done

lemma get_u16_bound: "unat (get_u16 a b) < 65536"
  using unsigned_less [where w = "get_u16 a b"] by simp

lemma length_bytes_of_string [simp]: "length (bytes_of_string s) = length s"
  by (simp add: bytes_of_string_def)

lemma string_of_bytes_of_string [simp]: "string_of_bytes (bytes_of_string s) = s"
  unfolding string_of_bytes_def bytes_of_string_def map_map
  by (rule map_idI) (simp add: unat_of_nat)

lemma readFull_append [simp]: "length a = n \<Longrightarrow> readFull n (a @ r) = Inr (a, r)"
  by (auto simp: readFull_def)

lemma readFull_Inr:
  "readFull n r = Inr (a, r') \<Longrightarrow> r = a @ r' \<and> length a = n"
  by (auto simp: readFull_def split: if_splits)

text \<open>A frame that was read took exactly the bytes its header announced.\<close>

lemma readFrame_Inr:
  assumes "readFrame r = Inr (f, r')"
  defines "n \<equiv> 3 + length (f_topic f) + length (f_payload f)"
  shows "n \<le> p2pMaxFrame" "4 + n \<le> length r" "r' = drop (4 + n) r"
    "unat (get_u32 (r ! 0) (r ! 1) (r ! 2) (r ! 3)) = n" "length (f_topic f) < 65536"
  using assms unfolding readFrame_def
  by (auto simp: Let_def string_of_bytes_def word_less_nat_alt nth_append
      get_u16_bound dest!: readFull_Inr
      split: sum.splits if_splits prod.splits)

lemma readFrame_shorter: "readFrame r = Inr (f, r') \<Longrightarrow> length r' < length r"
  using readFrame_Inr(2,3) [of r f r'] by simp

subsection \<open>Round trip of frames\<close>

lemma readFrame_bytes:
  assumes len: "length topic \<le> 0xFFFF" and max: "3 + length topic + length payload \<le> p2pMaxFrame"
  shows "readFrame (put_u32 (of_nat (3 + length topic + length payload)) @ mt #
      put_u16 (of_nat (length topic)) @ bytes_of_string topic @ payload @ rest) =
    Inr (\<lparr>f_msgType = mt, f_topic = topic, f_payload = payload\<rparr>, rest)"
proof -
  define w :: "32 word" where "w = of_nat (3 + length topic + length payload)"
  define v :: "16 word" where "v = of_nat (length topic)"
  define body where "body = mt # put_u16 v @ bytes_of_string topic @ payload"
  have uw: "unat w = 3 + length topic + length payload"
    using max unfolding w_def p2pMaxFrame_def unat_of_nat by (intro mod_less) simp
  have uv: "unat v = length topic"
    using len unfolding v_def unat_of_nat by (intro mod_less) simp
  have hd4: "readFull 4 (put_u32 w @ body @ rest) = Inr (put_u32 w, body @ rest)"
    by (rule readFull_append) (simp add: put_u32_def)
  have bd: "readFull (unat w) (body @ rest) = Inr (body, rest)"
    by (rule readFull_append) (simp add: uw body_def put_u16_def)
  have w: "get_u32 (put_u32 w ! 0) (put_u32 w ! 1) (put_u32 w ! 2) (put_u32 w ! 3) = w"
    using get_put_u32 [of w] by (simp add: put_u32_def)
  have v: "get_u16 (body ! 1) (body ! 2) = v"
    using get_put_u16 [of v] by (simp add: body_def put_u16_def)
  have body0: "body ! 0 = mt" "drop 3 body = bytes_of_string topic @ payload"
      "length body = 3 + length topic + length payload"
    by (simp_all add: body_def put_u16_def)
  have body3: "drop (3 + length topic) body = payload"
    using body0(2) by (metis (no_types, opaque_lifting) add.commute append_eq_conv_conj drop_drop
        length_bytes_of_string)
  have "readFrame (put_u32 w @ body @ rest) =
      Inr (\<lparr>f_msgType = mt, f_topic = topic, f_payload = payload\<rparr>, rest)"
    unfolding readFrame_def using max
    by (simp add: hd4 bd [unfolded uw] w v uv uw body0 body3 word_less_nat_alt Let_def
        del: One_nat_def)
  then show ?thesis by (simp add: body_def w_def v_def)
qed

lemma readFrame_writeFrame:
  assumes "writeFrame mt topic payload = Inr bs"
  shows "readFrame (bs @ rest) = Inr (\<lparr>f_msgType = mt, f_topic = topic, f_payload = payload\<rparr>, rest)"
  using assms readFrame_bytes [of topic payload mt rest]
  by (auto simp: writeFrame_def Let_def add.assoc split: if_splits)

text \<open>
  The read loop of \<^verbatim>\<open>serveConn\<close> on a finite stream: the frames before the first error, and
  the error that ended it.
\<close>

function readFrames :: "bytes \<Rightarrow> p2pFrame list \<times> frame_error" where
  "readFrames r =
    (case readFrame r of
       Inl e \<Rightarrow> ([], e)
     | Inr (f, r') \<Rightarrow> (case readFrames r' of (fs, e) \<Rightarrow> (f # fs, e)))"
  by pat_completeness auto
termination
  by (relation "measure length") (auto simp: readFrame_shorter)

declare readFrames.simps [simp del]

fun writeFrames :: "p2pFrame list \<Rightarrow> frame_error + bytes" where
  "writeFrames [] = Inr []"
| "writeFrames (f # fs) =
    (case writeFrame (f_msgType f) (f_topic f) (f_payload f) of
       Inl e \<Rightarrow> Inl e
     | Inr b \<Rightarrow> (case writeFrames fs of Inl e \<Rightarrow> Inl e | Inr bs \<Rightarrow> Inr (b @ bs)))"

lemma readFrames_writeFrames:
  "writeFrames fs = Inr bs \<Longrightarrow> readFrames bs = (fs, EOF)"
proof (induction fs arbitrary: bs)
  case Nil
  then show ?case by (simp add: readFrames.simps [of "[]"] readFrame_def readFull_def)
next
  case (Cons f fs)
  then obtain b bs' where b: "writeFrame (f_msgType f) (f_topic f) (f_payload f) = Inr b"
    and bs': "writeFrames fs = Inr bs'" "bs = b @ bs'"
    by (auto split: sum.splits)
  show ?case
    using readFrame_writeFrame [OF b, of bs'] Cons.IH [OF bs'(1)] bs'(2)
    by (simp add: readFrames.simps [of "b @ bs'"])
qed

subsection \<open>Properties\<close>

lemma writeFrame_length:
  "writeFrame mt topic payload = Inr bs \<Longrightarrow> length bs = 7 + length topic + length payload"
  by (auto simp: writeFrame_def Let_def put_u32_def put_u16_def split: if_splits)

text \<open>
  C30. Frames survive the stream. When a sequence of frames can be written, reading the
  concatenated bytes until the stream ends gives back exactly these frames, topics and payloads
  byte for byte, and then a clean end of file.
\<close>

theorem frames_roundtrip:
  assumes "writeFrames fs = Inr bs"
  shows "readFrames bs = (fs, EOF)"
  using assms by (rule readFrames_writeFrames)

definition sample_frames :: "p2pFrame list" where
  "sample_frames =
    [\<lparr>f_msgType = p2pMsgEvent, f_topic = ''t'', f_payload = [1, 2]\<rparr>,
     \<lparr>f_msgType = p2pMsgSnapReq, f_topic = '''', f_payload = []\<rparr>]"

theorem frames_roundtrip_witness:
  "\<exists>bs. writeFrames sample_frames = Inr bs \<and> length bs = 17 \<and> readFrames bs = (sample_frames, EOF)"
proof -
  obtain bs where "writeFrames sample_frames = Inr bs" "length bs = 17"
    by (simp add: sample_frames_def writeFrame_def p2pMaxFrame_def Let_def put_u32_def put_u16_def)
  with frames_roundtrip show ?thesis by blast
qed

text \<open>
  \<^verbatim>\<open>readFrame\<close> on arbitrary bytes: when it returns a frame, the header announced exactly the
  frame's size, the size is within the 64 MiB limit and the topic within 16 bits, and exactly
  the header and the announced bytes were taken from the stream. No other answer than a frame
  or an error is possible, so no input makes it read past what it was given.
\<close>

theorem readFrame_consumes_announced:
  assumes "readFrame r = Inr (f, r')"
  shows "unat (get_u32 (r ! 0) (r ! 1) (r ! 2) (r ! 3)) = 3 + length (f_topic f) + length (f_payload f) \<and>
    3 + length (f_topic f) + length (f_payload f) \<le> p2pMaxFrame \<and> length (f_topic f) \<le> 0xFFFF \<and>
    r' = drop (4 + (3 + length (f_topic f) + length (f_payload f))) r \<and>
    length r' + 7 + length (f_topic f) + length (f_payload f) = length r"
  using readFrame_Inr [OF assms] by auto

theorem readFrame_consumes_announced_witness:
  "\<exists>f r'. readFrame ([0, 0, 0, 4, 1, 0, 1, 116] @ [9]) = Inr (f, r') \<and> f_topic f = ''t'' \<and> r' = [9]"
proof -
  have u: "get_u32 0 0 0 4 = 4" "get_u16 0 1 = 1" by (simp_all add: get_u32_def get_u16_def)
  let ?f = "\<lparr>f_msgType = 1, f_topic = ''t'', f_payload = []\<rparr>"
  have "readFrame ([0, 0, 0, 4, 1, 0, 1, 116] @ [9]) = Inr (?f, [9])"
    by (simp add: readFrame_def readFull_def u p2pMaxFrame_def string_of_bytes_def char_of_def
        word_less_nat_alt Let_def bit_0)
  with readFrame_consumes_announced [OF this] show ?thesis by auto
qed

text \<open>
  A connection that is cut never yields a frame: reading a strict prefix of a written frame
  fails.
\<close>

theorem cut_frame_is_an_error:
  assumes "writeFrame mt topic payload = Inr bs" "n < length bs"
  shows "\<exists>e. readFrame (take n bs) = Inl e"
proof (cases "readFrame (take n bs)")
  case (Inr fr)
  obtain f r' where fr: "fr = (f, r')" by (cases fr)
  note got = readFrame_Inr [OF Inr [unfolded fr]]
  note full = readFrame_Inr [OF readFrame_writeFrame [OF assms(1), of "[]"]]
  have "4 \<le> n" using got(2) by simp
  then have "unat (get_u32 (bs ! 0) (bs ! 1) (bs ! 2) (bs ! 3)) =
      3 + length (f_topic f) + length (f_payload f)"
    using got(4) by simp
  then have "3 + length (f_topic f) + length (f_payload f) = 3 + length topic + length payload"
    using full(4) by simp
  then have "length bs \<le> n"
    using got(2) writeFrame_length [OF assms(1)] by simp
  with assms(2) show ?thesis by simp
qed auto

theorem cut_frame_is_an_error_witness:
  "\<exists>bs e. writeFrame p2pMsgEvent ''t'' [1, 2] = Inr bs \<and> readFrame (take 9 bs) = Inl e"
proof -
  obtain bs where bs: "writeFrame p2pMsgEvent ''t'' [1, 2] = Inr bs" "length bs = 10"
    by (simp add: writeFrame_def p2pMaxFrame_def Let_def put_u32_def put_u16_def)
  with cut_frame_is_an_error [OF bs(1), of 9] show ?thesis by auto
qed

end
