(* ===== verification/Memory_Transport.thy ===== *)
theory Memory_Transport
  imports Transport_Contract
begin

section \<open>The in-memory transport\<close>

text \<open>
  \<^verbatim>\<open>transport/memory.go\<close>: a broker that keeps, per topic, the list of subscriber channels
  (each with room for 256 messages) and the last snapshot. A channel is a number into a heap
  of channels, so that the subscriber and the broker share it. Sending on a closed channel and
  closing a channel twice make Go panic; \<open>m_panic\<close> records that it happened, and the invariant
  shows that it never does.
\<close>

record mchan =
  ch_buf :: "bytes list"
  ch_closed :: bool

record MemoryTransport =
  m_subs :: "string \<Rightarrow> nat list"
  m_topics :: "string list"
  m_heap :: "nat \<Rightarrow> mchan"
  m_next :: nat
  m_snapshots :: "string \<rightharpoonup> bytes"
  m_onError :: bool
  m_reports :: "goerror list"
  m_closed :: bool
  m_panic :: bool

definition mem_depth :: nat where "mem_depth = 256"

definition errMemClosed :: goerror where
  "errMemClosed = ErrText ''transport: closed''"

definition errMemFull :: goerror where
  "errMemFull = ErrText ''transport: memory subscriber buffer full; dropped message''"

subsection \<open>The operations\<close>

text \<open>\<open>onErr\<close> says whether the option \<^verbatim>\<open>WithMemoryOnError\<close> installed a callback.\<close>

definition NewMemoryTransport :: "bool \<Rightarrow> MemoryTransport" where
  "NewMemoryTransport onErr =
    \<lparr>m_subs = (\<lambda>_. []), m_topics = [], m_heap = (\<lambda>_. \<lparr>ch_buf = [], ch_closed = False\<rparr>),
     m_next = 0, m_snapshots = Map.empty, m_onError = onErr, m_reports = [],
     m_closed = False, m_panic = False\<rparr>"

definition mem_send :: "bytes \<Rightarrow> nat \<Rightarrow> MemoryTransport \<Rightarrow> MemoryTransport" where
  "mem_send msg i m =
    (let c = m_heap m i in
     if ch_closed c then m\<lparr>m_panic := True\<rparr>
     else if length (ch_buf c) < mem_depth
     then m\<lparr>m_heap := (m_heap m)(i := c\<lparr>ch_buf := ch_buf c @ [msg]\<rparr>)\<rparr>
     else if m_onError m then m\<lparr>m_reports := m_reports m @ [errMemFull]\<rparr> else m)"

definition mem_Publish :: "string \<Rightarrow> bytes \<Rightarrow> MemoryTransport \<Rightarrow> goerror option \<times> MemoryTransport" where
  "mem_Publish topic msg m =
    (if m_closed m then (Some errMemClosed, m)
     else (None, fold (mem_send msg) (m_subs m topic) m))"

text \<open>\<open>m_topics\<close> lists the keys of the map \<^verbatim>\<open>subs\<close>.\<close>

definition mem_Subscribe :: "string \<Rightarrow> MemoryTransport \<Rightarrow> (goerror + nat) \<times> MemoryTransport" where
  "mem_Subscribe topic m =
    (if m_closed m then (Inl errMemClosed, m)
     else
       let i = m_next m in
       (Inr i, m\<lparr>m_next := Suc i,
          m_heap := (m_heap m)(i := \<lparr>ch_buf = [], ch_closed = False\<rparr>),
          m_subs := (m_subs m)(topic := m_subs m topic @ [i]),
          m_topics := (if topic \<in> set (m_topics m) then m_topics m else m_topics m @ [topic])\<rparr>))"

definition mem_Snapshot :: "string \<Rightarrow> bytes \<Rightarrow> MemoryTransport \<Rightarrow> goerror option \<times> MemoryTransport" where
  "mem_Snapshot topic data m =
    (if m_closed m then (Some errMemClosed, m)
     else (None, m\<lparr>m_snapshots := (m_snapshots m)(topic \<mapsto> data)\<rparr>))"

definition mem_FetchSnapshot :: "string \<Rightarrow> MemoryTransport \<Rightarrow> (goerror + bytes) \<times> MemoryTransport" where
  "mem_FetchSnapshot topic m =
    (if m_closed m then (Inl errMemClosed, m)
     else case m_snapshots m topic of None \<Rightarrow> (Inr [], m) | Some raw \<Rightarrow> (Inr raw, m))"

definition mem_close_chan :: "nat \<Rightarrow> MemoryTransport \<Rightarrow> MemoryTransport" where
  "mem_close_chan i m =
    (if ch_closed (m_heap m i) then m\<lparr>m_panic := True\<rparr>
     else m\<lparr>m_heap := (m_heap m)(i := (m_heap m i)\<lparr>ch_closed := True\<rparr>)\<rparr>)"

definition mem_Close :: "MemoryTransport \<Rightarrow> goerror option \<times> MemoryTransport" where
  "mem_Close m =
    (if m_closed m then (None, m)
     else
       let m1 = m\<lparr>m_closed := True\<rparr>;
           m2 = fold mem_close_chan (concat (map (m_subs m1) (m_topics m1))) m1
       in (None, m2\<lparr>m_subs := (\<lambda>_. []), m_topics := []\<rparr>))"

text \<open>The reader of a channel: a message, or nothing because the channel is empty.\<close>

definition mem_recv :: "nat \<Rightarrow> MemoryTransport \<Rightarrow> bytes option \<times> MemoryTransport" where
  "mem_recv i m =
    (case ch_buf (m_heap m i) of
       [] \<Rightarrow> (None, m)
     | b # bs \<Rightarrow> (Some b, m\<lparr>m_heap := (m_heap m)(i := (m_heap m i)\<lparr>ch_buf := bs\<rparr>)\<rparr>))"

definition memory_transport :: "MemoryTransport Transport" where
  "memory_transport =
    \<lparr>tr_Publish = mem_Publish, tr_Subscribe = mem_Subscribe, tr_Snapshot = mem_Snapshot,
     tr_FetchSnapshot = mem_FetchSnapshot\<rparr>"

subsection \<open>The invariant\<close>

definition mem_chans :: "MemoryTransport \<Rightarrow> nat list" where
  "mem_chans m = concat (map (m_subs m) (m_topics m))"

text \<open>
  Every subscribed channel is open, was handed out once, and holds at most 256 messages.
\<close>

definition mem_inv :: "MemoryTransport \<Rightarrow> bool" where
  "mem_inv m \<longleftrightarrow> \<not> m_panic m \<and> distinct (m_topics m) \<and> distinct (mem_chans m) \<and>
     (\<forall>topic. topic \<notin> set (m_topics m) \<longrightarrow> m_subs m topic = []) \<and>
     (\<forall>i \<in> set (mem_chans m). i < m_next m \<and> \<not> ch_closed (m_heap m i)) \<and>
     (\<forall>i. length (ch_buf (m_heap m i)) \<le> mem_depth)"

text \<open>What one message does to a channel.\<close>

definition mem_push :: "bytes \<Rightarrow> mchan \<Rightarrow> mchan" where
  "mem_push msg c = (if length (ch_buf c) < mem_depth then c\<lparr>ch_buf := ch_buf c @ [msg]\<rparr> else c)"

lemma mem_send_frame [simp]:
  "m_subs (mem_send b i m) = m_subs m" "m_topics (mem_send b i m) = m_topics m"
  "m_next (mem_send b i m) = m_next m" "m_snapshots (mem_send b i m) = m_snapshots m"
  "m_closed (mem_send b i m) = m_closed m" "m_onError (mem_send b i m) = m_onError m"
  by (simp_all add: mem_send_def Let_def)

lemma mem_sends_frame [simp]:
  "m_subs (fold (mem_send b) is m) = m_subs m" "m_topics (fold (mem_send b) is m) = m_topics m"
  "m_next (fold (mem_send b) is m) = m_next m"
  "m_snapshots (fold (mem_send b) is m) = m_snapshots m"
  "m_closed (fold (mem_send b) is m) = m_closed m"
  by (induction "is" arbitrary: m; simp)+

lemma mem_sends_effect:
  assumes "distinct is" "\<forall>i \<in> set is. \<not> ch_closed (m_heap m i)"
  shows "m_heap (fold (mem_send b) is m) =
      (\<lambda>i. if i \<in> set is then mem_push b (m_heap m i) else m_heap m i) \<and>
    m_panic (fold (mem_send b) is m) = m_panic m"
  using assms
proof (induction "is" arbitrary: m)
  case (Cons i "is")
  have h: "m_heap (mem_send b i m) = (m_heap m)(i := mem_push b (m_heap m i))"
    "m_panic (mem_send b i m) = m_panic m"
    using Cons.prems by (simp_all add: mem_send_def mem_push_def Let_def fun_upd_idem)
  have "\<forall>j \<in> set is. \<not> ch_closed (m_heap (mem_send b i m) j)" using Cons.prems h by auto
  with Cons h show ?case by (auto simp: fun_eq_iff)
qed auto

lemma mem_closes_effect:
  assumes "distinct is" "\<forall>i \<in> set is. \<not> ch_closed (m_heap m i)"
  shows "m_heap (fold mem_close_chan is m) =
      (\<lambda>i. if i \<in> set is then (m_heap m i)\<lparr>ch_closed := True\<rparr> else m_heap m i) \<and>
    m_panic (fold mem_close_chan is m) = m_panic m \<and>
    m_next (fold mem_close_chan is m) = m_next m \<and>
    m_snapshots (fold mem_close_chan is m) = m_snapshots m \<and>
    m_closed (fold mem_close_chan is m) = m_closed m"
  using assms
proof (induction "is" arbitrary: m)
  case (Cons i "is")
  have h: "m_heap (mem_close_chan i m) = (m_heap m)(i := (m_heap m i)\<lparr>ch_closed := True\<rparr>)"
    "m_panic (mem_close_chan i m) = m_panic m" "m_next (mem_close_chan i m) = m_next m"
    "m_snapshots (mem_close_chan i m) = m_snapshots m"
    "m_closed (mem_close_chan i m) = m_closed m"
    using Cons.prems by (simp_all add: mem_close_chan_def)
  have "\<forall>j \<in> set is. \<not> ch_closed (m_heap (mem_close_chan i m) j)" using Cons.prems h by auto
  with Cons h show ?case by (auto simp: fun_eq_iff)
qed auto

lemma mem_subs_chans: "mem_inv m \<Longrightarrow> set (m_subs m topic) \<subseteq> set (mem_chans m)"
  by (cases "topic \<in> set (m_topics m)") (auto simp: mem_inv_def mem_chans_def)

lemma mem_subs_distinct: "mem_inv m \<Longrightarrow> distinct (m_subs m topic)"
  by (cases "topic \<in> set (m_topics m)") (auto simp: mem_inv_def mem_chans_def distinct_concat_iff)

interpretation mem: transport_contract memory_transport "\<lambda>m. \<not> m_closed m" m_snapshots "\<lambda>_ _. True"
  by unfold_locales
     (auto simp: memory_transport_def mem_Publish_def mem_Subscribe_def mem_Snapshot_def
       mem_FetchSnapshot_def Let_def split: option.split)

subsection \<open>Every operation keeps the invariant\<close>

lemma mem_new_inv: "mem_inv (NewMemoryTransport b)"
  by (simp add: mem_inv_def NewMemoryTransport_def mem_chans_def)

lemma mem_publish_effect:
  assumes "mem_inv m"
  shows "m_heap (fold (mem_send b) (m_subs m topic) m) =
      (\<lambda>i. if i \<in> set (m_subs m topic) then mem_push b (m_heap m i) else m_heap m i) \<and>
    m_panic (fold (mem_send b) (m_subs m topic) m) = m_panic m"
  using assms mem_subs_chans [OF assms, of topic] mem_subs_distinct [OF assms, of topic]
  by (intro mem_sends_effect) (auto simp: mem_inv_def)

lemma mem_publish_inv: "mem_inv m \<Longrightarrow> mem_inv (snd (mem_Publish topic b m))"
  using mem_publish_effect [of m b topic]
  by (auto simp: mem_Publish_def mem_inv_def mem_chans_def mem_push_def)

lemma mem_chans_subscribe:
  fixes m :: MemoryTransport and topic :: string and i :: nat
  assumes "mem_inv m"
  defines "m' \<equiv> m\<lparr>m_subs := (m_subs m)(topic := m_subs m topic @ [i]),
      m_topics := (if topic \<in> set (m_topics m) then m_topics m else m_topics m @ [topic])\<rparr>"
  shows "set (mem_chans m') = insert i (set (mem_chans m))"
    and "i \<notin> set (mem_chans m) \<Longrightarrow> distinct (mem_chans m')"
proof -
  have un: "topic \<notin> set (m_topics m) \<Longrightarrow> m_subs m topic = []" using assms(1) by (simp add: mem_inv_def)
  show set: "set (mem_chans m') = insert i (set (mem_chans m))"
    using un by (auto simp: mem_chans_def m'_def)
  assume i: "i \<notin> set (mem_chans m)"
  have d: "distinct (m_topics m)" "distinct (concat (map (m_subs m) (m_topics m)))"
    using assms(1) by (auto simp: mem_inv_def mem_chans_def)
  have upd: "distinct ts \<Longrightarrow> distinct (concat (map (m_subs m) ts)) \<Longrightarrow>
      i \<notin> set (concat (map (m_subs m) ts)) \<Longrightarrow>
      distinct (concat (map ((m_subs m)(topic := m_subs m topic @ [i])) ts))" for ts
    by (induction ts) (auto split: if_splits)
  show "distinct (mem_chans m')"
  proof (cases "topic \<in> set (m_topics m)")
    case True
    then show ?thesis using upd [OF d] i by (simp add: mem_chans_def m'_def)
  next
    case False
    have "map ((m_subs m)(topic := m_subs m topic @ [i])) (m_topics m) = map (m_subs m) (m_topics m)"
      using False by (intro map_cong) auto
    then show ?thesis using False d(2) i un by (simp add: mem_chans_def m'_def)
  qed
qed

lemma mem_subscribe_inv:
  assumes "mem_inv m"
  shows "mem_inv (snd (mem_Subscribe topic m))"
proof (cases "m_closed m")
  case False
  let ?m' = "m\<lparr>m_subs := (m_subs m)(topic := m_subs m topic @ [m_next m]),
      m_topics := (if topic \<in> set (m_topics m) then m_topics m else m_topics m @ [topic])\<rparr>"
  have fresh: "m_next m \<notin> set (mem_chans m)" using assms by (auto simp: mem_inv_def)
  note ch = mem_chans_subscribe [OF assms, where topic = topic and i = "m_next m"]
  have eq: "mem_chans (snd (mem_Subscribe topic m)) = mem_chans ?m'"
    using False by (simp add: mem_Subscribe_def mem_chans_def Let_def)
  show ?thesis
    unfolding mem_inv_def eq ch(1)
    using assms False ch(2) [OF fresh]
    by (auto simp: mem_Subscribe_def Let_def mem_inv_def less_SucI)
qed (simp add: assms mem_Subscribe_def)

lemma mem_snapshot_inv: "mem_inv m \<Longrightarrow> mem_inv (snd (mem_Snapshot topic d m))"
  by (simp add: mem_Snapshot_def mem_inv_def mem_chans_def)

lemma mem_close_inv:
  assumes "mem_inv m"
  shows "mem_inv (snd (mem_Close m))"
proof (cases "m_closed m")
  case False
  let ?m1 = "m\<lparr>m_closed := True\<rparr>"
  have "distinct (mem_chans m)" "\<forall>i \<in> set (mem_chans m). \<not> ch_closed (m_heap ?m1 i)"
    using assms by (auto simp: mem_inv_def)
  note eff = mem_closes_effect [OF this]
  show ?thesis
    using assms False eff by (auto simp: mem_Close_def Let_def mem_inv_def mem_chans_def)
qed (simp add: assms mem_Close_def)

lemma mem_recv_inv: "mem_inv m \<Longrightarrow> mem_inv (snd (mem_recv i m))"
proof -
  assume inv: "mem_inv m"
  show ?thesis
  proof (cases "ch_buf (m_heap m i)")
    case (Cons b bs)
    have "length (b # bs) \<le> mem_depth" using inv Cons unfolding mem_inv_def by metis
    with inv Cons show ?thesis by (auto simp: mem_recv_def mem_inv_def mem_chans_def)
  qed (simp add: mem_recv_def inv)
qed

interpretation membus: message_bus memory_transport "\<lambda>m. mem_inv m \<and> \<not> m_closed m" m_subs
    "\<lambda>m i. ch_buf (m_heap m i)" 256 mem_recv
proof
  fix t :: MemoryTransport and topic raw
  assume t: "mem_inv t \<and> \<not> m_closed t"
  then show "\<exists>t'. tr_Publish memory_transport topic raw t = (None, t') \<and>
      (mem_inv t' \<and> \<not> m_closed t') \<and> m_subs t' = m_subs t \<and>
      (\<lambda>i. ch_buf (m_heap t' i)) = (\<lambda>i. if i \<in> set (m_subs t topic) \<and> length (ch_buf (m_heap t i)) < 256
        then ch_buf (m_heap t i) @ [raw] else ch_buf (m_heap t i))"
    using mem_publish_effect [of t raw topic] mem_publish_inv [of t topic raw]
    by (auto simp: memory_transport_def mem_Publish_def mem_push_def mem_depth_def fun_eq_iff)
next
  fix t :: MemoryTransport and i raw raws
  assume "mem_inv t \<and> \<not> m_closed t" "ch_buf (m_heap t i) = raw # raws"
  then show "\<exists>t'. mem_recv i t = (Some raw, t') \<and> (mem_inv t' \<and> \<not> m_closed t') \<and>
      m_subs t' = m_subs t \<and> (\<lambda>j. ch_buf (m_heap t' j)) = (\<lambda>j. ch_buf (m_heap t j))(i := raws)"
    using mem_recv_inv [of t i] by (auto simp: mem_recv_def fun_eq_iff)
qed (simp_all add: mem_recv_def)

subsection \<open>Properties\<close>

text \<open>
  Fan-out of the in-memory transport. On an open broker \<^verbatim>\<open>Publish\<close> succeeds, appends the
  message to the channel of every subscriber of the topic that has room, leaves a full channel
  and every channel of other topics as they are, and panics in no reachable state.
\<close>

theorem memory_publish_fans_out:
  assumes "mem_inv m" "\<not> m_closed m"
  shows "fst (mem_Publish topic msg m) = None \<and>
    m_heap (snd (mem_Publish topic msg m)) i =
      (if i \<in> set (m_subs m topic) \<and> length (ch_buf (m_heap m i)) < 256
       then (m_heap m i)\<lparr>ch_buf := ch_buf (m_heap m i) @ [msg]\<rparr> else m_heap m i) \<and>
    mem_inv (snd (mem_Publish topic msg m))"
  using assms mem_publish_effect [OF assms(1), of msg topic] mem_publish_inv [OF assms(1), of topic msg]
  by (simp add: mem_Publish_def mem_push_def mem_depth_def)

definition sample_broker :: MemoryTransport where
  "sample_broker = snd (mem_Subscribe ''t'' (NewMemoryTransport True))"

lemma sample_broker_simps:
  "mem_inv sample_broker" "\<not> m_closed sample_broker" "m_subs sample_broker ''t'' = [0]"
  "ch_buf (m_heap sample_broker 0) = []" "m_snapshots sample_broker = Map.empty"
  using mem_subscribe_inv [OF mem_new_inv, of "''t''" True]
  by (simp_all add: sample_broker_def mem_Subscribe_def NewMemoryTransport_def Let_def)

theorem memory_publish_fans_out_witness:
  "ch_buf (m_heap (snd (mem_Publish ''t'' [7] sample_broker)) 0) = [[7]]"
  using memory_publish_fans_out [OF sample_broker_simps(1,2), of "''t''" "[7]" 0]
  by (simp add: sample_broker_simps)

text \<open>
  The broker's invariant: after construction and after every operation no channel was closed
  twice or sent to after its close, every subscribed channel is open and handed out once, and no
  channel holds more than 256 messages. \<^verbatim>\<open>Close\<close> closes every subscriber's channel, after which
  every other method fails without changing anything.
\<close>

theorem memory_invariant:
  assumes "mem_inv m"
  shows "mem_inv (NewMemoryTransport b) \<and> mem_inv (snd (mem_Publish topic msg m)) \<and>
    mem_inv (snd (mem_Subscribe topic m)) \<and> mem_inv (snd (mem_Snapshot topic msg m)) \<and>
    mem_inv (snd (mem_FetchSnapshot topic m)) \<and> mem_inv (snd (mem_recv i m)) \<and>
    mem_inv (snd (mem_Close m)) \<and> m_closed (snd (mem_Close m)) \<and>
    (let c = snd (mem_Close m) in
       mem_Publish topic msg c = (Some errMemClosed, c) \<and>
       mem_Subscribe topic c = (Inl errMemClosed, c) \<and>
       mem_Snapshot topic msg c = (Some errMemClosed, c) \<and>
       mem_FetchSnapshot topic c = (Inl errMemClosed, c) \<and> mem_Close c = (None, c))"
proof -
  have fetch: "snd (mem_FetchSnapshot topic m) = m"
    by (simp add: mem_FetchSnapshot_def split: option.split)
  have "m_closed (snd (mem_Close m))"
  proof (cases "m_closed m")
    case False
    have frame: "m_closed (fold mem_close_chan is m) = m_closed m" for "is" m
      by (induction "is" arbitrary: m) (simp_all add: mem_close_chan_def)
    show ?thesis using False by (simp add: mem_Close_def Let_def frame)
  qed (simp add: mem_Close_def)
  then show ?thesis
    using assms
    by (simp add: fetch mem_new_inv mem_publish_inv mem_subscribe_inv mem_snapshot_inv mem_close_inv
        mem_recv_inv Let_def mem_Publish_def [of _ _ "snd (mem_Close m)"]
        mem_Subscribe_def [of _ "snd (mem_Close m)"] mem_Snapshot_def [of _ _ "snd (mem_Close m)"]
        mem_FetchSnapshot_def [of _ "snd (mem_Close m)"] mem_Close_def [of "snd (mem_Close m)"])
qed

theorem memory_invariant_witness:
  "mem_inv (snd (mem_Close sample_broker)) \<and>
   mem_Publish ''t'' [7] (snd (mem_Close sample_broker)) =
     (Some errMemClosed, snd (mem_Close sample_broker))"
  using memory_invariant [OF sample_broker_simps(1), of True "''t''" "[7]" 0]
  by (simp add: Let_def)

text \<open>
  A restarted or late-joining pod catches up. Over an open in-memory transport, when the
  values and the snapshot can be encoded, persisting succeeds, and a store constructed on the
  topic afterwards starts with exactly the persisted replica: every live entry with its value
  and stamp, every tombstone that has not expired (holding the zero value), nothing else.
\<close>

theorem persisted_replica_is_loaded:
  assumes "json_snap_roundtrip J" "codec_roundtrip (s_codec s)"
    and "range_order ks (s_data s)" "all_encodable (s_codec s) (s_data s)" "utf8_data (s_data s)"
    and "marshalSnap J \<lparr>ws_V = ProtocolVersion, ws_Entries =
      kept_entries (s_codec s) (ttl_cutoff now s) ks (s_data s)\<rparr> = Inr body"
    and "\<not> m_closed t" "s_topic s \<noteq> ''''"
    and "s_codec (apply_options opts (default_store z jc (s_topic s))) = s_codec s"
  shows "\<exists>s' t' s2 t''. persistSnapshot memory_transport J now ks s t = (None, s', t') \<and>
    New z jc J (Inr i) (s_topic s) (Some memory_transport) opts t' = (Inr s2, t'') \<and>
    s_data s2 = (\<lambda>k. case s_data s k of
      None \<Rightarrow> None
    | Some e \<Rightarrow> if expired (ttl_cutoff now s) e then None
                else if e_Tombstone e then Some (e\<lparr>e_Value := z\<rparr>) else Some e)"
proof -
  obtain s' t' where "persistSnapshot memory_transport J now ks s t = (None, s', t')" "\<not> m_closed t'"
    and new: "\<And>t2. \<not> m_closed t2 \<Longrightarrow> m_snapshots t2 (s_topic s) = m_snapshots t' (s_topic s) \<Longrightarrow>
      \<exists>s2 t''. New z jc J (Inr i) (s_topic s) (Some memory_transport) opts t2 = (Inr s2, t'') \<and>
        s_data s2 = (\<lambda>k. case s_data s k of
          None \<Rightarrow> None
        | Some e \<Rightarrow> if expired (ttl_cutoff now s) e then None
                    else if e_Tombstone e then Some (e\<lparr>e_Value := z\<rparr>) else Some e)"
    using mem.restart_loads [OF assms, of i] by auto
  with new [of t'] show ?thesis by blast
qed

definition live_entry :: "string entry" where
  "live_entry = \<lparr>e_Value = ''x'', e_Timestamp = 3, e_Origin = ''p'', e_Tombstone = False, e_Seq = 1\<rparr>"

definition live_store :: "string store" where
  "live_store = (sample_store ''n'')\<lparr>s_data := [''k'' \<mapsto> live_entry]\<rparr>"

lemma live_store_simps [simp]:
  "s_data live_store = [''k'' \<mapsto> live_entry]" "s_codec live_store = sample_codec"
  "s_topic live_store = ''t''"
  by (simp_all add: live_store_def)

theorem persisted_replica_is_loaded_witness:
  "\<exists>s' t' s2 t''. persistSnapshot memory_transport sample_json 9 [''k''] live_store sample_broker =
     (None, s', t') \<and>
   New '''' sample_codec sample_json (Inr ''id'') ''t'' (Some memory_transport) [] t' = (Inr s2, t'') \<and>
   s_data s2 ''k'' = Some live_entry"
proof -
  let ?es = "kept_entries sample_codec (ttl_cutoff 9 live_store) [''k''] [''k'' \<mapsto> live_entry]"
  have "range_order [''k''] (s_data live_store)" "all_encodable (s_codec live_store) (s_data live_store)"
    "utf8_data (s_data live_store)"
    by (simp_all add: range_order_def all_encodable_def utf8_data_def live_entry_def valid_utf8_def
        of_char_def)
  moreover have "marshalSnap sample_json \<lparr>ws_V = ProtocolVersion, ws_Entries = ?es\<rparr> =
      Inr (sample_marshalSnap \<lparr>ws_V = ProtocolVersion, ws_Entries = ?es\<rparr>)"
    using kept_entries_distinct [of "[''k'']" sample_codec "ttl_cutoff 9 live_store" "[''k'' \<mapsto> live_entry]"]
    by (simp add: sample_json_def)
  moreover have "s_codec (apply_options [] (default_store '''' sample_codec ''t'')) = sample_codec"
    by (simp add: apply_options_def default_store_def)
  ultimately obtain s' t' s2 t'' where
      "persistSnapshot memory_transport sample_json 9 [''k''] live_store sample_broker = (None, s', t')"
      "New '''' sample_codec sample_json (Inr ''id'') ''t'' (Some memory_transport) [] t' = (Inr s2, t'')"
      "s_data s2 = (\<lambda>k. case s_data live_store k of
      None \<Rightarrow> None
    | Some e \<Rightarrow> if expired (ttl_cutoff 9 live_store) e then None
                else if e_Tombstone e then Some (e\<lparr>e_Value := ''''\<rparr>) else Some e)"
    using persisted_replica_is_loaded [of sample_json live_store "[''k'']" 9
        "sample_marshalSnap \<lparr>ws_V = ProtocolVersion, ws_Entries = ?es\<rparr>" sample_broker "[]" "''''"
        sample_codec "''id''"] sample_json_snap sample_codec_roundtrip sample_broker_simps(2)
    by auto
  moreover have "\<not> expired (ttl_cutoff 9 live_store) live_entry" "\<not> e_Tombstone live_entry"
    by (simp_all add: expired_def live_entry_def)
  ultimately show ?thesis by auto
qed

end
