(* ===== verification/P2P_Mesh.thy ===== *)
theory P2P_Mesh
  imports P2P_Frame Memory_Transport
begin

section \<open>The P2P transport: peers, connections, fan-out and snapshot requests\<close>

text \<open>
  The state and the operations of \<^verbatim>\<open>P2PTransport\<close> in \<^verbatim>\<open>transport/p2p.go\<close>. What the sockets do
  is an argument: a connection appears when the accept or the dial loop hands one to \<^verbatim>\<open>serveConn\<close>
  (\<open>serveConn_open\<close>), the frames read from it are given to \<open>serveConn_frame\<close>, the frames its
  sender loop takes from the queue leave through \<open>senderLoop_step\<close>, and it disappears with
  \<open>serveConn_done\<close>. Subscriber channels are those of \<open>Memory_Transport\<close> (256 messages).

  A \<^verbatim>\<open>select\<close> with several ready cases takes any of them; where the outcome depends on it the
  operation takes the choice as an argument.

  The two connection callbacks only observe: a call is an entry of \<open>p_calls\<close>. A TLS configuration
  decides how the listener and the dialer wrap a socket; the handshake itself is not modelled.
\<close>

text \<open>
  A connection. The address of the other end is the socket's; \<open>pc_inbound\<close> is the parameter of the
  \<^verbatim>\<open>serveConn\<close> that runs for it.
\<close>

record p2pConn =
  pc_remote :: string
  pc_inbound :: bool
  pc_sendQ :: "p2pFrame list"
  pc_cancelled :: bool

datatype conn_call = OnConnect string bool | OnDisconnect string bool

record P2PTransport =
  p_tls :: bool
  p_listenTLS :: bool
  p_onConnect :: bool
  p_onDisconnect :: bool
  p_calls :: "conn_call list"
  p_dialT :: duration
  p_reconn :: duration
  p_snapTO :: duration
  p_keepAlive :: duration
  p_sendDepth :: nat
  p_onError :: bool
  p_reports :: "goerror list"
  p_closed :: bool
  p_subs :: "string \<rightharpoonup> nat"
  p_heap :: "nat \<Rightarrow> mchan"
  p_next :: nat
  p_snapshots :: "string \<rightharpoonup> bytes"
  p_conns :: "nat list"
  p_cheap :: "nat \<Rightarrow> p2pConn"
  p_nextc :: nat
  p_peers :: "string list"
  p_pending :: "string \<rightharpoonup> nat"
  p_resp :: "nat \<Rightarrow> bytes option"
  p_nextr :: nat

record P2POptions =
  o_Listen :: string
  o_Peers :: "string list"
  o_DialTimeout :: duration
  o_ReconnectInterval :: duration
  o_SnapshotTimeout :: duration
  o_KeepAlivePeriod :: duration
  o_SendQueueDepth :: int
  o_TLSConfig :: bool
  o_OnError :: bool
  o_OnConnect :: bool
  o_OnDisconnect :: bool

definition errP2PClosed :: goerror where "errP2PClosed = ErrText ''transport: closed''"
definition errListenRequired :: goerror where "errListenRequired = ErrText ''transport: P2P Listen required''"
definition errAllFull :: goerror where "errAllFull = ErrText ''transport: all peer queue(s) full''"
definition errSomeFull :: goerror where "errSomeFull = ErrText ''transport: peer queue(s) full''"
definition errQueueFull :: goerror where "errQueueFull = ErrText ''transport: send queue full''"
definition errSubscribed :: goerror where "errSubscribed = ErrText ''transport: already subscribed''"
definition errInFlight :: goerror where "errInFlight = ErrText ''transport: snapshot request already in flight''"
definition errReadFrame :: goerror where "errReadFrame = ErrText ''transport: read frame''"
definition errWriteFrame :: goerror where "errWriteFrame = ErrText ''transport: write frame''"

definition p2p_report :: "goerror \<Rightarrow> P2PTransport \<Rightarrow> P2PTransport" where
  "p2p_report e t = (if p_onError t then t\<lparr>p_reports := p_reports t @ [e]\<rparr> else t)"

definition p2p_isClosed :: "P2PTransport \<Rightarrow> bool" where
  "p2p_isClosed t = p_closed t"

definition set_conn :: "nat \<Rightarrow> p2pConn \<Rightarrow> P2PTransport \<Rightarrow> P2PTransport" where
  "set_conn i c t = t\<lparr>p_cheap := (p_cheap t)(i := c)\<rparr>"

subsection \<open>Connections\<close>

text \<open>\<^verbatim>\<open>closeOnce\<close> makes a second close a no-op.\<close>

definition conn_close :: "nat \<Rightarrow> P2PTransport \<Rightarrow> P2PTransport" where
  "conn_close i t = set_conn i ((p_cheap t i)\<lparr>pc_cancelled := True\<rparr>) t"

text \<open>
  The queue takes \<open>p_sendDepth\<close> frames. When the connection is already cancelled and the queue
  has room both cases of the \<^verbatim>\<open>select\<close> are ready; \<open>pick\<close> says that the send is taken.
\<close>

definition enqueue :: "bool \<Rightarrow> p2pFrame \<Rightarrow> nat \<Rightarrow> P2PTransport \<Rightarrow> bool \<times> P2PTransport" where
  "enqueue pick f i t =
    (let c = p_cheap t i in
     if length (pc_sendQ c) < p_sendDepth t \<and> (\<not> pc_cancelled c \<or> pick)
     then (True, set_conn i (c\<lparr>pc_sendQ := pc_sendQ c @ [f]\<rparr>) t)
     else (False, t))"

definition enqueueOrReport :: "bool \<Rightarrow> p2pFrame \<Rightarrow> nat \<Rightarrow> P2PTransport \<Rightarrow> P2PTransport" where
  "enqueueOrReport pick f i t =
    (case enqueue pick f i t of
       (True, t') \<Rightarrow> t'
     | (False, t') \<Rightarrow> p2p_report errQueueFull t')"

text \<open>\<^verbatim>\<open>if t.onConnect != nil { t.onConnect(remote, inbound) }\<close>, and the same for the other callback.\<close>

definition call_onConnect :: "string \<Rightarrow> bool \<Rightarrow> P2PTransport \<Rightarrow> P2PTransport" where
  "call_onConnect remote inbound t =
    (if p_onConnect t then t\<lparr>p_calls := p_calls t @ [OnConnect remote inbound]\<rparr> else t)"

definition call_onDisconnect :: "string \<Rightarrow> bool \<Rightarrow> P2PTransport \<Rightarrow> P2PTransport" where
  "call_onDisconnect remote inbound t =
    (if p_onDisconnect t then t\<lparr>p_calls := p_calls t @ [OnDisconnect remote inbound]\<rparr> else t)"

text \<open>
  The part of \<^verbatim>\<open>serveConn\<close> under \<^verbatim>\<open>t.mu\<close>: a closed transport refuses the connection (its socket
  is closed and \<^verbatim>\<open>serveConn\<close> returns), any other registers it. The callback runs after the lock
  is released.
\<close>

definition conn_register :: "string \<Rightarrow> bool \<Rightarrow> P2PTransport \<Rightarrow> nat option \<times> P2PTransport" where
  "conn_register remote inbound t =
    (if p2p_isClosed t then (None, t)
     else
       let i = p_nextc t;
           c = \<lparr>pc_remote = remote, pc_inbound = inbound, pc_sendQ = [], pc_cancelled = False\<rparr>
       in (Some i, (set_conn i c t)\<lparr>p_nextc := Suc i, p_conns := p_conns t @ [i]\<rparr>))"

definition serveConn_open :: "string \<Rightarrow> bool \<Rightarrow> P2PTransport \<Rightarrow> nat option \<times> P2PTransport" where
  "serveConn_open remote inbound t =
    (case conn_register remote inbound t of
       (None, t1) \<Rightarrow> (None, t1)
     | (Some i, t1) \<Rightarrow> (Some i, call_onConnect remote inbound t1))"

text \<open>
  The deferred function: it closes the socket, deletes the connection under \<^verbatim>\<open>t.mu\<close>, and calls
  the callback after the lock is released.
\<close>

definition conn_unregister :: "nat \<Rightarrow> P2PTransport \<Rightarrow> P2PTransport" where
  "conn_unregister i t = t\<lparr>p_conns := removeAll i (p_conns t)\<rparr>"

definition serveConn_done :: "nat \<Rightarrow> P2PTransport \<Rightarrow> P2PTransport" where
  "serveConn_done i t =
     call_onDisconnect (pc_remote (p_cheap t i)) (pc_inbound (p_cheap t i))
       (conn_unregister i (conn_close i t))"

lemma serveConn_open_eq:
  "serveConn_open remote inbound t =
    (if p2p_isClosed t then (None, t)
     else
       let i = p_nextc t;
           c = \<lparr>pc_remote = remote, pc_inbound = inbound, pc_sendQ = [], pc_cancelled = False\<rparr>;
           t1 = (set_conn i c t)\<lparr>p_nextc := Suc i, p_conns := p_conns t @ [i]\<rparr>
       in (Some i, call_onConnect remote inbound t1))"
  by (simp add: serveConn_open_def conn_register_def Let_def)

lemma serveConn_done_eq:
  "serveConn_done i t =
    (let t1 = (conn_close i t)\<lparr>p_conns := removeAll i (p_conns t)\<rparr> in
     call_onDisconnect (pc_remote (p_cheap t i)) (pc_inbound (p_cheap t i)) t1)"
  by (simp add: serveConn_done_def conn_unregister_def conn_close_def set_conn_def Let_def)

text \<open>One turn of the sender loop: the bytes that went to the socket, \<open>ok\<close> is what it answered.\<close>

definition senderLoop_step :: "bool \<Rightarrow> nat \<Rightarrow> P2PTransport \<Rightarrow> bytes option \<times> P2PTransport" where
  "senderLoop_step ok i t =
    (case pc_sendQ (p_cheap t i) of
       [] \<Rightarrow> (None, t)
     | f # fs \<Rightarrow>
         let t1 = set_conn i ((p_cheap t i)\<lparr>pc_sendQ := fs\<rparr>) t in
         (case writeFrame (f_msgType f) (f_topic f) (f_payload f) of
            Inr bs \<Rightarrow> if ok then (Some bs, t1)
                      else (None, conn_close i (if p2p_isClosed t1 then t1 else p2p_report errWriteFrame t1))
          | Inl _ \<Rightarrow> (None, conn_close i (if p2p_isClosed t1 then t1 else p2p_report errWriteFrame t1))))"

subsection \<open>Delivery\<close>

text \<open>
  The send blocks while the channel is full and the transport is open: \<^term>\<open>None\<close>. With the
  transport closed the second case of the \<^verbatim>\<open>select\<close> can be taken; \<open>pick\<close> chooses the send.
\<close>

definition deliverEvent :: "bool \<Rightarrow> string \<Rightarrow> bytes \<Rightarrow> P2PTransport \<Rightarrow> P2PTransport option" where
  "deliverEvent pick topic payload t =
    (case p_subs t topic of
       None \<Rightarrow> Some t
     | Some i \<Rightarrow>
         let c = p_heap t i in
         if length (ch_buf c) < mem_depth \<and> (\<not> p2p_isClosed t \<or> pick)
         then Some (t\<lparr>p_heap := (p_heap t)(i := c\<lparr>ch_buf := ch_buf c @ [payload]\<rparr>)\<rparr>)
         else if p2p_isClosed t then Some t else None)"

definition deliverSnapResp :: "string \<Rightarrow> bytes \<Rightarrow> P2PTransport \<Rightarrow> P2PTransport" where
  "deliverSnapResp topic payload t =
    (case p_pending t topic of
       None \<Rightarrow> t
     | Some i \<Rightarrow>
         let t1 = t\<lparr>p_pending := (p_pending t)(topic := None)\<rparr> in
         if p_resp t1 i = None then t1\<lparr>p_resp := (p_resp t1)(i \<mapsto> payload)\<rparr> else t1)"

text \<open>The \<^verbatim>\<open>switch\<close> of \<^verbatim>\<open>serveConn\<close> on a frame that was read from connection \<open>i\<close>.\<close>

definition serveConn_frame :: "bool \<Rightarrow> nat \<Rightarrow> p2pFrame \<Rightarrow> P2PTransport \<Rightarrow> P2PTransport option" where
  "serveConn_frame pick i f t =
    (if f_msgType f = p2pMsgEvent then deliverEvent pick (f_topic f) (f_payload f) t
     else if f_msgType f = p2pMsgSnapReq then
       (let snap = (case p_snapshots t (f_topic f) of None \<Rightarrow> [] | Some b \<Rightarrow> b) in
        Some (enqueueOrReport pick
          \<lparr>f_msgType = p2pMsgSnapResp, f_topic = f_topic f, f_payload = snap\<rparr> i t))
     else if f_msgType f = p2pMsgSnapResp then Some (deliverSnapResp (f_topic f) (f_payload f) t)
     else Some t)"

text \<open>The end of the read loop: an error other than \<^verbatim>\<open>EOF\<close> on an open transport is reported.\<close>

definition serveConn_error :: "frame_error \<Rightarrow> nat \<Rightarrow> P2PTransport \<Rightarrow> P2PTransport" where
  "serveConn_error e i t =
    serveConn_done i (if \<not> p2p_isClosed t \<and> e \<noteq> EOF then p2p_report errReadFrame t else t)"

subsection \<open>Peers\<close>

definition AddPeer :: "string \<Rightarrow> P2PTransport \<Rightarrow> bool \<times> P2PTransport" where
  "AddPeer addr t =
    (if p2p_isClosed t \<or> addr = '''' then (False, t)
     else if addr \<in> set (p_peers t) then (False, t)
     else (True, t\<lparr>p_peers := p_peers t @ [addr]\<rparr>))"

definition RemovePeer :: "string \<Rightarrow> P2PTransport \<Rightarrow> bool \<times> P2PTransport" where
  "RemovePeer addr t =
    (if addr \<notin> set (p_peers t) then (False, t)
     else
       let t1 = t\<lparr>p_peers := removeAll addr (p_peers t)\<rparr>;
           toClose = filter (\<lambda>i. pc_remote (p_cheap t1 i) = addr) (p_conns t1)
       in (True, fold conn_close toClose t1))"

text \<open>The order is undefined; the model returns the order of registration.\<close>

definition Peers :: "P2PTransport \<Rightarrow> string list" where
  "Peers t = p_peers t"

definition NewP2PTransport :: "P2POptions \<Rightarrow> goerror option \<Rightarrow> goerror + P2PTransport" where
  "NewP2PTransport opts listen =
    (if o_Listen opts = '''' then Inl errListenRequired
     else case listen of
       Some e \<Rightarrow> Inl e
     | None \<Rightarrow>
         let depth = (if o_SendQueueDepth opts \<le> 0 then 1024 else nat (o_SendQueueDepth opts));
             t = \<lparr>p_tls = o_TLSConfig opts, p_listenTLS = o_TLSConfig opts,
                  p_onConnect = o_OnConnect opts, p_onDisconnect = o_OnDisconnect opts, p_calls = [],
                  p_dialT = (if o_DialTimeout opts = 0 then 5000000000 else o_DialTimeout opts),
                  p_reconn = (if o_ReconnectInterval opts = 0 then 5000000000
                              else o_ReconnectInterval opts),
                  p_snapTO = (if o_SnapshotTimeout opts = 0 then 2000000000
                              else o_SnapshotTimeout opts),
                  p_keepAlive = (if o_KeepAlivePeriod opts = 0 then 30000000000
                                 else o_KeepAlivePeriod opts),
                  p_sendDepth = depth, p_onError = o_OnError opts, p_reports = [], p_closed = False,
                  p_subs = Map.empty, p_heap = (\<lambda>_. \<lparr>ch_buf = [], ch_closed = False\<rparr>), p_next = 0,
                  p_snapshots = Map.empty, p_conns = [],
                  p_cheap = (\<lambda>_. \<lparr>pc_remote = '''', pc_inbound = False, pc_sendQ = [], pc_cancelled = False\<rparr>),
                  p_nextc = 0, p_peers = [], p_pending = Map.empty, p_resp = (\<lambda>_. None),
                  p_nextr = 0\<rparr>
         in Inr (fold (\<lambda>peer t. snd (AddPeer peer t)) (o_Peers opts) t))"

subsection \<open>Publish, Subscribe, Snapshot\<close>

fun publish_frame :: "(nat \<Rightarrow> bool) \<Rightarrow> p2pFrame \<Rightarrow> nat list \<Rightarrow> nat \<Rightarrow> P2PTransport \<Rightarrow> nat \<times> P2PTransport" where
  "publish_frame picks f [] dropped t = (dropped, t)"
| "publish_frame picks f (i # is) dropped t =
    (case enqueue (picks i) f i t of
       (ok, t') \<Rightarrow> publish_frame picks f is (if ok then dropped else dropped + 1) t')"

definition p2p_Publish :: "(nat \<Rightarrow> bool) \<Rightarrow> string \<Rightarrow> bytes \<Rightarrow> P2PTransport \<Rightarrow> goerror option \<times> P2PTransport" where
  "p2p_Publish picks topic msg t =
    (if p2p_isClosed t then (Some errP2PClosed, t)
     else
       let conns = p_conns t in
       if length conns = 0 then (None, t)
       else
         let frame = \<lparr>f_msgType = p2pMsgEvent, f_topic = topic, f_payload = msg\<rparr>;
             (dropped, t1) = publish_frame picks frame conns 0 t
         in if dropped = length conns then (Some errAllFull, t1)
            else if dropped > 0 then (None, p2p_report errSomeFull t1)
            else (None, t1))"

definition p2p_Subscribe :: "string \<Rightarrow> P2PTransport \<Rightarrow> (goerror + nat) \<times> P2PTransport" where
  "p2p_Subscribe topic t =
    (if p2p_isClosed t then (Inl errP2PClosed, t)
     else if p_subs t topic \<noteq> None then (Inl errSubscribed, t)
     else
       let i = p_next t in
       (Inr i, t\<lparr>p_next := Suc i, p_heap := (p_heap t)(i := \<lparr>ch_buf = [], ch_closed = False\<rparr>),
          p_subs := (p_subs t)(topic \<mapsto> i)\<rparr>))"

definition p2p_Snapshot :: "string \<Rightarrow> bytes \<Rightarrow> P2PTransport \<Rightarrow> goerror option \<times> P2PTransport" where
  "p2p_Snapshot topic data t =
    (if p2p_isClosed t then (Some errP2PClosed, t)
     else (None, t\<lparr>p_snapshots := (p_snapshots t)(topic \<mapsto> data)\<rparr>))"

subsection \<open>FetchSnapshot\<close>

text \<open>
  The request is registered, then every round asks the connections that were not asked yet and
  waits. \<open>fetch_begin\<close> is the registration, \<open>fetch_round\<close> the sends of one round,
  \<open>fetch_result\<close> the case of the \<^verbatim>\<open>select\<close> that receives an answer (\<^term>\<open>None\<close> when there is
  none yet), and \<open>fetch_end\<close> the deferred clean-up.
\<close>

definition fetch_begin :: "string \<Rightarrow> P2PTransport \<Rightarrow> (goerror + nat) \<times> P2PTransport" where
  "fetch_begin topic t =
    (if p2p_isClosed t then (Inl errP2PClosed, t)
     else if p_pending t topic \<noteq> None then (Inl errInFlight, t)
     else
       let i = p_nextr t in
       (Inr i, t\<lparr>p_nextr := Suc i, p_resp := (p_resp t)(i := None),
          p_pending := (p_pending t)(topic \<mapsto> i)\<rparr>))"

definition fetch_round :: "(nat \<Rightarrow> bool) \<Rightarrow> string \<Rightarrow> nat set \<Rightarrow> P2PTransport \<Rightarrow> nat set \<times> P2PTransport" where
  "fetch_round picks topic requested t =
    (let conns = filter (\<lambda>i. i \<notin> requested) (p_conns t);
         f = \<lparr>f_msgType = p2pMsgSnapReq, f_topic = topic, f_payload = []\<rparr>
     in (requested \<union> set conns, fold (\<lambda>i. enqueueOrReport (picks i) f i) conns t))"

definition fetch_result :: "nat \<Rightarrow> P2PTransport \<Rightarrow> bytes option" where
  "fetch_result i t = p_resp t i"

definition fetch_end :: "string \<Rightarrow> P2PTransport \<Rightarrow> P2PTransport" where
  "fetch_end topic t = t\<lparr>p_pending := (p_pending t)(topic := None)\<rparr>"

subsection \<open>Close\<close>

text \<open>
  \<^verbatim>\<open>Close\<close> cancels the context, closes every connection, waits for the goroutines (which
  remove their connections) and then closes the subscriber channels. \<open>topics\<close> is the order in
  which the map of subscribers is ranged over.
\<close>

definition close_sub :: "nat \<Rightarrow> P2PTransport \<Rightarrow> P2PTransport" where
  "close_sub i t = t\<lparr>p_heap := (p_heap t)(i := (p_heap t i)\<lparr>ch_closed := True\<rparr>)\<rparr>"

definition p2p_Close :: "string list \<Rightarrow> P2PTransport \<Rightarrow> goerror option \<times> P2PTransport" where
  "p2p_Close topics t =
    (if p2p_isClosed t then (None, t)
     else
       let t1 = t\<lparr>p_closed := True\<rparr>;
           subs = p_subs t1;
           t2 = fold conn_close (p_conns t1) (t1\<lparr>p_subs := Map.empty\<rparr>);
           t3 = fold serveConn_done (p_conns t1) t2
       in (None, fold (\<lambda>topic t. case subs topic of None \<Rightarrow> t | Some i \<Rightarrow> close_sub i t) topics t3))"

text \<open>
  A socket by its Go type; \<open>TLSConn\<close> has the socket that \<^verbatim>\<open>NetConn\<close> returns. \<^verbatim>\<open>tuneTCP\<close> returns the
  keepalive period it set on the socket, if it set one, and \<open>dial_conn\<close> is the type of socket a
  successful dial returns.
\<close>

datatype net_conn = TCPConn | TLSConn net_conn | OtherConn

definition tuneTCP :: "net_conn \<Rightarrow> P2PTransport \<Rightarrow> duration option" where
  "tuneTCP c t =
    (if p_keepAlive t \<le>s 0 then None
     else
       let tc = (case c of
                   TCPConn \<Rightarrow> True
                 | TLSConn inner \<Rightarrow> (case inner of TCPConn \<Rightarrow> True | _ \<Rightarrow> False)
                 | OtherConn \<Rightarrow> False)
       in if \<not> tc then None else Some (p_keepAlive t))"

definition dial_conn :: "P2PTransport \<Rightarrow> net_conn" where
  "dial_conn t = (if p_tls t then TLSConn TCPConn else TCPConn)"

subsection \<open>The invariant\<close>

text \<open>
  Connection and channel numbers are handed out once, no queue is longer than its depth, no
  subscriber channel holds more than 256 messages, and the channel of a subscription is open.
\<close>

definition p2p_inv :: "P2PTransport \<Rightarrow> bool" where
  "p2p_inv t \<longleftrightarrow> distinct (p_conns t) \<and> distinct (p_peers t) \<and> '''' \<notin> set (p_peers t) \<and>
     (\<forall>i \<in> set (p_conns t). i < p_nextc t) \<and>
     (\<forall>i. length (pc_sendQ (p_cheap t i)) \<le> p_sendDepth t) \<and>
     (\<forall>i. length (ch_buf (p_heap t i)) \<le> mem_depth) \<and>
     (\<forall>topic i. p_subs t topic = Some i \<longrightarrow> i < p_next t \<and> \<not> ch_closed (p_heap t i)) \<and>
     inj_on (p_subs t) (dom (p_subs t))"

lemma set_conn_simps [simp]:
  "p_cheap (set_conn i c t) = (p_cheap t)(i := c)" "p_conns (set_conn i c t) = p_conns t"
  "p_peers (set_conn i c t) = p_peers t" "p_nextc (set_conn i c t) = p_nextc t"
  "p_sendDepth (set_conn i c t) = p_sendDepth t" "p_heap (set_conn i c t) = p_heap t"
  "p_subs (set_conn i c t) = p_subs t" "p_next (set_conn i c t) = p_next t"
  "p_closed (set_conn i c t) = p_closed t" "p_snapshots (set_conn i c t) = p_snapshots t"
  "p_reports (set_conn i c t) = p_reports t" "p_pending (set_conn i c t) = p_pending t"
  "p_resp (set_conn i c t) = p_resp t" "p_onError (set_conn i c t) = p_onError t"
  "p_onConnect (set_conn i c t) = p_onConnect t" "p_onDisconnect (set_conn i c t) = p_onDisconnect t"
  "p_calls (set_conn i c t) = p_calls t"
  by (simp_all add: set_conn_def)

lemma call_frame [simp]:
  "p_cheap (call_onConnect r b t) = p_cheap t" "p_conns (call_onConnect r b t) = p_conns t"
  "p_peers (call_onConnect r b t) = p_peers t" "p_nextc (call_onConnect r b t) = p_nextc t"
  "p_sendDepth (call_onConnect r b t) = p_sendDepth t" "p_heap (call_onConnect r b t) = p_heap t"
  "p_subs (call_onConnect r b t) = p_subs t" "p_next (call_onConnect r b t) = p_next t"
  "p_closed (call_onConnect r b t) = p_closed t"
  "p_cheap (call_onDisconnect r b t) = p_cheap t" "p_conns (call_onDisconnect r b t) = p_conns t"
  "p_peers (call_onDisconnect r b t) = p_peers t" "p_nextc (call_onDisconnect r b t) = p_nextc t"
  "p_sendDepth (call_onDisconnect r b t) = p_sendDepth t" "p_heap (call_onDisconnect r b t) = p_heap t"
  "p_subs (call_onDisconnect r b t) = p_subs t" "p_next (call_onDisconnect r b t) = p_next t"
  "p_closed (call_onDisconnect r b t) = p_closed t"
  by (simp_all add: call_onConnect_def call_onDisconnect_def)

lemma report_inv [simp]: "p2p_inv (p2p_report e t) = p2p_inv t"
  by (simp add: p2p_report_def p2p_inv_def)

lemma p2p_inv_conn:
  "p2p_inv t \<Longrightarrow> length (pc_sendQ c) \<le> p_sendDepth t \<Longrightarrow> p2p_inv (set_conn i c t)"
  by (simp add: p2p_inv_def)

lemma p2p_inv_queue: "p2p_inv t \<Longrightarrow> length (pc_sendQ (p_cheap t i)) \<le> p_sendDepth t"
  by (simp add: p2p_inv_def)

lemma conn_close_inv: "p2p_inv t \<Longrightarrow> p2p_inv (conn_close i t)"
  unfolding conn_close_def by (rule p2p_inv_conn) (simp_all add: p2p_inv_queue)

lemma conn_close_frame [simp]:
  "p_conns (conn_close i t) = p_conns t" "p_peers (conn_close i t) = p_peers t"
  "p_subs (conn_close i t) = p_subs t" "p_heap (conn_close i t) = p_heap t"
  "p_closed (conn_close i t) = p_closed t" "p_next (conn_close i t) = p_next t"
  "p_nextc (conn_close i t) = p_nextc t" "p_sendDepth (conn_close i t) = p_sendDepth t"
  "p_snapshots (conn_close i t) = p_snapshots t"
  by (simp_all add: conn_close_def)

lemma conn_closes_frame [simp]:
  "p_conns (fold conn_close is t) = p_conns t" "p_peers (fold conn_close is t) = p_peers t"
  "p_subs (fold conn_close is t) = p_subs t" "p_heap (fold conn_close is t) = p_heap t"
  "p_closed (fold conn_close is t) = p_closed t" "p_next (fold conn_close is t) = p_next t"
  "p_snapshots (fold conn_close is t) = p_snapshots t"
  by (induction "is" arbitrary: t; simp)+

lemma conn_closes_cancelled:
  "pc_cancelled (p_cheap (fold conn_close is t) i) \<longleftrightarrow> i \<in> set is \<or> pc_cancelled (p_cheap t i)"
  by (induction "is" arbitrary: t) (auto simp: conn_close_def)

lemma conn_closes_inv: "p2p_inv t \<Longrightarrow> p2p_inv (fold conn_close is t)"
  by (induction "is" arbitrary: t) (auto intro: conn_close_inv)

lemma enqueue_inv: "p2p_inv t \<Longrightarrow> p2p_inv (snd (enqueue pick f i t))"
  by (auto simp: enqueue_def Let_def intro: p2p_inv_conn)

lemma enqueueOrReport_inv: "p2p_inv t \<Longrightarrow> p2p_inv (enqueueOrReport pick f i t)"
  using enqueue_inv [of t pick f i]
  by (auto simp: enqueueOrReport_def split: prod.split bool.split)

lemma publish_frame_inv: "p2p_inv t \<Longrightarrow> p2p_inv (snd (publish_frame picks f is d t))"
proof (induction picks f "is" d t rule: publish_frame.induct)
  case (2 picks f i "is" d t)
  then show ?case using enqueue_inv [of t "picks i" f i] by (auto split: prod.split)
qed simp

lemma serveConn_open_inv: "p2p_inv t \<Longrightarrow> p2p_inv (snd (serveConn_open remote inbound t))"
  by (auto simp: serveConn_open_eq p2p_inv_def Let_def less_SucI)

lemma serveConn_done_inv: "p2p_inv t \<Longrightarrow> p2p_inv (serveConn_done i t)"
  using conn_close_inv [of t i] by (auto simp: serveConn_done_eq Let_def p2p_inv_def distinct_removeAll)

lemma senderLoop_inv:
  assumes "p2p_inv t"
  shows "p2p_inv (snd (senderLoop_step ok i t))"
proof (cases "pc_sendQ (p_cheap t i)")
  case (Cons f fs)
  have "length fs \<le> p_sendDepth t" using p2p_inv_queue [OF assms, of i] Cons by simp
  then have "p2p_inv (set_conn i ((p_cheap t i)\<lparr>pc_sendQ := fs\<rparr>) t)"
    by (intro p2p_inv_conn [OF assms]) simp
  with Cons show ?thesis
    by (auto simp: senderLoop_step_def Let_def conn_close_inv split: sum.split)
qed (simp add: senderLoop_step_def assms)

lemma deliverEvent_inv:
  assumes "p2p_inv t" "deliverEvent pick topic payload t = Some t'"
  shows "p2p_inv t'"
  using assms
  by (auto simp: deliverEvent_def p2p_inv_def Let_def split: option.splits if_splits)

lemma deliverSnapResp_inv: "p2p_inv t \<Longrightarrow> p2p_inv (deliverSnapResp topic payload t)"
  by (auto simp: deliverSnapResp_def p2p_inv_def Let_def split: option.split)

lemma serveConn_frame_inv:
  assumes "p2p_inv t" "serveConn_frame pick i f t = Some t'"
  shows "p2p_inv t'"
  using assms deliverEvent_inv [OF assms(1)]
  by (auto simp: serveConn_frame_def Let_def deliverSnapResp_inv enqueueOrReport_inv split: if_splits)

lemma AddPeer_inv: "p2p_inv t \<Longrightarrow> p2p_inv (snd (AddPeer addr t))"
  by (auto simp: AddPeer_def p2p_inv_def)

lemma RemovePeer_inv:
  assumes "p2p_inv t"
  shows "p2p_inv (snd (RemovePeer addr t))"
proof -
  have "p2p_inv (t\<lparr>p_peers := removeAll addr (p_peers t)\<rparr>)"
    using assms by (auto simp: p2p_inv_def distinct_removeAll)
  then show ?thesis by (simp add: RemovePeer_def Let_def conn_closes_inv assms)
qed

lemma p2p_Publish_inv: "p2p_inv t \<Longrightarrow> p2p_inv (snd (p2p_Publish picks topic msg t))"
  using publish_frame_inv [of t picks _ "p_conns t" 0]
  by (auto simp: p2p_Publish_def Let_def case_prod_unfold)

lemma p2p_Subscribe_inv: "p2p_inv t \<Longrightarrow> p2p_inv (snd (p2p_Subscribe topic t))"
  by (auto simp: p2p_Subscribe_def p2p_inv_def Let_def inj_on_def less_SucI dom_def split: if_splits)
     (metis less_irrefl)

lemma p2p_Snapshot_inv: "p2p_inv t \<Longrightarrow> p2p_inv (snd (p2p_Snapshot topic data t))"
  by (simp add: p2p_Snapshot_def p2p_inv_def)

lemma fetch_inv:
  "p2p_inv t \<Longrightarrow> p2p_inv (snd (fetch_begin topic t))"
  "p2p_inv t \<Longrightarrow> p2p_inv (fetch_end topic t)"
  by (simp_all add: fetch_begin_def fetch_end_def p2p_inv_def Let_def)

lemma fold_enqueueOrReport_inv:
  "p2p_inv t \<Longrightarrow> p2p_inv (fold (\<lambda>i. enqueueOrReport (picks i) f i) is t)"
  by (induction "is" arbitrary: t) (auto intro: enqueueOrReport_inv)

lemma fetch_round_inv: "p2p_inv t \<Longrightarrow> p2p_inv (snd (fetch_round picks topic req t))"
  by (simp add: fetch_round_def Let_def fold_enqueueOrReport_inv)

lemma AddPeers_inv: "p2p_inv t \<Longrightarrow> p2p_inv (fold (\<lambda>peer t. snd (AddPeer peer t)) ps t)"
  by (induction ps arbitrary: t) (auto intro: AddPeer_inv)

lemma New_inv: "NewP2PTransport opts listen = Inr t \<Longrightarrow> p2p_inv t"
  by (auto simp: NewP2PTransport_def Let_def p2p_inv_def intro!: AddPeers_inv [unfolded p2p_inv_def, simplified]
      split: if_splits option.splits)

subsection \<open>What publishing does\<close>

definition can_send :: "(nat \<Rightarrow> bool) \<Rightarrow> P2PTransport \<Rightarrow> nat \<Rightarrow> bool" where
  "can_send picks t i \<longleftrightarrow> length (pc_sendQ (p_cheap t i)) < p_sendDepth t \<and>
     (\<not> pc_cancelled (p_cheap t i) \<or> picks i)"

definition push_frame :: "p2pFrame \<Rightarrow> p2pConn \<Rightarrow> p2pConn" where
  "push_frame f c = c\<lparr>pc_sendQ := pc_sendQ c @ [f]\<rparr>"

lemma enqueue_eq:
  "enqueue (picks i) f i t =
    (can_send picks t i, if can_send picks t i then set_conn i (push_frame f (p_cheap t i)) t else t)"
  by (auto simp: enqueue_def can_send_def push_frame_def Let_def)

lemma publish_frame_spec:
  assumes "distinct is"
  shows "publish_frame picks f is d t =
    (d + length (filter (\<lambda>i. \<not> can_send picks t i) is),
     t\<lparr>p_cheap := (\<lambda>i. if i \<in> set is \<and> can_send picks t i then push_frame f (p_cheap t i)
                      else p_cheap t i)\<rparr>)"
  using assms
proof (induction "is" arbitrary: d t)
  case (Cons i "is")
  let ?t = "if can_send picks t i then set_conn i (push_frame f (p_cheap t i)) t else t"
  have nin: "i \<notin> set is" using Cons.prems by simp
  have same: "can_send picks ?t j = can_send picks t j" if "j \<noteq> i" for j
    using that by (simp add: can_send_def)
  have "filter (\<lambda>j. \<not> can_send picks ?t j) is = filter (\<lambda>j. \<not> can_send picks t j) is"
  proof (rule filter_cong [OF refl])
    fix j assume "j \<in> set is"
    with nin have "j \<noteq> i" by auto
    then show "(\<not> can_send picks ?t j) = (\<not> can_send picks t j)" using same by blast
  qed
  moreover have "(\<lambda>j. if j \<in> set is \<and> can_send picks ?t j then push_frame f (p_cheap ?t j) else p_cheap ?t j) =
      (\<lambda>j. if j \<in> set (i # is) \<and> can_send picks t j then push_frame f (p_cheap t j) else p_cheap t j)"
  proof
    fix j
    show "(if j \<in> set is \<and> can_send picks ?t j then push_frame f (p_cheap ?t j) else p_cheap ?t j) =
      (if j \<in> set (i # is) \<and> can_send picks t j then push_frame f (p_cheap t j) else p_cheap t j)"
      using nin same [of j] by (cases "j = i") auto
  qed
  moreover have "?t\<lparr>p_cheap := h\<rparr> = t\<lparr>p_cheap := h\<rparr>" for h by (simp add: set_conn_def)
  ultimately show ?case
    using Cons.IH [of _ ?t] Cons.prems by (simp add: enqueue_eq del: fun_upd_apply)
qed simp

subsection \<open>What closing does\<close>

lemma serveConn_done_frame:
  "p_conns (serveConn_done i t) = removeAll i (p_conns t)"
  "p_subs (serveConn_done i t) = p_subs t" "p_heap (serveConn_done i t) = p_heap t"
  "p_closed (serveConn_done i t) = p_closed t"
  "pc_cancelled (p_cheap (serveConn_done i t) j) \<longleftrightarrow> j = i \<or> pc_cancelled (p_cheap t j)"
  by (simp_all add: serveConn_done_eq Let_def conn_close_def)

lemma serveConn_dones_frame:
  "p_conns (fold serveConn_done is t) = filter (\<lambda>j. j \<notin> set is) (p_conns t)"
  "p_subs (fold serveConn_done is t) = p_subs t" "p_heap (fold serveConn_done is t) = p_heap t"
  "p_closed (fold serveConn_done is t) = p_closed t"
  "pc_cancelled (p_cheap (fold serveConn_done is t) j) \<longleftrightarrow> j \<in> set is \<or> pc_cancelled (p_cheap t j)"
proof -
  show "p_conns (fold serveConn_done is t) = filter (\<lambda>j. j \<notin> set is) (p_conns t)"
    by (induction "is" arbitrary: t)
       (auto simp: serveConn_done_frame removeAll_filter_not_eq intro!: filter_cong)
qed (induction "is" arbitrary: t; auto simp: serveConn_done_frame)+

lemma close_subs_frame:
  fixes subs :: "string \<rightharpoonup> nat" and topics :: "string list" and t :: P2PTransport
  defines "t' \<equiv> fold (\<lambda>topic t. case subs topic of None \<Rightarrow> t | Some i \<Rightarrow> close_sub i t) topics t"
  shows "p_conns t' = p_conns t" "p_cheap t' = p_cheap t" "p_closed t' = p_closed t"
    "ch_closed (p_heap t' i) \<longleftrightarrow> (\<exists>topic \<in> set topics. subs topic = Some i) \<or> ch_closed (p_heap t i)"
  unfolding t'_def
  by (induction topics arbitrary: t; auto simp: close_sub_def split: option.split)+

subsection \<open>Properties\<close>

text \<open>
  \<^verbatim>\<open>Publish\<close> over the mesh. On an open transport the event frame is appended to the send queue
  of every connection that is open and has room, and to no other (a cancelled connection whose
  queue has room is taken to refuse); the call fails exactly when there are connections and none
  took the frame, and with no connection at all it succeeds.
\<close>

theorem p2p_publish_reaches_open_peers:
  assumes "p2p_inv t" "\<not> p_closed t"
    and "\<forall>i \<in> set (p_conns t). pc_cancelled (p_cheap t i) \<longrightarrow> \<not> picks i"
  shows "(fst (p2p_Publish picks topic msg t) = None \<longleftrightarrow>
      p_conns t = [] \<or>
      (\<exists>i \<in> set (p_conns t). length (pc_sendQ (p_cheap t i)) < p_sendDepth t \<and>
         \<not> pc_cancelled (p_cheap t i))) \<and>
    p_cheap (snd (p2p_Publish picks topic msg t)) =
      (\<lambda>i. if i \<in> set (p_conns t) \<and> length (pc_sendQ (p_cheap t i)) < p_sendDepth t \<and>
              \<not> pc_cancelled (p_cheap t i)
           then (p_cheap t i)\<lparr>pc_sendQ := pc_sendQ (p_cheap t i) @
                  [\<lparr>f_msgType = p2pMsgEvent, f_topic = topic, f_payload = msg\<rparr>]\<rparr>
           else p_cheap t i)"
proof -
  have d: "distinct (p_conns t)" using assms(1) by (simp add: p2p_inv_def)
  have cs: "can_send picks t i \<longleftrightarrow> length (pc_sendQ (p_cheap t i)) < p_sendDepth t \<and>
      \<not> pc_cancelled (p_cheap t i)" if "i \<in> set (p_conns t)" for i
    using assms(3) that by (auto simp: can_send_def)
  have all: "length (filter (\<lambda>i. \<not> can_send picks t i) (p_conns t)) = length (p_conns t) \<longleftrightarrow>
      (\<forall>i \<in> set (p_conns t). \<not> can_send picks t i)"
    by (metis (no_types, lifting) filter_True length_filter_less less_irrefl)
  let ?f = "\<lparr>f_msgType = p2pMsgEvent, f_topic = topic, f_payload = msg\<rparr>"
  let ?h = "\<lambda>i. if i \<in> set (p_conns t) \<and> can_send picks t i then push_frame ?f (p_cheap t i) else p_cheap t i"
  have h: "p_cheap (snd (p2p_Publish picks topic msg t)) = ?h"
    using assms(2) by (auto simp: p2p_Publish_def p2p_isClosed_def publish_frame_spec [OF d]
        p2p_report_def Let_def fun_eq_iff)
  have r: "fst (p2p_Publish picks topic msg t) = None \<longleftrightarrow>
      p_conns t = [] \<or> (\<exists>i \<in> set (p_conns t). can_send picks t i)"
    using assms(2) all by (auto simp: p2p_Publish_def p2p_isClosed_def publish_frame_spec [OF d] Let_def)
  show ?thesis
    unfolding h r using cs by (auto simp: fun_eq_iff push_frame_def)
qed

definition sample_mesh :: P2PTransport where
  "sample_mesh = \<lparr>p_tls = False, p_listenTLS = False, p_onConnect = True, p_onDisconnect = True,
     p_calls = [OnConnect ''a:1'' False], p_dialT = 1, p_reconn = 1, p_snapTO = 1, p_keepAlive = 1, p_sendDepth = 1,
     p_onError = True, p_reports = [], p_closed = False, p_subs = Map.empty,
     p_heap = (\<lambda>_. \<lparr>ch_buf = [], ch_closed = False\<rparr>), p_next = 0, p_snapshots = [''t'' \<mapsto> [7]],
     p_conns = [0], p_cheap = (\<lambda>_. \<lparr>pc_remote = ''a:1'', pc_inbound = False, pc_sendQ = [], pc_cancelled = False\<rparr>),
     p_nextc = 1, p_peers = [''a:1''], p_pending = Map.empty, p_resp = (\<lambda>_. None), p_nextr = 0\<rparr>"

lemma sample_mesh_inv: "p2p_inv sample_mesh"
  by (simp add: sample_mesh_def p2p_inv_def)

theorem p2p_publish_reaches_open_peers_witness:
  "fst (p2p_Publish (\<lambda>_. False) ''t'' [9] sample_mesh) = None \<and>
   pc_sendQ (p_cheap (snd (p2p_Publish (\<lambda>_. False) ''t'' [9] sample_mesh)) 0) =
     [\<lparr>f_msgType = p2pMsgEvent, f_topic = ''t'', f_payload = [9]\<rparr>]"
  using p2p_publish_reaches_open_peers [OF sample_mesh_inv, of "\<lambda>_. False" "''t''" "[9]"]
  by (simp add: sample_mesh_def)

text \<open>
  The invariant of the mesh: queues never exceed the configured depth, subscriber channels
  never hold more than 256 messages, connections and peers are registered once, and a
  subscription's channel is open. A new transport has it and every operation keeps it.
\<close>

theorem p2p_invariant:
  assumes "p2p_inv t"
  shows "(\<forall>opts l t0. NewP2PTransport opts l = Inr t0 \<longrightarrow> p2p_inv t0) \<and>
    p2p_inv (snd (AddPeer addr t)) \<and> p2p_inv (snd (RemovePeer addr t)) \<and>
    p2p_inv (snd (serveConn_open addr inbound t)) \<and> p2p_inv (serveConn_done i t) \<and>
    p2p_inv (snd (senderLoop_step ok i t)) \<and>
    (\<forall>f t'. serveConn_frame pick i f t = Some t' \<longrightarrow> p2p_inv t') \<and>
    p2p_inv (snd (p2p_Publish picks topic msg t)) \<and> p2p_inv (snd (p2p_Subscribe topic t)) \<and>
    p2p_inv (snd (p2p_Snapshot topic msg t)) \<and> p2p_inv (snd (fetch_begin topic t)) \<and>
    p2p_inv (snd (fetch_round picks topic req t)) \<and> p2p_inv (fetch_end topic t)"
  using assms
  by (intro conjI allI impI)
     (blast intro: New_inv AddPeer_inv RemovePeer_inv serveConn_open_inv serveConn_done_inv
       senderLoop_inv serveConn_frame_inv p2p_Publish_inv p2p_Subscribe_inv p2p_Snapshot_inv
       fetch_inv fetch_round_inv)+

theorem p2p_invariant_witness:
  "p2p_inv (snd (p2p_Publish (\<lambda>_. True) ''t'' [9] (snd (p2p_Publish (\<lambda>_. True) ''t'' [8] sample_mesh))))"
proof -
  have "p2p_inv (snd (p2p_Publish (\<lambda>_. True) ''t'' [8] sample_mesh))"
    using p2p_invariant [OF sample_mesh_inv, where picks = "\<lambda>_. True" and topic = "''t''" and msg = "[8]"]
    by blast
  then show ?thesis by (rule p2p_invariant [THEN conjunct2, THEN conjunct2, THEN conjunct2,
        THEN conjunct2, THEN conjunct2, THEN conjunct2, THEN conjunct2, THEN conjunct1])
qed

text \<open>
  The snapshot exchange. A peer that gets a snapshot request for a topic queues the answer
  with its snapshot of the topic, or an empty one when it has none. At the requester the first
  answer is the result of the request and every later answer is dropped, also when the first one
  was empty: \<^verbatim>\<open>FetchSnapshot\<close> then reports no snapshot although another peer has one.
\<close>

theorem first_snapshot_answer_wins:
  assumes "\<not> p_closed a" "p_pending a topic = None"
    and "length (pc_sendQ (p_cheap b j)) < p_sendDepth b" "\<not> pc_cancelled (p_cheap b j)"
  shows "\<exists>r a1 b1. fetch_begin topic a = (Inr r, a1) \<and>
    serveConn_frame pick j \<lparr>f_msgType = p2pMsgSnapReq, f_topic = topic, f_payload = []\<rparr> b = Some b1 \<and>
    pc_sendQ (p_cheap b1 j) = pc_sendQ (p_cheap b j) @
      [\<lparr>f_msgType = p2pMsgSnapResp, f_topic = topic,
        f_payload = (case p_snapshots b topic of None \<Rightarrow> [] | Some s \<Rightarrow> s)\<rparr>] \<and>
    fetch_result r a1 = None \<and>
    fetch_result r (deliverSnapResp topic s1 a1) = Some s1 \<and>
    fetch_result r (deliverSnapResp topic s2 (deliverSnapResp topic s1 a1)) = Some s1"
  using assms
  by (simp add: fetch_begin_def p2p_isClosed_def serveConn_frame_def p2pMsgSnapReq_def
      p2pMsgEvent_def p2pMsgSnapResp_def enqueueOrReport_def enqueue_def Let_def deliverSnapResp_def
      fetch_result_def)

theorem first_snapshot_answer_wins_witness:
  "\<exists>r a1. fetch_begin ''t'' sample_mesh = (Inr r, a1) \<and>
     fetch_result r (deliverSnapResp ''t'' [7] (deliverSnapResp ''t'' [] a1)) = Some []"
  using first_snapshot_answer_wins [of sample_mesh "''t''" sample_mesh 0 True "[]" "[7]"]
  by (auto simp: sample_mesh_def)

text \<open>
  \<^verbatim>\<open>Close\<close> of the mesh cancels and removes every connection and closes the channel of every
  subscription; after it a second \<^verbatim>\<open>Close\<close> does nothing and publishing, subscribing, storing a
  snapshot and requesting one fail without changing anything.
\<close>

theorem p2p_Close_shuts_down:
  assumes "\<not> p_closed t" "set topics = dom (p_subs t)"
  shows "p_closed (snd (p2p_Close topics t)) \<and> p_conns (snd (p2p_Close topics t)) = [] \<and>
    (\<forall>i \<in> set (p_conns t). pc_cancelled (p_cheap (snd (p2p_Close topics t)) i)) \<and>
    (\<forall>topic i. p_subs t topic = Some i \<longrightarrow> ch_closed (p_heap (snd (p2p_Close topics t)) i)) \<and>
    (let c = snd (p2p_Close topics t) in
       p2p_Close topics c = (None, c) \<and> p2p_Publish picks tp msg c = (Some errP2PClosed, c) \<and>
       p2p_Subscribe tp c = (Inl errP2PClosed, c) \<and> p2p_Snapshot tp msg c = (Some errP2PClosed, c) \<and>
       fetch_begin tp c = (Inl errP2PClosed, c))"
proof -
  let ?t2 = "fold conn_close (p_conns t) (t\<lparr>p_closed := True, p_subs := Map.empty\<rparr>)"
  let ?t3 = "fold serveConn_done (p_conns t) ?t2"
  let ?c = "fold (\<lambda>topic t'. case p_subs t topic of None \<Rightarrow> t' | Some i \<Rightarrow> close_sub i t') topics ?t3"
  have c: "snd (p2p_Close topics t) = ?c"
    using assms(1) by (simp add: p2p_Close_def p2p_isClosed_def Let_def)
  have "p_closed ?c" "p_conns ?c = []"
    by (simp_all add: close_subs_frame serveConn_dones_frame filter_False)
  moreover have "\<forall>i \<in> set (p_conns t). pc_cancelled (p_cheap ?c i)"
    by (simp add: close_subs_frame serveConn_dones_frame)
  moreover have "\<forall>topic i. p_subs t topic = Some i \<longrightarrow> ch_closed (p_heap ?c i)"
    using assms(2) by (auto simp: close_subs_frame)
  ultimately show ?thesis
    unfolding c Let_def
    by (simp add: p2p_Close_def [of _ ?c] p2p_Publish_def [of _ _ _ ?c] p2p_Subscribe_def [of _ ?c]
        p2p_Snapshot_def [of _ _ ?c] fetch_begin_def [of _ ?c] p2p_isClosed_def)
qed

theorem p2p_Close_shuts_down_witness:
  "p_conns (snd (p2p_Close [] sample_mesh)) = [] \<and>
   pc_cancelled (p_cheap (snd (p2p_Close [] sample_mesh)) 0)"
  using p2p_Close_shuts_down [of sample_mesh "[]" "\<lambda>_. True" "''t''" "[]"]
  by (simp add: sample_mesh_def)

end
