(* ===== verification/Discovery.thy ===== *)
theory Discovery
  imports P2P_Mesh
begin

section \<open>DNS discovery and reconciliation of the peer set\<close>

text \<open>
  \<^verbatim>\<open>transport/discovery.go\<close>: the checks and one turn of \<^verbatim>\<open>DNSDiscoverer.Run\<close>, and \<^verbatim>\<open>SyncPeers\<close>.
  The resolver is not part of the repository: a turn takes what it answered. The turns of the
  loop are the elements of a list of answers.
\<close>

record DNSDiscoverer =
  dd_Host :: string
  dd_Port :: int
  dd_Self :: string
  dd_OnError :: bool

datatype dns_error = HostRequired | PortRequired | SyncNil

text \<open>\<^verbatim>\<open>strconv.Itoa\<close> on the positive ports that pass the check.\<close>

function dec_digits :: "nat \<Rightarrow> string" where
  "dec_digits n =
    (if n < 10 then [char_of (48 + n)] else dec_digits (n div 10) @ [char_of (48 + n mod 10)])"
  by pat_completeness auto
termination
  by (relation "measure id") auto

declare dec_digits.simps [simp del]

text \<open>\<^verbatim>\<open>net.JoinHostPort\<close>: a host with a colon (IPv6) goes in brackets.\<close>

definition JoinHostPort :: "string \<Rightarrow> int \<Rightarrow> string" where
  "JoinHostPort host port =
    (if CHR '':'' \<in> set host then ''['' @ host @ '']:'' @ dec_digits (nat port)
     else host @ '':'' @ dec_digits (nat port))"

definition SyncPeers :: "string list \<Rightarrow> P2PTransport \<Rightarrow> P2PTransport" where
  "SyncPeers peers t =
    (let wanted = remdups peers;
         t1 = fold (\<lambda>existing t. if existing \<notin> set wanted then snd (RemovePeer existing t) else t)
                (Peers t) t
     in fold (\<lambda>p t. snd (AddPeer p t)) wanted t1)"

definition Run_checks :: "DNSDiscoverer \<Rightarrow> bool \<Rightarrow> dns_error option" where
  "Run_checks d syncNil =
    (if dd_Host d = '''' then Some HostRequired
     else if dd_Port d \<le> 0 then Some PortRequired
     else if syncNil then Some SyncNil
     else None)"

definition discovered :: "DNSDiscoverer \<Rightarrow> string list \<Rightarrow> string list" where
  "discovered d addrs =
    filter (\<lambda>peer. peer \<noteq> dd_Self d) (map (\<lambda>a. JoinHostPort a (dd_Port d)) addrs)"

text \<open>
  One turn: the errors reported so far, and the transport. An error with no callback falls
  through both cases of the \<^verbatim>\<open>switch\<close>.
\<close>

definition Run_turn :: "DNSDiscoverer \<Rightarrow> goerror + string list \<Rightarrow> goerror list \<times> P2PTransport
    \<Rightarrow> goerror list \<times> P2PTransport" where
  "Run_turn d answer st =
    (case answer of
       Inl e \<Rightarrow> if dd_OnError d then (fst st @ [e], snd st) else st
     | Inr addrs \<Rightarrow> (fst st, SyncPeers (discovered d addrs) (snd st)))"

definition Run :: "DNSDiscoverer \<Rightarrow> (goerror + string list) list \<Rightarrow> goerror list \<times> P2PTransport
    \<Rightarrow> goerror list \<times> P2PTransport" where
  "Run d answers st = fold (Run_turn d) answers st"

subsection \<open>The peer set after a reconciliation\<close>

lemma RemovePeer_peers [simp]: "p_peers (snd (RemovePeer a t)) = removeAll a (p_peers t)"
  by (auto simp: RemovePeer_def Let_def removeAll_id)

lemma RemovePeer_closed [simp]: "p_closed (snd (RemovePeer a t)) = p_closed t"
  by (auto simp: RemovePeer_def Let_def)

lemma AddPeer_peers:
  "set (p_peers (snd (AddPeer a t))) =
    (if p_closed t \<or> a = '''' then set (p_peers t) else insert a (set (p_peers t)))"
  by (auto simp: AddPeer_def p2p_isClosed_def)

lemma AddPeer_closed [simp]: "p_closed (snd (AddPeer a t)) = p_closed t"
  by (simp add: AddPeer_def)

lemma AddPeers_peers:
  "\<not> p_closed t \<Longrightarrow> set (p_peers (fold (\<lambda>p t. snd (AddPeer p t)) ps t)) =
    set (p_peers t) \<union> (set ps - {''''})"
  by (induction ps arbitrary: t) (auto simp: AddPeer_peers)

lemma remove_unwanted:
  defines "rm \<equiv> \<lambda>wanted existing t. if existing \<notin> wanted then snd (RemovePeer existing t) else t"
  shows "set (p_peers (fold (rm wanted) es t)) = {p \<in> set (p_peers t). p \<in> set es \<longrightarrow> p \<in> wanted}"
    "p_closed (fold (rm wanted) es t) = p_closed t"
proof -
  show "set (p_peers (fold (rm wanted) es t)) = {p \<in> set (p_peers t). p \<in> set es \<longrightarrow> p \<in> wanted}"
    by (induction es arbitrary: t) (auto simp: rm_def)
  show "p_closed (fold (rm wanted) es t) = p_closed t"
    by (induction es arbitrary: t) (auto simp: rm_def)
qed

lemma SyncPeers_peers:
  assumes "\<not> p_closed t" "'''' \<notin> set (p_peers t)"
  shows "set (Peers (SyncPeers ps t)) = set ps - {''''}"
proof -
  let ?t1 = "fold (\<lambda>existing t. if existing \<notin> set (remdups ps) then snd (RemovePeer existing t) else t)
      (Peers t) t"
  have "set (p_peers ?t1) = {p \<in> set (p_peers t). p \<in> set ps}" "\<not> p_closed ?t1"
    using remove_unwanted [of "set (remdups ps)" "Peers t" t] assms(1) by (auto simp: Peers_def)
  then show ?thesis
    using assms(2) by (auto simp: SyncPeers_def Peers_def Let_def AddPeers_peers)
qed

lemma SyncPeers_inv:
  assumes "p2p_inv t"
  shows "p2p_inv (SyncPeers ps t)"
proof -
  have "p2p_inv (fold (\<lambda>existing t. if existing \<notin> W then snd (RemovePeer existing t) else t) es t)"
    for W es using assms by (induction es arbitrary: t) (auto intro: RemovePeer_inv)
  then show ?thesis by (simp add: SyncPeers_def Let_def AddPeers_inv)
qed

lemma SyncPeers_closed [simp]: "p_closed (SyncPeers ps t) = p_closed t"
proof -
  have "p_closed (fold (\<lambda>p t. snd (AddPeer p t)) ps t) = p_closed t" for ps t
    by (induction ps arbitrary: t) simp_all
  then show ?thesis by (simp add: SyncPeers_def Let_def remove_unwanted(2))
qed

subsection \<open>Properties\<close>

text \<open>
  Reconciliation. After \<^verbatim>\<open>SyncPeers\<close> on an open transport the configured peers are exactly
  the wanted ones (the empty address is never one), whatever they were before; doing it again
  changes nothing. A second discoverer on the same transport therefore removes every peer of the
  first: after both have reported, only the last one's peers are left.
\<close>

theorem SyncPeers_reconciles:
  assumes "p2p_inv t" "\<not> p_closed t"
  shows "set (Peers (SyncPeers ps t)) = set ps - {''''} \<and>
    set (Peers (SyncPeers ps (SyncPeers ps t))) = set (Peers (SyncPeers ps t)) \<and>
    set (Peers (SyncPeers qs (SyncPeers ps t))) = set qs - {''''} \<and>
    p2p_inv (SyncPeers ps t)"
proof -
  have inv: "p2p_inv (SyncPeers ps t)" by (rule SyncPeers_inv [OF assms(1)])
  have e: "'''' \<notin> set (p_peers t)" "'''' \<notin> set (p_peers (SyncPeers ps t))"
    using assms(1) inv by (simp_all add: p2p_inv_def)
  show ?thesis
    using SyncPeers_peers [OF assms(2) e(1)] SyncPeers_peers [OF _ e(2)] assms(2) inv by simp
qed

theorem SyncPeers_reconciles_witness:
  "set (Peers (SyncPeers [''b:1''] (SyncPeers [''c:1''] sample_mesh))) = {''b:1''}"
  using SyncPeers_reconciles [OF sample_mesh_inv, of "[''c:1'']" "[''b:1'']"]
  by (simp add: sample_mesh_def)

text \<open>
  C36. Discovery. After a turn in which the resolver answered, the peers of an open transport are
  the resolved addresses with the port, less the pod itself; a turn in which it failed changes
  no peer, so that an outage of the resolver never tears the mesh down.
\<close>

theorem discovery_tracks_resolver:
  assumes "p2p_inv t" "\<not> p_closed t"
  shows "set (Peers (snd (Run d (as @ [Inr addrs]) (errs, t)))) =
      {p. p \<noteq> dd_Self d \<and> (\<exists>a \<in> set addrs. p = JoinHostPort a (dd_Port d))} \<and>
    snd (Run d (as @ [Inl e]) (errs, t)) = snd (Run d as (errs, t))"
proof -
  have run: "p2p_inv (snd (Run d as st)) \<and> \<not> p_closed (snd (Run d as st))"
    if "p2p_inv (snd st)" "\<not> p_closed (snd st)" for st
    using that
  proof (induction as arbitrary: st)
    case (Cons a as)
    have "p2p_inv (snd (Run_turn d a st)) \<and> \<not> p_closed (snd (Run_turn d a st))"
      using Cons.prems by (auto simp: Run_turn_def SyncPeers_inv split: sum.split)
    with Cons.IH [of "Run_turn d a st"] show ?case by (simp add: Run_def)
  qed (simp add: Run_def)
  let ?t = "snd (Run d as (errs, t))"
  have t: "p2p_inv ?t" "\<not> p_closed ?t" using run [of "(errs, t)"] assms by auto
  then have "'''' \<notin> set (p_peers ?t)" by (simp add: p2p_inv_def)
  note sp = SyncPeers_peers [OF t(2) this, of "discovered d addrs"]
  have "JoinHostPort a p \<noteq> ''''" for a p by (simp add: JoinHostPort_def)
  then have "set (discovered d addrs) - {''''} =
      {p. p \<noteq> dd_Self d \<and> (\<exists>a \<in> set addrs. p = JoinHostPort a (dd_Port d))}"
    by (auto simp: discovered_def)
  with sp show ?thesis by (auto simp: Run_def Run_turn_def)
qed

theorem discovery_tracks_resolver_witness:
  "set (Peers (snd (Run \<lparr>dd_Host = ''h'', dd_Port = 9, dd_Self = ''me:9'', dd_OnError = True\<rparr>
     [Inl bad_input, Inr [''10.0.0.1'', ''me'']] ([], sample_mesh)))) = {''10.0.0.1:9''}"
proof -
  let ?d = "\<lparr>dd_Host = ''h'', dd_Port = 9, dd_Self = ''me:9'', dd_OnError = True\<rparr>"
  have j: "JoinHostPort ''10.0.0.1'' 9 = ''10.0.0.1:9''" "JoinHostPort ''me'' 9 = ''me:9''"
    by (simp_all add: JoinHostPort_def dec_digits.simps char_of_def bit_0 bit_Suc)
  have "\<not> p_closed sample_mesh" by (simp add: sample_mesh_def)
  from discovery_tracks_resolver [OF sample_mesh_inv this, of ?d "[Inl bad_input]"
      "[''10.0.0.1'', ''me'']" "[]" bad_input]
  have "set (Peers (snd (Run ?d ([Inl bad_input] @ [Inr [''10.0.0.1'', ''me'']]) ([], sample_mesh)))) =
      {p. p \<noteq> ''me:9'' \<and> (\<exists>a \<in> {''10.0.0.1'', ''me''}. p = JoinHostPort a 9)}"
    by simp
  also have "\<dots> = {''10.0.0.1:9''}" using j by auto
  finally show ?thesis by simp
qed

text \<open>
  The construction defaults of the P2P transport. An empty listen address is refused; a zero
  keepalive period does not turn keepalive off but becomes 30 seconds, only a negative one turns
  it off, and a dialled socket gets the period also when it is wrapped in TLS; with a TLS
  configuration both the listener and the dialer use it; a send queue depth that is not positive
  becomes 1024.
\<close>

theorem p2p_defaults:
  assumes "o_Listen opts \<noteq> ''''"
  shows "\<exists>t. NewP2PTransport opts None = Inr t \<and>
    NewP2PTransport (opts\<lparr>o_Listen := ''''\<rparr>) l = Inl errListenRequired \<and>
    p_tls t = o_TLSConfig opts \<and> p_listenTLS t = o_TLSConfig opts \<and>
    tuneTCP (dial_conn t) t =
      (if o_KeepAlivePeriod opts = 0 then Some 30000000000
       else if 0 <s o_KeepAlivePeriod opts then Some (o_KeepAlivePeriod opts) else None) \<and>
    p_sendDepth t = (if o_SendQueueDepth opts \<le> 0 then 1024 else nat (o_SendQueueDepth opts)) \<and>
    set (Peers t) = set (o_Peers opts) - {''''}"
proof -
  have add: "p_keepAlive (fold (\<lambda>p t. snd (AddPeer p t)) ps t) = p_keepAlive t \<and>
      p_sendDepth (fold (\<lambda>p t. snd (AddPeer p t)) ps t) = p_sendDepth t \<and>
      p_tls (fold (\<lambda>p t. snd (AddPeer p t)) ps t) = p_tls t \<and>
      p_listenTLS (fold (\<lambda>p t. snd (AddPeer p t)) ps t) = p_listenTLS t" for ps t
    by (induction ps arbitrary: t) (simp_all add: AddPeer_def)
  have sl: "\<not> w \<le>s 0 \<longleftrightarrow> 0 <s w" for w :: duration by (auto simp: word_sle_eq word_sless_alt)
  show ?thesis
    using assms by (auto simp: NewP2PTransport_def Let_def tuneTCP_def dial_conn_def add Peers_def
        AddPeers_peers sl word_sless_alt word_sle_eq)
qed

theorem p2p_defaults_witness:
  "\<exists>t. NewP2PTransport \<lparr>o_Listen = '':0'', o_Peers = [], o_DialTimeout = 0, o_ReconnectInterval = 0,
       o_SnapshotTimeout = 0, o_KeepAlivePeriod = 0, o_SendQueueDepth = 0, o_TLSConfig = True,
       o_OnError = False, o_OnConnect = False, o_OnDisconnect = False\<rparr> None = Inr t \<and>
     tuneTCP (TLSConn TCPConn) t = Some 30000000000 \<and> p_sendDepth t = 1024"
  using p2p_defaults [of "\<lparr>o_Listen = '':0'', o_Peers = [], o_DialTimeout = 0, o_ReconnectInterval = 0,
       o_SnapshotTimeout = 0, o_KeepAlivePeriod = 0, o_SendQueueDepth = 0, o_TLSConfig = True,
       o_OnError = False, o_OnConnect = False, o_OnDisconnect = False\<rparr>" None]
  by (auto simp: dial_conn_def)

end
