(* ===== verification/Lifecycle.thy ===== *)
theory Lifecycle
  imports Store_Steps
begin

section \<open>Reads, seeding, shutdown and the snapshot loop\<close>

text \<open>
  The views \<^verbatim>\<open>Keys\<close> and \<^verbatim>\<open>Snapshot\<close> against \<^verbatim>\<open>Get\<close>, \<^verbatim>\<open>Seed\<close>, what \<^verbatim>\<open>Close\<close> leaves behind,
  and the machine of \<^verbatim>\<open>snapshotLoop\<close>.
\<close>

subsection \<open>Views\<close>

lemma Get_view:
  "fst (Get k s) = (case s_data s k of
     None \<Rightarrow> (s_zero s, False)
   | Some e \<Rightarrow> if e_Tombstone e then (s_zero s, False) else (e_Value e, True))"
  by (simp add: Get_def Let_def split: option.split)

lemma Snapshot_loop_view:
  "distinct ks \<Longrightarrow> Snapshot_loop ks s out k =
    (if k \<in> set ks \<and> prev_live (s_data s k) then map_option e_Value (s_data s k) else out k)"
proof (induction ks arbitrary: out)
  case (Cons k' ks)
  then show ?case by (cases "s_data s k'") (auto split: if_splits)
qed simp

lemma length_Keys:
  assumes "range_order ks (s_data s)"
  shows "length (Keys ks s) = live_count (s_data s)"
proof -
  have "distinct (Keys ks s)" using assms by (simp add: Keys_def range_order_def)
  moreover have "set (Keys ks s) = {k. \<exists>e. s_data s k = Some e \<and> \<not> e_Tombstone e}"
    using assms by (auto simp: Keys_def range_order_def prev_live_def split: option.splits)
  ultimately show ?thesis
    using distinct_card [of "Keys ks s"] by (simp add: live_count_def count_in_def)
qed

subsection \<open>Removing the watchers\<close>

lemma remove_all_effect:
  assumes "watch_inv s" "set is \<subseteq> set (s_watchers s)" "distinct is"
  shows "s_watchers (fold removeWatcher is s) = filter (\<lambda>i. i \<notin> set is) (s_watchers s) \<and>
    s_wheap (fold removeWatcher is s) =
      (\<lambda>i. if i \<in> set is then (s_wheap s i)\<lparr>w_closed := True, w_cancelled := True\<rparr> else s_wheap s i) \<and>
    watch_inv (fold removeWatcher is s)"
  using assms
proof (induction "is" arbitrary: s)
  case Nil
  then show ?case by simp
next
  case (Cons i "is")
  have i: "i \<in> set (s_watchers s)" "i \<notin> set is" "distinct is" using Cons.prems by auto
  note eff = removeWatcher_effect [OF Cons.prems(1) i(1)]
  have "set is \<subseteq> set (s_watchers (removeWatcher i s))" using Cons.prems i by (auto simp: eff)
  from Cons.IH [OF removeWatcher_inv [OF Cons.prems(1)] this i(3)] i(2) show ?case
    by (auto simp: eff removeAll_filter_not_eq fun_eq_iff intro: filter_cong)
qed

lemma removeWatcher_frame [simp]:
  "s_closed (removeWatcher i s) = s_closed s" "s_data (removeWatcher i s) = s_data s"
  using removeWatcher_core [of s i] by (simp_all add: same_core_def)

lemma remove_all_frame [simp]:
  "s_closed (fold removeWatcher is s) = s_closed s" "s_data (fold removeWatcher is s) = s_data s"
  by (induction "is" arbitrary: s; simp)+

lemma finalFlush_frame:
  assumes "finalFlush T J now ks s t = (s', t')"
  shows "s_watchers s' = s_watchers s \<and> s_wheap s' = s_wheap s \<and> s_panic s' = s_panic s \<and>
    s_nextw s' = s_nextw s \<and> s_closed s' = s_closed s"
proof -
  obtain err s1 t1 where p: "persistSnapshot T J now ks (s\<lparr>s_dirty := False\<rparr>) t = (err, s1, t1)"
    by (metis prod.exhaust)
  from persistSnapshot_frame [OF p] assms p show ?thesis
    by (cases err) (auto simp: finalFlush_def reportError_def)
qed

subsection \<open>Seeding\<close>

lemma Seed_loop_data:
  "distinct (map fst kvs) \<Longrightarrow>
   map_option e_Value (s_data (Seed_loop ts kvs s) k) =
     (case map_of kvs k of None \<Rightarrow> map_option e_Value (s_data s k) | Some v \<Rightarrow> Some v) \<and>
   (\<forall>e. s_data (Seed_loop ts kvs s) k = Some e \<longrightarrow> map_of kvs k \<noteq> None \<longrightarrow> \<not> e_Tombstone e)"
proof (induction kvs arbitrary: s)
  case (Cons kv kvs)
  obtain k' v where kv: "kv = (k', v)" by (cases kv)
  have no: "map_of kvs k' = None" using Cons.prems by (simp add: kv map_of_eq_None_iff)
  show ?case
  proof (cases "k = k'")
    case True
    let ?s = "add_keysLive 1 (s\<lparr>s_seq := s_seq s + 1, s_data := (s_data s)(k' \<mapsto>
      \<lparr>e_Value = v, e_Timestamp = ts, e_Origin = s_nodeID s, e_Tombstone = False, e_Seq = s_seq s + 1\<rparr>)\<rparr>)"
    have fr: "k \<notin> set (map fst kvs) \<Longrightarrow> s_data (Seed_loop ts kvs s) k = s_data s k" for s :: "'a store"
      by (induction kvs arbitrary: s) (auto simp: Let_def store_defs)
    have "s_data (Seed_loop ts kvs ?s) k = s_data ?s k" using Cons.prems True by (intro fr) (simp add: kv)
    then show ?thesis using True no by (simp add: kv Let_def store_defs)
  next
    case False
    then show ?thesis using Cons by (simp add: kv Let_def store_defs split: option.split)
  qed
qed simp

lemma Seed_loop_frame:
  "s_watchers (Seed_loop ts kvs s) = s_watchers s \<and> s_wheap (Seed_loop ts kvs s) = s_wheap s \<and>
   s_zero (Seed_loop ts kvs s) = s_zero s"
  by (induction ts kvs s rule: Seed_loop.induct) (simp_all add: Let_def store_defs)

subsection \<open>Properties\<close>

text \<open>
  The three read views agree. In whatever order a range visits the map, \<^verbatim>\<open>Keys\<close> lists each
  key for which \<^verbatim>\<open>Get\<close> answers \<^verbatim>\<open>true\<close> once and no other, \<^verbatim>\<open>Snapshot\<close> holds exactly the values
  \<^verbatim>\<open>Get\<close> returns, and when the gauges agree with the map the number of keys is \<^verbatim>\<open>keysLive\<close>.
\<close>

theorem read_views_agree:
  assumes "range_order ks (s_data s)" "counters_ok s"
  shows "distinct (Keys ks s) \<and> set (Keys ks s) = {k. snd (fst (Get k s))} \<and>
    Snapshot ks s = (\<lambda>k. if snd (fst (Get k s)) then Some (fst (fst (Get k s))) else None) \<and>
    of_nat (length (Keys ks s)) = keysLive (s_stats s)"
proof -
  have ks: "distinct ks" "set ks = dom (s_data s)" using assms(1) by (auto simp: range_order_def)
  have "set (Keys ks s) = {k. snd (fst (Get k s))}"
    unfolding Get_view using ks(2) by (auto simp: Keys_def prev_live_def split: option.splits)
  moreover have "Snapshot ks s = (\<lambda>k. if snd (fst (Get k s)) then Some (fst (fst (Get k s))) else None)"
    unfolding Snapshot_def Get_view fun_eq_iff Snapshot_loop_view [OF ks(1)]
    using ks(2) by (auto split: option.split)
  ultimately show ?thesis
    using ks(1) assms(2) length_Keys [OF assms(1)] by (simp add: Keys_def counters_ok_def)
qed

theorem read_views_agree_witness:
  "set (Keys [''k''] tomb_store) = {k. snd (fst (Get k tomb_store))} \<and>
   Snapshot [''k''] tomb_store ''k'' = None"
  using read_views_agree [OF tomb_store_ok(2,1)]
  by (simp add: Get_view old_tomb_def)

text \<open>
  \<^verbatim>\<open>Seed\<close> on an empty store makes every pair of the map readable and nothing else, counts the
  keys, asks for a snapshot, and neither publishes nor wakes a watcher; on a store that holds
  anything, be it a tombstone, it changes nothing.
\<close>

theorem Seed_hydrates:
  assumes "distinct (map fst kvs)" "\<not> s_closed s" "counters_ok s"
  shows "if s_data s = Map.empty then
      fst (Seed now kvs s) = None \<and>
      fst (Get k (snd (Seed now kvs s))) =
        (case map_of kvs k of None \<Rightarrow> (s_zero s, False) | Some v \<Rightarrow> (v, True)) \<and>
      counters_ok (snd (Seed now kvs s)) \<and> s_dirty (snd (Seed now kvs s)) \<and>
      s_wheap (snd (Seed now kvs s)) = s_wheap s \<and> s_watchers (snd (Seed now kvs s)) = s_watchers s
    else Seed now kvs s = (Some ErrSeedNonEmpty, s)"
proof (cases "s_data s = Map.empty")
  case True
  have sd: "s_data (snd (Seed now kvs s)) = s_data (Seed_loop now kvs s)"
    "s_zero (snd (Seed now kvs s)) = s_zero s" "fst (Seed now kvs s) = None"
    "s_dirty (snd (Seed now kvs s))" "s_wheap (snd (Seed now kvs s)) = s_wheap s"
    "s_watchers (snd (Seed now kvs s)) = s_watchers s"
    using assms(2) True Seed_loop_frame [of now kvs s]
    by (simp_all add: Seed_def isClosed_def Let_def store_defs)
  have c: "counters_ok (snd (Seed now kvs s))"
    using gauges.R_Seed [OF assms(1), of s now] assms(3) by blast
  note L = Seed_loop_data [OF assms(1), of now s k]
  have "fst (Get k (snd (Seed now kvs s))) =
      (case map_of kvs k of None \<Rightarrow> (s_zero s, False) | Some v \<Rightarrow> (v, True))"
    unfolding Get_view sd(1,2) using L True
    by (cases "s_data (Seed_loop now kvs s) k"; cases "map_of kvs k") auto
  with True sd c show ?thesis by simp
next
  case False
  with assms(2) show ?thesis by (simp add: Seed_def isClosed_def)
qed

theorem Seed_hydrates_witness:
  "fst (Get ''k'' (snd (Seed 5 [(''k'', ''x'')] (sample_store ''n'')))) = (''x'', True) \<and>
   Seed 5 [(''a'', ''x'')] tomb_store = (Some ErrSeedNonEmpty, tomb_store)"
proof -
  have "counters_ok (sample_store ''n'')"
    by (simp add: counters_ok_def live_count_def tomb_count_def count_in_def)
       (simp add: sample_store_def default_store_def zero_stats_def)
  moreover have "\<not> s_closed tomb_store" by (simp add: tomb_store_def)
  ultimately show ?thesis
    using Seed_hydrates [of "[(''k'', ''x'')]" "sample_store ''n''" 5 "''k''"]
      Seed_hydrates [of "[(''a'', ''x'')]" tomb_store 5 "''k''"] tomb_store_ok(1)
    by simp
qed

text \<open>
  C34. \<^verbatim>\<open>Close\<close>, with or without a context that ends first and whatever the goroutines got done
  before, closes the channels of every watcher, leaves none registered, and makes every later
  \<^verbatim>\<open>Close\<close> return at once without touching anything.
\<close>

theorem Close_closes_every_watcher:
  assumes "watch_inv s" "\<not> s_closed s" "distinct cleaned" "set cleaned \<subseteq> set (s_watchers s)"
    and "CloseWithContext T J now ks ctxErr cleaned flushed s t = (err, s', t')"
  shows "err = ctxErr \<and> s_closed s' \<and> s_watchers s' = [] \<and> \<not> s_panic s' \<and>
    (\<forall>i \<in> set (s_watchers s). w_closed (s_wheap s' i) \<and> w_cancelled (s_wheap s' i)) \<and>
    CloseWithContext T J now ks ctxErr cleaned flushed s' t' = (None, s', t')"
proof -
  let ?s1 = "s\<lparr>s_closed := True\<rparr>"
  let ?s2 = "fold removeWatcher cleaned ?s1"
  obtain s3 t3 where f: "(if flushed then finalFlush T J now ks ?s2 t else (?s2, t)) = (s3, t3)"
    by (metis prod.exhaust)
  let ?s4 = "case ctxErr of None \<Rightarrow> s3 | Some e \<Rightarrow> reportError (ErrCloseTimeout e) s3"
  have inv1: "watch_inv ?s1" using assms(1) by (simp add: watch_inv_def)
  note r2 = remove_all_effect [OF inv1 _ assms(3)]
  have w2: "s_watchers ?s2 = filter (\<lambda>i. i \<notin> set cleaned) (s_watchers s)" "watch_inv ?s2"
    "\<forall>i \<in> set cleaned. w_closed (s_wheap ?s2 i) \<and> w_cancelled (s_wheap ?s2 i)"
    "s_closed ?s2"
    using r2 assms(4) by auto
  have "s_watchers s3 = s_watchers ?s2 \<and> s_wheap s3 = s_wheap ?s2 \<and> s_panic s3 = s_panic ?s2 \<and>
      s_nextw s3 = s_nextw ?s2 \<and> s_closed s3 = s_closed ?s2"
    using f finalFlush_frame [of T J now ks ?s2 t s3 t3] by (cases flushed) auto
  then have fr: "s_watchers ?s4 = s_watchers ?s2" "s_wheap ?s4 = s_wheap ?s2"
    "s_panic ?s4 = s_panic ?s2" "s_nextw ?s4 = s_nextw ?s2" "s_closed ?s4 = s_closed ?s2"
    by (simp_all add: reportError_def split: option.split)
  have inv4: "watch_inv ?s4" using w2(2) watch_inv_cong [OF fr(1,2,3,4)] by simp
  then have "distinct (s_watchers ?s4)" by (simp add: watch_inv_def)
  note r4 = remove_all_effect [OF inv4 subset_refl this]
  have out: "err = ctxErr" "s' = fold removeWatcher (s_watchers ?s4) ?s4" "t' = t3"
    using assms(2,5) unfolding CloseWithContext_def Let_def isClosed_def f by auto
  have "s_closed s'" unfolding out(2) by (simp add: fr(5) [simplified])
  moreover have "s_watchers s' = []" "watch_inv s'" unfolding out(2) using r4 by auto
  moreover have "\<forall>i \<in> set (s_watchers s). w_closed (s_wheap s' i) \<and> w_cancelled (s_wheap s' i)"
    unfolding out(2) using r4 w2(1,3) fr(1,2) by auto
  ultimately show ?thesis
    using out(1) by (simp add: watch_inv_def CloseWithContext_def isClosed_def)
qed

theorem Close_closes_every_watcher_witness:
  "\<exists>err s' t'. CloseWithContext up_transport sample_json 5 [] None [] False watched_store [] = (err, s', t') \<and>
     s_closed s' \<and> s_watchers s' = [] \<and> w_closed (s_wheap s' 0)"
proof -
  obtain err s' t' where c:
      "CloseWithContext up_transport sample_json 5 [] None [] False watched_store [] = (err, s', t')"
    by (metis prod.exhaust)
  have "\<not> s_closed watched_store"
    by (simp add: watched_store_def Watch_def isClosed_def set_watcher_def Let_def)
  with Close_closes_every_watcher [OF watched_store_inv(1) _ _ _ c] c watched_store_inv(2)
  show ?thesis by auto
qed

text \<open>
  The snapshot loop ends. From every point of the loop a closed store has a step that returns,
  and that step flushes the replica; once it has returned there is no further step.
\<close>

theorem snapshotLoop_ends:
  assumes "finite (dom (s_data s))" "s_closed s" "pc \<noteq> Returned"
  shows "\<exists>ks now. range_order ks (s_data s) \<and>
      snapshotLoop T J (pc, s, t) (Returned, finalFlush T J now ks s t) \<and>
    (\<forall>c. \<not> snapshotLoop T J (Returned, finalFlush T J now ks s t) c)"
proof -
  obtain ks where ks: "range_order ks (s_data s)" using range_order_exists [OF assms(1)] by blast
  obtain s' t' where f: "finalFlush T J 0 ks s t = (s', t')" by (metis prod.exhaust)
  have "snapshotLoop T J (pc, s, t) (Returned, finalFlush T J 0 ks s t)"
    using ks assms(2,3) by (cases pc) (auto intro: snapshotLoop.intros)
  then show ?thesis using ks by (intro exI [of _ ks] exI [of _ 0]) (simp add: f)
qed

theorem snapshotLoop_ends_witness:
  "\<exists>ks now. snapshotLoop up_transport sample_json (AtTimer, tomb_store\<lparr>s_closed := True\<rparr>, [])
     (Returned, finalFlush up_transport sample_json now ks (tomb_store\<lparr>s_closed := True\<rparr>) [])"
  using snapshotLoop_ends [of "tomb_store\<lparr>s_closed := True\<rparr>" AtTimer up_transport sample_json "[]"]
  by auto

end
