(* ===== verification/Call_Reply.thy ===== *)
theory Call_Reply
  imports Memory_Transport Writes
begin

section \<open>Calls between pods: routes, envelopes, endpoints\<close>

text \<open>
  \<^verbatim>\<open>callreply/callreply.go\<close>: an \<^verbatim>\<open>Endpoint\<close> keeps a routing table (a \<^verbatim>\<open>Store[Route]\<close>, the
  \<open>store\<close> of \<open>Store_State\<close>), the handlers of the targets it owns, and the table of the calls
  that wait for a reply. A call is an envelope published on the inbox of the owner, a reply
  one published on the inbox of the caller.

  \<^item> The map \<^verbatim>\<open>pending\<close> holds channels of capacity one; a channel is a number into the heap
    \<open>ep_chans\<close>, whose cell is empty or holds one envelope.
  \<^item> \<open>ep_sem\<close> is the number of tokens in \<^verbatim>\<open>handlerSem\<close>, \<open>ep_semCap\<close> its capacity.
  \<^item> A context is its deadline. That a context ends is an event the model is told of.
  \<^item> A handler is a function of its context and its arguments; an error it returns is given by
    its text, which is all the program reads of it.
  \<^item> \<^verbatim>\<open>encoding/json\<close> on envelopes is a parameter, as in \<open>Wire\<close>.

  A method that blocks, or that runs a handler, is split where it does: \<open>Call_route\<close>,
  \<open>Call_pend\<close>, \<open>Call_send\<close> and \<open>Call_return\<close> make up \<open>Call\<close>; \<open>local_start\<close> is the part of \<open>callLocal\<close> and
  \<open>serve_start\<close> the part of \<open>serveCall\<close> before the handler runs.
\<close>

text \<open>
  An error by its text: \<open>CrText\<close> one built by \<^verbatim>\<open>errors.New\<close> (or the error of a handler),
  \<open>CrWrap\<close> and \<open>CrQuoted\<close> those that wrap an error or quote a string, \<open>CrErr\<close> one of the store,
  the codec or the context passed on as it is.
\<close>

datatype callerror =
    CrText string
  | CrWrap string goerror
  | CrQuoted string string
  | CrErr goerror

record Context =
  ctx_deadline :: "time option"

type_synonym Handler = "Context \<Rightarrow> bytes \<Rightarrow> string + bytes"

record Route =
  rt_PodID :: string
  rt_UpdatedAt :: time

definition zero_Route :: Route where
  "zero_Route = \<lparr>rt_PodID = '''', rt_UpdatedAt = 0\<rparr>"

record callOptions =
  co_SelfID :: string
  co_RoutingTopic :: string
  co_InboxPrefix :: string
  co_CallTimeout :: duration
  co_OnError :: bool
  co_MaxConcurrentHandlers :: int

record envelope =
  en_Type :: string
  en_ID :: string
  en_Reply :: string
  en_Target :: string
  en_Method :: string
  en_Args :: bytes
  en_Error :: string
  en_Result :: bytes
  en_DeadlineNanos :: int64

record EnvJson =
  marshalEnv :: "envelope \<Rightarrow> goerror + bytes"
  unmarshalEnv :: "bytes \<Rightarrow> goerror + envelope"

record Endpoint =
  ep_selfID :: string
  ep_inboxPrefix :: string
  ep_inbox :: string
  ep_timeout :: duration
  ep_onError :: bool
  ep_reports :: "callerror list"
  ep_sem :: nat
  ep_semCap :: nat
  ep_routing :: "Route store"
  ep_handlers :: "string \<rightharpoonup> (string \<rightharpoonup> Handler)"
  ep_pending :: "string \<rightharpoonup> nat"
  ep_chans :: "nat \<Rightarrow> envelope option"
  ep_nextch :: nat
  ep_closed :: bool
  ep_sub :: nat

definition typeCall :: string where "typeCall = ''call''"
definition typeReply :: string where "typeReply = ''reply''"

lemma types_distinct [simp]: "typeCall \<noteq> typeReply" "typeReply \<noteq> typeCall"
  by (simp_all add: typeCall_def typeReply_def)

definition no_envelope :: envelope where
  "no_envelope = \<lparr>en_Type = '''', en_ID = '''', en_Reply = '''', en_Target = '''', en_Method = '''',
     en_Args = [], en_Error = '''', en_Result = [], en_DeadlineNanos = 0\<rparr>"

definition errCallClosed :: callerror where "errCallClosed = CrText ''callreply: closed''"

definition text_no_handler :: "string \<Rightarrow> string \<Rightarrow> string" where
  "text_no_handler target method = ''no handler for '' @ target @ ''.'' @ method"

definition text_busy :: string where "text_busy = ''endpoint busy''"

subsection \<open>Small helpers\<close>

definition Endpoint_report :: "callerror \<Rightarrow> Endpoint \<Rightarrow> Endpoint" where
  "Endpoint_report err e = (if ep_onError e then e\<lparr>ep_reports := ep_reports e @ [err]\<rparr> else e)"

definition Endpoint_isClosed :: "Endpoint \<Rightarrow> bool" where
  "Endpoint_isClosed e = ep_closed e"

text \<open>\<^verbatim>\<open>hex.EncodeToString\<close> of the twelve random bytes.\<close>

definition hex_digits :: string where "hex_digits = ''0123456789abcdef''"

fun hex_EncodeToString :: "bytes \<Rightarrow> string" where
  "hex_EncodeToString [] = []"
| "hex_EncodeToString (b # bs) =
    hex_digits ! (unat b div 16) # hex_digits ! (unat b mod 16) # hex_EncodeToString bs"

text \<open>
  \<open>rnd\<close> is the random source: it fails, or it has bytes to give, of which \<^verbatim>\<open>rand.Read\<close> takes as many as the array
  is long.
\<close>

definition randomID :: "goerror + bytes \<Rightarrow> goerror + string" where
  "randomID rnd = (case rnd of Inl err \<Rightarrow> Inl err | Inr bs \<Rightarrow> Inr (hex_EncodeToString (take 12 bs)))"

text \<open>
  \<^verbatim>\<open>UnixNano\<close> and \<^verbatim>\<open>time.Unix(0, n)\<close>. Instants are nanoseconds since Go's zero time, and 1970
  begins 62135596800 seconds later; \<^verbatim>\<open>UnixNano\<close> computes in 64 bits.
\<close>

definition unix_epoch :: time where "unix_epoch = 62135596800000000000"

definition UnixNano :: "time \<Rightarrow> int64" where
  "UnixNano ts = of_int (ts - unix_epoch)"

definition time_Unix :: "int64 \<Rightarrow> time" where
  "time_Unix n = unix_epoch + sint n"

text \<open>\<^verbatim>\<open>context.WithTimeout\<close> of a context without a deadline.\<close>

definition with_timeout :: "time \<Rightarrow> duration \<Rightarrow> Context" where
  "with_timeout now d = \<lparr>ctx_deadline = Some (now + sint d)\<rparr>"

text \<open>The non-blocking send on \<^verbatim>\<open>handlerSem\<close>, and the receive of the deferred function.\<close>

definition sem_acquire :: "Endpoint \<Rightarrow> Endpoint option" where
  "sem_acquire e = (if ep_sem e < ep_semCap e then Some (e\<lparr>ep_sem := ep_sem e + 1\<rparr>) else None)"

definition sem_release :: "Endpoint \<Rightarrow> Endpoint" where
  "sem_release e = e\<lparr>ep_sem := ep_sem e - 1\<rparr>"

text \<open>\<^verbatim>\<open>e.handlers[target][method]\<close>; a missing entry at either level is a \<^verbatim>\<open>nil\<close> handler.\<close>

definition find_handler :: "string \<Rightarrow> string \<Rightarrow> Endpoint \<Rightarrow> Handler option" where
  "find_handler target method e =
    (case ep_handlers e target of None \<Rightarrow> None | Some methods \<Rightarrow> methods method)"

subsection \<open>Construction, registration, owners\<close>

text \<open>
  \<open>routeCodec\<close> is the default codec at type \<^verbatim>\<open>Route\<close>. When the subscription to the inbox fails
  the routing store is closed: \<open>now\<close> and \<open>ks\<close> are the arguments of that.
\<close>

definition Endpoint_New :: "Route Codec \<Rightarrow> Json \<Rightarrow> goerror + string \<Rightarrow> time \<Rightarrow> string list
    \<Rightarrow> 't Transport option \<Rightarrow> callOptions \<Rightarrow> 't \<Rightarrow> (callerror + Endpoint) \<times> 't" where
  "Endpoint_New routeCodec J rid now ks tr opts t =
    (case tr of
       None \<Rightarrow> (Inl (CrText ''callreply: transport is nil''), t)
     | Some T \<Rightarrow>
         if co_SelfID opts = '''' then (Inl (CrText ''callreply: SelfID is required''), t)
         else
           let topic = (if co_RoutingTopic opts = '''' then ''callreply:routing''
                        else co_RoutingTopic opts);
               prefix = (if co_InboxPrefix opts = '''' then ''callreply:inbox:''
                         else co_InboxPrefix opts);
               timeout = (if co_CallTimeout opts = 0 then 5000000000 else co_CallTimeout opts);
               cap = (if co_MaxConcurrentHandlers opts \<le> 0 then 1024
                      else nat (co_MaxConcurrentHandlers opts))
           in case New zero_Route routeCodec J rid topic (Some T)
                     [OptNodeID (co_SelfID opts), OptErrorHandler (co_OnError opts)] t of
             (Inl err, t1) \<Rightarrow> (Inl (CrWrap ''callreply: routing store'' err), t1)
           | (Inr routing, t1) \<Rightarrow>
               let inbox = prefix @ co_SelfID opts in
               (case tr_Subscribe T inbox t1 of
                  (Inl err, t2) \<Rightarrow>
                    (case Close T J now ks routing t2 of
                       (_, _, t3) \<Rightarrow> (Inl (CrWrap ''callreply: subscribe inbox'' err), t3))
                | (Inr sub, t2) \<Rightarrow>
                    (Inr \<lparr>ep_selfID = co_SelfID opts, ep_inboxPrefix = prefix, ep_inbox = inbox,
                          ep_timeout = timeout, ep_onError = co_OnError opts, ep_reports = [],
                          ep_sem = 0, ep_semCap = cap, ep_routing = routing,
                          ep_handlers = Map.empty, ep_pending = Map.empty,
                          ep_chans = (\<lambda>_. None), ep_nextch = 0, ep_closed = False,
                          ep_sub = sub\<rparr>, t2)))"

text \<open>\<open>at\<close> and \<open>now\<close> are the two readings of the clock, for \<^verbatim>\<open>UpdatedAt\<close> and inside \<^verbatim>\<open>Set\<close>.\<close>

definition Register :: "'t Transport \<Rightarrow> Json \<Rightarrow> time \<Rightarrow> time \<Rightarrow> string \<Rightarrow> string \<Rightarrow> Handler option
    \<Rightarrow> Endpoint \<Rightarrow> 't \<Rightarrow> callerror option \<times> Endpoint \<times> 't" where
  "Register T J at now target method h e t =
    (case h of
       None \<Rightarrow> (Some (CrText ''callreply: target, method, and handler are required''), e, t)
     | Some f \<Rightarrow>
         if target = '''' \<or> method = ''''
         then (Some (CrText ''callreply: target, method, and handler are required''), e, t)
         else
           let first = (ep_handlers e target = None);
               methods = (case ep_handlers e target of None \<Rightarrow> Map.empty | Some ms \<Rightarrow> ms);
               e1 = e\<lparr>ep_handlers := (ep_handlers e)(target \<mapsto> methods(method \<mapsto> f))\<rparr>
           in if \<not> first then (None, e1, t)
              else case Set T J now target \<lparr>rt_PodID = ep_selfID e1, rt_UpdatedAt = at\<rparr>
                          (ep_routing e1) t of
                (err, routing, t') \<Rightarrow> (map_option CrErr err, e1\<lparr>ep_routing := routing\<rparr>, t'))"

definition Unregister :: "'t Transport \<Rightarrow> Json \<Rightarrow> time \<Rightarrow> string \<Rightarrow> Endpoint \<Rightarrow> 't
    \<Rightarrow> callerror option \<times> Endpoint \<times> 't" where
  "Unregister T J now target e t =
    (let e1 = e\<lparr>ep_handlers := (ep_handlers e)(target := None)\<rparr> in
     case Delete T J now target (ep_routing e1) t of
       (err, routing, t') \<Rightarrow> (map_option CrErr err, e1\<lparr>ep_routing := routing\<rparr>, t'))"

definition Owner :: "string \<Rightarrow> Endpoint \<Rightarrow> (string \<times> bool) \<times> Endpoint" where
  "Owner target e =
    (case Get target (ep_routing e) of
       ((r, ok), routing) \<Rightarrow>
         (if \<not> ok then ('''', False) else (rt_PodID r, True), e\<lparr>ep_routing := routing\<rparr>))"

subsection \<open>Calling\<close>

text \<open>
  Where a call goes: it fails, it is served here, or by the pod that owns the target. \<open>now\<close> is
  the clock when the timeout is added to a context without a deadline.
\<close>

datatype call_dest = Failed callerror | Here Context | There string Context

definition Call_route :: "time \<Rightarrow> Context \<Rightarrow> string \<Rightarrow> Endpoint \<Rightarrow> call_dest \<times> Endpoint" where
  "Call_route now ctx target e =
    (if Endpoint_isClosed e then (Failed errCallClosed, e)
     else case Get target (ep_routing e) of
       ((route, ok), routing) \<Rightarrow>
         let e1 = e\<lparr>ep_routing := routing\<rparr> in
         if \<not> ok then (Failed (CrQuoted ''callreply: no route for'' target), e1)
         else
           let ctx1 = (if ctx_deadline ctx = None \<and> 0 <s ep_timeout e1
                       then with_timeout now (ep_timeout e1) else ctx)
           in if rt_PodID route = ep_selfID e1 then (Here ctx1, e1)
              else (There (rt_PodID route) ctx1, e1))"

definition local_start :: "string \<Rightarrow> string \<Rightarrow> Endpoint \<Rightarrow> (callerror + Handler) \<times> Endpoint" where
  "local_start target method e =
    (case find_handler target method e of
       None \<Rightarrow> (Inl (CrText (''callreply: '' @ text_no_handler target method)), e)
     | Some h \<Rightarrow>
         (case sem_acquire e of
            None \<Rightarrow> (Inl (CrText (''callreply: '' @ text_busy)), e)
          | Some e1 \<Rightarrow> (Inr h, e1)))"

definition callLocal :: "Context \<Rightarrow> string \<Rightarrow> string \<Rightarrow> bytes \<Rightarrow> Endpoint
    \<Rightarrow> (callerror + bytes) \<times> Endpoint" where
  "callLocal ctx target method args e =
    (case local_start target method e of
       (Inl err, e1) \<Rightarrow> (Inl err, e1)
     | (Inr h, e1) \<Rightarrow> (map_sum CrText id (h ctx args), sem_release e1))"

definition call_envelope :: "string \<Rightarrow> Context \<Rightarrow> string \<Rightarrow> string \<Rightarrow> bytes \<Rightarrow> Endpoint \<Rightarrow> envelope" where
  "call_envelope i ctx target method args e =
    no_envelope\<lparr>en_Type := typeCall, en_ID := i, en_Reply := ep_inbox e, en_Target := target,
      en_Method := method, en_Args := args,
      en_DeadlineNanos := (case ctx_deadline ctx of None \<Rightarrow> 0 | Some dl \<Rightarrow> UnixNano dl)\<rparr>"

definition drop_pending :: "string \<Rightarrow> Endpoint \<Rightarrow> Endpoint" where
  "drop_pending i e = e\<lparr>ep_pending := (ep_pending e)(i := None)\<rparr>"

text \<open>
  The identifier, the encoded envelope and the entry in \<^verbatim>\<open>pending\<close>; then the publish, up to the
  \<^verbatim>\<open>select\<close>. The result is the error \<^verbatim>\<open>Call\<close> returns, or the identifier and the channel it waits
  on. When the publish fails the deferred function removes the entry.
\<close>

definition Call_pend :: "EnvJson \<Rightarrow> goerror + bytes \<Rightarrow> Context \<Rightarrow> string \<Rightarrow> string \<Rightarrow> bytes
    \<Rightarrow> Endpoint \<Rightarrow> (callerror + string \<times> nat \<times> bytes) \<times> Endpoint" where
  "Call_pend EJ rnd ctx target method args e =
    (case randomID rnd of
       Inl err \<Rightarrow> (Inl (CrErr err), e)
     | Inr i \<Rightarrow>
         (case marshalEnv EJ (call_envelope i ctx target method args e) of
            Inl err \<Rightarrow> (Inl (CrErr err), e)
          | Inr raw \<Rightarrow>
              let ch = ep_nextch e in
              (Inr (i, ch, raw),
               e\<lparr>ep_nextch := Suc ch, ep_chans := (ep_chans e)(ch := None),
                 ep_pending := (ep_pending e)(i \<mapsto> ch)\<rparr>)))"

definition Call_send :: "'t Transport \<Rightarrow> EnvJson \<Rightarrow> goerror + bytes \<Rightarrow> Context \<Rightarrow> string \<Rightarrow> string
    \<Rightarrow> string \<Rightarrow> bytes \<Rightarrow> Endpoint \<Rightarrow> 't \<Rightarrow> (callerror + string \<times> nat) \<times> Endpoint \<times> 't" where
  "Call_send T EJ rnd ctx pod target method args e t =
    (case Call_pend EJ rnd ctx target method args e of
       (Inl err, e1) \<Rightarrow> (Inl err, e1, t)
     | (Inr (i, ch, raw), e1) \<Rightarrow>
         (case tr_Publish T (ep_inboxPrefix e1 @ pod) raw t of
            (Some err, t') \<Rightarrow> (Inl (CrWrap ''callreply: publish'' err), drop_pending i e1, t')
          | (None, t') \<Rightarrow> (Inr (i, ch), e1, t')))"

text \<open>
  The three cases of the \<^verbatim>\<open>select\<close>: a reply arrived, the context ended with an error, the
  endpoint was closed. A case that is not ready does not happen (\<^term>\<open>None\<close>); that the context
  has ended is what the caller of the definition says. The deferred function runs after each.
\<close>

datatype call_event = GotReply | CtxDone goerror | EndpointClosed

definition Call_select :: "call_event \<Rightarrow> nat \<Rightarrow> Endpoint \<Rightarrow> ((callerror + bytes) \<times> Endpoint) option" where
  "Call_select ev ch e =
    (case ev of
       GotReply \<Rightarrow>
         (case ep_chans e ch of
            None \<Rightarrow> None
          | Some reply \<Rightarrow>
              Some (if en_Error reply \<noteq> '''' then Inl (CrText (en_Error reply))
                    else Inr (en_Result reply), e\<lparr>ep_chans := (ep_chans e)(ch := None)\<rparr>))
     | CtxDone err \<Rightarrow> Some (Inl (CrErr err), e)
     | EndpointClosed \<Rightarrow> if Endpoint_isClosed e then Some (Inl errCallClosed, e) else None)"

definition Call_return :: "call_event \<Rightarrow> string \<Rightarrow> nat \<Rightarrow> Endpoint
    \<Rightarrow> ((callerror + bytes) \<times> Endpoint) option" where
  "Call_return ev i ch e = map_option (\<lambda>(res, e1). (res, drop_pending i e1)) (Call_select ev ch e)"

text \<open>
  The whole method. \<open>others\<close> is what the other goroutines do to the endpoint and the transport
  while the call waits, \<open>ev\<close> the case its \<^verbatim>\<open>select\<close> takes; \<^term>\<open>None\<close> is a call that still waits.
\<close>

definition Call :: "'t Transport \<Rightarrow> EnvJson \<Rightarrow> time \<Rightarrow> goerror + bytes
    \<Rightarrow> (Endpoint \<times> 't \<Rightarrow> Endpoint \<times> 't) \<Rightarrow> call_event \<Rightarrow> Context \<Rightarrow> string \<Rightarrow> string \<Rightarrow> bytes
    \<Rightarrow> Endpoint \<Rightarrow> 't \<Rightarrow> ((callerror + bytes) \<times> Endpoint \<times> 't) option" where
  "Call T EJ now rnd others ev ctx target method args e t =
    (case Call_route now ctx target e of
       (Failed err, e1) \<Rightarrow> Some (Inl err, e1, t)
     | (Here ctx1, e1) \<Rightarrow>
         (case callLocal ctx1 target method args e1 of (res, e2) \<Rightarrow> Some (res, e2, t))
     | (There pod ctx1, e1) \<Rightarrow>
         (case Call_send T EJ rnd ctx1 pod target method args e1 t of
            (Inl err, e2, t2) \<Rightarrow> Some (Inl err, e2, t2)
          | (Inr (i, ch), e2, t2) \<Rightarrow>
              (case others (e2, t2) of
                 (e3, t3) \<Rightarrow>
                   map_option (\<lambda>(res, e4). (res, e4, t3)) (Call_return ev i ch e3))))"

subsection \<open>Serving\<close>

definition sendReply :: "'t Transport \<Rightarrow> EnvJson \<Rightarrow> string \<Rightarrow> envelope \<Rightarrow> Endpoint \<Rightarrow> 't
    \<Rightarrow> Endpoint \<times> 't" where
  "sendReply T EJ inbox reply e t =
    (if inbox = '''' then (e, t)
     else case marshalEnv EJ reply of
       Inl err \<Rightarrow> (Endpoint_report (CrWrap ''callreply: encode reply'' err) e, t)
     | Inr raw \<Rightarrow>
         (case tr_Publish T inbox raw t of
            (Some err, t') \<Rightarrow>
              (Endpoint_report (CrWrap (''callreply: publish reply to '' @ inbox) err) e, t')
          | (None, t') \<Rightarrow> (e, t')))"

text \<open>The context a handler runs with: the caller's deadline, or the own timeout.\<close>

definition serve_context :: "time \<Rightarrow> envelope \<Rightarrow> Endpoint \<Rightarrow> Context" where
  "serve_context now c e =
    (if 0 <s en_DeadlineNanos c then \<lparr>ctx_deadline = Some (time_Unix (en_DeadlineNanos c))\<rparr>
     else if 0 <s ep_timeout e then with_timeout now (ep_timeout e)
     else \<lparr>ctx_deadline = None\<rparr>)"

definition reply_to :: "envelope \<Rightarrow> envelope" where
  "reply_to c = no_envelope\<lparr>en_Type := typeReply, en_ID := en_ID c\<rparr>"

text \<open>
  What \<^verbatim>\<open>serveCall\<close> found: no free slot, a slot but no handler, or a slot and a handler to run.
  In the last two cases the slot is held until the reply has been sent.
\<close>

datatype serving = Refused envelope | Answering envelope | Running Handler Context

definition serve_start :: "time \<Rightarrow> envelope \<Rightarrow> Endpoint \<Rightarrow> serving \<times> Endpoint" where
  "serve_start now c e =
    (case sem_acquire e of
       None \<Rightarrow> (Refused ((reply_to c)\<lparr>en_Error := text_busy\<rparr>), e)
     | Some e1 \<Rightarrow>
         (case find_handler (en_Target c) (en_Method c) e1 of
            None \<Rightarrow>
              (Answering ((reply_to c)\<lparr>en_Error := text_no_handler (en_Target c) (en_Method c)\<rparr>), e1)
          | Some h \<Rightarrow> (Running h (serve_context now c e1), e1)))"

definition serve_reply :: "envelope \<Rightarrow> string + bytes \<Rightarrow> envelope" where
  "serve_reply c res =
    (case res of
       Inl err \<Rightarrow> (reply_to c)\<lparr>en_Error := err\<rparr>
     | Inr b \<Rightarrow> (reply_to c)\<lparr>en_Result := b\<rparr>)"

definition serveCall :: "'t Transport \<Rightarrow> EnvJson \<Rightarrow> time \<Rightarrow> envelope \<Rightarrow> Endpoint \<Rightarrow> 't
    \<Rightarrow> Endpoint \<times> 't" where
  "serveCall T EJ now c e t =
    (case serve_start now c e of
       (Refused reply, e1) \<Rightarrow> sendReply T EJ (en_Reply c) reply e1 t
     | (Answering reply, e1) \<Rightarrow> apfst sem_release (sendReply T EJ (en_Reply c) reply e1 t)
     | (Running h ctx, e1) \<Rightarrow>
         apfst sem_release
           (sendReply T EJ (en_Reply c) (serve_reply c (h ctx (en_Args c))) e1 t))"

text \<open>The lookup under \<^verbatim>\<open>pendingMu\<close>, and the non-blocking send on the channel it found.\<close>

definition deliver_lookup :: "envelope \<Rightarrow> Endpoint \<Rightarrow> nat option \<times> Endpoint" where
  "deliver_lookup r e =
    (case ep_pending e (en_ID r) of
       None \<Rightarrow> (None, Endpoint_report (CrQuoted ''callreply: reply for unknown call id'' (en_ID r)) e)
     | Some ch \<Rightarrow> (Some ch, e))"

definition deliver_send :: "nat \<Rightarrow> envelope \<Rightarrow> Endpoint \<Rightarrow> Endpoint" where
  "deliver_send ch r e =
    (if ep_chans e ch = None then e\<lparr>ep_chans := (ep_chans e)(ch \<mapsto> r)\<rparr> else e)"

definition deliverReply :: "envelope \<Rightarrow> Endpoint \<Rightarrow> Endpoint" where
  "deliverReply r e =
    (case deliver_lookup r e of
       (None, e1) \<Rightarrow> e1
     | (Some ch, e1) \<Rightarrow> deliver_send ch r e1)"

text \<open>A call is handed to a goroutine of its own: the envelope in the first component.\<close>

definition handleInbound :: "EnvJson \<Rightarrow> bytes \<Rightarrow> Endpoint \<Rightarrow> envelope option \<times> Endpoint" where
  "handleInbound EJ raw e =
    (case unmarshalEnv EJ raw of
       Inl err \<Rightarrow> (None, Endpoint_report (CrWrap ''callreply: decode envelope'' err) e)
     | Inr env \<Rightarrow>
         if en_Type env = typeCall then (Some env, e)
         else if en_Type env = typeReply then (None, deliverReply env e)
         else (None, Endpoint_report (CrQuoted ''callreply: unknown envelope type'' (en_Type env)) e))"

text \<open>The messages the loop took before it returned, and the calls it started goroutines for.\<close>

fun Endpoint_recvLoop :: "EnvJson \<Rightarrow> bytes list \<Rightarrow> Endpoint \<Rightarrow> envelope list \<times> Endpoint" where
  "Endpoint_recvLoop EJ [] e = ([], e)"
| "Endpoint_recvLoop EJ (raw # rest) e =
    (case handleInbound EJ raw e of
       (call, e1) \<Rightarrow>
         (case Endpoint_recvLoop EJ rest e1 of
            (calls, e2) \<Rightarrow> ((case call of None \<Rightarrow> calls | Some c \<Rightarrow> c # calls), e2)))"

text \<open>
  \<^verbatim>\<open>Close\<close> returns once the receive loop and the goroutines serving calls have; only the
  routing store is left to close.
\<close>

definition Endpoint_Close :: "'t Transport \<Rightarrow> Json \<Rightarrow> time \<Rightarrow> string list \<Rightarrow> Endpoint \<Rightarrow> 't
    \<Rightarrow> Endpoint \<times> 't" where
  "Endpoint_Close T J now ks e t =
    (if Endpoint_isClosed e then (e, t)
     else case Close T J now ks (ep_routing e) t of
       (_, routing, t') \<Rightarrow> (e\<lparr>ep_closed := True, ep_routing := routing\<rparr>, t'))"

end
