(* ===== verification/Call_Values.thy ===== *)
theory Call_Values
  imports Call_Reply Sample_Store
begin

section \<open>Identifiers, deadlines and envelopes of calls\<close>

text \<open>
  The identifiers \<^verbatim>\<open>randomID\<close> makes, the deadline an envelope carries, what the program
  relies on of \<^verbatim>\<open>encoding/json\<close> for envelopes, and a concrete encoding that satisfies it.
\<close>

subsection \<open>Identifiers\<close>

lemma length_hex_digits [simp]: "length hex_digits = 16"
  by (simp add: hex_digits_def)

lemma distinct_hex_digits: "distinct hex_digits"
  by (simp add: hex_digits_def)

lemma hex_digit_inj: "i < 16 \<Longrightarrow> j < 16 \<Longrightarrow> hex_digits ! i = hex_digits ! j \<longleftrightarrow> i = j"
  using nth_eq_iff_index_eq [OF distinct_hex_digits, of i j] by simp

lemma nibble_bound: "unat (b :: byte) div 16 < 16"
proof -
  have "unat b < 2 ^ LENGTH(8)" by (rule unsigned_less)
  then show ?thesis by (simp add: less_mult_imp_div_less)
qed

lemma byte_of_nibbles:
  "unat (a :: byte) div 16 = unat b div 16 \<Longrightarrow> unat a mod 16 = unat b mod 16 \<Longrightarrow> a = b"
  by (metis div_mult_mod_eq word_unat_eq_iff)

lemma length_hex [simp]: "length (hex_EncodeToString bs) = 2 * length bs"
  by (induction bs rule: hex_EncodeToString.induct) simp_all

lemma hex_inj: "hex_EncodeToString as = hex_EncodeToString bs \<Longrightarrow> as = bs"
proof (induction as arbitrary: bs)
  case Nil
  then show ?case by (cases bs) simp_all
next
  case (Cons a as)
  then obtain b bs' where bs: "bs = b # bs'" by (cases bs) simp_all
  with Cons.prems have "unat a div 16 = unat b div 16" "unat a mod 16 = unat b mod 16"
    by (simp_all add: hex_digit_inj nibble_bound)
  then have "a = b" by (rule byte_of_nibbles)
  with Cons bs show ?case by simp
qed

lemma hex_set: "set (hex_EncodeToString bs) \<subseteq> set hex_digits"
  by (induction bs rule: hex_EncodeToString.induct) (simp_all add: nibble_bound)

lemma ascii_utf8: "\<forall>c \<in> set s. (of_char c :: nat) < 128 \<Longrightarrow> valid_utf8 s"
  unfolding valid_utf8_def by (induction s) simp_all

lemma hex_ascii: "c \<in> set hex_digits \<Longrightarrow> (of_char c :: nat) < 128"
  unfolding hex_digits_def by (auto simp: of_char_def)

lemma hex_utf8: "valid_utf8 (hex_EncodeToString bs)"
  using hex_set [of bs] by (intro ascii_utf8) (auto intro: hex_ascii)

subsection \<open>Deadlines\<close>

lemma time_Unix_UnixNano:
  "- (2 ^ 63) \<le> ts - unix_epoch \<Longrightarrow> ts - unix_epoch < 2 ^ 63 \<Longrightarrow> time_Unix (UnixNano ts) = ts"
  unfolding time_Unix_def UnixNano_def by (subst sint_of_int64) simp_all

lemma UnixNano_positive:
  "- (2 ^ 63) \<le> ts - unix_epoch \<Longrightarrow> ts - unix_epoch < 2 ^ 63 \<Longrightarrow>
   0 <s UnixNano ts \<longleftrightarrow> unix_epoch < ts"
  unfolding UnixNano_def word_sless_alt by (subst sint_of_int64) auto

lemma serve_context_call:
  assumes "ctx_deadline ctx = Some dl" "unix_epoch < dl" "dl - unix_epoch < 2 ^ 63"
  shows "serve_context now (call_envelope i ctx target method args e) owner = ctx"
proof -
  have "0 <s UnixNano dl" "time_Unix (UnixNano dl) = dl"
    using assms(2,3) UnixNano_positive [of dl] time_Unix_UnixNano [of dl] by simp_all
  with assms(1) show ?thesis by (cases ctx) (simp add: serve_context_def call_envelope_def)
qed

subsection \<open>Envelopes\<close>

text \<open>
  What the program relies on: an envelope whose strings are valid UTF-8 can be encoded (its
  fields are strings, bytes and an integer) and decodes to itself.
\<close>

definition env_utf8 :: "envelope \<Rightarrow> bool" where
  "env_utf8 e \<longleftrightarrow> valid_utf8 (en_Type e) \<and> valid_utf8 (en_ID e) \<and> valid_utf8 (en_Reply e) \<and>
     valid_utf8 (en_Target e) \<and> valid_utf8 (en_Method e) \<and> valid_utf8 (en_Error e)"

definition env_roundtrip :: "EnvJson \<Rightarrow> bool" where
  "env_roundtrip EJ \<longleftrightarrow>
     (\<forall>e. env_utf8 e \<longrightarrow> (\<exists>raw. marshalEnv EJ e = Inr raw \<and> unmarshalEnv EJ raw = Inr e))"

lemma env_roundtripE:
  assumes "env_roundtrip EJ" "env_utf8 e"
  obtains raw where "marshalEnv EJ e = Inr raw" "unmarshalEnv EJ raw = Inr e"
  using assms by (auto simp: env_roundtrip_def)

lemma utf8_ok_append: "utf8_ok xs \<Longrightarrow> utf8_ok ys \<Longrightarrow> utf8_ok (xs @ ys)"
proof (induction xs rule: utf8_ok.induct)
  case (2 a xs)
  show ?case
  proof (cases "a < 128")
    case True
    with 2 show ?thesis by simp
  next
    case a: False
    with "2.prems" obtain b xs1 where xs: "xs = b # xs1" by (cases xs) simp_all
    show ?thesis
    proof (cases "194 \<le> a \<and> a \<le> 223")
      case True
      with "2.prems" "2.IH"(2) [OF a xs] a show ?thesis by (simp add: xs)
    next
      case b: False
      with "2.prems" a xs obtain c xs2 where xs1: "xs1 = c # xs2" by (cases xs1) simp_all
      show ?thesis
      proof (cases "224 \<le> a \<and> a \<le> 239")
        case True
        have "utf8_ok xs2" using "2.prems"(1) a b True by (simp add: xs xs1)
        with "2.IH"(3) [OF a xs b xs1 True] "2.prems" have "utf8_ok (xs2 @ ys)" by blast
        with "2.prems"(1) a b True show ?thesis by (simp add: xs xs1)
      next
        case c: False
        with "2.prems" a b xs xs1 obtain d xs3 where xs2: "xs2 = d # xs3" by (cases xs2) simp_all
        have "utf8_ok xs3" using "2.prems"(1) a b c by (simp add: xs xs1 xs2)
        with "2.IH"(4) [OF a xs b xs1 c xs2] "2.prems" have "utf8_ok (xs3 @ ys)" by blast
        with "2.prems"(1) a b c show ?thesis by (simp add: xs xs1 xs2)
      qed
    qed
  qed
qed simp

lemma valid_utf8_append: "valid_utf8 a \<Longrightarrow> valid_utf8 b \<Longrightarrow> valid_utf8 (a @ b)"
  by (simp add: valid_utf8_def utf8_ok_append)

lemma utf8_texts [simp]:
  "valid_utf8 ''''" "valid_utf8 typeCall" "valid_utf8 typeReply" "valid_utf8 text_busy"
  by (simp_all add: valid_utf8_def typeCall_def typeReply_def text_busy_def of_char_def)

lemma utf8_no_handler:
  "valid_utf8 target \<Longrightarrow> valid_utf8 method \<Longrightarrow> valid_utf8 (text_no_handler target method)"
  unfolding text_no_handler_def
  by (intro valid_utf8_append) (simp_all add: valid_utf8_def of_char_def)

subsection \<open>A concrete encoding\<close>

definition sample_marshalEnv :: "envelope \<Rightarrow> bytes" where
  "sample_marshalEnv e =
    put_bytes (str_bytes (en_Type e)) @ put_bytes (str_bytes (en_ID e)) @
    put_bytes (str_bytes (en_Reply e)) @ put_bytes (str_bytes (en_Target e)) @
    put_bytes (str_bytes (en_Method e)) @ put_bytes (en_Args e) @
    put_bytes (str_bytes (en_Error e)) @ put_bytes (en_Result e) @
    put_nat (unat (en_DeadlineNanos e))"

definition sample_unmarshalEnv :: "bytes \<Rightarrow> envelope option" where
  "sample_unmarshalEnv r0 =
     Option.bind (get_bytes r0) (\<lambda>(ty, r1).
     Option.bind (get_bytes r1) (\<lambda>(i, r2).
     Option.bind (get_bytes r2) (\<lambda>(rep, r3).
     Option.bind (get_bytes r3) (\<lambda>(target, r4).
     Option.bind (get_bytes r4) (\<lambda>(method, r5).
     Option.bind (get_bytes r5) (\<lambda>(args, r6).
     Option.bind (get_bytes r6) (\<lambda>(err, r7).
     Option.bind (get_bytes r7) (\<lambda>(res, r8).
     Option.bind (get_nat r8) (\<lambda>(dl, r9).
       Some \<lparr>en_Type = bytes_str ty, en_ID = bytes_str i, en_Reply = bytes_str rep,
             en_Target = bytes_str target, en_Method = bytes_str method, en_Args = args,
             en_Error = bytes_str err, en_Result = res, en_DeadlineNanos = of_nat dl\<rparr>)))))))))"

lemma sample_env: "sample_unmarshalEnv (sample_marshalEnv e) = Some e"
  using get_put_nat [of "unat (en_DeadlineNanos e)" "[]"]
  by (simp add: sample_unmarshalEnv_def sample_marshalEnv_def)

definition sample_envjson :: EnvJson where
  "sample_envjson = \<lparr>marshalEnv = (\<lambda>e. Inr (sample_marshalEnv e)),
     unmarshalEnv = (\<lambda>b. or_bad (sample_unmarshalEnv b))\<rparr>"

lemma sample_envjson_simps [simp]:
  "marshalEnv sample_envjson e = Inr (sample_marshalEnv e)"
  "unmarshalEnv sample_envjson (sample_marshalEnv e) = Inr e"
  by (simp_all add: sample_envjson_def or_bad_def sample_env)

lemma sample_env_roundtrip: "env_roundtrip sample_envjson"
  by (simp add: env_roundtrip_def)

subsection \<open>A concrete endpoint\<close>

definition sample_route_codec :: "Route Codec" where
  "sample_route_codec =
    \<lparr>Marshal = (\<lambda>r. Inr (put_bytes (str_bytes (rt_PodID r)) @ put_int (rt_UpdatedAt r))),
     Unmarshal = (\<lambda>b. or_bad (Option.bind (get_bytes b) (\<lambda>(p, r1).
       Option.bind (get_int r1) (\<lambda>(u, r2). Some \<lparr>rt_PodID = bytes_str p, rt_UpdatedAt = u\<rparr>))))\<rparr>"

lemma sample_route_codec_roundtrip: "codec_roundtrip sample_route_codec"
proof -
  have "get_int (put_int i) = Some (i, [])" for i using get_put_int [of i "[]"] by simp
  then show ?thesis by (auto simp: codec_roundtrip_def sample_route_codec_def or_bad_def)
qed

definition echo :: Handler where "echo ctx args = Inr args"

definition sample_callopts :: "string \<Rightarrow> callOptions" where
  "sample_callopts i = \<lparr>co_SelfID = i, co_RoutingTopic = '''', co_InboxPrefix = '''', co_CallTimeout = 0,
     co_OnError = True, co_MaxConcurrentHandlers = 2\<rparr>"

definition sample_routing :: "string \<Rightarrow> Route store" where
  "sample_routing i = apply_options [OptNodeID i, OptErrorHandler True]
     (default_store zero_Route sample_route_codec ''callreply:routing'')"

definition sample_ep :: "string \<Rightarrow> nat \<Rightarrow> Endpoint" where
  "sample_ep i sub = \<lparr>ep_selfID = i, ep_inboxPrefix = ''callreply:inbox:'', ep_inbox = ''callreply:inbox:'' @ i,
     ep_timeout = 5000000000, ep_onError = True, ep_reports = [], ep_sem = 0, ep_semCap = 2,
     ep_routing = sample_routing i, ep_handlers = Map.empty, ep_pending = Map.empty,
     ep_chans = (\<lambda>_. None), ep_nextch = 0, ep_closed = False, ep_sub = sub\<rparr>"

lemma sample_routing_simps [simp]:
  "s_data (sample_routing i) = Map.empty" "s_closed (sample_routing i) = False"
  "s_codec (sample_routing i) = sample_route_codec" "s_zero (sample_routing i) = zero_Route"
  "s_topic (sample_routing i) = ''callreply:routing''" "s_seq (sample_routing i) = 0"
  "i \<noteq> '''' \<Longrightarrow> s_nodeID (sample_routing i) = i" "s_merger (sample_routing i) = None"
  "s_watchers (sample_routing i) = []" "s_panic (sample_routing i) = False"
  by (simp_all add: sample_routing_def apply_options_def default_store_def WithNodeID_def WithErrorHandler_def)

lemma sample_ep_new:
  assumes "i \<noteq> ''''"
  shows "Endpoint_New sample_route_codec sample_json (Inr '''') 0 [] (Some up_transport)
    (sample_callopts i) [] = (Inr (sample_ep i 0), [])"
proof -
  have "s_nodeID (sample_routing i) = i" using assms by simp
  then show ?thesis
    using assms
    by (simp add: Endpoint_New_def New_def sample_callopts_def sample_ep_def up_transport_def
        sample_routing_def Let_def)
qed

subsection \<open>Properties\<close>

text \<open>
  C40. The identifiers of calls and nodes. \<^verbatim>\<open>randomID\<close> takes twelve bytes from the random source and makes 24 lowercase
  hexadecimal digits of them: the identifiers of two calls are equal exactly when the first
  twelve bytes are, and an error of the random source is passed on.
\<close>

theorem randomID_hex:
  assumes "12 \<le> length bs"
  shows "\<exists>i. randomID (Inr bs) = Inr i \<and> length i = 24 \<and> set i \<subseteq> set ''0123456789abcdef'' \<and> valid_utf8 i \<and>
    (\<forall>bs'. 12 \<le> length bs' \<longrightarrow> (randomID (Inr bs') = Inr i \<longleftrightarrow> (\<forall>n < 12. bs' ! n = bs ! n))) \<and>
    randomID (Inl err) = Inl err"
proof -
  let ?b = "take 12 bs"
  have "randomID (Inr bs') = Inr (hex_EncodeToString ?b) \<longleftrightarrow> (\<forall>n < 12. bs' ! n = bs ! n)" if "12 \<le> length bs'" for bs'
  proof -
    have "randomID (Inr bs') = Inr (hex_EncodeToString ?b) \<longleftrightarrow> take 12 bs' = ?b"
      using hex_inj by (auto simp: randomID_def)
    then show ?thesis using assms that by (simp add: list_eq_iff_nth_eq)
  qed
  then show ?thesis using assms hex_set [of ?b] hex_utf8 [of ?b] by (auto simp: randomID_def hex_digits_def)
qed

theorem randomID_hex_witness:
  "\<exists>i. randomID (Inr (replicate 14 10)) = Inr i \<and> length i = 24 \<and>
     randomID (Inr (replicate 12 10 @ [3])) = Inr i \<and> randomID (Inr (replicate 11 10 @ [3])) \<noteq> Inr i"
proof -
  have "12 \<le> length (replicate 14 10 :: bytes)" by simp
  from randomID_hex [OF this, of bad_input] obtain i where i: "randomID (Inr (replicate 14 10)) = Inr i" "length i = 24"
    "12 \<le> length bs' \<Longrightarrow> (randomID (Inr bs') = Inr i \<longleftrightarrow> (\<forall>n < 12. bs' ! n = (replicate 14 10 :: bytes) ! n))" for bs'
    by blast
  have "(replicate 11 10 @ [3] :: bytes) ! 11 \<noteq> replicate 14 10 ! 11" by (simp add: nth_append)
  then have "randomID (Inr (replicate 11 10 @ [3])) \<noteq> Inr i" using i(3) [of "replicate 11 10 @ [3]"] by force
  moreover have "randomID (Inr (replicate 12 10 @ [3])) = Inr i"
    using i(3) [of "replicate 12 10 @ [3]"] by (auto simp: nth_append)
  ultimately show ?thesis using i(1,2) by blast
qed

text \<open>
  A handler runs under its caller's deadline. The context of a remote call is the caller's
  own, or ends after the caller's \<^verbatim>\<open>CallTimeout\<close> when that has no deadline; the owner's handler
  gets a context with exactly that deadline, whatever the owner's own timeout and clock, provided
  it lies after 1970 and less than \<open>2 ^ 63\<close> nanoseconds later.
\<close>

theorem deadline_propagates:
  assumes "Call_route now ctx target e = (There pod ctx1, e1)"
    and "ctx_deadline ctx \<noteq> None \<or> 0 <s ep_timeout e"
    and "ctx_deadline ctx1 = Some dl" "unix_epoch < dl" "dl - unix_epoch < 2 ^ 63"
  shows "serve_context now' (call_envelope i ctx1 target method args e1) owner = ctx1 \<and>
    dl = (case ctx_deadline ctx of None \<Rightarrow> now + sint (ep_timeout e) | Some dl0 \<Rightarrow> dl0)"
proof -
  have "ctx1 = (if ctx_deadline ctx = None \<and> 0 <s ep_timeout e
      then with_timeout now (ep_timeout e) else ctx)"
    using assms(1) by (auto simp: Call_route_def Let_def split: if_splits prod.splits)
  with assms(2,3) serve_context_call [OF assms(3-5)] show ?thesis
    by (auto simp: with_timeout_def split: if_splits option.splits)
qed

definition far_route :: "Route entry" where
  "far_route = \<lparr>e_Value = \<lparr>rt_PodID = ''A'', rt_UpdatedAt = 0\<rparr>, e_Timestamp = 1, e_Origin = ''A'',
     e_Tombstone = False, e_Seq = 1\<rparr>"

text \<open>The endpoint \<open>B\<close>, which knows that \<open>A\<close> owns \<^verbatim>\<open>svc\<close>.\<close>

definition sample_caller :: "nat \<Rightarrow> Endpoint" where
  "sample_caller sub = (sample_ep ''B'' sub)\<lparr>ep_routing := (sample_routing ''B'')\<lparr>s_data := [''svc'' \<mapsto> far_route]\<rparr>\<rparr>"

lemma sample_caller_route:
  "ctx_deadline ctx = Some dl \<Longrightarrow>
   fst (Call_route now ctx ''svc'' (sample_caller sub)) = There ''A'' ctx"
  by (simp add: Call_route_def Endpoint_isClosed_def sample_caller_def sample_ep_def Get_def far_route_def Let_def)

theorem deadline_propagates_witness:
  "\<exists>e1. Call_route 7 \<lparr>ctx_deadline = Some 63000000000000000000\<rparr> ''svc'' (sample_caller 0) =
       (There ''A'' \<lparr>ctx_deadline = Some 63000000000000000000\<rparr>, e1) \<and>
     serve_context 9 (call_envelope ''i'' \<lparr>ctx_deadline = Some 63000000000000000000\<rparr> ''svc'' ''m'' [] e1)
       (sample_ep ''A'' 0) = \<lparr>ctx_deadline = Some 63000000000000000000\<rparr>"
proof -
  let ?c = "\<lparr>ctx_deadline = Some 63000000000000000000\<rparr>"
  obtain e1 where r: "Call_route 7 ?c ''svc'' (sample_caller 0) = (There ''A'' ?c, e1)"
    using sample_caller_route [of ?c 63000000000000000000 7 0]
    by (cases "Call_route 7 ?c ''svc'' (sample_caller 0)") simp
  have "serve_context 9 (call_envelope ''i'' ?c ''svc'' ''m'' [] e1) (sample_ep ''A'' 0) = ?c"
    using deadline_propagates [OF r, of 63000000000000000000 9 "''i''" "''m''" "[]" "sample_ep ''A'' 0"]
    by (simp add: unix_epoch_def)
  with r show ?thesis by blast
qed

end
