(* ===== verification/Call_Routes.thy ===== *)
theory Call_Routes
  imports Call_Values
begin

section \<open>Routes: registering, releasing and finding owners\<close>

text \<open>
  What \<^verbatim>\<open>Register\<close>, \<^verbatim>\<open>Unregister\<close>, \<^verbatim>\<open>Owner\<close> and the routing half of \<^verbatim>\<open>Call\<close> do to the routing
  store and to the table of handlers, and what an endpoint does with messages it cannot use.
\<close>

lemma Owner_view:
  "fst (Owner target e) = (case s_data (ep_routing e) target of
     None \<Rightarrow> ('''', False)
   | Some r \<Rightarrow> if e_Tombstone r then ('''', False) else (rt_PodID (e_Value r), True))"
  by (simp add: Owner_def Get_def Let_def split: option.split)

lemma Call_route_owner:
  assumes "\<not> ep_closed e" "s_data (ep_routing e) target = Some r" "\<not> e_Tombstone r"
  shows "\<exists>ctx1. fst (Call_route now ctx target e) =
    (if rt_PodID (e_Value r) = ep_selfID e then Here ctx1 else There (rt_PodID (e_Value r)) ctx1)"
  using assms by (simp add: Call_route_def Endpoint_isClosed_def Get_def Let_def)

lemma Call_route_none:
  assumes "\<not> ep_closed e" "\<not> snd (fst (Owner target e))"
  shows "fst (Call_route now ctx target e) = Failed (CrQuoted ''callreply: no route for'' target)"
  using assms by (auto simp: Call_route_def Endpoint_isClosed_def Owner_def Get_def Let_def
      split: option.splits if_splits)

text \<open>The route a first registration leaves in the own routing store, whatever the transport answers.\<close>

lemma Set_route_data:
  assumes "\<not> s_closed s" "Marshal (s_codec s) v = Inr p" "s_merger s = None"
    and "beats (Stamp now (s_nodeID s) (s_seq s + 1)) (s_data s k)"
    and "Set T J now k v s t = (err, s', t')"
  shows "\<exists>r. s_data s' k = Some r \<and> e_Value r = v \<and> \<not> e_Tombstone r"
proof -
  have "s_data s' = (s_data s)(k \<mapsto> msg_entry (stamp_msg kindSet k p now s) v)"
    using assms write_tail_data [of T J "stamp_msg kindSet k p now s" v "stamped s" t]
    by (auto simp: Set_eq stored_value_def)
  then show ?thesis by (simp add: msg_entry_def)
qed

lemma Delete_route_data:
  assumes "\<not> s_closed s" "beats (Stamp now (s_nodeID s) (s_seq s + 1)) (s_data s k)"
    and "Delete T J now k s t = (err, s', t')"
  shows "\<exists>r. s_data s' k = Some r \<and> e_Tombstone r"
proof -
  have "\<exists>v. s_data s' = (s_data s)(k \<mapsto> msg_entry (stamp_msg kindDelete k [] now s) v)"
    using assms write_tail_data [of T J "stamp_msg kindDelete k [] now s" "s_zero s" "stamped s" t]
    by (auto simp: Delete_eq)
  then show ?thesis by (auto simp: msg_entry_def)
qed

text \<open>A target that already has handlers: nothing but the table of handlers changes.\<close>

lemma Register_again:
  assumes "target \<noteq> ''''" "method \<noteq> ''''" "ep_handlers e target = Some ms"
  shows "Register T J at now target method (Some h) e t =
    (None, e\<lparr>ep_handlers := (ep_handlers e)(target \<mapsto> ms(method \<mapsto> h))\<rparr>, t)"
  using assms by (simp add: Register_def Let_def)

lemma Register_first:
  assumes "target \<noteq> ''''" "method \<noteq> ''''" "ep_handlers e target = None"
    and "Register T J at now target method (Some h) e t = (err, e', t')"
  shows "\<exists>serr s'. Set T J now target \<lparr>rt_PodID = ep_selfID e, rt_UpdatedAt = at\<rparr> (ep_routing e) t = (serr, s', t') \<and>
    err = map_option CrErr serr \<and>
    e' = e\<lparr>ep_handlers := (ep_handlers e)(target \<mapsto> [method \<mapsto> h]), ep_routing := s'\<rparr>"
  using assms by (auto simp: Register_def Let_def split: prod.splits)

subsection \<open>The receive loop\<close>

text \<open>The envelopes among the bytes the loop took.\<close>

definition decoded :: "EnvJson \<Rightarrow> bytes list \<Rightarrow> envelope list" where
  "decoded EJ raws = List.map_filter (\<lambda>raw. case unmarshalEnv EJ raw of Inl _ \<Rightarrow> None | Inr r \<Rightarrow> Some r) raws"

lemma decoded_simps [simp]:
  "decoded EJ [] = []"
  "decoded EJ (raw # raws) =
    (case unmarshalEnv EJ raw of Inl _ \<Rightarrow> decoded EJ raws | Inr r \<Rightarrow> r # decoded EJ raws)"
  by (simp_all add: decoded_def List.map_filter_simps split: sum.split)

lemma handleInbound_effect:
  assumes "\<And>j. ep_pending e j = Some ch \<longleftrightarrow> j = i"
  shows "ep_pending (snd (handleInbound EJ raw e)) = ep_pending e \<and>
    ep_chans (snd (handleInbound EJ raw e)) ch =
      (case (ep_chans e ch, unmarshalEnv EJ raw) of
         (None, Inr r) \<Rightarrow> if en_Type r = typeReply \<and> en_ID r = i then Some r else None
       | (c, _) \<Rightarrow> c)"
proof -
  have "ep_pending e i = Some ch" "\<And>r. ep_pending e (en_ID r) = Some ch \<Longrightarrow> en_ID r = i"
    using assms by blast+
  then show ?thesis
    by (auto simp: handleInbound_def Endpoint_report_def deliverReply_def deliver_lookup_def deliver_send_def
        split: sum.split option.split)
qed

lemma recvLoop_calls:
  "fst (Endpoint_recvLoop EJ raws e) = filter (\<lambda>c. en_Type c = typeCall) (decoded EJ raws)"
  by (induction raws arbitrary: e) (auto simp: handleInbound_def case_prod_unfold split: sum.split option.split)

lemma recvLoop_channel:
  assumes "\<And>j. ep_pending e j = Some ch \<longleftrightarrow> j = i"
  shows "ep_chans (snd (Endpoint_recvLoop EJ raws e)) ch =
    (case ep_chans e ch of Some r \<Rightarrow> Some r
     | None \<Rightarrow> List.find (\<lambda>r. en_Type r = typeReply \<and> en_ID r = i) (decoded EJ raws))"
  using assms
proof (induction raws arbitrary: e)
  case Nil
  then show ?case by (simp split: option.split)
next
  case (Cons raw raws)
  note eff = handleInbound_effect [OF Cons.prems, of EJ raw]
  have "\<And>j. ep_pending (snd (handleInbound EJ raw e)) j = Some ch \<longleftrightarrow> j = i"
    using eff Cons.prems by simp
  from Cons.IH [OF this] eff show ?case
    by (cases "ep_chans e ch"; cases "unmarshalEnv EJ raw")
       (auto split: prod.split option.split)
qed

subsection \<open>Properties\<close>

text \<open>
  Registering claims the target. The first registration of a target whose stamp wins makes the
  endpoint its owner in the own routing table, whatever the transport answers, so that calls to it
  run here; later registrations add their handler and neither write the route nor publish.
\<close>

theorem Register_claims_target:
  assumes "target \<noteq> ''''" "method \<noteq> ''''" "ep_handlers e target = None"
    and "\<not> s_closed (ep_routing e)" "s_merger (ep_routing e) = None"
    and "Marshal (s_codec (ep_routing e)) \<lparr>rt_PodID = ep_selfID e, rt_UpdatedAt = at\<rparr> = Inr p"
    and "beats (Stamp now (s_nodeID (ep_routing e)) (s_seq (ep_routing e) + 1)) (s_data (ep_routing e) target)"
    and "Register T J at now target method (Some h) e t = (err, e', t')"
  shows "fst (Owner target e') = (ep_selfID e, True) \<and> find_handler target method e' = Some h \<and>
    (\<not> ep_closed e \<longrightarrow> (\<exists>ctx1. fst (Call_route now1 ctx target e') = Here ctx1)) \<and>
    (method2 \<noteq> '''' \<longrightarrow> (\<exists>e2. Register T J at2 now2 target method2 (Some h2) e' t' = (None, e2, t') \<and>
       ep_routing e2 = ep_routing e' \<and> find_handler target method2 e2 = Some h2))"
proof -
  obtain serr s' where s': "Set T J now target \<lparr>rt_PodID = ep_selfID e, rt_UpdatedAt = at\<rparr> (ep_routing e) t = (serr, s', t')"
      "e' = e\<lparr>ep_handlers := (ep_handlers e)(target \<mapsto> [method \<mapsto> h]), ep_routing := s'\<rparr>"
    using Register_first [OF assms(1-3,8)] by blast
  obtain r where r: "s_data s' target = Some r" "e_Value r = \<lparr>rt_PodID = ep_selfID e, rt_UpdatedAt = at\<rparr>"
      "\<not> e_Tombstone r"
    using Set_route_data [OF assms(4,6,5,7) s'(1)] by blast
  have "\<not> ep_closed e \<longrightarrow> (\<exists>ctx1. fst (Call_route now1 ctx target e') = Here ctx1)"
    using Call_route_owner [of e' target r now1 ctx] r s'(2) by auto
  moreover have "method2 \<noteq> '''' \<Longrightarrow> \<exists>e2. Register T J at2 now2 target method2 (Some h2) e' t' = (None, e2, t') \<and>
      ep_routing e2 = ep_routing e' \<and> find_handler target method2 e2 = Some h2"
    using Register_again [OF assms(1), of method2 e' "[method \<mapsto> h]" T J at2 now2 h2 t'] s'(2)
    by (simp add: find_handler_def)
  ultimately show ?thesis using r s'(2) by (simp add: Owner_view find_handler_def)
qed

lemma sample_ep_routing [simp]:
  "ep_routing (sample_ep i sub) = sample_routing i" "ep_handlers (sample_ep i sub) = Map.empty"
  "ep_selfID (sample_ep i sub) = i" "ep_closed (sample_ep i sub) = False"
  by (simp_all add: sample_ep_def)

theorem Register_claims_target_witness:
  "\<exists>err e' t'. Register up_transport sample_json 5 6 ''svc'' ''m'' (Some echo) (sample_ep ''A'' 0) [] = (err, e', t') \<and>
     fst (Owner ''svc'' e') = (''A'', True)"
proof -
  obtain err e' t' where r: "Register up_transport sample_json 5 6 ''svc'' ''m'' (Some echo) (sample_ep ''A'' 0) [] = (err, e', t')"
    by (metis prod.exhaust)
  then show ?thesis
    using Register_claims_target [OF _ _ _ _ _ _ _ r]
    by (simp add: sample_route_codec_def)
qed

text \<open>
  A registration that failed is not repeated. After a first registration returned an error, be
  it that the route was never broadcast, every further registration for the target returns
  no error and publishes nothing, so the other pods do not learn the route.
\<close>

theorem failed_Register_is_not_repeated:
  assumes "target \<noteq> ''''" "method \<noteq> ''''" "ep_handlers e target = None" "method2 \<noteq> ''''"
    and "Register T J at now target method (Some h) e t = (Some err, e', t')"
  shows "\<exists>e2. Register T J at2 now2 target method2 (Some h2) e' t' = (None, e2, t') \<and>
    ep_routing e2 = ep_routing e'"
proof -
  have "ep_handlers e' target = Some [method \<mapsto> h]" using Register_first [OF assms(1-3,5)] by auto
  from Register_again [OF assms(1,4) this, of T J at2 now2 h2 t'] show ?thesis by simp
qed

theorem failed_Register_is_not_repeated_witness:
  "\<exists>err e' e2. Register down_transport sample_json 5 6 ''svc'' ''m'' (Some echo) (sample_ep ''A'' 0) [] = (Some err, e', []) \<and>
     Register down_transport sample_json 7 8 ''svc'' ''m'' (Some echo) e' [] = (None, e2, [])"
proof -
  have "fst (Register down_transport sample_json 5 6 ''svc'' ''m'' (Some echo) (sample_ep ''A'' 0) []) \<noteq> None"
    "snd (snd (Register down_transport sample_json 5 6 ''svc'' ''m'' (Some echo) (sample_ep ''A'' 0) [])) = []"
    by (simp_all add: Register_def Let_def Set_eq write_tail_def sample_route_codec_def)
  then obtain err e' where r: "Register down_transport sample_json 5 6 ''svc'' ''m'' (Some echo) (sample_ep ''A'' 0) [] =
      (Some err, e', [])"
    by (metis option.exhaust prod.collapse)
  then show ?thesis
    using failed_Register_is_not_repeated [OF _ _ _ _ r, of "''m''" 7 8 echo] by (simp) blast
qed

text \<open>
  C38. Releasing a target deletes its route whoever owns it. An \<^verbatim>\<open>Unregister\<close> whose stamp wins leaves
  the target without an owner and without handlers here, also when another pod has claimed the
  target since; calls to it then fail for want of a route.
\<close>

theorem Unregister_deletes_any_route:
  assumes "\<not> s_closed (ep_routing e)" "\<not> ep_closed e"
    and "beats (Stamp now (s_nodeID (ep_routing e)) (s_seq (ep_routing e) + 1)) (s_data (ep_routing e) target)"
    and "Unregister T J now target e t = (err, e', t')"
  shows "fst (Owner target e') = ('''', False) \<and> find_handler target method e' = None \<and>
    fst (Call_route now1 ctx target e') = Failed (CrQuoted ''callreply: no route for'' target)"
proof -
  obtain serr s' where s': "Delete T J now target (ep_routing e) t = (serr, s', t')"
      "e' = e\<lparr>ep_handlers := (ep_handlers e)(target := None), ep_routing := s'\<rparr>"
    using assms(4) by (auto simp: Unregister_def Let_def split: prod.splits)
  obtain r where "s_data s' target = Some r" "e_Tombstone r"
    using Delete_route_data [OF assms(1,3) s'(1)] by blast
  then have "fst (Owner target e') = ('''', False)" by (simp add: Owner_view s'(2))
  then show ?thesis
    using Call_route_none [of e' target now1 ctx] assms(2) by (simp add: find_handler_def s'(2))
qed

theorem Unregister_deletes_any_route_witness:
  "\<exists>err e' t'. fst (Owner ''svc'' (sample_caller 0)) = (''A'', True) \<and> ep_selfID (sample_caller 0) = ''B'' \<and>
     Unregister up_transport sample_json 9 ''svc'' (sample_caller 0) [] = (err, e', t') \<and>
     fst (Owner ''svc'' e') = ('''', False)"
proof -
  obtain err e' t' where u: "Unregister up_transport sample_json 9 ''svc'' (sample_caller 0) [] = (err, e', t')"
    by (metis prod.exhaust)
  have "fst (Owner ''svc'' (sample_caller 0)) = (''A'', True)" "ep_selfID (sample_caller 0) = ''B''"
    by (simp_all add: Owner_view sample_caller_def far_route_def)
  moreover have "beats (Stamp 9 ''B'' 1) (Some far_route)"
    by (simp add: far_route_def entry_stamp_def less_stamp_def)
  ultimately show ?thesis
    using u Unregister_deletes_any_route [OF _ _ _ u, of "''m''"]
    by (simp add: sample_caller_def del: beats_simps)
qed


text \<open>
  The receive loop delivers the first reply to a call and starts one goroutine per call. Of
  everything the loop takes from the inbox (calls, replies to this and other calls, repeated
  replies, undecodable bytes, unknown types), the channel of a waiting call ends up with the first
  reply that carries its identifier, and the calls to serve are the decoded ones in order.
\<close>

theorem first_reply_is_delivered:
  assumes "\<And>j. ep_pending e j = Some ch \<longleftrightarrow> j = i" "ep_chans e ch = None"
  shows "ep_chans (snd (Endpoint_recvLoop EJ raws e)) ch =
      List.find (\<lambda>r. en_Type r = typeReply \<and> en_ID r = i) (decoded EJ raws) \<and>
    fst (Endpoint_recvLoop EJ raws e) = filter (\<lambda>c. en_Type c = typeCall) (decoded EJ raws)"
  using recvLoop_channel [OF assms(1), of EJ raws] assms(2) recvLoop_calls by simp

theorem first_reply_is_delivered_witness:
  "\<exists>r1 r2. r1 \<noteq> r2 \<and> ep_chans (snd (Endpoint_recvLoop sample_envjson [sample_marshalEnv r1, sample_marshalEnv r2]
     ((sample_ep ''B'' 0)\<lparr>ep_pending := [''i'' \<mapsto> 0]\<rparr>))) 0 = Some r1"
proof -
  let ?r1 = "no_envelope\<lparr>en_Type := typeReply, en_ID := ''i'', en_Result := [1]\<rparr>"
  let ?r2 = "no_envelope\<lparr>en_Type := typeReply, en_ID := ''i'', en_Result := [2]\<rparr>"
  let ?e = "(sample_ep ''B'' 0)\<lparr>ep_pending := [''i'' \<mapsto> 0]\<rparr>"
  have "\<And>j. ep_pending ?e j = Some 0 \<longleftrightarrow> j = ''i''" "ep_chans ?e 0 = None" "?r1 \<noteq> ?r2"
    by (simp_all add: sample_ep_def no_envelope_def)
  with first_reply_is_delivered [of ?e 0 "''i''" sample_envjson "[sample_marshalEnv ?r1, sample_marshalEnv ?r2]"]
  show ?thesis by (intro exI [of _ ?r1] exI [of _ ?r2]) simp
qed

text \<open>
  Closing an endpoint ends its calls. After \<^verbatim>\<open>Close\<close> the routing store is closed, every call that
  waits can return with the error that the endpoint is closed, which removes its entry, every new
  call fails with it and changes nothing, and so does a second \<^verbatim>\<open>Close\<close>.
\<close>

theorem Endpoint_Close_ends_calls:
  assumes "\<not> ep_closed e" "Endpoint_Close T J now ks e t = (e', t')"
  shows "ep_closed e' \<and> s_closed (ep_routing e') \<and>
    Call_return EndpointClosed i ch e' = Some (Inl errCallClosed, drop_pending i e') \<and>
    Call T EJ now2 rnd others ev ctx target method args e' t' = Some (Inl errCallClosed, e', t') \<and>
    Endpoint_Close T J now2 ks2 e' t' = (e', t')"
proof -
  obtain err routing where c: "Close T J now ks (ep_routing e) t = (err, routing, t')"
      "e' = e\<lparr>ep_closed := True, ep_routing := routing\<rparr>"
    using assms by (auto simp: Endpoint_Close_def Endpoint_isClosed_def split: prod.splits)
  have "s_closed routing" using Close_closed [OF c(1)] .
  with c(2) show ?thesis
    by (simp add: Call_return_def Call_select_def Call_def Call_route_def Endpoint_Close_def Endpoint_isClosed_def)
qed

theorem Endpoint_Close_ends_calls_witness:
  "\<exists>e' t'. Endpoint_Close up_transport sample_json 5 [] (sample_ep ''A'' 0) [] = (e', t') \<and>
     Call up_transport sample_envjson 6 (Inr []) id GotReply \<lparr>ctx_deadline = None\<rparr> ''svc'' ''m'' [] e' t' =
       Some (Inl errCallClosed, e', t')"
proof -
  obtain e' t' where c: "Endpoint_Close up_transport sample_json 5 [] (sample_ep ''A'' 0) [] = (e', t')"
    by (metis prod.exhaust)
  with Endpoint_Close_ends_calls [OF _ c] show ?thesis by auto
qed

end
