(* ===== verification/Call_Roundtrip.thy ===== *)
theory Call_Roundtrip
  imports Call_Values
begin

section \<open>A call from one pod to another and back\<close>

text \<open>
  Calls need of a transport that what is published on a topic arrives in the channel of every
  subscriber that has room, and is received in order: the locale \<open>message_bus\<close>, which the
  in-memory transport interprets. Inside it a call is followed from \<open>Call\<close> on one endpoint
  through the inbox, the handler and the reply on another back to the caller.
\<close>

subsection \<open>A call on the way\<close>

text \<open>
  What happens to a call on the way: the owner's receive loop takes it from the inbox \<open>a\<close> and
  serves it, then the caller's receive loop takes the reply from the inbox \<open>b\<close>.
\<close>

definition owner_serves :: "'t Transport \<Rightarrow> EnvJson \<Rightarrow> (nat \<Rightarrow> 't \<Rightarrow> bytes option \<times> 't) \<Rightarrow> time
    \<Rightarrow> nat \<Rightarrow> Endpoint \<Rightarrow> 't \<Rightarrow> Endpoint \<times> 't" where
  "owner_serves T EJ recv now a A t =
    (case recv a t of
       (None, t1) \<Rightarrow> (A, t1)
     | (Some raw, t1) \<Rightarrow>
         (case handleInbound EJ raw A of
            (None, A1) \<Rightarrow> (A1, t1)
          | (Some c, A1) \<Rightarrow> serveCall T EJ now c A1 t1))"

definition caller_receives :: "EnvJson \<Rightarrow> (nat \<Rightarrow> 't \<Rightarrow> bytes option \<times> 't) \<Rightarrow> nat
    \<Rightarrow> Endpoint \<times> 't \<Rightarrow> Endpoint \<times> 't" where
  "caller_receives EJ recv b Bt =
    (case recv b (snd Bt) of
       (None, t1) \<Rightarrow> (fst Bt, t1)
     | (Some raw, t1) \<Rightarrow> (snd (handleInbound EJ raw (fst Bt)), t1))"

definition call_trip :: "'t Transport \<Rightarrow> EnvJson \<Rightarrow> (nat \<Rightarrow> 't \<Rightarrow> bytes option \<times> 't) \<Rightarrow> time
    \<Rightarrow> nat \<Rightarrow> nat \<Rightarrow> Endpoint \<Rightarrow> Endpoint \<times> 't \<Rightarrow> Endpoint \<times> 't" where
  "call_trip T EJ recv now a b A Bt =
    caller_receives EJ recv b (fst Bt, snd (owner_serves T EJ recv now a A (snd Bt)))"

subsection \<open>The owner's side\<close>

text \<open>The reply to a call: busy, no handler, or what the handler returned.\<close>

definition answer :: "time \<Rightarrow> envelope \<Rightarrow> Endpoint \<Rightarrow> envelope" where
  "answer now c e =
    (if ep_sem e < ep_semCap e then
       (case find_handler (en_Target c) (en_Method c) e of
          None \<Rightarrow> (reply_to c)\<lparr>en_Error := text_no_handler (en_Target c) (en_Method c)\<rparr>
        | Some h \<Rightarrow> serve_reply c (h (serve_context now c e) (en_Args c)))
     else (reply_to c)\<lparr>en_Error := text_busy\<rparr>)"

lemma find_handler_sem [simp]: "find_handler target method (e\<lparr>ep_sem := n\<rparr>) = find_handler target method e"
  by (simp add: find_handler_def)

lemma serve_context_sem [simp]: "serve_context now c (e\<lparr>ep_sem := n\<rparr>) = serve_context now c e"
  by (simp add: serve_context_def)

lemma sendReply_sem:
  "sendReply T EJ inbox r (e\<lparr>ep_sem := n\<rparr>) t = apfst (\<lambda>e. e\<lparr>ep_sem := n\<rparr>) (sendReply T EJ inbox r e t)"
  by (auto simp: sendReply_def Endpoint_report_def split: sum.split prod.split option.split)

lemma sendReply_keeps_sem: "ep_sem (fst (sendReply T EJ inbox r e t)) = ep_sem e"
  by (auto simp: sendReply_def Endpoint_report_def split: sum.split prod.split option.split)

text \<open>Whatever it finds, \<^verbatim>\<open>serveCall\<close> sends one answer and leaves the slots as they were.\<close>

lemma serveCall_answer:
  "serveCall T EJ now c e t = sendReply T EJ (en_Reply c) (answer now c e) e t"
proof (cases "ep_sem e < ep_semCap e")
  case True
  have "apfst sem_release (sendReply T EJ inbox r (e\<lparr>ep_sem := Suc (ep_sem e)\<rparr>) t) =
      sendReply T EJ inbox r e t" for inbox r
    using sendReply_keeps_sem [of T EJ inbox r e t]
    by (cases "sendReply T EJ inbox r e t") (simp add: sendReply_sem sem_release_def)
  with True show ?thesis
    by (simp add: serveCall_def serve_start_def sem_acquire_def answer_def split: option.split)
qed (simp add: serveCall_def serve_start_def sem_acquire_def answer_def)

lemma answer_own: "en_Type (answer now c e) = typeReply \<and> en_ID (answer now c e) = en_ID c"
  by (simp add: answer_def serve_reply_def reply_to_def split: option.split sum.split)

text \<open>What the caller makes of the answer.\<close>

definition reply_result :: "envelope \<Rightarrow> callerror + bytes" where
  "reply_result r = (if en_Error r \<noteq> '''' then Inl (CrText (en_Error r)) else Inr (en_Result r))"

lemma call_envelope_simps [simp]:
  "en_Type (call_envelope i ctx target method args e) = typeCall"
  "en_ID (call_envelope i ctx target method args e) = i"
  "en_Reply (call_envelope i ctx target method args e) = ep_inbox e"
  "en_Target (call_envelope i ctx target method args e) = target"
  "en_Method (call_envelope i ctx target method args e) = method"
  "en_Args (call_envelope i ctx target method args e) = args"
  "en_Error (call_envelope i ctx target method args e) = ''''"
  by (simp_all add: call_envelope_def no_envelope_def)

text \<open>A handler whose error texts JSON keeps as they are.\<close>

definition utf8_errors :: "string \<Rightarrow> string \<Rightarrow> Endpoint \<Rightarrow> bool" where
  "utf8_errors target method e \<longleftrightarrow> (\<forall>h ctx args err.
     find_handler target method e = Some h \<longrightarrow> h ctx args = Inl err \<longrightarrow> valid_utf8 err)"

lemma answer_utf8:
  assumes "env_utf8 c" "utf8_errors (en_Target c) (en_Method c) e"
  shows "env_utf8 (answer now c e)"
  using assms
  by (auto simp: answer_def env_utf8_def serve_reply_def reply_to_def no_envelope_def utf8_no_handler
      utf8_errors_def split: option.split sum.split)

subsection \<open>There and back\<close>

lemma Call_route_There:
  assumes "Call_route now ctx target e = (There pod ctx1, e1)"
  shows "\<exists>routing. e1 = e\<lparr>ep_routing := routing\<rparr>"
  using assms by (auto simp: Call_route_def Let_def split: if_splits prod.splits)

text \<open>The endpoint of a caller that waits for \<open>i\<close> on channel \<open>ch\<close>, and then has its reply.\<close>

lemma reply_arrives:
  assumes "unmarshalEnv EJ raw = Inr r" "en_Type r = typeReply" "ep_pending e (en_ID r) = Some ch"
    "ep_chans e ch = None"
  shows "\<exists>e'. Call_return GotReply (en_ID r) ch (snd (handleInbound EJ raw e)) =
    Some (reply_result r, e') \<and> ep_pending e' = (ep_pending e)(en_ID r := None)"
  using assms
  by (simp add: handleInbound_def deliverReply_def deliver_lookup_def deliver_send_def Call_return_def Call_select_def
      Let_def drop_pending_def reply_result_def)

context message_bus
begin

lemma owner_answers:
  assumes EJ: "env_roundtrip EJ" and "up t" "recv a t0 = (Some raw, t)"
    and raw: "unmarshalEnv EJ raw = Inr c" "en_Type c = typeCall" "env_utf8 c" "en_Reply c \<noteq> ''''"
    and b: "b \<in> set (subs t (en_Reply c))" "queue t b = []"
    and h: "utf8_errors (en_Target c) (en_Method c) A"
  shows "\<exists>raw' t1. unmarshalEnv EJ raw' = Inr (answer now c A) \<and> up t1 \<and>
    recv b (snd (owner_serves T EJ recv now a A t0)) = (Some raw', t1)"
proof -
  obtain raw' where raw': "marshalEnv EJ (answer now c A) = Inr raw'"
      "unmarshalEnv EJ raw' = Inr (answer now c A)"
    using env_roundtripE [OF EJ answer_utf8 [OF raw(3) h]] by blast
  obtain t1 t2 where "tr_Publish T (en_Reply c) raw' t = (None, t1)" "recv b t1 = (Some raw', t2)" "up t2"
    using publish_recv [OF assms(2) b] by blast
  with assms(3) raw raw' show ?thesis
    by (simp add: owner_serves_def handleInbound_def serveCall_answer sendReply_def)
qed

lemma call_roundtrip:
  assumes EJ: "env_roundtrip EJ" and "up t"
    and route: "Call_route now ctx target B = (There pod ctx1, B1)"
    and a: "a \<in> set (subs t (ep_inboxPrefix B @ pod))" "queue t a = []"
    and b: "b \<in> set (subs t (ep_inbox B))" "queue t b = []" "b \<notin> set (subs t (ep_inboxPrefix B @ pod))"
    and utf8: "valid_utf8 target" "valid_utf8 method" "valid_utf8 (ep_inbox B)" "ep_inbox B \<noteq> ''''"
    and h: "utf8_errors target method A"
  shows "\<exists>B' t'. Call T EJ now (Inr rnd) (call_trip T EJ recv now' a b A) GotReply ctx target method args B t =
      Some (reply_result (answer now' (call_envelope (hex_EncodeToString (take 12 rnd)) ctx1 target method args B) A), B', t') \<and>
    ep_pending B' = (ep_pending B)(hex_EncodeToString (take 12 rnd) := None)"
proof -
  let ?i = "hex_EncodeToString (take 12 rnd)"
  let ?c = "call_envelope ?i ctx1 target method args B"
  obtain routing where B1: "B1 = B\<lparr>ep_routing := routing\<rparr>" using Call_route_There [OF route] by blast
  have c1: "call_envelope ?i ctx1 target method args B1 = ?c" by (simp add: call_envelope_def B1)
  have uc: "env_utf8 ?c" using utf8 hex_utf8 by (simp add: env_utf8_def)
  obtain raw where raw: "marshalEnv EJ ?c = Inr raw" "unmarshalEnv EJ raw = Inr ?c"
    using env_roundtripE [OF EJ uc] by blast
  obtain t1 t2 where t1: "tr_Publish T (ep_inboxPrefix B @ pod) raw t = (None, t1)"
      "recv a t1 = (Some raw, t2)" "up t2" "subs t2 = subs t" "queue t2 b = []"
    using publish_recv [OF assms(2) a, of raw] b(2,3) by auto
  let ?B2 = "B1\<lparr>ep_nextch := Suc (ep_nextch B), ep_chans := (ep_chans B)(ep_nextch B := None),
      ep_pending := (ep_pending B)(?i \<mapsto> ep_nextch B)\<rparr>"
  have send: "Call_send T EJ (Inr rnd) ctx1 pod target method args B1 t = (Inr (?i, ep_nextch B), ?B2, t1)"
    using t1(1) raw(1) by (simp add: Call_send_def Call_pend_def randomID_def c1 Let_def) (simp add: B1)
  obtain raw' t4 where r: "unmarshalEnv EJ raw' = Inr (answer now' ?c A)"
      "recv b (snd (owner_serves T EJ recv now' a A t1)) = (Some raw', t4)"
    using owner_answers [OF EJ t1(3,2) raw(2) _ uc, of b A now'] utf8(4) b(1) t1(4,5) h by auto
  obtain e' where "Call_return GotReply ?i (ep_nextch B) (snd (handleInbound EJ raw' ?B2)) =
      Some (reply_result (answer now' ?c A), e') \<and> ep_pending e' = (ep_pending ?B2)(?i := None)"
    using reply_arrives [OF r(1), of ?B2 "ep_nextch B"] answer_own [of now' ?c A] by auto
  then show ?thesis
    using route send r(2) by (simp add: Call_def call_trip_def caller_receives_def B1)
qed

end

subsection \<open>Two endpoints on a broker\<close>

definition inboxA :: string where "inboxA = ''callreply:inbox:A''"
definition inboxB :: string where "inboxB = ''callreply:inbox:B''"

definition sample_bus :: MemoryTransport where
  "sample_bus = snd (mem_Subscribe inboxB (snd (mem_Subscribe inboxA (NewMemoryTransport True))))"

lemma sample_bus_simps:
  "mem_inv sample_bus" "\<not> m_closed sample_bus" "m_subs sample_bus inboxA = [0]"
  "m_subs sample_bus inboxB = [1]" "ch_buf (m_heap sample_bus i) = []"
  using mem_subscribe_inv [OF mem_subscribe_inv [OF mem_new_inv, of inboxA], of inboxB True]
  by (simp_all add: sample_bus_def mem_Subscribe_def NewMemoryTransport_def Let_def inboxA_def inboxB_def)

definition sample_owner :: Endpoint where
  "sample_owner = (sample_ep ''A'' 0)\<lparr>ep_handlers := [''svc'' \<mapsto> [''m'' \<mapsto> echo]]\<rparr>"

lemma sample_pair_simps:
  "find_handler ''svc'' ''m'' sample_owner = Some echo" "ep_sem sample_owner = 0" "ep_semCap sample_owner = 2"
  "ep_inboxPrefix (sample_caller sub) @ ''A'' = inboxA" "ep_inbox (sample_caller sub) = inboxB"
  "valid_utf8 ''svc''" "valid_utf8 ''m''" "valid_utf8 inboxB" "inboxB \<noteq> ''''"
  by (simp_all add: sample_owner_def sample_caller_def sample_ep_def find_handler_def inboxA_def inboxB_def
      valid_utf8_def of_char_def)

subsection \<open>Properties\<close>

text \<open>
  C20. A remote call does what a local one does. Over the in-memory transport, a call to a target
  another pod owns, with a deadline the wire can carry, gets back what the owner's handler
  returns for the caller's arguments and context, exactly as a call made at the owner would,
  and leaves no entry in \<^verbatim>\<open>pending\<close>. It differs when the owner has no free slot or no handler,
  where the error text lacks the prefix of the local one, and when the handler's error has
  an empty text, which the caller takes for a success.
\<close>

theorem remote_call_runs_the_handler:
  assumes "env_roundtrip EJ" "mem_inv t" "\<not> m_closed t"
    and "Call_route now ctx target B = (There pod ctx, B1)"
    and "ctx_deadline ctx = Some dl" "unix_epoch < dl" "dl - unix_epoch < 2 ^ 63"
    and "a \<in> set (m_subs t (ep_inboxPrefix B @ pod))" "ch_buf (m_heap t a) = []"
    and "b \<in> set (m_subs t (ep_inbox B))" "ch_buf (m_heap t b) = []"
    and "b \<notin> set (m_subs t (ep_inboxPrefix B @ pod))"
    and "valid_utf8 target" "valid_utf8 method" "valid_utf8 (ep_inbox B)" "ep_inbox B \<noteq> ''''"
    and "utf8_errors target method A"
  shows "\<exists>res B' t'. Call memory_transport EJ now (Inr rnd) (call_trip memory_transport EJ mem_recv now' a b A)
        GotReply ctx target method args B t = Some (res, B', t') \<and>
      ep_pending B' = (ep_pending B)(hex_EncodeToString (take 12 rnd) := None) \<and>
      (if ep_semCap A \<le> ep_sem A then res = Inl (CrText ''endpoint busy'')
       else case find_handler target method A of
         None \<Rightarrow> res = Inl (CrText (''no handler for '' @ target @ ''.'' @ method))
       | Some h \<Rightarrow> if h ctx args = Inl '''' then res = Inr []
                   else res = fst (callLocal ctx target method args A))"
proof -
  let ?c = "call_envelope (hex_EncodeToString (take 12 rnd)) ctx target method args B"
  let ?res = "reply_result (answer now' ?c A)"
  obtain B' t' where call: "Call memory_transport EJ now (Inr rnd)
      (call_trip memory_transport EJ mem_recv now' a b A) GotReply ctx target method args B t = Some (?res, B', t')"
      "ep_pending B' = (ep_pending B)(hex_EncodeToString (take 12 rnd) := None)"
    using membus.call_roundtrip [OF assms(1) _ assms(4,8-17)] assms(2,3) by blast
  have sc: "serve_context now' ?c A = ctx" using serve_context_call [OF assms(5-7)] .
  have "if ep_semCap A \<le> ep_sem A then ?res = Inl (CrText ''endpoint busy'')
      else case find_handler target method A of
        None \<Rightarrow> ?res = Inl (CrText (''no handler for '' @ target @ ''.'' @ method))
      | Some h \<Rightarrow> if h ctx args = Inl '''' then ?res = Inr []
                  else ?res = fst (callLocal ctx target method args A)"
    by (auto simp: answer_def sc reply_result_def serve_reply_def reply_to_def no_envelope_def text_busy_def
        text_no_handler_def callLocal_def local_start_def sem_acquire_def split: option.split sum.split)
  with call show ?thesis by blast
qed

theorem remote_call_runs_the_handler_witness:
  "\<exists>res B' t'. Call memory_transport sample_envjson 7 (Inr (replicate 12 7))
     (call_trip memory_transport sample_envjson mem_recv 9 0 1 sample_owner) GotReply
     \<lparr>ctx_deadline = Some 63000000000000000000\<rparr> ''svc'' ''m'' [5] (sample_caller 1) sample_bus =
     Some (res, B', t') \<and> res = Inr [5]"
proof -
  let ?c = "\<lparr>ctx_deadline = Some 63000000000000000000\<rparr>"
  obtain B1 where r: "Call_route 7 ?c ''svc'' (sample_caller 1) = (There ''A'' ?c, B1)"
    using sample_caller_route [of ?c 63000000000000000000 7 1]
    by (cases "Call_route 7 ?c ''svc'' (sample_caller 1)") simp
  note p = sample_pair_simps
  have "utf8_errors ''svc'' ''m'' sample_owner" by (simp add: utf8_errors_def p(1) echo_def [abs_def])
  from remote_call_runs_the_handler [OF sample_env_roundtrip sample_bus_simps(1,2) r _ _ _ _ _ _ _ _ _ _ _ _ this,
      of 63000000000000000000 0 1 "replicate 12 7" 9 "[5]"]
  show ?thesis
    by (simp add: p sample_bus_simps unix_epoch_def callLocal_def local_start_def sem_acquire_def echo_def)
       blast
qed

end
