(* ===== verification/Call_Sessions.thy ===== *)
theory Call_Sessions
  imports Call_Values "HOL-Library.Multiset"
begin

section \<open>Interleavings of an endpoint's goroutines\<close>

text \<open>
  Calls, handlers and the receive loop of one endpoint run at once. As in \<open>Store_Steps\<close> a step
  is a part of a method that runs atomically (under a lock, one channel operation, one call of
  the transport), and a goroutine that is between two parts is kept in a pool:
  \<open>x_sends\<close> the calls that are in \<^verbatim>\<open>pending\<close> and not yet published, \<open>x_waits\<close> those at their
  \<^verbatim>\<open>select\<close>, \<open>x_ends\<close> those that have their outcome and still have to remove their entry, \<open>x_local\<close> the number of local calls whose handler runs, \<open>x_calls\<close> the inbound calls
  whose goroutine has not begun, \<open>x_running\<close> those whose handler runs, \<open>x_replies\<close> the replies to
  be sent (with the inbox, and whether the goroutine holds a slot), \<open>x_done\<close> the goroutines that
  still have to release theirs, and \<open>x_deliver\<close> the replies the receive loop has looked up and
  not yet sent to the channel. Any order of steps is a run. The routing store's own goroutines and
  the other pods on the transport can do anything (\<open>world\<close>).
\<close>

record 't calls =
  x_ep :: Endpoint
  x_tr :: 't
  x_sends :: "(string \<times> nat \<times> string \<times> bytes) list"
  x_waits :: "(string \<times> nat) list"
  x_ends :: "(string \<times> nat) list"
  x_local :: nat
  x_calls :: "envelope list"
  x_running :: "(envelope \<times> Handler \<times> Context) list"
  x_replies :: "(string \<times> envelope \<times> bool) list"
  x_done :: nat
  x_deliver :: "(nat \<times> envelope) list"

inductive call_step :: "'t Transport \<Rightarrow> Json \<Rightarrow> EnvJson \<Rightarrow> 't calls \<Rightarrow> 't calls \<Rightarrow> bool" for T J EJ where
  register: "Register T J at now target method h (x_ep x) (x_tr x) = (err, e, t) \<Longrightarrow>
    call_step T J EJ x (x\<lparr>x_ep := e, x_tr := t\<rparr>)"
| unregister: "Unregister T J now target (x_ep x) (x_tr x) = (err, e, t) \<Longrightarrow>
    call_step T J EJ x (x\<lparr>x_ep := e, x_tr := t\<rparr>)"
| owner: "call_step T J EJ x (x\<lparr>x_ep := snd (Owner target (x_ep x))\<rparr>)"
| route: "call_step T J EJ x (x\<lparr>x_ep := snd (Call_route now ctx target (x_ep x))\<rparr>)"
| pend: "Call_pend EJ rnd ctx target method args (x_ep x) = (Inr (i, ch, raw), e) \<Longrightarrow>
    call_step T J EJ x (x\<lparr>x_ep := e,
      x_sends := (i, ch, ep_inboxPrefix e @ pod, raw) # x_sends x\<rparr>)"
| publish_ok: "(i, ch, inbox, raw) \<in> set (x_sends x) \<Longrightarrow>
    tr_Publish T inbox raw (x_tr x) = (None, t) \<Longrightarrow>
    call_step T J EJ x (x\<lparr>x_tr := t, x_sends := remove1 (i, ch, inbox, raw) (x_sends x),
      x_waits := (i, ch) # x_waits x\<rparr>)"
| publish_err: "(i, ch, inbox, raw) \<in> set (x_sends x) \<Longrightarrow>
    tr_Publish T inbox raw (x_tr x) = (Some err, t) \<Longrightarrow>
    call_step T J EJ x (x\<lparr>x_tr := t, x_sends := remove1 (i, ch, inbox, raw) (x_sends x),
      x_ends := (i, ch) # x_ends x\<rparr>)"
| select: "(i, ch) \<in> set (x_waits x) \<Longrightarrow> Call_select ev ch (x_ep x) = Some (res, e) \<Longrightarrow>
    call_step T J EJ x (x\<lparr>x_ep := e, x_waits := remove1 (i, ch) (x_waits x), x_ends := (i, ch) # x_ends x\<rparr>)"
| return: "(i, ch) \<in> set (x_ends x) \<Longrightarrow>
    call_step T J EJ x (x\<lparr>x_ep := drop_pending i (x_ep x), x_ends := remove1 (i, ch) (x_ends x)\<rparr>)"
| local_run: "local_start target method (x_ep x) = (Inr h, e) \<Longrightarrow>
    call_step T J EJ x (x\<lparr>x_ep := e, x_local := Suc (x_local x)\<rparr>)"
| local_end: "x_local x = Suc n \<Longrightarrow>
    call_step T J EJ x (x\<lparr>x_ep := sem_release (x_ep x), x_local := n\<rparr>)"
| inbound_call: "unmarshalEnv EJ raw = Inr c \<Longrightarrow> en_Type c = typeCall \<Longrightarrow>
    call_step T J EJ x (x\<lparr>x_calls := c # x_calls x\<rparr>)"
| inbound_reply: "unmarshalEnv EJ raw = Inr r \<Longrightarrow> en_Type r = typeReply \<Longrightarrow>
    deliver_lookup r (x_ep x) = (found, e) \<Longrightarrow>
    call_step T J EJ x (x\<lparr>x_ep := e,
      x_deliver := (case found of None \<Rightarrow> x_deliver x | Some ch \<Rightarrow> (ch, r) # x_deliver x)\<rparr>)"
| inbound_bad: "call_step T J EJ x (x\<lparr>x_ep := Endpoint_report err (x_ep x)\<rparr>)"
| deliver: "(ch, r) \<in> set (x_deliver x) \<Longrightarrow>
    call_step T J EJ x (x\<lparr>x_ep := deliver_send ch r (x_ep x),
      x_deliver := remove1 (ch, r) (x_deliver x)\<rparr>)"
| refuse: "c \<in> set (x_calls x) \<Longrightarrow> serve_start now c (x_ep x) = (Refused r, e) \<Longrightarrow>
    call_step T J EJ x (x\<lparr>x_ep := e, x_calls := remove1 c (x_calls x),
      x_replies := (en_Reply c, r, False) # x_replies x\<rparr>)"
| answer: "c \<in> set (x_calls x) \<Longrightarrow> serve_start now c (x_ep x) = (Answering r, e) \<Longrightarrow>
    call_step T J EJ x (x\<lparr>x_ep := e, x_calls := remove1 c (x_calls x),
      x_replies := (en_Reply c, r, True) # x_replies x\<rparr>)"
| run: "c \<in> set (x_calls x) \<Longrightarrow> serve_start now c (x_ep x) = (Running h ctx, e) \<Longrightarrow>
    call_step T J EJ x (x\<lparr>x_ep := e, x_calls := remove1 c (x_calls x),
      x_running := (c, h, ctx) # x_running x\<rparr>)"
| handled: "x_running x = run1 @ (c, h, ctx) # run2 \<Longrightarrow>
    call_step T J EJ x (x\<lparr>x_running := run1 @ run2,
      x_replies := (en_Reply c, serve_reply c (h ctx (en_Args c)), True) # x_replies x\<rparr>)"
| reply: "x_replies x = rep1 @ (inbox, r, slot) # rep2 \<Longrightarrow>
    sendReply T EJ inbox r (x_ep x) (x_tr x) = (e, t) \<Longrightarrow>
    call_step T J EJ x (x\<lparr>x_ep := e, x_tr := t, x_replies := rep1 @ rep2,
      x_done := (if slot then Suc (x_done x) else x_done x)\<rparr>)"
| release: "x_done x = Suc n \<Longrightarrow>
    call_step T J EJ x (x\<lparr>x_ep := sem_release (x_ep x), x_done := n\<rparr>)"
| world: "call_step T J EJ x (x\<lparr>x_ep := (x_ep x)\<lparr>ep_routing := s\<rparr>, x_tr := t\<rparr>)"
| close: "call_step T J EJ x (x\<lparr>x_ep := (x_ep x)\<lparr>ep_closed := True\<rparr>\<rparr>)"

text \<open>Runs start with an endpoint as \<^verbatim>\<open>New\<close> returns it.\<close>

definition fresh_calls :: "'t Transport \<Rightarrow> Json \<Rightarrow> 't calls \<Rightarrow> bool" where
  "fresh_calls T J x \<longleftrightarrow>
    (\<exists>routeCodec rid now ks opts t.
       Endpoint_New routeCodec J rid now ks (Some T) opts t = (Inr (x_ep x), x_tr x)) \<and>
    x_sends x = [] \<and> x_waits x = [] \<and> x_ends x = [] \<and> x_local x = 0 \<and> x_calls x = [] \<and> x_running x = [] \<and>
    x_replies x = [] \<and> x_done x = 0 \<and> x_deliver x = []"

inductive call_runs :: "'t Transport \<Rightarrow> Json \<Rightarrow> EnvJson \<Rightarrow> 't calls \<Rightarrow> bool" for T J EJ where
  call_runs_start: "fresh_calls T J x \<Longrightarrow> call_runs T J EJ x"
| call_runs_step: "call_runs T J EJ x \<Longrightarrow> call_step T J EJ x x' \<Longrightarrow> call_runs T J EJ x'"

subsection \<open>The invariants\<close>

text \<open>The calls in flight, each with its identifier and channel.\<close>

definition in_flight :: "'t calls \<Rightarrow> (string \<times> nat) list" where
  "in_flight x = map (\<lambda>(i, ch, _). (i, ch)) (x_sends x) @ x_waits x @ x_ends x"

text \<open>The goroutines that hold a slot of the semaphore.\<close>

definition slots :: "'t calls \<Rightarrow> nat" where
  "slots x = x_local x + length (x_running x) + length (filter (\<lambda>(_, _, slot). slot) (x_replies x)) + x_done x"

definition sem_inv :: "'t calls \<Rightarrow> bool" where
  "sem_inv x \<longleftrightarrow> ep_sem (x_ep x) = slots x \<and> slots x \<le> ep_semCap (x_ep x)"

definition own_reply :: "string \<Rightarrow> envelope \<Rightarrow> bool" where
  "own_reply i r \<longleftrightarrow> en_Type r = typeReply \<and> en_ID r = i"

definition flight_inv :: "Endpoint \<Rightarrow> (string \<times> nat) list \<Rightarrow> (nat \<times> envelope) list \<Rightarrow> bool" where
  "flight_inv e fl ds \<longleftrightarrow>
    (\<forall>i ch. ep_pending e i = Some ch \<longrightarrow> (i, ch) \<in> set fl) \<and> distinct (map snd fl) \<and>
    (\<forall>i ch. (i, ch) \<in> set fl \<longrightarrow> ch < ep_nextch e) \<and>
    (\<forall>i ch r. (i, ch) \<in> set fl \<longrightarrow> ep_chans e ch = Some r \<longrightarrow> own_reply i r) \<and>
    (\<forall>ch r. (ch, r) \<in> set ds \<longrightarrow> ch < ep_nextch e) \<and>
    (\<forall>i ch r. (ch, r) \<in> set ds \<longrightarrow> (i, ch) \<in> set fl \<longrightarrow> own_reply i r)"

text \<open>
  An entry of \<^verbatim>\<open>pending\<close> belongs to a call in flight, no two calls share a channel, and what
  lies in the channel of a call, or is about to be sent to it, is a reply with its identifier.
\<close>

definition pending_inv :: "'t calls \<Rightarrow> bool" where
  "pending_inv x \<longleftrightarrow> flight_inv (x_ep x) (in_flight x) (x_deliver x)"

lemmas session_defs = Endpoint_report_def sem_acquire_def sem_release_def drop_pending_def
  deliver_send_def Owner_def Call_route_def Register_def Unregister_def Let_def

text \<open>What a step on the endpoint leaves alone.\<close>

definition same_calls :: "Endpoint \<Rightarrow> Endpoint \<Rightarrow> bool" where
  "same_calls e e' \<longleftrightarrow> ep_sem e' = ep_sem e \<and> ep_semCap e' = ep_semCap e \<and>
     ep_pending e' = ep_pending e \<and> ep_chans e' = ep_chans e \<and> ep_nextch e' = ep_nextch e"

lemma same_calls_refl [simp]: "same_calls e e"
  by (simp add: same_calls_def)

lemma Register_same: "Register T J at now target method h e t = (err, e', t') \<Longrightarrow> same_calls e e'"
  by (auto simp: same_calls_def session_defs split: option.splits if_splits prod.splits)

lemma Unregister_same: "Unregister T J now target e t = (err, e', t') \<Longrightarrow> same_calls e e'"
  by (auto simp: same_calls_def session_defs split: prod.splits)

lemma Owner_same [simp]: "same_calls e (snd (Owner target e))"
  by (simp add: same_calls_def Owner_def split: prod.split)

lemma Call_route_same [simp]: "same_calls e (snd (Call_route now ctx target e))"
  by (simp add: same_calls_def Call_route_def Let_def split: prod.split)

lemma report_same [simp]: "same_calls e (Endpoint_report err e)"
  by (simp add: same_calls_def Endpoint_report_def)

lemma sendReply_same: "sendReply T EJ inbox r e t = (e', t') \<Longrightarrow> same_calls e e'"
  by (auto simp: same_calls_def sendReply_def Endpoint_report_def
      split: if_splits sum.splits prod.splits option.splits)

lemma deliver_lookup_same: "deliver_lookup r e = (found, e') \<Longrightarrow> same_calls e e'"
  by (auto simp: same_calls_def deliver_lookup_def Endpoint_report_def split: option.splits if_splits)

lemmas same_calls_simps [simp] = Owner_same [unfolded same_calls_def]
  Call_route_same [unfolded same_calls_def] report_same [unfolded same_calls_def]

lemmas same_calls_rules = Register_same Unregister_same sendReply_same deliver_lookup_same

lemma sem_frame [simp]:
  "ep_sem (drop_pending i e) = ep_sem e" "ep_semCap (drop_pending i e) = ep_semCap e"
  "ep_sem (deliver_send ch r e) = ep_sem e" "ep_semCap (deliver_send ch r e) = ep_semCap e"
  by (simp_all add: drop_pending_def deliver_send_def)

lemma Call_pend_effect:
  assumes "Call_pend EJ rnd ctx target method args e = (Inr (i, ch, raw), e')"
  shows "ch = ep_nextch e \<and> e' = e\<lparr>ep_nextch := Suc ch, ep_chans := (ep_chans e)(ch := None),
    ep_pending := (ep_pending e)(i \<mapsto> ch)\<rparr>"
  using assms by (auto simp: Call_pend_def Let_def split: sum.splits)

lemma Call_select_effect:
  assumes "Call_select ev ch e = Some (res, e')"
  shows "ep_sem e' = ep_sem e \<and> ep_semCap e' = ep_semCap e \<and> ep_nextch e' = ep_nextch e \<and>
    ep_pending e' = ep_pending e \<and> (ep_chans e' = ep_chans e \<or> ep_chans e' = (ep_chans e)(ch := None))"
  using assms by (auto simp: Call_select_def split: call_event.splits option.splits if_splits)

lemma serve_start_effect:
  assumes "serve_start now c e = (sv, e')"
  shows "ep_semCap e' = ep_semCap e \<and> ep_pending e' = ep_pending e \<and> ep_chans e' = ep_chans e \<and>
    ep_nextch e' = ep_nextch e \<and>
    (case sv of Refused r \<Rightarrow> e' = e | _ \<Rightarrow> ep_sem e' = Suc (ep_sem e) \<and> ep_sem e < ep_semCap e)"
  using assms by (auto simp: serve_start_def sem_acquire_def split: option.splits if_splits)

lemma local_start_effect:
  assumes "local_start target method e = (Inr h, e')"
  shows "e' = e\<lparr>ep_sem := Suc (ep_sem e)\<rparr> \<and> ep_sem e < ep_semCap e"
  using assms by (auto simp: local_start_def sem_acquire_def split: option.splits if_splits)

lemma call_step_sem:
  assumes "call_step T J EJ x x'" "sem_inv x"
  shows "sem_inv x'"
  using assms
  by cases
    (auto simp: sem_inv_def slots_def same_calls_def sem_release_def
      dest!: same_calls_rules Call_pend_effect Call_select_effect serve_start_effect local_start_effect)


text \<open>
  A step changes the calls in flight and the replies to be delivered in one of few ways; each
  keeps \<open>pending_inv\<close>.
\<close>

lemma in_flight_simps [simp]:
  "in_flight (x\<lparr>x_ep := e\<rparr>) = in_flight x" "in_flight (x\<lparr>x_tr := t\<rparr>) = in_flight x"
  "in_flight (x\<lparr>x_local := n\<rparr>) = in_flight x" "in_flight (x\<lparr>x_calls := cs\<rparr>) = in_flight x"
  "in_flight (x\<lparr>x_running := hs\<rparr>) = in_flight x" "in_flight (x\<lparr>x_replies := rs\<rparr>) = in_flight x"
  "in_flight (x\<lparr>x_done := n\<rparr>) = in_flight x" "in_flight (x\<lparr>x_deliver := ds\<rparr>) = in_flight x"
  by (simp_all add: in_flight_def)

lemma flight_cong:
  "ep_pending e' = ep_pending e \<Longrightarrow> ep_chans e' = ep_chans e \<Longrightarrow> ep_nextch e' = ep_nextch e \<Longrightarrow>
   flight_inv e' fl ds = flight_inv e fl ds"
  by (simp add: flight_inv_def)

lemma flight_same:
  "flight_inv e fl ds \<Longrightarrow> ep_pending e' = ep_pending e \<Longrightarrow> ep_chans e' = ep_chans e \<Longrightarrow>
   ep_nextch e' = ep_nextch e \<Longrightarrow> flight_inv e' fl ds"
  using flight_cong [of e' e fl ds] by blast

lemma flight_order:
  assumes "mset fl' = mset fl"
  shows "flight_inv e fl' ds = flight_inv e fl ds"
proof -
  have "set fl' = set fl" using assms by (rule mset_eq_setD)
  moreover have "distinct (map snd fl') = distinct (map snd fl)"
    using assms by (metis mset_map mset_eq_imp_distinct_iff)
  ultimately show ?thesis by (simp add: flight_inv_def)
qed

lemma flight_pend:
  assumes "flight_inv e fl ds"
  shows "flight_inv (e\<lparr>ep_nextch := Suc (ep_nextch e), ep_chans := (ep_chans e)(ep_nextch e := None),
    ep_pending := (ep_pending e)(i \<mapsto> ep_nextch e)\<rparr>) ((i, ep_nextch e) # fl) ds"
proof -
  have "(j, ep_nextch e) \<notin> set fl" "(ep_nextch e, r) \<notin> set ds" for j r
    using assms by (auto simp: flight_inv_def)
  with assms show ?thesis
    unfolding flight_inv_def by (auto simp: less_SucI split: if_splits)
qed

lemma flight_drop:
  assumes fl: "flight_inv e ((i, ch) # fl) ds"
    and p: "ep_pending e' = (ep_pending e)(i := None)" and n: "ep_nextch e' = ep_nextch e"
    and c: "ep_chans e' = ep_chans e \<or> ep_chans e' = (ep_chans e)(ch := None)"
  shows "flight_inv e' fl ds"
proof -
  have "ep_chans e ch' = Some r" if "ep_chans e' ch' = Some r" for ch' r
    using that c by (auto split: if_splits)
  moreover have "(j, ch') \<in> set fl" if "ep_pending e' j = Some ch'" for j ch'
    using that fl p by (auto simp: flight_inv_def split: if_splits)
  ultimately show ?thesis using fl n by (auto simp: flight_inv_def)
qed

lemma flight_take:
  assumes "flight_inv e fl ds" "ep_pending e' = ep_pending e" "ep_nextch e' = ep_nextch e"
    and "ep_chans e' = ep_chans e \<or> ep_chans e' = (ep_chans e)(ch := None)"
  shows "flight_inv e' fl ds"
proof -
  have "ep_chans e ch' = Some r" if "ep_chans e' ch' = Some r" for ch' r
    using that assms(4) by (auto split: if_splits)
  then show ?thesis using assms(1-3) by (simp add: flight_inv_def)
qed

lemma flight_channel:
  assumes "flight_inv e fl ds" "(i, ch) \<in> set fl" "(j, ch) \<in> set fl"
  shows "i = j"
proof -
  have "inj_on snd (set fl)" using assms(1) by (simp add: flight_inv_def distinct_map)
  from inj_onD [OF this _ assms(2,3)] show ?thesis by simp
qed

lemma flight_lookup:
  assumes "flight_inv e fl ds" "ep_pending e (en_ID r) = Some ch" "en_Type r = typeReply"
  shows "flight_inv e fl ((ch, r) # ds)"
proof -
  have ch: "(en_ID r, ch) \<in> set fl" using assms(1,2) by (auto simp: flight_inv_def)
  moreover have "ch < ep_nextch e" using assms(1) ch by (auto simp: flight_inv_def)
  moreover have "own_reply i r" if "(i, ch) \<in> set fl" for i
    using flight_channel [OF assms(1) that ch] assms(3) by (simp add: own_reply_def)
  ultimately show ?thesis using assms(1) unfolding flight_inv_def by auto
qed

lemma flight_fewer: "flight_inv e fl ds \<Longrightarrow> set ds' \<subseteq> set ds \<Longrightarrow> flight_inv e fl ds'"
  unfolding flight_inv_def by blast

lemma flight_deliver:
  assumes "flight_inv e fl ds" "(ch, r) \<in> set ds"
  shows "flight_inv (deliver_send ch r e) fl ds"
  using assms unfolding flight_inv_def deliver_send_def by (auto split: if_splits)

text \<open>Taking a call out of a pool.\<close>

lemma mset_map_remove1:
  assumes "a \<in> set xs"
  shows "mset (map f xs) = add_mset (f a) (mset (map f (remove1 a xs)))"
proof -
  have "mset xs = add_mset a (mset (remove1 a xs))" using assms by simp
  then show ?thesis by (metis image_mset_add_mset mset_map)
qed

lemma in_flight_send:
  assumes "(i, ch, inbox, raw) \<in> set (x_sends x)"
  shows "mset (in_flight x) =
    mset ((i, ch) # in_flight (x\<lparr>x_sends := remove1 (i, ch, inbox, raw) (x_sends x)\<rparr>))"
  using mset_map_remove1 [OF assms, of "\<lambda>(i, ch, _). (i, ch)"] by (simp add: in_flight_def)

lemma in_flight_wait:
  assumes "(i, ch) \<in> set (x_waits x)"
  shows "mset (in_flight x) = mset ((i, ch) # in_flight (x\<lparr>x_waits := remove1 (i, ch) (x_waits x)\<rparr>))"
  using assms by (simp add: in_flight_def)


lemma in_flight_end:
  assumes "(i, ch) \<in> set (x_ends x)"
  shows "mset (in_flight x) = mset ((i, ch) # in_flight (x\<lparr>x_ends := remove1 (i, ch) (x_ends x)\<rparr>))"
  using assms by (simp add: in_flight_def)

lemma call_step_pending:
  assumes "call_step T J EJ x x'" "pending_inv x"
  shows "pending_inv x'"
  using assms(1)
proof cases
  case (pend rnd ctx target meth bs i ch raw e pod)
  have e: "ch = ep_nextch (x_ep x)" "e = (x_ep x)\<lparr>ep_nextch := Suc (ep_nextch (x_ep x)),
      ep_chans := (ep_chans (x_ep x))(ep_nextch (x_ep x) := None),
      ep_pending := (ep_pending (x_ep x))(i \<mapsto> ep_nextch (x_ep x))\<rparr>"
    using Call_pend_effect [OF pend(2)] by auto
  have "in_flight x' = (i, ch) # in_flight x" by (simp add: pend(1) in_flight_def)
  with flight_pend [of "x_ep x" "in_flight x" "x_deliver x" i] assms(2) show ?thesis
    by (simp add: pending_inv_def pend(1) e)
next
  case (publish_ok i ch inbox raw t)
  have "mset (in_flight x') = mset (in_flight x)"
    unfolding in_flight_send [OF publish_ok(2)] by (simp add: publish_ok(1) in_flight_def)
  from flight_order [OF this] assms(2) show ?thesis by (simp add: pending_inv_def publish_ok(1))
next
  case (publish_err i ch inbox raw err t)
  have "mset (in_flight x') = mset (in_flight x)"
    unfolding in_flight_send [OF publish_err(2)] by (simp add: publish_err(1) in_flight_def)
  from flight_order [OF this] assms(2) show ?thesis by (simp add: pending_inv_def publish_err(1))
next
  case (select i ch ev res e)
  have "mset (in_flight x') = mset (in_flight x)"
    unfolding in_flight_wait [OF select(2)] by (simp add: select(1) in_flight_def)
  from flight_order [OF this] assms(2) have "flight_inv (x_ep x) (in_flight x') (x_deliver x)"
    by (simp add: pending_inv_def)
  from flight_take [OF this] Call_select_effect [OF select(3)] show ?thesis
    by (auto simp: pending_inv_def select(1))
next
  case (return i ch)
  let ?y = "x\<lparr>x_ends := remove1 (i, ch) (x_ends x)\<rparr>"
  have "flight_inv (x_ep x) ((i, ch) # in_flight ?y) (x_deliver x)"
    using assms(2) flight_order [OF in_flight_end [OF return(2)]] by (simp add: pending_inv_def)
  from flight_drop [OF this, of "drop_pending i (x_ep x)"] show ?thesis
    by (simp add: pending_inv_def return(1) drop_pending_def in_flight_def)
next
  case (inbound_reply raw r found e)
  have same: "ep_pending e = ep_pending (x_ep x)" "ep_chans e = ep_chans (x_ep x)"
      "ep_nextch e = ep_nextch (x_ep x)"
    using deliver_lookup_same [OF inbound_reply(4)] by (simp_all add: same_calls_def)
  note inv = assms(2) [unfolded pending_inv_def]
  show ?thesis
  proof (cases found)
    case None
    then show ?thesis using inv by (simp add: pending_inv_def inbound_reply(1) flight_cong [OF same])
  next
    case (Some ch)
    then have "ep_pending (x_ep x) (en_ID r) = Some ch"
      using inbound_reply(4) by (auto simp: deliver_lookup_def split: option.splits)
    from flight_lookup [OF inv this inbound_reply(3)] Some show ?thesis
      by (simp add: pending_inv_def inbound_reply(1) flight_cong [OF same])
  qed
next
  case (deliver ch r)
  have "flight_inv (deliver_send ch r (x_ep x)) (in_flight x) (x_deliver x)"
    using assms(2) deliver(2) by (intro flight_deliver) (simp_all add: pending_inv_def)
  from flight_fewer [OF this, of "remove1 (ch, r) (x_deliver x)"] show ?thesis
    by (simp add: pending_inv_def deliver(1) set_remove1_subset)
qed (use assms(2) in \<open>auto simp: pending_inv_def sem_release_def same_calls_def
      dest!: same_calls_rules serve_start_effect local_start_effect elim!: flight_same\<close>)

subsection \<open>Every run\<close>

lemma Endpoint_New_fresh:
  assumes "Endpoint_New routeCodec J rid now ks tr opts t = (Inr e, t')"
  shows "ep_sem e = 0 \<and> ep_pending e = Map.empty \<and> 0 < ep_semCap e \<and>
    ep_semCap e = (if co_MaxConcurrentHandlers opts \<le> 0 then 1024 else nat (co_MaxConcurrentHandlers opts))"
  using assms
  by (auto simp: Endpoint_New_def Let_def split: option.splits if_splits prod.splits sum.splits)

lemma semCap_step: "call_step T J EJ x x' \<Longrightarrow> ep_semCap (x_ep x') = ep_semCap (x_ep x)"
  by (erule call_step.cases)
     (auto simp: same_calls_def sem_release_def dest!: same_calls_rules Call_pend_effect
      Call_select_effect serve_start_effect local_start_effect)

lemma call_runs_inv: "call_runs T J EJ x \<Longrightarrow> sem_inv x \<and> pending_inv x \<and> 0 < ep_semCap (x_ep x)"
proof (induction rule: call_runs.induct)
  case (call_runs_start x)
  then show ?case
    using Endpoint_New_fresh
    by (fastforce simp: fresh_calls_def sem_inv_def slots_def pending_inv_def flight_inv_def in_flight_def)
next
  case (call_runs_step x x')
  then show ?case by (metis call_step_sem call_step_pending semCap_step)
qed

text \<open>The runs in which no call draws an identifier that is in flight: every call in flight is registered.\<close>

inductive unique_runs :: "'t Transport \<Rightarrow> Json \<Rightarrow> EnvJson \<Rightarrow> 't calls \<Rightarrow> bool" for T J EJ where
  unique_start: "fresh_calls T J x \<Longrightarrow> unique_runs T J EJ x"
| unique_step: "unique_runs T J EJ x \<Longrightarrow> call_step T J EJ x x' \<Longrightarrow> distinct (map fst (in_flight x')) \<Longrightarrow>
    unique_runs T J EJ x'"

definition registered :: "'t calls \<Rightarrow> bool" where
  "registered x \<longleftrightarrow> distinct (map fst (in_flight x)) \<and>
     (\<forall>(i, ch) \<in> set (in_flight x). ep_pending (x_ep x) i = Some ch)"

lemma unique_runs_runs: "unique_runs T J EJ x \<Longrightarrow> call_runs T J EJ x"
  by (induction rule: unique_runs.induct) (auto intro: call_runs_start call_runs_step)

lemma registered_order:
  assumes "registered x" "mset (in_flight x') = mset (in_flight x)" "ep_pending (x_ep x') = ep_pending (x_ep x)"
  shows "registered x'"
proof -
  have "set (in_flight x') = set (in_flight x)" using assms(2) by (rule mset_eq_setD)
  moreover have "distinct (map fst (in_flight x')) = distinct (map fst (in_flight x))"
    using assms(2) by (metis mset_map mset_eq_imp_distinct_iff)
  ultimately show ?thesis using assms(1,3) by (simp add: registered_def)
qed

lemma call_step_registered:
  assumes "call_step T J EJ x x'" "registered x" "distinct (map fst (in_flight x'))"
  shows "registered x'"
  using assms(1)
proof cases
  case (pend rnd ctx target meth bs i ch raw e pod)
  have "in_flight x' = (i, ch) # in_flight x" by (simp add: pend(1) in_flight_def)
  moreover have "ep_pending (x_ep x') = (ep_pending (x_ep x))(i \<mapsto> ch)"
    using Call_pend_effect [OF pend(2)] by (simp add: pend(1))
  ultimately show ?thesis using assms(2,3) by (force simp: registered_def)
next
  case (publish_ok i ch inbox raw t)
  then show ?thesis using in_flight_send [OF publish_ok(2)]
    by (intro registered_order [OF assms(2)]) (simp_all add: in_flight_def)
next
  case (publish_err i ch inbox raw err t)
  then show ?thesis using in_flight_send [OF publish_err(2)]
    by (intro registered_order [OF assms(2)]) (simp_all add: in_flight_def)
next
  case (select i ch ev res e)
  then show ?thesis using in_flight_wait [OF select(2)] Call_select_effect [OF select(3)]
    by (intro registered_order [OF assms(2)]) (simp_all add: in_flight_def)
next
  case (return i ch)
  have ms: "mset (in_flight x) = mset ((i, ch) # in_flight x')"
    using in_flight_end [OF return(2)] by (simp add: return(1) in_flight_def)
  then have "distinct (map fst ((i, ch) # in_flight x'))"
    using assms(2) unfolding registered_def by (metis mset_map mset_eq_imp_distinct_iff)
  moreover have "set (in_flight x) = set ((i, ch) # in_flight x')" using ms by (rule mset_eq_setD)
  ultimately show ?thesis using assms(2,3) by (force simp: registered_def return(1) drop_pending_def)
qed (use assms(2) in \<open>auto simp: registered_def sem_release_def same_calls_def deliver_send_def
      dest!: same_calls_rules serve_start_effect local_start_effect\<close>)

lemma unique_runs_registered: "unique_runs T J EJ x \<Longrightarrow> registered x"
proof (induction rule: unique_runs.induct)
  case (unique_start x)
  then show ?case by (simp add: fresh_calls_def registered_def in_flight_def)
qed (rule call_step_registered)

subsection \<open>A concrete run\<close>

definition sample_id :: string where "sample_id = hex_EncodeToString (replicate 12 7)"

definition sample_start :: "bytes list calls" where
  "sample_start = \<lparr>x_ep = sample_ep ''B'' 0, x_tr = [], x_sends = [], x_waits = [], x_ends = [], x_local = 0,
     x_calls = [], x_running = [], x_replies = [], x_done = 0, x_deliver = []\<rparr>"

definition sample_call :: bytes where
  "sample_call = sample_marshalEnv
     (call_envelope sample_id \<lparr>ctx_deadline = None\<rparr> ''svc'' ''m'' [] (sample_ep ''B'' 0))"

definition sample_reply :: envelope where
  "sample_reply = no_envelope\<lparr>en_Type := typeReply, en_ID := sample_id, en_Result := [7]\<rparr>"

definition sample_waiting :: "bytes list calls" where
  "sample_waiting = sample_start\<lparr>x_tr := [sample_call], x_waits := [(sample_id, 0)],
     x_ep := (sample_ep ''B'' 0)\<lparr>ep_nextch := 1, ep_pending := [sample_id \<mapsto> 0]\<rparr>\<rparr>"

definition sample_replied :: "bytes list calls" where
  "sample_replied = sample_waiting\<lparr>x_ep := (x_ep sample_waiting)\<lparr>ep_chans := [0 \<mapsto> sample_reply]\<rparr>\<rparr>"

lemma sample_start_unique: "unique_runs up_transport sample_json sample_envjson sample_start"
  using sample_ep_new [of "''B''"]
  by (intro unique_start) (fastforce simp: fresh_calls_def sample_start_def)

lemma sample_waiting_unique: "unique_runs up_transport sample_json sample_envjson sample_waiting"
proof -
  let ?e = "(sample_ep ''B'' 0)\<lparr>ep_nextch := 1, ep_pending := [sample_id \<mapsto> 0]\<rparr>"
  let ?x = "sample_start\<lparr>x_ep := ?e, x_sends := [(sample_id, 0, ep_inboxPrefix ?e @ ''A'', sample_call)]\<rparr>"
  have e: "(sample_ep ''B'' 0)\<lparr>ep_nextch := Suc 0, ep_chans := (\<lambda>_. None)(0 := None),
      ep_pending := [sample_id \<mapsto> 0]\<rparr> = ?e"
    by (simp add: sample_ep_def fun_upd_idem)
  have "Call_pend sample_envjson (Inr (replicate 12 7)) \<lparr>ctx_deadline = None\<rparr> ''svc'' ''m'' []
      (x_ep sample_start) = (Inr (sample_id, 0, sample_call), ?e)"
    using e by (simp add: Call_pend_def randomID_def sample_start_def sample_call_def sample_id_def
        Let_def) (simp add: sample_ep_def)
  from call_step.pend [OF this, of up_transport sample_json "''A''"]
  have "call_step up_transport sample_json sample_envjson sample_start ?x"
    by (simp add: sample_start_def)
  with sample_start_unique have x: "unique_runs up_transport sample_json sample_envjson ?x"
    by (rule unique_step) (simp add: in_flight_def sample_start_def)
  have "call_step up_transport sample_json sample_envjson ?x sample_waiting"
    using call_step.publish_ok [of sample_id 0 "ep_inboxPrefix ?e @ ''A''" sample_call ?x up_transport
        "[sample_call]" sample_json sample_envjson]
    by (simp add: sample_waiting_def sample_start_def)
  with x show ?thesis by (rule unique_step) (simp add: in_flight_def sample_waiting_def sample_start_def)
qed

lemmas sample_waiting_runs = unique_runs_runs [OF sample_waiting_unique]

lemma sample_replied_runs: "call_runs up_transport sample_json sample_envjson sample_replied"
proof -
  let ?x = "sample_waiting\<lparr>x_deliver := [(0, sample_reply)]\<rparr>"
  have "deliver_lookup sample_reply (x_ep sample_waiting) = (Some 0, x_ep sample_waiting)"
    by (simp add: deliver_lookup_def sample_reply_def sample_waiting_def)
  from call_step.inbound_reply [OF _ _ this, of sample_envjson "sample_marshalEnv sample_reply"]
  have "call_step up_transport sample_json sample_envjson sample_waiting ?x"
    by (simp add: sample_reply_def sample_waiting_def sample_start_def)
  with sample_waiting_runs have x: "call_runs up_transport sample_json sample_envjson ?x"
    by (rule call_runs_step)
  have "call_step up_transport sample_json sample_envjson ?x sample_replied"
    using call_step.deliver [of 0 sample_reply ?x up_transport sample_json sample_envjson]
    by (simp add: sample_replied_def sample_waiting_def sample_start_def deliver_send_def sample_ep_def)
  with x show ?thesis by (rule call_runs_step)
qed

text \<open>Two inbound calls for a target without a handler, whose goroutines hold both slots while they answer.\<close>

definition sample_inbound :: envelope where
  "sample_inbound = no_envelope\<lparr>en_Type := typeCall, en_ID := ''c'', en_Target := ''svc'', en_Method := ''m''\<rparr>"

definition sample_answer :: "string \<times> envelope \<times> bool" where
  "sample_answer = (en_Reply sample_inbound,
     (reply_to sample_inbound)\<lparr>en_Error := text_no_handler ''svc'' ''m''\<rparr>, True)"

definition sample_answering :: "nat \<Rightarrow> bytes list calls" where
  "sample_answering n = sample_start\<lparr>x_ep := (sample_ep ''B'' 0)\<lparr>ep_sem := n\<rparr>, x_replies := replicate n sample_answer\<rparr>"

lemma sample_answering_runs: "n \<le> 2 \<Longrightarrow> call_runs up_transport sample_json sample_envjson (sample_answering n)"
proof (induction n)
  case 0
  have "sample_answering 0 = sample_start" by (simp add: sample_answering_def sample_start_def sample_ep_def)
  then show ?case using unique_runs_runs [OF sample_start_unique] by simp
next
  case (Suc n)
  let ?x = "(sample_answering n)\<lparr>x_calls := [sample_inbound]\<rparr>"
  have "call_step up_transport sample_json sample_envjson (sample_answering n) ?x"
    using call_step.inbound_call [of sample_envjson "sample_marshalEnv sample_inbound" sample_inbound up_transport sample_json "sample_answering n"]
    by (simp add: sample_inbound_def sample_answering_def sample_start_def)
  with Suc have x: "call_runs up_transport sample_json sample_envjson ?x" by (auto intro: call_runs_step)
  have "serve_start 5 sample_inbound (x_ep ?x) =
      (Answering (fst (snd sample_answer)), (sample_ep ''B'' 0)\<lparr>ep_sem := Suc n\<rparr>)"
    using Suc.prems by (simp add: serve_start_def sem_acquire_def find_handler_def sample_answering_def sample_answer_def
        sample_inbound_def sample_ep_def)
  from call_step.answer [OF _ this, of up_transport sample_json sample_envjson]
  have "call_step up_transport sample_json sample_envjson ?x (sample_answering (Suc n))"
    by (simp add: sample_answering_def sample_answer_def sample_start_def)
  with x show ?case by (rule call_runs_step)
qed

subsection \<open>Properties\<close>

text \<open>
  C22. Handlers are bounded. In every interleaving of calls, replies, registrations and shutdown the
  tokens in the semaphore are exactly the goroutines that hold a slot, local and remote handlers
  together never exceed \<^verbatim>\<open>MaxConcurrentHandlers\<close>, and an inbound call is refused as busy exactly
  when every slot is held.
\<close>

theorem handlers_bounded:
  assumes "call_runs T J EJ x"
  shows "ep_sem (x_ep x) = slots x \<and> x_local x + length (x_running x) \<le> ep_semCap (x_ep x) \<and>
    ((\<exists>r e. serve_start now c (x_ep x) = (Refused r, e)) \<longleftrightarrow> slots x = ep_semCap (x_ep x))"
proof -
  have inv: "sem_inv x" using call_runs_inv [OF assms] by blast
  have "(\<exists>r e. serve_start now c (x_ep x) = (Refused r, e)) \<longleftrightarrow> \<not> ep_sem (x_ep x) < ep_semCap (x_ep x)"
    by (simp add: serve_start_def sem_acquire_def split: option.split)
  with inv show ?thesis by (auto simp: sem_inv_def slots_def)
qed

theorem handlers_bounded_witness:
  "ep_sem (x_ep (sample_answering 2)) = 2 \<and> slots (sample_answering 2) = 2 \<and>
   (\<exists>r e. serve_start 5 sample_inbound (x_ep (sample_answering 2)) = (Refused r, e)) \<and>
   (\<nexists>r e. serve_start 5 sample_inbound (x_ep (sample_answering 1)) = (Refused r, e))"
proof -
  have cap: "ep_semCap (x_ep (sample_answering n)) = 2" "slots (sample_answering n) = n" for n
    by (simp_all add: sample_answering_def slots_def sample_start_def sample_answer_def) (simp add: sample_ep_def)
  show ?thesis
    using handlers_bounded [OF sample_answering_runs, of 2 5 sample_inbound]
      handlers_bounded [OF sample_answering_runs, of 1 5 sample_inbound] by (simp add: cap)
qed

text \<open>
  C23. A call gets the reply to it. In every interleaving an entry of \<^verbatim>\<open>pending\<close> belongs to a call
  in flight, so an endpoint without calls in flight has none; and a call whose \<^verbatim>\<open>select\<close> takes a reply
  takes one that carries its own identifier, as its result or, when the error is not empty, as
  its error. When no call draws the identifier of another that is in flight, \<^verbatim>\<open>pending\<close> holds exactly the calls in
  flight, each with its channel, and a reply that arrives is given to the call it names.
\<close>

theorem calls_get_their_reply:
  assumes "call_runs T J EJ x"
  shows "(\<forall>i ch. ep_pending (x_ep x) i = Some ch \<longrightarrow> (i, ch) \<in> set (in_flight x)) \<and>
    ((i, ch) \<in> set (x_waits x) \<longrightarrow> Call_select GotReply ch (x_ep x) = Some (res, e) \<longrightarrow>
      (\<exists>r. ep_chans (x_ep x) ch = Some r \<and> en_Type r = typeReply \<and> en_ID r = i \<and>
        res = (if en_Error r \<noteq> '''' then Inl (CrText (en_Error r)) else Inr (en_Result r)))) \<and>
    (unique_runs T J EJ x \<longrightarrow>
      (\<forall>i ch. (i, ch) \<in> set (in_flight x) \<longleftrightarrow> ep_pending (x_ep x) i = Some ch) \<and>
      (\<forall>r ch. fst (deliver_lookup r (x_ep x)) = Some ch \<longleftrightarrow> (en_ID r, ch) \<in> set (in_flight x)))"
proof -
  have inv: "flight_inv (x_ep x) (in_flight x) (x_deliver x)"
    using call_runs_inv [OF assms] by (simp add: pending_inv_def)
  have "\<exists>r. ep_chans (x_ep x) ch = Some r \<and> en_Type r = typeReply \<and> en_ID r = i \<and>
      res = (if en_Error r \<noteq> '''' then Inl (CrText (en_Error r)) else Inr (en_Result r))"
    if w: "(i, ch) \<in> set (x_waits x)" and r: "Call_select GotReply ch (x_ep x) = Some (res, e)"
  proof -
    obtain rep where rep: "ep_chans (x_ep x) ch = Some rep"
        "res = (if en_Error rep \<noteq> '''' then Inl (CrText (en_Error rep)) else Inr (en_Result rep))"
      using r by (auto simp: Call_select_def split: option.splits)
    have "own_reply i rep" using inv w rep(1) by (auto simp: flight_inv_def in_flight_def)
    with rep show ?thesis by (auto simp: own_reply_def)
  qed
  moreover have pend: "\<forall>i ch. ep_pending (x_ep x) i = Some ch \<longrightarrow> (i, ch) \<in> set (in_flight x)"
    using inv by (simp add: flight_inv_def)
  moreover have "(\<forall>i ch. (i, ch) \<in> set (in_flight x) \<longleftrightarrow> ep_pending (x_ep x) i = Some ch) \<and>
      (\<forall>r ch. fst (deliver_lookup r (x_ep x)) = Some ch \<longleftrightarrow> (en_ID r, ch) \<in> set (in_flight x))" if "unique_runs T J EJ x"
  proof -
    have iff: "\<forall>i ch. (i, ch) \<in> set (in_flight x) \<longleftrightarrow> ep_pending (x_ep x) i = Some ch"
      using unique_runs_registered [OF that] pend by (auto simp: registered_def)
    moreover have "fst (deliver_lookup r (x_ep x)) = ep_pending (x_ep x) (en_ID r)" for r
      by (simp add: deliver_lookup_def split: option.split)
    ultimately show ?thesis by simp
  qed
  ultimately show ?thesis by blast
qed

theorem calls_get_their_reply_witness:
  "in_flight sample_waiting = [(sample_id, 0)] \<and>
   fst (deliver_lookup sample_reply (x_ep sample_waiting)) = Some 0 \<and>
   (\<exists>e. Call_select GotReply 0 (x_ep sample_replied) = Some (Inr [7], e) \<and>
     (\<exists>r. ep_chans (x_ep sample_replied) 0 = Some r \<and> en_ID r = sample_id))"
proof -
  have w: "(sample_id, 0) \<in> set (x_waits sample_replied)" and f: "in_flight sample_waiting = [(sample_id, 0)]"
    by (simp_all add: sample_replied_def sample_waiting_def in_flight_def sample_start_def)
  obtain e where r: "Call_select GotReply 0 (x_ep sample_replied) = Some (Inr [7], e)"
    by (simp add: Call_select_def sample_replied_def sample_reply_def no_envelope_def)
  have "en_ID sample_reply = sample_id" by (simp add: sample_reply_def)
  with calls_get_their_reply [OF unique_runs_runs [OF sample_waiting_unique]] sample_waiting_unique f
  have "fst (deliver_lookup sample_reply (x_ep sample_waiting)) = Some 0" by simp
  with calls_get_their_reply [OF sample_replied_runs, of sample_id 0 "Inr [7]" e] w r f
  show ?thesis by blast
qed

end
