(* ===== verification/Redis_Transport.thy ===== *)
theory Redis_Transport
  imports Memory_Transport
begin

section \<open>The Redis transport\<close>

text \<open>
  \<^verbatim>\<open>transport/redis.go\<close>. The client of \<^verbatim>\<open>go-redis\<close> is a parameter: a record of the methods the
  transport calls, over a state \<open>'c\<close> of the client and its server. A subscription's goroutine
  moves messages from the client's channel to the subscriber's; its steps are \<open>forward_step\<close>.
\<close>

text \<open>\<^verbatim>\<open>Get(...).Bytes()\<close>: the key is missing (\<^verbatim>\<open>redis.Nil\<close>), an error, or the value.\<close>

datatype redis_get = RedisNil | RedisErr goerror | RedisBytes bytes

record 'c RedisClient =
  rc_Ping :: "'c \<Rightarrow> goerror option \<times> 'c"
  rc_Publish :: "string \<Rightarrow> bytes \<Rightarrow> 'c \<Rightarrow> goerror option \<times> 'c"
  rc_Subscribe :: "string \<Rightarrow> 'c \<Rightarrow> nat \<times> 'c"
  rc_Receive :: "nat \<Rightarrow> 'c \<Rightarrow> goerror option \<times> 'c"
  rc_PubSubClose :: "nat \<Rightarrow> 'c \<Rightarrow> 'c"
  rc_Set :: "string \<Rightarrow> bytes \<Rightarrow> 'c \<Rightarrow> goerror option \<times> 'c"
  rc_Get :: "string \<Rightarrow> 'c \<Rightarrow> redis_get \<times> 'c"
  rc_Close :: "'c \<Rightarrow> goerror option \<times> 'c"

record 'c RedisOptions =
  ro_Addr :: string
  ro_Password :: string
  ro_DB :: int
  ro_Prefix :: string
  ro_Client :: "'c option"
  ro_TLSConfig :: "string option"

text \<open>
  A subscription: its handle at the client, the channel \<^verbatim>\<open>out\<close>, whether its context is cancelled
  and \<^verbatim>\<open>done\<close> closed, and the message its goroutine has taken and not yet passed on.
\<close>

record redisSub =
  rs_pubsub :: nat
  rs_out :: mchan
  rs_cancelled :: bool
  rs_done :: bool
  rs_held :: "bytes option"

record 'c RedisTransport =
  rd_client :: 'c
  rd_prefix :: string
  rd_ownClient :: bool
  rd_subs :: "string \<rightharpoonup> nat"
  rd_heap :: "nat \<Rightarrow> redisSub"
  rd_next :: nat
  rd_closed :: bool

definition errRedisArgs :: goerror where
  "errRedisArgs = ErrText ''transport: redis requires Addr or Client''"

definition errRedisClosed :: goerror where "errRedisClosed = ErrText ''transport: closed''"

subsection \<open>The operations\<close>

text \<open>\<open>connect\<close> is \<^verbatim>\<open>redis.NewClient\<close> on the address, the password, the database and the TLS settings.\<close>

definition NewRedisTransport :: "'c RedisClient \<Rightarrow> (string \<Rightarrow> string \<Rightarrow> int \<Rightarrow> string option \<Rightarrow> 'c)
    \<Rightarrow> 'c RedisOptions \<Rightarrow> (goerror \<times> 'c option) + 'c RedisTransport" where
  "NewRedisTransport R connect opts =
    (let prefix = (if ro_Prefix opts = '''' then ''podshare'' else ro_Prefix opts) in
     case (case ro_Client opts of
             Some c \<Rightarrow> Some (c, False)
           | None \<Rightarrow> if ro_Addr opts \<noteq> ''''
                     then Some (connect (ro_Addr opts) (ro_Password opts) (ro_DB opts) (ro_TLSConfig opts), True)
                     else None) of
       None \<Rightarrow> Inl (errRedisArgs, None)
     | Some (client, ownClient) \<Rightarrow>
         (case rc_Ping R client of
            (Some err, c1) \<Rightarrow>
              Inl (ErrWrap ''transport: redis ping'' err, Some (if ownClient then snd (rc_Close R c1) else c1))
          | (None, c1) \<Rightarrow>
              Inr \<lparr>rd_client = c1, rd_prefix = prefix, rd_ownClient = ownClient, rd_subs = Map.empty,
                   rd_heap = (\<lambda>_. \<lparr>rs_pubsub = 0, rs_out = \<lparr>ch_buf = [], ch_closed = False\<rparr>,
                                   rs_cancelled = False, rs_done = False, rs_held = None\<rparr>),
                   rd_next = 0, rd_closed = False\<rparr>))"

definition channelKey :: "'c RedisTransport \<Rightarrow> string \<Rightarrow> string" where
  "channelKey r topic = rd_prefix r @ '':'' @ topic @ '':events''"

definition snapshotKey :: "'c RedisTransport \<Rightarrow> string \<Rightarrow> string" where
  "snapshotKey r topic = rd_prefix r @ '':'' @ topic @ '':snapshot''"

definition redis_Publish :: "'c RedisClient \<Rightarrow> string \<Rightarrow> bytes \<Rightarrow> 'c RedisTransport
    \<Rightarrow> goerror option \<times> 'c RedisTransport" where
  "redis_Publish R topic msg r =
    (case rc_Publish R (channelKey r topic) msg (rd_client r) of
       (err, c) \<Rightarrow> (err, r\<lparr>rd_client := c\<rparr>))"

definition redis_Subscribe :: "'c RedisClient \<Rightarrow> string \<Rightarrow> 'c RedisTransport
    \<Rightarrow> (goerror + nat) \<times> 'c RedisTransport" where
  "redis_Subscribe R topic r =
    (if rd_closed r then (Inl errRedisClosed, r)
     else if rd_subs r topic \<noteq> None then (Inl (ErrText (''transport: already subscribed to '' @ topic)), r)
     else
       case rc_Subscribe R (channelKey r topic) (rd_client r) of
         (pubsub, c1) \<Rightarrow>
           (case rc_Receive R pubsub c1 of
              (Some err, c2) \<Rightarrow> (Inl (ErrSubscribe topic err), r\<lparr>rd_client := rc_PubSubClose R pubsub c2\<rparr>)
            | (None, c2) \<Rightarrow>
                let i = rd_next r in
                (Inr i, r\<lparr>rd_client := c2, rd_next := Suc i, rd_subs := (rd_subs r)(topic \<mapsto> i),
                   rd_heap := (rd_heap r)(i :=
                     \<lparr>rs_pubsub = pubsub, rs_out = \<lparr>ch_buf = [], ch_closed = False\<rparr>,
                      rs_cancelled = False, rs_done = False, rs_held = None\<rparr>)\<rparr>)))"

definition redis_Snapshot :: "'c RedisClient \<Rightarrow> string \<Rightarrow> bytes \<Rightarrow> 'c RedisTransport
    \<Rightarrow> goerror option \<times> 'c RedisTransport" where
  "redis_Snapshot R topic data r =
    (case rc_Set R (snapshotKey r topic) data (rd_client r) of
       (err, c) \<Rightarrow> (err, r\<lparr>rd_client := c\<rparr>))"

definition redis_FetchSnapshot :: "'c RedisClient \<Rightarrow> string \<Rightarrow> 'c RedisTransport
    \<Rightarrow> (goerror + bytes) \<times> 'c RedisTransport" where
  "redis_FetchSnapshot R topic r =
    (case rc_Get R (snapshotKey r topic) (rd_client r) of
       (RedisNil, c) \<Rightarrow> (Inr [], r\<lparr>rd_client := c\<rparr>)
     | (RedisErr err, c) \<Rightarrow> (Inl err, r\<lparr>rd_client := c\<rparr>)
     | (RedisBytes raw, c) \<Rightarrow> (Inr raw, r\<lparr>rd_client := c\<rparr>))"

text \<open>
  The goroutine of a subscription ends: \<^verbatim>\<open>out\<close> is closed, then \<^verbatim>\<open>done\<close>. \<open>close_sub\<close> is the body
  of the loop of \<^verbatim>\<open>Close\<close>, which waits for that.
\<close>

definition forward_end :: "redisSub \<Rightarrow> redisSub" where
  "forward_end s = (if rs_done s then s
     else s\<lparr>rs_out := (rs_out s)\<lparr>ch_closed := True\<rparr>, rs_done := True\<rparr>)"

definition redis_close_sub :: "'c RedisClient \<Rightarrow> nat \<Rightarrow> 'c RedisTransport \<Rightarrow> 'c RedisTransport" where
  "redis_close_sub R i r =
    r\<lparr>rd_client := rc_PubSubClose R (rs_pubsub (rd_heap r i)) (rd_client r),
      rd_heap := (rd_heap r)(i := forward_end ((rd_heap r i)\<lparr>rs_cancelled := True\<rparr>))\<rparr>"

text \<open>\<open>topics\<close> is the order in which the map of subscriptions is ranged over.\<close>

definition redis_Close :: "'c RedisClient \<Rightarrow> string list \<Rightarrow> 'c RedisTransport
    \<Rightarrow> goerror option \<times> 'c RedisTransport" where
  "redis_Close R topics r =
    (if rd_closed r then (None, r)
     else
       let subs = rd_subs r;
           r1 = r\<lparr>rd_closed := True, rd_subs := Map.empty\<rparr>;
           r2 = fold (\<lambda>topic r. case subs topic of None \<Rightarrow> r | Some i \<Rightarrow> redis_close_sub R i r) topics r1
       in if rd_ownClient r2
          then (case rc_Close R (rd_client r2) of (err, c) \<Rightarrow> (err, r2\<lparr>rd_client := c\<rparr>))
          else (None, r2))"

definition redis_transport :: "'c RedisClient \<Rightarrow> 'c RedisTransport Transport" where
  "redis_transport R =
    \<lparr>tr_Publish = redis_Publish R, tr_Subscribe = redis_Subscribe R, tr_Snapshot = redis_Snapshot R,
     tr_FetchSnapshot = redis_FetchSnapshot R\<rparr>"

subsection \<open>The goroutine of a subscription\<close>

text \<open>
  The cases of its two \<^verbatim>\<open>select\<close> statements and the reads of the subscriber. Next to the
  subscription the machine keeps the messages taken from the client and those the subscriber
  has received.
\<close>

inductive forward_step :: "redisSub \<times> bytes list \<times> bytes list \<Rightarrow> redisSub \<times> bytes list \<times> bytes list \<Rightarrow> bool" where
  take: "\<not> rs_done s \<Longrightarrow> rs_held s = None \<Longrightarrow>
    forward_step (s, taken, got) (s\<lparr>rs_held := Some m\<rparr>, taken @ [m], got)"
| pass: "\<not> rs_done s \<Longrightarrow> rs_held s = Some m \<Longrightarrow> length (ch_buf (rs_out s)) < 256 \<Longrightarrow>
    forward_step (s, taken, got)
      (s\<lparr>rs_held := None, rs_out := (rs_out s)\<lparr>ch_buf := ch_buf (rs_out s) @ [m]\<rparr>\<rparr>, taken, got)"
| eof: "\<not> rs_done s \<Longrightarrow> rs_held s = None \<Longrightarrow> forward_step (s, taken, got) (forward_end s, taken, got)"
| cancelled: "\<not> rs_done s \<Longrightarrow> rs_cancelled s \<Longrightarrow>
    forward_step (s, taken, got) (forward_end s, taken, got)"
| cancel: "forward_step (s, taken, got) (s\<lparr>rs_cancelled := True\<rparr>, taken, got)"
| receive: "ch_buf (rs_out s) = m # ms \<Longrightarrow>
    forward_step (s, taken, got) (s\<lparr>rs_out := (rs_out s)\<lparr>ch_buf := ms\<rparr>\<rparr>, taken, got @ [m])"

text \<open>Runs start with a subscription as \<^verbatim>\<open>Subscribe\<close> makes it.\<close>

definition fresh_sub :: "nat \<Rightarrow> redisSub" where
  "fresh_sub pubsub = \<lparr>rs_pubsub = pubsub, rs_out = \<lparr>ch_buf = [], ch_closed = False\<rparr>,
     rs_cancelled = False, rs_done = False, rs_held = None\<rparr>"

inductive forward_runs :: "redisSub \<times> bytes list \<times> bytes list \<Rightarrow> bool" where
  start: "forward_runs (fresh_sub pubsub, [], [])"
| step: "forward_runs c \<Longrightarrow> forward_step c c' \<Longrightarrow> forward_runs c'"

definition held_list :: "redisSub \<Rightarrow> bytes list" where
  "held_list s = (case rs_held s of None \<Rightarrow> [] | Some m \<Rightarrow> [m])"

definition forward_ok :: "redisSub \<Rightarrow> bytes list \<Rightarrow> bytes list \<Rightarrow> bool" where
  "forward_ok s taken got \<longleftrightarrow> taken = got @ ch_buf (rs_out s) @ held_list s \<and>
     length (ch_buf (rs_out s)) \<le> 256 \<and> rs_done s = ch_closed (rs_out s)"

lemma forward_step_ok:
  "forward_step (s, taken, got) (s', taken', got') \<Longrightarrow> forward_ok s taken got \<Longrightarrow> forward_ok s' taken' got'"
  by (erule forward_step.cases) (simp_all add: forward_ok_def held_list_def forward_end_def)

lemma forward_runs_ok: "forward_runs c \<Longrightarrow> forward_ok (fst c) (fst (snd c)) (snd (snd c))"
proof (induction rule: forward_runs.induct)
  case (start pubsub)
  then show ?case by (simp add: forward_ok_def fresh_sub_def held_list_def)
next
  case (step c c')
  then show ?case
    using forward_step_ok [of "fst c" "fst (snd c)" "snd (snd c)" "fst c'" "fst (snd c')" "snd (snd c')"]
    by simp
qed

subsection \<open>Keys\<close>

lemma snapshotKey_inj: "snapshotKey r a = snapshotKey r b \<longleftrightarrow> a = b"
  by (simp add: snapshotKey_def)

lemma channelKey_inj: "channelKey r a = channelKey r b \<longleftrightarrow> a = b"
  by (simp add: channelKey_def)

lemma keys_disjoint: "channelKey r a \<noteq> snapshotKey r b"
proof
  assume "channelKey r a = snapshotKey r b"
  then have "last (channelKey r a) = last (snapshotKey r b)" by simp
  then show False by (simp add: channelKey_def snapshotKey_def)
qed

subsection \<open>What the transport relies on\<close>

text \<open>
  A client whose server answers: publishing and subscribing succeed, \<^verbatim>\<open>SET\<close> without an expiry
  replaces the value of its key and nothing else, \<^verbatim>\<open>GET\<close> returns the value or \<^verbatim>\<open>redis.Nil\<close>, and
  closing a subscription does not close the client. \<open>kv\<close> is the content of the server.
\<close>

definition redis_client_ok :: "'c RedisClient \<Rightarrow> ('c \<Rightarrow> bool) \<Rightarrow> ('c \<Rightarrow> (string \<rightharpoonup> bytes)) \<Rightarrow> bool" where
  "redis_client_ok R alive kv \<longleftrightarrow>
    (\<forall>c k b. alive c \<longrightarrow> (\<exists>c'. rc_Publish R k b c = (None, c') \<and> alive c' \<and> kv c' = kv c)) \<and>
    (\<forall>c k. alive c \<longrightarrow> (\<exists>p c' c''. rc_Subscribe R k c = (p, c') \<and> rc_Receive R p c' = (None, c'') \<and>
        alive c'' \<and> kv c'' = kv c)) \<and>
    (\<forall>c p. alive c \<longrightarrow> alive (rc_PubSubClose R p c)) \<and>
    (\<forall>c k b. alive c \<longrightarrow> (\<exists>c'. rc_Set R k b c = (None, c') \<and> alive c' \<and> kv c' = (kv c)(k \<mapsto> b))) \<and>
    (\<forall>c k. alive c \<longrightarrow> rc_Get R k c = ((case kv c k of None \<Rightarrow> RedisNil | Some b \<Rightarrow> RedisBytes b), c))"

lemma redis_client_okD:
  assumes "redis_client_ok R alive kv" "alive c"
  shows "\<exists>c'. rc_Publish R k b c = (None, c') \<and> alive c' \<and> kv c' = kv c"
    and "\<exists>p c' c''. rc_Subscribe R k c = (p, c') \<and> rc_Receive R p c' = (None, c'') \<and> alive c'' \<and> kv c'' = kv c"
    and "alive (rc_PubSubClose R p c)"
    and "\<exists>c'. rc_Set R k b c = (None, c') \<and> alive c' \<and> kv c' = (kv c)(k \<mapsto> b)"
    and "rc_Get R k c = ((case kv c k of None \<Rightarrow> RedisNil | Some b \<Rightarrow> RedisBytes b), c)"
  using assms unfolding redis_client_ok_def by simp_all

abbreviation redis_usable :: "('c \<Rightarrow> bool) \<Rightarrow> 'c RedisTransport \<Rightarrow> bool" where
  "redis_usable alive r \<equiv> alive (rd_client r) \<and> \<not> rd_closed r"

abbreviation redis_stored :: "('c \<Rightarrow> (string \<rightharpoonup> bytes)) \<Rightarrow> 'c RedisTransport \<Rightarrow> string \<rightharpoonup> bytes" where
  "redis_stored kv r topic \<equiv> kv (rd_client r) (snapshotKey r topic)"

lemma key_frame [simp]:
  "snapshotKey (r\<lparr>rd_client := c\<rparr>) = snapshotKey r" "channelKey (r\<lparr>rd_client := c\<rparr>) = channelKey r"
  "snapshotKey (r\<lparr>rd_next := n\<rparr>) = snapshotKey r" "snapshotKey (r\<lparr>rd_subs := sb\<rparr>) = snapshotKey r"
  "snapshotKey (r\<lparr>rd_heap := h\<rparr>) = snapshotKey r"
  by (simp_all add: snapshotKey_def channelKey_def fun_eq_iff)

text \<open>Over such a client the transport keeps the contract a store needs.\<close>

lemma redis_contract:
  assumes "redis_client_ok R alive kv"
  shows "transport_contract (redis_transport R) (redis_usable alive) (redis_stored kv)
    (\<lambda>r topic. rd_subs r topic = None)"
proof
  fix t :: "'a RedisTransport" and topic raw
  assume t: "redis_usable alive t"
  note D = redis_client_okD [OF assms, of "rd_client t"]
  show "\<exists>t'. tr_Publish (redis_transport R) topic raw t = (None, t') \<and> redis_usable alive t' \<and>
      redis_stored kv t' = redis_stored kv t \<and> (\<lambda>topic. rd_subs t' topic = None) = (\<lambda>topic. rd_subs t topic = None)"
    using D(1) [of "channelKey t topic" raw] t by (auto simp: redis_transport_def redis_Publish_def)
  show "\<exists>t'. tr_Snapshot (redis_transport R) topic raw t = (None, t') \<and> redis_usable alive t' \<and>
      redis_stored kv t' = (redis_stored kv t)(topic \<mapsto> raw) \<and>
      (\<lambda>topic. rd_subs t' topic = None) = (\<lambda>topic. rd_subs t topic = None)"
    using D(4) [of "snapshotKey t topic" raw] t
    by (auto simp: redis_transport_def redis_Snapshot_def fun_eq_iff snapshotKey_inj)
  show "tr_FetchSnapshot (redis_transport R) topic t =
      (Inr (case redis_stored kv t topic of None \<Rightarrow> [] | Some b \<Rightarrow> b), t)"
    using D(5) [of "snapshotKey t topic"] t
    by (auto simp: redis_transport_def redis_FetchSnapshot_def split: option.split)
  assume "rd_subs t topic = None"
  then show "\<exists>c t'. tr_Subscribe (redis_transport R) topic t = (Inr c, t') \<and> redis_usable alive t' \<and>
      redis_stored kv t' = redis_stored kv t"
    using D(2) [of "channelKey t topic"] t
    by (auto simp: redis_transport_def redis_Subscribe_def Let_def)
qed

subsection \<open>Closing\<close>

lemma redis_close_sub_frame [simp]:
  "rd_ownClient (redis_close_sub R i r) = rd_ownClient r" "rd_closed (redis_close_sub R i r) = rd_closed r"
  "rd_subs (redis_close_sub R i r) = rd_subs r"
  by (simp_all add: redis_close_sub_def)

definition redis_close_subs :: "'c RedisClient \<Rightarrow> (string \<rightharpoonup> nat) \<Rightarrow> string list \<Rightarrow> 'c RedisTransport \<Rightarrow> 'c RedisTransport" where
  "redis_close_subs R subs topics r =
    fold (\<lambda>topic r. case subs topic of None \<Rightarrow> r | Some i \<Rightarrow> redis_close_sub R i r) topics r"

lemma redis_close_subs_simps [simp]:
  "redis_close_subs R subs [] r = r"
  "redis_close_subs R subs (topic # topics) r = redis_close_subs R subs topics
     (case subs topic of None \<Rightarrow> r | Some i \<Rightarrow> redis_close_sub R i r)"
  by (simp_all add: redis_close_subs_def)

lemma redis_close_subs_frame [simp]:
  "rd_ownClient (redis_close_subs R subs topics r) = rd_ownClient r"
  "rd_closed (redis_close_subs R subs topics r) = rd_closed r"
  "rd_subs (redis_close_subs R subs topics r) = rd_subs r"
  by (induction topics arbitrary: r; simp split: option.split)+

lemma redis_close_subs_alive:
  "redis_client_ok R alive kv \<Longrightarrow> alive (rd_client r) \<Longrightarrow> alive (rd_client (redis_close_subs R subs topics r))"
  by (induction topics arbitrary: r)
     (auto simp: redis_close_sub_def redis_client_ok_def split: option.split)

definition sub_ended :: "redisSub \<Rightarrow> bool" where
  "sub_ended s \<longleftrightarrow> rs_cancelled s \<and> rs_done s"

lemma close_sub_ended: "sub_ended (rd_heap (redis_close_sub R i r) j) \<longleftrightarrow> j = i \<or> sub_ended (rd_heap r j)"
  by (auto simp: sub_ended_def redis_close_sub_def forward_end_def)

lemma close_subs_ended:
  "sub_ended (rd_heap r i) \<or> (\<exists>topic \<in> set topics. subs topic = Some i) \<Longrightarrow>
   sub_ended (rd_heap (redis_close_subs R subs topics r) i)"
proof (induction topics arbitrary: r)
  case (Cons topic topics)
  then show ?case by (cases "subs topic") (auto simp: close_sub_ended)
qed simp

lemma redis_Close_eq:
  "\<not> rd_closed r \<Longrightarrow> redis_Close R topics r =
    (let r2 = redis_close_subs R (rd_subs r) topics (r\<lparr>rd_closed := True, rd_subs := Map.empty\<rparr>)
     in if rd_ownClient r then (case rc_Close R (rd_client r2) of (err, c) \<Rightarrow> (err, r2\<lparr>rd_client := c\<rparr>))
        else (None, r2))"
  by (simp add: redis_Close_def redis_close_subs_def [symmetric] Let_def)

subsection \<open>A concrete client\<close>

text \<open>A server that always answers: its keys, and whether the client was closed.\<close>

definition sample_redis :: "((string \<rightharpoonup> bytes) \<times> bool) RedisClient" where
  "sample_redis =
    \<lparr>rc_Ping = (\<lambda>c. (None, c)), rc_Publish = (\<lambda>k b c. (None, c)), rc_Subscribe = (\<lambda>k c. (0, c)),
     rc_Receive = (\<lambda>p c. (None, c)), rc_PubSubClose = (\<lambda>p c. c),
     rc_Set = (\<lambda>k b c. (None, ((fst c)(k \<mapsto> b), snd c))),
     rc_Get = (\<lambda>k c. ((case fst c k of None \<Rightarrow> RedisNil | Some b \<Rightarrow> RedisBytes b), c)),
     rc_Close = (\<lambda>c. (None, (fst c, True)))\<rparr>"

lemma sample_redis_ok: "redis_client_ok sample_redis (\<lambda>c. \<not> snd c) fst"
  by (simp add: redis_client_ok_def sample_redis_def)

definition sample_redis_transport :: "((string \<rightharpoonup> bytes) \<times> bool) RedisTransport" where
  "sample_redis_transport =
    \<lparr>rd_client = (Map.empty, False), rd_prefix = ''podshare'', rd_ownClient = False, rd_subs = Map.empty,
     rd_heap = (\<lambda>_. fresh_sub 0), rd_next = 0, rd_closed = False\<rparr>"

lemma sample_redis_transport_new:
  "NewRedisTransport sample_redis (\<lambda>_ _ _ _. (Map.empty, False))
     \<lparr>ro_Addr = '''', ro_Password = '''', ro_DB = 0, ro_Prefix = '''', ro_Client = Some (Map.empty, False),
      ro_TLSConfig = None\<rparr> = Inr sample_redis_transport"
  by (simp add: NewRedisTransport_def sample_redis_def sample_redis_transport_def fresh_sub_def)

subsection \<open>Properties\<close>

text \<open>
  C24. A pod that joins over Redis catches up. With a server that answers, persisting succeeds, and a
  store another pod constructs afterwards on the topic, over its own transport with the same
  prefix, starts with the persisted replica: every live entry, every tombstone that has not
  expired (holding the zero value), nothing else.
\<close>

theorem redis_replica_is_loaded:
  assumes "redis_client_ok R alive kv"
    and "json_snap_roundtrip J" "codec_roundtrip (s_codec s)"
    and "range_order ks (s_data s)" "all_encodable (s_codec s) (s_data s)" "utf8_data (s_data s)"
    and "marshalSnap J \<lparr>ws_V = ProtocolVersion, ws_Entries =
      kept_entries (s_codec s) (ttl_cutoff now s) ks (s_data s)\<rparr> = Inr body"
    and "alive (rd_client r)" "\<not> rd_closed r" "s_topic s \<noteq> ''''"
    and "s_codec (apply_options opts (default_store z jc (s_topic s))) = s_codec s"
  shows "\<exists>s' r'. persistSnapshot (redis_transport R) J now ks s r = (None, s', r') \<and>
    (\<forall>r2. alive (rd_client r2) \<longrightarrow> \<not> rd_closed r2 \<longrightarrow> rd_subs r2 (s_topic s) = None \<longrightarrow>
      rd_prefix r2 = rd_prefix r' \<longrightarrow> kv (rd_client r2) = kv (rd_client r') \<longrightarrow>
      (\<exists>s2 r3. New z jc J (Inr i) (s_topic s) (Some (redis_transport R)) opts r2 = (Inr s2, r3) \<and>
        s_data s2 = (\<lambda>k. case s_data s k of
          None \<Rightarrow> None
        | Some e \<Rightarrow> if expired (ttl_cutoff now s) e then None
                    else if e_Tombstone e then Some (e\<lparr>e_Value := z\<rparr>) else Some e)))"
proof -
  have u: "redis_usable alive r" using assms(8,9) by simp
  have key: "snapshotKey r2 = snapshotKey r'" if "rd_prefix r2 = rd_prefix r'" for r2 r' :: "'a RedisTransport"
    using that by (simp add: snapshotKey_def fun_eq_iff)
  from transport_contract.restart_loads [OF redis_contract [OF assms(1)] assms(2-7) u assms(10,11), of i]
  show ?thesis by (metis (no_types, lifting) key)
qed

theorem redis_replica_is_loaded_witness:
  "\<exists>s' r' s2 r3. persistSnapshot (redis_transport sample_redis) sample_json 9 [''k''] live_store sample_redis_transport =
       (None, s', r') \<and>
     New '''' sample_codec sample_json (Inr ''id'') ''t'' (Some (redis_transport sample_redis)) []
       (sample_redis_transport\<lparr>rd_client := rd_client r'\<rparr>) = (Inr s2, r3) \<and>
     s_data s2 ''k'' = Some live_entry"
proof -
  let ?es = "kept_entries sample_codec (ttl_cutoff 9 live_store) [''k''] [''k'' \<mapsto> live_entry]"
  have d: "range_order [''k''] (s_data live_store)" "all_encodable (s_codec live_store) (s_data live_store)"
    "utf8_data (s_data live_store)"
    by (simp_all add: range_order_def all_encodable_def utf8_data_def live_entry_def valid_utf8_def of_char_def)
  have b: "marshalSnap sample_json \<lparr>ws_V = ProtocolVersion, ws_Entries = kept_entries (s_codec live_store)
      (ttl_cutoff 9 live_store) [''k''] (s_data live_store)\<rparr> =
      Inr (sample_marshalSnap \<lparr>ws_V = ProtocolVersion, ws_Entries = ?es\<rparr>)"
    using kept_entries_distinct [of "[''k'']" sample_codec "ttl_cutoff 9 live_store" "[''k'' \<mapsto> live_entry]"]
    by (simp add: sample_json_def)
  have o: "s_codec (apply_options [] (default_store '''' sample_codec (s_topic live_store))) = s_codec live_store"
    by (simp add: apply_options_def default_store_def)
  have s: "\<not> snd (rd_client sample_redis_transport)" "\<not> rd_closed sample_redis_transport" "s_topic live_store \<noteq> ''''"
    "codec_roundtrip (s_codec live_store)"
    by (simp_all add: sample_redis_transport_def sample_codec_roundtrip)
  from redis_replica_is_loaded [OF sample_redis_ok sample_json_snap s(4) d b s(1-3) o, of "''id''"]
  show ?thesis
  proof (elim exE conjE, goal_cases)
    case (1 s' r')
    have "rd_prefix r' = rd_prefix sample_redis_transport \<and> \<not> snd (rd_client r')"
      using 1(1) b d(2) by (auto simp: persistSnapshot_eq redis_transport_def redis_Snapshot_def sample_redis_def
          sample_redis_transport_def Let_def)
    with 1(2) [rule_format, of "sample_redis_transport\<lparr>rd_client := rd_client r'\<rparr>"] 1(1) show ?case
      by (auto simp: sample_redis_transport_def expired_def live_entry_def)
  qed
qed

text \<open>
  C37. A Redis subscription keeps the order. In every interleaving of the goroutine of a subscription
  with its reader and with \<^verbatim>\<open>Close\<close>, what the reader received, followed by what lies in its channel
  and at most one message the goroutine holds, is exactly what the client delivered; the channel is
  closed exactly when the goroutine has ended, and never holds more than 256 messages.
\<close>

theorem redis_keeps_the_order:
  assumes "forward_runs (s, taken, got)"
  shows "\<exists>held. taken = got @ ch_buf (rs_out s) @ held \<and> length held \<le> 1 \<and>
    ch_closed (rs_out s) = rs_done s \<and> length (ch_buf (rs_out s)) \<le> 256"
  using forward_runs_ok [OF assms]
  by (intro exI [of _ "held_list s"]) (simp add: forward_ok_def held_list_def split: option.split)

theorem redis_keeps_the_order_witness:
  "\<exists>s held. forward_runs (s, [[1], [2]], []) \<and> [[1], [2]] = ch_buf (rs_out s) @ held \<and> length held \<le> 1"
proof -
  let ?s1 = "(fresh_sub 0)\<lparr>rs_held := Some [1]\<rparr>"
  let ?s2 = "(fresh_sub 0)\<lparr>rs_out := \<lparr>ch_buf = [[1]], ch_closed = False\<rparr>\<rparr>"
  let ?s3 = "?s2\<lparr>rs_held := Some [2]\<rparr>"
  have "forward_step (fresh_sub 0, [], []) (?s1, [[1]], [])"
    using forward_step.take [of "fresh_sub 0" "[]" "[]" "[1]"] by (simp add: fresh_sub_def)
  moreover have "forward_step (?s1, [[1]], []) (?s2, [[1]], [])"
    using forward_step.pass [of ?s1 "[1]" "[[1]]" "[]"] by (simp add: fresh_sub_def)
  moreover have "forward_step (?s2, [[1]], []) (?s3, [[1], [2]], [])"
    using forward_step.take [of ?s2 "[[1]]" "[]" "[2]"] by (simp add: fresh_sub_def)
  ultimately have r: "forward_runs (?s3, [[1], [2]], [])"
    using forward_runs.start [of 0] by (blast intro: forward_runs.step)
  with redis_keeps_the_order [OF r] show ?thesis by auto
qed

text \<open>
  Closing the Redis transport. \<^verbatim>\<open>Close\<close> cancels every subscription and waits until its goroutine
  has ended, leaves a client the transport did not make itself open, and afterwards \<^verbatim>\<open>Subscribe\<close>
  fails and a second \<^verbatim>\<open>Close\<close> does nothing.
\<close>

theorem redis_Close_shuts_down:
  assumes "redis_client_ok R alive kv" "\<not> rd_closed r" "dom (rd_subs r) \<subseteq> set topics"
    and "redis_Close R topics r = (err, r')"
  shows "(\<forall>topic i. rd_subs r topic = Some i \<longrightarrow> rs_cancelled (rd_heap r' i) \<and> rs_done (rd_heap r' i)) \<and>
    (alive (rd_client r) \<longrightarrow> \<not> rd_ownClient r \<longrightarrow> err = None \<and> alive (rd_client r')) \<and>
    redis_Subscribe R topic r' = (Inl errRedisClosed, r') \<and> redis_Close R topics' r' = (None, r')"
proof -
  let ?r1 = "r\<lparr>rd_closed := True, rd_subs := Map.empty\<rparr>"
  let ?r2 = "redis_close_subs R (rd_subs r) topics ?r1"
  have r': "rd_heap r' = rd_heap ?r2" "rd_closed r'" "\<not> rd_ownClient r \<Longrightarrow> err = None \<and> r' = ?r2"
    using assms(2,4) by (auto simp: redis_Close_eq Let_def split: if_splits prod.splits)
  have "sub_ended (rd_heap ?r2 i)" if "rd_subs r t = Some i" for t i
    using that assms(3) by (intro close_subs_ended) auto
  moreover have "alive (rd_client ?r2)" if "alive (rd_client r)"
    using that redis_close_subs_alive [OF assms(1), of ?r1] by simp
  ultimately show ?thesis
    using r' by (auto simp: redis_Subscribe_def redis_Close_def sub_ended_def)
qed

theorem redis_Close_shuts_down_witness:
  "\<exists>r err r'. redis_Subscribe sample_redis ''t'' sample_redis_transport = (Inr 0, r) \<and>
     redis_Close sample_redis [''t''] r = (err, r') \<and> rs_done (rd_heap r' 0) \<and> \<not> snd (rd_client r')"
proof -
  obtain r where r: "redis_Subscribe sample_redis ''t'' sample_redis_transport = (Inr 0, r)"
      "rd_subs r = [''t'' \<mapsto> 0]" "\<not> rd_closed r" "\<not> rd_ownClient r" "\<not> snd (rd_client r)"
    by (simp add: redis_Subscribe_def sample_redis_def sample_redis_transport_def Let_def)
  obtain err r' where c: "redis_Close sample_redis [''t''] r = (err, r')" by (metis prod.exhaust)
  have "dom (rd_subs r) \<subseteq> set [''t'']" using r(2) by simp
  from redis_Close_shuts_down [OF sample_redis_ok r(3) this c] r c show ?thesis by auto
qed

text \<open>
  Under one prefix the keys of different topics differ and no channel key is a snapshot key; a
  topic with a colon can collide with a longer prefix.
\<close>

theorem redis_keys_are_separate:
  "(channelKey r a = channelKey r b \<longleftrightarrow> a = b) \<and> (snapshotKey r a = snapshotKey r b \<longleftrightarrow> a = b) \<and>
   channelKey r a \<noteq> snapshotKey r b \<and>
   snapshotKey (r\<lparr>rd_prefix := ''a''\<rparr>) ''b:c'' = snapshotKey (r\<lparr>rd_prefix := ''a:b''\<rparr>) ''c''"
proof -
  have "snapshotKey (r\<lparr>rd_prefix := ''a''\<rparr>) ''b:c'' = snapshotKey (r\<lparr>rd_prefix := ''a:b''\<rparr>) ''c''"
    by (simp add: snapshotKey_def)
  then show ?thesis by (simp add: channelKey_inj snapshotKey_inj keys_disjoint)
qed

end
