(* ===== verification/Prom_Collector.thy ===== *)
theory Prom_Collector
  imports Lifecycle
begin

section \<open>The Prometheus collector\<close>

text \<open>
  \<^verbatim>\<open>prom/collector.go\<close>: twelve descriptors, and on every scrape one \<^verbatim>\<open>Stats\<close> snapshot turned into
  twelve metrics. \<^verbatim>\<open>prometheus.NewDesc\<close> and \<^verbatim>\<open>prometheus.MustNewConstMetric\<close> are parameters. The
  channel a method sends on is the list of what it sent.

  A \<^verbatim>\<open>float64\<close> that a counter is converted to is given by the integer it denotes: \<open>float64_of\<close>
  is Go's conversion, which rounds to the nearest number with 53 significant bits, ties to even.
\<close>

subsection \<open>Conversion to floating point\<close>

text \<open>\<open>round_even n m\<close> is the multiple of \<open>m\<close> nearest to \<open>n\<close>, an even one on a tie.\<close>

definition round_even :: "int \<Rightarrow> int \<Rightarrow> int" where
  "round_even n m =
    (let q = n div m; r = n mod m in
     (if 2 * r < m then q else if m < 2 * r then q + 1 else if even q then q else q + 1) * m)"

text \<open>The spacing of the numbers at \<open>n\<close>: doubled until 53 bits reach \<open>n\<close>.\<close>

function ulp :: "int \<Rightarrow> int \<Rightarrow> int" where
  "ulp n m = (if \<bar>n\<bar> < 2 ^ 53 * m \<or> m \<le> 0 then m else ulp n (2 * m))"
  by pat_completeness auto
termination by (relation "measure (\<lambda>(n, m). nat (\<bar>n\<bar> - m))") auto

declare ulp.simps [simp del]

definition float64_of :: "int \<Rightarrow> int" where
  "float64_of n = round_even n (ulp n 1)"

lemma ulp_small: "\<bar>n\<bar> < 2 ^ 53 * m \<Longrightarrow> ulp n m = m"
  by (simp add: ulp.simps)

lemma ulp_pos: "0 < m \<Longrightarrow> 0 < ulp n m"
  by (induction n m rule: ulp.induct) (subst ulp.simps, auto)

lemma ulp_bound: "0 < m \<Longrightarrow> m = 1 \<or> 2 ^ 52 * m \<le> \<bar>n\<bar> \<Longrightarrow> ulp n m = 1 \<or> 2 ^ 52 * ulp n m \<le> \<bar>n\<bar>"
  by (induction n m rule: ulp.induct) (subst (1 2) ulp.simps, auto)

lemma round_even_near:
  assumes "0 < m"
  shows "2 * \<bar>round_even n m - n\<bar> \<le> m"
proof -
  let ?q = "n div m" and ?r = "n mod m"
  have n: "?q * m = n - ?r" by (simp add: minus_mod_eq_div_mult)
  have r: "0 \<le> ?r" "?r < m" using assms by simp_all
  consider "2 * ?r < m" | "m < 2 * ?r" | "2 * ?r = m" by linarith
  then show ?thesis
  proof cases
    case 1
    then have "round_even n m - n = - ?r" by (simp add: round_even_def Let_def n)
    with r 1 show ?thesis by simp
  next
    case 2
    then have "round_even n m - n = m - ?r" by (simp add: round_even_def Let_def distrib_right n)
    with r 2 show ?thesis by simp
  next
    case 3
    then have "round_even n m - n = - ?r \<or> round_even n m - n = m - ?r"
      by (auto simp: round_even_def Let_def distrib_right n)
    with r 3 show ?thesis by auto
  qed
qed

lemma round_even_one [simp]: "round_even n 1 = n"
  by (simp add: round_even_def)

text \<open>Exact up to \<open>2 ^ 53\<close>, and off by at most one part in \<open>2 ^ 53\<close> beyond.\<close>

lemma float64_exact: "\<bar>n\<bar> < 2 ^ 53 \<Longrightarrow> float64_of n = n"
  by (simp add: float64_of_def ulp_small)

lemma float64_close: "2 ^ 53 * \<bar>float64_of n - n\<bar> \<le> \<bar>n\<bar>"
proof -
  have near: "2 * \<bar>float64_of n - n\<bar> \<le> ulp n 1"
    unfolding float64_of_def by (rule round_even_near) (simp add: ulp_pos)
  from ulp_bound [of 1 n] have "ulp n 1 = 1 \<or> 2 ^ 52 * ulp n 1 \<le> \<bar>n\<bar>" by simp
  then show ?thesis
  proof
    assume "ulp n 1 = 1"
    then show ?thesis by (simp add: float64_of_def)
  next
    assume "2 ^ 52 * ulp n 1 \<le> \<bar>n\<bar>"
    with near show ?thesis by simp
  qed
qed

subsection \<open>The collector\<close>

datatype ValueType = CounterValue | GaugeValue


text \<open>The fields of \<^verbatim>\<open>Collector\<close>; \<open>pc_statsFn\<close> takes the state \<^verbatim>\<open>Stats\<close> reads.\<close>

record ('s, 'd) Collector =
  pc_statsFn :: "'s \<Rightarrow> Stats"
  pc_writesLocal :: 'd
  pc_writesApplied :: 'd
  pc_writesRejected :: 'd
  pc_reads :: 'd
  pc_eventsDispatched :: 'd
  pc_watchersActive :: 'd
  pc_watchersDropped :: 'd
  pc_snapshots :: 'd
  pc_snapshotBytes :: 'd
  pc_keys :: 'd
  pc_tombstones :: 'd
  pc_tombstonesGCed :: 'd



definition Collector_Collect :: "('d \<Rightarrow> ValueType \<Rightarrow> int \<Rightarrow> 'm) \<Rightarrow> ('s, 'd) Collector \<Rightarrow> 's \<Rightarrow> 'm list" where
  "Collector_Collect newMetric c st =
    (let s = pc_statsFn c st;
         emit = (\<lambda>d kind v. newMetric d kind (float64_of v))
     in [emit (pc_writesLocal c) CounterValue (uint (WritesLocal s)),
         emit (pc_writesApplied c) CounterValue (uint (WritesApplied s)),
         emit (pc_writesRejected c) CounterValue (uint (WritesRejected s)),
         emit (pc_reads c) CounterValue (uint (Reads s)),
         emit (pc_eventsDispatched c) CounterValue (uint (EventsDispatched s)),
         emit (pc_watchersActive c) GaugeValue (WatchersActive s),
         emit (pc_watchersDropped c) CounterValue (uint (WatchersDropped s)),
         emit (pc_snapshots c) CounterValue (uint (Snapshots s)),
         emit (pc_snapshotBytes c) GaugeValue (sint (SnapshotBytes s)),
         emit (pc_keys c) GaugeValue (Keys_count s),
         emit (pc_tombstones c) GaugeValue (Tombstones_count s),
         emit (pc_tombstonesGCed c) CounterValue (uint (TombstonesGCed s))])"

subsection \<open>Properties\<close>




text \<open>The integers of a \<^verbatim>\<open>Stats\<close>, in the order of the metrics.\<close>

definition stats_values :: "Stats \<Rightarrow> int list" where
  "stats_values s =
    [uint (WritesLocal s), uint (WritesApplied s), uint (WritesRejected s), uint (Reads s),
     uint (EventsDispatched s), WatchersActive s, uint (WatchersDropped s), uint (Snapshots s),
     sint (SnapshotBytes s), Keys_count s, Tombstones_count s, uint (TombstonesGCed s)]"

lemma Collect_values:
  "Collector_Collect (\<lambda>d kind v. v) c st = map float64_of (stats_values (pc_statsFn c st))"
  by (simp add: Collector_Collect_def stats_values_def Let_def)

text \<open>
  What a scrape loses. Every collected value is the counter or gauge itself as long as that is
  below \<open>2 ^ 53\<close> in size, and differs from it by at most one part in \<open>2 ^ 53\<close> beyond.
\<close>

theorem collected_values_are_close:
  "list_all2 (\<lambda>v x. 2 ^ 53 * \<bar>v - x\<bar> \<le> \<bar>x\<bar> \<and> (2 ^ 53 \<le> \<bar>x\<bar> \<or> v = x))
     (Collector_Collect (\<lambda>d kind v. v) c st) (stats_values (pc_statsFn c st))"
proof -
  have "2 ^ 53 * \<bar>float64_of x - x\<bar> \<le> \<bar>x\<bar> \<and> (2 ^ 53 \<le> \<bar>x\<bar> \<or> float64_of x = x)" for x
    using float64_close [of x] float64_exact [of x] by linarith
  then show ?thesis unfolding Collect_values list_all2_map1 by (intro list.rel_refl)
qed

end
