(* ===== verification/P2P_Loops.thy ===== *)
theory P2P_Loops
  imports P2P_Mesh
begin

section \<open>The loops of the P2P transport\<close>

text \<open>
  \<^verbatim>\<open>FetchSnapshot\<close>, \<^verbatim>\<open>dialLoop\<close> and \<^verbatim>\<open>acceptLoop\<close> of \<^verbatim>\<open>transport/p2p.go\<close> as step relations over
  the state of \<open>P2P_Mesh\<close>. A step is a turn of the loop, or the part of it between two places
  where the goroutine blocks; where it blocks, other goroutines may leave any state behind.
\<close>

subsection \<open>FetchSnapshot\<close>

text \<open>At the head of the loop (the clock read there, the connections asked so far), or returned.\<close>

datatype fetch_conf =
    Polling time "nat set" P2PTransport
  | Fetched "goerror + bytes" P2PTransport

text \<open>\<^verbatim>\<open>time.Until(deadline)\<close>, at most 100 milliseconds.\<close>

definition fetch_wait :: "time \<Rightarrow> time \<Rightarrow> duration" where
  "fetch_wait deadline now =
    (let wait = time_Sub deadline now in if 100000000 <s wait then 100000000 else wait)"

text \<open>
  \<open>i\<close> is the channel of the request. \<open>now2\<close> is the clock after the requests were sent, \<open>now3\<close>
  when the timer has fired; \<open>t2\<close> is what the other goroutines left while the loop waited.
\<close>

inductive FetchSnapshot_step :: "time \<Rightarrow> string \<Rightarrow> nat \<Rightarrow> fetch_conf \<Rightarrow> fetch_conf \<Rightarrow> bool"
  for deadline topic i where
  out_of_time: "\<not> now < deadline \<Longrightarrow>
    FetchSnapshot_step deadline topic i (Polling now req t) (Fetched (Inr []) t)"
| no_wait: "now < deadline \<Longrightarrow> now \<le> now2 \<Longrightarrow> fetch_round picks topic req t = (req', t1) \<Longrightarrow>
    fetch_wait deadline now2 \<le>s 0 \<Longrightarrow>
    FetchSnapshot_step deadline topic i (Polling now req t) (Fetched (Inr []) t1)"
| answered: "now < deadline \<Longrightarrow> now \<le> now2 \<Longrightarrow> fetch_round picks topic req t = (req', t1) \<Longrightarrow>
    0 <s fetch_wait deadline now2 \<Longrightarrow> fetch_result i t2 = Some raw \<Longrightarrow>
    FetchSnapshot_step deadline topic i (Polling now req t) (Fetched (Inr raw) t2)"
| timer: "now < deadline \<Longrightarrow> now \<le> now2 \<Longrightarrow> fetch_round picks topic req t = (req', t1) \<Longrightarrow>
    0 <s fetch_wait deadline now2 \<Longrightarrow> now2 + sint (fetch_wait deadline now2) \<le> now3 \<Longrightarrow>
    FetchSnapshot_step deadline topic i (Polling now req t) (Polling now3 req' t2)"
| ctx_done: "now < deadline \<Longrightarrow> now \<le> now2 \<Longrightarrow> fetch_round picks topic req t = (req', t1) \<Longrightarrow>
    0 <s fetch_wait deadline now2 \<Longrightarrow>
    FetchSnapshot_step deadline topic i (Polling now req t) (Fetched (Inl err) t2)"
| closed: "now < deadline \<Longrightarrow> now \<le> now2 \<Longrightarrow> fetch_round picks topic req t = (req', t1) \<Longrightarrow>
    0 <s fetch_wait deadline now2 \<Longrightarrow> p2p_isClosed t2 \<Longrightarrow>
    FetchSnapshot_step deadline topic i (Polling now req t) (Fetched (Inl errP2PClosed) t2)"

inductive_cases FetchSnapshot_pollE: "FetchSnapshot_step deadline topic i (Polling now req t) c"
inductive_simps FetchSnapshot_done [simp]: "FetchSnapshot_step deadline topic i (Fetched res t) c"

text \<open>
  The whole method: the request is registered, the loop runs from the clock \<open>now\<close> at its first
  head, the deferred function removes the request.
\<close>

inductive FetchSnapshot_run :: "time \<Rightarrow> time \<Rightarrow> string \<Rightarrow> P2PTransport \<Rightarrow> goerror + bytes \<Rightarrow> P2PTransport \<Rightarrow> bool" where
  refused: "fetch_begin topic t = (Inl err, t') \<Longrightarrow> FetchSnapshot_run now0 now topic t (Inl err) t'"
| ran: "fetch_begin topic t = (Inr i, t1) \<Longrightarrow> now0 \<le> now \<Longrightarrow>
    (FetchSnapshot_step (now0 + sint (p_snapTO t1)) topic i)\<^sup>*\<^sup>* (Polling now {} t1) (Fetched res t2) \<Longrightarrow>
    FetchSnapshot_run now0 now topic t res (fetch_end topic t2)"

text \<open>How many more rounds there can be at the head of the loop.\<close>

definition rounds_left :: "time \<Rightarrow> time \<Rightarrow> nat" where
  "rounds_left deadline now = (if now < deadline then nat ((deadline - now) div 100000000) + 2 else 1)"

lemma sint_fetch_wait:
  assumes "0 <s fetch_wait deadline now"
  shows "sint (fetch_wait deadline now) = min 100000000 (deadline - now)"
proof -
  let ?w = "time_Sub deadline now"
  have w: "sint ?w = max (- (2 ^ 63)) (min (2 ^ 63 - 1) (deadline - now))"
    using sint_of_int64 [of "deadline - now"] by (auto simp: time_Sub_def sint_of_int64)
  have c: "sint (100000000 :: int64) = 100000000" using sint_of_int64 [of 100000000] by simp
  show ?thesis
  proof (cases "100000000 <s ?w")
    case True
    then have "100000000 < sint ?w" by (simp add: word_sless_alt c)
    with w have "100000000 < deadline - now" by (simp add: max_def min_def split: if_splits)
    with True show ?thesis by (simp add: fetch_wait_def Let_def c)
  next
    case False
    then have "sint ?w \<le> 100000000" by (simp add: word_sless_alt c)
    moreover have "0 < sint ?w" using assms False by (simp add: fetch_wait_def Let_def word_sless_alt)
    ultimately show ?thesis
      using w False by (simp add: fetch_wait_def Let_def max_def min_def split: if_splits)
  qed
qed

lemma timer_progress:
  assumes "now < deadline" "now \<le> now2" "0 <s fetch_wait deadline now2"
    "now2 + sint (fetch_wait deadline now2) \<le> now3"
  shows "rounds_left deadline now3 < rounds_left deadline now"
proof (cases "now3 < deadline")
  case True
  then have "now + 100000000 \<le> now3" using assms(2,4) sint_fetch_wait [OF assms(3)] by linarith
  then have "(deadline - now3) div 100000000 + 1 \<le> (deadline - now) div 100000000"
    using zdiv_mono1 [of "deadline - now3 + 100000000" "deadline - now" 100000000] by simp
  moreover have "0 \<le> (deadline - now3) div 100000000" using True by simp
  ultimately show ?thesis using True assms(1) by (simp add: rounds_left_def)
next
  case False
  then show ?thesis using assms(1) by (simp add: rounds_left_def)
qed

lemma FetchSnapshot_steps:
  "(FetchSnapshot_step deadline topic i ^^ n) (Polling now req t) c \<Longrightarrow> n \<le> rounds_left deadline now"
proof (induction n arbitrary: now req t)
  case (Suc n)
  from Suc.prems obtain c1 where c1: "FetchSnapshot_step deadline topic i (Polling now req t) c1"
      "(FetchSnapshot_step deadline topic i ^^ n) c1 c"
    by (meson relpowp_Suc_D2)
  show ?case
  proof (cases c1)
    case (Polling now3 req3 t3)
    with c1(1) have "rounds_left deadline now3 < rounds_left deadline now"
      by (auto elim!: FetchSnapshot_pollE intro: timer_progress)
    with Suc.IH c1(2) Polling show ?thesis by fastforce
  next
    case (Fetched res t3)
    with c1(2) have "n = 0" by (cases n) (auto simp del: relpowp.simps(2) dest!: relpowp_Suc_D2)
    then show ?thesis by (simp add: rounds_left_def)
  qed
qed simp

lemma FetchSnapshot_progress: "\<exists>c. FetchSnapshot_step deadline topic i (Polling now req t) c"
proof (cases "now < deadline")
  case True
  obtain req' t1 where r: "fetch_round (\<lambda>_. True) topic req t = (req', t1)" by (metis prod.exhaust)
  show ?thesis
  proof (cases "0 <s fetch_wait deadline now")
    case w: True
    from FetchSnapshot_step.timer [OF True order_refl r this order_refl] show ?thesis by blast
  next
    case False
    then have "fetch_wait deadline now \<le>s 0" by (simp add: word_sless_alt word_sle_eq)
    from FetchSnapshot_step.no_wait [OF True order_refl r this] show ?thesis by blast
  qed
qed (blast intro: FetchSnapshot_step.out_of_time)

subsection \<open>The dial and the accept loop\<close>

text \<open>
  One dial loop for \<open>addr\<close> with its context (\<open>True\<close>: \<^verbatim>\<open>RemovePeer\<close> has cancelled it; closing
  the transport cancels it as well). It is at its head, has a connection it has not yet given to
  \<^verbatim>\<open>serveConn\<close>, is serving it, waits out the reconnect interval, or has returned. A dial, a read
  and the wait block: they end in a state \<open>t2\<close> that other goroutines left. \<open>removed\<close> is a
  \<^verbatim>\<open>RemovePeer\<close> by another goroutine.
\<close>

datatype dial_pc = DialHead | DialConnected string | DialServing nat | DialWait | DialReturned

inductive dialLoop :: "string \<Rightarrow> dial_pc \<times> bool \<times> P2PTransport \<Rightarrow> dial_pc \<times> bool \<times> P2PTransport \<Rightarrow> bool"
  for addr where
  head_done: "cancelled \<or> p2p_isClosed t \<Longrightarrow>
    dialLoop addr (DialHead, cancelled, t) (DialReturned, cancelled, t)"
| connected: "\<not> cancelled \<Longrightarrow> \<not> p2p_isClosed t \<Longrightarrow>
    dialLoop addr (DialHead, cancelled, t) (DialConnected remote, cancelled, t2)"
| dial_failed: "\<not> cancelled \<Longrightarrow> \<not> p2p_isClosed t \<Longrightarrow>
    dialLoop addr (DialHead, cancelled, t)
      (DialWait, cancelled, p2p_report (ErrWrap (''transport: dial '' @ addr) err) t2)"
| serve: "serveConn_open remote False t = (Some i, t') \<Longrightarrow>
    dialLoop addr (DialConnected remote, cancelled, t) (DialServing i, cancelled, t')"
| serve_refused: "serveConn_open remote False t = (None, t') \<Longrightarrow>
    dialLoop addr (DialConnected remote, cancelled, t) (DialWait, cancelled, t')"
| frame: "serveConn_frame pick i f t2 = Some t' \<Longrightarrow>
    dialLoop addr (DialServing i, cancelled, t) (DialServing i, cancelled, t')"
| read_error: "dialLoop addr (DialServing i, cancelled, t) (DialWait, cancelled, serveConn_error e i t2)"
| serve_closed: "p2p_isClosed t \<Longrightarrow>
    dialLoop addr (DialServing i, cancelled, t) (DialWait, cancelled, serveConn_done i t)"
| wait_done: "cancelled \<or> p2p_isClosed t2 \<Longrightarrow>
    dialLoop addr (DialWait, cancelled, t) (DialReturned, cancelled, t2)"
| wait_timer: "dialLoop addr (DialWait, cancelled, t) (DialHead, cancelled, t2)"
| removed: "\<not> cancelled \<Longrightarrow> addr \<in> set (p_peers t) \<Longrightarrow>
    dialLoop addr (pc, cancelled, t) (pc, True, snd (RemovePeer addr t))"

inductive_simps dialLoop_returned: "dialLoop addr (DialReturned, cancelled, t) c"
inductive_cases dialLoop_stepE: "dialLoop addr (pc, True, t) c"

text \<open>\<^verbatim>\<open>Accept\<close> blocks; an error on a closed transport ends the loop, any other is waited out.\<close>

datatype accept_pc = AcceptHead | AcceptBackoff | AcceptReturned

inductive acceptLoop :: "accept_pc \<times> P2PTransport \<Rightarrow> accept_pc \<times> P2PTransport \<Rightarrow> bool" where
  accepted: "serveConn_open remote True t2 = (conn, t') \<Longrightarrow> acceptLoop (AcceptHead, t) (AcceptHead, t')"
| accept_closed: "p2p_isClosed t2 \<Longrightarrow> acceptLoop (AcceptHead, t) (AcceptReturned, t2)"
| accept_error: "\<not> p2p_isClosed t2 \<Longrightarrow> acceptLoop (AcceptHead, t) (AcceptBackoff, t2)"
| backoff_done: "p2p_isClosed t2 \<Longrightarrow> acceptLoop (AcceptBackoff, t) (AcceptReturned, t2)"
| backoff_timer: "acceptLoop (AcceptBackoff, t) (AcceptHead, t2)"

text \<open>A dial loop whose context is cancelled and that has no connection is about to return.\<close>

fun stopping :: "dial_pc \<Rightarrow> nat" where
  "stopping DialReturned = 0"
| "stopping DialHead = 1"
| "stopping DialWait = 2"
| "stopping _ = 3"

lemma stopping_step:
  "dialLoop addr (pc, True, t) (pc', c', t') \<Longrightarrow> stopping pc \<le> 2 \<Longrightarrow> c' \<and> stopping pc' < stopping pc"
  by (erule dialLoop_stepE) auto

lemma stopping_run:
  assumes "(dialLoop addr ^^ n) (pc, True, t) (pc', c', t')" "stopping pc \<le> 2"
  shows "c' \<and> n + stopping pc' \<le> stopping pc"
  using assms
proof (induction n arbitrary: pc t)
  case (Suc n)
  from relpowp_Suc_D2 [OF Suc.prems(1)] obtain c where c: "dialLoop addr (pc, True, t) c"
      "(dialLoop addr ^^ n) c (pc', c', t')"
    by blast
  obtain pc1 c1 t1 where "c = (pc1, c1, t1)" by (metis prod_cases3)
  with c have s: "dialLoop addr (pc, True, t) (pc1, c1, t1)" "(dialLoop addr ^^ n) (pc1, c1, t1) (pc', c', t')"
    by simp_all
  from stopping_step [OF s(1) Suc.prems(2)] Suc.IH [of pc1 t1] s(2) Suc.prems(2) show ?case by auto
qed simp

subsection \<open>Properties\<close>

text \<open>
  C26. \<^verbatim>\<open>FetchSnapshot\<close> returns. Whatever peers, callers and other goroutines do, its loop takes at
  most one round per 100 milliseconds of \<^verbatim>\<open>SnapshotTimeout\<close> and two more, and before that it is
  never stuck: at its head there always is a next step.
\<close>

theorem FetchSnapshot_terminates:
  assumes "(FetchSnapshot_step (now0 + sint snapTO) topic i ^^ n) (Polling now req t) c"
    and "now0 \<le> now" "0 \<le> sint snapTO"
  shows "n \<le> nat (sint snapTO div 100000000) + 2 \<and>
    ((\<exists>res t'. c = Fetched res t') \<or> (\<exists>c'. FetchSnapshot_step (now0 + sint snapTO) topic i c c'))"
proof -
  have "(now0 + sint snapTO - now) div 100000000 \<le> sint snapTO div 100000000"
    using assms(2) by (intro zdiv_mono1) auto
  then have "rounds_left (now0 + sint snapTO) now \<le> nat (sint snapTO div 100000000) + 2"
    using nat_mono by (simp add: rounds_left_def)
  moreover have "(\<exists>res t'. c = Fetched res t') \<or> (\<exists>c'. FetchSnapshot_step (now0 + sint snapTO) topic i c c')"
    using FetchSnapshot_progress by (cases c) auto
  ultimately show ?thesis using FetchSnapshot_steps [OF assms(1)] by (blast intro: order_trans)
qed

theorem FetchSnapshot_terminates_witness:
  "\<exists>n c. (FetchSnapshot_step (5 + sint (2000000000 :: duration)) ''t'' 0 ^^ n) (Polling 3000000000 {} sample_mesh) c \<and>
     1 \<le> n \<and> n \<le> 22 \<and> c = Fetched (Inr []) sample_mesh"
proof -
  have d: "sint (2000000000 :: duration) = 2000000000" using sint_of_int64 [of 2000000000] by simp
  have s: "(FetchSnapshot_step (5 + sint (2000000000 :: duration)) ''t'' 0 ^^ 1) (Polling 3000000000 {} sample_mesh)
      (Fetched (Inr []) sample_mesh)"
    unfolding relpowp_1 by (rule FetchSnapshot_step.out_of_time) (simp add: d)
  have "(1::nat) \<le> 22" using FetchSnapshot_terminates [OF s] by (simp add: d)
  with s show ?thesis by blast
qed

text \<open>
  Dial loops stop. A dial loop whose peer was removed, or whose transport was closed, and that
  holds no connection returns within two more turns and never connects again; a loop that has
  returned does nothing more.
\<close>

theorem dial_loop_stops:
  assumes "(dialLoop addr ^^ n) (pc, True, t) (pc', cancelled, t')" "pc \<in> {DialHead, DialWait, DialReturned}"
  shows "n \<le> 2 \<and> pc' \<in> {DialHead, DialWait, DialReturned} \<and>
    (pc' \<noteq> DialReturned \<longrightarrow> dialLoop addr (pc', cancelled, t') (DialReturned, cancelled, t'))"
proof -
  have "stopping pc \<le> 2" using assms(2) by auto
  from stopping_run [OF assms(1) this] this have r: "cancelled" "n + stopping pc' \<le> 2" by auto
  then have "pc' \<in> {DialHead, DialWait, DialReturned}" by (cases pc') auto
  with r show ?thesis by (auto intro: dialLoop.intros)
qed

theorem dial_loop_stops_witness:
  "dialLoop ''p'' (DialWait, True, sample_mesh) (DialHead, True, sample_mesh) \<and>
   dialLoop ''p'' (DialHead, True, sample_mesh) (DialReturned, True, sample_mesh)"
proof -
  have w: "dialLoop ''p'' (DialWait, True, sample_mesh) (DialHead, True, sample_mesh)"
    by (rule dialLoop.wait_timer)
  then have "(dialLoop ''p'' ^^ 1) (DialWait, True, sample_mesh) (DialHead, True, sample_mesh)"
    unfolding relpowp_1 .
  from dial_loop_stops [OF this] w show ?thesis by simp
qed

text \<open>
  A removed peer can be connected afterwards. When \<^verbatim>\<open>RemovePeer\<close> runs between the dial and the
  registration of its connection, it finds nothing to close, and the dial loop of the removed
  peer goes on to serve the new connection, which is open and receives what is published.
\<close>

theorem removed_peer_is_served:
  assumes "addr \<in> set (p_peers t)" "\<not> p_closed t"
  shows "\<exists>i t'. (dialLoop addr)\<^sup>*\<^sup>* (DialHead, False, t) (DialServing i, True, t') \<and>
    addr \<notin> set (Peers t') \<and> i \<in> set (p_conns t') \<and> pc_remote (p_cheap t' i) = addr \<and>
    \<not> pc_cancelled (p_cheap t' i)"
proof -
  let ?t1 = "snd (RemovePeer addr t)"
  have p: "addr \<notin> set (p_peers ?t1)" "\<not> p_closed ?t1"
    using assms by (simp_all add: RemovePeer_def Let_def)
  let ?i = "p_nextc ?t1"
  obtain t' where o: "serveConn_open addr False ?t1 = (Some ?i, t')" "p_peers t' = p_peers ?t1"
      "?i \<in> set (p_conns t')" "p_cheap t' ?i = \<lparr>pc_remote = addr, pc_inbound = False, pc_sendQ = [], pc_cancelled = False\<rparr>"
    using p(2) by (simp add: serveConn_open_eq p2p_isClosed_def Let_def)
  have "dialLoop addr (DialHead, False, t) (DialConnected addr, False, t)"
    using assms(2) by (intro dialLoop.connected) (simp_all add: p2p_isClosed_def)
  moreover have "dialLoop addr (DialConnected addr, False, t) (DialConnected addr, True, ?t1)"
    using assms(1) by (intro dialLoop.removed) simp_all
  moreover have "dialLoop addr (DialConnected addr, True, ?t1) (DialServing ?i, True, t')"
    using o(1) by (rule dialLoop.serve)
  ultimately have "(dialLoop addr)\<^sup>*\<^sup>* (DialHead, False, t) (DialServing ?i, True, t')"
    by (meson converse_rtranclp_into_rtranclp rtranclp.rtrancl_refl)
  with o p(1) show ?thesis by (intro exI [of _ ?i] exI [of _ t']) (simp add: Peers_def)
qed

theorem removed_peer_is_served_witness:
  "\<exists>i t'. (dialLoop ''p'')\<^sup>*\<^sup>* (DialHead, False, snd (AddPeer ''p'' sample_mesh)) (DialServing i, True, t') \<and>
     ''p'' \<notin> set (Peers t') \<and> i \<in> set (p_conns t')"
proof -
  have "''p'' \<in> set (p_peers (snd (AddPeer ''p'' sample_mesh)))" "\<not> p_closed (snd (AddPeer ''p'' sample_mesh))"
    by (simp_all add: AddPeer_def p2p_isClosed_def sample_mesh_def)
  from removed_peer_is_served [OF this] show ?thesis by blast
qed

text \<open>A request that was accepted can run to its end, which removes it.\<close>

theorem FetchSnapshot_returns:
  assumes "fetch_begin topic t = (Inr i, t1)" "now0 \<le> now"
  shows "\<exists>res t'. FetchSnapshot_run now0 now topic t res t' \<and> p_pending t' topic = None"
proof -
  let ?dl = "now0 + sint (p_snapTO t1)"
  have "\<exists>res t2. (FetchSnapshot_step ?dl topic i)\<^sup>*\<^sup>* (Polling now {} t1) (Fetched res t2)"
  proof (cases "now < ?dl")
    case True
    obtain req' t2 where r: "fetch_round (\<lambda>_. True) topic {} t1 = (req', t2)" by (metis prod.exhaust)
    show ?thesis
    proof (cases "0 <s fetch_wait ?dl now")
      case w: True
      from FetchSnapshot_step.ctx_done [OF True order_refl r this] show ?thesis by blast
    next
      case False
      then have "fetch_wait ?dl now \<le>s 0" by (simp add: word_sless_alt word_sle_eq)
      from FetchSnapshot_step.no_wait [OF True order_refl r this] show ?thesis by blast
    qed
  qed (blast intro: FetchSnapshot_step.out_of_time)
  then obtain res t2 where "(FetchSnapshot_step ?dl topic i)\<^sup>*\<^sup>* (Polling now {} t1) (Fetched res t2)" by blast
  from FetchSnapshot_run.ran [OF assms this] show ?thesis
    by (intro exI [of _ res] exI [of _ "fetch_end topic t2"]) (simp add: fetch_end_def)
qed

text \<open>
  A finished request can drop the next one. The answer to a snapshot request removes it from
  the table, so another \<^verbatim>\<open>FetchSnapshot\<close> for the topic can register before the first one returns;
  the first one's deferred clean-up then removes the second's entry, and no answer reaches it
  any more.
\<close>

theorem finished_fetch_drops_the_next:
  assumes "fetch_begin topic t = (Inr i, t1)" "\<not> p_closed t"
  shows "\<exists>j t3. fetch_begin topic (deliverSnapResp topic raw t1) = (Inr j, t3) \<and> j \<noteq> i \<and>
    p_pending t3 topic = Some j \<and> p_pending (fetch_end topic t3) topic = None \<and>
    fetch_result j (deliverSnapResp topic raw2 (fetch_end topic t3)) = None \<and>
    fetch_result j (deliverSnapResp topic raw2 t3) = Some raw2"
proof -
  have t1: "i = p_nextr t" "p_pending t1 topic = Some i" "p_resp t1 i = None" "p_nextr t1 = Suc i" "\<not> p_closed t1"
    using assms by (auto simp: fetch_begin_def Let_def p2p_isClosed_def split: if_splits)
  then have "p_pending (deliverSnapResp topic raw t1) topic = None" "p_nextr (deliverSnapResp topic raw t1) = Suc i"
    "\<not> p_closed (deliverSnapResp topic raw t1)"
    by (simp_all add: deliverSnapResp_def Let_def)
  then show ?thesis
    by (simp add: fetch_begin_def p2p_isClosed_def Let_def fetch_end_def fetch_result_def deliverSnapResp_def)
qed

theorem finished_fetch_drops_the_next_witness:
  "\<exists>i t1 j t3. fetch_begin ''t'' sample_mesh = (Inr i, t1) \<and>
     fetch_begin ''t'' (deliverSnapResp ''t'' [1] t1) = (Inr j, t3) \<and>
     fetch_result j (deliverSnapResp ''t'' [2] (fetch_end ''t'' t3)) = None"
proof -
  obtain i t1 where b: "fetch_begin ''t'' sample_mesh = (Inr i, t1)"
    by (simp add: fetch_begin_def p2p_isClosed_def sample_mesh_def Let_def)
  have "\<not> p_closed sample_mesh" by (simp add: sample_mesh_def)
  from finished_fetch_drops_the_next [OF b this, of "[1]" "[2]"] b show ?thesis by blast
qed

end
