(* ===== verification/P2P_Exchange.thy ===== *)
theory P2P_Exchange
  imports P2P_Loops
begin

section \<open>Two meshes and the bytes between them\<close>

text \<open>
  What one \<^verbatim>\<open>P2PTransport\<close> sends and another reads: \<open>senderLoop\<close> takes frames from the queue of a
  connection and writes them, \<open>serveConn_loop\<close> is the read loop of \<^verbatim>\<open>serveConn\<close> at the other end.
  Followed here are messages from \<^verbatim>\<open>Publish\<close> to the channel of a subscriber, and a snapshot from a
  peer's \<^verbatim>\<open>Snapshot\<close> through \<^verbatim>\<open>FetchSnapshot\<close> into a store that joins.
\<close>

subsection \<open>The loops of a connection\<close>

text \<open>
  The sender loop for \<open>n\<close> turns on a connection that takes what is written: the bytes written.
  A turn without a frame waits, and a frame that cannot be written ends the loop.
\<close>

fun senderLoop :: "nat \<Rightarrow> nat \<Rightarrow> P2PTransport \<Rightarrow> bytes \<times> P2PTransport" where
  "senderLoop 0 i t = ([], t)"
| "senderLoop (Suc n) i t =
    (case senderLoop_step True i t of
       (None, t') \<Rightarrow> ([], t')
     | (Some bs, t') \<Rightarrow> (case senderLoop n i t' of (rest, t'') \<Rightarrow> (bs @ rest, t'')))"

text \<open>
  The read loop on the bytes that have arrived. It waits for the rest of a frame while the stream
  goes on (\<open>eof\<close> says it has ended), waits for room in a subscriber's channel, or has returned.
  \<open>picks\<close> chooses among the ready cases of a \<^verbatim>\<open>select\<close>, frame by frame.
\<close>

datatype conn_state =
    Reading bytes P2PTransport
  | Delivering p2pFrame bytes P2PTransport
  | Returned P2PTransport

function serveConn_loop :: "bool \<Rightarrow> (bytes \<Rightarrow> bool) \<Rightarrow> nat \<Rightarrow> bytes \<Rightarrow> P2PTransport \<Rightarrow> conn_state" where
  "serveConn_loop eof picks i r t =
    (if p2p_isClosed t then Returned (serveConn_done i t)
     else case readFrame r of
       Inl e \<Rightarrow>
         if \<not> eof \<and> (e = EOF \<or> e = UnexpectedEOF) then Reading r t
         else Returned (serveConn_error e i t)
     | Inr (f, r') \<Rightarrow>
         (case serveConn_frame (picks r') i f t of
            None \<Rightarrow> Delivering f r' t
          | Some t' \<Rightarrow> serveConn_loop eof picks i r' t'))"
  by pat_completeness auto
termination
  by (relation "measure (\<lambda>(eof, picks, i, r, t). length r)") (auto simp: readFrame_shorter)

declare serveConn_loop.simps [simp del]

lemma serveConn_loop_frame:
  assumes "\<not> p_closed t" "writeFrame (f_msgType f) (f_topic f) (f_payload f) = Inr bs"
    and "serveConn_frame (picks r) i f t = Some t'"
  shows "serveConn_loop eof picks i (bs @ r) t = serveConn_loop eof picks i r t'"
  using assms readFrame_writeFrame [OF assms(2), of r]
  by (cases f) (simp add: serveConn_loop.simps [of eof picks i "bs @ r"] p2p_isClosed_def)

lemma serveConn_loop_idle:
  "\<not> p_closed t \<Longrightarrow> serveConn_loop False picks i [] t = Reading [] t"
  by (simp add: serveConn_loop.simps [of False picks i "[]"] p2p_isClosed_def readFrame_def readFull_def)

lemma senderLoop_frames:
  assumes "pc_sendQ (p_cheap t i) = fs @ rest" "writeFrames fs = Inr bs"
  shows "senderLoop (length fs) i t = (bs, set_conn i ((p_cheap t i)\<lparr>pc_sendQ := rest\<rparr>) t)"
  using assms
proof (induction fs arbitrary: t bs)
  case Nil
  then have "(p_cheap t i)\<lparr>pc_sendQ := rest\<rparr> = p_cheap t i" by (cases "p_cheap t i") simp
  moreover have "set_conn i (p_cheap t i) t = t" by (cases t) (simp add: set_conn_def)
  ultimately have "set_conn i ((p_cheap t i)\<lparr>pc_sendQ := rest\<rparr>) t = t" by (simp only:)
  with Nil show ?case by simp
next
  case (Cons f fs)
  obtain b bs' where b: "writeFrame (f_msgType f) (f_topic f) (f_payload f) = Inr b"
      "writeFrames fs = Inr bs'" "bs = b @ bs'"
    using Cons.prems(2) by (auto split: sum.splits)
  let ?t = "set_conn i ((p_cheap t i)\<lparr>pc_sendQ := fs @ rest\<rparr>) t"
  have "senderLoop_step True i t = (Some b, ?t)"
    using Cons.prems(1) b(1) by (simp add: senderLoop_step_def)
  moreover have "senderLoop (length fs) i ?t = (bs', set_conn i ((p_cheap t i)\<lparr>pc_sendQ := rest\<rparr>) t)"
    using Cons.IH [of ?t bs'] b(2) by (simp add: set_conn_def)
  ultimately show ?case using b(3) by simp
qed

subsection \<open>Events\<close>

definition event_frame :: "string \<Rightarrow> bytes \<Rightarrow> p2pFrame" where
  "event_frame topic msg = \<lparr>f_msgType = p2pMsgEvent, f_topic = topic, f_payload = msg\<rparr>"

lemma event_frame_simps [simp]:
  "f_msgType (event_frame topic msg) = p2pMsgEvent" "f_topic (event_frame topic msg) = topic"
  "f_payload (event_frame topic msg) = msg"
  by (simp_all add: event_frame_def)

text \<open>The sizes a frame can have.\<close>

definition fits :: "string \<Rightarrow> bytes \<Rightarrow> bool" where
  "fits topic msg \<longleftrightarrow> length topic \<le> 65535 \<and> 3 + length topic + length msg \<le> p2pMaxFrame"

lemma fits_writeFrame: "fits topic msg \<longleftrightarrow> (\<exists>bs. writeFrame mt topic msg = Inr bs)"
  by (auto simp: fits_def writeFrame_def Let_def)

lemma fits_events: "\<forall>m \<in> set msgs. fits topic m \<Longrightarrow> \<exists>bs. writeFrames (map (event_frame topic) msgs) = Inr bs"
proof (induction msgs)
  case (Cons m msgs)
  then obtain b bs where "writeFrame p2pMsgEvent topic m = Inr b"
      "writeFrames (map (event_frame topic) msgs) = Inr bs"
    using fits_writeFrame [of topic m p2pMsgEvent] by auto
  then show ?case by simp
qed simp

text \<open>A connection that takes frames: registered, open, on an open transport.\<close>

definition conn_up :: "nat \<Rightarrow> P2PTransport \<Rightarrow> bool" where
  "conn_up i t \<longleftrightarrow> p2p_inv t \<and> \<not> p_closed t \<and> i \<in> set (p_conns t) \<and> \<not> pc_cancelled (p_cheap t i)"

definition p2p_publishes :: "(nat \<Rightarrow> bool) \<Rightarrow> string \<Rightarrow> bytes list \<Rightarrow> P2PTransport \<Rightarrow> P2PTransport" where
  "p2p_publishes picks topic msgs t = fold (\<lambda>m t. snd (p2p_Publish picks topic m t)) msgs t"

lemma p2p_report_frame [simp]:
  "p_conns (p2p_report e t) = p_conns t" "p_closed (p2p_report e t) = p_closed t"
  "p_sendDepth (p2p_report e t) = p_sendDepth t" "p_cheap (p2p_report e t) = p_cheap t"
  "p_pending (p2p_report e t) = p_pending t" "p_resp (p2p_report e t) = p_resp t"
  "p_nextr (p2p_report e t) = p_nextr t" "p_snapshots (p2p_report e t) = p_snapshots t"
  by (simp_all add: p2p_report_def)

lemma either: "p = (x, if c then a else b) \<Longrightarrow> (\<And>y. p = (x, y) \<Longrightarrow> y = a \<or> y = b \<Longrightarrow> thesis) \<Longrightarrow> thesis"
  by simp

lemma publish_up:
  assumes "conn_up i t" "length (pc_sendQ (p_cheap t i)) < p_sendDepth t"
  shows "\<exists>t'. p2p_Publish picks topic m t = (None, t') \<and> conn_up i t' \<and> p_sendDepth t' = p_sendDepth t \<and>
    pc_sendQ (p_cheap t' i) = pc_sendQ (p_cheap t i) @ [event_frame topic m]"
proof -
  have d: "distinct (p_conns t)" using assms(1) by (simp add: conn_up_def p2p_inv_def)
  have cs: "can_send picks t i" using assms by (simp add: can_send_def conn_up_def)
  have n: "length (filter (\<lambda>j. \<not> can_send picks t j) (p_conns t)) \<noteq> length (p_conns t)"
    using length_filter_less [of i "p_conns t" "\<lambda>j. \<not> can_send picks t j"] cs assms(1)
    by (simp add: conn_up_def)
  let ?t = "t\<lparr>p_cheap := (\<lambda>j. if j \<in> set (p_conns t) \<and> can_send picks t j
      then push_frame (event_frame topic m) (p_cheap t j) else p_cheap t j)\<rparr>"
  have "p_conns t \<noteq> []" "\<not> p2p_isClosed t" using assms(1) by (auto simp: conn_up_def p2p_isClosed_def)
  with n have pub: "p2p_Publish picks topic m t =
      (None, if 0 < length (filter (\<lambda>j. \<not> can_send picks t j) (p_conns t)) then p2p_report errSomeFull ?t else ?t)"
    unfolding event_frame_def
    by (simp add: p2p_Publish_def publish_frame_spec [OF d] Let_def del: length_greater_0_conv)
  obtain t' where t': "p2p_Publish picks topic m t = (None, t')" "t' = p2p_report errSomeFull ?t \<or> t' = ?t"
    by (rule either [OF pub])
  have "p2p_inv t'" using p2p_Publish_inv [of t picks topic m] t'(1) assms(1) by (simp add: conn_up_def)
  moreover have "p_conns t' = p_conns t" "p_closed t' = p_closed t" "p_sendDepth t' = p_sendDepth t"
    "p_cheap t' i = push_frame (event_frame topic m) (p_cheap t i)"
    using t'(2) cs assms(1) by (auto simp: conn_up_def)
  ultimately show ?thesis using t'(1) assms(1) by (simp add: conn_up_def push_frame_def)
qed

lemma publishes_up:
  assumes "conn_up i t" "length (pc_sendQ (p_cheap t i)) + length msgs \<le> p_sendDepth t"
  shows "conn_up i (p2p_publishes picks topic msgs t) \<and>
    pc_sendQ (p_cheap (p2p_publishes picks topic msgs t) i) =
      pc_sendQ (p_cheap t i) @ map (event_frame topic) msgs"
  using assms
proof (induction msgs arbitrary: t)
  case (Cons m msgs)
  then obtain t' where t': "p2p_Publish picks topic m t = (None, t')" "conn_up i t'"
      "p_sendDepth t' = p_sendDepth t" "pc_sendQ (p_cheap t' i) = pc_sendQ (p_cheap t i) @ [event_frame topic m]"
    using publish_up [of i t picks topic m] by auto
  with Cons.prems Cons.IH [of t'] show ?case by (simp add: p2p_publishes_def)
qed (simp add: p2p_publishes_def)

lemma read_events:
  assumes "\<not> p_closed t" "p_subs t topic = Some ch" "writeFrames (map (event_frame topic) msgs) = Inr bs"
    and "length (ch_buf (p_heap t ch)) + length msgs \<le> mem_depth"
  shows "serveConn_loop False picks j bs t =
    Reading [] (t\<lparr>p_heap := (p_heap t)(ch := (p_heap t ch)\<lparr>ch_buf := ch_buf (p_heap t ch) @ msgs\<rparr>)\<rparr>)"
  using assms
proof (induction msgs arbitrary: t bs)
  case (Cons m msgs)
  obtain b bs' where b: "writeFrame p2pMsgEvent topic m = Inr b"
      "writeFrames (map (event_frame topic) msgs) = Inr bs'" "bs = b @ bs'"
    using Cons.prems(3) by (auto split: sum.splits)
  let ?t = "t\<lparr>p_heap := (p_heap t)(ch := (p_heap t ch)\<lparr>ch_buf := ch_buf (p_heap t ch) @ [m]\<rparr>)\<rparr>"
  have "serveConn_frame pick j (event_frame topic m) t = Some ?t" for pick
    using Cons.prems(1,2,4)
    by (simp add: serveConn_frame_def deliverEvent_def p2p_isClosed_def Let_def)
  then have "serveConn_loop False picks j (b @ bs') t = serveConn_loop False picks j bs' ?t"
    using Cons.prems(1) b(1) by (intro serveConn_loop_frame [where f = "event_frame topic m"]) simp_all
  moreover have "serveConn_loop False picks j bs' ?t = Reading [] (t\<lparr>p_heap := (p_heap t)
      (ch := (p_heap t ch)\<lparr>ch_buf := ch_buf (p_heap t ch) @ m # msgs\<rparr>)\<rparr>)"
    using Cons.IH [of ?t bs'] Cons.prems b(2) by (simp del: fun_upd_apply add: fun_upd_same)
  ultimately show ?case using b(3) by (simp only:)
qed (simp add: serveConn_loop_idle)

subsection \<open>Snapshots\<close>

lemma enqueueOrReport_conn:
  "p_cheap (enqueueOrReport pick f i t) k =
    (if k = i \<and> length (pc_sendQ (p_cheap t i)) < p_sendDepth t \<and> (\<not> pc_cancelled (p_cheap t i) \<or> pick)
     then push_frame f (p_cheap t i) else p_cheap t k)"
  by (simp add: enqueueOrReport_def enqueue_def push_frame_def Let_def)

lemma enqueueOrReport_frame [simp]:
  "p_closed (enqueueOrReport pick f i t) = p_closed t" "p_pending (enqueueOrReport pick f i t) = p_pending t"
  "p_resp (enqueueOrReport pick f i t) = p_resp t" "p_sendDepth (enqueueOrReport pick f i t) = p_sendDepth t"
  by (simp_all add: enqueueOrReport_def enqueue_def Let_def)

text \<open>A request to every connection leaves one in the queue of each that is open and has room.\<close>

lemma ask_all_frame [simp]:
  "p_closed (fold (\<lambda>i. enqueueOrReport (picks i) f i) is t) = p_closed t"
  "p_pending (fold (\<lambda>i. enqueueOrReport (picks i) f i) is t) = p_pending t"
  "p_resp (fold (\<lambda>i. enqueueOrReport (picks i) f i) is t) = p_resp t"
  by (induction "is" arbitrary: t; simp)+

lemma ask_all_other:
  "i \<notin> set is \<Longrightarrow> p_cheap (fold (\<lambda>i. enqueueOrReport (picks i) f i) is t) i = p_cheap t i"
  by (induction "is" arbitrary: t) (auto simp: enqueueOrReport_conn)

lemma ask_all_conn:
  assumes "distinct is" "i \<in> set is" "length (pc_sendQ (p_cheap t i)) < p_sendDepth t" "\<not> pc_cancelled (p_cheap t i)"
  shows "p_cheap (fold (\<lambda>i. enqueueOrReport (picks i) f i) is t) i = push_frame f (p_cheap t i)"
  using assms
proof (induction "is" arbitrary: t)
  case (Cons j "is")
  then show ?case by (cases "j = i") (auto simp: enqueueOrReport_conn ask_all_other)
qed simp

text \<open>
  A request from connection \<open>i\<close> of \<open>a\<close> to the other end, connection \<open>j\<close> of \<open>b\<close>, and the answer.
\<close>

definition snapshot_exchange :: "(bytes \<Rightarrow> bool) \<Rightarrow> nat \<Rightarrow> nat \<Rightarrow> P2PTransport \<Rightarrow> P2PTransport
    \<Rightarrow> (P2PTransport \<times> P2PTransport) option" where
  "snapshot_exchange picks i j a b =
    (case senderLoop 1 i a of
       (req, a1) \<Rightarrow>
         (case serveConn_loop False picks j req b of
            Reading _ b1 \<Rightarrow>
              (case senderLoop 1 j b1 of
                 (resp, b2) \<Rightarrow>
                   (case serveConn_loop False picks i resp a1 of
                      Reading _ a2 \<Rightarrow> Some (a2, b2)
                    | _ \<Rightarrow> None))
          | _ \<Rightarrow> None))"

definition req_frame :: "string \<Rightarrow> p2pFrame" where
  "req_frame topic = \<lparr>f_msgType = p2pMsgSnapReq, f_topic = topic, f_payload = []\<rparr>"

definition resp_frame :: "string \<Rightarrow> bytes \<Rightarrow> p2pFrame" where
  "resp_frame topic snap = \<lparr>f_msgType = p2pMsgSnapResp, f_topic = topic, f_payload = snap\<rparr>"

lemma one_frame:
  assumes "pc_sendQ (p_cheap t i) = [f]" "fits (f_topic f) (f_payload f)"
  shows "\<exists>bs. senderLoop 1 i t = (bs, set_conn i ((p_cheap t i)\<lparr>pc_sendQ := []\<rparr>) t) \<and>
    (\<forall>u picks j u'. \<not> p_closed u \<longrightarrow> serveConn_frame (picks []) j f u = Some u' \<longrightarrow> \<not> p_closed u' \<longrightarrow>
      serveConn_loop False picks j bs u = Reading [] u')"
proof -
  obtain bs where bs: "writeFrame (f_msgType f) (f_topic f) (f_payload f) = Inr bs"
    using assms(2) fits_writeFrame by blast
  then have "senderLoop 1 i t = (bs, set_conn i ((p_cheap t i)\<lparr>pc_sendQ := []\<rparr>) t)"
    using senderLoop_frames [of t i "[f]" "[]" bs] assms(1) by simp
  moreover have "serveConn_loop False picks j bs u = Reading [] u'"
    if "\<not> p_closed u" "serveConn_frame (picks []) j f u = Some u'" "\<not> p_closed u'" for u picks j u'
    using serveConn_loop_frame [OF that(1) bs, of picks "[]" j u' False] that(2,3)
    by (simp add: serveConn_loop_idle)
  ultimately show ?thesis by blast
qed

lemma exchange_answers:
  assumes a: "\<not> p_closed a" "pc_sendQ (p_cheap a i) = [req_frame topic]"
      "p_pending a topic = Some r" "p_resp a r = None"
    and b: "\<not> p_closed b" "pc_sendQ (p_cheap b j) = []" "\<not> pc_cancelled (p_cheap b j)" "0 < p_sendDepth b"
      "p_snapshots b topic = Some snap" "fits topic snap"
  shows "\<exists>a2 b2. snapshot_exchange picks i j a b = Some (a2, b2) \<and> p_resp a2 r = Some snap"
proof -
  have "fits topic []" using b(6) by (simp add: fits_def)
  then obtain req where req: "senderLoop 1 i a = (req, set_conn i ((p_cheap a i)\<lparr>pc_sendQ := []\<rparr>) a)"
      "\<And>u picks j u'. \<not> p_closed u \<Longrightarrow> serveConn_frame (picks []) j (req_frame topic) u = Some u' \<Longrightarrow>
        \<not> p_closed u' \<Longrightarrow> serveConn_loop False picks j req u = Reading [] u'"
    using one_frame [OF a(2)] by (auto simp: req_frame_def)
  let ?b1 = "enqueueOrReport (picks []) (resp_frame topic snap) j b"
  have b1: "serveConn_loop False picks j req b = Reading [] ?b1"
    using b(1,5) by (intro req(2))
      (simp_all add: serveConn_frame_def req_frame_def resp_frame_def p2pMsgSnapReq_def p2pMsgEvent_def)
  have "pc_sendQ (p_cheap ?b1 j) = [resp_frame topic snap]"
    using b(2-4) by (simp add: enqueueOrReport_conn push_frame_def)
  from one_frame [OF this] b(6) obtain resp where
      resp: "senderLoop 1 j ?b1 = (resp, set_conn j ((p_cheap ?b1 j)\<lparr>pc_sendQ := []\<rparr>) ?b1)"
      "\<And>u picks j u'. \<not> p_closed u \<Longrightarrow> serveConn_frame (picks []) j (resp_frame topic snap) u = Some u' \<Longrightarrow>
        \<not> p_closed u' \<Longrightarrow> serveConn_loop False picks j resp u = Reading [] u'"
    by (auto simp: resp_frame_def)
  let ?a1 = "set_conn i ((p_cheap a i)\<lparr>pc_sendQ := []\<rparr>) a"
  have "serveConn_loop False picks i resp ?a1 = Reading [] (deliverSnapResp topic snap ?a1)"
    using a(1) by (intro resp(2))
      (simp_all add: serveConn_frame_def resp_frame_def p2pMsgSnapReq_def p2pMsgEvent_def p2pMsgSnapResp_def
        deliverSnapResp_def Let_def split: option.split)
  moreover have "p_resp (deliverSnapResp topic snap ?a1) r = Some snap"
    using a(3,4) by (simp add: deliverSnapResp_def Let_def)
  ultimately show ?thesis by (simp add: snapshot_exchange_def req(1) b1 resp(1) del: senderLoop.simps One_nat_def)
qed

text \<open>
  \<^verbatim>\<open>FetchSnapshot\<close> when the answer comes in its first round, or no peer answers at all: \<open>others\<close> is
  what the other goroutines and the peers do while it waits.
\<close>

definition p2p_FetchSnapshot :: "(nat \<Rightarrow> bool) \<Rightarrow> (P2PTransport \<Rightarrow> P2PTransport) \<Rightarrow> string \<Rightarrow> P2PTransport
    \<Rightarrow> (goerror + bytes) \<times> P2PTransport" where
  "p2p_FetchSnapshot picks others topic t =
    (case fetch_begin topic t of
       (Inl err, t1) \<Rightarrow> (Inl err, t1)
     | (Inr i, t1) \<Rightarrow>
         let t2 = others (snd (fetch_round picks topic {} t1))
         in (Inr (case fetch_result i t2 of None \<Rightarrow> [] | Some raw \<Rightarrow> raw), fetch_end topic t2))"

definition p2p_transport :: "(nat \<Rightarrow> bool) \<Rightarrow> (P2PTransport \<Rightarrow> P2PTransport) \<Rightarrow> P2PTransport Transport" where
  "p2p_transport picks others =
    \<lparr>tr_Publish = p2p_Publish picks, tr_Subscribe = p2p_Subscribe, tr_Snapshot = p2p_Snapshot,
     tr_FetchSnapshot = p2p_FetchSnapshot picks others\<rparr>"

interpretation p2p: snapshot_store "p2p_transport picks others" "\<lambda>t. \<not> p_closed t" p_snapshots
    "\<lambda>t topic. p_subs t topic = None"
  by unfold_locales
     (auto simp: p2p_transport_def p2p_Subscribe_def p2p_Snapshot_def p2p_isClosed_def Let_def)

text \<open>An answer in the first round is a run of the method.\<close>

lemma first_wait:
  fixes d :: duration
  assumes "0 <s d"
  shows "0 <s fetch_wait (now + sint d) now"
proof -
  have "time_Sub (now + sint d) now = d"
    using sint_greater_eq [of d] sint_less [of d] by (simp add: time_Sub_def)
  then show ?thesis using assms by (simp add: fetch_wait_def Let_def word_sless_alt)
qed

lemma p2p_FetchSnapshot_is_run:
  assumes "fetch_begin topic t = (Inr i, t1)" "0 <s p_snapTO t1"
    and "fetch_result i (others (snd (fetch_round picks topic {} t1))) = Some raw"
  shows "FetchSnapshot_run now now topic t (fst (p2p_FetchSnapshot picks others topic t))
    (snd (p2p_FetchSnapshot picks others topic t))"
proof -
  let ?d = "now + sint (p_snapTO t1)" and ?t2 = "others (snd (fetch_round picks topic {} t1))"
  have "now < ?d" using assms(2) by (simp add: word_sless_alt)
  moreover obtain req t2 where "fetch_round picks topic {} t1 = (req, t2)" by (metis prod.exhaust)
  ultimately have "FetchSnapshot_step ?d topic i (Polling now {} t1) (Fetched (Inr raw) ?t2)"
    using FetchSnapshot_step.answered first_wait [OF assms(2)] assms(3) by blast
  from FetchSnapshot_run.ran [OF assms(1) order_refl r_into_rtranclp [of "FetchSnapshot_step ?d topic i", OF this]]
  show ?thesis using assms(1,3) by (simp add: p2p_FetchSnapshot_def Let_def)
qed

text \<open>What happens at a transport whose connection \<open>i\<close> leads to connection \<open>j\<close> of the peer \<open>b\<close>.\<close>

definition peer_answers :: "(bytes \<Rightarrow> bool) \<Rightarrow> nat \<Rightarrow> nat \<Rightarrow> P2PTransport \<Rightarrow> P2PTransport \<Rightarrow> P2PTransport" where
  "peer_answers picks i j b a =
    (case snapshot_exchange picks i j a b of None \<Rightarrow> a | Some (a', b') \<Rightarrow> a')"

text \<open>A peer that can answer with \<open>snap\<close>, a transport that can ask.\<close>

definition can_answer :: "nat \<Rightarrow> P2PTransport \<Rightarrow> bool" where
  "can_answer j b \<longleftrightarrow> \<not> p_closed b \<and> pc_sendQ (p_cheap b j) = [] \<and> \<not> pc_cancelled (p_cheap b j) \<and> 0 < p_sendDepth b"

definition can_ask :: "nat \<Rightarrow> string \<Rightarrow> P2PTransport \<Rightarrow> bool" where
  "can_ask i topic a \<longleftrightarrow> conn_up i a \<and> pc_sendQ (p_cheap a i) = [] \<and> 0 < p_sendDepth a \<and>
     p_pending a topic = None"

lemma fetch_from_peer:
  assumes "can_ask i topic a" "can_answer j b" "p_snapshots b topic = Some snap" "fits topic snap"
  shows "\<exists>r a1. fetch_begin topic a = (Inr r, a1) \<and>
    fetch_result r (peer_answers picks' i j b (snd (fetch_round picks topic {} a1))) = Some snap"
proof -
  let ?r = "p_nextr a"
  let ?a1 = "a\<lparr>p_nextr := Suc ?r, p_resp := (p_resp a)(?r := None), p_pending := (p_pending a)(topic \<mapsto> ?r)\<rparr>"
  let ?a2 = "fold (\<lambda>i. enqueueOrReport (picks i) (req_frame topic) i) (p_conns a) ?a1"
  have beg: "fetch_begin topic a = (Inr ?r, ?a1)"
    using assms(1) by (simp add: fetch_begin_def can_ask_def conn_up_def p2p_isClosed_def Let_def)
  have rnd: "snd (fetch_round picks topic {} ?a1) = ?a2" by (simp add: fetch_round_def req_frame_def Let_def)
  have "p_cheap ?a2 i = push_frame (req_frame topic) (p_cheap a i)"
    using ask_all_conn [of "p_conns a" i ?a1 picks "req_frame topic"] assms(1)
    by (simp add: can_ask_def conn_up_def p2p_inv_def)
  then have "pc_sendQ (p_cheap ?a2 i) = [req_frame topic]" using assms(1) by (simp add: can_ask_def push_frame_def)
  then obtain a2 b2 where "snapshot_exchange picks' i j ?a2 b = Some (a2, b2)" "p_resp a2 ?r = Some snap"
    using exchange_answers [of ?a2 i topic ?r b j snap picks'] assms
    by (auto simp: can_ask_def can_answer_def conn_up_def)
  then show ?thesis unfolding beg rnd [symmetric] by (auto simp: peer_answers_def fetch_result_def rnd)
qed

subsection \<open>Properties\<close>

text \<open>
  Messages cross the mesh in order. When a transport publishes messages on a topic and one of
  its connections has room for them, its sender loop writes them to that connection, and the read
  loop at the other end appends exactly these messages, byte for byte and in order, to the channel of
  the subscriber of the topic, provided that has room and the messages fit into frames.
\<close>

theorem published_messages_arrive:
  assumes "conn_up i a" "pc_sendQ (p_cheap a i) = []" "length msgs \<le> p_sendDepth a"
    and "\<not> p_closed b" "p_subs b topic = Some ch" "length (ch_buf (p_heap b ch)) + length msgs \<le> 256"
    and "\<forall>m \<in> set msgs. length topic \<le> 65535 \<and> 3 + length topic + length m \<le> p2pMaxFrame"
  shows "\<exists>bs a' b'. senderLoop (length msgs) i (p2p_publishes picks topic msgs a) = (bs, a') \<and>
    serveConn_loop False picks' j bs b = Reading [] b' \<and>
    ch_buf (p_heap b' ch) = ch_buf (p_heap b ch) @ msgs \<and> (\<forall>c. c \<noteq> ch \<longrightarrow> p_heap b' c = p_heap b c)"
proof -
  let ?a = "p2p_publishes picks topic msgs a"
  obtain bs where bs: "writeFrames (map (event_frame topic) msgs) = Inr bs"
    using fits_events [of msgs topic] assms(7) by (auto simp: fits_def)
  have "pc_sendQ (p_cheap ?a i) = map (event_frame topic) msgs @ []"
    using publishes_up [OF assms(1), of msgs picks topic] assms(2,3) by simp
  from senderLoop_frames [OF this bs]
  have "\<exists>a'. senderLoop (length msgs) i ?a = (bs, a')" by simp
  moreover note read_events [OF assms(4,5) bs, of picks' j]
  ultimately show ?thesis using assms(6) by (auto simp: mem_depth_def)
qed

definition listening_mesh :: P2PTransport where
  "listening_mesh = sample_mesh\<lparr>p_subs := [''t'' \<mapsto> 0], p_next := 1\<rparr>"

lemma sample_mesh_up: "conn_up 0 sample_mesh" "can_answer 0 sample_mesh" "can_ask 0 topic sample_mesh"
  using sample_mesh_inv by (simp_all add: conn_up_def can_answer_def can_ask_def sample_mesh_def)

theorem published_messages_arrive_witness:
  "\<exists>bs a' b'. senderLoop 1 0 (p2p_publishes (\<lambda>_. False) ''t'' [[9, 8]] sample_mesh) = (bs, a') \<and>
     serveConn_loop False (\<lambda>_. False) 0 bs listening_mesh = Reading [] b' \<and> ch_buf (p_heap b' 0) = [[9, 8]]"
  using published_messages_arrive [OF sample_mesh_up(1), of "[[9, 8]]" listening_mesh "''t''" 0 "\<lambda>_. False" "\<lambda>_. False" 0]
  by (auto simp: sample_mesh_def listening_mesh_def p2pMaxFrame_def simp del: senderLoop.simps)

text \<open>
  C25. A pod that joins the mesh catches up. A store persists its replica at one transport; a store
  another pod then constructs on the topic, over a transport with an open connection to the first,
  asks for the snapshot, and the request, the answer and the reads on both sides leave it with
  the persisted replica: every live entry, every tombstone that has not expired, nothing else.
\<close>

theorem p2p_replica_is_loaded:
  assumes "json_snap_roundtrip J" "codec_roundtrip (s_codec s)"
    and "range_order ks (s_data s)" "all_encodable (s_codec s) (s_data s)" "utf8_data (s_data s)"
    and "marshalSnap J \<lparr>ws_V = ProtocolVersion, ws_Entries =
      kept_entries (s_codec s) (ttl_cutoff now s) ks (s_data s)\<rparr> = Inr body"
    and "s_codec (apply_options opts (default_store z jc (s_topic s))) = s_codec s"
    and "s_topic s \<noteq> ''''" "fits (s_topic s) body"
    and "can_answer j b" "can_ask i (s_topic s) a" "p_subs a (s_topic s) = None"
  shows "\<exists>s' b'. persistSnapshot (p2p_transport picks others) J now ks s b = (None, s', b') \<and>
    (\<exists>s2 a'. New z jc J (Inr n) (s_topic s) (Some (p2p_transport picks (peer_answers picks' i j b'))) opts a =
        (Inr s2, a') \<and>
      s_data s2 = (\<lambda>k. case s_data s k of
        None \<Rightarrow> None
      | Some e \<Rightarrow> if expired (ttl_cutoff now s) e then None
                  else if e_Tombstone e then Some (e\<lparr>e_Value := z\<rparr>) else Some e))"
proof -
  have ks: "distinct ks" using assms(3) by (simp add: range_order_def)
  let ?b = "b\<lparr>p_snapshots := (p_snapshots b)(s_topic s \<mapsto> body)\<rparr>"
  have "tr_Snapshot (p2p_transport picks others) (s_topic s) body b = (None, ?b)"
    using assms(10) by (simp add: p2p_transport_def p2p_Snapshot_def can_answer_def p2p_isClosed_def)
  then have p: "\<exists>s'. persistSnapshot (p2p_transport picks others) J now ks s b = (None, s', ?b)"
    by (simp add: persistSnapshot_eq [OF ks assms(4)] assms(6) Let_def)
  have "can_answer j ?b" using assms(10) by (simp add: can_answer_def)
  note from_peer = fetch_from_peer [OF _ this, of i "s_topic s" _ body picks' picks]
  have "\<exists>t2. tr_FetchSnapshot (p2p_transport picks (peer_answers picks' i j ?b)) (s_topic s) t1 = (Inr body, t2)"
    if "tr_Subscribe (p2p_transport picks (peer_answers picks' i j ?b)) (s_topic s) a = (Inr c, t1)" for c t1
  proof -
    have "can_ask i (s_topic s) t1"
      using that assms(11,12) p2p_Subscribe_inv [of a "s_topic s"]
      by (auto simp: p2p_transport_def p2p_Subscribe_def can_ask_def conn_up_def Let_def split: if_splits)
    from from_peer [OF this] assms(9) show ?thesis
      by (auto simp: p2p_transport_def p2p_FetchSnapshot_def Let_def)
  qed
  moreover have "\<not> p_closed a" using assms(11) by (simp add: can_ask_def conn_up_def)
  ultimately show ?thesis
    using p p2p.New_loads [OF assms(1-7) _ assms(12,8)] by blast
qed

theorem p2p_replica_is_loaded_witness:
  "\<exists>s' b' s2 a'. persistSnapshot (p2p_transport (\<lambda>_. False) id) sample_json 9 [''k''] live_store sample_mesh =
     (None, s', b') \<and>
   New '''' sample_codec sample_json (Inr ''id'') ''t''
     (Some (p2p_transport (\<lambda>_. False) (peer_answers (\<lambda>_. False) 0 0 b'))) [] sample_mesh = (Inr s2, a') \<and>
   s_data s2 ''k'' = Some live_entry"
proof -
  let ?es = "kept_entries sample_codec (ttl_cutoff 9 live_store) [''k''] [''k'' \<mapsto> live_entry]"
  let ?body = "sample_marshalSnap \<lparr>ws_V = ProtocolVersion, ws_Entries = ?es\<rparr>"
  have es: "?es = [(''k'', \<lparr>se_Value = str_bytes ''x'', se_Timestamp = 3, se_Origin = ''p'', se_Tombstone = False, se_Seq = 1\<rparr>)]"
    by (simp add: live_entry_def expired_def encode_entry_def snapshot_entry_def)
  have "range_order [''k''] (s_data live_store)" "all_encodable (s_codec live_store) (s_data live_store)"
    "utf8_data (s_data live_store)"
    by (simp_all add: range_order_def all_encodable_def utf8_data_def live_entry_def valid_utf8_def of_char_def)
  moreover have "marshalSnap sample_json \<lparr>ws_V = ProtocolVersion, ws_Entries = ?es\<rparr> = Inr ?body"
    using kept_entries_distinct [of "[''k'']" sample_codec "ttl_cutoff 9 live_store" "[''k'' \<mapsto> live_entry]"]
    by (simp add: sample_json_def)
  moreover have "fits ''t'' ?body"
    unfolding es by (simp add: fits_def p2pMaxFrame_def sample_marshalSnap_def put_entry_bytes_def put_bytes_def put_int_def put_nat_def
      str_bytes_def)
  moreover have "s_codec (apply_options [] (default_store '''' sample_codec ''t'')) = sample_codec"
    by (simp add: apply_options_def default_store_def)
  moreover have "p_subs sample_mesh ''t'' = None" by (simp add: sample_mesh_def)
  moreover have "\<not> expired (ttl_cutoff 9 live_store) live_entry" "\<not> e_Tombstone live_entry"
    by (simp_all add: expired_def live_entry_def)
  ultimately show ?thesis
    using p2p_replica_is_loaded [of sample_json live_store "[''k'']" 9 ?body "[]" "''''" sample_codec 0 sample_mesh 0
        sample_mesh "\<lambda>_. False" id "''id''" "\<lambda>_. False"]
      sample_json_snap sample_codec_roundtrip sample_mesh_up(2,3)
    by fastforce
qed

text \<open>
  A message that does not fit into a frame cuts the connections. \<^verbatim>\<open>Publish\<close> does not check the
  size, takes the message and returns no error; the sender loop of each connection then fails to write
  the frame and closes the connection.
\<close>

theorem oversized_message_disconnects:
  assumes "conn_up i a" "pc_sendQ (p_cheap a i) = []" "0 < p_sendDepth a"
    and "p2pMaxFrame < 3 + length topic + length msg"
  shows "\<exists>a1 a2. p2p_Publish picks topic msg a = (None, a1) \<and> senderLoop_step True i a1 = (None, a2) \<and>
    pc_cancelled (p_cheap a2 i)"
proof -
  obtain a1 where a1: "p2p_Publish picks topic msg a = (None, a1)"
      "pc_sendQ (p_cheap a1 i) = [event_frame topic msg]"
    using publish_up [OF assms(1), of picks topic msg] assms(2,3) by auto
  obtain e where "writeFrame p2pMsgEvent topic msg = Inl e"
    using assms(4) fits_writeFrame [of topic msg p2pMsgEvent]
    by (cases "writeFrame p2pMsgEvent topic msg") (auto simp: fits_def)
  then have "\<exists>a2. senderLoop_step True i a1 = (None, a2) \<and> pc_cancelled (p_cheap a2 i)"
    using a1(2) by (simp add: senderLoop_step_def conn_close_def Let_def)
  with a1(1) show ?thesis by blast
qed

end
