(* ===== verification/Mesh_Steps.thy ===== *)
theory Mesh_Steps
  imports P2P_Mesh
begin

section \<open>Interleavings of the P2P transport's goroutines\<close>

text \<open>
  The goroutines of the mesh share the subscriber channels: a goroutine that serves a connection
  looks a channel up under \<^verbatim>\<open>t.mu\<close> and sends on it after it released the lock, and \<^verbatim>\<open>Close\<close>
  closes the channels. What keeps the send off a closed channel is that \<^verbatim>\<open>Close\<close> first waits for
  every serving goroutine. A step of this machine is a part of a method that runs atomically:

  \<^item> \<open>g_serving\<close> are the connections whose goroutine runs \<^verbatim>\<open>serveConn\<close>, counted in \<^verbatim>\<open>t.wg\<close>, and
    \<open>g_phase\<close> is where it is: the connection is registered and \<^verbatim>\<open>OnConnect\<close> comes next, it is in
    the read loop, or it has left the loop and closes its socket, deletes the connection, and
    calls \<^verbatim>\<open>OnDisconnect\<close>, one after the other;
  \<^item> \<open>g_deliver\<close> are the goroutines at the \<^verbatim>\<open>select\<close> of \<^verbatim>\<open>deliverEvent\<close>, with the channel they found;
  \<^item> \<open>g_closing\<close> are the channels \<^verbatim>\<open>Close\<close> took out of the map and closes at its end;
  \<^item> \<open>g_panic\<close>: a send hit a closed channel, or a channel was closed twice.
\<close>

datatype conn_phase = PhRegistered | PhServing | PhLeaving | PhSocketClosed | PhDeleted

record mesh =
  g_tr :: P2PTransport
  g_serving :: "nat list"
  g_phase :: "nat \<Rightarrow> conn_phase"
  g_deliver :: "(nat \<times> nat \<times> bytes) list"
  g_closing :: "nat list option"
  g_panic :: bool

text \<open>The operations that leave the subscriptions alone.\<close>

inductive quiet_op :: "P2PTransport \<Rightarrow> P2PTransport \<Rightarrow> bool" where
  "quiet_op t (snd (p2p_Publish picks topic msg t))"
| "quiet_op t (snd (p2p_Snapshot topic body t))"
| "quiet_op t (snd (fetch_begin topic t))"
| "quiet_op t (snd (fetch_round picks topic req t))"
| "quiet_op t (fetch_end topic t)"
| "quiet_op t (snd (AddPeer addr t))"
| "quiet_op t (snd (RemovePeer addr t))"
| "quiet_op t (snd (senderLoop_step ok i t))"
| "quiet_op t (enqueueOrReport pick f i t)"
| "quiet_op t (deliverSnapResp topic body t)"
| "quiet_op t (p2p_report e t)"

text \<open>The goroutine of connection \<open>i\<close> is reading, not delivering.\<close>

definition idle :: "nat \<Rightarrow> mesh \<Rightarrow> bool" where
  "idle i g \<longleftrightarrow> i \<in> set (g_serving g) \<and> g_phase g i = PhServing \<and> i \<notin> fst ` set (g_deliver g)"

definition push_event :: "nat \<Rightarrow> bytes \<Rightarrow> P2PTransport \<Rightarrow> P2PTransport" where
  "push_event ch body t = t\<lparr>p_heap := (p_heap t)(ch := (p_heap t ch)\<lparr>ch_buf := ch_buf (p_heap t ch) @ [body]\<rparr>)\<rparr>"

inductive mesh_step :: "mesh \<Rightarrow> mesh \<Rightarrow> bool" where
  quiet: "quiet_op (g_tr g) t \<Longrightarrow> mesh_step g (g\<lparr>g_tr := t\<rparr>)"
| subscribe: "mesh_step g (g\<lparr>g_tr := snd (p2p_Subscribe topic (g_tr g))\<rparr>)"
| consume: "ch_buf (p_heap (g_tr g) ch) = b # bs \<Longrightarrow>
    mesh_step g (g\<lparr>g_tr := (g_tr g)\<lparr>p_heap := (p_heap (g_tr g))(ch := (p_heap (g_tr g) ch)\<lparr>ch_buf := bs\<rparr>)\<rparr>\<rparr>)"
| connect: "conn_register remote inbound (g_tr g) = (Some i, t) \<Longrightarrow>
    mesh_step g (g\<lparr>g_tr := t, g_serving := i # g_serving g, g_phase := (g_phase g)(i := PhRegistered)\<rparr>)"
| refused: "conn_register remote inbound (g_tr g) = (None, t) \<Longrightarrow> mesh_step g (g\<lparr>g_tr := t\<rparr>)"
| on_connect: "i \<in> set (g_serving g) \<Longrightarrow> g_phase g i = PhRegistered \<Longrightarrow>
    mesh_step g (g\<lparr>g_tr := call_onConnect (pc_remote (p_cheap (g_tr g) i)) (pc_inbound (p_cheap (g_tr g) i)) (g_tr g),
      g_phase := (g_phase g)(i := PhServing)\<rparr>)"
| lookup: "idle i g \<Longrightarrow> p_subs (g_tr g) topic = Some ch \<Longrightarrow>
    mesh_step g (g\<lparr>g_deliver := (i, ch, body) # g_deliver g\<rparr>)"
| deliver: "g_deliver g = ds1 @ (i, ch, body) # ds2 \<Longrightarrow> length (ch_buf (p_heap (g_tr g) ch)) < mem_depth \<Longrightarrow>
    mesh_step g (g\<lparr>g_deliver := ds1 @ ds2, g_tr := push_event ch body (g_tr g),
      g_panic := g_panic g \<or> ch_closed (p_heap (g_tr g) ch)\<rparr>)"
| give_up: "g_deliver g = ds1 @ (i, ch, body) # ds2 \<Longrightarrow> p2p_isClosed (g_tr g) \<Longrightarrow>
    mesh_step g (g\<lparr>g_deliver := ds1 @ ds2\<rparr>)"
| leave: "idle i g \<Longrightarrow> p2p_isClosed (g_tr g) \<Longrightarrow>
    mesh_step g (g\<lparr>g_phase := (g_phase g)(i := PhLeaving)\<rparr>)"
| read_error: "idle i g \<Longrightarrow>
    mesh_step g (g\<lparr>g_tr := (if \<not> p2p_isClosed (g_tr g) \<and> e \<noteq> EOF then p2p_report errReadFrame (g_tr g) else g_tr g),
      g_phase := (g_phase g)(i := PhLeaving)\<rparr>)"
| socket_close: "i \<in> set (g_serving g) \<Longrightarrow> g_phase g i = PhLeaving \<Longrightarrow>
    mesh_step g (g\<lparr>g_tr := conn_close i (g_tr g), g_phase := (g_phase g)(i := PhSocketClosed)\<rparr>)"
| unregister: "i \<in> set (g_serving g) \<Longrightarrow> g_phase g i = PhSocketClosed \<Longrightarrow>
    mesh_step g (g\<lparr>g_tr := conn_unregister i (g_tr g), g_phase := (g_phase g)(i := PhDeleted)\<rparr>)"
| on_disconnect: "i \<in> set (g_serving g) \<Longrightarrow> g_phase g i = PhDeleted \<Longrightarrow>
    mesh_step g (g\<lparr>g_tr := call_onDisconnect (pc_remote (p_cheap (g_tr g) i)) (pc_inbound (p_cheap (g_tr g) i)) (g_tr g),
      g_serving := removeAll i (g_serving g)\<rparr>)"
| close_begin: "\<not> p2p_isClosed (g_tr g) \<Longrightarrow> range_order topics (p_subs (g_tr g)) \<Longrightarrow>
    mesh_step g (g\<lparr>g_tr := fold conn_close (p_conns (g_tr g)) ((g_tr g)\<lparr>p_closed := True, p_subs := Map.empty\<rparr>),
      g_closing := Some (map (the \<circ> p_subs (g_tr g)) topics)\<rparr>)"
| close_end: "g_closing g = Some chs \<Longrightarrow> g_serving g = [] \<Longrightarrow>
    mesh_step g (g\<lparr>g_tr := fold close_sub chs (g_tr g), g_closing := None,
      g_panic := g_panic g \<or> \<not> distinct chs \<or> (\<exists>ch \<in> set chs. ch_closed (p_heap (g_tr g) ch))\<rparr>)"

definition fresh_mesh :: "mesh \<Rightarrow> bool" where
  "fresh_mesh g \<longleftrightarrow> (\<exists>opts. NewP2PTransport opts None = Inr (g_tr g)) \<and>
     g_serving g = [] \<and> g_deliver g = [] \<and> g_closing g = None \<and> \<not> g_panic g"

inductive mesh_runs :: "mesh \<Rightarrow> bool" where
  mesh_start: "fresh_mesh g \<Longrightarrow> mesh_runs g"
| mesh_next: "mesh_runs g \<Longrightarrow> mesh_step g g' \<Longrightarrow> mesh_runs g'"

subsection \<open>The invariant\<close>

definition chan_open :: "P2PTransport \<Rightarrow> nat \<Rightarrow> bool" where
  "chan_open t ch \<longleftrightarrow> ch < p_next t \<and> \<not> ch_closed (p_heap t ch)"

definition mesh_inv :: "mesh \<Rightarrow> bool" where
  "mesh_inv g \<longleftrightarrow> \<not> g_panic g \<and>
    (\<forall>i \<in> set (g_serving g). i < p_nextc (g_tr g)) \<and>
    (\<forall>i ch body. (i, ch, body) \<in> set (g_deliver g) \<longrightarrow>
       i \<in> set (g_serving g) \<and> g_phase g i = PhServing \<and> chan_open (g_tr g) ch) \<and>
    (\<forall>topic ch. p_subs (g_tr g) topic = Some ch \<longrightarrow> chan_open (g_tr g) ch) \<and>
    inj_on (p_subs (g_tr g)) (dom (p_subs (g_tr g))) \<and>
    (p_closed (g_tr g) \<longrightarrow> p_subs (g_tr g) = Map.empty) \<and>
    (\<forall>chs. g_closing g = Some chs \<longrightarrow> p_closed (g_tr g) \<and> distinct chs \<and> (\<forall>ch \<in> set chs. chan_open (g_tr g) ch))"

text \<open>
  What the quiet operations keep: every reflexive and transitive relation that their primitive
  changes satisfy. They change the queue and the state of a connection, never its ends.
\<close>

locale quiet_change =
  fixes R :: "P2PTransport \<Rightarrow> P2PTransport \<Rightarrow> bool"
  assumes R_refl: "R t t"
    and R_trans: "R t t' \<Longrightarrow> R t' t'' \<Longrightarrow> R t t''"
    and R_conn: "pc_remote c = pc_remote (p_cheap t i) \<Longrightarrow> pc_inbound c = pc_inbound (p_cheap t i) \<Longrightarrow>
      R t (set_conn i c t)"
    and R_report: "R t (p2p_report e t)"
    and R_peers: "R t (t\<lparr>p_peers := ps\<rparr>)"
    and R_snapshots: "R t (t\<lparr>p_snapshots := ss\<rparr>)"
    and R_pending: "R t (t\<lparr>p_pending := pend\<rparr>)"
    and R_resp: "R t (t\<lparr>p_resp := resp\<rparr>)"
    and R_nextr: "R t (t\<lparr>p_nextr := n\<rparr>)"
begin

lemma R_close: "R t (conn_close i t)"
  by (simp add: conn_close_def R_conn)

lemma R_enqueue: "R t (snd (enqueue pick f i t))" "R t (enqueueOrReport pick f i t)"
  by (auto simp: enqueue_def enqueueOrReport_def Let_def R_conn R_report R_refl)

lemma R_fold: "(\<And>x t. R t (f x t)) \<Longrightarrow> R t (fold f xs t)"
  by (induction xs arbitrary: t) (auto intro: R_refl R_trans)

lemma R_publish_frame: "R t (snd (publish_frame picks f is d t))"
proof (induction picks f "is" d t rule: publish_frame.induct)
  case (2 picks f i "is" d t)
  then show ?case using R_enqueue(1) [of t "picks i" f i] by (auto split: prod.split intro: R_trans)
qed (simp add: R_refl)

lemma R_publish: "R t (snd (p2p_Publish picks topic msg t))"
  using R_publish_frame [of t picks _ "p_conns t" 0] R_trans [OF _ R_report]
  by (auto simp: p2p_Publish_def Let_def case_prod_unfold R_refl)

lemma R_fetch_begin: "R t (snd (fetch_begin topic t))"
  using R_trans [OF R_trans [OF R_nextr R_resp] R_pending, where t = t] by (simp add: fetch_begin_def Let_def R_refl)

lemma R_snapResp: "R t (deliverSnapResp topic body t)"
  using R_trans [OF R_pending R_resp, where t = t]
  by (simp add: deliverSnapResp_def Let_def R_refl R_pending split: option.split)

lemma R_sender: "R t (snd (senderLoop_step ok i t))"
proof -
  have q: "R t (set_conn i ((p_cheap t i)\<lparr>pc_sendQ := fs\<rparr>) t)" for fs by (simp add: R_conn)
  then have "R t (conn_close i (set_conn i ((p_cheap t i)\<lparr>pc_sendQ := fs\<rparr>) t))"
    "R t (conn_close i (p2p_report e (set_conn i ((p_cheap t i)\<lparr>pc_sendQ := fs\<rparr>) t)))" for fs e
    by (blast intro: R_trans R_close R_report)+
  with q show ?thesis
    by (auto simp: senderLoop_step_def Let_def R_refl split: list.split sum.split)
qed

lemma R_removePeer: "R t (snd (RemovePeer addr t))"
  using R_trans [OF R_peers R_fold [of conn_close, OF R_close]]
  by (simp add: RemovePeer_def Let_def R_refl)

lemma R_quiet: "quiet_op t t' \<Longrightarrow> R t t'"
proof (induction rule: quiet_op.induct)
  case (4 t picks topic req)
  then show ?case by (simp add: fetch_round_def Let_def R_fold R_enqueue)
qed (simp_all add: R_publish R_enqueue R_report R_fetch_begin R_snapResp R_sender R_removePeer R_refl
      p2p_Snapshot_def AddPeer_def fetch_end_def R_snapshots R_peers R_pending)

end

text \<open>They keep the subscriptions.\<close>

definition same_subs :: "P2PTransport \<Rightarrow> P2PTransport \<Rightarrow> bool" where
  "same_subs t t' \<longleftrightarrow> p_heap t' = p_heap t \<and> p_subs t' = p_subs t \<and> p_next t' = p_next t \<and> p_closed t' = p_closed t"

interpretation subs: quiet_change same_subs
  by unfold_locales (simp_all add: same_subs_def p2p_report_def)

text \<open>They keep the connections and call no connection callback.\<close>

definition same_conns :: "P2PTransport \<Rightarrow> P2PTransport \<Rightarrow> bool" where
  "same_conns t t' \<longleftrightarrow> p_conns t' = p_conns t \<and> p_nextc t' = p_nextc t \<and> p_calls t' = p_calls t \<and>
     p_onConnect t' = p_onConnect t \<and> p_onDisconnect t' = p_onDisconnect t \<and>
     (\<forall>i. pc_remote (p_cheap t' i) = pc_remote (p_cheap t i) \<and> pc_inbound (p_cheap t' i) = pc_inbound (p_cheap t i))"

interpretation conns: quiet_change same_conns
  by unfold_locales (simp_all add: same_conns_def p2p_report_def)

lemma serveConn_open_same: "serveConn_open remote inbound t = (oi, t') \<Longrightarrow> same_subs t t'"
  by (auto simp: serveConn_open_eq Let_def same_subs_def split: if_splits)

lemma serveConn_error_same: "same_subs t (serveConn_error e i t)"
  by (simp add: serveConn_error_def serveConn_done_eq Let_def same_subs_def p2p_report_def conn_close_def)

lemma close_subs_heap: "p_heap (fold close_sub chs t) = (\<lambda>ch. if ch \<in> set chs then (p_heap t ch)\<lparr>ch_closed := True\<rparr> else p_heap t ch) \<and>
    p_subs (fold close_sub chs t) = p_subs t \<and> p_next (fold close_sub chs t) = p_next t \<and> p_closed (fold close_sub chs t) = p_closed t"
  by (induction chs arbitrary: t) (auto simp: close_sub_def fun_eq_iff)

lemma conn_register_same:
  "conn_register remote inbound t = (oi, t') \<Longrightarrow> same_subs t t' \<and> p_nextc t \<le> p_nextc t' \<and>
     (\<forall>i. oi = Some i \<longrightarrow> i = p_nextc t \<and> p_nextc t' = Suc i)"
  by (auto simp: conn_register_def Let_def same_subs_def split: if_splits)

lemma mesh_inv_same:
  "mesh_inv g \<Longrightarrow> same_subs (g_tr g) t \<Longrightarrow> p_nextc (g_tr g) \<le> p_nextc t \<Longrightarrow> mesh_inv (g\<lparr>g_tr := t\<rparr>)"
  by (auto simp: mesh_inv_def same_subs_def chan_open_def)

text \<open>The steps of a serving goroutine that is not delivering.\<close>

lemma mesh_inv_phase:
  assumes "mesh_inv g" "same_subs (g_tr g) t" "p_nextc t = p_nextc (g_tr g)"
    and "p = PhServing \<or> i \<notin> fst ` set (g_deliver g)"
  shows "mesh_inv (g\<lparr>g_tr := t, g_phase := (g_phase g)(i := p)\<rparr>)"
  using assms by (auto simp: mesh_inv_def same_subs_def chan_open_def image_iff)

lemma not_serving_idle: "mesh_inv g \<Longrightarrow> g_phase g i \<noteq> PhServing \<Longrightarrow> i \<notin> fst ` set (g_deliver g)"
  by (force simp: mesh_inv_def)

lemma callbacks_same:
  "same_subs t (call_onConnect r b t)" "same_subs t (call_onDisconnect r b t)"
  "same_subs t (conn_unregister i t)" "p_nextc (conn_unregister i t) = p_nextc t"
  by (simp_all add: same_subs_def conn_unregister_def)

lemma subscribe_inv:
  assumes "mesh_inv g"
  shows "mesh_inv (g\<lparr>g_tr := snd (p2p_Subscribe topic (g_tr g))\<rparr>)"
proof (cases "p_closed (g_tr g) \<or> p_subs (g_tr g) topic \<noteq> None")
  case True
  then show ?thesis using assms by (auto simp: p2p_Subscribe_def p2p_isClosed_def)
next
  case False
  let ?t = "g_tr g" and ?t' = "snd (p2p_Subscribe topic (g_tr g))"
  have t': "p_next ?t' = Suc (p_next ?t)" "p_subs ?t' = (p_subs ?t)(topic \<mapsto> p_next ?t)" "p_closed ?t' = p_closed ?t"
    "p_heap ?t' = (p_heap ?t)(p_next ?t := \<lparr>ch_buf = [], ch_closed = False\<rparr>)"
    using False by (simp_all add: p2p_Subscribe_def p2p_isClosed_def Let_def)
  have o: "chan_open ?t ch \<Longrightarrow> chan_open ?t' ch" for ch by (simp add: chan_open_def t')
  have n: "chan_open ?t' (p_next ?t)" by (simp add: chan_open_def t')
  have "inj_on (p_subs ?t') (dom (p_subs ?t'))"
  proof (rule inj_onI)
    fix a b assume "p_subs ?t' a = p_subs ?t' b" "a \<in> dom (p_subs ?t')" "b \<in> dom (p_subs ?t')"
    moreover have "p_subs ?t a \<noteq> Some (p_next ?t)" for a using assms by (auto simp: mesh_inv_def chan_open_def)
    ultimately show "a = b" using assms unfolding t'(2)
      by (auto simp: mesh_inv_def dest: inj_onD split: if_splits)
  qed
  moreover have "p_nextc ?t' = p_nextc ?t" by (simp add: p2p_Subscribe_def Let_def)
  ultimately show ?thesis using assms o n False by (auto simp: mesh_inv_def t'(2,3))
qed

lemma push_event_simps [simp]:
  "chan_open (push_event ch body t) ch' = chan_open t ch'" "p_subs (push_event ch body t) = p_subs t"
  "p_closed (push_event ch body t) = p_closed t"
  by (simp_all add: push_event_def chan_open_def)

lemma close_begin_inv:
  assumes "mesh_inv g" "\<not> p_closed (g_tr g)" "range_order topics (p_subs (g_tr g))"
  shows "mesh_inv (g\<lparr>g_tr := fold conn_close (p_conns (g_tr g)) ((g_tr g)\<lparr>p_closed := True, p_subs := Map.empty\<rparr>),
      g_closing := Some (map (the \<circ> p_subs (g_tr g)) topics)\<rparr>)"
proof -
  let ?t = "(g_tr g)\<lparr>p_closed := True, p_subs := Map.empty\<rparr>"
  have same: "same_subs ?t (fold conn_close cs ?t)" for cs by (rule subs.R_fold) (rule subs.R_close)
  have dom: "set topics = dom (p_subs (g_tr g))" "distinct topics" using assms(3) by (auto simp: range_order_def)
  have "inj_on (the \<circ> p_subs (g_tr g)) (set topics)"
  proof (rule inj_onI)
    fix a b assume ab: "a \<in> set topics" "b \<in> set topics" "(the \<circ> p_subs (g_tr g)) a = (the \<circ> p_subs (g_tr g)) b"
    then have "p_subs (g_tr g) a = p_subs (g_tr g) b" using dom(1) by force
    with ab dom(1) show "a = b" using assms(1) by (auto simp: mesh_inv_def dest: inj_onD)
  qed
  then have "distinct (map (the \<circ> p_subs (g_tr g)) topics)" using dom(2) by (simp add: distinct_map)
  moreover have "chan_open (g_tr g) ch" if "ch \<in> set (map (the \<circ> p_subs (g_tr g)) topics)" for ch
    using that assms(1) dom(1) by (force simp: mesh_inv_def)
  moreover have "p_nextc (fold conn_close cs ?t) = p_nextc (g_tr g)" for cs
    using conns.R_fold [of conn_close ?t cs] conns.R_close by (simp add: same_conns_def)
  ultimately show ?thesis
    using assms(1) same [of "p_conns (g_tr g)"] by (auto simp: mesh_inv_def same_subs_def chan_open_def)
qed

lemma close_end_inv:
  assumes "mesh_inv g" "g_closing g = Some chs" "g_serving g = []"
  shows "mesh_inv (g\<lparr>g_tr := fold close_sub chs (g_tr g), g_closing := None,
      g_panic := g_panic g \<or> \<not> distinct chs \<or> (\<exists>ch \<in> set chs. ch_closed (p_heap (g_tr g) ch))\<rparr>)"
proof -
  have "g_deliver g = []" using assms(1,3) by (cases "g_deliver g") (auto simp: mesh_inv_def)
  with assms show ?thesis
    using close_subs_heap [of chs "g_tr g"] by (auto simp: mesh_inv_def chan_open_def)
qed

lemma mesh_step_inv:
  assumes "mesh_step g g'" "mesh_inv g"
  shows "mesh_inv g'"
  using assms(1)
proof cases
  case (quiet t)
  then show ?thesis using mesh_inv_same [OF assms(2) subs.R_quiet] conns.R_quiet by (simp add: same_conns_def)
next
  case (subscribe topic)
  then show ?thesis using subscribe_inv [OF assms(2)] by simp
next
  case (connect remote inbound i t)
  note c = conn_register_same [OF connect(2)]
  have "mesh_inv (g\<lparr>g_tr := t\<rparr>)" using mesh_inv_same [OF assms(2)] c by blast
  moreover have "j \<noteq> i" if "j \<in> set (g_serving g)" for j using that assms(2) c by (auto simp: mesh_inv_def)
  ultimately show ?thesis using connect(1) c by (auto simp: mesh_inv_def)
next
  case (refused remote inbound t)
  then show ?thesis using mesh_inv_same [OF assms(2)] conn_register_same [OF refused(2)] by blast
next
  case (on_connect i)
  then show ?thesis using mesh_inv_phase [OF assms(2) callbacks_same(1)] by simp
next
  case (leave i)
  then show ?thesis using mesh_inv_phase [OF assms(2) subs.R_refl, of PhLeaving i] by (simp add: idle_def)
next
  case (read_error i e)
  let ?t = "if \<not> p2p_isClosed (g_tr g) \<and> e \<noteq> EOF then p2p_report errReadFrame (g_tr g) else g_tr g"
  have "same_subs (g_tr g) ?t" "p_nextc ?t = p_nextc (g_tr g)" by (auto simp: same_subs_def p2p_report_def)
  from mesh_inv_phase [OF assms(2) this] show ?thesis using read_error by (simp add: idle_def)
next
  case (socket_close i)
  then show ?thesis
    using mesh_inv_phase [OF assms(2) subs.R_close] not_serving_idle [OF assms(2), of i] by (simp add: conn_close_def)
next
  case (unregister i)
  then show ?thesis
    using mesh_inv_phase [OF assms(2) callbacks_same(3,4)] not_serving_idle [OF assms(2), of i] by simp
next
  case (on_disconnect i)
  then show ?thesis
    using mesh_inv_same [OF assms(2) callbacks_same(2)] not_serving_idle [OF assms(2), of i]
    by (auto simp: mesh_inv_def image_iff)
next
  case (deliver ds1 i ch body ds2)
  then have "\<not> ch_closed (p_heap (g_tr g) ch)" using assms(2) by (auto simp: mesh_inv_def chan_open_def)
  moreover have "p_nextc (push_event ch body (g_tr g)) = p_nextc (g_tr g)" by (simp add: push_event_def)
  ultimately show ?thesis using deliver assms(2) by (auto simp: mesh_inv_def)
next
  case (close_begin topics)
  then show ?thesis using close_begin_inv [OF assms(2)] by (simp add: p2p_isClosed_def)
next
  case (close_end chs)
  then show ?thesis using close_end_inv [OF assms(2)] by simp
qed (use assms(2) in \<open>auto simp: mesh_inv_def chan_open_def idle_def\<close>)

lemma fresh_mesh_inv:
  assumes "fresh_mesh g"
  shows "mesh_inv g"
proof -
  obtain opts where new: "NewP2PTransport opts None = Inr (g_tr g)" using assms by (auto simp: fresh_mesh_def)
  have peers: "p_subs (fold (\<lambda>peer t. snd (AddPeer peer t)) ps t) = p_subs t" for ps t
    using subs.R_fold [of "\<lambda>peer t. snd (AddPeer peer t)" t ps] subs.R_quiet [OF quiet_op.intros(6)]
    by (simp add: same_subs_def)
  have "o_Listen opts \<noteq> ''''" using new by (auto simp: NewP2PTransport_def)
  then have "p_subs (projr (NewP2PTransport opts None)) = Map.empty"
    by (simp add: NewP2PTransport_def Let_def peers)
  with new have "p_subs (g_tr g) = Map.empty" by simp
  with assms show ?thesis by (auto simp: fresh_mesh_def mesh_inv_def)
qed

lemma mesh_runs_inv: "mesh_runs g \<Longrightarrow> mesh_inv g"
  by (induction rule: mesh_runs.induct) (auto intro: fresh_mesh_inv mesh_step_inv)

subsection \<open>Properties\<close>

text \<open>
  C27. The mesh never sends on a closed channel. In every interleaving of the goroutines that serve
  connections with publishes, subscriptions, peer changes, snapshot requests, disconnects and
  \<^verbatim>\<open>Close\<close>, no send hits a closed subscriber channel and no channel is closed twice, though a
  delivery sends after it released the lock; the channels of the subscriptions and of the deliveries
  under way are open.
\<close>

theorem mesh_never_panics:
  assumes "mesh_runs g"
  shows "\<not> g_panic g \<and>
    (\<forall>topic ch. p_subs (g_tr g) topic = Some ch \<longrightarrow> \<not> ch_closed (p_heap (g_tr g) ch)) \<and>
    (\<forall>i ch body. (i, ch, body) \<in> set (g_deliver g) \<longrightarrow> \<not> ch_closed (p_heap (g_tr g) ch))"
  using mesh_runs_inv [OF assms] by (auto simp: mesh_inv_def chan_open_def)

definition sample_p2p_opts :: P2POptions where
  "sample_p2p_opts = \<lparr>o_Listen = '':0'', o_Peers = [], o_DialTimeout = 0, o_ReconnectInterval = 0,
     o_SnapshotTimeout = 0, o_KeepAlivePeriod = 0, o_SendQueueDepth = 0, o_TLSConfig = False,
     o_OnError = True, o_OnConnect = True, o_OnDisconnect = True\<rparr>"

text \<open>A subscriber, a connection, a delivery that is at its select, and a \<^verbatim>\<open>Close\<close> that has begun.\<close>

lemma sample_delivering_run:
  "\<exists>g. mesh_runs g \<and> g_deliver g = [(0, 0, [7])] \<and> g_closing g = Some [0]"
proof -
  obtain t where t: "NewP2PTransport sample_p2p_opts None = Inr t" "p_subs t = Map.empty" "\<not> p_closed t"
      "p_next t = 0" "p_nextc t = 0"
    by (simp add: NewP2PTransport_def sample_p2p_opts_def Let_def)
  define g0 where "g0 = \<lparr>g_tr = t, g_serving = [], g_phase = (\<lambda>_. PhRegistered), g_deliver = [], g_closing = None, g_panic = False\<rparr>"
  define g1 where "g1 = g0\<lparr>g_tr := snd (p2p_Subscribe ''t'' (g_tr g0))\<rparr>"
  have g1: "p_subs (g_tr g1) = [''t'' \<mapsto> 0]" "\<not> p_closed (g_tr g1)" "p_nextc (g_tr g1) = 0"
    using t by (simp_all add: g1_def g0_def p2p_Subscribe_def p2p_isClosed_def Let_def)
  have "mesh_runs g0" by (rule mesh_start) (use t in \<open>auto simp: fresh_mesh_def g0_def\<close>)
  then have r1: "mesh_runs g1" unfolding g1_def by (rule mesh_next) (rule mesh_step.subscribe)
  define t2 where "t2 = snd (conn_register ''p'' True (g_tr g1))"
  have o: "conn_register ''p'' True (g_tr g1) = (Some 0, t2)" "p_subs t2 = [''t'' \<mapsto> 0]" "\<not> p_closed t2"
    using g1 by (simp_all add: conn_register_def p2p_isClosed_def Let_def t2_def)
  define g2 where "g2 = g1\<lparr>g_tr := t2, g_serving := 0 # g_serving g1, g_phase := (g_phase g1)(0 := PhRegistered)\<rparr>"
  have r2: "mesh_runs g2" unfolding g2_def using r1 by (rule mesh_next) (rule mesh_step.connect [OF o(1)])
  define t3 where "t3 = call_onConnect (pc_remote (p_cheap t2 0)) (pc_inbound (p_cheap t2 0)) t2"
  define g3 where "g3 = g2\<lparr>g_tr := t3, g_phase := (g_phase g2)(0 := PhServing)\<rparr>"
  have "mesh_step g2 g3" unfolding g3_def t3_def
    using mesh_step.on_connect [of 0 g2] by (simp add: g2_def)
  with r2 have r3: "mesh_runs g3" by (rule mesh_next)
  have t3: "p_subs t3 = [''t'' \<mapsto> 0]" "\<not> p_closed t3" using o by (simp_all add: t3_def)
  have i: "idle 0 g3" by (simp add: idle_def g3_def g2_def g1_def g0_def)
  have r4: "mesh_runs (g3\<lparr>g_deliver := [(0, 0, [7])]\<rparr>)" (is "mesh_runs ?g4")
    using mesh_next [OF r3 mesh_step.lookup [OF i, of "''t''" 0 "[7]"]] t3
    by (simp add: g3_def g2_def g1_def g0_def)
  have tr: "g_tr ?g4 = t3" by (simp add: g3_def)
  have "range_order [''t''] (p_subs (g_tr ?g4))" "\<not> p2p_isClosed (g_tr ?g4)"
    unfolding tr using t3 by (simp_all add: range_order_def p2p_isClosed_def)
  from mesh_next [OF r4 mesh_step.close_begin [OF this(2,1)]] show ?thesis
    by (rule_tac exI) (auto simp: tr t3 intro!: conjI)
qed

theorem mesh_never_panics_witness:
  "\<exists>g. mesh_runs g \<and> g_deliver g = [(0, 0, [7])] \<and> g_closing g = Some [0] \<and>
     \<not> ch_closed (p_heap (g_tr g) 0) \<and> \<not> g_panic g"
proof -
  obtain g where g: "mesh_runs g" "g_deliver g = [(0, 0, [7])]" "g_closing g = Some [0]"
    using sample_delivering_run by blast
  with mesh_never_panics [OF g(1)] show ?thesis by auto
qed

end
