(* ===== verification/Mesh_Callbacks.thy ===== *)
theory Mesh_Callbacks
  imports Mesh_Steps
begin

section \<open>The connection callbacks of the mesh\<close>

text \<open>
  \<^verbatim>\<open>OnConnect\<close> and \<^verbatim>\<open>OnDisconnect\<close> fire once per connection, for accepted and for dialled ones, and
  not under \<^verbatim>\<open>t.mu\<close>: a connection is in \<^verbatim>\<open>t.conns\<close> before its first call and out of it before its
  second. In every interleaving of the mesh's goroutines, the calls that have no counterpart yet
  are those of the goroutines between the two, a refused connection makes no call, and \<^verbatim>\<open>Close\<close>
  leaves none behind.
\<close>

text \<open>The goroutines that serve \<open>r\<close> in direction \<open>b\<close> and have made their first call.\<close>

definition announced :: "string \<Rightarrow> bool \<Rightarrow> mesh \<Rightarrow> nat list" where
  "announced r b g = filter (\<lambda>i. pc_remote (p_cheap (g_tr g) i) = r \<and> pc_inbound (p_cheap (g_tr g) i) = b \<and>
     g_phase g i \<noteq> PhRegistered) (g_serving g)"

definition calls_match :: "mesh \<Rightarrow> bool" where
  "calls_match g \<longleftrightarrow> (p_onConnect (g_tr g) \<longrightarrow> p_onDisconnect (g_tr g) \<longrightarrow> (\<forall>r b.
     count_list (p_calls (g_tr g)) (OnConnect r b) =
       count_list (p_calls (g_tr g)) (OnDisconnect r b) + length (announced r b g)))"

definition served :: "mesh \<Rightarrow> bool" where
  "served g \<longleftrightarrow> distinct (g_serving g) \<and> distinct (p_conns (g_tr g)) \<and>
     (\<forall>i \<in> set (g_serving g). i < p_nextc (g_tr g)) \<and>
     set (p_conns (g_tr g)) = {i \<in> set (g_serving g). g_phase g i \<noteq> PhDeleted} \<and>
     (p_closed (g_tr g) \<longrightarrow> g_closing g = None \<longrightarrow> g_serving g = [])"

text \<open>A change that makes no call and moves no goroutine past its first call.\<close>

lemma match_cong:
  assumes "calls_match g" "p_calls (g_tr g') = p_calls (g_tr g)" "p_onConnect (g_tr g') = p_onConnect (g_tr g)"
    "p_onDisconnect (g_tr g') = p_onDisconnect (g_tr g)"
    "\<And>r b. length (announced r b g') = length (announced r b g)"
  shows "calls_match g'"
  using assms by (simp add: calls_match_def)

lemma match_same:
  assumes "calls_match g" "same_conns (g_tr g) (g_tr g')" "g_serving g' = g_serving g"
    "\<And>i. i \<in> set (g_serving g) \<Longrightarrow> (g_phase g' i = PhRegistered) = (g_phase g i = PhRegistered)"
  shows "calls_match g'"
proof (rule match_cong [OF assms(1)])
  show "length (announced r b g') = length (announced r b g)" for r b
    unfolding announced_def assms(3)
    by (intro arg_cong [of _ _ length] filter_cong) (use assms(2,4) in \<open>auto simp: same_conns_def\<close>)
qed (use assms(2) in \<open>simp_all add: same_conns_def\<close>)

lemma length_filter_remove:
  assumes "distinct xs" "i \<in> set xs"
  shows "length (filter P xs) = (if P i then 1 else 0) + length (filter P (removeAll i xs))"
proof -
  obtain ys zs where "xs = ys @ i # zs" "i \<notin> set ys" "i \<notin> set zs"
    using assms by (auto simp: in_set_conv_decomp)
  then show ?thesis by simp
qed

lemma register_match:
  assumes "conn_register remote inbound (g_tr g) = (Some i, t)" "calls_match g" "served g"
  shows "calls_match (g\<lparr>g_tr := t, g_serving := i # g_serving g, g_phase := (g_phase g)(i := PhRegistered)\<rparr>)"
    (is "calls_match ?g'")
proof (rule match_cong [OF assms(2)])
  have t: "i = p_nextc (g_tr g)" "\<And>j. j \<noteq> i \<Longrightarrow> p_cheap t j = p_cheap (g_tr g) j" "p_calls t = p_calls (g_tr g)"
      "p_onConnect t = p_onConnect (g_tr g)" "p_onDisconnect t = p_onDisconnect (g_tr g)"
    using assms(1) by (auto simp: conn_register_def Let_def split: if_splits)
  have "j \<noteq> i" if "j \<in> set (g_serving g)" for j using that assms(3) t(1) by (auto simp: served_def)
  then have "announced r b ?g' = announced r b g" for r b
    unfolding announced_def by (simp add: t(2) cong: filter_cong)
  then show "length (announced r b ?g') = length (announced r b g)" for r b by (rule arg_cong)
qed (use assms(1) in \<open>auto simp: conn_register_def Let_def split: if_splits\<close>)

lemma connect_call_match:
  assumes "calls_match g" "distinct (g_serving g)" "i \<in> set (g_serving g)" "g_phase g i = PhRegistered"
  shows "calls_match (g\<lparr>g_tr := call_onConnect (pc_remote (p_cheap (g_tr g) i)) (pc_inbound (p_cheap (g_tr g) i)) (g_tr g),
      g_phase := (g_phase g)(i := PhServing)\<rparr>)" (is "calls_match ?g'")
proof -
  let ?at = "\<lambda>r b. pc_remote (p_cheap (g_tr g) i) = r \<and> pc_inbound (p_cheap (g_tr g) i) = b"
  have "length (announced r b ?g') = (if ?at r b then 1 else 0) + length (announced r b g)" for r b
  proof -
    let ?P = "\<lambda>ph j. pc_remote (p_cheap (g_tr g) j) = r \<and> pc_inbound (p_cheap (g_tr g) j) = b \<and> ph j \<noteq> PhRegistered"
    have "filter (?P ((g_phase g)(i := PhServing))) (removeAll i (g_serving g)) =
        filter (?P (g_phase g)) (removeAll i (g_serving g))" by (rule filter_cong) auto
    then show ?thesis
      using length_filter_remove [OF assms(2,3), of "?P ((g_phase g)(i := PhServing))"]
        length_filter_remove [OF assms(2,3), of "?P (g_phase g)"] assms(4)
      by (simp add: announced_def)
  qed
  with assms(1) show ?thesis by (auto simp: calls_match_def call_onConnect_def)
qed

lemma disconnect_call_match:
  assumes "calls_match g" "distinct (g_serving g)" "i \<in> set (g_serving g)" "g_phase g i = PhDeleted"
  shows "calls_match (g\<lparr>g_tr := call_onDisconnect (pc_remote (p_cheap (g_tr g) i)) (pc_inbound (p_cheap (g_tr g) i)) (g_tr g),
      g_serving := removeAll i (g_serving g)\<rparr>)" (is "calls_match ?g'")
proof -
  let ?at = "\<lambda>r b. pc_remote (p_cheap (g_tr g) i) = r \<and> pc_inbound (p_cheap (g_tr g) i) = b"
  have "length (announced r b g) = (if ?at r b then 1 else 0) + length (announced r b ?g')" for r b
    using length_filter_remove [OF assms(2,3)] assms(4) by (simp add: announced_def)
  with assms(1) show ?thesis by (auto simp: calls_match_def call_onDisconnect_def)
qed

text \<open>What the steps keep of the connections and of the goroutines.\<close>

lemma served_same:
  assumes "served g" "same_conns (g_tr g) t" "p_closed t = p_closed (g_tr g)"
    "\<And>i. i \<in> set (g_serving g) \<Longrightarrow> (ph i = PhDeleted) = (g_phase g i = PhDeleted)"
  shows "served (g\<lparr>g_tr := t, g_phase := ph\<rparr>)"
  using assms by (auto simp: served_def same_conns_def)

lemma register_served:
  assumes "conn_register remote inbound (g_tr g) = (Some i, t)" "served g"
  shows "served (g\<lparr>g_tr := t, g_serving := i # g_serving g, g_phase := (g_phase g)(i := PhRegistered)\<rparr>)"
proof -
  have t: "i = p_nextc (g_tr g)" "p_conns t = p_conns (g_tr g) @ [i]" "p_nextc t = Suc i" "\<not> p_closed t"
    using assms(1) by (auto simp: conn_register_def p2p_isClosed_def Let_def split: if_splits)
  have "j \<noteq> i" if "j \<in> set (g_serving g)" for j using that assms(2) t(1) by (auto simp: served_def)
  with assms(2) show ?thesis by (auto simp: served_def t)
qed

lemma mesh_step_served:
  assumes "mesh_step g g'" "served g" "calls_match g"
  shows "served g' \<and> calls_match g'"
proof -
  have keep: "served (g\<lparr>g_tr := t, g_phase := ph\<rparr>) \<and> calls_match (g\<lparr>g_tr := t, g_phase := ph\<rparr>)"
    if "same_conns (g_tr g) t" "p_closed t = p_closed (g_tr g)"
      "\<And>i. i \<in> set (g_serving g) \<Longrightarrow> (ph i = PhDeleted) = (g_phase g i = PhDeleted)"
      "\<And>i. i \<in> set (g_serving g) \<Longrightarrow> (ph i = PhRegistered) = (g_phase g i = PhRegistered)" for t ph
    using served_same [OF assms(2) that(1-3)] match_same [OF assms(3), of "g\<lparr>g_tr := t, g_phase := ph\<rparr>"] that
    by simp
  have same: "served (g\<lparr>g_tr := t\<rparr>) \<and> calls_match (g\<lparr>g_tr := t\<rparr>)"
    if "same_conns (g_tr g) t" "p_closed t = p_closed (g_tr g)" for t
    using keep [OF that, of "g_phase g"] by simp
  have dist: "distinct (g_serving g)" using assms(2) by (simp add: served_def)
  from assms(1) show ?thesis
  proof cases
    case (quiet t)
    then show ?thesis using same [of t] conns.R_quiet subs.R_quiet by (auto simp: same_subs_def)
  next
    case (subscribe topic)
    then show ?thesis using same [of "snd (p2p_Subscribe topic (g_tr g))"]
      by (simp add: p2p_Subscribe_def same_conns_def Let_def)
  next
    case (consume ch b bs)
    then show ?thesis using same [of "g_tr g'"] by (simp add: same_conns_def)
  next
    case (connect remote inbound i t)
    then show ?thesis using register_served [OF connect(2) assms(2)] register_match [OF connect(2) assms(3,2)] by simp
  next
    case (refused remote inbound t)
    then have "t = g_tr g" by (auto simp: conn_register_def Let_def split: if_splits)
    then show ?thesis using refused(1) assms(2,3) by simp
  next
    case (on_connect i)
    then show ?thesis using connect_call_match [OF assms(3) dist] assms(2) by (auto simp: served_def)
  next
    case (leave i)
    then show ?thesis using keep [OF conns.R_refl refl, of "(g_phase g)(i := PhLeaving)"] by (auto simp: idle_def)
  next
    case (read_error i e)
    let ?t = "if \<not> p2p_isClosed (g_tr g) \<and> e \<noteq> EOF then p2p_report errReadFrame (g_tr g) else g_tr g"
    have "same_conns (g_tr g) ?t" "p_closed ?t = p_closed (g_tr g)"
      using conns.R_report conns.R_refl by (auto simp: p2p_report_def)
    from keep [OF this, of "(g_phase g)(i := PhLeaving)"] show ?thesis using read_error by (auto simp: idle_def)
  next
    case (socket_close i)
    from keep [OF conns.R_close, of i "(g_phase g)(i := PhSocketClosed)"] socket_close show ?thesis
      by (auto simp: conn_close_def)
  next
    case (unregister i)
    have "announced r b g' = announced r b g" for r b
      unfolding announced_def
      by (rule filter_cong) (use unregister in \<open>auto simp: conn_unregister_def\<close>)
    moreover have "p_calls (g_tr g') = p_calls (g_tr g)" "p_onConnect (g_tr g') = p_onConnect (g_tr g)"
      "p_onDisconnect (g_tr g') = p_onDisconnect (g_tr g)"
      by (simp_all add: unregister(1) conn_unregister_def)
    ultimately have "calls_match g'" by (intro match_cong [OF assms(3)]) simp_all
    moreover have "served g'"
      using assms(2) unregister by (auto simp: served_def conn_unregister_def distinct_removeAll)
    ultimately show ?thesis by simp
  next
    case (on_disconnect i)
    then show ?thesis using disconnect_call_match [OF assms(3) dist] assms(2) by (auto simp: served_def distinct_removeAll)
  next
    case (deliver ds1 i ch body ds2)
    have "same_conns (g_tr g) (push_event ch body (g_tr g))" by (simp add: same_conns_def push_event_def)
    from same [OF this] show ?thesis unfolding deliver by (simp add: served_def calls_match_def announced_def)
  next
    case (close_begin topics)
    let ?t = "(g_tr g)\<lparr>p_closed := True, p_subs := Map.empty\<rparr>"
    have "same_conns ?t (fold conn_close (p_conns (g_tr g)) ?t)" by (rule conns.R_fold) (rule conns.R_close)
    then have c: "same_conns (g_tr g) (g_tr g')" unfolding close_begin by (simp add: same_conns_def)
    show ?thesis
      using c assms(2) close_begin match_same [OF assms(3) c] by (simp add: served_def same_conns_def)
  next
    case (close_end chs)
    have "same_conns t (fold close_sub cs t)" for cs t
      by (induction cs arbitrary: t) (auto simp: same_conns_def close_sub_def)
    then have c: "same_conns (g_tr g) (g_tr g')" unfolding close_end by simp
    show ?thesis
      using c assms(2) close_end match_same [OF assms(3) c] by (simp add: served_def same_conns_def)
  qed (use assms(2,3) in \<open>auto simp: served_def calls_match_def announced_def\<close>)
qed

lemma mesh_runs_served: "mesh_runs g \<Longrightarrow> served g \<and> calls_match g"
proof (induction rule: mesh_runs.induct)
  case (mesh_start g)
  then obtain opts where new: "NewP2PTransport opts None = Inr (g_tr g)" and g: "g_serving g = []"
    by (auto simp: fresh_mesh_def)
  have add: "same_conns t (fold (\<lambda>peer t. snd (AddPeer peer t)) ps t)" for ps t
    by (rule conns.R_fold) (rule conns.R_quiet [OF quiet_op.intros(6)])
  have "o_Listen opts \<noteq> ''''" using new by (auto simp: NewP2PTransport_def)
  then have "p_conns (projr (NewP2PTransport opts None)) = [] \<and> p_calls (projr (NewP2PTransport opts None)) = []"
    using add by (simp add: NewP2PTransport_def Let_def same_conns_def)
  with new have "p_conns (g_tr g) = []" "p_calls (g_tr g) = []" by simp_all
  with g show ?case by (simp add: served_def calls_match_def announced_def)
next
  case (mesh_next g g')
  then show ?case using mesh_step_served by blast
qed

subsection \<open>Properties\<close>

text \<open>
  C28. Connection callbacks pair up. In every interleaving of the mesh's goroutines, where a
  connection is registered, announced, read, deleted and taken leave of in separate steps, and a
  closed transport refuses connections; with both callbacks installed, and for every remote
  address and direction: \<^verbatim>\<open>OnConnect\<close> was called once more than \<^verbatim>\<open>OnDisconnect\<close> for each
  goroutine that is between its two calls and equally often otherwise. The connections in
  \<^verbatim>\<open>t.conns\<close> are those of the serving goroutines that have not deleted theirs. When \<^verbatim>\<open>Close\<close>
  has returned, the two were called equally often and \<^verbatim>\<open>t.conns\<close> is empty.
\<close>

theorem callbacks_pair_up:
  assumes "mesh_runs g" "p_onConnect (g_tr g)" "p_onDisconnect (g_tr g)"
  shows "count_list (p_calls (g_tr g)) (OnConnect r b) =
      count_list (p_calls (g_tr g)) (OnDisconnect r b) +
      length (filter (\<lambda>i. pc_remote (p_cheap (g_tr g) i) = r \<and> pc_inbound (p_cheap (g_tr g) i) = b \<and>
        g_phase g i \<noteq> PhRegistered) (g_serving g)) \<and>
    distinct (g_serving g) \<and>
    set (p_conns (g_tr g)) = {i \<in> set (g_serving g). g_phase g i \<noteq> PhDeleted} \<and>
    (p_closed (g_tr g) \<and> g_closing g = None \<longrightarrow>
      count_list (p_calls (g_tr g)) (OnConnect r b) = count_list (p_calls (g_tr g)) (OnDisconnect r b) \<and>
      p_conns (g_tr g) = [])"
proof -
  have s: "served g" "calls_match g" using mesh_runs_served [OF assms(1)] by simp_all
  have "g_serving g = []" if "p_closed (g_tr g)" "g_closing g = None" using s(1) that unfolding served_def by blast
  with s assms(2,3) show ?thesis by (auto simp: calls_match_def served_def announced_def)
qed

text \<open>Two connections: one is announced and being read, the other is registered and not announced yet.\<close>

theorem callbacks_pair_up_witness:
  "\<exists>g. mesh_runs g \<and> p_calls (g_tr g) = [OnConnect ''p'' True] \<and> p_conns (g_tr g) = [0, 1] \<and>
     length (filter (\<lambda>i. pc_remote (p_cheap (g_tr g) i) = ''p'' \<and> pc_inbound (p_cheap (g_tr g) i) = True \<and>
       g_phase g i \<noteq> PhRegistered) (g_serving g)) = 1"
proof -
  obtain t where t: "NewP2PTransport sample_p2p_opts None = Inr t" "p_onConnect t" "p_onDisconnect t"
      "\<not> p_closed t" "p_calls t = []" "p_nextc t = 0" "p_conns t = []"
    by (simp add: NewP2PTransport_def sample_p2p_opts_def Let_def)
  define g0 where "g0 = \<lparr>g_tr = t, g_serving = [], g_phase = (\<lambda>_. PhRegistered), g_deliver = [], g_closing = None,
    g_panic = False\<rparr>"
  have r0: "mesh_runs g0" by (rule mesh_start) (use t in \<open>auto simp: fresh_mesh_def g0_def\<close>)
  define t1 where "t1 = snd (conn_register ''p'' True t)"
  have t1: "conn_register ''p'' True (g_tr g0) = (Some 0, t1)" "p_onConnect t1" "p_onDisconnect t1" "p_calls t1 = []"
      "pc_remote (p_cheap t1 0) = ''p''" "pc_inbound (p_cheap t1 0)" "\<not> p_closed t1" "p_nextc t1 = 1" "p_conns t1 = [0]"
    using t by (simp_all add: conn_register_def p2p_isClosed_def Let_def t1_def g0_def)
  define g1 where "g1 = g0\<lparr>g_tr := t1, g_serving := [0]\<rparr>"
  have "mesh_step g0 g1" using mesh_step.connect [OF t1(1)] by (simp add: g1_def g0_def fun_upd_idem)
  with r0 have r1: "mesh_runs g1" by (rule mesh_next)
  define t2 where "t2 = call_onConnect ''p'' True t1"
  define g2 where "g2 = g1\<lparr>g_tr := t2, g_phase := (g_phase g1)(0 := PhServing)\<rparr>"
  have "mesh_step g1 g2"
    using mesh_step.on_connect [of 0 g1] t1 by (simp add: g1_def g0_def g2_def t2_def)
  with r1 have r2: "mesh_runs g2" by (rule mesh_next)
  have t2: "p_onConnect t2" "p_onDisconnect t2" "p_calls t2 = [OnConnect ''p'' True]" "\<not> p_closed t2" "p_nextc t2 = 1"
      "p_conns t2 = [0]"
    using t1 by (simp_all add: t2_def call_onConnect_def)
  define t3 where "t3 = snd (conn_register ''p'' True t2)"
  have t3: "conn_register ''p'' True (g_tr g2) = (Some 1, t3)" "p_onConnect t3" "p_onDisconnect t3"
      "p_calls t3 = [OnConnect ''p'' True]" "p_conns t3 = [0, 1]"
    using t2 by (simp_all add: conn_register_def p2p_isClosed_def Let_def t3_def g2_def)
  let ?g = "g2\<lparr>g_tr := t3, g_serving := 1 # g_serving g2, g_phase := (g_phase g2)(1 := PhRegistered)\<rparr>"
  have r: "mesh_runs ?g" using r2 by (rule mesh_next) (rule mesh_step.connect [OF t3(1)])
  from callbacks_pair_up [OF r, of "''p''" True] r t3 show ?thesis by (intro exI [of _ ?g]) simp
qed

text \<open>
  \<^verbatim>\<open>RemovePeer\<close> compares the address the peer was added under with the address of the socket's
  other end. A connection whose socket reports another address (the peer was added by host name,
  or it dialled in from an ephemeral port) stays open and registered, and published messages
  still go to it.
\<close>

theorem RemovePeer_compares_addresses:
  assumes "addr \<in> set (p_peers t)" "i \<in> set (p_conns t)" "pc_remote (p_cheap t i) \<noteq> addr"
  shows "fst (RemovePeer addr t) \<and> i \<in> set (p_conns (snd (RemovePeer addr t))) \<and>
    p_cheap (snd (RemovePeer addr t)) i = p_cheap t i"
proof -
  have "p_cheap (fold conn_close cs u) i = p_cheap u i" if "i \<notin> set cs" for cs u
    using that by (induction cs arbitrary: u) (auto simp: conn_close_def)
  moreover have "p_conns (fold conn_close cs u) = p_conns u" for cs u
    by (induction cs arbitrary: u) (auto simp: conn_close_def)
  ultimately show ?thesis using assms by (auto simp: RemovePeer_def Let_def)
qed

theorem RemovePeer_compares_addresses_witness:
  "0 \<in> set (p_conns (snd (RemovePeer ''pod-b'' (snd (AddPeer ''pod-b'' sample_mesh)))))"
  using RemovePeer_compares_addresses [of "''pod-b''" "snd (AddPeer ''pod-b'' sample_mesh)" 0]
  by (simp add: AddPeer_def sample_mesh_def p2p_isClosed_def)

end
