(* ===== verification/Codecs.thy ===== *)
theory Codecs
  imports Sample_Store
begin

section \<open>The two JSON codecs\<close>

text \<open>
  \<^verbatim>\<open>JSONCodec\<close> and \<^verbatim>\<open>StrictJSONCodec\<close> of \<^verbatim>\<open>codec.go\<close>. \<^verbatim>\<open>encoding/json\<close> at the value type is a
  parameter: how a value is written, and how a decoder reads the first value of its input, with
  or without unknown fields refused, and what it leaves unread. \<^verbatim>\<open>json.Unmarshal\<close> wants nothing but
  white space after the value; \<^verbatim>\<open>Decoder.Decode\<close> does not look further.
\<close>

record 'v JsonValue =
  jv_marshal :: "'v \<Rightarrow> goerror + bytes"
  jv_decode :: "bool \<Rightarrow> bytes \<Rightarrow> goerror + 'v \<times> bytes"

definition is_space :: "byte \<Rightarrow> bool" where
  "is_space b \<longleftrightarrow> b = 32 \<or> b = 9 \<or> b = 10 \<or> b = 13"

definition errTrailing :: goerror where
  "errTrailing = ErrText ''invalid character after top-level value''"

definition json_Unmarshal :: "'v JsonValue \<Rightarrow> bytes \<Rightarrow> goerror + 'v" where
  "json_Unmarshal JV b =
    (case jv_decode JV False b of
       Inl err \<Rightarrow> Inl err
     | Inr (v, rest) \<Rightarrow> if list_all is_space rest then Inr v else Inl errTrailing)"

definition JSONCodec :: "'v JsonValue \<Rightarrow> 'v Codec" where
  "JSONCodec JV = \<lparr>Marshal = jv_marshal JV, Unmarshal = json_Unmarshal JV\<rparr>"

definition StrictJSONCodec :: "'v JsonValue \<Rightarrow> 'v Codec" where
  "StrictJSONCodec JV =
    \<lparr>Marshal = jv_marshal JV,
     Unmarshal = (\<lambda>b. case jv_decode JV True b of Inl err \<Rightarrow> Inl err | Inr (v, _) \<Rightarrow> Inr v)\<rparr>"

text \<open>
  What is documented of \<^verbatim>\<open>encoding/json\<close> for a type whose values survive it: a written value is
  read back, also when a blank and more input follow, and refusing unknown fields changes nothing
  about an input without them.
\<close>

definition json_value_ok :: "'v JsonValue \<Rightarrow> bool" where
  "json_value_ok JV \<longleftrightarrow>
    (\<forall>v b strict. jv_marshal JV v = Inr b \<longrightarrow>
       jv_decode JV strict b = Inr (v, []) \<and>
       (\<forall>rest. jv_decode JV strict (b @ 32 # rest) = Inr (v, 32 # rest))) \<and>
    (\<forall>b v rest. jv_decode JV True b = Inr (v, rest) \<longrightarrow> jv_decode JV False b = Inr (v, rest))"

lemma JSONCodec_roundtrip: "json_value_ok JV \<Longrightarrow> codec_roundtrip (JSONCodec JV)"
  by (auto simp: json_value_ok_def codec_roundtrip_def JSONCodec_def json_Unmarshal_def)

lemma StrictJSONCodec_roundtrip: "json_value_ok JV \<Longrightarrow> codec_roundtrip (StrictJSONCodec JV)"
  by (auto simp: json_value_ok_def codec_roundtrip_def StrictJSONCodec_def)

text \<open>
  The codecs. Both satisfy the round trip the store relies on. An input the strict one accepts is
  one the permissive one accepts with the same value, unless something follows the value: the strict
  codec ignores what follows, the permissive one refuses it.
\<close>

theorem json_codecs:
  assumes "json_value_ok JV"
  shows "codec_roundtrip (JSONCodec JV) \<and> codec_roundtrip (StrictJSONCodec JV) \<and>
    (Unmarshal (StrictJSONCodec JV) b = Inr v \<longrightarrow>
       Unmarshal (JSONCodec JV) b \<in> {Inr v, Inl errTrailing}) \<and>
    (Marshal (JSONCodec JV) w = Inr c \<longrightarrow> \<not> list_all is_space junk \<longrightarrow>
       Unmarshal (StrictJSONCodec JV) (c @ 32 # junk) = Inr w \<and>
       Unmarshal (JSONCodec JV) (c @ 32 # junk) = Inl errTrailing)"
proof (intro conjI impI)
  assume "Unmarshal (StrictJSONCodec JV) b = Inr v"
  then obtain rest where "jv_decode JV True b = Inr (v, rest)"
    by (auto simp: StrictJSONCodec_def split: sum.splits)
  then have "jv_decode JV False b = Inr (v, rest)" using assms by (simp add: json_value_ok_def)
  then show "Unmarshal (JSONCodec JV) b \<in> {Inr v, Inl errTrailing}"
    by (simp add: JSONCodec_def json_Unmarshal_def)
next
  assume "Marshal (JSONCodec JV) w = Inr c"
  then have d: "jv_decode JV strict (c @ 32 # junk) = Inr (w, 32 # junk)" for strict
    using assms by (simp add: json_value_ok_def JSONCodec_def)
  then show "Unmarshal (StrictJSONCodec JV) (c @ 32 # junk) = Inr w" by (simp add: StrictJSONCodec_def)
  assume "\<not> list_all is_space junk"
  with d show "Unmarshal (JSONCodec JV) (c @ 32 # junk) = Inl errTrailing"
    by (simp add: JSONCodec_def json_Unmarshal_def)
qed (simp_all add: assms JSONCodec_roundtrip StrictJSONCodec_roundtrip)

text \<open>Numbers in unary: an encoding that satisfies the hypothesis.\<close>

definition unary_json :: "nat JsonValue" where
  "unary_json =
    \<lparr>jv_marshal = (\<lambda>n. Inr (replicate n 49)),
     jv_decode = (\<lambda>strict b. Inr (length (takeWhile (\<lambda>x. x = 49) b), dropWhile (\<lambda>x. x = 49) b))\<rparr>"

lemma unary_json_ok: "json_value_ok unary_json"
  by (auto simp: json_value_ok_def unary_json_def takeWhile_append dropWhile_append)

theorem json_codecs_witness:
  "Unmarshal (StrictJSONCodec unary_json) [49, 49, 32, 7] = Inr 2 \<and>
   Unmarshal (JSONCodec unary_json) [49, 49, 32, 7] = Inl errTrailing"
proof -
  have "Marshal (JSONCodec unary_json) 2 = Inr [49, 49]" by (simp add: JSONCodec_def unary_json_def numeral_2_eq_2)
  moreover have "\<not> list_all is_space [7]" by (simp add: is_space_def)
  ultimately show ?thesis using json_codecs [OF unary_json_ok, of "[]" 0 2 "[49, 49]" "[7]"] by simp
qed

end
