(* ===== verification/Fleet.thy ===== *)
theory Fleet
  imports Cluster Memory_Transport
begin

section \<open>A fleet of pods over a message bus\<close>

text \<open>
  The pods of one topic on one transport, as the programs under \<^verbatim>\<open>examples\<close> set them up: each pod is
  a store with the channel its \<^verbatim>\<open>New\<close> subscribed, a write goes through \<^verbatim>\<open>Publish\<close> to every channel,
  the writer's own included, and the receive loop of a pod takes the messages of its channel in
  order. The transport is any \<open>message_bus\<close>. Every run of such a fleet is a run of the cluster of
  theory \<open>Cluster\<close> (\<open>fleet_sim\<close>), where a message may arrive at any time: so a fleet whose channels
  are empty agrees, and handling what is in the channels is enough to get there.
\<close>

subsection \<open>The pods and their steps\<close>

record ('v, 't) fleet =
  fl_pods :: "'v store list"
  fl_chans :: "nat list"
  fl_tr :: 't

text \<open>The receive loop of pod \<open>i\<close> takes the next message of its channel and handles it.\<close>

inductive fleet_deliver :: "(nat \<Rightarrow> 't \<Rightarrow> bytes option \<times> 't) \<Rightarrow> Json
    \<Rightarrow> ('v, 't) fleet \<Rightarrow> ('v, 't) fleet \<Rightarrow> bool" for recv J where
  deliver: "i < length (fl_pods F) \<Longrightarrow> recv (fl_chans F ! i) (fl_tr F) = (Some raw, t') \<Longrightarrow>
    fleet_deliver recv J F
      (F\<lparr>fl_pods := (fl_pods F)[i := handleRaw J now raw (fl_pods F ! i)], fl_tr := t'\<rparr>)"

text \<open>No channel of the fleet is full: a message sent to a full channel is dropped.\<close>

definition has_room :: "('t \<Rightarrow> nat \<Rightarrow> bytes list) \<Rightarrow> nat \<Rightarrow> ('v, 't) fleet \<Rightarrow> bool" where
  "has_room queue depth F \<longleftrightarrow> (\<forall>c \<in> set (fl_chans F). length (queue (fl_tr F) c) < depth)"

definition quiet :: "('t \<Rightarrow> nat \<Rightarrow> bytes list) \<Rightarrow> ('v, 't) fleet \<Rightarrow> bool" where
  "quiet queue F \<longleftrightarrow> (\<forall>c \<in> set (fl_chans F). queue (fl_tr F) c = [])"

text \<open>A write at pod \<open>i\<close>, with what its method returned, and a read.\<close>

datatype 'v pod_write = PodSet string 'v | PodDelete string

fun write_key :: "'v pod_write \<Rightarrow> string" where
  "write_key (PodSet k v) = k"
| "write_key (PodDelete k) = k"

fun run_write :: "'t Transport \<Rightarrow> Json \<Rightarrow> time \<Rightarrow> 'v pod_write \<Rightarrow> 'v store \<Rightarrow> 't
    \<Rightarrow> goerror option \<times> 'v store \<times> 't" where
  "run_write T J now (PodSet k v) = Set T J now k v"
| "run_write T J now (PodDelete k) = Delete T J now k"

definition fleet_write :: "'t Transport \<Rightarrow> Json \<Rightarrow> time \<Rightarrow> nat \<Rightarrow> 'v pod_write \<Rightarrow> ('v, 't) fleet
    \<Rightarrow> goerror option \<times> ('v, 't) fleet" where
  "fleet_write T J now i w F =
    (case run_write T J now w (fl_pods F ! i) (fl_tr F) of
       (r, s', t') \<Rightarrow> (r, F\<lparr>fl_pods := (fl_pods F)[i := s'], fl_tr := t'\<rparr>))"

text \<open>
  What a pod is apart from its map and its watchers. A step that keeps it and the map is a read, a watch
  or the consumer of one, or counts and reports.
\<close>

definition pod_id :: "'v store \<Rightarrow> _" where
  "pod_id s = (s_seq s, s_nodeID s, s_codec s, s_merger s, s_zero s, s_topic s, s_closed s)"

definition fleet_local :: "nat \<Rightarrow> 'v store \<Rightarrow> ('v, 't) fleet \<Rightarrow> ('v, 't) fleet" where
  "fleet_local i s' F = F\<lparr>fl_pods := (fl_pods F)[i := s']\<rparr>"

definition same_pod :: "'v store \<Rightarrow> 'v store \<Rightarrow> bool" where
  "same_pod s s' \<longleftrightarrow> pod_id s' = pod_id s \<and> s_data s' = s_data s"

definition fleet_get :: "nat \<Rightarrow> string \<Rightarrow> ('v, 't) fleet \<Rightarrow> ('v \<times> bool) \<times> ('v, 't) fleet" where
  "fleet_get i k F =
    (case Get k (fl_pods F ! i) of (r, s') \<Rightarrow> (r, fleet_local i s' F))"

inductive fleet_step :: "'t Transport \<Rightarrow> (nat \<Rightarrow> 't \<Rightarrow> bytes option \<times> 't)
    \<Rightarrow> ('t \<Rightarrow> nat \<Rightarrow> bytes list) \<Rightarrow> nat \<Rightarrow> Json \<Rightarrow> ('v, 't) fleet \<Rightarrow> ('v, 't) fleet \<Rightarrow> bool"
  for T recv queue depth J where
  fleet_write: "i < length (fl_pods F) \<Longrightarrow> s_seq (fl_pods F ! i) + 1 \<noteq> 0 \<Longrightarrow>
    valid_utf8 (write_key w) \<Longrightarrow> has_room queue depth F \<Longrightarrow>
    fleet_write T J now i w F = (None, F') \<Longrightarrow> fleet_step T recv queue depth J F F'"
| fleet_other: "i < length (fl_pods F) \<Longrightarrow> same_pod (fl_pods F ! i) s' \<Longrightarrow>
    fleet_step T recv queue depth J F (fleet_local i s' F)"
| fleet_recv: "fleet_deliver recv J F F' \<Longrightarrow> fleet_step T recv queue depth J F F'"

text \<open>
  The start: new stores without a merger on one topic, with distinct node ids and one codec, each
  with an empty channel of its own among the topic's subscribers.
\<close>

definition fleet_start :: "('t \<Rightarrow> bool) \<Rightarrow> ('t \<Rightarrow> string \<Rightarrow> nat list) \<Rightarrow> ('t \<Rightarrow> nat \<Rightarrow> bytes list)
    \<Rightarrow> Json \<Rightarrow> 'v Codec \<Rightarrow> 'v \<Rightarrow> string \<Rightarrow> ('v, 't) fleet \<Rightarrow> bool" where
  "fleet_start up subs queue J c z topic F \<longleftrightarrow>
     json_msg_roundtrip J \<and> codec_roundtrip c \<and> up (fl_tr F) \<and>
     length (fl_chans F) = length (fl_pods F) \<and> distinct (fl_chans F) \<and>
     set (fl_chans F) \<subseteq> set (subs (fl_tr F) topic) \<and> quiet queue F \<and>
     distinct (map s_nodeID (fl_pods F)) \<and>
     (\<forall>s \<in> set (fl_pods F). s_merger s = None \<and> s_codec s = c \<and> s_zero s = z \<and> s_topic s = topic \<and>
        valid_utf8 (s_nodeID s) \<and> s_data s = Map.empty)"

inductive fleet_reach :: "'t Transport \<Rightarrow> (nat \<Rightarrow> 't \<Rightarrow> bytes option \<times> 't)
    \<Rightarrow> ('t \<Rightarrow> nat \<Rightarrow> bytes list) \<Rightarrow> nat \<Rightarrow> Json \<Rightarrow> ('v, 't) fleet \<Rightarrow> ('v, 't) fleet \<Rightarrow> bool"
  for T recv queue depth J F where
  here: "fleet_reach T recv queue depth J F F"
| onward: "fleet_reach T recv queue depth J F F' \<Longrightarrow> fleet_step T recv queue depth J F' F'' \<Longrightarrow>
    fleet_reach T recv queue depth J F F''"

text \<open>
  Pod \<open>i\<close> handles all that is in its channel at clock \<open>now\<close>; the fleet settles when every pod
  does. Nothing is published meanwhile, so the number of messages is known at the start.
\<close>

fun drain :: "(nat \<Rightarrow> 't \<Rightarrow> bytes option \<times> 't) \<Rightarrow> Json \<Rightarrow> time \<Rightarrow> nat \<Rightarrow> nat
    \<Rightarrow> ('v, 't) fleet \<Rightarrow> ('v, 't) fleet" where
  "drain recv J now 0 i F = F"
| "drain recv J now (Suc n) i F =
    (case recv (fl_chans F ! i) (fl_tr F) of
       (None, t') \<Rightarrow> F\<lparr>fl_tr := t'\<rparr>
     | (Some raw, t') \<Rightarrow> drain recv J now n i
         (F\<lparr>fl_pods := (fl_pods F)[i := handleRaw J now raw (fl_pods F ! i)], fl_tr := t'\<rparr>))"

definition settle :: "(nat \<Rightarrow> 't \<Rightarrow> bytes option \<times> 't) \<Rightarrow> ('t \<Rightarrow> nat \<Rightarrow> bytes list) \<Rightarrow> Json \<Rightarrow> time
    \<Rightarrow> ('v, 't) fleet \<Rightarrow> ('v, 't) fleet" where
  "settle recv queue J now F =
    fold (\<lambda>i F. drain recv J now (length (queue (fl_tr F) (fl_chans F ! i))) i F)
      [0..<length (fl_pods F)] F"

subsection \<open>A fleet is a cluster\<close>

text \<open>
  Pod \<open>i\<close> is node \<open>i\<close> of the cluster, the log holds what was published, and a pod has seen every
  message of the log that is not still in its channel.
\<close>

definition fleet_sim :: "('t \<Rightarrow> bool) \<Rightarrow> ('t \<Rightarrow> string \<Rightarrow> nat list) \<Rightarrow> ('t \<Rightarrow> nat \<Rightarrow> bytes list)
    \<Rightarrow> string \<Rightarrow> ('v, 't) fleet \<Rightarrow> 'v cluster \<Rightarrow> bool" where
  "fleet_sim up subs queue topic F C \<longleftrightarrow>
     up (fl_tr F) \<and> length (fl_chans F) = length (fl_pods F) \<and> distinct (fl_chans F) \<and>
     set (fl_chans F) \<subseteq> set (subs (fl_tr F) topic) \<and>
     (\<forall>i < length (fl_pods F). s_topic (fl_pods F ! i) = topic \<and> c_node C i = fl_pods F ! i \<and>
        set (queue (fl_tr F) (fl_chans F ! i)) \<subseteq> set (c_net C) \<and>
        set (c_net C) \<subseteq> c_seen C i \<union> set (queue (fl_tr F) (fl_chans F ! i)))"

text \<open>A write that succeeds on any transport is the same write on the log.\<close>

lemma write_on_net:
  assumes "run_write T J now w s t = (None, s', t')"
  shows "\<exists>net'. run_write net_transport J now w s net = (None, s', net') \<and> s_topic s' = s_topic s \<and>
    (net' = net \<and> t' = t \<or> (\<exists>raw. net' = net @ [raw] \<and> tr_Publish T (s_topic s) raw t = (None, t')))"
  using assms
  by (cases w) (auto simp: Set_eq Delete_eq write_tail_def markDirty_def
      split: if_splits sum.splits prod.splits option.splits)

text \<open>
  A write that returns an error on a transport, other than that its message cannot be encoded:
  it has changed no more than counters, or it is applied as on the log and the transport
  refused its message.
\<close>

lemma failed_write_on_net:
  assumes "run_write T J now w s t = (Some err, s', t')" "\<And>e. err \<noteq> ErrEncodeWire e"
  shows "s_topic s' = s_topic s \<and>
    (t' = t \<and> same_replica s s' \<and> snd (snd (run_write net_transport J now w s net)) = net \<or>
     (\<exists>raw s2 e. run_write net_transport J now w s net = (None, s2, net @ [raw]) \<and> same_replica s2 s' \<and>
        tr_Publish T (s_topic s) raw t = (Some e, t')))"
  using assms
  by (cases w) (auto simp: Set_eq Delete_eq write_tail_def same_replica_def store_defs
      split: if_splits sum.splits prod.splits option.splits)

lemma handleRaw_topic [simp]: "s_topic (handleRaw J now raw s) = s_topic s"
  by (simp add: handleRaw_def check_skew_def reportError_def Let_def split: sum.split)

text \<open>Finitely many distinct ids are the first of an infinite sequence of distinct ids.\<close>

lemma ids_extend:
  assumes "distinct ids" "\<forall>x \<in> set ids. valid_utf8 x"
  shows "\<exists>f :: nat \<Rightarrow> string. inj f \<and> (\<forall>i < length ids. f i = ids ! i) \<and> (\<forall>i. valid_utf8 (f i))"
proof -
  define M where "M = Suc (sum_list (map length ids))"
  define f where "f = (\<lambda>i. if i < length ids then ids ! i else replicate (M + i) CHR ''a'')"
  have long: "length (ids ! i) < M" if "i < length ids" for i
    using that elem_le_sum_list [of i "map length ids"] by (simp add: M_def)
  have "inj f"
  proof (rule injI)
    fix x y assume eq: "f x = f y"
    consider "x < length ids" "y < length ids" | "x < length ids" "\<not> y < length ids"
      | "\<not> x < length ids" "y < length ids" | "\<not> x < length ids" "\<not> y < length ids" by blast
    then show "x = y"
    proof cases
      case 1 with eq assms(1) show ?thesis by (simp add: f_def nth_eq_iff_index_eq)
    next
      case 2
      then have "length (ids ! x) = M + y" using eq by (simp add: f_def)
      with long [OF 2(1)] show ?thesis by simp
    next
      case 3
      then have "length (ids ! y) = M + x" using eq [symmetric] by (simp add: f_def)
      with long [OF 3(2)] show ?thesis by simp
    next
      case 4
      with arg_cong [OF eq, of length] show ?thesis by (simp add: f_def)
    qed
  qed
  moreover have "valid_utf8 (replicate n CHR ''a'')" for n
    by (induction n) (simp_all add: valid_utf8_def of_char_def)
  ultimately show ?thesis
    using assms(2) by (intro exI [of _ f]) (simp add: f_def)
qed

lemma fleet_start_sim:
  assumes "fleet_start up subs queue J c z topic F"
  shows "\<exists>C. cluster_start J c z C \<and> fleet_sim up subs queue topic F C"
proof -
  obtain f where f: "inj f" "\<forall>i < length (fl_pods F). f i = s_nodeID (fl_pods F ! i)" "\<forall>i. valid_utf8 (f i)"
    using ids_extend [of "map s_nodeID (fl_pods F)"] assms by (auto simp: fleet_start_def)
  define node where "node = (\<lambda>i. if i < length (fl_pods F) then fl_pods F ! i
      else (default_store z c topic)\<lparr>s_nodeID := f i, s_merger := None, s_data := Map.empty\<rparr>)"
  define C where "C = \<lparr>c_node = node, c_net = [], c_seen = (\<lambda>_. {})\<rparr>"
  have "(\<lambda>i. s_nodeID (node i)) = f" using f(2) by (auto simp: node_def fun_eq_iff)
  moreover have "s_merger (node i) = None \<and> s_codec (node i) = c \<and> s_zero (node i) = z \<and>
      valid_utf8 (s_nodeID (node i)) \<and> s_data (node i) = Map.empty" for i
    using assms f(3) nth_mem [of i "fl_pods F"]
    by (auto simp: fleet_start_def node_def default_store_def)
  ultimately have "cluster_start J c z C"
    using assms f(1) by (simp add: cluster_start_def C_def fleet_start_def)
  moreover have "fleet_sim up subs queue topic F C"
    using assms by (simp add: fleet_sim_def C_def node_def fleet_start_def quiet_def)
  ultimately show ?thesis by blast
qed

text \<open>
  \<open>full a d C\<close>: node \<open>a\<close> of the cluster has seen every message and holds the map \<open>d\<close>. A delivery
  keeps this.
\<close>

definition full :: "nat \<Rightarrow> (string \<rightharpoonup> 'v entry) \<Rightarrow> 'v cluster \<Rightarrow> bool" where
  "full a d C \<longleftrightarrow> c_seen C a = set (c_net C) \<and> s_data (c_node C a) = d"

context message_bus
begin

text \<open>What a publish does to a simulated fleet: the log grows and so does every channel with room.\<close>

lemma publish_sim:
  assumes sim: "fleet_sim up subs queue topic F C" and room: "has_room queue depth F"
    and i: "i < length (fl_pods F)" and pub: "tr_Publish T topic raw (fl_tr F) = (None, t')"
    and s': "s_topic s' = topic"
  shows "fleet_sim up subs queue topic (F\<lparr>fl_pods := (fl_pods F)[i := s'], fl_tr := t'\<rparr>)
    (C\<lparr>c_node := (c_node C)(i := s'), c_net := c_net C @ [raw],
       c_seen := (c_seen C)(i := c_seen C i \<union> {raw})\<rparr>)"
proof -
  have t': "up t'" "subs t' = subs (fl_tr F)"
      "queue t' = (\<lambda>c. if c \<in> set (subs (fl_tr F) topic) \<and> length (queue (fl_tr F) c) < depth
         then queue (fl_tr F) c @ [raw] else queue (fl_tr F) c)"
    using publish_bus [of "fl_tr F" topic raw] sim pub by (auto simp: fleet_sim_def)
  have q: "queue t' (fl_chans F ! j) = queue (fl_tr F) (fl_chans F ! j) @ [raw]"
    if "j < length (fl_pods F)" for j
  proof -
    have "fl_chans F ! j \<in> set (fl_chans F)" using that sim by (simp add: fleet_sim_def)
    with sim room show ?thesis by (auto simp: t'(3) fleet_sim_def has_room_def)
  qed
  show ?thesis
    using sim s' i t'(1,2) by (auto simp: fleet_sim_def q nth_list_update)
qed

lemma unpublished_sim:
  assumes "fleet_sim up subs queue topic F C" "i < length (fl_pods F)" "s_topic s' = topic"
  shows "fleet_sim up subs queue topic (F\<lparr>fl_pods := (fl_pods F)[i := s']\<rparr>)
    (C\<lparr>c_node := (c_node C)(i := s')\<rparr>)"
  using assms by (auto simp: fleet_sim_def nth_list_update)

text \<open>Either way a write is a step of the cluster.\<close>

lemma write_sim:
  assumes sim: "fleet_sim up subs queue topic F C" and room: "has_room queue depth F"
    and i: "i < length (fl_pods F)" and s': "s_topic s' = topic"
    and net: "net' = c_net C \<and> t' = fl_tr F \<or>
      (\<exists>raw. net' = c_net C @ [raw] \<and> tr_Publish T topic raw (fl_tr F) = (None, t'))"
  shows "fleet_sim up subs queue topic (F\<lparr>fl_pods := (fl_pods F)[i := s'], fl_tr := t'\<rparr>)
    (C\<lparr>c_node := (c_node C)(i := s'), c_net := net',
       c_seen := (c_seen C)(i := c_seen C i \<union> set (drop (length (c_net C)) net'))\<rparr>)"
  using net
proof (elim disjE exE conjE)
  assume "net' = c_net C" "t' = fl_tr F"
  then show ?thesis using unpublished_sim [OF sim i s'] by simp
next
  fix raw assume "net' = c_net C @ [raw]" "tr_Publish T topic raw (fl_tr F) = (None, t')"
  then show ?thesis using publish_sim [OF sim room i _ s'] by simp
qed

text \<open>A message is handled: it is one of the log, and the other channels stay.\<close>

lemma deliver_sim:
  assumes sim: "fleet_sim up subs queue topic F C" and i: "i < length (fl_pods F)"
    and recv: "recv (fl_chans F ! i) (fl_tr F) = (Some raw, t')"
  shows "raw \<in> set (c_net C) \<and>
    fleet_sim up subs queue topic
      (F\<lparr>fl_pods := (fl_pods F)[i := handleRaw J now raw (fl_pods F ! i)], fl_tr := t'\<rparr>)
      (C\<lparr>c_node := (c_node C)(i := handleRaw J now raw (c_node C i)),
         c_seen := (c_seen C)(i := insert raw (c_seen C i))\<rparr>) \<and>
    (\<exists>raws. queue (fl_tr F) (fl_chans F ! i) = raw # raws \<and>
       queue t' = (queue (fl_tr F))(fl_chans F ! i := raws))"
proof -
  have up: "up (fl_tr F)" using sim by (simp add: fleet_sim_def)
  obtain raws where raws: "queue (fl_tr F) (fl_chans F ! i) = raw # raws"
    using recv recv_bus [OF up] recv_none by (cases "queue (fl_tr F) (fl_chans F ! i)") fastforce+
  with recv_bus [OF up raws] recv have t': "up t'" "subs t' = subs (fl_tr F)"
      "queue t' = (queue (fl_tr F))(fl_chans F ! i := raws)" by auto
  have node: "c_node C i = fl_pods F ! i" using sim i by (simp add: fleet_sim_def)
  have other: "fl_chans F ! j = fl_chans F ! i \<longleftrightarrow> j = i" if "j < length (fl_pods F)" for j
    using that i sim by (simp add: fleet_sim_def nth_eq_iff_index_eq)
  have own: "set (queue (fl_tr F) (fl_chans F ! j)) \<subseteq> set (c_net C) \<and>
      set (c_net C) \<subseteq> c_seen C j \<union> set (queue (fl_tr F) (fl_chans F ! j)) \<and>
      s_topic (fl_pods F ! j) = topic \<and> c_node C j = fl_pods F ! j"
    if "j < length (fl_pods F)" for j
    using that sim by (simp add: fleet_sim_def)
  have "fleet_sim up subs queue topic
      (F\<lparr>fl_pods := (fl_pods F)[i := handleRaw J now raw (fl_pods F ! i)], fl_tr := t'\<rparr>)
      (C\<lparr>c_node := (c_node C)(i := handleRaw J now raw (c_node C i)),
         c_seen := (c_seen C)(i := insert raw (c_seen C i))\<rparr>)"
    using sim i t' own own [OF i] unfolding fleet_sim_def
    by (auto simp: raws node other nth_list_update)
  with own [OF i] raws t'(3) show ?thesis by auto
qed

lemma fleet_write_sim:
  assumes sim: "fleet_sim up subs queue topic F C" and i: "i < length (fl_pods F)"
    and ok: "s_seq (fl_pods F ! i) + 1 \<noteq> 0" "valid_utf8 (write_key w)" "has_room queue depth F"
    and w: "fleet_write T J now i w F = (None, F')"
  shows "\<exists>C'. cluster_step J C C' \<and> fleet_sim up subs queue topic F' C' \<and>
    (c_seen C i = set (c_net C) \<longrightarrow> full i (s_data (fl_pods F' ! i)) C')"
proof -
  have n: "c_node C i = fl_pods F ! i" "s_topic (fl_pods F ! i) = topic"
    using sim i by (simp_all add: fleet_sim_def)
  obtain s' t' where run: "run_write T J now w (fl_pods F ! i) (fl_tr F) = (None, s', t')"
    and F': "F' = F\<lparr>fl_pods := (fl_pods F)[i := s'], fl_tr := t'\<rparr>"
    using w by (auto simp: fleet_write_def split: prod.splits)
  obtain net' where net': "run_write net_transport J now w (c_node C i) (c_net C) = (None, s', net')"
    and topic: "s_topic s' = topic"
    and pub: "net' = c_net C \<and> t' = fl_tr F \<or>
       (\<exists>raw. net' = c_net C @ [raw] \<and> tr_Publish T topic raw (fl_tr F) = (None, t'))"
    using write_on_net [OF run, of "c_net C"] n by auto
  let ?C' = "C\<lparr>c_node := (c_node C)(i := s'), c_net := net',
      c_seen := (c_seen C)(i := c_seen C i \<union> set (drop (length (c_net C)) net'))\<rparr>"
  have "cluster_step J C ?C'"
    using net' ok n by (cases w) (auto intro: cluster_step.step_Set cluster_step.step_Delete)
  moreover have "full i (s_data (fl_pods F' ! i)) ?C'" if "c_seen C i = set (c_net C)"
    using that pub i unfolding F' by (elim disjE exE conjE) (simp_all add: full_def)
  ultimately show ?thesis using write_sim [OF sim ok(3) i topic pub] unfolding F' by blast
qed

lemma fleet_local_sim:
  assumes "fleet_sim up subs queue topic F C" "i < length (fl_pods F)" "same_pod (fl_pods F ! i) s'"
  shows "cluster_step J C (C\<lparr>c_node := (c_node C)(i := s')\<rparr>) \<and>
    fleet_sim up subs queue topic (fleet_local i s' F) (C\<lparr>c_node := (c_node C)(i := s')\<rparr>)"
proof -
  have n: "c_node C i = fl_pods F ! i" "s_topic (fl_pods F ! i) = topic"
    using assms(1,2) by (simp_all add: fleet_sim_def)
  then have "s_topic s' = topic" "same_replica (c_node C i) s'"
    using assms(3) by (simp_all add: same_pod_def pod_id_def same_replica_def)
  then show ?thesis
    using unpublished_sim [OF assms(1,2)] by (simp add: fleet_local_def cluster_step.step_other)
qed

lemma step_sim:
  assumes "fleet_step T recv queue depth J F F'" "fleet_sim up subs queue topic F C"
  shows "\<exists>C'. cluster_step J C C' \<and> fleet_sim up subs queue topic F' C'"
  using assms
proof (cases rule: fleet_step.cases)
  case (fleet_write i w now)
  from fleet_write_sim [OF assms(2) this] show ?thesis by blast
next
  case (fleet_other i s')
  from fleet_local_sim [OF assms(2) this(2,3)] show ?thesis unfolding fleet_other(1) by blast
next
  case fleet_recv
  then show ?thesis
  proof (cases rule: fleet_deliver.cases)
    case (deliver i raw t' now)
    note d = deliver_sim [OF assms(2) deliver(2,3), of J now]
    then have "cluster_step J C (C\<lparr>c_node := (c_node C)(i := handleRaw J now raw (c_node C i)),
        c_seen := (c_seen C)(i := insert raw (c_seen C i))\<rparr>)"
      by (intro cluster_step.step_deliver) simp
    with d show ?thesis unfolding deliver(1) by blast
  qed
qed

lemma reach_sim:
  assumes "fleet_reach T recv queue depth J F F'" "fleet_start up subs queue J c z topic F"
  shows "\<exists>C. reachable J c z C \<and> fleet_sim up subs queue topic F' C"
  using assms
proof (induction rule: fleet_reach.induct)
  case here
  from fleet_start_sim [OF this] obtain C where "cluster_start J c z C" "fleet_sim up subs queue topic F C"
    by blast
  then show ?case by (intro exI [of _ C] conjI reachable.start)
next
  case (onward F' F'')
  then obtain C where C: "reachable J c z C" "fleet_sim up subs queue topic F' C" by auto
  from step_sim [OF onward(2) C(2)] obtain C' where "cluster_step J C C'" "fleet_sim up subs queue topic F'' C'"
    by auto
  then show ?case by (intro exI [of _ C'] conjI reachable.step [OF C(1)])
qed

end

subsection \<open>Handling what is in the channels\<close>

text \<open>A message that a node of a cluster has already seen does not change its map.\<close>

lemma seen_again:
  assumes inv: "cluster_inv J c z C" and raw: "raw \<in> c_seen C i"
  shows "s_data (handleRaw J now raw (c_node C i)) = s_data (c_node C i)"
proof (rule determined_unique)
  have seen: "c_seen C i \<subseteq> set (c_net C)" using inv by (simp add: cluster_inv_def)
  let ?C' = "C\<lparr>c_node := (c_node C)(i := handleRaw J now raw (c_node C i)),
      c_seen := (c_seen C)(i := insert raw (c_seen C i))\<rparr>"
  have "cluster_inv J c z ?C'" using raw seen by (intro deliver_step_inv [OF inv]) auto
  then have "determined (writes_of J c z (c_seen ?C' i)) (s_data (c_node ?C' i))"
    unfolding cluster_inv_def by blast
  then show "determined (writes_of J c z (c_seen C i)) (s_data (handleRaw J now raw (c_node C i)))"
    using raw by (simp add: insert_absorb del: writes_of_simps)
  show "determined (writes_of J c z (c_seen C i)) (s_data (c_node C i))"
    using inv by (simp add: cluster_inv_def)
  show "unique_stamps (writes_of J c z (c_seen C i))"
    using inv seen unique_stamps_mono writes_of_mono unfolding cluster_inv_def by metis
qed

context message_bus
begin

lemma deliver_full:
  fixes now :: time
  assumes "reachable J c z C" "fleet_sim up subs queue topic F C"
    and "i < length (fl_pods F)" "recv (fl_chans F ! i) (fl_tr F) = (Some raw, t')"
  defines "F' \<equiv> F\<lparr>fl_pods := (fl_pods F)[i := handleRaw J now raw (fl_pods F ! i)], fl_tr := t'\<rparr>"
  obtains C' where "reachable J c z C'" "fleet_sim up subs queue topic F' C'"
    "\<And>a d. full a d C \<Longrightarrow> full a d C'"
proof -
  let ?C' = "C\<lparr>c_node := (c_node C)(i := handleRaw J now raw (c_node C i)),
      c_seen := (c_seen C)(i := insert raw (c_seen C i))\<rparr>"
  note d = deliver_sim [OF assms(2-4), of J now]
  then have "cluster_step J C ?C'" by (intro cluster_step.step_deliver) simp
  then have "reachable J c z ?C'" by (rule reachable.step [OF assms(1)])
  moreover have "full a e ?C'" if "full a e C" for a e
    using that d seen_again [OF reachable_inv [OF assms(1)], of raw i now]
    by (auto simp: full_def)
  ultimately show ?thesis using d that unfolding F'_def by blast
qed

lemma drain_ok:
  fixes now :: time
  assumes "reachable J c z C" "fleet_sim up subs queue topic F C" "i < length (fl_pods F)"
    and "length (queue (fl_tr F) (fl_chans F ! i)) = n"
  defines "F' \<equiv> drain recv J now n i F"
  shows "(fleet_deliver recv J)\<^sup>*\<^sup>* F F' \<and> fl_chans F' = fl_chans F \<and>
    length (fl_pods F') = length (fl_pods F) \<and>
    queue (fl_tr F') = (queue (fl_tr F))(fl_chans F ! i := []) \<and>
    (\<exists>C'. reachable J c z C' \<and> fleet_sim up subs queue topic F' C' \<and>
       (\<forall>a d. full a d C \<longrightarrow> full a d C'))"
  using assms(1-4) unfolding F'_def
proof (induction n arbitrary: F C)
  case 0
  then have "queue (fl_tr F) = (queue (fl_tr F))(fl_chans F ! i := [])" by auto
  with 0 show ?case by auto
next
  case (Suc n)
  then obtain raw raws where q: "queue (fl_tr F) (fl_chans F ! i) = raw # raws" "length raws = n"
    by (auto simp: length_Suc_conv)
  have "up (fl_tr F)" using Suc.prems(2) by (simp add: fleet_sim_def)
  from recv_bus [OF this q(1)] obtain t' where r: "recv (fl_chans F ! i) (fl_tr F) = (Some raw, t')"
    and t': "queue t' = (queue (fl_tr F))(fl_chans F ! i := raws)" by auto
  let ?F = "F\<lparr>fl_pods := (fl_pods F)[i := handleRaw J now raw (fl_pods F ! i)], fl_tr := t'\<rparr>"
  obtain C' where C': "reachable J c z C'" "fleet_sim up subs queue topic ?F C'"
      "\<And>a d. full a d C \<Longrightarrow> full a d C'"
    using deliver_full [OF Suc.prems(1-3) r, of now] by blast
  have step: "fleet_deliver recv J F ?F" using Suc.prems(3) r by (rule fleet_deliver.deliver)
  have "i < length (fl_pods ?F)" "length (queue (fl_tr ?F) (fl_chans ?F ! i)) = n"
    using Suc.prems(3) t' q(2) by simp_all
  note IH = Suc.IH [OF C'(1,2) this]
  have "drain recv J now (Suc n) i F = drain recv J now n i ?F" using r by simp
  with IH C'(3) t' show ?case
    using converse_rtranclp_into_rtranclp [of "fleet_deliver recv J", OF step] by auto
qed

lemma settle_from:
  fixes now :: time
  assumes "reachable J c z C" "fleet_sim up subs queue topic F C" "n \<le> length (fl_pods F)"
  defines "F' \<equiv> fold (\<lambda>i F. drain recv J now (length (queue (fl_tr F) (fl_chans F ! i))) i F) [0..<n] F"
  shows "(fleet_deliver recv J)\<^sup>*\<^sup>* F F' \<and> fl_chans F' = fl_chans F \<and>
    length (fl_pods F') = length (fl_pods F) \<and>
    (\<forall>i < n. queue (fl_tr F') (fl_chans F ! i) = []) \<and>
    (\<exists>C'. reachable J c z C' \<and> fleet_sim up subs queue topic F' C' \<and>
       (\<forall>a d. full a d C \<longrightarrow> full a d C'))"
  using assms(3) unfolding F'_def
proof (induction n)
  case 0
  with assms(1,2) show ?case by auto
next
  case (Suc n)
  let ?G = "fold (\<lambda>i F. drain recv J now (length (queue (fl_tr F) (fl_chans F ! i))) i F) [0..<n] F"
  from Suc obtain C1 where G: "(fleet_deliver recv J)\<^sup>*\<^sup>* F ?G" "fl_chans ?G = fl_chans F"
      "length (fl_pods ?G) = length (fl_pods F)" "\<forall>i < n. queue (fl_tr ?G) (fl_chans F ! i) = []"
    and C1: "reachable J c z C1" "fleet_sim up subs queue topic ?G C1" "\<forall>a d. full a d C \<longrightarrow> full a d C1"
    by auto
  note D = drain_ok [OF C1(1,2) _ refl, of n now]
  show ?case using D G C1(3) Suc.prems by (auto simp: less_Suc_eq)
qed

lemma settle_ok:
  fixes now :: time
  assumes "reachable J c z C" "fleet_sim up subs queue topic F C"
  defines "F' \<equiv> settle recv queue J now F"
  shows "(fleet_deliver recv J)\<^sup>*\<^sup>* F F' \<and> fl_chans F' = fl_chans F \<and>
    length (fl_pods F') = length (fl_pods F) \<and> quiet queue F' \<and>
    (\<exists>C'. reachable J c z C' \<and> fleet_sim up subs queue topic F' C' \<and>
       (\<forall>a d. full a d C \<longrightarrow> full a d C'))"
proof -
  note s = settle_from [OF assms(1,2) order_refl, of now]
  have "length (fl_chans F) = length (fl_pods F)" using assms(2) by (simp add: fleet_sim_def)
  with s have "quiet queue F'" unfolding F'_def settle_def quiet_def by (auto simp: in_set_conv_nth)
  with s show ?thesis unfolding F'_def settle_def by blast
qed

end

subsection \<open>Writes in a quiet fleet\<close>

context message_bus
begin

text \<open>In a quiet fleet every pod has seen the whole log, so a writer has seen it after its write.\<close>

lemma quiet_seen:
  assumes "reachable J c z C" "fleet_sim up subs queue topic F C" "quiet queue F"
    and "i < length (fl_pods F)"
  shows "c_seen C i = set (c_net C)"
proof
  show "c_seen C i \<subseteq> set (c_net C)" using reachable_inv [OF assms(1)] by (simp add: cluster_inv_def)
  have "queue (fl_tr F) (fl_chans F ! i) = []" using assms(2-4) by (simp add: quiet_def fleet_sim_def)
  moreover have "set (c_net C) \<subseteq> c_seen C i \<union> set (queue (fl_tr F) (fl_chans F ! i))"
    using assms(2,4) by (simp add: fleet_sim_def)
  ultimately show "set (c_net C) \<subseteq> c_seen C i" by simp
qed

lemma quiet_agree:
  assumes "reachable J c z C" "fleet_sim up subs queue topic F C" "quiet queue F"
    and "i < length (fl_pods F)" "j < length (fl_pods F)"
  shows "s_data (fl_pods F ! i) = s_data (fl_pods F ! j)"
proof -
  have "s_data (c_node C i) = s_data (c_node C j)"
    using assms(4,5) quiet_seen [OF assms(1-3)]
    by (intro same_seen_same_data [OF reachable_inv [OF assms(1)]]) simp
  with assms(2,4,5) show ?thesis by (simp add: fleet_sim_def)
qed

lemma settle_agree:
  fixes now :: time
  assumes "reachable J c z C" "fleet_sim up subs queue topic F C"
    and "a < length (fl_pods F)" "full a d C" "i < length (fl_pods F)"
  shows "s_data (fl_pods (settle recv queue J now F) ! i) = d"
proof -
  obtain C' where C': "reachable J c z C'" "fleet_sim up subs queue topic (settle recv queue J now F) C'"
      "\<forall>a d. full a d C \<longrightarrow> full a d C'"
    and F': "length (fl_pods (settle recv queue J now F)) = length (fl_pods F)"
      "quiet queue (settle recv queue J now F)"
    using settle_ok [OF assms(1,2), of now] by (elim conjE exE) (rule that)
  have "c_node C' a = fl_pods (settle recv queue J now F) ! a"
    using C'(2) F'(1) assms(3) by (simp add: fleet_sim_def)
  moreover have "full a d C'" using C'(3) assms(4) by blast
  ultimately have "s_data (fl_pods (settle recv queue J now F) ! a) = d" by (simp add: full_def)
  with quiet_agree [OF C'(1,2) F'(2), of i a] assms(3,5) F'(1) show ?thesis by simp
qed

text \<open>A quiet fleet has room, and what a step writes is what the pods hold once it has settled.\<close>

lemma quiet_room: "quiet queue F \<Longrightarrow> has_room queue depth F"
  using depth_pos by (simp add: quiet_def has_room_def)

end

text \<open>Deliveries leave the identity of the pods alone.\<close>

lemma handleRaw_closed [simp]: "s_closed (handleRaw J now raw s) = s_closed s"
  by (simp add: handleRaw_def check_skew_def reportError_def Let_def split: sum.split)

lemma drain_pod_id: "map pod_id (fl_pods (drain recv J now n i F)) = map pod_id (fl_pods F)"
proof (induction n arbitrary: F)
  case (Suc n)
  have "map pod_id ((fl_pods F)[i := handleRaw J now raw (fl_pods F ! i)]) = map pod_id (fl_pods F)" for raw
    by (cases "i < length (fl_pods F)") (simp_all add: map_update pod_id_def list_update_same_conv list_update_beyond)
  with Suc show ?case by (simp split: prod.split option.split)
qed simp

lemma settle_pod_id: "map pod_id (fl_pods (settle recv queue J now F)) = map pod_id (fl_pods F)"
proof -
  have "map pod_id (fl_pods (fold (\<lambda>i F. drain recv J now (length (queue (fl_tr F) (fl_chans F ! i))) i F)
      is F)) = map pod_id (fl_pods F)" for "is"
    by (induction "is" arbitrary: F) (simp_all add: drain_pod_id)
  then show ?thesis by (simp add: settle_def)
qed

text \<open>A fleet in operation: one that a cluster simulates.\<close>

definition running :: "('t \<Rightarrow> bool) \<Rightarrow> ('t \<Rightarrow> string \<Rightarrow> nat list) \<Rightarrow> ('t \<Rightarrow> nat \<Rightarrow> bytes list)
    \<Rightarrow> Json \<Rightarrow> 'v Codec \<Rightarrow> 'v \<Rightarrow> string \<Rightarrow> ('v, 't) fleet \<Rightarrow> bool" where
  "running up subs queue J c z topic F \<longleftrightarrow>
    (\<exists>C. reachable J c z C \<and> fleet_sim up subs queue topic F C)"

lemma running_pod:
  assumes "running up subs queue J c z topic F" "i < length (fl_pods F)"
  shows "s_codec (fl_pods F ! i) = c" "s_zero (fl_pods F ! i) = z" "s_merger (fl_pods F ! i) = None"
    "s_topic (fl_pods F ! i) = topic" "up (fl_tr F)" "codec_roundtrip c"
proof -
  obtain C where r: "reachable J c z C" and C: "fleet_sim up subs queue topic F C"
    using assms(1) unfolding running_def by blast
  have n: "fl_pods F ! i = c_node C i" "s_topic (fl_pods F ! i) = topic" "up (fl_tr F)"
    using C assms(2) by (simp_all add: fleet_sim_def)
  have "s_codec (c_node C i) = c" "s_zero (c_node C i) = z" "s_merger (c_node C i) = None"
    "codec_roundtrip c"
    using reachable_inv [OF r] by (simp_all add: cluster_inv_def)
  with n show "s_codec (fl_pods F ! i) = c" "s_zero (fl_pods F ! i) = z"
    "s_merger (fl_pods F ! i) = None" "s_topic (fl_pods F ! i) = topic" "up (fl_tr F)" "codec_roundtrip c"
    by simp_all
qed

lemma running_ids:
  assumes "running up subs queue J c z topic F" "i < length (fl_pods F)"
  shows "json_msg_roundtrip J" "valid_utf8 (s_nodeID (fl_pods F ! i))"
    "j < length (fl_pods F) \<Longrightarrow> j \<noteq> i \<Longrightarrow> s_nodeID (fl_pods F ! j) \<noteq> s_nodeID (fl_pods F ! i)"
proof -
  obtain C where r: "reachable J c z C" and C: "fleet_sim up subs queue topic F C"
    using assms(1) unfolding running_def by blast
  have n: "fl_pods F ! l = c_node C l" if "l < length (fl_pods F)" for l
    using C that by (simp add: fleet_sim_def)
  have inv: "json_msg_roundtrip J" "valid_utf8 (s_nodeID (c_node C i))" "inj (\<lambda>i. s_nodeID (c_node C i))"
    using reachable_inv [OF r] by (simp_all add: cluster_inv_def)
  show "json_msg_roundtrip J" by (rule inv(1))
  show "valid_utf8 (s_nodeID (fl_pods F ! i))" using inv(2) n [OF assms(2)] by simp
  show "s_nodeID (fl_pods F ! j) \<noteq> s_nodeID (fl_pods F ! i)" if "j < length (fl_pods F)" "j \<noteq> i"
    using injD [OF inv(3), of j i] n [OF assms(2)] n [OF that(1)] that(2) by auto
qed

lemma fleet_write_frame:
  "fleet_write T J now i w F = (r, F') \<Longrightarrow>
   fl_chans F' = fl_chans F \<and> length (fl_pods F') = length (fl_pods F) \<and>
   (\<forall>j. j \<noteq> i \<longrightarrow> fl_pods F' ! j = fl_pods F ! j)"
  by (auto simp: fleet_write_def split: prod.splits)

context message_bus
begin

lemma running_start:
  "fleet_start up subs queue J c z topic F \<Longrightarrow> running up subs queue J c z topic F"
  unfolding running_def by (drule fleet_start_sim) (auto intro: reachable.start)

lemma running_reach:
  "fleet_reach T recv queue depth J F F' \<Longrightarrow> fleet_start up subs queue J c z topic F \<Longrightarrow>
   running up subs queue J c z topic F'"
  unfolding running_def by (rule reach_sim)

lemma running_local:
  assumes "running up subs queue J c z topic F" "i < length (fl_pods F)" "same_pod (fl_pods F ! i) s'"
  shows "running up subs queue J c z topic (fleet_local i s' F)"
proof -
  obtain C where C: "reachable J c z C" "fleet_sim up subs queue topic F C"
    using assms(1) unfolding running_def by blast
  note l = fleet_local_sim [OF C(2) assms(2,3), of J]
  have "reachable J c z (C\<lparr>c_node := (c_node C)(i := s')\<rparr>)"
    by (rule reachable.step [OF C(1) conjunct1 [OF l]])
  with l show ?thesis unfolding running_def by blast
qed

lemma running_settle:
  assumes "running up subs queue J c z topic F"
  shows "running up subs queue J c z topic (settle recv queue J now F)"
    and "quiet queue (settle recv queue J now F)"
    and "(fleet_deliver recv J)\<^sup>*\<^sup>* F (settle recv queue J now F)"
    and "length (fl_pods (settle recv queue J now F)) = length (fl_pods F)"
    and "fl_chans (settle recv queue J now F) = fl_chans F"
proof -
  obtain C where "reachable J c z C" "fleet_sim up subs queue topic F C"
    using assms unfolding running_def by blast
  note s = settle_ok [OF this, of now]
  then show "running up subs queue J c z topic (settle recv queue J now F)"
    "quiet queue (settle recv queue J now F)"
    "(fleet_deliver recv J)\<^sup>*\<^sup>* F (settle recv queue J now F)"
    "length (fl_pods (settle recv queue J now F)) = length (fl_pods F)"
    "fl_chans (settle recv queue J now F) = fl_chans F"
    unfolding running_def by metis+
qed

lemma running_agree:
  assumes "running up subs queue J c z topic F" "quiet queue F"
    and "i < length (fl_pods F)" "j < length (fl_pods F)"
  shows "s_data (fl_pods F ! i) = s_data (fl_pods F ! j)"
  using assms quiet_agree unfolding running_def by metis

text \<open>A write in a quiet fleet, and then the deliveries: every pod holds what the writer holds.\<close>

lemma write_settles:
  fixes now' :: time
  assumes run: "running up subs queue J c z topic F" and q: "quiet queue F"
    and i: "i < length (fl_pods F)" and ok: "s_seq (fl_pods F ! i) + 1 \<noteq> 0" "valid_utf8 (write_key w)"
    and w: "fleet_write T J now i w F = (None, F1)" and j: "j < length (fl_pods F)"
  shows "running up subs queue J c z topic (settle recv queue J now' F1)"
    and "s_data (fl_pods (settle recv queue J now' F1) ! j) = s_data (fl_pods F1 ! i)"
    and "quiet queue (settle recv queue J now' F1)"
    and "length (fl_pods (settle recv queue J now' F1)) = length (fl_pods F)"
proof -
  obtain C where C: "reachable J c z C" "fleet_sim up subs queue topic F C"
    using run unfolding running_def by blast
  obtain C' where C': "cluster_step J C C'" "fleet_sim up subs queue topic F1 C'"
      "full i (s_data (fl_pods F1 ! i)) C'"
    using fleet_write_sim [OF C(2) i ok quiet_room [OF q] w] quiet_seen [OF C q i] by blast
  have r: "reachable J c z C'" by (rule reachable.step [OF C(1) C'(1)])
  with C'(2) have "running up subs queue J c z topic F1" unfolding running_def by blast
  note s = running_settle [OF this, of now']
  then show "running up subs queue J c z topic (settle recv queue J now' F1)"
    "quiet queue (settle recv queue J now' F1)"
    "length (fl_pods (settle recv queue J now' F1)) = length (fl_pods F)"
    using fleet_write_frame [OF w] by simp_all
  show "s_data (fl_pods (settle recv queue J now' F1) ! j) = s_data (fl_pods F1 ! i)"
    using settle_agree [OF r C'(2) _ C'(3)] i j fleet_write_frame [OF w] by simp
qed

end

subsection \<open>What the receive loops do\<close>

context message_bus
begin

text \<open>Draining a channel is the receive loop of its pod over what the channel held.\<close>

lemma drain_exact:
  assumes "up (fl_tr F)" "i < length (fl_pods F)" "length (queue (fl_tr F) (fl_chans F ! i)) = n"
  shows "up (fl_tr (drain recv J now n i F)) \<and> fl_chans (drain recv J now n i F) = fl_chans F \<and>
    queue (fl_tr (drain recv J now n i F)) = (queue (fl_tr F))(fl_chans F ! i := []) \<and>
    fl_pods (drain recv J now n i F) =
      (fl_pods F)[i := recvLoop J (map (Pair now) (queue (fl_tr F) (fl_chans F ! i))) (fl_pods F ! i)]"
  using assms
proof (induction n arbitrary: F)
  case 0
  then have "queue (fl_tr F) = (queue (fl_tr F))(fl_chans F ! i := [])" by auto
  with 0 show ?case by simp
next
  case (Suc n)
  then obtain raw raws where q: "queue (fl_tr F) (fl_chans F ! i) = raw # raws" "length raws = n"
    by (auto simp: length_Suc_conv)
  from recv_bus [OF Suc.prems(1) q(1)] obtain t' where r: "recv (fl_chans F ! i) (fl_tr F) = (Some raw, t')"
    and t': "up t'" "queue t' = (queue (fl_tr F))(fl_chans F ! i := raws)" by auto
  let ?F = "F\<lparr>fl_pods := (fl_pods F)[i := handleRaw J now raw (fl_pods F ! i)], fl_tr := t'\<rparr>"
  have "up (fl_tr ?F)" "i < length (fl_pods ?F)" "length (queue (fl_tr ?F) (fl_chans ?F ! i)) = n"
    using Suc.prems(2) t' q(2) by simp_all
  from Suc.IH [OF this] show ?case using Suc.prems(2) by (simp add: r q t' fun_upd_same del: fun_upd_apply)
qed

lemma settle_from_exact:
  fixes now :: time and J :: Json
  assumes "up (fl_tr F)" "length (fl_chans F) = length (fl_pods F)" "distinct (fl_chans F)" "n \<le> length (fl_pods F)"
  defines "F' \<equiv> fold (\<lambda>i F. drain recv J now (length (queue (fl_tr F) (fl_chans F ! i))) i F) [0..<n] F"
  shows "up (fl_tr F') \<and> fl_chans F' = fl_chans F \<and> length (fl_pods F') = length (fl_pods F) \<and>
    (\<forall>j < length (fl_pods F). queue (fl_tr F') (fl_chans F ! j) =
        (if j < n then [] else queue (fl_tr F) (fl_chans F ! j)) \<and>
      fl_pods F' ! j = (if j < n then recvLoop J (map (Pair now) (queue (fl_tr F) (fl_chans F ! j))) (fl_pods F ! j)
        else fl_pods F ! j))"
  using assms(4) unfolding F'_def
proof (induction n)
  case 0
  with assms(1) show ?case by simp
next
  case (Suc n)
  let ?G = "fold (\<lambda>i F. drain recv J now (length (queue (fl_tr F) (fl_chans F ! i))) i F) [0..<n] F"
  from Suc have G: "up (fl_tr ?G)" "fl_chans ?G = fl_chans F" "length (fl_pods ?G) = length (fl_pods F)"
    and q: "\<And>j. j < length (fl_pods F) \<Longrightarrow> queue (fl_tr ?G) (fl_chans F ! j) =
        (if j < n then [] else queue (fl_tr F) (fl_chans F ! j)) \<and>
      fl_pods ?G ! j = (if j < n then recvLoop J (map (Pair now) (queue (fl_tr F) (fl_chans F ! j))) (fl_pods F ! j)
        else fl_pods F ! j)"
    by simp_all
  have n: "n < length (fl_pods F)" using Suc.prems by simp
  have other: "fl_chans F ! j = fl_chans F ! n \<longleftrightarrow> j = n" if "j < length (fl_pods F)" for j
    using that n assms(2,3) by (simp add: nth_eq_iff_index_eq)
  note D = drain_exact [OF G(1) _ refl, of n J now]
  show ?case using D G n q [OF n] q by (auto simp: other nth_list_update less_Suc_eq)
qed

text \<open>A message published into empty channels is what every pod handles next.\<close>

lemma published_settles:
  assumes run: "running up subs queue J c z topic F" and q: "quiet queue F"
    and F1: "fl_chans F1 = fl_chans F" "length (fl_pods F1) = length (fl_pods F)" "fl_tr F1 = t'"
    and pub: "tr_Publish T topic raw (fl_tr F) = (None, t')" and j: "j < length (fl_pods F)"
  shows "fl_pods (settle recv queue J now F1) ! j = handleRaw J now raw (fl_pods F1 ! j)"
proof -
  have F: "up (fl_tr F)" "length (fl_chans F) = length (fl_pods F)" "distinct (fl_chans F)"
      "set (fl_chans F) \<subseteq> set (subs (fl_tr F) topic)"
    using run by (auto simp: running_def fleet_sim_def)
  have c: "fl_chans F ! j \<in> set (fl_chans F)" using j F(2) by simp
  then have "queue (fl_tr F) (fl_chans F ! j) = []" "fl_chans F ! j \<in> set (subs (fl_tr F) topic)"
    using q F(4) by (auto simp: quiet_def)
  with publish_bus [OF F(1), of topic raw] pub depth_pos have t': "up t'" "queue t' (fl_chans F ! j) = [raw]"
    by auto
  have "fl_pods (settle recv queue J now F1) ! j =
      recvLoop J (map (Pair now) (queue t' (fl_chans F ! j))) (fl_pods F1 ! j)"
    using settle_from_exact [of F1 "length (fl_pods F1)" J now] F1 F(2,3) t'(1) j
    by (simp add: settle_def)
  with t'(2) show ?thesis by simp
qed

end

text \<open>The writes that win, as their pod sees them.\<close>

lemma winning_Set:
  assumes "\<not> s_closed (fl_pods F ! i)" "s_merger (fl_pods F ! i) = None" "i < length (fl_pods F)"
    and "Marshal (s_codec (fl_pods F ! i)) v = Inr p"
    and "marshalMsg J (stamp_msg kindSet k p now (fl_pods F ! i)) = Inr raw"
    and "tr_Publish T (s_topic (fl_pods F ! i)) raw (fl_tr F) = (None, t')"
    and "beats (Stamp now (s_nodeID (fl_pods F ! i)) (s_seq (fl_pods F ! i) + 1)) (s_data (fl_pods F ! i) k)"
  shows "\<exists>F1. fleet_write T J now i (PodSet k v) F = (None, F1) \<and> fl_tr F1 = t' \<and>
    s_data (fl_pods F1 ! i) =
      (s_data (fl_pods F ! i))(k \<mapsto> msg_entry (stamp_msg kindSet k p now (fl_pods F ! i)) v)"
  using assms
  by (simp add: fleet_write_def Set_eq write_tail_def applyMessage_data markDirty_def stored_value_def)

lemma winning_Delete:
  assumes "\<not> s_closed (fl_pods F ! i)" "i < length (fl_pods F)"
    and "marshalMsg J (stamp_msg kindDelete k [] now (fl_pods F ! i)) = Inr raw"
    and "tr_Publish T (s_topic (fl_pods F ! i)) raw (fl_tr F) = (None, t')"
    and "beats (Stamp now (s_nodeID (fl_pods F ! i)) (s_seq (fl_pods F ! i) + 1)) (s_data (fl_pods F ! i) k)"
  shows "\<exists>F1. fleet_write T J now i (PodDelete k) F = (None, F1) \<and> fl_tr F1 = t' \<and>
    s_data (fl_pods F1 ! i) = (s_data (fl_pods F ! i))
      (k \<mapsto> msg_entry (stamp_msg kindDelete k [] now (fl_pods F ! i)) (s_zero (fl_pods F ! i)))"
  using assms
  by (simp add: fleet_write_def Delete_eq write_tail_def applyMessage_data markDirty_def stored_value_other)

lemma fleet_write_pod_id:
  assumes "fleet_write T J now i w F = (None, F1)" "i < length (fl_pods F)"
  shows "map pod_id (fl_pods F1) = (map pod_id (fl_pods F))
    [i := pod_id ((fl_pods F ! i)\<lparr>s_seq := s_seq (fl_pods F ! i) + 1\<rparr>)]"
proof -
  obtain s' t' where run: "run_write T J now w (fl_pods F ! i) (fl_tr F) = (None, s', t')"
    and F1: "F1 = F\<lparr>fl_pods := (fl_pods F)[i := s'], fl_tr := t'\<rparr>"
    using assms(1) by (auto simp: fleet_write_def split: prod.splits)
  have "pod_id s' = pod_id ((fl_pods F ! i)\<lparr>s_seq := s_seq (fl_pods F ! i) + 1\<rparr>)"
    using run
    by (cases w) (auto simp: Set_eq Delete_eq write_tail_def markDirty_def pod_id_def stamped_def store_defs
        split: if_splits sum.splits prod.splits option.splits)
  then show ?thesis by (simp add: F1 map_update)
qed

subsection \<open>Setting up a fleet\<close>

text \<open>
  \<^verbatim>\<open>New\<close> on the fleet's transport. The channel is the one its call of \<^verbatim>\<open>Subscribe\<close> returned, which
  the receive loop it starts reads.
\<close>

definition sub_chan :: "'t Transport \<Rightarrow> string \<Rightarrow> 't \<Rightarrow> nat" where
  "sub_chan T topic t = (case fst (tr_Subscribe T topic t) of Inl _ \<Rightarrow> 0 | Inr c \<Rightarrow> c)"

definition fleet_new :: "'v \<Rightarrow> 'v Codec \<Rightarrow> Json \<Rightarrow> goerror + string \<Rightarrow> string \<Rightarrow> 'v Option list
    \<Rightarrow> 't Transport \<Rightarrow> ('v, 't) fleet \<Rightarrow> goerror option \<times> ('v, 't) fleet" where
  "fleet_new z jc J rid topic opts T F =
    (case New z jc J rid topic (Some T) opts (fl_tr F) of
       (Inl e, t') \<Rightarrow> (Some e, F\<lparr>fl_tr := t'\<rparr>)
     | (Inr s, t') \<Rightarrow> (None, F\<lparr>fl_pods := fl_pods F @ [s],
         fl_chans := fl_chans F @ [sub_chan T topic (fl_tr F)], fl_tr := t'\<rparr>))"

definition no_pods :: "'t \<Rightarrow> ('v, 't) fleet" where
  "no_pods t = \<lparr>fl_pods = [], fl_chans = [], fl_tr = t\<rparr>"

abbreviation (input) mem_up :: "MemoryTransport \<Rightarrow> bool" where
  "mem_up m \<equiv> mem_inv m \<and> \<not> m_closed m"

abbreviation (input) mem_queue :: "MemoryTransport \<Rightarrow> nat \<Rightarrow> bytes list" where
  "mem_queue m i \<equiv> ch_buf (m_heap m i)"

text \<open>Over an open in-memory transport without a snapshot of the topic, the fleet gains a new pod.\<close>

lemma fleet_new_joins:
  fixes F :: "('v, MemoryTransport) fleet" and opts :: "'v Option list"
  assumes start: "fleet_start mem_up m_subs mem_queue J jc z topic F" and snap: "m_snapshots (fl_tr F) topic = None"
    and topic: "topic \<noteq> ''''"
  defines "s \<equiv> apply_options opts (default_store z jc topic)"
  assumes s: "s_nodeID s \<noteq> ''''" "valid_utf8 (s_nodeID s)" "s_nodeID s \<notin> s_nodeID ` set (fl_pods F)"
      "s_merger s = None" "s_codec s = jc"
  shows "\<exists>F'. fleet_new z jc J rid topic opts memory_transport F = (None, F') \<and>
    fl_pods F' = fl_pods F @ [s] \<and> fleet_start mem_up m_subs mem_queue J jc z topic F' \<and>
    m_snapshots (fl_tr F') topic = None"
proof -
  let ?t = "fl_tr F" and ?t' = "snd (mem_Subscribe topic (fl_tr F))"
  have t: "mem_inv ?t" "\<not> m_closed ?t" using start by (simp_all add: fleet_start_def)
  have "New z jc J rid topic (Some memory_transport) opts ?t = (Inr s, ?t')"
    using t(2) snap topic s(1)
    by (simp add: New_def s_def [symmetric] Let_def memory_transport_def mem_Subscribe_def mem_FetchSnapshot_def)
  moreover have c: "sub_chan memory_transport topic ?t = m_next ?t"
    using t(2) by (simp add: sub_chan_def memory_transport_def mem_Subscribe_def Let_def)
  ultimately have F': "fleet_new z jc J rid topic opts memory_transport F = (None, F\<lparr>fl_pods := fl_pods F @ [s],
      fl_chans := fl_chans F @ [m_next ?t], fl_tr := ?t'\<rparr>)"
    by (simp add: fleet_new_def)
  have fresh: "m_next ?t \<notin> set (fl_chans F)"
    using start mem_subs_chans [OF t(1), of topic] t(1) unfolding fleet_start_def mem_inv_def by blast
  have frame: "s_zero s = z" "s_topic s = topic" "s_data s = Map.empty"
    by (simp_all add: s_def default_store_def)
  show ?thesis
    using start mem_subscribe_inv [OF t(1), of topic] t(2) fresh s(2-5) snap frame
    by (auto simp: F' fleet_start_def mem_Subscribe_def Let_def quiet_def)
qed

lemma no_pods_start:
  "json_msg_roundtrip J \<Longrightarrow> codec_roundtrip c \<Longrightarrow>
   fleet_start mem_up m_subs mem_queue J c z topic (no_pods (NewMemoryTransport b)) \<and>
   m_snapshots (fl_tr (no_pods (NewMemoryTransport b))) topic = None"
  using mem_new_inv [of b] by (simp add: fleet_start_def no_pods_def quiet_def NewMemoryTransport_def)

subsection \<open>Shutting down\<close>

text \<open>
  The deferred calls of a program that ends: the stores are closed, the last one first, then the broker.
  \<open>ks i\<close> is the order in which the final flush of pod \<open>i\<close> ranges over its map.
\<close>

fun close_pods :: "Json \<Rightarrow> time \<Rightarrow> (nat \<Rightarrow> string list) \<Rightarrow> nat \<Rightarrow> ('v, MemoryTransport) fleet \<Rightarrow> ('v, MemoryTransport) fleet" where
  "close_pods J now ks 0 F = F\<lparr>fl_tr := snd (mem_Close (fl_tr F))\<rparr>"
| "close_pods J now ks (Suc i) F =
    (case Close memory_transport J now (ks i) (fl_pods F ! i) (fl_tr F) of
       (_, s', t') \<Rightarrow> close_pods J now ks i (F\<lparr>fl_pods := (fl_pods F)[i := s'], fl_tr := t'\<rparr>))"

lemma mem_Close_closed: "m_closed (snd (mem_Close m))"
proof -
  have "m_closed (fold mem_close_chan cs m) = m_closed m" for cs m
    by (induction cs arbitrary: m) (simp_all add: mem_close_chan_def)
  then show ?thesis by (simp add: mem_Close_def Let_def)
qed

lemma close_pods_closed:
  assumes "n \<le> length (fl_pods F)"
  shows "m_closed (fl_tr (close_pods J now ks n F)) \<and> length (fl_pods (close_pods J now ks n F)) = length (fl_pods F) \<and>
    (\<forall>i < n. s_closed (fl_pods (close_pods J now ks n F) ! i)) \<and>
    (\<forall>i. n \<le> i \<longrightarrow> fl_pods (close_pods J now ks n F) ! i = fl_pods F ! i)"
  using assms
proof (induction n arbitrary: F)
  case 0
  then show ?case by (simp add: mem_Close_closed)
next
  case (Suc n)
  obtain err s' t' where c: "Close memory_transport J now (ks n) (fl_pods F ! n) (fl_tr F) = (err, s', t')"
    by (metis prod.exhaust)
  from Suc.IH [of "F\<lparr>fl_pods := (fl_pods F)[n := s'], fl_tr := t'\<rparr>"] Suc.prems Close_closed [OF c] show ?case
    by (auto simp: c less_Suc_eq)
qed

subsection \<open>A calm fleet\<close>

text \<open>
  The pods of a calm fleet have empty channels and hold the map \<open>d\<close>. A write whose stamp wins,
  followed by the deliveries, gives a calm fleet with the new map; a read changes nothing.
\<close>

definition calm :: "Json \<Rightarrow> 'v Codec \<Rightarrow> 'v \<Rightarrow> string \<Rightarrow> (string \<rightharpoonup> 'v entry)
    \<Rightarrow> ('v, MemoryTransport) fleet \<Rightarrow> bool" where
  "calm J c z topic d F \<longleftrightarrow> running mem_up m_subs mem_queue J c z topic F \<and> quiet mem_queue F \<and>
     (\<forall>i < length (fl_pods F). s_data (fl_pods F ! i) = d)"

lemma calm_start:
  assumes "fleet_start mem_up m_subs mem_queue J c z topic F"
  shows "calm J c z topic Map.empty F"
  using assms membus.running_start [OF assms] by (simp add: calm_def fleet_start_def)

lemma calm_agree:
  assumes "running mem_up m_subs mem_queue J c z topic F" "quiet mem_queue F" "j < length (fl_pods F)"
  shows "calm J c z topic (s_data (fl_pods F ! j)) F"
  unfolding calm_def using assms(1,2) membus.running_agree [OF assms(1,2) _ assms(3)] by blast

lemma calm_write:
  assumes "calm J c z topic d F" "i < length (fl_pods F)" "s_seq (fl_pods F ! i) + 1 \<noteq> 0"
    and "valid_utf8 (write_key w)" "fleet_write memory_transport J now i w F = (None, F1)"
  shows "calm J c z topic (s_data (fl_pods F1 ! i)) (settle mem_recv mem_queue J now' F1)"
proof -
  have r: "running mem_up m_subs mem_queue J c z topic F" "quiet mem_queue F"
    using assms(1) by (simp_all add: calm_def)
  note w = membus.write_settles [OF r assms(2-5), of _ now']
  show ?thesis using w assms(2) by (auto simp: calm_def)
qed

lemma calm_Set:
  assumes calm: "calm J c z topic d F" and i: "i < length (fl_pods F)"
    and seq: "s_seq (fl_pods F ! i) + 1 \<noteq> 0" and "\<not> s_closed (fl_pods F ! i)" and k: "valid_utf8 k"
    and "Marshal c v = Inr p" "marshalMsg J (stamp_msg kindSet k p now (fl_pods F ! i)) = Inr raw"
    and "beats (Stamp now (s_nodeID (fl_pods F ! i)) (s_seq (fl_pods F ! i) + 1)) (d k)"
  shows "\<exists>F1. fleet_write memory_transport J now i (PodSet k v) F = (None, F1) \<and>
    calm J c z topic (d(k \<mapsto> msg_entry (stamp_msg kindSet k p now (fl_pods F ! i)) v))
      (settle mem_recv mem_queue J now' F1) \<and>
    (\<forall>j < length (fl_pods F). j \<noteq> i \<longrightarrow>
       fl_pods (settle mem_recv mem_queue J now' F1) ! j = handleRaw J now' raw (fl_pods F ! j))"
proof -
  have r: "running mem_up m_subs mem_queue J c z topic F" "s_data (fl_pods F ! i) = d"
    using calm i by (simp_all add: calm_def)
  note pi = running_pod [OF r(1) i]
  obtain t' where t': "tr_Publish memory_transport topic raw (fl_tr F) = (None, t')"
    using membus.publish_bus [OF pi(5)] by blast
  obtain F1 where F1: "fleet_write memory_transport J now i (PodSet k v) F = (None, F1)"
    and d: "s_data (fl_pods F1 ! i) = d(k \<mapsto> msg_entry (stamp_msg kindSet k p now (fl_pods F ! i)) v)" "fl_tr F1 = t'"
    using winning_Set [of F i v p J k now raw memory_transport t'] assms(4,6-8) i t' pi r(2) by auto
  have "valid_utf8 (write_key (PodSet k v))" using k by simp
  note w = calm_write [OF calm i seq this F1, of now', unfolded d(1)]
  have "quiet mem_queue F" using calm by (simp add: calm_def)
  note h = membus.published_settles [OF r(1) this _ _ d(2) t', of _ now']
  show ?thesis using F1 w h fleet_write_frame [OF F1] by auto
qed

lemma calm_Delete:
  assumes calm: "calm J c z topic d F" and i: "i < length (fl_pods F)"
    and seq: "s_seq (fl_pods F ! i) + 1 \<noteq> 0" and "\<not> s_closed (fl_pods F ! i)" and k: "valid_utf8 k"
    and "marshalMsg J (stamp_msg kindDelete k [] now (fl_pods F ! i)) = Inr raw"
    and "beats (Stamp now (s_nodeID (fl_pods F ! i)) (s_seq (fl_pods F ! i) + 1)) (d k)"
  shows "\<exists>F1. fleet_write memory_transport J now i (PodDelete k) F = (None, F1) \<and>
    calm J c z topic (d(k \<mapsto> msg_entry (stamp_msg kindDelete k [] now (fl_pods F ! i)) z))
      (settle mem_recv mem_queue J now' F1) \<and>
    (\<forall>j < length (fl_pods F). j \<noteq> i \<longrightarrow>
       fl_pods (settle mem_recv mem_queue J now' F1) ! j = handleRaw J now' raw (fl_pods F ! j))"
proof -
  have r: "running mem_up m_subs mem_queue J c z topic F" "s_data (fl_pods F ! i) = d"
    using calm i by (simp_all add: calm_def)
  note pi = running_pod [OF r(1) i]
  obtain t' where t': "tr_Publish memory_transport topic raw (fl_tr F) = (None, t')"
    using membus.publish_bus [OF pi(5)] by blast
  obtain F1 where F1: "fleet_write memory_transport J now i (PodDelete k) F = (None, F1)"
    and d: "s_data (fl_pods F1 ! i) = d(k \<mapsto> msg_entry (stamp_msg kindDelete k [] now (fl_pods F ! i)) z)" "fl_tr F1 = t'"
    using winning_Delete [of F i J k now raw memory_transport t'] assms(4,6-7) i t' pi r(2) by auto
  have "valid_utf8 (write_key (PodDelete k))" using k by simp
  note w = calm_write [OF calm i seq this F1, of now', unfolded d(1)]
  have "quiet mem_queue F" using calm by (simp add: calm_def)
  note h = membus.published_settles [OF r(1) this _ _ d(2) t', of _ now']
  show ?thesis using F1 w h fleet_write_frame [OF F1] by auto
qed

lemma calm_local:
  assumes "calm J c z topic d F" "i < length (fl_pods F)" "same_pod (fl_pods F ! i) s'"
  shows "calm J c z topic d (fleet_local i s' F) \<and>
    map pod_id (fl_pods (fleet_local i s' F)) = map pod_id (fl_pods F)"
proof -
  have r: "running mem_up m_subs mem_queue J c z topic (fleet_local i s' F)"
    using assms by (intro membus.running_local) (simp_all add: calm_def)
  have "map pod_id (fl_pods (fleet_local i s' F)) = map pod_id (fl_pods F)"
    using assms(2,3) by (simp add: fleet_local_def map_update same_pod_def list_update_same_conv)
  with r assms show ?thesis
    by (auto simp: calm_def quiet_def fleet_local_def nth_list_update same_pod_def)
qed

lemma Get_same_pod: "same_pod s (snd (Get k s))"
  by (simp add: same_pod_def pod_id_def Get_def Let_def split: option.split)

lemma calm_get:
  assumes "calm J c z topic d F" "i < length (fl_pods F)"
  shows "\<exists>F'. fleet_get i k F =
      (case d k of None \<Rightarrow> (z, False) | Some e \<Rightarrow> if e_Tombstone e then (z, False) else (e_Value e, True), F') \<and>
    calm J c z topic d F' \<and> map pod_id (fl_pods F') = map pod_id (fl_pods F)"
proof -
  have r: "running mem_up m_subs mem_queue J c z topic F" and d: "s_data (fl_pods F ! i) = d"
    using assms by (simp_all add: calm_def)
  have "fleet_get i k F = (fst (Get k (fl_pods F ! i)), fleet_local i (snd (Get k (fl_pods F ! i))) F)"
    by (simp add: fleet_get_def case_prod_unfold)
  moreover have "fst (Get k (fl_pods F ! i)) =
      (case d k of None \<Rightarrow> (z, False) | Some e \<Rightarrow> if e_Tombstone e then (z, False) else (e_Value e, True))"
    using d running_pod(2) [OF r assms(2)] by (simp add: Get_def Let_def split: option.split)
  ultimately show ?thesis using calm_local [OF assms Get_same_pod, of k] by auto
qed

subsection \<open>One writer\<close>

text \<open>
  A calm fleet of \<open>n\<close> pods whose first pod \<open>a\<close> does the writing and has written \<open>q\<close> times. The other
  pods apply its messages.
\<close>

definition owned :: "Json \<Rightarrow> 'v Codec \<Rightarrow> 'v \<Rightarrow> string \<Rightarrow> nat \<Rightarrow> string \<Rightarrow> (string \<rightharpoonup> 'v entry) \<Rightarrow> uint64
    \<Rightarrow> ('v, MemoryTransport) fleet \<Rightarrow> bool" where
  "owned J c z topic n a d q F \<longleftrightarrow> calm J c z topic d F \<and> 0 < n \<and> length (fl_pods F) = n \<and>
     pod_id (fl_pods F ! 0) = (q, a, c, None, z, topic, False)"

lemma owned_pod_id:
  assumes "map pod_id (fl_pods F') = map pod_id (fl_pods F)" "owned J c z topic n a d q F" "calm J c z topic d' F'"
  shows "owned J c z topic n a d' q F'"
proof -
  have len: "length (fl_pods F') = length (fl_pods F)" using map_eq_imp_length_eq [OF assms(1)] .
  with assms(2) have "pod_id (fl_pods F' ! 0) = pod_id (fl_pods F ! 0)"
    using arg_cong [OF assms(1), of "\<lambda>xs. xs ! 0"] by (simp add: owned_def)
  with assms(2,3) len show ?thesis by (simp add: owned_def)
qed

lemma owned_write:
  assumes "owned J c z topic n a d q F" "fleet_write memory_transport J now 0 w F = (None, F1)"
    and "calm J c z topic d' (settle mem_recv mem_queue J r F1)"
  shows "owned J c z topic n a d' (q + 1) (settle mem_recv mem_queue J r F1)"
proof -
  have len: "0 < length (fl_pods F)" "length (fl_pods F1) = length (fl_pods F)"
    using assms(1) fleet_write_frame [OF assms(2)] by (simp_all add: owned_def)
  have "pod_id (fl_pods F1 ! 0) = pod_id ((fl_pods F ! 0)\<lparr>s_seq := s_seq (fl_pods F ! 0) + 1\<rparr>)"
    using arg_cong [OF fleet_write_pod_id [OF assms(2) len(1)], of "\<lambda>xs. xs ! 0"] len by simp
  moreover have "pod_id (fl_pods (settle mem_recv mem_queue J r F1) ! 0) = pod_id (fl_pods F1 ! 0)"
    and l3: "length (fl_pods (settle mem_recv mem_queue J r F1)) = length (fl_pods F1)"
    using arg_cong [OF settle_pod_id [of mem_recv mem_queue J r F1], of "\<lambda>xs. xs ! 0"] len
      map_eq_imp_length_eq [OF settle_pod_id [of mem_recv mem_queue J r F1]] by simp_all
  ultimately show ?thesis
    using assms(1,3) len by (simp add: owned_def pod_id_def)
qed

text \<open>What another pod makes of a message of the owner.\<close>

lemma owner_message:
  assumes run: "running up subs queue J c z topic F" and i: "i < length (fl_pods F)"
    and j: "j < length (fl_pods F)" "j \<noteq> i" and k: "valid_utf8 k"
    and raw: "marshalMsg J (stamp_msg kind k p now (fl_pods F ! i)) = Inr raw"
    and kind: "kind = kindSet \<and> Marshal c v = Inr p \<or> kind = kindDelete \<and> v = z"
  shows "handleRaw J r raw (fl_pods F ! j) =
    snd (applyMessage (stamp_msg kind k p now (fl_pods F ! i)) v
      (check_skew r (stamp_msg kind k p now (fl_pods F ! i)) (fl_pods F ! j)))"
proof -
  let ?m = "stamp_msg kind k p now (fl_pods F ! i)"
  have "valid_utf8 kind" using kind by (auto simp: valid_utf8_def kindSet_def kindDelete_def of_char_def)
  then have "unmarshalMsg J raw = Inr ?m"
    using running_ids(1,2) [OF run i] k raw by (simp add: json_msg_roundtrip_def stamp_msg_def)
  moreover have "wm_Origin ?m \<noteq> s_nodeID (fl_pods F ! j)" "\<not> wm_V ?m > ProtocolVersion"
    using running_ids(3) [OF run i j] by (simp_all add: stamp_msg_def)
  moreover have "Unmarshal c p = Inr v" if "Marshal c v = Inr p"
    using running_pod(6) [OF run i] that by (simp add: codec_roundtrip_def)
  ultimately show ?thesis
    using kind running_pod(1,2) [OF run j(1)]
    by (auto simp: handleRaw_def Let_def stamp_msg_def kindSet_def kindDelete_def)
qed

lemma owned_Set:
  assumes st: "owned J c z topic n a d q F" and q: "q + 1 \<noteq> 0" and k: "valid_utf8 k" and p: "Marshal c v = Inr p"
    and enc: "\<forall>m. wm_Timestamp m = now \<longrightarrow> (\<exists>raw. marshalMsg J m = Inr raw)"
    and new: "beats (Stamp now a (q + 1)) (d k)"
  shows "\<exists>F1 m. fleet_write memory_transport J now 0 (PodSet k v) F = (None, F1) \<and>
    owned J c z topic n a (d(k \<mapsto> msg_entry m v)) (q + 1) (settle mem_recv mem_queue J r F1) \<and>
    msg_stamp m = Stamp now a (q + 1) \<and> wm_Kind m = kindSet \<and> wm_Key m = k \<and>
    (\<forall>j < n. j \<noteq> 0 \<longrightarrow> fl_pods (settle mem_recv mem_queue J r F1) ! j =
       snd (applyMessage m v (check_skew r m (fl_pods F ! j))))"
proof -
  let ?s = "fl_pods F ! 0" and ?m = "stamp_msg kindSet k p now (fl_pods F ! 0)"
  obtain raw where raw: "marshalMsg J ?m = Inr raw"
    using enc [rule_format, of ?m] by (auto simp: stamp_msg_def)
  have s: "calm J c z topic d F" "0 < length (fl_pods F)" "length (fl_pods F) = n" "s_seq ?s = q" "s_nodeID ?s = a"
      "\<not> s_closed ?s"
    using st by (auto simp: owned_def pod_id_def)
  have "s_seq ?s + 1 \<noteq> 0" "beats (Stamp now (s_nodeID ?s) (s_seq ?s + 1)) (d k)" using q new s by simp_all
  from calm_Set [OF s(1,2) this(1) s(6) k p raw this(2), of r] obtain F1 where
      F1: "fleet_write memory_transport J now 0 (PodSet k v) F = (None, F1)"
      "calm J c z topic (d(k \<mapsto> msg_entry ?m v)) (settle mem_recv mem_queue J r F1)"
    and h: "\<forall>j < length (fl_pods F). j \<noteq> 0 \<longrightarrow>
       fl_pods (settle mem_recv mem_queue J r F1) ! j = handleRaw J r raw (fl_pods F ! j)"
    by blast
  have run: "running mem_up m_subs mem_queue J c z topic F" using s(1) by (simp add: calm_def)
  note om = owner_message [OF run s(2) _ _ k raw, of _ v r]
  show ?thesis
    using owned_write [OF st F1] F1(1) h om p s by (intro exI [of _ F1] exI [of _ ?m]) simp
qed

lemma owned_Delete:
  assumes st: "owned J c z topic n a d q F" and q: "q + 1 \<noteq> 0" and k: "valid_utf8 k"
    and enc: "\<forall>m. wm_Timestamp m = now \<longrightarrow> (\<exists>raw. marshalMsg J m = Inr raw)"
    and new: "beats (Stamp now a (q + 1)) (d k)"
  shows "\<exists>F1 m. fleet_write memory_transport J now 0 (PodDelete k) F = (None, F1) \<and>
    owned J c z topic n a (d(k \<mapsto> msg_entry m z)) (q + 1) (settle mem_recv mem_queue J r F1) \<and>
    msg_stamp m = Stamp now a (q + 1) \<and> wm_Kind m = kindDelete \<and> wm_Key m = k \<and>
    (\<forall>j < n. j \<noteq> 0 \<longrightarrow> fl_pods (settle mem_recv mem_queue J r F1) ! j =
       snd (applyMessage m z (check_skew r m (fl_pods F ! j))))"
proof -
  let ?s = "fl_pods F ! 0" and ?m = "stamp_msg kindDelete k [] now (fl_pods F ! 0)"
  obtain raw where raw: "marshalMsg J ?m = Inr raw"
    using enc [rule_format, of ?m] by (auto simp: stamp_msg_def)
  have s: "calm J c z topic d F" "0 < length (fl_pods F)" "length (fl_pods F) = n" "s_seq ?s = q" "s_nodeID ?s = a"
      "\<not> s_closed ?s"
    using st by (auto simp: owned_def pod_id_def)
  have "s_seq ?s + 1 \<noteq> 0" "beats (Stamp now (s_nodeID ?s) (s_seq ?s + 1)) (d k)" using q new s by simp_all
  from calm_Delete [OF s(1,2) this(1) s(6) k raw this(2), of r] obtain F1 where
      F1: "fleet_write memory_transport J now 0 (PodDelete k) F = (None, F1)"
      "calm J c z topic (d(k \<mapsto> msg_entry ?m z)) (settle mem_recv mem_queue J r F1)"
    and h: "\<forall>j < length (fl_pods F). j \<noteq> 0 \<longrightarrow>
       fl_pods (settle mem_recv mem_queue J r F1) ! j = handleRaw J r raw (fl_pods F ! j)"
    by blast
  have run: "running mem_up m_subs mem_queue J c z topic F" using s(1) by (simp add: calm_def)
  note om = owner_message [OF run s(2) _ _ k raw, of _ z r]
  show ?thesis
    using owned_write [OF st F1] F1(1) h om s by (intro exI [of _ F1] exI [of _ ?m]) simp
qed

lemma owned_get:
  assumes "owned J c z topic n a d q F" "i < n"
  shows "\<exists>F'. fleet_get i k F = (case d k of None \<Rightarrow> (z, False)
      | Some e \<Rightarrow> if e_Tombstone e then (z, False) else (e_Value e, True), F') \<and> owned J c z topic n a d q F'"
proof -
  have "calm J c z topic d F" "i < length (fl_pods F)" using assms by (simp_all add: owned_def)
  from calm_get [OF this, of k] show ?thesis using owned_pod_id [OF _ assms(1)] by blast
qed

subsection \<open>Properties\<close>

text \<open>
  C3. Pods of one process agree when their channels are empty. For every fleet of new stores over
  the in-memory transport, every interleaving of their sets, deletes, reads and watches with the receive loops that
  overflows no channel: in a state with empty channels all pods hold the same replica; and from any
  state, handling what is in the channels (each pod its own, in order) leaves them empty.
\<close>

theorem fleet_settles:
  assumes "fleet_start mem_up m_subs mem_queue J c z topic F0"
    and "fleet_reach memory_transport mem_recv mem_queue 256 J F0 F"
  shows "(quiet mem_queue F \<longrightarrow> (\<forall>i < length (fl_pods F). s_data (fl_pods F ! i) = s_data (fl_pods F ! 0))) \<and>
    (\<exists>F'. settle mem_recv mem_queue J now F = F' \<and> (fleet_deliver mem_recv J)\<^sup>*\<^sup>* F F' \<and>
      quiet mem_queue F' \<and> length (fl_pods F') = length (fl_pods F) \<and>
      (\<forall>i < length (fl_pods F). s_data (fl_pods F' ! i) = s_data (fl_pods F' ! 0)))"
proof -
  note r = membus.running_reach [OF assms(2,1)]
  note s = membus.running_settle [OF r, of now]
  have "s_data (fl_pods F ! i) = s_data (fl_pods F ! 0)"
    if "quiet mem_queue F" "i < length (fl_pods F)" for i
    by (rule membus.running_agree [OF r that]) (use that in linarith)
  moreover have "s_data (fl_pods (settle mem_recv mem_queue J now F) ! i) =
      s_data (fl_pods (settle mem_recv mem_queue J now F) ! 0)" if "i < length (fl_pods F)" for i
    by (rule membus.running_agree [OF s(1,2)]) (use that s(4) in linarith)+
  ultimately show ?thesis using s(2-4) by blast
qed

definition two_broker :: MemoryTransport where
  "two_broker = snd (mem_Subscribe ''t'' sample_broker)"

definition two_pods :: "(string, MemoryTransport) fleet" where
  "two_pods = \<lparr>fl_pods = [sample_store ''a'', sample_store ''b''], fl_chans = [0, 1], fl_tr = two_broker\<rparr>"

lemma two_broker_simps:
  "mem_inv two_broker" "\<not> m_closed two_broker" "m_subs two_broker ''t'' = [0, 1]"
  "ch_buf (m_heap two_broker 0) = []" "ch_buf (m_heap two_broker (Suc 0)) = []"
  using mem_subscribe_inv [OF sample_broker_simps(1), of "''t''"]
  by (simp_all add: two_broker_def sample_broker_def mem_Subscribe_def NewMemoryTransport_def Let_def)

lemma two_pods_start:
  "fleet_start mem_up m_subs mem_queue sample_json sample_codec '''' ''t'' two_pods"
  using sample_json_msg sample_codec_roundtrip two_broker_simps
  by (simp add: fleet_start_def two_pods_def quiet_def valid_utf8_def of_char_def)

theorem fleet_settles_witness:
  "\<exists>F F'. fleet_write memory_transport sample_json 5 0 (PodSet ''k'' ''x'') two_pods = (None, F) \<and>
     settle mem_recv mem_queue sample_json 6 F = F' \<and> quiet mem_queue F' \<and>
     s_data (fl_pods F' ! 1) = s_data (fl_pods F' ! 0)"
proof -
  obtain t' where "tr_Publish memory_transport ''t'' (sample_marshalMsg
      (stamp_msg kindSet ''k'' (str_bytes ''x'') 5 (sample_store ''a''))) two_broker = (None, t')"
    using membus.publish_bus two_broker_simps(1,2) by blast
  then obtain F where F: "fleet_write memory_transport sample_json 5 0 (PodSet ''k'' ''x'') two_pods = (None, F)"
    using winning_Set [of two_pods 0 "''x''" "str_bytes ''x''" sample_json "''k''" 5
        "sample_marshalMsg (stamp_msg kindSet ''k'' (str_bytes ''x'') 5 (sample_store ''a''))" memory_transport t']
    by (auto simp: two_pods_def)
  have "fleet_reach memory_transport mem_recv mem_queue 256 sample_json two_pods F"
    by (rule fleet_reach.onward [OF fleet_reach.here fleet_step.fleet_write [OF _ _ _ _ F]])
       (simp_all add: two_pods_def has_room_def two_broker_simps valid_utf8_def of_char_def)
  from conjunct2 [OF fleet_settles [OF two_pods_start this, of 6]] obtain F' where
      F': "settle mem_recv mem_queue sample_json 6 F = F'" "quiet mem_queue F'"
      "\<forall>i < length (fl_pods F). s_data (fl_pods F' ! i) = s_data (fl_pods F' ! 0)"
    by (elim exE conjE) (rule that)
  have "1 < length (fl_pods F)" using fleet_write_frame [OF F] by (simp add: two_pods_def)
  with F' have "s_data (fl_pods F' ! 1) = s_data (fl_pods F' ! 0)" by blast
  with F F'(1,2) show ?thesis by (intro exI conjI)
qed

text \<open>
  A write is read on every pod. In a fleet over the in-memory transport whose channels are empty, a
  \<^verbatim>\<open>Set\<close> whose value and message can be encoded, and whose stamp is newer than what the fleet holds,
  returns no error; once the pods have handled their channels, \<^verbatim>\<open>Get\<close> returns the value on every
  pod, and every other key reads as before.
\<close>

theorem write_is_read_everywhere:
  assumes "fleet_start mem_up m_subs mem_queue J c z topic F0"
    and "fleet_reach memory_transport mem_recv mem_queue 256 J F0 F" "quiet mem_queue F"
    and i: "i < length (fl_pods F)" "s_seq (fl_pods F ! i) + 1 \<noteq> 0" and j: "j < length (fl_pods F)"
    and "\<not> s_closed (fl_pods F ! i)" "valid_utf8 k" "Marshal c v = Inr p"
    and "marshalMsg J (stamp_msg kindSet k p now (fl_pods F ! i)) = Inr raw"
    and "beats (Stamp now (s_nodeID (fl_pods F ! i)) (s_seq (fl_pods F ! i) + 1)) (s_data (fl_pods F ! j) k)"
  shows "\<exists>F1 F2. fleet_write memory_transport J now i (PodSet k v) F = (None, F1) \<and>
    settle mem_recv mem_queue J now' F1 = F2 \<and> quiet mem_queue F2 \<and>
    fst (Get k (fl_pods F2 ! j)) = (v, True) \<and>
    (\<forall>k'. k' \<noteq> k \<longrightarrow> fst (Get k' (fl_pods F2 ! j)) = fst (Get k' (fl_pods F ! j)))"
proof -
  note r = membus.running_reach [OF assms(2,1)]
  have calm: "calm J c z topic (s_data (fl_pods F ! j)) F" by (rule calm_agree [OF r assms(3) j])
  let ?d = "(s_data (fl_pods F ! j))(k \<mapsto> msg_entry (stamp_msg kindSet k p now (fl_pods F ! i)) v)"
  obtain F1 where F1: "fleet_write memory_transport J now i (PodSet k v) F = (None, F1)"
    and calm2: "calm J c z topic ?d (settle mem_recv mem_queue J now' F1)"
    using calm_Set [OF calm i assms(7-11), of now'] by auto
  let ?F2 = "settle mem_recv mem_queue J now' F1"
  have j2: "j < length (fl_pods ?F2)"
    using j fleet_write_frame [OF F1] map_eq_imp_length_eq [OF settle_pod_id] by metis
  have z: "s_zero (fl_pods ?F2 ! j) = s_zero (fl_pods F ! j)" and d: "s_data (fl_pods ?F2 ! j) = ?d"
    using calm2 j2 running_pod(2) [OF r j] running_pod(2) [of _ _ _ _ _ _ _ ?F2 j] by (auto simp: calm_def)
  have "fst (Get k (fl_pods ?F2 ! j)) = (v, True)" by (simp add: Get_def Let_def d)
  moreover have "fst (Get k' (fl_pods ?F2 ! j)) = fst (Get k' (fl_pods F ! j))" if "k' \<noteq> k" for k'
    using that z by (simp add: Get_def Let_def d split: option.split)
  ultimately show ?thesis using F1 calm2 unfolding calm_def by blast
qed

theorem write_is_read_everywhere_witness:
  "\<exists>F1 F2. fleet_write memory_transport sample_json 5 0 (PodSet ''k'' ''x'') two_pods = (None, F1) \<and>
     settle mem_recv mem_queue sample_json 6 F1 = F2 \<and> fst (Get ''k'' (fl_pods F2 ! 1)) = (''x'', True)"
proof -
  have "quiet mem_queue two_pods" using two_pods_start by (simp add: fleet_start_def)
  moreover have "valid_utf8 ''k''" by (simp add: valid_utf8_def of_char_def)
  ultimately show ?thesis
    using write_is_read_everywhere [OF two_pods_start fleet_reach.here, where i = 0 and j = 1 and k = "''k''"
        and v = "''x''" and p = "str_bytes ''x''" and now = 5 and now' = 6
        and raw = "sample_marshalMsg (stamp_msg kindSet ''k'' (str_bytes ''x'') 5 (sample_store ''a''))"]
    by (auto simp: two_pods_def)
qed

end
