(* ===== verification/Chat_Cache.thy ===== *)
theory Chat_Cache
  imports Fleet
begin

section \<open>The chat cache\<close>

text \<open>
  \<^verbatim>\<open>examples/chat-cache/main.go\<close>: three pods of one process share conversations; the first pod
  writes, the others read. \<^verbatim>\<open>log.Fatal\<close> ends the program: it is the left summand of the result. A
  \<^verbatim>\<open>time.Sleep\<close> stands for what the program waits for, that every pod has handled its channel
  (\<open>settle\<close>). What is printed is a list of lines; the values of \<^verbatim>\<open>time.Now\<close>, the random id (not
  read, the pods are named), the key orders of the final flushes and \<^verbatim>\<open>encoding/json\<close> are arguments.
\<close>

record Message =
  msg_ID :: string
  msg_Role :: string
  msg_Content :: string
  msg_Timestamp :: time

record Conversation =
  cv_ID :: string
  cv_UserID :: string
  cv_Messages :: "Message list"

type_synonym chat_fleet = "(Conversation, MemoryTransport) fleet"

datatype chat_fatal = Fatal goerror | FatalText string

datatype chat_line = CacheHit string nat | FullConversation string Conversation | Evicted string

text \<open>The zero value of a conversation.\<close>

definition no_conversation :: Conversation where
  "no_conversation = \<lparr>cv_ID = '''', cv_UserID = '''', cv_Messages = []\<rparr>"

definition conversations :: string where "conversations = ''conversations''"

definition chat_mustNew :: "Conversation Codec \<Rightarrow> Json \<Rightarrow> goerror + string \<Rightarrow> string \<Rightarrow> chat_fleet
    \<Rightarrow> chat_fatal + chat_fleet" where
  "chat_mustNew jc J rid nodeID F =
    (case fleet_new no_conversation jc J rid conversations [OptNodeID nodeID, OptErrorHandler True]
            memory_transport F of
       (Some e, _) \<Rightarrow> Inl (Fatal e)
     | (None, F') \<Rightarrow> Inr F')"

definition chat_must :: "goerror option \<times> chat_fleet \<Rightarrow> chat_fatal + chat_fleet" where
  "chat_must r = (case r of (Some e, _) \<Rightarrow> Inl (Fatal e) | (None, F) \<Rightarrow> Inr F)"

fun and_then :: "'e + 'a \<Rightarrow> ('a \<Rightarrow> 'e + 'b) \<Rightarrow> 'e + 'b" where
  "and_then (Inl e) f = Inl e"
| "and_then (Inr x) f = f x"

definition convID :: string where "convID = ''conv-42''"

definition turn1 :: "time \<Rightarrow> time \<Rightarrow> Conversation" where
  "turn1 m1 m2 = \<lparr>cv_ID = convID, cv_UserID = ''alice'', cv_Messages =
    [\<lparr>msg_ID = ''m1'', msg_Role = ''user'', msg_Content = ''what's the capital of France?'', msg_Timestamp = m1\<rparr>,
     \<lparr>msg_ID = ''m2'', msg_Role = ''assistant'', msg_Content = ''Paris.'', msg_Timestamp = m2\<rparr>]\<rparr>"

definition turn3 :: "time \<Rightarrow> time \<Rightarrow> Conversation \<Rightarrow> Conversation" where
  "turn3 m3 m4 conv = conv\<lparr>cv_Messages := cv_Messages conv @
    [\<lparr>msg_ID = ''m3'', msg_Role = ''user'', msg_Content = ''what about Germany?'', msg_Timestamp = m3\<rparr>,
     \<lparr>msg_ID = ''m4'', msg_Role = ''assistant'', msg_Content = ''Berlin.'', msg_Timestamp = m4\<rparr>]\<rparr>"

text \<open>The three stores on a new broker.\<close>

definition chat_setup :: "Conversation Codec \<Rightarrow> Json \<Rightarrow> goerror + string \<Rightarrow> chat_fatal + chat_fleet" where
  "chat_setup jc J rid =
    and_then (chat_mustNew jc J rid ''chat-pod-a'' (no_pods (NewMemoryTransport False))) (\<lambda>F.
    and_then (chat_mustNew jc J rid ''chat-pod-b'' F) (\<lambda>F.
    chat_mustNew jc J rid ''chat-pod-c'' F))"

text \<open>
  What one pod finds under the conversation's id, with the text of the \<^verbatim>\<open>log.Fatal\<close> when it misses.
\<close>

definition cache_hit :: "nat \<Rightarrow> string \<Rightarrow> chat_fleet \<Rightarrow> chat_fatal + chat_line \<times> chat_fleet" where
  "cache_hit i pod F =
    (case fleet_get i convID F of
       ((cached, ok), F') \<Rightarrow>
         if \<not> ok then Inl (FatalText (pod @ '' missed cache''))
         else Inr (CacheHit pod (length (cv_Messages cached)), F'))"

text \<open>
  The conversation in three turns and its end. \<open>m1\<close> to \<open>m4\<close> are the times in the messages,
  \<open>w1\<close>, \<open>w2\<close>, \<open>w3\<close> the clocks of the three writes, \<open>r1\<close>, \<open>r2\<close>, \<open>r3\<close> those of the deliveries.
\<close>

definition chat_turns :: "Json \<Rightarrow> time \<times> time \<times> time \<times> time \<Rightarrow> time \<times> time \<times> time \<Rightarrow> time \<times> time \<times> time
    \<Rightarrow> chat_fleet \<Rightarrow> chat_fatal + chat_line list \<times> chat_fleet" where
  "chat_turns J ms ws rs F =
    (case (ms, ws, rs) of ((m1, m2, m3, m4), (w1, w2, w3), (r1, r2, r3)) \<Rightarrow>
     let conv = turn1 m1 m2 in
     and_then (chat_must (fleet_write memory_transport J w1 0 (PodSet (cv_ID conv) conv) F)) (\<lambda>F.
     let F = settle mem_recv mem_queue J r1 F in
     and_then (cache_hit 1 ''pod-b'' F) (\<lambda>(b, F).
     and_then (cache_hit 2 ''pod-c'' F) (\<lambda>(c, F).
     let conv = turn3 m3 m4 conv in
     and_then (chat_must (fleet_write memory_transport J w2 0 (PodSet (cv_ID conv) conv) F)) (\<lambda>F.
     let F = settle mem_recv mem_queue J r2 F;
         ((finalOnB, _), F) = fleet_get 1 convID F in
     and_then (chat_must (fleet_write memory_transport J w3 0 (PodDelete convID) F)) (\<lambda>F.
     let F = settle mem_recv mem_queue J r3 F;
         ((_, ok), F) = fleet_get 2 convID F in
     if ok then Inl (FatalText ''pod-c still sees the deleted conversation'')
     else Inr ([b, c, FullConversation ''pod-b'' finalOnB, Evicted ''pod-c''], F)))))))"

definition chat_main :: "Conversation Codec \<Rightarrow> Json \<Rightarrow> goerror + string
    \<Rightarrow> time \<times> time \<times> time \<times> time \<Rightarrow> time \<times> time \<times> time \<Rightarrow> time \<times> time \<times> time \<Rightarrow> time \<Rightarrow> (nat \<Rightarrow> string list)
    \<Rightarrow> chat_fatal + chat_line list \<times> chat_fleet" where
  "chat_main jc J rid ms ws rs fin ks =
    and_then (chat_setup jc J rid) (\<lambda>F.
    and_then (chat_turns J ms ws rs F) (\<lambda>(out, F).
    Inr (out, close_pods J fin ks 3 F)))"

subsection \<open>The setup\<close>

abbreviation (input) chat_calm :: "Json \<Rightarrow> Conversation Codec \<Rightarrow> (string \<rightharpoonup> Conversation entry) \<Rightarrow> chat_fleet \<Rightarrow> bool" where
  "chat_calm J jc d F \<equiv> calm J jc no_conversation conversations d F"

definition chat_pod :: "Conversation Codec \<Rightarrow> string \<Rightarrow> Conversation store" where
  "chat_pod jc i = apply_options [OptNodeID i, OptErrorHandler True] (default_store no_conversation jc conversations)"

lemma chat_pod_simps:
  "i \<noteq> '''' \<Longrightarrow> s_nodeID (chat_pod jc i) = i" "s_merger (chat_pod jc i) = None" "s_codec (chat_pod jc i) = jc"
  "i \<noteq> '''' \<Longrightarrow> pod_id (chat_pod jc i) = (0, i, jc, None, no_conversation, conversations, False)"
  by (simp_all add: chat_pod_def apply_options_def option_defs default_store_def pod_id_def)

lemma chat_mustNew_joins:
  assumes "fleet_start mem_up m_subs mem_queue J jc no_conversation conversations F"
    and "m_snapshots (fl_tr F) conversations = None"
    and "i \<noteq> ''''" "valid_utf8 i" "i \<notin> s_nodeID ` set (fl_pods F)"
  shows "\<exists>F'. chat_mustNew jc J rid i F = Inr F' \<and> fl_pods F' = fl_pods F @ [chat_pod jc i] \<and>
    fleet_start mem_up m_subs mem_queue J jc no_conversation conversations F' \<and>
    m_snapshots (fl_tr F') conversations = None"
  using fleet_new_joins [OF assms(1,2), where opts = "[OptNodeID i, OptErrorHandler True]" and rid = rid]
    assms(3-5) chat_pod_simps(1-3) [unfolded chat_pod_def]
  by (auto simp: chat_mustNew_def chat_pod_def conversations_def)

lemma chat_setup_ok:
  assumes "json_msg_roundtrip J" "codec_roundtrip jc"
  shows "\<exists>F. chat_setup jc J rid = Inr F \<and> chat_calm J jc Map.empty F \<and>
    fl_pods F = [chat_pod jc ''chat-pod-a'', chat_pod jc ''chat-pod-b'', chat_pod jc ''chat-pod-c'']"
proof -
  let ?N = "no_pods (NewMemoryTransport False) :: chat_fleet"
  have u: "valid_utf8 ''chat-pod-a''" "valid_utf8 ''chat-pod-b''" "valid_utf8 ''chat-pod-c''"
    by (simp_all add: valid_utf8_def of_char_def)
  have N: "fl_pods ?N = []" by (simp add: no_pods_def)
  note n0 = no_pods_start [OF assms, where z = no_conversation and topic = conversations and b = False]
  obtain A where A: "chat_mustNew jc J rid ''chat-pod-a'' ?N = Inr A" "fl_pods A = [chat_pod jc ''chat-pod-a'']"
    and sA: "fleet_start mem_up m_subs mem_queue J jc no_conversation conversations A"
      "m_snapshots (fl_tr A) conversations = None"
    using chat_mustNew_joins [OF conjunct1 [OF n0] conjunct2 [OF n0] _ u(1), of rid] N by auto
  obtain B where B: "chat_mustNew jc J rid ''chat-pod-b'' A = Inr B"
      "fl_pods B = [chat_pod jc ''chat-pod-a'', chat_pod jc ''chat-pod-b'']"
    and sB: "fleet_start mem_up m_subs mem_queue J jc no_conversation conversations B"
      "m_snapshots (fl_tr B) conversations = None"
    using chat_mustNew_joins [OF sA _ u(2), of rid] A(2) by (auto simp: chat_pod_simps)
  obtain C where C: "chat_mustNew jc J rid ''chat-pod-c'' B = Inr C"
      "fl_pods C = [chat_pod jc ''chat-pod-a'', chat_pod jc ''chat-pod-b'', chat_pod jc ''chat-pod-c'']"
    and sC: "fleet_start mem_up m_subs mem_queue J jc no_conversation conversations C"
    using chat_mustNew_joins [OF sB _ u(3), of rid] B(2) by (auto simp: chat_pod_simps)
  show ?thesis using A(1) B(1) C calm_start [OF sC] by (simp add: chat_setup_def)
qed

subsection \<open>The turns\<close>

text \<open>Between two statements of \<^verbatim>\<open>main\<close>: the replicas hold \<open>d\<close> and the owner has written \<open>q\<close> times.\<close>

abbreviation (input) chat_state :: "Json \<Rightarrow> Conversation Codec \<Rightarrow> (string \<rightharpoonup> Conversation entry) \<Rightarrow> uint64 \<Rightarrow> chat_fleet \<Rightarrow> bool" where
  "chat_state J jc d q F \<equiv> owned J jc no_conversation conversations 3 ''chat-pod-a'' d q F"

subsection \<open>Properties\<close>

text \<open>
  C12. The chat cache does what its comments say. When the conversations and the
  messages can be encoded and decoded and the owner's clock does not go back, the program ends without \<^verbatim>\<open>log.Fatal\<close>: it prints
  that the second and the third pod find the conversation of the first with its two messages, then
  the conversation of four messages as the second pod holds it, and that the third pod finds
  nothing after the delete.
\<close>

theorem chat_cache_runs:
  assumes J: "json_msg_roundtrip J" "codec_roundtrip jc"
    and p: "Marshal jc (turn1 m1 m2) = Inr p1" "Marshal jc (turn3 m3 m4 (turn1 m1 m2)) = Inr p2"
    and enc: "\<forall>m. wm_Timestamp m \<in> {w1, w2, w3} \<longrightarrow> (\<exists>raw. marshalMsg J m = Inr raw)"
    and clock: "w1 \<le> w2" "w2 \<le> w3"
  shows "\<exists>F. chat_main jc J rid (m1, m2, m3, m4) (w1, w2, w3) rs fin ks =
    Inr ([CacheHit ''pod-b'' 2, CacheHit ''pod-c'' 2,
          FullConversation ''pod-b'' (turn3 m3 m4 (turn1 m1 m2)), Evicted ''pod-c''], F)"
proof -
  obtain r1 r2 r3 where rs: "rs = (r1, r2, r3)" by (cases rs)
  have k: "valid_utf8 convID" by (simp add: convID_def valid_utf8_def of_char_def)
  have kinds: "kindSet \<noteq> kindDelete" by (simp add: kindSet_def kindDelete_def)
  have en: "\<forall>m. wm_Timestamp m = w1 \<longrightarrow> (\<exists>raw. marshalMsg J m = Inr raw)"
    "\<forall>m. wm_Timestamp m = w2 \<longrightarrow> (\<exists>raw. marshalMsg J m = Inr raw)"
    "\<forall>m. wm_Timestamp m = w3 \<longrightarrow> (\<exists>raw. marshalMsg J m = Inr raw)"
    using enc by simp_all
  obtain F0 where F0: "chat_setup jc J rid = Inr F0" "chat_state J jc Map.empty 0 F0"
    using chat_setup_ok [OF J, of rid] by (auto simp: owned_def chat_pod_simps)
  let ?T1 = "turn1 m1 m2" and ?T3 = "turn3 m3 m4 (turn1 m1 m2)"
  obtain F1 n1 where F1: "fleet_write memory_transport J w1 0 (PodSet convID ?T1) F0 = (None, F1)"
      "chat_state J jc [convID \<mapsto> msg_entry n1 ?T1] 1 (settle mem_recv mem_queue J r1 F1)"
    and n1: "msg_stamp n1 = Stamp w1 ''chat-pod-a'' 1" "wm_Kind n1 = kindSet"
    using owned_Set [OF F0(2) _ k p(1) en(1), of r1] by auto
  obtain F2 where F2: "fleet_get (Suc 0) convID (settle mem_recv mem_queue J r1 F1) = ((?T1, True), F2)"
      "chat_state J jc [convID \<mapsto> msg_entry n1 ?T1] 1 F2"
    using owned_get [OF F1(2), of "Suc 0" convID] n1 kinds by auto
  obtain F3 where F3: "fleet_get 2 convID F2 = ((?T1, True), F3)" "chat_state J jc [convID \<mapsto> msg_entry n1 ?T1] 1 F3"
    using owned_get [OF F2(2), of 2 convID] n1 kinds by auto
  have b2: "beats (Stamp w2 ''chat-pod-a'' (1 + 1)) ([convID \<mapsto> msg_entry n1 ?T1] convID)"
    using clock(1) by (auto simp: n1 less_stamp_def)
  obtain F4 n2 where F4: "fleet_write memory_transport J w2 0 (PodSet convID ?T3) F3 = (None, F4)"
      "chat_state J jc [convID \<mapsto> msg_entry n2 ?T3] 2 (settle mem_recv mem_queue J r2 F4)"
    and n2: "msg_stamp n2 = Stamp w2 ''chat-pod-a'' 2" "wm_Kind n2 = kindSet"
    using owned_Set [OF F3(2) _ k p(2) en(2) b2, of r2] by (auto simp del: fun_upd_apply)
  obtain F5 where F5: "fleet_get (Suc 0) convID (settle mem_recv mem_queue J r2 F4) = ((?T3, True), F5)"
      "chat_state J jc [convID \<mapsto> msg_entry n2 ?T3] 2 F5"
    using owned_get [OF F4(2), of "Suc 0" convID] n2 kinds by auto
  have b3: "beats (Stamp w3 ''chat-pod-a'' (2 + 1)) ([convID \<mapsto> msg_entry n2 ?T3] convID)"
    using clock(2) by (auto simp: n2 less_stamp_def)
  obtain F6 n3 where F6: "fleet_write memory_transport J w3 0 (PodDelete convID) F5 = (None, F6)"
      "chat_state J jc [convID \<mapsto> msg_entry n3 no_conversation] 3 (settle mem_recv mem_queue J r3 F6)"
      "wm_Kind n3 = kindDelete"
    using owned_Delete [OF F5(2) _ k en(3) b3, of r3] by (auto simp del: fun_upd_apply)
  obtain F7 where F7: "fleet_get 2 convID (settle mem_recv mem_queue J r3 F6) = ((no_conversation, False), F7)"
    using owned_get [OF F6(2), of 2 convID] F6(3) by auto
  have id: "cv_ID (turn1 m1 m2) = convID" "cv_ID (turn3 m3 m4 (turn1 m1 m2)) = convID"
    "length (cv_Messages (turn1 m1 m2)) = 2"
    by (simp_all add: turn1_def turn3_def)
  show ?thesis
    by (simp add: chat_main_def F0(1) chat_turns_def rs id chat_must_def cache_hit_def F1(1) F2(1) F3(1) F4(1)
        F5(1) F6(1) F7 Let_def)
qed

text \<open>A concrete codec of conversations.\<close>

definition put_message :: "Message \<Rightarrow> bytes" where
  "put_message m = put_bytes (str_bytes (msg_ID m)) @ put_bytes (str_bytes (msg_Role m)) @
    put_bytes (str_bytes (msg_Content m)) @ put_int (msg_Timestamp m)"

definition get_message :: "bytes \<Rightarrow> (Message \<times> bytes) option" where
  "get_message r0 =
    Option.bind (get_bytes r0) (\<lambda>(i, r1).
    Option.bind (get_bytes r1) (\<lambda>(role, r2).
    Option.bind (get_bytes r2) (\<lambda>(content, r3).
    Option.bind (get_int r3) (\<lambda>(ts, r4).
      Some (\<lparr>msg_ID = bytes_str i, msg_Role = bytes_str role, msg_Content = bytes_str content,
             msg_Timestamp = ts\<rparr>, r4)))))"

fun get_messages :: "nat \<Rightarrow> bytes \<Rightarrow> (Message list) option" where
  "get_messages 0 r = Some []"
| "get_messages (Suc n) r = Option.bind (get_message r) (\<lambda>(m, r'). map_option ((#) m) (get_messages n r'))"

lemma get_put_messages [simp]: "get_messages (length ms) (concat (map put_message ms)) = Some ms"
  by (induction ms) (simp_all add: get_message_def put_message_def)

definition sample_chat_codec :: "Conversation Codec" where
  "sample_chat_codec =
    \<lparr>Marshal = (\<lambda>c. Inr (put_bytes (str_bytes (cv_ID c)) @ put_bytes (str_bytes (cv_UserID c)) @
       put_nat (length (cv_Messages c)) @ concat (map put_message (cv_Messages c)))),
     Unmarshal = (\<lambda>b. or_bad (
       Option.bind (get_bytes b) (\<lambda>(i, r1).
       Option.bind (get_bytes r1) (\<lambda>(u, r2).
       Option.bind (get_nat r2) (\<lambda>(n, r3).
       Option.bind (get_messages n r3) (\<lambda>ms.
         Some \<lparr>cv_ID = bytes_str i, cv_UserID = bytes_str u, cv_Messages = ms\<rparr>))))))\<rparr>"

lemma sample_chat_codec_roundtrip: "codec_roundtrip sample_chat_codec"
  by (auto simp: codec_roundtrip_def sample_chat_codec_def or_bad_def)

theorem chat_cache_runs_witness:
  "\<exists>F. chat_main sample_chat_codec sample_json (Inr ''id'') (1, 2, 5, 6) (3, 7, 9) (4, 8, 10) 11 (\<lambda>_. [convID]) =
    Inr ([CacheHit ''pod-b'' 2, CacheHit ''pod-c'' 2,
          FullConversation ''pod-b'' (turn3 5 6 (turn1 1 2)), Evicted ''pod-c''], F)"
proof -
  obtain p1 p2 where "Marshal sample_chat_codec (turn1 1 2) = Inr p1"
      "Marshal sample_chat_codec (turn3 5 6 (turn1 1 2)) = Inr p2"
    by (simp add: sample_chat_codec_def)
  from chat_cache_runs [OF sample_json_msg sample_chat_codec_roundtrip this, of 3 7 9] show ?thesis
    by simp
qed

end
