(* ===== verification/Web_Demo.thy ===== *)
theory Web_Demo
  imports Fleet Lifecycle
begin

section \<open>The web demo\<close>

text \<open>
  \<^verbatim>\<open>examples/web/main.go\<close>: three pods of one process, each behind an HTTP server of its own. A
  handler is a function of the decoded request and the fleet; pod \<open>i\<close> of the list \<^verbatim>\<open>pods\<close> has the
  store \<open>fl_pods F ! i\<close>. The JSON decoder of the requests is an argument (\<open>dec\<close>), the JSON written
  into an answer is the value that is encoded, and the page is the data given to its template.
\<close>

record Item =
  it_Description :: string
  it_Counter :: int64
  it_UpdatedAt :: time

record web_pod =
  pd_ID :: string
  pd_Port :: int
  pd_Color :: string

record peerInfo =
  pi_ID :: string
  pi_Port :: int
  pi_Color :: string

type_synonym web_fleet = "(Item, MemoryTransport) fleet"

datatype sse_frame = Hello string | Change string string Item string time

datatype web_body =
    NoBody
  | ErrorText string
  | ErrorOf goerror
  | StateJson string "string \<rightharpoonup> Item"
  | StatsJson Stats
  | Page string int string "peerInfo list"

datatype response = Response (rs_status: nat) (rs_body: web_body)

abbreviation (input) StatusNoContent :: nat where "StatusNoContent \<equiv> 204"
abbreviation (input) StatusBadRequest :: nat where "StatusBadRequest \<equiv> 400"
abbreviation (input) StatusInternalServerError :: nat where "StatusInternalServerError \<equiv> 500"

subsection \<open>The pods\<close>

definition no_item :: Item where
  "no_item = \<lparr>it_Description = '''', it_Counter = 0, it_UpdatedAt = 0\<rparr>"

text \<open>The port from \<^verbatim>\<open>PORT_START\<close>: \<open>atoi\<close> is the value of the variable as a number, if it is one.\<close>

definition portStart :: "string \<Rightarrow> (string \<Rightarrow> int option) \<Rightarrow> int" where
  "portStart v atoi =
    (if v \<noteq> '''' then (case atoi v of Some n \<Rightarrow> if n > 0 then n else 9080 | None \<Rightarrow> 9080) else 9080)"

definition colors :: "string list" where "colors = [''teal'', ''purple'', ''amber'']"

definition podID :: "nat \<Rightarrow> string" where
  "podID i = ''pod-'' @ [char_of (of_char CHR ''1'' + i :: nat)]"

fun web_pods_loop :: "Item Codec \<Rightarrow> Json \<Rightarrow> goerror + string \<Rightarrow> int \<Rightarrow> nat list \<Rightarrow> web_pod list \<Rightarrow> web_fleet
    \<Rightarrow> goerror + web_pod list \<times> web_fleet" where
  "web_pods_loop jc J rid port [] pods F = Inr (pods, F)"
| "web_pods_loop jc J rid port (i # is) pods F =
    (case fleet_new no_item jc J rid ''web-demo'' [OptNodeID (podID i), OptErrorHandler True] memory_transport F of
       (Some e, _) \<Rightarrow> Inl e
     | (None, F') \<Rightarrow> web_pods_loop jc J rid port is
         (pods @ [\<lparr>pd_ID = podID i, pd_Port = port + int i, pd_Color = colors ! i\<rparr>]) F')"

definition web_setup :: "Item Codec \<Rightarrow> Json \<Rightarrow> goerror + string \<Rightarrow> int \<Rightarrow> goerror + web_pod list \<times> web_fleet" where
  "web_setup jc J rid port = web_pods_loop jc J rid port [0, 1, 2] [] (no_pods (NewMemoryTransport False))"

subsection \<open>The handlers\<close>

definition peers_of :: "web_pod list \<Rightarrow> web_pod \<Rightarrow> peerInfo list" where
  "peers_of pods p =
    map (\<lambda>q. \<lparr>pi_ID = pd_ID q, pi_Port = pd_Port q, pi_Color = pd_Color q\<rparr>)
      (filter (\<lambda>q. pd_ID q \<noteq> pd_ID p) pods)"

text \<open>\<open>exec\<close> is the outcome of executing the template.\<close>

definition indexHandler :: "web_pod list \<Rightarrow> web_pod \<Rightarrow> goerror option \<Rightarrow> response" where
  "indexHandler pods p exec =
    (case exec of
       Some e \<Rightarrow> Response StatusInternalServerError (ErrorOf e)
     | None \<Rightarrow> Response 200 (Page (pd_ID p) (pd_Port p) (pd_Color p) (peers_of pods p)))"

definition stateHandler :: "string list \<Rightarrow> web_pod \<Rightarrow> nat \<Rightarrow> web_fleet \<Rightarrow> response" where
  "stateHandler ks p i F = Response 200 (StateJson (pd_ID p) (Snapshot ks (fl_pods F ! i)))"

definition setHandler :: "('b \<Rightarrow> goerror + string \<times> Item) \<Rightarrow> Json \<Rightarrow> time \<Rightarrow> time \<Rightarrow> nat \<Rightarrow> 'b \<Rightarrow> web_fleet
    \<Rightarrow> response \<times> web_fleet" where
  "setHandler dec J stamp now i body F =
    (case dec body of
       Inl e \<Rightarrow> (Response StatusBadRequest (ErrorOf e), F)
     | Inr (key, value) \<Rightarrow>
         if key = '''' then (Response StatusBadRequest (ErrorText ''key required''), F)
         else
           (case fleet_write memory_transport J now i (PodSet key (value\<lparr>it_UpdatedAt := stamp\<rparr>)) F of
              (Some e, F') \<Rightarrow> (Response StatusInternalServerError (ErrorOf e), F')
            | (None, F') \<Rightarrow> (Response StatusNoContent NoBody, F')))"

definition deleteHandler :: "('b \<Rightarrow> goerror + string) \<Rightarrow> Json \<Rightarrow> time \<Rightarrow> nat \<Rightarrow> 'b \<Rightarrow> web_fleet
    \<Rightarrow> response \<times> web_fleet" where
  "deleteHandler dec J now i body F =
    (case dec body of
       Inl e \<Rightarrow> (Response StatusBadRequest (ErrorOf e), F)
     | Inr key \<Rightarrow>
         (case fleet_write memory_transport J now i (PodDelete key) F of
            (Some e, F') \<Rightarrow> (Response StatusInternalServerError (ErrorOf e), F')
          | (None, F') \<Rightarrow> (Response StatusNoContent NoBody, F')))"

definition statsHandler :: "nat \<Rightarrow> web_fleet \<Rightarrow> response" where
  "statsHandler i F = Response 200 (StatsJson (Stats_of (fl_pods F ! i)))"

text \<open>
  \<^verbatim>\<open>eventsSSEHandler\<close>: a writer that cannot flush gets an error; otherwise the stream opens with the
  pod's id and the handler watches the store without options. Each event it takes is one frame;
  it ends when the channel is closed or a write fails.
\<close>

definition sse_open :: "bool \<Rightarrow> web_pod \<Rightarrow> Item store \<Rightarrow> response + sse_frame list \<times> nat \<times> Item store" where
  "sse_open canFlush p s =
    (if \<not> canFlush then Inl (Response StatusInternalServerError (ErrorText ''streaming not supported''))
     else case Watch [] s of (w, s') \<Rightarrow> Inr ([Hello (pd_ID p)], w, s'))"

definition sse_change :: "Item Event \<Rightarrow> sse_frame" where
  "sse_change ev = Change (EventKind_String (ev_Kind ev)) (ev_Key ev) (ev_Value ev) (ev_Origin ev) (ev_Timestamp ev)"

text \<open>\<open>oks\<close> tells, event by event, whether the write to the client succeeds.\<close>

fun sse_loop :: "(Item Event \<times> bool) list \<Rightarrow> sse_frame list \<Rightarrow> sse_frame list" where
  "sse_loop [] out = out"
| "sse_loop ((ev, ok) # evs) out = (if \<not> ok then out else sse_loop evs (out @ [sse_change ev]))"

text \<open>The routes. A pattern with \<^verbatim>\<open>GET\<close> also serves \<^verbatim>\<open>HEAD\<close>; a known path asked with another verb gives 405.\<close>

datatype route = RouteIndex | RouteState | RouteSet | RouteDelete | RouteEvents | RouteStats

definition patterns :: "(string \<times> string \<times> route) list" where
  "patterns =
    [(''GET'', ''/'', RouteIndex), (''GET'', ''/api/state'', RouteState), (''POST'', ''/api/set'', RouteSet),
     (''POST'', ''/api/delete'', RouteDelete), (''GET'', ''/api/events'', RouteEvents),
     (''GET'', ''/api/stats'', RouteStats)]"

definition serves :: "string \<Rightarrow> string \<Rightarrow> bool" where
  "serves pat verb \<longleftrightarrow> verb = pat \<or> (pat = ''GET'' \<and> verb = ''HEAD'')"

definition routes :: "string \<Rightarrow> string \<Rightarrow> nat + route" where
  "routes verb path =
    (case filter (\<lambda>(v, p, r). p = path) patterns of
       [] \<Rightarrow> Inl 404
     | (v, p, r) # _ \<Rightarrow> if serves v verb then Inr r else Inl 405)"

subsection \<open>The setup\<close>

abbreviation (input) web_start :: "Json \<Rightarrow> Item Codec \<Rightarrow> web_fleet \<Rightarrow> bool" where
  "web_start J jc F \<equiv> fleet_start mem_up m_subs mem_queue J jc no_item ''web-demo'' F"

lemma podIDs: "podID 0 = ''pod-1''" "podID 1 = ''pod-2''" "podID (Suc 0) = ''pod-2''" "podID 2 = ''pod-3''"
  by code_simp+

lemma web_new_joins:
  assumes "web_start J jc F" "m_snapshots (fl_tr F) ''web-demo'' = None"
    and "i \<noteq> ''''" "valid_utf8 i" "i \<notin> s_nodeID ` set (fl_pods F)"
  shows "\<exists>F' s. fleet_new no_item jc J rid ''web-demo'' [OptNodeID i, OptErrorHandler True] memory_transport F = (None, F') \<and>
    fl_pods F' = fl_pods F @ [s] \<and> s_nodeID s = i \<and> \<not> s_closed s \<and> s_seq s = 0 \<and> watch_inv s \<and> web_start J jc F' \<and>
    m_snapshots (fl_tr F') ''web-demo'' = None"
proof -
  let ?s = "apply_options [OptNodeID i, OptErrorHandler True] (default_store no_item jc ''web-demo'')"
  have "s_nodeID ?s = i" "s_merger ?s = None" "s_codec ?s = jc" "\<not> s_closed ?s" "s_seq ?s = 0" "watch_inv ?s"
    using assms(3) by (simp_all add: apply_options_def option_defs default_store_def watch_inv_def)
  with fleet_new_joins [OF assms(1,2), where opts = "[OptNodeID i, OptErrorHandler True]" and rid = rid] assms(3-5)
  show ?thesis by auto
qed

lemma web_setup_ok:
  assumes "json_msg_roundtrip J" "codec_roundtrip jc"
  shows "\<exists>pods F. web_setup jc J rid port = Inr (pods, F) \<and> web_start J jc F \<and>
    map s_nodeID (fl_pods F) = [''pod-1'', ''pod-2'', ''pod-3''] \<and> (\<forall>s \<in> set (fl_pods F). \<not> s_closed s \<and> s_seq s = 0 \<and> watch_inv s) \<and>
    pods = [\<lparr>pd_ID = ''pod-1'', pd_Port = port, pd_Color = ''teal''\<rparr>,
            \<lparr>pd_ID = ''pod-2'', pd_Port = port + 1, pd_Color = ''purple''\<rparr>,
            \<lparr>pd_ID = ''pod-3'', pd_Port = port + 2, pd_Color = ''amber''\<rparr>]"
proof -
  let ?N = "no_pods (NewMemoryTransport False) :: web_fleet"
  let ?new = "\<lambda>i F. fleet_new no_item jc J rid ''web-demo'' [OptNodeID i, OptErrorHandler True] memory_transport F"
  have u: "valid_utf8 ''pod-1''" "valid_utf8 ''pod-2''" "valid_utf8 ''pod-3''"
    by (simp_all add: valid_utf8_def of_char_def)
  note n0 = no_pods_start [OF assms, where z = no_item and topic = "''web-demo''" and b = False]
  obtain A a where A: "?new ''pod-1'' ?N = (None, A)" "fl_pods A = [a]" "s_nodeID a = ''pod-1''" "\<not> s_closed a" "s_seq a = 0" "watch_inv a"
    and sA: "web_start J jc A" "m_snapshots (fl_tr A) ''web-demo'' = None"
    using web_new_joins [OF conjunct1 [OF n0] conjunct2 [OF n0] _ u(1), of rid] by (auto simp: no_pods_def)
  obtain B b where B: "?new ''pod-2'' A = (None, B)" "fl_pods B = [a, b]" "s_nodeID b = ''pod-2''" "\<not> s_closed b" "s_seq b = 0" "watch_inv b"
    and sB: "web_start J jc B" "m_snapshots (fl_tr B) ''web-demo'' = None"
    using web_new_joins [OF sA _ u(2), of rid] A by auto
  obtain C c where C: "?new ''pod-3'' B = (None, C)" "fl_pods C = [a, b, c]" "s_nodeID c = ''pod-3''" "\<not> s_closed c" "s_seq c = 0" "watch_inv c"
    and sC: "web_start J jc C"
    using web_new_joins [OF sB _ u(3), of rid] A B by auto
  show ?thesis using A B C sC by (simp add: web_setup_def podIDs colors_def)
qed

subsection \<open>Properties\<close>

text \<open>
  C10. The web demo: what is posted on one page is shown on all three. After the setup and any
  interleaving of the pods' writes, reads and receive loops, once the channels are empty: a request
  to \<^verbatim>\<open>/api/set\<close> on any pod with a key and an item that can be encoded, newer than what the pods hold,
  is answered 204; when the pods have handled their channels, \<^verbatim>\<open>/api/state\<close> on every pod shows the
  item under the key, with the time of the request, and the rest as before.
\<close>

theorem posted_item_is_shown_everywhere:
  assumes J: "json_msg_roundtrip J" "codec_roundtrip jc" and pods: "web_setup jc J rid port = Inr (pods, F0)"
    and reach: "fleet_reach memory_transport mem_recv mem_queue 256 J F0 F" "quiet mem_queue F"
    and i: "i < length (fl_pods F)" "s_seq (fl_pods F ! i) + 1 \<noteq> 0" and "\<not> s_closed (fl_pods F ! i)"
    and req: "dec body = Inr (k, v)" "k \<noteq> ''''" and k: "valid_utf8 k"
    and "Marshal jc (v\<lparr>it_UpdatedAt := stamp\<rparr>) = Inr payload"
    and "marshalMsg J (stamp_msg kindSet k payload now (fl_pods F ! i)) = Inr raw"
    and "beats (Stamp now (s_nodeID (fl_pods F ! i)) (s_seq (fl_pods F ! i) + 1)) (s_data (fl_pods F ! i) k)"
    and j: "j < length (fl_pods F)" and ks: "range_order ks (s_data (fl_pods F ! j))" "set ks' = insert k (set ks)" "distinct ks'"
  shows "\<exists>F1 F2. setHandler dec J stamp now i body F = (Response 204 NoBody, F1) \<and>
    settle mem_recv mem_queue J now' F1 = F2 \<and>
    stateHandler ks' p j F2 = Response 200 (StateJson (pd_ID p)
      ((Snapshot ks (fl_pods F ! j))(k \<mapsto> v\<lparr>it_UpdatedAt := stamp\<rparr>)))"
proof -
  have start: "web_start J jc F0" using web_setup_ok [OF J, of rid port] pods by auto
  note r = membus.running_reach [OF reach(1) start]
  have calm: "calm J jc no_item ''web-demo'' (s_data (fl_pods F ! i)) F" by (rule calm_agree [OF r reach(2) i(1)])
  let ?v = "v\<lparr>it_UpdatedAt := stamp\<rparr>"
  let ?d = "(s_data (fl_pods F ! i))(k \<mapsto> msg_entry (stamp_msg kindSet k payload now (fl_pods F ! i)) ?v)"
  obtain F1 where F1: "fleet_write memory_transport J now i (PodSet k ?v) F = (None, F1)"
    and calm2: "calm J jc no_item ''web-demo'' ?d (settle mem_recv mem_queue J now' F1)"
    using calm_Set [OF calm i assms(8) k assms(12-14), of now'] by auto
  let ?F2 = "settle mem_recv mem_queue J now' F1"
  have j2: "j < length (fl_pods ?F2)"
    using j fleet_write_frame [OF F1] map_eq_imp_length_eq [OF settle_pod_id] by metis
  have d: "s_data (fl_pods ?F2 ! j) = ?d" "s_data (fl_pods F ! i) = s_data (fl_pods F ! j)"
    using calm2 calm j j2 by (simp_all add: calm_def)
  have "Snapshot ks' (fl_pods ?F2 ! j) = (Snapshot ks (fl_pods F ! j))(k \<mapsto> ?v)"
  proof
    fix k'
    have "k' \<in> set ks \<or> s_data (fl_pods F ! j) k' = None" using ks(1) by (auto simp: range_order_def)
    then show "Snapshot ks' (fl_pods ?F2 ! j) k' = ((Snapshot ks (fl_pods F ! j))(k \<mapsto> ?v)) k'"
      using ks by (auto simp: Snapshot_def Snapshot_loop_view range_order_def d prev_live_def)
  qed
  with F1 req show ?thesis by (simp add: setHandler_def stateHandler_def)
qed

text \<open>A concrete codec of items.\<close>

definition sample_item_codec :: "Item Codec" where
  "sample_item_codec =
    \<lparr>Marshal = (\<lambda>v. Inr (put_bytes (str_bytes (it_Description v)) @ put_nat (unat (it_Counter v)) @
       put_int (it_UpdatedAt v))),
     Unmarshal = (\<lambda>b. or_bad (
       Option.bind (get_bytes b) (\<lambda>(d, r1).
       Option.bind (get_nat r1) (\<lambda>(n, r2).
       Option.bind (get_int r2) (\<lambda>(u, r3).
         Some \<lparr>it_Description = bytes_str d, it_Counter = of_nat n, it_UpdatedAt = u\<rparr>)))))\<rparr>"

lemma sample_item_codec_roundtrip: "codec_roundtrip sample_item_codec"
proof -
  have "get_int (put_int i) = Some (i, [])" for i using get_put_int [of i "[]"] by simp
  then show ?thesis by (auto simp: codec_roundtrip_def sample_item_codec_def or_bad_def)
qed

definition sample_item :: Item where
  "sample_item = \<lparr>it_Description = ''x'', it_Counter = 3, it_UpdatedAt = 0\<rparr>"

theorem posted_item_is_shown_everywhere_witness:
  "\<exists>pods F0 F1 F2. web_setup sample_item_codec sample_json (Inr ''id'') 9080 = Inr (pods, F0) \<and>
     setHandler (\<lambda>_. Inr (''k'', sample_item)) sample_json 4 5 0 () F0 = (Response 204 NoBody, F1) \<and>
     settle mem_recv mem_queue sample_json 6 F1 = F2 \<and>
     stateHandler [''k''] (pods ! 2) 2 F2 = Response 200 (StateJson ''pod-3'' [''k'' \<mapsto> sample_item\<lparr>it_UpdatedAt := 4\<rparr>])"
proof -
  obtain pods F0 where F0: "web_setup sample_item_codec sample_json (Inr ''id'') 9080 = Inr (pods, F0)"
    and st: "web_start sample_json sample_item_codec F0"
    and ids: "map s_nodeID (fl_pods F0) = [''pod-1'', ''pod-2'', ''pod-3'']"
      "\<forall>s \<in> set (fl_pods F0). \<not> s_closed s \<and> s_seq s = 0 \<and> watch_inv s" and pd: "pd_ID (pods ! 2) = ''pod-3''"
    using web_setup_ok [OF sample_json_msg sample_item_codec_roundtrip, of "Inr ''id''" 9080] by auto
  have len: "length (fl_pods F0) = 3" using arg_cong [OF ids(1), of length] by simp
  have data: "s_data (fl_pods F0 ! i) = Map.empty" "\<not> s_closed (fl_pods F0 ! i)" "s_seq (fl_pods F0 ! i) = 0"
    if "i < 3" for i
    using st ids(2) that len by (simp_all add: fleet_start_def)
  obtain payload where p: "Marshal sample_item_codec (sample_item\<lparr>it_UpdatedAt := 4\<rparr>) = Inr payload"
    by (simp add: sample_item_codec_def)
  have q: "quiet mem_queue F0" using st by (simp add: fleet_start_def)
  have k: "valid_utf8 ''k''" by (simp add: valid_utf8_def of_char_def)
  have two: "(2 :: nat) < length (fl_pods F0)" "0 < length (fl_pods F0)" using len by simp_all
  have 0: "s_seq (fl_pods F0 ! 0) + 1 \<noteq> 0" "\<not> s_closed (fl_pods F0 ! 0)"
    "beats (Stamp 5 (s_nodeID (fl_pods F0 ! 0)) (s_seq (fl_pods F0 ! 0) + 1)) (s_data (fl_pods F0 ! 0) ''k'')"
    using data [of 0] by simp_all
  have ks: "range_order [] (s_data (fl_pods F0 ! 2))" using data [of 2] by (simp add: range_order_def)
  have m: "marshalMsg sample_json (stamp_msg kindSet ''k'' payload 5 (fl_pods F0 ! 0)) =
      Inr (sample_marshalMsg (stamp_msg kindSet ''k'' payload 5 (fl_pods F0 ! 0)))" by simp
  from posted_item_is_shown_everywhere [OF sample_json_msg sample_item_codec_roundtrip F0 fleet_reach.here q
      two(2) 0(1,2) _ _ k p m 0(3) two(1) ks, where dec = "\<lambda>_. Inr (''k'', sample_item)" and body = "()" and ks' = "[''k'']"
        and now' = 6 and p = "pods ! 2"]
  obtain F1 F2 where "setHandler (\<lambda>_. Inr (''k'', sample_item)) sample_json 4 5 0 () F0 = (Response 204 NoBody, F1)"
      "settle mem_recv mem_queue sample_json 6 F1 = F2"
      "stateHandler [''k''] (pods ! 2) 2 F2 = Response 200 (StateJson (pd_ID (pods ! 2))
        ((Snapshot [] (fl_pods F0 ! 2))(''k'' \<mapsto> sample_item\<lparr>it_UpdatedAt := 4\<rparr>)))"
    by auto
  then show ?thesis using F0 pd by (simp add: Snapshot_def)
qed

text \<open>
  What the handlers refuse. A body that cannot be decoded and, for \<^verbatim>\<open>/api/set\<close>, an empty key are
  answered 400 and change nothing; a store that is closed is answered 500.
\<close>

theorem handlers_refuse:
  "dec body = Inl e \<Longrightarrow> setHandler dec J stamp now i body F = (Response 400 (ErrorOf e), F)"
  "dec body = Inr ('''', v) \<Longrightarrow> setHandler dec J stamp now i body F = (Response 400 (ErrorText ''key required''), F)"
  "dec' body = Inl e \<Longrightarrow> deleteHandler dec' J now i body F = (Response 400 (ErrorOf e), F)"
  "s_closed (fl_pods F ! i) \<Longrightarrow> dec' body = Inr k \<Longrightarrow>
     rs_status (fst (deleteHandler dec' J now i body F)) = 500"
  by (simp_all add: setHandler_def deleteHandler_def fleet_write_def Delete_eq)

text \<open>
  \<^verbatim>\<open>deleteHandler\<close> does not check its key as \<^verbatim>\<open>setHandler\<close> does. A body without a key decodes to the
  empty key; the request is answered 204 and, if its stamp is the newest, every pod keeps a tombstone under the empty
  key from then on.
\<close>

theorem delete_takes_an_empty_key:
  assumes calm: "calm J jc no_item ''web-demo'' d F" and i: "i < length (fl_pods F)"
    and "s_seq (fl_pods F ! i) + 1 \<noteq> 0" "\<not> s_closed (fl_pods F ! i)" "dec body = Inr ''''"
    and "marshalMsg J (stamp_msg kindDelete '''' [] now (fl_pods F ! i)) = Inr raw"
    and "beats (Stamp now (s_nodeID (fl_pods F ! i)) (s_seq (fl_pods F ! i) + 1)) (d '''')"
  shows "\<exists>F1 e. deleteHandler dec J now i body F = (Response 204 NoBody, F1) \<and>
    calm J jc no_item ''web-demo'' (d('''' \<mapsto> e)) (settle mem_recv mem_queue J now' F1) \<and> e_Tombstone e"
proof -
  have "valid_utf8 ''''" by (simp add: valid_utf8_def)
  let ?e = "msg_entry (stamp_msg kindDelete '''' [] now (fl_pods F ! i)) no_item"
  from calm_Delete [OF calm i assms(3,4) \<open>valid_utf8 ''''\<close> assms(6,7), of now'] obtain F1 where
      "fleet_write memory_transport J now i (PodDelete '''') F = (None, F1)"
      "calm J jc no_item ''web-demo'' (d('''' \<mapsto> ?e)) (settle mem_recv mem_queue J now' F1)" by blast
  with assms(5) show ?thesis by (intro exI [of _ F1] exI [of _ ?e]) (simp add: deleteHandler_def)
qed

text \<open>Each page links to the other two pods, in the order of their ports.\<close>

theorem pages_link_to_the_others:
  assumes "json_msg_roundtrip J" "codec_roundtrip jc" "web_setup jc J rid port = Inr (pods, F)" "i < 3"
  shows "map pi_Port (peers_of pods (pods ! i)) = filter (\<lambda>q. q \<noteq> port + int i) [port, port + 1, port + 2]"
proof -
  have "i = 0 \<or> i = 1 \<or> i = 2" using assms(4) by auto
  with web_setup_ok [OF assms(1,2), of rid port] assms(3) show ?thesis by (auto simp: peers_of_def)
qed

end
