(* ===== verification/Fleet_Watch.thy ===== *)
theory Fleet_Watch
  imports Fleet Lifecycle
begin

section \<open>Goroutines that watch a pod of a fleet\<close>

text \<open>
  A goroutine that ranges over \<^verbatim>\<open>Watch\<close> of a pod that another pod writes to: it calls \<^verbatim>\<open>Watch\<close>, blocks on the empty
  channel, is handed the event of every message the pod accepts, and blocks again. None of this touches
  the map of the pod.
\<close>

subsection \<open>What an accepted message does to the watchers of a pod without a merger\<close>

lemma message_reaches_watcher:
  fixes s :: "'v store" and r :: time and v :: 'v
  assumes inv: "watch_inv s" and "s_merger s = None" "beats (msg_stamp m) (s_data s (wm_Key m))"
  defines "s' \<equiv> snd (applyMessage m v (check_skew r m s))"
  shows "watch_inv s'" "s_watchers s = [] \<Longrightarrow> s_watchers s' = []"
    "s_watchers s = [i] \<Longrightarrow> w_buf (s_wheap s i) = [] \<Longrightarrow> w_filter (s_wheap s i) = None \<Longrightarrow>
       0 < w_waiting (s_wheap s i) \<Longrightarrow>
     s_watchers s' = [i] \<and> s_wheap s' i = (s_wheap s i)\<lparr>w_buf := [msg_event m v]\<rparr>"
proof -
  let ?p = "put_entry (wm_Key m) (msg_entry m v) (check_skew r m s)"
  have skew: "s_watchers (check_skew r m s) = s_watchers s" "s_wheap (check_skew r m s) = s_wheap s"
      "s_nextw (check_skew r m s) = s_nextw s" "s_panic (check_skew r m s) = s_panic s"
    by (simp_all add: check_skew_def reportError_def Let_def)
  have s': "s' = dispatch (msg_event m v) ?p"
    unfolding s'_def using assms(2,3) by (subst applyMessage_put) (simp_all add: stored_value_def)
  have p: "s_watchers ?p = s_watchers s" "s_wheap ?p = s_wheap s" "watch_inv ?p"
    using inv skew by (simp_all add: put_entry_def store_defs Let_def watch_inv_def)
  note sp = dispatch_spec [OF p(3), of "msg_event m v"]
  show "watch_inv s'" using p(3) unfolding s' by (rule dispatch_inv)
  show "s_watchers s = [] \<Longrightarrow> s_watchers s' = []" using sp p by (simp add: s')
  show "s_watchers s' = [i] \<and> s_wheap s' i = (s_wheap s i)\<lparr>w_buf := [msg_event m v]\<rparr>"
    if "s_watchers s = [i]" "w_buf (s_wheap s i) = []" "w_filter (s_wheap s i) = None" "0 < w_waiting (s_wheap s i)"
    using sp p that by (simp add: s' deliver_def overflows_def accepts_def chan_room_def)
qed

subsection \<open>The goroutine\<close>

lemma owned_local:
  assumes "owned J c z topic n a d q F" "i < n" "same_pod (fl_pods F ! i) s'"
  shows "owned J c z topic n a d q (fleet_local i s' F)"
  using calm_local [of J c z topic d F i s'] owned_pod_id [of "fleet_local i s' F" F J c z topic n a d q d] assms
  by (simp add: owned_def)

lemma set_watcher_same_pod: "same_pod s (set_watcher i w s)"
  by (simp add: same_pod_def pod_id_def set_watcher_def)

lemma same_pod_trans: "same_pod s s1 \<Longrightarrow> same_pod s1 s2 \<Longrightarrow> same_pod s s2"
  by (simp add: same_pod_def)

lemma watch_recv_same_pod: "same_pod s (snd (watch_recv ch s))"
  by (auto simp: watch_recv_def same_pod_def pod_id_def set_watcher_def split: list.split)

lemma Watch_same_pod: "same_pod s (snd (Watch opts s))"
  by (simp add: Watch_def Let_def isClosed_def set_watcher_def same_pod_def pod_id_def)

text \<open>The goroutine of watcher \<open>i\<close>, the only one of its store, waits for an event.\<close>

definition blocked :: "nat \<Rightarrow> 'v store \<Rightarrow> bool" where
  "blocked i s \<longleftrightarrow> watch_inv s \<and> \<not> s_closed s \<and> s_watchers s = [i] \<and> w_buf (s_wheap s i) = [] \<and>
     w_filter (s_wheap s i) = None \<and> w_waiting (s_wheap s i) = 1"

definition watching :: "nat \<Rightarrow> 'v Event \<Rightarrow> 'v store \<Rightarrow> bool" where
  "watching i ev s \<longleftrightarrow> watch_inv s \<and> \<not> s_closed s \<and> s_watchers s = [i] \<and> w_buf (s_wheap s i) = [ev] \<and>
     w_filter (s_wheap s i) = None \<and> w_waiting (s_wheap s i) = 1"

lemma Watch_blocks:
  assumes "watch_inv s" "\<not> s_closed s" "s_watchers s = []"
  shows "\<exists>s1 s2. Watch [] s = (s_nextw s, s1) \<and> watch_recv (s_nextw s) s1 = (None, s2) \<and> blocked (s_nextw s) s2 \<and> same_pod s s2"
proof -
  let ?i = "s_nextw s" and ?w = "new_watcher s []"
  obtain s1 where W: "Watch [] s = (?i, s1)" "s_watchers s1 = [?i]" "s_wheap s1 ?i = ?w" "same_pod s s1" "watch_inv s1"
    using assms Watch_inv [OF assms(1), of "[]"]
    by (simp add: Watch_def Let_def isClosed_def set_watcher_def same_pod_def pod_id_def)
  let ?s2 = "set_watcher ?i (?w\<lparr>w_waiting := 1\<rparr>) s1"
  have wn: "w_buf ?w = []" "w_filter ?w = None" "w_waiting ?w = 0" "\<not> w_closed ?w" by (simp_all add: new_watcher_def)
  have r: "watch_recv ?i s1 = (None, ?s2)" using W wn by (simp add: watch_recv_def)
  have sp: "same_pod s ?s2" by (rule same_pod_trans [OF W(4) set_watcher_same_pod])
  have "watch_inv ?s2" using watch_recv_inv [OF W(5), of ?i] r by simp
  moreover have "s_closed ?s2 = s_closed s" using sp by (simp add: same_pod_def pod_id_def)
  ultimately have "blocked ?i ?s2" using W(2,3) wn assms(2) by (simp add: blocked_def)
  with W(1) r sp show ?thesis by blast
qed

lemma message_wakes:
  assumes "blocked i s" "s_merger s = None" "beats (msg_stamp m) (s_data s (wm_Key m))"
  shows "watching i (msg_event m v) (snd (applyMessage m v (check_skew r m s)))"
proof -
  have "watch_inv s" using assms(1) by (simp add: blocked_def)
  note t = message_reaches_watcher [OF this assms(2,3), where v = v and r = r]
  have "\<not> s_closed (snd (applyMessage m v (check_skew r m s)))"
    using assms(1) by (simp add: blocked_def check_skew_def reportError_def Let_def)
  with t assms(1) show ?thesis by (simp add: watching_def blocked_def)
qed

lemma take_blocks:
  assumes "watching i ev s"
  shows "\<exists>s1 s2. watch_recv i s = (Some ev, s1) \<and> watch_recv i s1 = (None, s2) \<and> blocked i s2 \<and> same_pod s s2"
proof -
  let ?w = "s_wheap s i"
  let ?s1 = "set_watcher i (?w\<lparr>w_buf := [], w_waiting := 0\<rparr>) s"
  let ?s2 = "set_watcher i (?w\<lparr>w_buf := [], w_waiting := 1\<rparr>) ?s1"
  have i: "watch_inv s" "s_watchers s = [i]" "w_buf ?w = [ev]" "w_waiting ?w = 1" using assms by (simp_all add: watching_def)
  have r1: "watch_recv i s = (Some ev, ?s1)" using i by (simp add: watch_recv_def)
  have "\<not> w_closed ?w" using i(1,2) by (simp add: watch_inv_def)
  then have r2: "watch_recv i ?s1 = (None, ?s2)" by (simp add: watch_recv_def set_watcher_def)
  have sp: "same_pod s ?s2" by (rule same_pod_trans [OF set_watcher_same_pod set_watcher_same_pod])
  have "watch_inv ?s1" using watch_recv_inv [OF i(1), of i] r1 by simp
  then have "watch_inv ?s2" using watch_recv_inv [of ?s1 i] r2 by simp
  then have "blocked i ?s2" using assms by (simp add: watching_def blocked_def set_watcher_def)
  with r1 r2 sp show ?thesis by blast
qed

subsection \<open>The end of the loop\<close>

text \<open>
  A loop over the channel of watcher \<open>i\<close> ends when the channel is closed and empty. The goroutine may come to
  call \<^verbatim>\<open>Watch\<close> only when the store is already closed: it is then given a closed channel.
\<close>

definition range_ends :: "nat \<Rightarrow> 'v store \<Rightarrow> bool" where
  "range_ends i s \<longleftrightarrow> w_buf (s_wheap s i) = [] \<and> w_closed (s_wheap s i)"

definition watch_ends :: "nat option \<Rightarrow> 'v store \<Rightarrow> bool" where
  "watch_ends ch s =
    (case ch of
       Some i \<Rightarrow> range_ends i s
     | None \<Rightarrow> (case Watch [] s of (i, s') \<Rightarrow> range_ends i s'))"

lemma Close_closes_watches:
  assumes s: "watch_inv s" "\<not> s_closed s" and c: "Close T J now ks s t = (err, s', t')"
  shows "s_watchers s' = [] \<and> \<not> s_panic s' \<and>
    s_wheap s' = (\<lambda>i. if i \<in> set (s_watchers s) then (s_wheap s i)\<lparr>w_closed := True, w_cancelled := True\<rparr> else s_wheap s i)"
proof -
  let ?s2 = "fold removeWatcher (s_watchers s) (s\<lparr>s_closed := True\<rparr>)"
  have b: "watch_inv (s\<lparr>s_closed := True\<rparr>)" "distinct (s_watchers s)" using s(1) by (simp_all add: watch_inv_def)
  have r: "s_watchers ?s2 = []" "watch_inv ?s2"
      "s_wheap ?s2 = (\<lambda>i. if i \<in> set (s_watchers s) then (s_wheap s i)\<lparr>w_closed := True, w_cancelled := True\<rparr> else s_wheap s i)"
    using remove_all_effect [OF b(1) _ b(2)] by (simp_all cong: if_cong)
  obtain s3 t3 where f: "finalFlush T J now ks ?s2 t = (s3, t3)" by (metis prod.exhaust)
  have "s' = s3" using c f finalFlush_frame [OF f] r(1) s(2)
    by (simp add: Close_def CloseWithContext_def isClosed_def)
  then show ?thesis using finalFlush_frame [OF f] r by (simp add: watch_inv_def)
qed

lemma Close_ends_range:
  assumes "blocked i s" "Close T J now ks s t = (err, s', t')"
  shows "range_ends i s'"
  using Close_closes_watches [OF _ _ assms(2)] assms(1) by (simp add: blocked_def range_ends_def)

lemma Watch_closed_ends: "s_closed s \<Longrightarrow> watch_ends None s"
  by (simp add: watch_ends_def range_ends_def Watch_def isClosed_def new_watcher_def set_watcher_def Let_def)

text \<open>Closing two pods ends the goroutine that watches, or comes to watch, the second.\<close>

lemma close_pods_end_watch:
  assumes "Suc 0 < length (fl_pods F)" "\<And>i. ch = Some i \<Longrightarrow> blocked i (fl_pods F ! Suc 0)"
  shows "watch_ends ch (fl_pods (close_pods J now ks 2 F) ! Suc 0)"
proof (cases ch)
  case None
  then show ?thesis using close_pods_closed [of 2 F J now ks] assms(1)
    by (simp add: Watch_closed_ends)
next
  case (Some i)
  obtain err s' t' where c: "Close memory_transport J now (ks 1) (fl_pods F ! 1) (fl_tr F) = (err, s', t')"
    by (metis prod.exhaust)
  let ?F = "F\<lparr>fl_pods := (fl_pods F)[Suc 0 := s'], fl_tr := t'\<rparr>"
  have "fl_pods (close_pods J now ks (Suc 0) ?F) ! Suc 0 = s'"
    using close_pods_closed [of "Suc 0" ?F J now ks] assms(1) by simp
  then have "fl_pods (close_pods J now ks 2 F) ! Suc 0 = s'" using c by (simp add: numeral_2_eq_2)
  then show ?thesis using Close_ends_range [OF _ c, of i] assms(2) Some by (simp add: watch_ends_def)
qed

subsection \<open>Sequence numbers\<close>

lemma no_wrap:
  assumes "unat (q :: uint64) + Suc n < 2 ^ 64"
  shows "q + 1 \<noteq> 0 \<and> unat (q + 1) = Suc (unat q)"
proof -
  have "unat (q + 1) = (unat q + 1) mod 2 ^ 64" by (simp add: unat_word_ariths)
  also have "\<dots> = Suc (unat q)" using assms by simp
  finally show ?thesis by auto
qed

end
