(* ===== verification/Web_Server.thy ===== *)
theory Web_Server
  imports Web_Demo Fleet_Watch
begin

section \<open>The web demo while it runs\<close>

text \<open>
  \<^verbatim>\<open>main\<close> of \<^verbatim>\<open>examples/web/main.go\<close>: the three servers answer requests until a signal comes. A run is the list of
  what happens before the signal: a request is handled, a receive loop takes its next message, the
  loop of an event stream turns once, the client of a stream goes away. \<open>listen i\<close> is the error with which
  \<^verbatim>\<open>ListenAndServe\<close> of pod \<open>i\<close> fails, if it does: its requests are then refused. What \<^verbatim>\<open>Shutdown\<close> waits for is
  not modelled; the deferred calls then close the stores and the broker.
\<close>

subsection \<open>Requests\<close>

text \<open>
  Beside what the client sends, a request has the clocks that its handler reads, the order in which it
  ranges over the map, how the template executes and whether its writer can flush.
\<close>

record 'b web_request =
  rq_verb :: string
  rq_path :: string
  rq_body :: 'b
  rq_stamp :: time
  rq_now :: time
  rq_keys :: "string list"
  rq_exec :: "goerror option"
  rq_flush :: bool

datatype web_out = Answer response | Frame nat sse_frame | Ended nat

definition mux_error :: "nat \<Rightarrow> response" where
  "mux_error code = Response code (ErrorText (if code = 404 then ''404 page not found'' else ''Method Not Allowed''))"

record 'b web_server =
  sv_listen :: "nat \<Rightarrow> goerror option"
  sv_decSet :: "'b \<Rightarrow> goerror + string \<times> Item"
  sv_decDelete :: "'b \<Rightarrow> goerror + string"

definition web_serve :: "'b web_server \<Rightarrow> Json \<Rightarrow> web_pod list \<Rightarrow> nat \<Rightarrow> 'b web_request \<Rightarrow> web_fleet
    \<Rightarrow> web_out list \<times> web_fleet" where
  "web_serve sv J pods i rq F =
    (case routes (rq_verb rq) (rq_path rq) of
       Inl code \<Rightarrow> ([Answer (mux_error code)], F)
     | Inr RouteIndex \<Rightarrow> ([Answer (indexHandler pods (pods ! i) (rq_exec rq))], F)
     | Inr RouteState \<Rightarrow> ([Answer (stateHandler (rq_keys rq) (pods ! i) i F)], F)
     | Inr RouteSet \<Rightarrow>
         (case setHandler (sv_decSet sv) J (rq_stamp rq) (rq_now rq) i (rq_body rq) F of (r, F') \<Rightarrow> ([Answer r], F'))
     | Inr RouteDelete \<Rightarrow>
         (case deleteHandler (sv_decDelete sv) J (rq_now rq) i (rq_body rq) F of (r, F') \<Rightarrow> ([Answer r], F'))
     | Inr RouteStats \<Rightarrow> ([Answer (statsHandler i F)], F)
     | Inr RouteEvents \<Rightarrow>
         (case sse_open (rq_flush rq) (pods ! i) (fl_pods F ! i) of
            Inl r \<Rightarrow> ([Answer r], F)
          | Inr (hello, w, s') \<Rightarrow> (map (Frame w) hello, fleet_local i s' F)))"

text \<open>
  One turn of the loop of stream \<open>w\<close>: it stays blocked on an empty channel, ends when the channel is closed, and
  otherwise writes the event it takes. When the write fails the handler returns, which ends the
  request's context and removes the watcher.
\<close>

definition web_stream :: "nat \<Rightarrow> bool \<Rightarrow> Item store \<Rightarrow> web_out list \<times> Item store" where
  "web_stream w ok s =
    (if w_buf (s_wheap s w) = [] \<and> 0 < w_waiting (s_wheap s w) \<and> \<not> w_closed (s_wheap s w) then ([], s)
     else case watch_recv w s of
       (None, s') \<Rightarrow> (if w_closed (s_wheap s w) then [Ended w] else [], s')
     | (Some ev, s') \<Rightarrow>
         if ok then (map (Frame w) (sse_loop [(ev, ok)] []), s') else ([Ended w], removeWatcher w s'))"

subsection \<open>The run\<close>

datatype 'b web_event =
    Request nat "'b web_request"
  | ReceiveNext nat time
  | StreamTurn nat nat bool
  | ClientGone nat nat

fun web_event_pod :: "'b web_event \<Rightarrow> nat" where
  "web_event_pod (Request i _) = i"
| "web_event_pod (ReceiveNext i _) = i"
| "web_event_pod (StreamTurn i _ _) = i"
| "web_event_pod (ClientGone i _) = i"

fun web_step :: "'b web_server \<Rightarrow> Json \<Rightarrow> web_pod list \<Rightarrow> 'b web_event \<Rightarrow> web_fleet \<Rightarrow> web_out list \<times> web_fleet" where
  "web_step sv J pods (Request i rq) F = (if sv_listen sv i \<noteq> None then ([], F) else web_serve sv J pods i rq F)"
| "web_step sv J pods (ReceiveNext i now) F = ([], drain mem_recv J now 1 i F)"
| "web_step sv J pods (StreamTurn i w ok) F =
    (case web_stream w ok (fl_pods F ! i) of (out, s') \<Rightarrow> (out, fleet_local i s' F))"
| "web_step sv J pods (ClientGone i w) F = ([], fleet_local i (removeWatcher w (fl_pods F ! i)) F)"

fun web_loop :: "'b web_server \<Rightarrow> Json \<Rightarrow> web_pod list \<Rightarrow> 'b web_event list \<Rightarrow> web_fleet
    \<Rightarrow> (nat \<times> web_out) list \<times> web_fleet" where
  "web_loop sv J pods [] F = ([], F)"
| "web_loop sv J pods (ev # evs) F =
    (case web_step sv J pods ev F of
       (out, F') \<Rightarrow>
         (case web_loop sv J pods evs F' of (outs, F'') \<Rightarrow> (map (Pair (web_event_pod ev)) out @ outs, F'')))"

text \<open>What the program logs: the goroutines of servers that failed, the addresses, the end.\<close>

datatype web_line = HttpFailed string goerror | DemoRunning | PodLink string int | CtrlC | ShuttingDown

definition web_failed :: "'b web_server \<Rightarrow> web_pod list \<Rightarrow> web_line list" where
  "web_failed sv pods =
    concat (map (\<lambda>i. case sv_listen sv i of None \<Rightarrow> [] | Some e \<Rightarrow> [HttpFailed (pd_ID (pods ! i)) e]) [0..<length pods])"

text \<open>The port is that of the flag, if it is given, or else \<open>portStart\<close> of \<^verbatim>\<open>PORT_START\<close>.\<close>

definition web_port :: "int option \<Rightarrow> string \<Rightarrow> (string \<Rightarrow> int option) \<Rightarrow> int" where
  "web_port flag v atoi = (case flag of Some n \<Rightarrow> n | None \<Rightarrow> portStart v atoi)"

definition web_main :: "Item Codec \<Rightarrow> Json \<Rightarrow> goerror + string \<Rightarrow> int \<Rightarrow> 'b web_server \<Rightarrow> 'b web_event list \<Rightarrow> time
    \<Rightarrow> (nat \<Rightarrow> string list) \<Rightarrow> goerror + (web_line list \<times> (nat \<times> web_out) list \<times> web_fleet)" where
  "web_main jc J rid port sv evs close ks =
    (case web_setup jc J rid port of
       Inl e \<Rightarrow> Inl e
     | Inr (pods, F) \<Rightarrow>
         (case web_loop sv J pods evs F of
            (outs, F') \<Rightarrow>
              Inr (web_failed sv pods @ [DemoRunning] @ map (\<lambda>p. PodLink (pd_ID p) (pd_Port p)) pods @ [CtrlC, ShuttingDown],
                outs, close_pods J close ks (length pods) F')))"

subsection \<open>What every step keeps\<close>

text \<open>
  The pods run: they refine a cluster, are open, and their watchers are in order. The JSON decoder gives
  strings of valid UTF-8. A request is in time when no channel is full, the pod's sequence number does
  not wrap and messages of the clock it reads can be encoded.
\<close>

definition web_ok :: "Json \<Rightarrow> Item Codec \<Rightarrow> web_fleet \<Rightarrow> bool" where
  "web_ok J jc F \<longleftrightarrow> running mem_up m_subs mem_queue J jc no_item ''web-demo'' F \<and> length (fl_pods F) = 3 \<and>
     (\<forall>i < 3. \<not> s_closed (fl_pods F ! i) \<and> watch_inv (fl_pods F ! i))"

definition decodes_utf8 :: "'b web_server \<Rightarrow> bool" where
  "decodes_utf8 sv \<longleftrightarrow> (\<forall>b k v. sv_decSet sv b = Inr (k, v) \<longrightarrow> valid_utf8 k) \<and>
     (\<forall>b k. sv_decDelete sv b = Inr k \<longrightarrow> valid_utf8 k)"

fun in_time :: "Json \<Rightarrow> 'b web_event \<Rightarrow> web_fleet \<Rightarrow> bool" where
  "in_time J (Request i rq) F \<longleftrightarrow> has_room mem_queue 256 F \<and> s_seq (fl_pods F ! i) + 1 \<noteq> 0 \<and>
     (\<forall>m. wm_Timestamp m = rq_now rq \<longrightarrow> (\<exists>raw. marshalMsg J m = Inr raw))"
| "in_time J _ F \<longleftrightarrow> True"

fun web_paced :: "'b web_server \<Rightarrow> Json \<Rightarrow> web_pod list \<Rightarrow> 'b web_event list \<Rightarrow> web_fleet \<Rightarrow> bool" where
  "web_paced sv J pods [] F \<longleftrightarrow> True"
| "web_paced sv J pods (ev # evs) F \<longleftrightarrow> web_event_pod ev < 3 \<and> in_time J ev F \<and>
     web_paced sv J pods evs (snd (web_step sv J pods ev F))"

lemma web_ok_step:
  assumes "web_ok J jc F" "fleet_step memory_transport mem_recv mem_queue 256 J F F'"
    and "length (fl_pods F') = 3" "\<And>i. i < 3 \<Longrightarrow> \<not> s_closed (fl_pods F' ! i) \<and> watch_inv (fl_pods F' ! i)"
  shows "web_ok J jc F'"
proof -
  obtain C where C: "reachable J jc no_item C" "fleet_sim mem_up m_subs mem_queue ''web-demo'' F C"
    using assms(1) by (auto simp: web_ok_def running_def)
  from membus.step_sim [OF assms(2) C(2)] obtain C' where
    "cluster_step J C C'" "fleet_sim mem_up m_subs mem_queue ''web-demo'' F' C'" by blast
  then have "running mem_up m_subs mem_queue J jc no_item ''web-demo'' F'"
    unfolding running_def using reachable.step [OF C(1)] by blast
  with assms(3,4) show ?thesis by (simp add: web_ok_def)
qed

lemma web_ok_local:
  assumes ok: "web_ok J jc F" and i: "i < 3" and s: "same_pod (fl_pods F ! i) s'" "watch_inv s'"
  shows "web_ok J jc (fleet_local i s' F)"
proof (rule web_ok_step [OF ok])
  show "fleet_step memory_transport mem_recv mem_queue 256 J F (fleet_local i s' F)"
    using ok i s(1) by (intro fleet_step.fleet_other) (simp_all add: web_ok_def)
  show "\<not> s_closed (fl_pods (fleet_local i s' F) ! j) \<and> watch_inv (fl_pods (fleet_local i s' F) ! j)" if "j < 3" for j
    using ok i s that by (auto simp: web_ok_def fleet_local_def nth_list_update same_pod_def pod_id_def)
qed (use ok in \<open>simp add: web_ok_def fleet_local_def\<close>)

lemma removeWatcher_same_pod: "same_pod s (removeWatcher i s)"
  by (simp add: same_pod_def pod_id_def removeWatcher_def close_chans_def delete_watcher_def set_watcher_def Let_def)

text \<open>A write either succeeds or fails at its value, which it then only counts.\<close>

lemma write_outcome:
  fixes F :: "('v, MemoryTransport) fleet"
  assumes up: "mem_up (fl_tr F)" and "\<not> s_closed (fl_pods F ! i)"
    and "\<forall>m. wm_Timestamp m = now \<longrightarrow> (\<exists>raw. marshalMsg J m = Inr raw)"
  shows "fst (fleet_write memory_transport J now i w F) = None \<or>
    snd (fleet_write memory_transport J now i w F) = fleet_local i (add_writesLocal 1 (fl_pods F ! i)) F"
proof -
  let ?s = "fl_pods F ! i"
  have "fst (write_tail memory_transport J m v s (fl_tr F)) = None" if "wm_Timestamp m = now" for m v and s :: "'v store"
  proof -
    obtain raw where "marshalMsg J m = Inr raw" using assms(3) \<open>wm_Timestamp m = now\<close> by blast
    moreover obtain t' where "tr_Publish memory_transport (s_topic s) raw (fl_tr F) = (None, t')"
      using membus.publish_bus [OF up] by blast
    ultimately show ?thesis by (simp add: write_tail_def)
  qed
  then show ?thesis using assms(2)
    by (cases w) (auto simp: fleet_write_def Set_eq Delete_eq stamp_msg_def fleet_local_def case_prod_unfold split: sum.split)
qed

lemma web_ok_write:
  assumes ok: "web_ok J jc F" and i: "i < 3" and w: "valid_utf8 (write_key w)"
    and rm: "has_room mem_queue 256 F" "s_seq (fl_pods F ! i) + 1 \<noteq> 0"
    and enc: "\<forall>m. wm_Timestamp m = now \<longrightarrow> (\<exists>raw. marshalMsg J m = Inr raw)"
  shows "web_ok J jc (snd (fleet_write memory_transport J now i w F))"
proof -
  let ?s = "fl_pods F ! i"
  obtain r F' where F': "fleet_write memory_transport J now i w F = (r, F')" by (metis prod.exhaust)
  have s: "\<not> s_closed ?s" "watch_inv ?s" "i < length (fl_pods F)" "mem_up (fl_tr F)"
    using ok i running_pod(5) [of mem_up m_subs mem_queue J jc no_item "''web-demo''" F i] by (simp_all add: web_ok_def)
  have local: "web_ok J jc (fleet_local i (add_writesLocal 1 ?s) F)"
    using s(2) by (intro web_ok_local [OF ok i]) (simp_all add: same_pod_def pod_id_def store_defs watch_inv_def)
  have "web_ok J jc F'" if "r = None"
  proof (rule web_ok_step [OF ok])
    show "fleet_step memory_transport mem_recv mem_queue 256 J F F'"
      using fleet_step.fleet_write [OF s(3) rm(2) w rm(1)] F' that by blast
    note fr = fleet_write_frame [OF F']
    show "length (fl_pods F') = 3" using fr ok by (simp add: web_ok_def)
    show "\<not> s_closed (fl_pods F' ! j) \<and> watch_inv (fl_pods F' ! j)" if "j < 3" for j
    proof (cases "j = i")
      case True
      have "pod_id (fl_pods F' ! i) = pod_id (?s\<lparr>s_seq := s_seq ?s + 1\<rparr>)"
        using arg_cong [OF fleet_write_pod_id [OF F' [unfolded \<open>r = None\<close>] s(3)], of "\<lambda>l. l ! i"] s(3) fr by simp
      moreover have "watch_inv (fst (snd (run_write memory_transport J now w ?s (fl_tr F))))"
        using winv.R_Set [rule_format, OF s(2)] winv.R_Delete [rule_format, OF s(2)] by (cases w) simp_all
      then have "watch_inv (fl_pods F' ! i)" using F' s(3) by (auto simp: fleet_write_def split: prod.splits)
      ultimately show ?thesis using True s(1) by (simp add: pod_id_def)
    qed (use fr ok that in \<open>simp add: web_ok_def\<close>)
  qed
  with write_outcome [OF s(4,1) enc, of w] local F' show ?thesis by auto
qed

lemma web_ok_serve:
  assumes ok: "web_ok J jc F" and i: "i < 3" and dec: "decodes_utf8 sv" and time: "in_time J (Request i rq) F"
  shows "web_ok J jc (snd (web_serve sv J pods i rq F))"
proof -
  have wr: "web_ok J jc F'" if "fleet_write memory_transport J (rq_now rq) i w F = (r, F')" "valid_utf8 (write_key w)" for w r F'
    using web_ok_write [OF ok i that(2), of "rq_now rq"] time that(1) by simp
  note wrS = wr [of "PodSet k v" for k v, simplified] and wrD = wr [of "PodDelete k" for k, simplified]
  have set: "web_ok J jc (snd (setHandler (sv_decSet sv) J (rq_stamp rq) (rq_now rq) i (rq_body rq) F))"
    using wrS dec ok by (fastforce simp: setHandler_def decodes_utf8_def split: sum.split prod.split option.split)
  have delete: "web_ok J jc (snd (deleteHandler (sv_decDelete sv) J (rq_now rq) i (rq_body rq) F))"
    using wrD dec ok by (fastforce simp: deleteHandler_def decodes_utf8_def split: sum.split prod.split option.split)
  have "watch_inv (fl_pods F ! i)" using ok i by (simp add: web_ok_def)
  then have "web_ok J jc (fleet_local i (snd (Watch [] (fl_pods F ! i))) F)"
    by (intro web_ok_local [OF ok i] Watch_same_pod Watch_inv)
  with set delete ok show ?thesis
    by (auto simp: web_serve_def sse_open_def split: sum.split route.split prod.split if_split)
qed

lemma web_ok_drain:
  assumes ok: "web_ok J jc F" and i: "i < 3"
  shows "web_ok J jc (drain mem_recv J now 1 i F)"
proof (cases "fst (mem_recv (fl_chans F ! i) (fl_tr F))")
  case None
  then have "drain mem_recv J now 1 i F = F" by (auto simp: mem_recv_def split: list.split)
  with ok show ?thesis by simp
next
  case (Some raw)
  then obtain t' where r: "mem_recv (fl_chans F ! i) (fl_tr F) = (Some raw, t')" by (metis prod.collapse)
  let ?F = "F\<lparr>fl_pods := (fl_pods F)[i := handleRaw J now raw (fl_pods F ! i)], fl_tr := t'\<rparr>"
  have "fleet_deliver mem_recv J F ?F" using ok i r by (intro fleet_deliver.deliver) (simp_all add: web_ok_def)
  then have "web_ok J jc ?F"
    using ok i winv.R_handleRaw [of "fl_pods F ! i" J now raw]
    by (intro web_ok_step [OF ok fleet_step.fleet_recv]) (auto simp: web_ok_def nth_list_update)
  with r show ?thesis by simp
qed

lemma web_stream_keeps:
  assumes "watch_inv s"
  shows "same_pod s (snd (web_stream w ok s)) \<and> watch_inv (snd (web_stream w ok s))"
proof -
  obtain r s' where s': "watch_recv w s = (r, s')" by (metis prod.exhaust)
  then have "same_pod s s'" "watch_inv s'" using watch_recv_same_pod [of s w] watch_recv_inv [OF assms, of w] by simp_all
  moreover have "same_pod s (removeWatcher w s')" "watch_inv (removeWatcher w s')"
    using calculation removeWatcher_inv by (blast intro: same_pod_trans removeWatcher_same_pod)+
  ultimately show ?thesis using assms s' by (auto simp: web_stream_def same_pod_def split: option.split)
qed

lemma web_ok_event:
  assumes ok: "web_ok J jc F" and "decodes_utf8 sv" "web_event_pod ev < 3" "in_time J ev F"
  shows "web_ok J jc (snd (web_step sv J pods ev F))"
proof -
  let ?s = "fl_pods F ! web_event_pod ev"
  have inv: "watch_inv ?s" using ok assms(3) by (simp add: web_ok_def)
  show ?thesis
  proof (cases ev)
    case (StreamTurn i w b)
    then show ?thesis using web_ok_local [OF ok _ ] web_stream_keeps [OF inv, of w b] assms(3)
      by (simp add: case_prod_unfold)
  next
    case (ClientGone i w)
    then show ?thesis using web_ok_local [OF ok _ removeWatcher_same_pod removeWatcher_inv] inv assms(3) by simp
  next
    case (Request i rq)
    then show ?thesis using web_ok_serve [OF ok _ assms(2), of i rq pods] assms(3,4) ok by simp
  next
    case (ReceiveNext i now)
    then show ?thesis using web_ok_drain [OF ok, of i now] assms(3) by simp
  qed
qed

lemma web_ok_loop:
  assumes "web_ok J jc F" "decodes_utf8 sv" "web_paced sv J pods evs F"
  shows "web_ok J jc (snd (web_loop sv J pods evs F))"
  using assms
proof (induction evs arbitrary: F)
  case (Cons ev evs)
  then have "web_ok J jc (snd (web_step sv J pods ev F))" by (intro web_ok_event) simp_all
  with Cons show ?case by (simp add: case_prod_unfold)
qed simp

subsection \<open>The end\<close>

lemma close_pods_watches:
  assumes "n \<le> length (fl_pods F)" "\<forall>i < n. watch_inv (fl_pods F ! i) \<and> \<not> s_closed (fl_pods F ! i)" "i < n"
  shows "s_watchers (fl_pods (close_pods J now ks n F) ! i) = [] \<and> \<not> s_panic (fl_pods (close_pods J now ks n F) ! i) \<and>
    (\<forall>w \<in> set (s_watchers (fl_pods F ! i)). w_closed (s_wheap (fl_pods (close_pods J now ks n F) ! i) w))"
  using assms
proof (induction n arbitrary: F)
  case (Suc n)
  obtain err s' t' where c: "Close memory_transport J now (ks n) (fl_pods F ! n) (fl_tr F) = (err, s', t')"
    by (metis prod.exhaust)
  let ?F = "F\<lparr>fl_pods := (fl_pods F)[n := s'], fl_tr := t'\<rparr>"
  show ?case
  proof (cases "i = n")
    case True
    have "fl_pods (close_pods J now ks n ?F) ! n = s'"
      using close_pods_closed [of n ?F J now ks] Suc.prems(1) by simp
    with True c Close_closes_watches [OF _ _ c] Suc.prems(2) show ?thesis by simp
  next
    case False
    with Suc.IH [of ?F] Suc.prems c show ?thesis by (simp add: less_Suc_eq)
  qed
qed simp

lemma web_setup_runs:
  assumes "json_msg_roundtrip J" "codec_roundtrip jc" "web_setup jc J rid port = Inr (pods, F)"
  shows "web_ok J jc F \<and> length pods = 3 \<and> (\<forall>i < 3. pd_ID (pods ! i) = podID i)"
proof -
  from web_setup_ok [OF assms(1,2), of rid port] assms(3)
  have st: "web_start J jc F" "map s_nodeID (fl_pods F) = [''pod-1'', ''pod-2'', ''pod-3'']"
      "\<forall>s \<in> set (fl_pods F). \<not> s_closed s \<and> s_seq s = 0 \<and> watch_inv s"
    and pods: "map pd_ID pods = [''pod-1'', ''pod-2'', ''pod-3'']" by auto
  have "length (fl_pods F) = 3" using arg_cong [OF st(2), of length] by simp
  moreover have len: "length pods = 3" using arg_cong [OF pods, of length] by simp
  moreover have "pd_ID (pods ! i) = podID i" if "i < 3" for i
  proof -
    have "pd_ID (pods ! i) = map pd_ID pods ! i" using that len by simp
    also have "\<dots> = podID i" using that unfolding pods by (auto simp: podIDs podIDs(4) [unfolded numeral_2_eq_2] numeral_3_eq_3 less_Suc_eq)
    finally show ?thesis .
  qed
  ultimately show ?thesis using membus.running_start [OF st(1)] st(3) by (simp add: web_ok_def)
qed

text \<open>What \<^verbatim>\<open>/api/state\<close> shows does not depend on the order of the map.\<close>

lemma Snapshot_any:
  assumes "range_order ks (s_data s)"
  shows "Snapshot ks s = (\<lambda>k. if prev_live (s_data s k) then map_option e_Value (s_data s k) else None)"
proof
  fix k
  have "k \<in> set ks \<or> s_data s k = None" "distinct ks" using assms by (auto simp: range_order_def)
  then show "Snapshot ks s k = (if prev_live (s_data s k) then map_option e_Value (s_data s k) else None)"
    by (auto simp: Snapshot_def Snapshot_loop_view prev_live_def)
qed

subsection \<open>Properties\<close>

text \<open>
  C11. The web demo, whatever is asked of it. Take any run of requests to the three servers, of turns of the receive loops and
  of the event streams, and of clients that go away, in which no channel is full when a request
  comes. At every point no watcher's channel was sent to or closed after it was closed, and once the pods have handled their
  channels \<^verbatim>\<open>/api/state\<close> shows the same items on all three. When the program ends, the stores and the broker are closed,
  no watcher is left, and every open event stream finds its channel closed.
\<close>

theorem web_demo_run:
  assumes "json_msg_roundtrip J" "codec_roundtrip jc" "decodes_utf8 sv"
    and pods: "web_setup jc J rid port = Inr (pods, F0)" and "web_paced sv J pods evs F0"
    and run: "web_loop sv J pods evs F0 = (outs, F)"
  shows "(\<forall>i < 3. \<not> s_panic (fl_pods F ! i)) \<and>
    (\<exists>F1 items. settle mem_recv mem_queue J now F = F1 \<and>
      (\<forall>i < 3. \<forall>ks. range_order ks (s_data (fl_pods F1 ! i)) \<longrightarrow>
        stateHandler ks (pods ! i) i F1 = Response 200 (StateJson (podID i) items))) \<and>
    (\<exists>lines F2. web_main jc J rid port sv evs close ks = Inr (lines, outs, F2) \<and> m_closed (fl_tr F2) \<and>
      (\<forall>i < 3. s_closed (fl_pods F2 ! i) \<and> s_watchers (fl_pods F2 ! i) = [] \<and> \<not> s_panic (fl_pods F2 ! i) \<and>
        (\<forall>w \<in> set (s_watchers (fl_pods F ! i)). w_closed (s_wheap (fl_pods F2 ! i) w))))"
proof -
  note st = web_setup_runs [OF assms(1,2) pods]
  have ok: "web_ok J jc F" using web_ok_loop [OF conjunct1 [OF st] assms(3,5)] run by simp
  then have F: "running mem_up m_subs mem_queue J jc no_item ''web-demo'' F" "length (fl_pods F) = 3"
      "\<forall>i < 3. watch_inv (fl_pods F ! i) \<and> \<not> s_closed (fl_pods F ! i)"
    by (simp_all add: web_ok_def)
  let ?F1 = "settle mem_recv mem_queue J now F" and ?F2 = "close_pods J close ks 3 F"
  note s = membus.running_settle [OF F(1), of now]
  have state: "stateHandler ks (pods ! i) i ?F1 = Response 200 (StateJson (podID i)
      (\<lambda>k. if prev_live (s_data (fl_pods ?F1 ! 0) k) then map_option e_Value (s_data (fl_pods ?F1 ! 0) k) else None))"
    if "i < 3" "range_order ks (s_data (fl_pods ?F1 ! i))" for i ks
  proof -
    have "s_data (fl_pods ?F1 ! i) = s_data (fl_pods ?F1 ! 0)"
      by (rule membus.running_agree [OF s(1,2)]) (use s(4) F(2) that(1) in linarith)+
    with Snapshot_any [OF that(2)] st that(1) show ?thesis by (simp add: stateHandler_def cong: if_cong)
  qed
  have "web_main jc J rid port sv evs close ks = Inr (web_failed sv pods @ [DemoRunning] @
      map (\<lambda>p. PodLink (pd_ID p) (pd_Port p)) pods @ [CtrlC, ShuttingDown], outs, ?F2)"
    using pods run st by (simp add: web_main_def)
  moreover have "m_closed (fl_tr ?F2) \<and> (\<forall>i < 3. s_closed (fl_pods ?F2 ! i))"
    using close_pods_closed [of 3 F J close ks] F(2) by simp
  moreover have "s_watchers (fl_pods ?F2 ! i) = [] \<and> \<not> s_panic (fl_pods ?F2 ! i) \<and>
      (\<forall>w \<in> set (s_watchers (fl_pods F ! i)). w_closed (s_wheap (fl_pods ?F2 ! i) w))" if "i < 3" for i
    using close_pods_watches [of 3 F i J close ks] F(2,3) that by simp
  moreover have "\<forall>i < 3. \<not> s_panic (fl_pods F ! i)" using F(3) by (simp add: watch_inv_def)
  ultimately show ?thesis using state by blast
qed

text \<open>A client opens the stream of the second pod, another posts an item to the first.\<close>

definition sample_server :: "unit web_server" where
  "sample_server = \<lparr>sv_listen = (\<lambda>i. if i = 2 then Some ErrClosed else None),
     sv_decSet = (\<lambda>_. Inr (''k'', sample_item)), sv_decDelete = (\<lambda>_. Inr ''k'')\<rparr>"

definition sample_request :: "string \<Rightarrow> string \<Rightarrow> unit web_request" where
  "sample_request verb path = \<lparr>rq_verb = verb, rq_path = path, rq_body = (), rq_stamp = 4, rq_now = 5, rq_keys = [],
     rq_exec = None, rq_flush = True\<rparr>"

definition sample_visit :: "unit web_event list" where
  "sample_visit = [Request 1 (sample_request ''GET'' ''/api/events''), Request 0 (sample_request ''POST'' ''/api/set''),
     ReceiveNext 1 6, StreamTurn 1 0 True]"

lemma sample_routes: "routes ''GET'' ''/api/events'' = Inr RouteEvents" "routes ''POST'' ''/api/set'' = Inr RouteSet"
  by code_simp+

lemma sample_visit_paced:
  assumes "quiet mem_queue F" "length (fl_pods F) = 3" "\<forall>s \<in> set (fl_pods F). s_seq s = 0"
  shows "web_paced sample_server sample_json pods sample_visit F"
proof -
  have enc: "\<exists>raw. marshalMsg sample_json m = Inr raw" for m by (simp add: sample_json_def)
  have "has_room mem_queue 256 F" by (rule membus.quiet_room [OF assms(1)])
  then have "has_room mem_queue 256 (fleet_local 1 s F)" for s by (simp add: has_room_def fleet_local_def)
  moreover have "s_seq (fl_pods F ! 0) = 0" "s_seq (fl_pods F ! Suc 0) = 0" using assms(2,3) by simp_all
  ultimately show ?thesis using \<open>has_room mem_queue 256 F\<close> assms(2) enc
    by (simp add: sample_visit_def sample_request_def sample_server_def web_serve_def sse_open_def sample_routes
        fleet_local_def has_room_def case_prod_unfold)
qed

theorem web_demo_run_witness:
  "\<exists>pods F0 outs F lines F2. web_setup sample_item_codec sample_json (Inr ''id'') 9080 = Inr (pods, F0) \<and>
     web_paced sample_server sample_json pods sample_visit F0 \<and>
     web_loop sample_server sample_json pods sample_visit F0 = (outs, F) \<and>
     web_main sample_item_codec sample_json (Inr ''id'') 9080 sample_server sample_visit 9 (\<lambda>_. []) = Inr (lines, outs, F2) \<and>
     m_closed (fl_tr F2) \<and> (\<forall>i < 3. s_closed (fl_pods F2 ! i) \<and> s_watchers (fl_pods F2 ! i) = [])"
proof -
  obtain pods F0 where F0: "web_setup sample_item_codec sample_json (Inr ''id'') 9080 = Inr (pods, F0)"
    and st: "web_start sample_json sample_item_codec F0" "\<forall>s \<in> set (fl_pods F0). \<not> s_closed s \<and> s_seq s = 0 \<and> watch_inv s"
    using web_setup_ok [OF sample_json_msg sample_item_codec_roundtrip, of "Inr ''id''" 9080] by auto
  have len: "length (fl_pods F0) = 3"
    using web_setup_runs [OF sample_json_msg sample_item_codec_roundtrip F0] by (simp add: web_ok_def)
  have dec: "decodes_utf8 sample_server"
    by (simp add: decodes_utf8_def sample_server_def valid_utf8_def of_char_def)
  have p: "web_paced sample_server sample_json pods sample_visit F0"
    using st len by (intro sample_visit_paced) (simp_all add: fleet_start_def)
  obtain outs F where l: "web_loop sample_server sample_json pods sample_visit F0 = (outs, F)" by (metis prod.exhaust)
  from web_demo_run [OF sample_json_msg sample_item_codec_roundtrip dec F0 p l, of 7 9 "\<lambda>_. []"] F0 p l
  show ?thesis by blast
qed

end
