(* ===== verification/Feature_Flags.thy ===== *)
theory Feature_Flags
  imports Fleet_Watch
begin

section \<open>Feature flags\<close>

text \<open>
  \<^verbatim>\<open>examples/feature-flags/main.go\<close>: an operator pod rolls out a flag in stages and takes it back; a
  goroutine of a worker pod follows the changes with \<^verbatim>\<open>Watch\<close> and keeps the latest flag in a pointer
  that the application reads without a lock. A sleep means that both pods have handled their channels and
  that the goroutine has taken the events it was sent. When the goroutine comes to call \<^verbatim>\<open>Watch\<close> is up to the
  scheduler: \<open>late\<close> is the number of stages that are over by then; whether the goroutine still prints its last line when
  the stores are closed is too (\<open>ended\<close>).
\<close>

record Flag =
  fg_Enabled :: bool
  fg_Rollout :: int64
  fg_Note :: string

type_synonym flags_fleet = "(Flag, MemoryTransport) fleet"

definition no_flag :: Flag where
  "no_flag = \<lparr>fg_Enabled = False, fg_Rollout = 0, fg_Note = ''''\<rparr>"

datatype flag_line =
    WorkerSet string string int64 string
  | WorkerDelete string string
  | SetFailed goerror
  | DeleteFailed goerror
  | AppReads int64
  | AppReadsNil
  | WatchClosed

definition flags_mustNew :: "Flag Codec \<Rightarrow> Json \<Rightarrow> goerror + string \<Rightarrow> string \<Rightarrow> flags_fleet \<Rightarrow> goerror + flags_fleet" where
  "flags_mustNew jc J rid nodeID F =
    (case fleet_new no_flag jc J rid ''feature-flags''
            [OptNodeID nodeID, OptWatchBuffer 256, OptErrorHandler True] memory_transport F of
       (Some e, _) \<Rightarrow> Inl e
     | (None, F') \<Rightarrow> Inr F')"

subsection \<open>The worker's goroutine\<close>

text \<open>\<open>wk_watch\<close> is its channel, once it has called \<^verbatim>\<open>Watch\<close>; \<open>wk_current\<close> the atomic pointer.\<close>

record worker =
  wk_watch :: "nat option"
  wk_current :: "Flag option"

definition worker_event :: "Flag Event \<Rightarrow> Flag option \<Rightarrow> Flag option \<times> flag_line list" where
  "worker_event ev cur =
    (case ev_Kind ev of
       EventSet \<Rightarrow> (Some (ev_Value ev),
         [WorkerSet (ev_Key ev) (ev_Origin ev) (fg_Rollout (ev_Value ev)) (fg_Note (ev_Value ev))])
     | EventDelete \<Rightarrow> (None, [WorkerDelete (ev_Key ev) (ev_Origin ev)])
     | EventOther _ \<Rightarrow> (cur, []))"

text \<open>The loop over the channel, until it blocks: \<open>n\<close> bounds the receives.\<close>

fun worker_loop :: "nat \<Rightarrow> nat \<Rightarrow> Flag store \<Rightarrow> Flag option \<Rightarrow> flag_line list \<Rightarrow> Flag store \<times> Flag option \<times> flag_line list" where
  "worker_loop 0 i s cur out = (s, cur, out)"
| "worker_loop (Suc n) i s cur out =
    (case watch_recv i s of
       (None, s') \<Rightarrow> (s', cur, out)
     | (Some ev, s') \<Rightarrow>
         (case worker_event ev cur of (cur', lines) \<Rightarrow> worker_loop n i s' cur' (out @ lines)))"

definition worker_start :: "flags_fleet \<times> worker \<Rightarrow> flags_fleet \<times> worker" where
  "worker_start st =
    (case st of (F, w) \<Rightarrow>
     case Watch [] (fl_pods F ! 1) of (i, s1) \<Rightarrow>
     case worker_loop 1 i s1 (wk_current w) [] of (s2, cur, _) \<Rightarrow>
       (fleet_local 1 s2 F, \<lparr>wk_watch = Some i, wk_current = cur\<rparr>))"

text \<open>A goroutine that is blocked on its channel goes on when there are events in it.\<close>

definition worker_wake :: "flags_fleet \<times> worker \<Rightarrow> (flags_fleet \<times> worker) \<times> flag_line list" where
  "worker_wake st =
    (case st of (F, w) \<Rightarrow>
     case wk_watch w of
       None \<Rightarrow> (st, [])
     | Some i \<Rightarrow>
         let buf = w_buf (s_wheap (fl_pods F ! 1) i) in
         if buf = [] then (st, [])
         else case worker_loop (Suc (length buf)) i (fl_pods F ! 1) (wk_current w) [] of (s2, cur, lines) \<Rightarrow>
           ((fleet_local 1 s2 F, w\<lparr>wk_current := cur\<rparr>), lines))"

subsection \<open>The program\<close>

definition flag_key :: string where "flag_key = ''new-checkout''"

definition stages :: "Flag list" where
  "stages =
    [\<lparr>fg_Enabled = True, fg_Rollout = 1, fg_Note = ''canary''\<rparr>,
     \<lparr>fg_Enabled = True, fg_Rollout = 10, fg_Note = ''early access''\<rparr>,
     \<lparr>fg_Enabled = True, fg_Rollout = 50, fg_Note = ''wide''\<rparr>,
     \<lparr>fg_Enabled = True, fg_Rollout = 100, fg_Note = ''GA''\<rparr>]"

text \<open>One turn of the loop: \<open>now\<close> is the operator's clock, \<open>r\<close> the worker's.\<close>

definition flags_stage :: "Json \<Rightarrow> time \<Rightarrow> time \<Rightarrow> Flag \<Rightarrow> flags_fleet \<times> worker \<Rightarrow> (flags_fleet \<times> worker) \<times> flag_line list" where
  "flags_stage J now r f st =
    (case st of (F, w) \<Rightarrow>
     case fleet_write memory_transport J now 0 (PodSet flag_key f) F of (err, F1) \<Rightarrow>
     case worker_wake (settle mem_recv mem_queue J r F1, w) of (st', lines) \<Rightarrow>
       (st', (case err of None \<Rightarrow> [] | Some e \<Rightarrow> [SetFailed e]) @ lines @
         (case wk_current (snd st') of None \<Rightarrow> [] | Some g \<Rightarrow> [AppReads (fg_Rollout g)])))"

fun flags_loop :: "Json \<Rightarrow> nat \<Rightarrow> nat \<Rightarrow> (time \<times> time) list \<Rightarrow> Flag list \<Rightarrow> flags_fleet \<times> worker
    \<Rightarrow> flag_line list \<Rightarrow> (flags_fleet \<times> worker) \<times> flag_line list" where
  "flags_loop J late n ((now, r) # ts) (f # fs) st out =
    (let st0 = (if n = late then worker_start st else st);
         (st', lines) = flags_stage J now r f st0
     in flags_loop J late (Suc n) ts fs st' (out @ lines))"
| "flags_loop J late n _ _ st out = (st, out)"

definition flags_rollback :: "Json \<Rightarrow> time \<Rightarrow> time \<Rightarrow> flags_fleet \<times> worker \<Rightarrow> (flags_fleet \<times> worker) \<times> flag_line list" where
  "flags_rollback J now r st =
    (case st of (F, w) \<Rightarrow>
     case fleet_write memory_transport J now 0 (PodDelete flag_key) F of (err, F1) \<Rightarrow>
     case worker_wake (settle mem_recv mem_queue J r F1, w) of (st', lines) \<Rightarrow>
       (st', (case err of None \<Rightarrow> [] | Some e \<Rightarrow> [DeleteFailed e]) @ lines @
         (if wk_current (snd st') = None then [AppReadsNil] else [])))"

text \<open>The goroutine after the deferred calls of \<^verbatim>\<open>main\<close>: it leaves its loop when its channel is closed.\<close>

definition worker_end :: "worker \<Rightarrow> flags_fleet \<Rightarrow> flag_line list" where
  "worker_end w F = (if watch_ends (wk_watch w) (fl_pods F ! 1) then [WatchClosed] else [])"

text \<open>
  \<open>clocks\<close> are the clocks of the four stages, \<open>fin\<close> those of the rollback, \<open>close\<close> the clock of the
  deferred closing.
\<close>

definition flags_main :: "Flag Codec \<Rightarrow> Json \<Rightarrow> goerror + string \<Rightarrow> nat \<Rightarrow> (time \<times> time) list \<Rightarrow> time \<times> time
    \<Rightarrow> time \<Rightarrow> (nat \<Rightarrow> string list) \<Rightarrow> bool \<Rightarrow> goerror + flag_line list \<times> flags_fleet" where
  "flags_main jc J rid late clocks fin close ks ended =
    (case flags_mustNew jc J rid ''operator'' (no_pods (NewMemoryTransport False)) of
       Inl e \<Rightarrow> Inl e
     | Inr F \<Rightarrow>
         (case flags_mustNew jc J rid ''worker-1'' F of
            Inl e \<Rightarrow> Inl e
          | Inr F \<Rightarrow>
              let (st, out) = flags_loop J late 0 clocks stages (F, \<lparr>wk_watch = None, wk_current = None\<rparr>) [];
                  st0 = (if late = length stages then worker_start st else st);
                  ((F, w), lines) = flags_rollback J (fst fin) (snd fin) st0;
                  F = close_pods J close ks 2 F
              in Inr (out @ lines @ (if ended then worker_end w F else []), F)))"

subsection \<open>The setup\<close>

definition flags_pod :: "Flag Codec \<Rightarrow> string \<Rightarrow> Flag store" where
  "flags_pod jc i = apply_options [OptNodeID i, OptWatchBuffer 256, OptErrorHandler True]
    (default_store no_flag jc ''feature-flags'')"

lemma flags_pod_simps:
  "i \<noteq> '''' \<Longrightarrow> s_nodeID (flags_pod jc i) = i" "s_merger (flags_pod jc i) = None" "s_codec (flags_pod jc i) = jc"
  "i \<noteq> '''' \<Longrightarrow> pod_id (flags_pod jc i) = (0, i, jc, None, no_flag, ''feature-flags'', False)"
  "s_watchers (flags_pod jc i) = []" "watch_inv (flags_pod jc i)"
  by (simp_all add: flags_pod_def apply_options_def option_defs default_store_def pod_id_def watch_inv_def)

abbreviation (input) flags_owned :: "Json \<Rightarrow> Flag Codec \<Rightarrow> (string \<rightharpoonup> Flag entry) \<Rightarrow> uint64 \<Rightarrow> flags_fleet \<Rightarrow> bool" where
  "flags_owned J jc d q F \<equiv> owned J jc no_flag ''feature-flags'' 2 ''operator'' d q F"

lemma flags_mustNew_joins:
  assumes "fleet_start mem_up m_subs mem_queue J jc no_flag ''feature-flags'' F"
    and "m_snapshots (fl_tr F) ''feature-flags'' = None"
    and "i \<noteq> ''''" "valid_utf8 i" "i \<notin> s_nodeID ` set (fl_pods F)"
  shows "\<exists>F'. flags_mustNew jc J rid i F = Inr F' \<and> fl_pods F' = fl_pods F @ [flags_pod jc i] \<and>
    fleet_start mem_up m_subs mem_queue J jc no_flag ''feature-flags'' F' \<and>
    m_snapshots (fl_tr F') ''feature-flags'' = None"
  using fleet_new_joins [OF assms(1,2), where opts = "[OptNodeID i, OptWatchBuffer 256, OptErrorHandler True]"
      and rid = rid] assms(3-5) flags_pod_simps(1-3) [unfolded flags_pod_def]
  by (auto simp: flags_mustNew_def flags_pod_def)

lemma flags_setup:
  assumes "json_msg_roundtrip J" "codec_roundtrip jc"
  shows "\<exists>A F. flags_mustNew jc J rid ''operator'' (no_pods (NewMemoryTransport False)) = Inr A \<and>
    flags_mustNew jc J rid ''worker-1'' A = Inr F \<and> flags_owned J jc Map.empty 0 F \<and>
    fl_pods F ! Suc 0 = flags_pod jc ''worker-1''"
proof -
  let ?N = "no_pods (NewMemoryTransport False) :: flags_fleet"
  have u: "valid_utf8 ''operator''" "valid_utf8 ''worker-1''" by (simp_all add: valid_utf8_def of_char_def)
  note n0 = no_pods_start [OF assms, where z = no_flag and topic = "''feature-flags''" and b = False]
  obtain A where A: "flags_mustNew jc J rid ''operator'' ?N = Inr A" "fl_pods A = [flags_pod jc ''operator'']"
    and sA: "fleet_start mem_up m_subs mem_queue J jc no_flag ''feature-flags'' A"
      "m_snapshots (fl_tr A) ''feature-flags'' = None"
    using flags_mustNew_joins [OF conjunct1 [OF n0] conjunct2 [OF n0] _ u(1), of rid] by (auto simp: no_pods_def)
  obtain B where B: "flags_mustNew jc J rid ''worker-1'' A = Inr B"
      "fl_pods B = [flags_pod jc ''operator'', flags_pod jc ''worker-1'']"
    and sB: "fleet_start mem_up m_subs mem_queue J jc no_flag ''feature-flags'' B"
    using flags_mustNew_joins [OF sA _ u(2), of rid] A(2) by (auto simp: flags_pod_simps)
  show ?thesis using A(1) B calm_start [OF sB] by (simp add: owned_def flags_pod_simps)
qed

subsection \<open>The goroutine follows\<close>

text \<open>The goroutine between two statements of \<^verbatim>\<open>main\<close>: not yet watching, or blocked on an empty channel.\<close>

definition following :: "Flag store \<Rightarrow> worker \<Rightarrow> bool" where
  "following s w \<longleftrightarrow>
     (case wk_watch w of
        None \<Rightarrow> watch_inv s \<and> \<not> s_closed s \<and> s_watchers s = [] \<and> wk_current w = None
      | Some i \<Rightarrow> blocked i s)"

definition flags_state :: "Json \<Rightarrow> Flag Codec \<Rightarrow> (string \<rightharpoonup> Flag entry) \<Rightarrow> uint64 \<Rightarrow> flags_fleet \<times> worker \<Rightarrow> bool" where
  "flags_state J jc d q st \<longleftrightarrow> flags_owned J jc d q (fst st) \<and> following (fl_pods (fst st) ! Suc 0) (snd st)"

lemma worker_start_ok:
  assumes st: "flags_state J jc d q (F, w)" and w: "wk_watch w = None"
  shows "\<exists>F' i. worker_start (F, w) = (F', \<lparr>wk_watch = Some i, wk_current = wk_current w\<rparr>) \<and>
    flags_state J jc d q (F', \<lparr>wk_watch = Some i, wk_current = wk_current w\<rparr>)"
proof -
  let ?s = "fl_pods F ! Suc 0"
  have f: "watch_inv ?s" "\<not> s_closed ?s" "s_watchers ?s = []" and own: "flags_owned J jc d q F"
    using st w by (simp_all add: flags_state_def following_def)
  have len: "Suc 0 < length (fl_pods F)" using own by (simp add: owned_def)
  obtain s1 s2 where W: "Watch [] ?s = (s_nextw ?s, s1)" "watch_recv (s_nextw ?s) s1 = (None, s2)"
      "blocked (s_nextw ?s) s2" "same_pod ?s s2"
    using Watch_blocks [OF f] by blast
  then have "flags_state J jc d q (fleet_local (Suc 0) s2 F, \<lparr>wk_watch = Some (s_nextw ?s), wk_current = wk_current w\<rparr>)"
    using owned_local [OF own _ W(4)] len by (simp add: flags_state_def following_def fleet_local_def)
  moreover have "worker_start (F, w) =
      (fleet_local (Suc 0) s2 F, \<lparr>wk_watch = Some (s_nextw ?s), wk_current = wk_current w\<rparr>)"
    using W(1,2) by (simp add: worker_start_def)
  ultimately show ?thesis by blast
qed

text \<open>The event of one message, taken by the goroutine.\<close>

lemma worker_wake_ok:
  assumes own: "flags_owned J jc d q F" and s: "watching i ev (fl_pods F ! Suc 0)" and w: "wk_watch w = Some i"
  shows "\<exists>F'. worker_wake (F, w) =
      ((F', w\<lparr>wk_current := fst (worker_event ev (wk_current w))\<rparr>), snd (worker_event ev (wk_current w))) \<and>
    flags_state J jc d q (F', w\<lparr>wk_current := fst (worker_event ev (wk_current w))\<rparr>)"
proof -
  let ?s = "fl_pods F ! Suc 0"
  obtain s1 s2 where r: "watch_recv i ?s = (Some ev, s1)" "watch_recv i s1 = (None, s2)" "blocked i s2" "same_pod ?s s2"
    using take_blocks [OF s] by blast
  have "flags_state J jc d q (fleet_local (Suc 0) s2 F, w\<lparr>wk_current := fst (worker_event ev (wk_current w))\<rparr>)"
    using owned_local [OF own _ r(4)] own r(3) w by (simp add: flags_state_def following_def fleet_local_def owned_def)
  moreover have "w_buf (s_wheap ?s i) = [ev]" using s by (simp add: watching_def)
  then have "worker_wake (F, w) = ((fleet_local (Suc 0) s2 F,
      w\<lparr>wk_current := fst (worker_event ev (wk_current w))\<rparr>), snd (worker_event ev (wk_current w)))"
    using r(1,2) w by (simp add: worker_wake_def Let_def case_prod_unfold)
  ultimately show ?thesis by blast
qed

lemma told_wake:
  fixes r :: time and m :: wireMessage and v :: Flag
  assumes st: "flags_state J jc d q (F, w)" and own: "flags_owned J jc d' q' F2"
    and F2: "fl_pods F2 ! Suc 0 = snd (applyMessage m v (check_skew r m (fl_pods F ! Suc 0)))"
    and new: "beats (msg_stamp m) (d (wm_Key m))"
  defines "ev \<equiv> worker_event (msg_event m v) (wk_current w)"
  defines "w' \<equiv> (if wk_watch w = None then w else w\<lparr>wk_current := fst ev\<rparr>)"
  shows "\<exists>F'. worker_wake (F2, w) = ((F', w'), if wk_watch w = None then [] else snd ev) \<and>
    flags_state J jc d' q' (F', w')"
proof -
  let ?s = "fl_pods F ! Suc 0" and ?s2 = "fl_pods F2 ! Suc 0"
  have o: "flags_owned J jc d q F" and f: "following ?s w" using st by (simp_all add: flags_state_def)
  have c: "calm J jc no_flag ''feature-flags'' d F" "Suc 0 < length (fl_pods F)" using o by (simp_all add: owned_def)
  then have s: "s_merger ?s = None" "beats (msg_stamp m) (s_data ?s (wm_Key m))"
    using running_pod(3) [of _ _ _ J jc no_flag "''feature-flags''" F "Suc 0"] new by (auto simp: calm_def)
  show ?thesis
  proof (cases "wk_watch w")
    case None
    then have "watch_inv ?s" "\<not> s_closed ?s" "s_watchers ?s = []" "wk_current w = None" using f by (simp_all add: following_def)
    with message_reaches_watcher(1,2) [OF this(1) s, where v = v and r = r] None
    have "following ?s2 w" by (simp add: F2 following_def check_skew_def reportError_def Let_def)
    with None own show ?thesis by (simp add: worker_wake_def flags_state_def w'_def)
  next
    case (Some i)
    then have "watching i (msg_event m v) ?s2"
      unfolding F2 using f by (intro message_wakes [OF _ s]) (simp add: following_def)
    from worker_wake_ok [OF own this Some] Some show ?thesis by (simp add: w'_def ev_def)
  qed
qed

subsection \<open>The stages\<close>

definition stage_lines :: "Flag \<Rightarrow> flag_line list" where
  "stage_lines f = [WorkerSet flag_key ''operator'' (fg_Rollout f) (fg_Note f), AppReads (fg_Rollout f)]"

lemma flag_key_utf8: "valid_utf8 flag_key"
  by (simp add: flag_key_def valid_utf8_def of_char_def)

lemma flags_stage_ok:
  assumes st: "flags_state J jc d q (F, w)" and q: "q + 1 \<noteq> 0" and p: "Marshal jc f = Inr p"
    and enc: "\<forall>m. wm_Timestamp m = now \<longrightarrow> (\<exists>raw. marshalMsg J m = Inr raw)"
    and new: "beats (Stamp now ''operator'' (q + 1)) (d flag_key)"
  shows "\<exists>F' w' e. flags_stage J now r f (F, w) =
      ((F', w'), if wk_watch w = None then [] else stage_lines f) \<and>
    flags_state J jc (d(flag_key \<mapsto> e)) (q + 1) (F', w') \<and> wk_watch w' = wk_watch w \<and>
    entry_stamp e = Stamp now ''operator'' (q + 1)"
proof -
  have own: "flags_owned J jc d q F" using st by (simp add: flags_state_def)
  obtain F1 m where F1: "fleet_write memory_transport J now 0 (PodSet flag_key f) F = (None, F1)"
    and o1: "flags_owned J jc (d(flag_key \<mapsto> msg_entry m f)) (q + 1) (settle mem_recv mem_queue J r F1)"
    and m: "msg_stamp m = Stamp now ''operator'' (q + 1)" "wm_Kind m = kindSet" "wm_Key m = flag_key"
    and s1: "fl_pods (settle mem_recv mem_queue J r F1) ! Suc 0 =
      snd (applyMessage m f (check_skew r m (fl_pods F ! Suc 0)))"
    using owned_Set [OF own q flag_key_utf8 p enc new, of r] by auto
  have ev: "worker_event (msg_event m f) cur =
      (Some f, [WorkerSet flag_key ''operator'' (fg_Rollout f) (fg_Note f)])" for cur
    using m by (simp add: worker_event_def msg_event_def msg_stamp_def kindSet_def kindDelete_def)
  have "beats (msg_stamp m) (d (wm_Key m))" using new m by simp
  note wake = told_wake [OF st o1 s1 this]
  have cur: "wk_watch w = None \<Longrightarrow> wk_current w = None" using st by (simp add: flags_state_def following_def)
  obtain F' where "worker_wake (settle mem_recv mem_queue J r F1, w) =
      ((F', if wk_watch w = None then w else w\<lparr>wk_current := Some f\<rparr>),
       if wk_watch w = None then [] else [WorkerSet flag_key ''operator'' (fg_Rollout f) (fg_Note f)])"
    and "flags_state J jc (d(flag_key \<mapsto> msg_entry m f)) (q + 1)
      (F', if wk_watch w = None then w else w\<lparr>wk_current := Some f\<rparr>)"
    using wake unfolding ev fst_conv snd_conv by blast
  then show ?thesis
    using F1 cur m(1)
    by (intro exI [of _ F'] exI [of _ "if wk_watch w = None then w else w\<lparr>wk_current := Some f\<rparr>"]
        exI [of _ "msg_entry m f"]) (simp add: flags_stage_def stage_lines_def)
qed

lemma flags_rollback_ok:
  assumes st: "flags_state J jc d q (F, w)" and q: "q + 1 \<noteq> 0"
    and enc: "\<forall>m. wm_Timestamp m = now \<longrightarrow> (\<exists>raw. marshalMsg J m = Inr raw)"
    and new: "beats (Stamp now ''operator'' (q + 1)) (d flag_key)"
  shows "\<exists>F' w' d'. flags_rollback J now r (F, w) =
      ((F', w'), (if wk_watch w = None then [] else [WorkerDelete flag_key ''operator'']) @ [AppReadsNil]) \<and>
    flags_state J jc d' (q + 1) (F', w')"
proof -
  have own: "flags_owned J jc d q F" using st by (simp add: flags_state_def)
  obtain F1 m where F1: "fleet_write memory_transport J now 0 (PodDelete flag_key) F = (None, F1)"
    and o1: "flags_owned J jc (d(flag_key \<mapsto> msg_entry m no_flag)) (q + 1) (settle mem_recv mem_queue J r F1)"
    and m: "msg_stamp m = Stamp now ''operator'' (q + 1)" "wm_Kind m = kindDelete" "wm_Key m = flag_key"
    and s1: "fl_pods (settle mem_recv mem_queue J r F1) ! Suc 0 =
      snd (applyMessage m no_flag (check_skew r m (fl_pods F ! Suc 0)))"
    using owned_Delete [OF own q flag_key_utf8 enc new, of r] by auto
  have ev: "worker_event (msg_event m no_flag) cur = (None, [WorkerDelete flag_key ''operator''])" for cur
    using m by (simp add: worker_event_def msg_event_def msg_stamp_def)
  have "beats (msg_stamp m) (d (wm_Key m))" using new m by simp
  note wake = told_wake [OF st o1 s1 this]
  have cur: "wk_watch w = None \<Longrightarrow> wk_current w = None" using st by (simp add: flags_state_def following_def)
  obtain F' where "worker_wake (settle mem_recv mem_queue J r F1, w) =
      ((F', if wk_watch w = None then w else w\<lparr>wk_current := None\<rparr>),
       if wk_watch w = None then [] else [WorkerDelete flag_key ''operator''])"
    and "flags_state J jc (d(flag_key \<mapsto> msg_entry m no_flag)) (q + 1)
      (F', if wk_watch w = None then w else w\<lparr>wk_current := None\<rparr>)"
    using wake unfolding ev fst_conv snd_conv by blast
  then show ?thesis using F1 cur
    by (intro exI [of _ F'] exI [of _ "if wk_watch w = None then w else w\<lparr>wk_current := None\<rparr>"]
        exI [of _ "d(flag_key \<mapsto> msg_entry m no_flag)"]) (simp add: flags_rollback_def)
qed

text \<open>The deferred calls close both stores and the broker, and with them the worker's channel.\<close>

lemma flags_close:
  fixes J' :: Json and now :: time and ks :: "nat \<Rightarrow> string list"
  assumes "flags_state J jc d q (F, w)"
  defines "F' \<equiv> close_pods J' now ks 2 F"
  shows "worker_end w F' = [WatchClosed] \<and> m_closed (fl_tr F') \<and> list_all s_closed (fl_pods F')"
proof -
  let ?s = "fl_pods F ! Suc 0"
  have len: "length (fl_pods F) = 2" using assms(1) by (simp add: flags_state_def owned_def)
  have "blocked i ?s" if "wk_watch w = Some i" for i using assms(1) that by (simp add: flags_state_def following_def)
  then have "watch_ends (wk_watch w) (fl_pods F' ! Suc 0)"
    unfolding F'_def using len by (intro close_pods_end_watch) auto
  moreover have "m_closed (fl_tr F')" "list_all s_closed (fl_pods F')"
    unfolding F'_def list_all_length using close_pods_closed [of 2 F J' now ks] len by simp_all
  ultimately show ?thesis by (simp add: worker_end_def)
qed

text \<open>What the fleet holds under the key is the operator's last write, not newer than the clocks to come.\<close>

definition older :: "(string \<rightharpoonup> Flag entry) \<Rightarrow> uint64 \<Rightarrow> time list \<Rightarrow> bool" where
  "older d q xs \<longleftrightarrow> (\<forall>e. d flag_key = Some e \<longrightarrow> (\<exists>t. entry_stamp e = Stamp t ''operator'' q \<and> (\<forall>x \<in> set xs. t \<le> x)))"

lemma older_beats:
  assumes "older d q (now # xs)" "q + 1 \<noteq> 0"
  shows "beats (Stamp now ''operator'' (q + 1)) (d flag_key)"
proof (cases "d flag_key")
  case (Some e)
  then obtain t where t: "entry_stamp e = Stamp t ''operator'' q" "t \<le> now" using assms(1) by (auto simp: older_def)
  with seq_grows [OF assms(2)] Some show ?thesis by (auto simp: less_stamp_def)
qed simp

lemma flags_loop_ok:
  assumes "flags_state J jc d q (F, w)" "(wk_watch w = None) = (n \<le> late)" "length ts = length fs"
    and "sorted (map fst ts @ [fin])" "older d q (map fst ts @ [fin])" "unat q + length fs < 2 ^ 64"
    and "\<forall>f \<in> set fs. \<exists>p. Marshal jc f = Inr p"
    and "\<forall>m. wm_Timestamp m \<in> set (map fst ts) \<longrightarrow> (\<exists>raw. marshalMsg J m = Inr raw)"
  shows "\<exists>F' w' d' q'. flags_loop J late n ts fs (F, w) out =
      ((F', w'), out @ concat (map stage_lines (drop (late - n) fs))) \<and>
    flags_state J jc d' q' (F', w') \<and> (wk_watch w' = None) = (n + length fs \<le> late) \<and>
    older d' q' [fin] \<and> unat q' = unat q + length fs"
  using assms
proof (induction fs arbitrary: d q F w n ts out)
  case Nil
  then show ?case by auto
next
  case (Cons f fs)
  obtain now r ts' where ts: "ts = (now, r) # ts'" using Cons.prems(3) by (cases ts) auto
  obtain p where p: "Marshal jc f = Inr p" using Cons.prems(7) by auto
  have q: "q + 1 \<noteq> 0" "unat (q + 1) = Suc (unat q)" using no_wrap [of q "length fs"] Cons.prems(6) by simp_all
  obtain F0 w0 where st0: "(if n = late then worker_start (F, w) else (F, w)) = (F0, w0)"
      "flags_state J jc d q (F0, w0)" and w0: "(wk_watch w0 = None) = (n < late)"
  proof (cases "n = late")
    case True
    with Cons.prems(2) have "wk_watch w = None" by simp
    from worker_start_ok [OF Cons.prems(1) this] True that show ?thesis by fastforce
  next
    case False
    with Cons.prems(1,2) that show ?thesis by force
  qed
  have enc: "\<forall>m. wm_Timestamp m = now \<longrightarrow> (\<exists>raw. marshalMsg J m = Inr raw)" using Cons.prems(8) ts by simp
  have "beats (Stamp now ''operator'' (q + 1)) (d flag_key)" using Cons.prems(5) q(1) ts by (auto intro: older_beats)
  from flags_stage_ok [OF st0(2) q(1) p enc this, of r] obtain F1 w1 e where
      s1: "flags_stage J now r f (F0, w0) = ((F1, w1), if wk_watch w0 = None then [] else stage_lines f)"
      "flags_state J jc (d(flag_key \<mapsto> e)) (q + 1) (F1, w1)" "wk_watch w1 = wk_watch w0"
      "entry_stamp e = Stamp now ''operator'' (q + 1)" by blast
  let ?out = "out @ (if wk_watch w0 = None then [] else stage_lines f)"
  have "(wk_watch w1 = None) = (Suc n \<le> late)" "length ts' = length fs" "sorted (map fst ts' @ [fin])"
      "older (d(flag_key \<mapsto> e)) (q + 1) (map fst ts' @ [fin])" "unat (q + 1) + length fs < 2 ^ 64"
      "\<forall>f \<in> set fs. \<exists>p. Marshal jc f = Inr p"
      "\<forall>m. wm_Timestamp m \<in> set (map fst ts') \<longrightarrow> (\<exists>raw. marshalMsg J m = Inr raw)"
    using s1(3,4) w0 q Cons.prems(3,4,6-8) ts by (auto simp: older_def)
  from Cons.IH [OF s1(2) this, of ?out] obtain F' w' d' q' where IH:
      "flags_loop J late (Suc n) ts' fs (F1, w1) ?out =
        ((F', w'), ?out @ concat (map stage_lines (drop (late - Suc n) fs)))"
      "flags_state J jc d' q' (F', w')" "(wk_watch w' = None) = (Suc n + length fs \<le> late)" "older d' q' [fin]"
      "unat q' = unat (q + 1) + length fs"
    by (elim exE conjE) (rule that)
  have lines: "(if wk_watch w0 = None then [] else stage_lines f) @ concat (map stage_lines (drop (late - Suc n) fs)) =
      concat (map stage_lines (drop (late - n) (f # fs)))"
  proof (cases "late - n")
    case (Suc x)
    then have "late - Suc n = x" "n < late" by simp_all
    with Suc w0 show ?thesis by simp
  qed (use w0 in auto)
  have "flags_loop J late n ts (f # fs) (F, w) out =
      ((F', w'), out @ concat (map stage_lines (drop (late - n) (f # fs))))"
    unfolding lines [symmetric] using st0(1) s1(1) IH(1) by (simp add: ts Let_def)
  with IH(2-5) q(2) show ?case by auto
qed

subsection \<open>Properties\<close>

text \<open>
  C13. The worker's pointer shows the flag the operator has set. When flags and messages can be encoded
  and decoded and the operator's clock does not go back, the program ends without an error: after every
  stage from the one on at which the worker's goroutine has called \<^verbatim>\<open>Watch\<close>, the goroutine has printed the change and
  the application reads the rollout of that stage; the stages before are not seen; after the rollback the
  application reads nil. At the end both stores and the broker are closed, and a goroutine that gets to it has left
  its loop.
\<close>

theorem feature_flags_run:
  assumes "json_msg_roundtrip J" "codec_roundtrip jc" "\<forall>f \<in> set stages. \<exists>p. Marshal jc f = Inr p"
    and "\<forall>m. wm_Timestamp m \<in> set (map fst clocks @ [fst fin]) \<longrightarrow> (\<exists>raw. marshalMsg J m = Inr raw)"
    and "length clocks = length stages" "sorted (map fst clocks @ [fst fin])"
  shows "\<exists>F. flags_main jc J rid late clocks fin close ks ended =
      Inr (concat (map stage_lines (drop late stages)) @
        (if late \<le> length stages then [WorkerDelete flag_key ''operator''] else []) @ [AppReadsNil] @
        (if ended then [WatchClosed] else []), F) \<and>
    m_closed (fl_tr F) \<and> list_all s_closed (fl_pods F)"
proof -
  let ?w = "\<lparr>wk_watch = None, wk_current = None\<rparr>"
  obtain A F where new: "flags_mustNew jc J rid ''operator'' (no_pods (NewMemoryTransport False)) = Inr A"
      "flags_mustNew jc J rid ''worker-1'' A = Inr F" and own: "flags_owned J jc Map.empty 0 F"
    and pod: "fl_pods F ! Suc 0 = flags_pod jc ''worker-1''"
    using flags_setup [OF assms(1,2), of rid] by blast
  have "\<not> s_closed (flags_pod jc ''worker-1'')" using flags_pod_simps(4) [of "''worker-1''" jc] by (simp add: pod_id_def)
  then have st: "flags_state J jc Map.empty 0 (F, ?w)"
    using own pod by (simp add: flags_state_def following_def flags_pod_simps)
  have old: "older Map.empty 0 (map fst clocks @ [fst fin])" by (simp add: older_def)
  have w: "(wk_watch ?w = None) = (0 \<le> late)" "unat (0 :: uint64) + length stages < 2 ^ 64" by (simp_all add: stages_def)
  have enc: "\<forall>m. wm_Timestamp m \<in> set (map fst clocks) \<longrightarrow> (\<exists>raw. marshalMsg J m = Inr raw)"
      "\<forall>m. wm_Timestamp m = fst fin \<longrightarrow> (\<exists>raw. marshalMsg J m = Inr raw)" using assms(4) by simp_all
  obtain F1 w1 d1 q1 where loop: "flags_loop J late 0 clocks stages (F, ?w) [] =
        ((F1, w1), [] @ concat (map stage_lines (drop (late - 0) stages)))"
      "flags_state J jc d1 q1 (F1, w1)" "(wk_watch w1 = None) = (0 + length stages \<le> late)" "older d1 q1 [fst fin]"
      "unat q1 = unat (0 :: uint64) + length stages"
    using flags_loop_ok [OF st w(1) assms(5,6) old w(2) assms(3) enc(1), of "[]"]
    by (elim exE conjE) (rule that)
  have q1: "q1 + 1 \<noteq> 0" using no_wrap [of q1 0] loop(5) by (simp add: stages_def)
  have new2: "beats (Stamp (fst fin) ''operator'' (q1 + 1)) (d1 flag_key)" by (rule older_beats [OF loop(4) q1])
  obtain F2 w2 where st2: "(if late = length stages then worker_start (F1, w1) else (F1, w1)) = (F2, w2)"
      "flags_state J jc d1 q1 (F2, w2)" and w2: "(wk_watch w2 = None) = (length stages < late)"
  proof (cases "late = length stages")
    case True
    with loop(3) have "wk_watch w1 = None" by simp
    from worker_start_ok [OF loop(2) this] True that show ?thesis by fastforce
  next
    case False
    with loop(2,3) that show ?thesis by force
  qed
  obtain F3 w3 d3 where fin: "flags_rollback J (fst fin) (snd fin) (F2, w2) =
      ((F3, w3), (if wk_watch w2 = None then [] else [WorkerDelete flag_key ''operator'']) @ [AppReadsNil])"
      "flags_state J jc d3 (q1 + 1) (F3, w3)"
    using flags_rollback_ok [OF st2(2) q1 enc(2) new2, of "snd fin"] by blast
  show ?thesis
    using w2 st2(1) loop(1) fin(1) flags_close [OF fin(2), of J close ks]
    by (simp add: flags_main_def new Let_def)
qed

text \<open>A concrete codec of flags.\<close>

definition sample_flag_codec :: "Flag Codec" where
  "sample_flag_codec =
    \<lparr>Marshal = (\<lambda>f. Inr (put_nat (if fg_Enabled f then 1 else 0) @ put_nat (unat (fg_Rollout f)) @
       put_bytes (str_bytes (fg_Note f)))),
     Unmarshal = (\<lambda>b. or_bad (
       Option.bind (get_nat b) (\<lambda>(e, r1).
       Option.bind (get_nat r1) (\<lambda>(n, r2).
       Option.bind (get_bytes r2) (\<lambda>(note, r3).
         Some \<lparr>fg_Enabled = (e = 1), fg_Rollout = of_nat n, fg_Note = bytes_str note\<rparr>)))))\<rparr>"

lemma sample_flag_codec_roundtrip: "codec_roundtrip sample_flag_codec"
proof -
  have "get_bytes (put_bytes b) = Some (b, [])" for b using get_put_bytes [of b "[]"] by simp
  then show ?thesis by (auto simp: codec_roundtrip_def sample_flag_codec_def or_bad_def)
qed

theorem feature_flags_run_witness:
  "\<exists>F. flags_main sample_flag_codec sample_json (Inr ''id'') 2 [(1, 2), (3, 4), (5, 6), (7, 8)] (9, 10) 11 (\<lambda>_. []) True =
    Inr ([WorkerSet flag_key ''operator'' 50 ''wide'', AppReads 50,
          WorkerSet flag_key ''operator'' 100 ''GA'', AppReads 100,
          WorkerDelete flag_key ''operator'', AppReadsNil, WatchClosed], F) \<and>
    m_closed (fl_tr F) \<and> list_all s_closed (fl_pods F)"
proof -
  have "\<forall>f \<in> set stages. \<exists>p. Marshal sample_flag_codec f = Inr p" by (simp add: sample_flag_codec_def)
  from feature_flags_run [OF sample_json_msg sample_flag_codec_roundtrip this,
      of "[(1, 2), (3, 4), (5, 6), (7, 8)]" "(9, 10)" "Inr ''id''" 2 11 "\<lambda>_. []" True]
  show ?thesis by (simp add: stages_def stage_lines_def)
qed

end
