(* ===== verification/Basic_Example.thy ===== *)
theory Basic_Example
  imports Fleet_Watch
begin

section \<open>The basic program\<close>

text \<open>
  \<^verbatim>\<open>examples/basic/main.go\<close>: two stores share a configuration through one broker. A goroutine
  prints what \<^verbatim>\<open>Watch\<close> of the second store tells it; \<^verbatim>\<open>main\<close> sets the configuration at the first, sleeps and reads
  it at the second. Whether the goroutine comes to call \<^verbatim>\<open>Watch\<close> before the message has arrived is up to the
  scheduler (\<open>early\<close>). The sleep means that both pods have handled their channels and that the goroutine
  has taken the events it was sent. A map of the configuration is the list of its entries in the order of the keys, in which
  \<^verbatim>\<open>fmt\<close> and \<^verbatim>\<open>encoding/json\<close> go through it; \<^term>\<open>None\<close> is the nil map.
\<close>

record Config =
  cfg_RateLimit :: int64
  cfg_FeatureFlags :: "(string \<times> bool) list option"

type_synonym basic_fleet = "(Config, MemoryTransport) fleet"

definition no_config :: Config where
  "no_config = \<lparr>cfg_RateLimit = 0, cfg_FeatureFlags = None\<rparr>"

datatype basic_line =
    EventLine EventKind string string Config
  | GetLine bool Config

definition basic_new :: "Config Codec \<Rightarrow> Json \<Rightarrow> goerror + string \<Rightarrow> string \<Rightarrow> basic_fleet \<Rightarrow> goerror + basic_fleet" where
  "basic_new jc J rid nodeID F =
    (case fleet_new no_config jc J rid ''rate-limits'' [OptNodeID nodeID] memory_transport F of
       (Some e, _) \<Rightarrow> Inl e
     | (None, F') \<Rightarrow> Inr F')"

text \<open>The goroutine: the loop over the channel until it blocks; \<open>n\<close> bounds the receives.\<close>

fun basic_loop :: "nat \<Rightarrow> nat \<Rightarrow> Config store \<Rightarrow> basic_line list \<Rightarrow> Config store \<times> basic_line list" where
  "basic_loop 0 i s out = (s, out)"
| "basic_loop (Suc n) i s out =
    (case watch_recv i s of
       (None, s') \<Rightarrow> (s', out)
     | (Some ev, s') \<Rightarrow>
         basic_loop n i s' (out @ [EventLine (ev_Kind ev) (ev_Key ev) (ev_Origin ev) (ev_Value ev)]))"

definition basic_watch :: "basic_fleet \<Rightarrow> nat \<times> basic_fleet" where
  "basic_watch F =
    (case Watch [] (fl_pods F ! 1) of (i, s1) \<Rightarrow>
     case basic_loop 1 i s1 [] of (s2, _) \<Rightarrow> (i, fleet_local 1 s2 F))"

definition basic_wake :: "nat \<Rightarrow> basic_fleet \<Rightarrow> basic_fleet \<times> basic_line list" where
  "basic_wake i F =
    (case basic_loop (Suc (length (w_buf (s_wheap (fl_pods F ! 1) i)))) i (fl_pods F ! 1) [] of
       (s', out) \<Rightarrow> (fleet_local 1 s' F, out))"

definition global_config :: Config where
  "global_config = \<lparr>cfg_RateLimit = 1000, cfg_FeatureFlags = Some [(''beta_chat'', True)]\<rparr>"

text \<open>\<^verbatim>\<open>log.Fatal\<close> ends the program with the error and without the deferred calls.\<close>

definition basic_main :: "Config Codec \<Rightarrow> Json \<Rightarrow> goerror + string \<Rightarrow> bool \<Rightarrow> time \<Rightarrow> time \<Rightarrow> time \<Rightarrow> (nat \<Rightarrow> string list)
    \<Rightarrow> goerror + basic_line list \<times> basic_fleet" where
  "basic_main jc J rid early now r close ks =
    (case basic_new jc J rid ''pod-1'' (no_pods (NewMemoryTransport False)) of
       Inl e \<Rightarrow> Inl e
     | Inr F \<Rightarrow>
         (case basic_new jc J rid ''pod-2'' F of
            Inl e \<Rightarrow> Inl e
          | Inr F \<Rightarrow>
              let (ch, F) = (if early then (case basic_watch F of (i, F') \<Rightarrow> (Some i, F')) else (None, F)) in
              (case fleet_write memory_transport J now 0 (PodSet ''global'' global_config) F of
                 (Some e, _) \<Rightarrow> Inl e
               | (None, F) \<Rightarrow>
                   let F = settle mem_recv mem_queue J r F;
                       (F, events) = (case ch of None \<Rightarrow> (F, []) | Some i \<Rightarrow> basic_wake i F);
                       ((cfg, ok), F) = fleet_get 1 ''global'' F
                   in Inr (events @ [GetLine ok cfg], close_pods J close ks 2 F))))"

subsection \<open>The setup\<close>

definition basic_pod :: "Config Codec \<Rightarrow> string \<Rightarrow> Config store" where
  "basic_pod jc i = apply_options [OptNodeID i] (default_store no_config jc ''rate-limits'')"

lemma basic_pod_simps:
  "i \<noteq> '''' \<Longrightarrow> s_nodeID (basic_pod jc i) = i" "s_merger (basic_pod jc i) = None" "s_codec (basic_pod jc i) = jc"
  "i \<noteq> '''' \<Longrightarrow> pod_id (basic_pod jc i) = (0, i, jc, None, no_config, ''rate-limits'', False)"
  "s_watchers (basic_pod jc i) = []" "watch_inv (basic_pod jc i)"
  by (simp_all add: basic_pod_def apply_options_def option_defs default_store_def pod_id_def watch_inv_def)

abbreviation (input) basic_owned :: "Json \<Rightarrow> Config Codec \<Rightarrow> (string \<rightharpoonup> Config entry) \<Rightarrow> uint64 \<Rightarrow> basic_fleet \<Rightarrow> bool" where
  "basic_owned J jc d q F \<equiv> owned J jc no_config ''rate-limits'' 2 ''pod-1'' d q F"

lemma basic_new_joins:
  assumes "fleet_start mem_up m_subs mem_queue J jc no_config ''rate-limits'' F"
    and "m_snapshots (fl_tr F) ''rate-limits'' = None"
    and "i \<noteq> ''''" "valid_utf8 i" "i \<notin> s_nodeID ` set (fl_pods F)"
  shows "\<exists>F'. basic_new jc J rid i F = Inr F' \<and> fl_pods F' = fl_pods F @ [basic_pod jc i] \<and>
    fleet_start mem_up m_subs mem_queue J jc no_config ''rate-limits'' F' \<and>
    m_snapshots (fl_tr F') ''rate-limits'' = None"
  using fleet_new_joins [OF assms(1,2), where opts = "[OptNodeID i]" and rid = rid] assms(3-5)
    basic_pod_simps(1-3) [unfolded basic_pod_def]
  by (auto simp: basic_new_def basic_pod_def)

lemma basic_setup:
  assumes "json_msg_roundtrip J" "codec_roundtrip jc"
  shows "\<exists>A F. basic_new jc J rid ''pod-1'' (no_pods (NewMemoryTransport False)) = Inr A \<and>
    basic_new jc J rid ''pod-2'' A = Inr F \<and> basic_owned J jc Map.empty 0 F \<and>
    fl_pods F ! Suc 0 = basic_pod jc ''pod-2''"
proof -
  let ?N = "no_pods (NewMemoryTransport False) :: basic_fleet"
  have u: "valid_utf8 ''pod-1''" "valid_utf8 ''pod-2''" by (simp_all add: valid_utf8_def of_char_def)
  note n0 = no_pods_start [OF assms, where z = no_config and topic = "''rate-limits''" and b = False]
  obtain A where A: "basic_new jc J rid ''pod-1'' ?N = Inr A" "fl_pods A = [basic_pod jc ''pod-1'']"
    and sA: "fleet_start mem_up m_subs mem_queue J jc no_config ''rate-limits'' A"
      "m_snapshots (fl_tr A) ''rate-limits'' = None"
    using basic_new_joins [OF conjunct1 [OF n0] conjunct2 [OF n0] _ u(1), of rid] by (auto simp: no_pods_def)
  obtain B where B: "basic_new jc J rid ''pod-2'' A = Inr B" "fl_pods B = [basic_pod jc ''pod-1'', basic_pod jc ''pod-2'']"
    and sB: "fleet_start mem_up m_subs mem_queue J jc no_config ''rate-limits'' B"
    using basic_new_joins [OF sA _ u(2), of rid] A(2) by (auto simp: basic_pod_simps)
  show ?thesis using A(1) B calm_start [OF sB] by (simp add: owned_def basic_pod_simps)
qed

subsection \<open>The goroutine\<close>

lemma basic_watch_blocks:
  assumes own: "basic_owned J jc d q F" and s: "watch_inv (fl_pods F ! Suc 0)" "\<not> s_closed (fl_pods F ! Suc 0)"
    "s_watchers (fl_pods F ! Suc 0) = []"
  shows "\<exists>i F'. basic_watch F = (i, F') \<and> basic_owned J jc d q F' \<and> blocked i (fl_pods F' ! Suc 0)"
proof -
  let ?s = "fl_pods F ! Suc 0"
  have len: "Suc 0 < length (fl_pods F)" using own by (simp add: owned_def)
  obtain s1 s2 where W: "Watch [] ?s = (s_nextw ?s, s1)" "watch_recv (s_nextw ?s) s1 = (None, s2)"
      "blocked (s_nextw ?s) s2" "same_pod ?s s2"
    using Watch_blocks [OF s] by blast
  then have "basic_watch F = (s_nextw ?s, fleet_local (Suc 0) s2 F)" by (simp add: basic_watch_def)
  with owned_local [OF own _ W(4)] W(3) len show ?thesis by (simp add: fleet_local_def)
qed

lemma basic_wake_prints:
  assumes own: "basic_owned J jc d q F" and s: "watching i ev (fl_pods F ! Suc 0)"
  shows "\<exists>F'. basic_wake i F = (F', [EventLine (ev_Kind ev) (ev_Key ev) (ev_Origin ev) (ev_Value ev)]) \<and>
    basic_owned J jc d q F'"
proof -
  let ?s = "fl_pods F ! Suc 0"
  obtain s1 s2 where r: "watch_recv i ?s = (Some ev, s1)" "watch_recv i s1 = (None, s2)" "same_pod ?s s2"
    using take_blocks [OF s] by blast
  have "w_buf (s_wheap ?s i) = [ev]" using s by (simp add: watching_def)
  then have "basic_wake i F = (fleet_local (Suc 0) s2 F, [EventLine (ev_Kind ev) (ev_Key ev) (ev_Origin ev) (ev_Value ev)])"
    using r(1,2) by (simp add: basic_wake_def)
  with owned_local [OF own _ r(3)] show ?thesis by simp
qed

subsection \<open>Properties\<close>

text \<open>
  What one pod sets, the other reads. When configurations and messages can be encoded and decoded the
  basic program ends without an error: the second pod reads the configuration that the first has set, the goroutine has
  printed exactly that change if it was watching when the message came, and at the end both
  stores and the broker are closed.
\<close>

theorem basic_run:
  assumes J: "json_msg_roundtrip J" "codec_roundtrip jc" and p: "Marshal jc global_config = Inr p"
    and enc: "\<forall>m. wm_Timestamp m = now \<longrightarrow> (\<exists>raw. marshalMsg J m = Inr raw)"
  shows "\<exists>F. basic_main jc J rid early now r close ks =
      Inr ((if early then [EventLine EventSet ''global'' ''pod-1'' global_config] else []) @
        [GetLine True global_config], F) \<and>
    m_closed (fl_tr F) \<and> list_all s_closed (fl_pods F)"
proof -
  obtain A F where new: "basic_new jc J rid ''pod-1'' (no_pods (NewMemoryTransport False)) = Inr A"
      "basic_new jc J rid ''pod-2'' A = Inr F" and own: "basic_owned J jc Map.empty 0 F"
    and pod: "fl_pods F ! Suc 0 = basic_pod jc ''pod-2''"
    using basic_setup [OF J, of rid] by blast
  have "\<not> s_closed (basic_pod jc ''pod-2'')" using basic_pod_simps(4) [of "''pod-2''" jc] by (simp add: pod_id_def)
  then obtain ch F1 where start: "(if early then (case basic_watch F of (i, F') \<Rightarrow> (Some i, F')) else (None, F)) = (ch, F1)"
    and o1: "basic_owned J jc Map.empty 0 F1" and ch: "(ch = None) = (\<not> early)"
    and b: "\<And>i. ch = Some i \<Longrightarrow> blocked i (fl_pods F1 ! Suc 0)"
    using basic_watch_blocks [OF own] own by (cases early) (auto simp: pod basic_pod_simps)
  have k: "valid_utf8 ''global''" by (simp add: valid_utf8_def of_char_def)
  obtain F2 m where F2: "fleet_write memory_transport J now 0 (PodSet ''global'' global_config) F1 = (None, F2)"
    and o2: "basic_owned J jc [''global'' \<mapsto> msg_entry m global_config] 1 (settle mem_recv mem_queue J r F2)"
    and m: "msg_stamp m = Stamp now ''pod-1'' 1" "wm_Kind m = kindSet" "wm_Key m = ''global''"
    and s2: "fl_pods (settle mem_recv mem_queue J r F2) ! Suc 0 =
      snd (applyMessage m global_config (check_skew r m (fl_pods F1 ! Suc 0)))"
    using owned_Set [OF o1 _ k p enc, of r] by auto
  let ?F2 = "settle mem_recv mem_queue J r F2"
  have "calm J jc no_config ''rate-limits'' Map.empty F1" "Suc 0 < length (fl_pods F1)" using o1 by (simp_all add: owned_def)
  then have s1: "s_merger (fl_pods F1 ! Suc 0) = None" "beats (msg_stamp m) (s_data (fl_pods F1 ! Suc 0) (wm_Key m))"
    using running_pod(3) [of _ _ _ J jc no_config "''rate-limits''" F1 "Suc 0"] by (auto simp: calm_def)
  have ev: "msg_event m global_config = \<lparr>ev_Kind = EventSet, ev_Key = ''global'', ev_Value = global_config,
      ev_Origin = ''pod-1'', ev_Timestamp = now\<rparr>"
    using m by (simp add: msg_event_def msg_stamp_def kindSet_def kindDelete_def)
  obtain F3 where F3: "(case ch of None \<Rightarrow> (?F2, []) | Some i \<Rightarrow> basic_wake i ?F2) =
      (F3, if early then [EventLine EventSet ''global'' ''pod-1'' global_config] else [])"
    and o3: "basic_owned J jc [''global'' \<mapsto> msg_entry m global_config] 1 F3"
  proof (cases ch)
    case None
    with ch o2 that show ?thesis by simp
  next
    case (Some i)
    have "watching i (msg_event m global_config) (fl_pods ?F2 ! Suc 0)"
      unfolding s2 using b Some by (intro message_wakes [OF _ s1]) simp
    from basic_wake_prints [OF o2 this] Some ch that show ?thesis by (auto simp: ev)
  qed
  obtain F4 where F4: "fleet_get (Suc 0) ''global'' F3 = ((global_config, True), F4)" "length (fl_pods F4) = 2"
    using owned_get [OF o3, of "Suc 0" "''global''"] m(2) by (auto simp: kindSet_def kindDelete_def owned_def)
  have "m_closed (fl_tr (close_pods J close ks 2 F4))" "list_all s_closed (fl_pods (close_pods J close ks 2 F4))"
    unfolding list_all_length using close_pods_closed [of 2 F4 J close ks] F4(2) by simp_all
  then show ?thesis by (simp add: basic_main_def new start F2 F3 F4(1) Let_def)
qed

text \<open>A concrete codec of configurations.\<close>

definition put_flag :: "string \<times> bool \<Rightarrow> bytes" where
  "put_flag f = put_bytes (str_bytes (fst f)) @ put_nat (if snd f then 1 else 0)"

fun get_flags :: "nat \<Rightarrow> bytes \<Rightarrow> ((string \<times> bool) list) option" where
  "get_flags 0 b = Some []"
| "get_flags (Suc n) b =
    Option.bind (get_bytes b) (\<lambda>(k, r1).
    Option.bind (get_nat r1) (\<lambda>(v, r2).
      map_option ((#) (bytes_str k, v = 1)) (get_flags n r2)))"

lemma get_put_flags [simp]: "get_flags (length fs) (concat (map put_flag fs)) = Some fs"
  by (induction fs) (auto simp: put_flag_def)

definition sample_config_codec :: "Config Codec" where
  "sample_config_codec =
    \<lparr>Marshal = (\<lambda>c. Inr (put_nat (unat (cfg_RateLimit c)) @
       (case cfg_FeatureFlags c of
          None \<Rightarrow> put_nat 0
        | Some fs \<Rightarrow> put_nat (Suc (length fs)) @ concat (map put_flag fs)))),
     Unmarshal = (\<lambda>b. or_bad (
       Option.bind (get_nat b) (\<lambda>(l, r1).
       Option.bind (get_nat r1) (\<lambda>(n, r2).
         map_option (\<lambda>fs. \<lparr>cfg_RateLimit = of_nat l, cfg_FeatureFlags = fs\<rparr>)
           (case n of 0 \<Rightarrow> Some None | Suc n' \<Rightarrow> map_option Some (get_flags n' r2))))))\<rparr>"

lemma sample_config_codec_roundtrip: "codec_roundtrip sample_config_codec"
  unfolding codec_roundtrip_def
proof (intro allI impI)
  fix v p assume "Marshal sample_config_codec v = Inr p"
  then show "Unmarshal sample_config_codec p = Inr v"
    using get_put_nat [of 0 "[]"]
    by (cases v; cases "cfg_FeatureFlags v") (auto simp: sample_config_codec_def or_bad_def)
qed

theorem basic_run_witness:
  "\<exists>F. basic_main sample_config_codec sample_json (Inr ''id'') True 1 2 3 (\<lambda>_. []) =
      Inr ([EventLine EventSet ''global'' ''pod-1'' global_config, GetLine True global_config], F) \<and>
    m_closed (fl_tr F) \<and> list_all s_closed (fl_pods F)"
proof -
  obtain p where "Marshal sample_config_codec global_config = Inr p" by (simp add: sample_config_codec_def)
  from basic_run [OF sample_json_msg sample_config_codec_roundtrip this, of 1 "Inr ''id''" True 2 3 "\<lambda>_. []"]
  show ?thesis by simp
qed

end
