(* ===== verification/Rate_Limits.thy ===== *)
theory Rate_Limits
  imports Redis_Transport Fleet
begin

section \<open>Rate limits over Redis\<close>

text \<open>
  \<^verbatim>\<open>examples/redis/main.go\<close>: a process that shares its rate limits over Redis. Every tick it publishes the limits of
  the next step under its own key, until a signal arrives. The loop is a list of what happens next: a tick, a
  message that the receive loop of the store takes, the goroutine that watches the store getting to run, or a
  signal. The Redis client, the environment and the parsed command line (\<^verbatim>\<open>None\<close> for a flag that was not given) are
  arguments, as are the clock, the codec and the random id.
\<close>

record RateLimits =
  rl_PerUser :: int64
  rl_PerIP :: int64
  rl_BurstSize :: int64
  rl_UpdatedBy :: string

definition no_limits :: RateLimits where
  "no_limits = \<lparr>rl_PerUser = 0, rl_PerIP = 0, rl_BurstSize = 0, rl_UpdatedBy = ''''\<rparr>"

definition envOr :: "(string \<Rightarrow> string) \<Rightarrow> string \<Rightarrow> string \<Rightarrow> string" where
  "envOr getenv k d = (let v = getenv k in if v \<noteq> '''' then v else d)"

definition limits_flags :: "(string \<Rightarrow> string) \<Rightarrow> string option \<Rightarrow> string option \<Rightarrow> string \<times> string" where
  "limits_flags getenv fid fredis =
    (case fid of None \<Rightarrow> ''pod-1'' | Some i \<Rightarrow> i,
     case fredis of None \<Rightarrow> envOr getenv ''REDIS_ADDR'' ''localhost:6379'' | Some a \<Rightarrow> a)"

datatype limits_line =
    Connected string string
  | LimitsEvent "RateLimits Event"
  | LimitsSetFailed goerror
  | ShuttingDown string

text \<open>\<open>lr_watch\<close> is the channel of the goroutine, once it has called \<^verbatim>\<open>Watch\<close>.\<close>

record 'c limits_run =
  lr_store :: "RateLimits store"
  lr_tr :: "'c RedisTransport"
  lr_watch :: "nat option"
  lr_step :: int64
  lr_lines :: "limits_line list"

datatype limits_event = Tick time | Incoming time bytes | Goroutine | Interrupt

definition limits_at :: "string \<Rightarrow> int64 \<Rightarrow> RateLimits" where
  "limits_at i step = \<lparr>rl_PerUser = 100 * step, rl_PerIP = 1000 * step, rl_BurstSize = 50, rl_UpdatedBy = i\<rparr>"

definition limits_tick :: "'c RedisClient \<Rightarrow> Json \<Rightarrow> string \<Rightarrow> time \<Rightarrow> 'c limits_run \<Rightarrow> 'c limits_run" where
  "limits_tick R J i now st =
    (let step = lr_step st + 1 in
     case Set (redis_transport R) J now (i @ ''-policy'') (limits_at i step) (lr_store st) (lr_tr st) of
       (err, s', t') \<Rightarrow>
         st\<lparr>lr_step := step, lr_store := s', lr_tr := t',
           lr_lines := lr_lines st @ (case err of None \<Rightarrow> [] | Some e \<Rightarrow> [LimitsSetFailed e])\<rparr>)"

definition limits_goroutine :: "'c limits_run \<Rightarrow> 'c limits_run" where
  "limits_goroutine st =
    (case lr_watch st of
       None \<Rightarrow> (case Watch [] (lr_store st) of (w, s') \<Rightarrow> st\<lparr>lr_watch := Some w, lr_store := s'\<rparr>)
     | Some w \<Rightarrow>
         (case watch_recv w (lr_store st) of
            (None, s') \<Rightarrow> st\<lparr>lr_store := s'\<rparr>
          | (Some ev, s') \<Rightarrow> st\<lparr>lr_store := s', lr_lines := lr_lines st @ [LimitsEvent ev]\<rparr>))"

text \<open>The loop of \<^verbatim>\<open>main\<close>; the result says whether it has returned.\<close>

fun limits_loop :: "'c RedisClient \<Rightarrow> Json \<Rightarrow> string \<Rightarrow> limits_event list \<Rightarrow> 'c limits_run \<Rightarrow> bool \<times> 'c limits_run" where
  "limits_loop R J i [] st = (False, st)"
| "limits_loop R J i (Tick now # evs) st = limits_loop R J i evs (limits_tick R J i now st)"
| "limits_loop R J i (Incoming now raw # evs) st =
    limits_loop R J i evs (st\<lparr>lr_store := handleRaw J now raw (lr_store st)\<rparr>)"
| "limits_loop R J i (Goroutine # evs) st = limits_loop R J i evs (limits_goroutine st)"
| "limits_loop R J i (Interrupt # evs) st = (True, st\<lparr>lr_lines := lr_lines st @ [ShuttingDown i]\<rparr>)"

text \<open>The deferred calls: the store, then the transport. \<open>ks\<close> is the key order of the final flush.\<close>

definition limits_shutdown :: "'c RedisClient \<Rightarrow> Json \<Rightarrow> time \<Rightarrow> string list \<Rightarrow> 'c limits_run \<Rightarrow> 'c limits_run" where
  "limits_shutdown R J now ks st =
    (case Close (redis_transport R) J now ks (lr_store st) (lr_tr st) of
       (_, s', t') \<Rightarrow> st\<lparr>lr_store := s', lr_tr := snd (redis_Close R [''rate-limits''] t')\<rparr>)"

datatype limits_fatal = RedisFatal goerror string | StoreFatal goerror

definition limits_setup :: "'c RedisClient \<Rightarrow> (string \<Rightarrow> string \<Rightarrow> int \<Rightarrow> string option \<Rightarrow> 'c) \<Rightarrow> RateLimits Codec \<Rightarrow> Json
    \<Rightarrow> goerror + string \<Rightarrow> string \<Rightarrow> string \<Rightarrow> limits_fatal + 'c limits_run" where
  "limits_setup R connect jc J rid i addr =
    (case NewRedisTransport R connect \<lparr>ro_Addr = addr, ro_Password = '''', ro_DB = 0, ro_Prefix = '''',
            ro_Client = None, ro_TLSConfig = None\<rparr> of
       Inl (err, _) \<Rightarrow> Inl (RedisFatal err addr)
     | Inr r \<Rightarrow>
         (case New no_limits jc J rid ''rate-limits'' (Some (redis_transport R)) [OptNodeID i, OptErrorHandler True] r of
            (Inl err, _) \<Rightarrow> Inl (StoreFatal err)
          | (Inr s, r') \<Rightarrow>
              Inr \<lparr>lr_store = s, lr_tr = r', lr_watch = None, lr_step = 0, lr_lines = [Connected i addr]\<rparr>))"

definition limits_main :: "'c RedisClient \<Rightarrow> (string \<Rightarrow> string \<Rightarrow> int \<Rightarrow> string option \<Rightarrow> 'c) \<Rightarrow> RateLimits Codec \<Rightarrow> Json
    \<Rightarrow> goerror + string \<Rightarrow> (string \<Rightarrow> string) \<Rightarrow> string option \<Rightarrow> string option \<Rightarrow> limits_event list \<Rightarrow> time \<Rightarrow> string list
    \<Rightarrow> limits_fatal + bool \<times> 'c limits_run" where
  "limits_main R connect jc J rid getenv fid fredis evs fin ks =
    (case limits_flags getenv fid fredis of (i, addr) \<Rightarrow>
     case limits_setup R connect jc J rid i addr of
       Inl err \<Rightarrow> Inl err
     | Inr st \<Rightarrow>
         (case limits_loop R J i evs st of
            (False, st') \<Rightarrow> Inr (False, st')
          | (True, st') \<Rightarrow> Inr (True, limits_shutdown R J fin ks st')))"

subsection \<open>The own policy\<close>

text \<open>The ticks before the first signal.\<close>

fun ticks :: "limits_event list \<Rightarrow> time list" where
  "ticks [] = []"
| "ticks (Tick now # evs) = now # ticks evs"
| "ticks (Interrupt # evs) = []"
| "ticks (_ # evs) = ticks evs"

text \<open>
  A message under the own key that arrives is one the process itself has published: Redis sends it back to the
  publisher's own subscription, and \<^verbatim>\<open>handleRaw\<close> drops it by its origin. Other processes have ids, and so keys, of their own.
\<close>

definition own_key_own_origin :: "Json \<Rightarrow> string \<Rightarrow> string \<Rightarrow> limits_event list \<Rightarrow> bool" where
  "own_key_own_origin J me k evs \<longleftrightarrow>
    (\<forall>now raw m. Incoming now raw \<in> set evs \<longrightarrow> unmarshalMsg J raw = Inr m \<longrightarrow> wm_Key m = k \<longrightarrow> wm_Origin m = me)"

lemma handleRaw_own_key:
  "(\<forall>m. unmarshalMsg J raw = Inr m \<longrightarrow> wm_Key m = k \<longrightarrow> wm_Origin m = s_nodeID s) \<Longrightarrow>
   s_data (handleRaw J now raw s) k = s_data s k"
  by (auto simp: handleRaw_def Let_def applyMessage_data check_skew_def reportError_def split: sum.split)

text \<open>
  The invariant of the loop after \<open>n\<close> ticks, with the clocks \<open>ts\<close> to come.
\<close>

definition limits_inv :: "RateLimits Codec \<Rightarrow> string \<Rightarrow> nat \<Rightarrow> time list \<Rightarrow> 'c limits_run \<Rightarrow> bool" where
  "limits_inv jc i n ts st \<longleftrightarrow> (let s = lr_store st in
     \<not> s_closed s \<and> s_codec s = jc \<and> s_merger s = None \<and> lr_step st = of_nat n \<and> unat (s_seq s) + length ts < 2 ^ 64 \<and> sorted ts \<and>
     (\<forall>e. s_data s (i @ ''-policy'') = Some e \<longrightarrow> (\<forall>t \<in> set ts. entry_stamp e < Stamp t (s_nodeID s) (s_seq s + 1))) \<and>
     (n \<noteq> 0 \<longrightarrow> (\<exists>e. s_data s (i @ ''-policy'') = Some e \<and> e_Value e = limits_at i (of_nat n) \<and> \<not> e_Tombstone e)))"

lemma limits_inv_same:
  assumes "limits_inv jc i n ts st" "s_data s' (i @ ''-policy'') = s_data (lr_store st) (i @ ''-policy'')" "pod_id s' = pod_id (lr_store st)"
    and "lr_step st' = lr_step st" "lr_store st' = s'"
  shows "limits_inv jc i n ts st'"
  using assms by (simp add: limits_inv_def Let_def pod_id_def)

lemma Set_frame:
  assumes "Set T J now k v s t = (err, s', t')" "\<not> s_closed s" "Marshal (s_codec s) v = Inr p" "s_merger s = None"
    and "beats (Stamp now (s_nodeID s) (s_seq s + 1)) (s_data s k)"
  shows "s_data s' = (s_data s)(k \<mapsto> msg_entry (stamp_msg kindSet k p now s) v)"
    "pod_id s' = pod_id (s\<lparr>s_seq := s_seq s + 1\<rparr>)"
proof -
  have w: "write_tail T J (stamp_msg kindSet k p now s) v (stamped s) t = (err, s', t')" using assms(1-3) by (simp add: Set_eq)
  show "s_data s' = (s_data s)(k \<mapsto> msg_entry (stamp_msg kindSet k p now s) v)"
    using write_tail_data [of T J "stamp_msg kindSet k p now s" v "stamped s" t] w assms(4,5) by (auto simp: stored_value_def)
  show "pod_id s' = pod_id (s\<lparr>s_seq := s_seq s + 1\<rparr>)"
    using w assms(5) by (auto simp: write_tail_def markDirty_def pod_id_def stamped_def store_defs split: sum.splits prod.splits option.splits)
qed

lemma Set_nodeID: "s_nodeID (fst (snd (Set T J now k v s t))) = s_nodeID s"
  by (auto simp: Set_eq write_tail_def markDirty_def stamped_def store_defs split: sum.split prod.split option.split)

lemma limits_tick_inv:
  assumes inv: "limits_inv jc i n (now # ts) st" and p: "\<forall>l. \<exists>p. Marshal jc l = Inr p"
  shows "limits_inv jc i (Suc n) ts (limits_tick R J i now st)"
proof -
  let ?s = "lr_store st" and ?k = "i @ ''-policy''" and ?v = "limits_at i (lr_step st + 1)"
  obtain p where p: "Marshal jc ?v = Inr p" using p by blast
  obtain err s' t' where S: "Set (redis_transport R) J now ?k ?v ?s (lr_tr st) = (err, s', t')" by (metis prod.exhaust)
  have s: "\<not> s_closed ?s" "s_codec ?s = jc" "s_merger ?s = None" "lr_step st = of_nat n" "unat (s_seq ?s) + Suc (length ts) < 2 ^ 64" "sorted (now # ts)"
    and b: "beats (Stamp now (s_nodeID ?s) (s_seq ?s + 1)) (s_data ?s ?k)"
    using inv by (auto simp: limits_inv_def Let_def) (cases "s_data ?s ?k"; simp)
  note f = Set_frame [OF S s(1) _ s(3) b, of p, unfolded s(2), OF p]
  have seq: "unat (s_seq ?s + 1) = Suc (unat (s_seq ?s))" using s(5) by (simp add: unat_word_ariths)
  have st': "lr_store (limits_tick R J i now st) = s'" "lr_step (limits_tick R J i now st) = of_nat (Suc n)"
    using S s(4) by (simp_all add: limits_tick_def Let_def)
  have "Stamp now (s_nodeID ?s) (s_seq ?s + 1) < Stamp t (s_nodeID ?s) (s_seq ?s + 1 + 1)" if "t \<in> set ts" for t
  proof -
    have "0 < length ts" using that by (rule length_pos_if_in_set)
    then have "Suc (Suc (unat (s_seq ?s))) < 2 ^ 64" using s(5) by linarith
    with seq have "s_seq ?s + 1 < s_seq ?s + 1 + 1" by (simp add: word_less_nat_alt unat_word_ariths)
    with that s(6) show ?thesis by (auto simp: less_stamp_def)
  qed
  then show ?thesis
    using f s seq st' by (simp add: limits_inv_def Let_def pod_id_def add.commute)
qed

lemma limits_goroutine_same:
  "s_data (lr_store (limits_goroutine st)) = s_data (lr_store st)" "pod_id (lr_store (limits_goroutine st)) = pod_id (lr_store st)"
  "lr_step (limits_goroutine st) = lr_step st"
  by (auto simp: limits_goroutine_def Watch_def watch_recv_def Let_def pod_id_def set_watcher_def
      split: option.split list.split prod.split if_splits)

lemma limits_loop_inv:
  assumes "limits_inv jc i n (ticks evs) st" "own_key_own_origin J (s_nodeID (lr_store st)) (i @ ''-policy'') evs"
    and "\<forall>l. \<exists>p. Marshal jc l = Inr p"
  shows "limits_inv jc i (n + length (ticks evs)) [] (snd (limits_loop R J i evs st)) \<and>
    fst (limits_loop R J i evs st) = (Interrupt \<in> set evs)"
  using assms
proof (induction R J i evs st arbitrary: n rule: limits_loop.induct)
  case (2 R J i now evs st)
  have "limits_inv jc i (Suc n) (ticks evs) (limits_tick R J i now st)"
    by (rule limits_tick_inv) (use "2.prems" in simp_all)
  moreover have "s_nodeID (lr_store (limits_tick R J i now st)) = s_nodeID (lr_store st)"
    using Set_nodeID [of "redis_transport R" J now "i @ ''-policy''" "limits_at i (lr_step st + 1)" "lr_store st" "lr_tr st"]
    by (auto simp: limits_tick_def Let_def split: prod.split)
  ultimately show ?case using "2.IH" [of "Suc n"] "2.prems" by (simp add: own_key_own_origin_def)
next
  case (3 R J i now raw evs st)
  have "\<forall>m. unmarshalMsg J raw = Inr m \<longrightarrow> wm_Key m = i @ ''-policy'' \<longrightarrow> wm_Origin m = s_nodeID (lr_store st)"
    using "3.prems"(2) unfolding own_key_own_origin_def by (meson list.set_intros(1))
  note k = handleRaw_own_key [OF this, of now]
  have "limits_inv jc i n (ticks evs) (st\<lparr>lr_store := handleRaw J now raw (lr_store st)\<rparr>)"
    by (rule limits_inv_same [of jc i n "ticks evs" st]) (use "3.prems"(1) k in \<open>simp_all add: pod_id_def\<close>)
  from "3.IH" [OF this] "3.prems" show ?case by (simp add: own_key_own_origin_def)
next
  case (4 R J i evs st)
  have "limits_inv jc i n (ticks evs) (limits_goroutine st)"
    by (rule limits_inv_same [of jc i n "ticks evs" st]) (use "4.prems"(1) in \<open>simp_all add: limits_goroutine_same\<close>)
  moreover have "s_nodeID (lr_store (limits_goroutine st)) = s_nodeID (lr_store st)"
    using limits_goroutine_same(2) [of st] by (simp add: pod_id_def)
  ultimately show ?case using "4.IH" [of n] "4.prems" by (simp add: own_key_own_origin_def)
qed (simp_all add: limits_inv_def Let_def)

lemma loadSnapshot_pod_id:
  fixes s :: "'v store"
  assumes "loadSnapshot J raw s = (e, s')"
  shows "pod_id s' = pod_id s"
proof -
  have "pod_id (snd (loadSnapshot_loop es s)) = pod_id s" for es and s :: "'v store"
    by (induction es s rule: loadSnapshot_loop.induct) (auto simp: Let_def store_defs pod_id_def split: sum.splits)
  then have "pod_id (snd (loadSnapshot J raw s)) = pod_id s" by (simp add: loadSnapshot_def split: sum.split)
  with assms show ?thesis by simp
qed

lemma New_pod_id:
  assumes "New z jc J rid topic (Some T) opts t = (Inr s, t')"
  shows "\<exists>n. pod_id s = pod_id ((apply_options opts (default_store z jc topic))\<lparr>s_nodeID := n\<rparr>)"
proof -
  let ?s0 = "apply_options opts (default_store z jc topic)"
  define r where "r = (if s_nodeID ?s0 = '''' then map_sum ErrNodeID (\<lambda>i. ?s0\<lparr>s_nodeID := i\<rparr>) rid else Inr ?s0)"
  obtain s1 where s1: "r = Inr s1" "s = s1 \<or> (\<exists>raw. loadSnapshot J raw s1 = (None, s))"
    using assms by (auto simp: New_def r_def [symmetric] Let_def split: if_splits sum.splits prod.splits option.splits)
  have "s1 = ?s0 \<or> (\<exists>n. s1 = ?s0\<lparr>s_nodeID := n\<rparr>)"
    using s1(1) unfolding r_def by (cases rid) (auto split: if_splits)
  moreover have "?s0 = ?s0\<lparr>s_nodeID := s_nodeID ?s0\<rparr>" by simp
  ultimately have "\<exists>n. s1 = ?s0\<lparr>s_nodeID := n\<rparr>" by metis
  with s1(2) loadSnapshot_pod_id show ?thesis by metis
qed

lemma limits_setup_store:
  assumes "limits_setup R connect jc J rid i addr = Inr st"
  shows "\<not> s_closed (lr_store st)" "s_codec (lr_store st) = jc" "s_merger (lr_store st) = None" "s_seq (lr_store st) = 0" "lr_step st = 0"
proof -
  obtain r r' where N: "New no_limits jc J rid ''rate-limits'' (Some (redis_transport R)) [OptNodeID i, OptErrorHandler True] r = (Inr (lr_store st), r')"
    and "lr_step st = 0"
    using assms by (auto simp: limits_setup_def split: sum.splits prod.splits)
  with New_pod_id [OF N]
  show "\<not> s_closed (lr_store st)" "s_codec (lr_store st) = jc" "s_merger (lr_store st) = None" "s_seq (lr_store st) = 0" "lr_step st = 0"
    by (auto simp: pod_id_def apply_options_def option_defs default_store_def)
qed

subsection \<open>Properties\<close>

text \<open>
  C17. The own limits are those of the last step, whatever Redis does. After every run of the loop, with ticks,
  messages of other processes (which have keys of their own), the echoes of the process's own messages and the watching
  goroutine in any order, and a clock that does not go back and is past that of a policy loaded at the start, the
  store reads under the process's own key the limits of as many steps as there were ticks, in 64-bit
  arithmetic; a publish that fails is only logged. At a signal the loop returns, and the store and the transport are closed.
\<close>

theorem limits_show_the_last_step:
  fixes st :: "'c limits_run" and R :: "'c RedisClient"
  assumes "limits_flags getenv fid fredis = (i, addr)" "limits_setup R connect jc J rid i addr = Inr st"
    and "\<forall>l. \<exists>p. Marshal jc l = Inr p" "own_key_own_origin J (s_nodeID (lr_store st)) (i @ ''-policy'') evs"
    and "sorted (ticks evs)" "length (ticks evs) < 2 ^ 64"
    and "\<forall>e t. s_data (lr_store st) (i @ ''-policy'') = Some e \<longrightarrow> t \<in> set (ticks evs) \<longrightarrow> e_Timestamp e < t"
  shows "\<exists>st1 st2. limits_loop R J i evs st = (Interrupt \<in> set evs, st1) \<and>
    (ticks evs \<noteq> [] \<longrightarrow> fst (Get (i @ ''-policy'') (lr_store st1)) = (limits_at i (of_nat (length (ticks evs))), True)) \<and>
    limits_main R connect jc J rid getenv fid fredis evs fin ks = Inr (Interrupt \<in> set evs, st2) \<and>
    (Interrupt \<in> set evs \<longrightarrow> s_closed (lr_store st2) \<and> rd_closed (lr_tr st2))"
proof -
  note s = limits_setup_store [OF assms(2)]
  have "entry_stamp e < Stamp t (s_nodeID (lr_store st)) (s_seq (lr_store st) + 1)"
    if "s_data (lr_store st) (i @ ''-policy'') = Some e" "t \<in> set (ticks evs)" for e t
    using assms(7) that by (simp add: entry_stamp_def less_stamp_def)
  then have "limits_inv jc i 0 (ticks evs) st" using s assms(5,6) by (simp add: limits_inv_def Let_def)
  from limits_loop_inv [OF this assms(4,3), of R] obtain st1 where
      st1: "limits_loop R J i evs st = (Interrupt \<in> set evs, st1)" "limits_inv jc i (length (ticks evs)) [] st1"
    by (cases "limits_loop R J i evs st") simp
  have get: "fst (Get (i @ ''-policy'') (lr_store st1)) = (limits_at i (of_nat (length (ticks evs))), True)" if "ticks evs \<noteq> []"
    using st1(2) that by (auto simp: limits_inv_def Get_def Let_def)
  have cl: "rd_closed (snd (redis_Close R topics r))" for topics and r :: "'c RedisTransport"
  proof (cases "rd_closed r")
    case False
    then show ?thesis by (simp add: redis_Close_eq Let_def split: prod.split)
  qed (simp add: redis_Close_def)
  have "s_closed (lr_store (limits_shutdown R J fin ks st1)) \<and> rd_closed (lr_tr (limits_shutdown R J fin ks st1))"
    using Close_closed [of "redis_transport R" J fin ks "lr_store st1" "lr_tr st1"] cl
    by (simp add: limits_shutdown_def split: prod.split)
  then show ?thesis
    using st1(1) get by (cases "Interrupt \<in> set evs") (auto simp: limits_main_def assms(1,2))
qed

text \<open>A concrete codec of limits, and a server without keys.\<close>

definition sample_limits_codec :: "RateLimits Codec" where
  "sample_limits_codec =
    \<lparr>Marshal = (\<lambda>l. Inr (put_nat (unat (rl_PerUser l)) @ put_nat (unat (rl_PerIP l)) @ put_nat (unat (rl_BurstSize l)) @
       put_bytes (str_bytes (rl_UpdatedBy l)))),
     Unmarshal = (\<lambda>b. or_bad (
       Option.bind (get_nat b) (\<lambda>(u, r1).
       Option.bind (get_nat r1) (\<lambda>(p, r2).
       Option.bind (get_nat r2) (\<lambda>(n, r3).
       Option.bind (get_bytes r3) (\<lambda>(w, r4).
         Some \<lparr>rl_PerUser = of_nat u, rl_PerIP = of_nat p, rl_BurstSize = of_nat n, rl_UpdatedBy = bytes_str w\<rparr>))))))\<rparr>"

text \<open>The process is sent its own first message.\<close>

definition sample_echo :: bytes where
  "sample_echo = sample_marshalMsg
     \<lparr>wm_V = 1, wm_Kind = kindSet, wm_Key = ''pod-1-policy'',
      wm_Value = put_nat 100 @ put_nat 1000 @ put_nat 50 @ put_bytes (str_bytes ''pod-1''),
      wm_Origin = ''pod-1'', wm_Timestamp = 1, wm_Seq = 1\<rparr>"

theorem limits_show_the_last_step_witness:
  "\<exists>st st1. limits_setup sample_redis (\<lambda>_ _ _ _. (Map.empty, False)) sample_limits_codec sample_json (Inr ''x'') ''pod-1'' ''localhost:6379'' = Inr st \<and>
     limits_loop sample_redis sample_json ''pod-1'' [Goroutine, Tick 1, Incoming 1 sample_echo, Goroutine, Tick 2, Interrupt] st = (True, st1) \<and>
     fst (Get ''pod-1-policy'' (lr_store st1)) = (limits_at ''pod-1'' 2, True)"
proof -
  let ?evs = "[Goroutine, Tick 1, Incoming 1 sample_echo, Goroutine, Tick 2, Interrupt]"
  obtain st where st: "limits_setup sample_redis (\<lambda>_ _ _ _. (Map.empty, False)) sample_limits_codec sample_json (Inr ''x'') ''pod-1'' ''localhost:6379'' = Inr st"
      "s_data (lr_store st) = Map.empty" "s_nodeID (lr_store st) = ''pod-1''"
    by (simp add: limits_setup_def NewRedisTransport_def sample_redis_def New_def redis_transport_def redis_Subscribe_def redis_FetchSnapshot_def
        Let_def apply_options_def option_defs default_store_def)
  have fl: "limits_flags (\<lambda>_. '''') None None = (''pod-1'', ''localhost:6379'')" by (simp add: limits_flags_def envOr_def)
  have m: "\<forall>l. \<exists>p. Marshal sample_limits_codec l = Inr p" by (simp add: sample_limits_codec_def)
  have fo: "own_key_own_origin sample_json (s_nodeID (lr_store st)) (''pod-1'' @ ''-policy'') ?evs"
    by (simp add: own_key_own_origin_def sample_echo_def st(3))
  from limits_show_the_last_step [OF fl st(1) m fo, of 9 "[]"] st show ?thesis by auto
qed

end
