(* ===== verification/P2P_Pods.thy ===== *)
theory P2P_Pods
  imports P2P_Exchange Mesh_Steps Fleet
begin

section \<open>Stores over a mesh\<close>

text \<open>
  Pods that run a store each over a \<^verbatim>\<open>P2PTransport\<close> of their own, as processes do in production: dials connect
  the transports in pairs, \<^verbatim>\<open>Publish\<close> puts a frame into the queue of every connection, the sender loop of a
  connection writes it to the socket, the goroutine at the other end reads it and hands the message to the
  channel of the subscriber, and the receive loop of the store takes it from there. Connections come and go,
  frames are lost with them or dropped by full queues, and where two pods dial each other every
  message arrives twice. Every run of such pods is a run of the cluster of theory \<open>Cluster\<close>
  (\<open>mesh_refines_cluster\<close>), so whatever the mesh does, pods that have got the same messages agree;
  and in a mesh that connects every pair, what is in the queues is all that is missing (\<open>carry_all\<close>).
\<close>

subsection \<open>The pods\<close>

text \<open>
  An end of a connection is a pod with a number of a connection in its transport. \<open>pp_peer\<close> is the other end and
  \<open>pp_wire\<close> the bytes that were written at an end and not yet read at the other. Two fields are ghosts:
  \<open>pp_sent\<close> is the log of the messages that writes handed to \<^verbatim>\<open>Publish\<close>, whether or not it took them,
  \<open>pp_got\<close> what a pod has written or handled.
\<close>

type_synonym conn_end = "nat \<times> nat"

record 'v p2p_pods =
  pp_store :: "'v store list"
  pp_tr :: "P2PTransport list"
  pp_peer :: "conn_end \<Rightarrow> conn_end option"
  pp_wire :: "conn_end \<Rightarrow> bytes"
  pp_sent :: "bytes list"
  pp_got :: "nat \<Rightarrow> bytes set"

text \<open>
  A write at pod \<open>i\<close>. The message it handed to \<^verbatim>\<open>Publish\<close> is what the same write appends to the log: a
  message that every queue refused is logged as well, since the write has been applied.
\<close>

definition pods_write :: "(nat \<Rightarrow> bool) \<Rightarrow> Json \<Rightarrow> time \<Rightarrow> nat \<Rightarrow> 'v pod_write \<Rightarrow> 'v p2p_pods
    \<Rightarrow> goerror option \<times> 'v p2p_pods" where
  "pods_write picks J now i w P =
    (case run_write (p2p_transport picks id) J now w (pp_store P ! i) (pp_tr P ! i) of
       (err, s', t') \<Rightarrow>
         let net = snd (snd (run_write net_transport J now w (pp_store P ! i) (pp_sent P)))
         in (err, P\<lparr>pp_store := (pp_store P)[i := s'], pp_tr := (pp_tr P)[i := t'], pp_sent := net,
               pp_got := (pp_got P)(i := pp_got P i \<union> set (drop (length (pp_sent P)) net))\<rparr>))"

text \<open>A turn of the sender loop at an end; \<open>ok\<close> is what the socket answered.\<close>

definition pods_send :: "bool \<Rightarrow> conn_end \<Rightarrow> 'v p2p_pods \<Rightarrow> 'v p2p_pods" where
  "pods_send ok e P =
    (case senderLoop_step ok (snd e) (pp_tr P ! fst e) of
       (out, t') \<Rightarrow>
         P\<lparr>pp_tr := (pp_tr P)[fst e := t'],
           pp_wire := (pp_wire P)(e := pp_wire P e @ (case out of None \<Rightarrow> [] | Some bs \<Rightarrow> bs))\<rparr>)"

text \<open>
  A turn of the read loop at the other end of \<open>e\<close>. It waits while there is no whole frame, and while the
  channel of the subscriber is full.
\<close>

definition pods_read :: "bool \<Rightarrow> conn_end \<Rightarrow> 'v p2p_pods \<Rightarrow> 'v p2p_pods" where
  "pods_read pick e P =
    (case pp_peer P e of
       None \<Rightarrow> P
     | Some (j, d) \<Rightarrow>
         if d \<notin> set (p_conns (pp_tr P ! j)) then P
         else
         (case readFrame (pp_wire P e) of
            Inl _ \<Rightarrow> P
          | Inr (f, rest) \<Rightarrow>
              (case serveConn_frame pick d f (pp_tr P ! j) of
                 None \<Rightarrow> P
               | Some t' \<Rightarrow> P\<lparr>pp_tr := (pp_tr P)[j := t'], pp_wire := (pp_wire P)(e := rest)\<rparr>)))"

text \<open>The receive loop of pod \<open>j\<close> takes the next message of its channel.\<close>

definition p2p_take :: "nat \<Rightarrow> bytes list \<Rightarrow> P2PTransport \<Rightarrow> P2PTransport" where
  "p2p_take ch raws t = t\<lparr>p_heap := (p_heap t)(ch := (p_heap t ch)\<lparr>ch_buf := raws\<rparr>)\<rparr>"

definition pods_recv :: "Json \<Rightarrow> time \<Rightarrow> nat \<Rightarrow> 'v p2p_pods \<Rightarrow> 'v p2p_pods" where
  "pods_recv J now j P =
    (case p_subs (pp_tr P ! j) (s_topic (pp_store P ! j)) of
       None \<Rightarrow> P
     | Some ch \<Rightarrow>
         (case ch_buf (p_heap (pp_tr P ! j) ch) of
            [] \<Rightarrow> P
          | raw # raws \<Rightarrow>
              P\<lparr>pp_store := (pp_store P)[j := handleRaw J now raw (pp_store P ! j)],
                pp_tr := (pp_tr P)[j := p2p_take ch raws (pp_tr P ! j)],
                pp_got := (pp_got P)(j := insert raw (pp_got P j))\<rparr>))"

text \<open>Pod \<open>i\<close> dials pod \<open>j\<close>; \<open>to\<close> and \<open>from\<close> are the addresses the two ends see.\<close>

definition pods_connect :: "nat \<Rightarrow> string \<Rightarrow> nat \<Rightarrow> string \<Rightarrow> 'v p2p_pods \<Rightarrow> 'v p2p_pods" where
  "pods_connect i to j from P =
    (case (serveConn_open to False (pp_tr P ! i), serveConn_open from True (pp_tr P ! j)) of
       ((Some c, t), (Some d, t')) \<Rightarrow>
         P\<lparr>pp_tr := (pp_tr P)[i := t, j := t'],
           pp_peer := (pp_peer P)((i, c) \<mapsto> (j, d), (j, d) \<mapsto> (i, c)),
           pp_wire := (pp_wire P)((i, c) := [], (j, d) := [])\<rparr>
     | _ \<Rightarrow> P)"

subsection \<open>The steps\<close>

text \<open>
  What a transport does besides: nothing of it sends an event of the topic. The last two are
  \<^verbatim>\<open>Close\<close>, before and after it waits for the serving goroutines.
\<close>

inductive mesh_op :: "string \<Rightarrow> P2PTransport \<Rightarrow> P2PTransport \<Rightarrow> bool" for topic where
  "topic' \<noteq> topic \<Longrightarrow> mesh_op topic t (snd (p2p_Publish picks topic' msg t))"
| "mesh_op topic t (snd (p2p_Subscribe topic' t))"
| "mesh_op topic t (snd (p2p_Snapshot topic' body t))"
| "mesh_op topic t (snd (fetch_begin topic' t))"
| "mesh_op topic t (snd (fetch_round picks topic' req t))"
| "mesh_op topic t (fetch_end topic' t)"
| "mesh_op topic t (snd (AddPeer addr t))"
| "mesh_op topic t (snd (RemovePeer addr t))"
| "mesh_op topic t (serveConn_error e c t)"
| "mesh_op topic t (fold conn_close (p_conns t) (t\<lparr>p_closed := True, p_subs := Map.empty\<rparr>))"
| "p_subs t = Map.empty \<Longrightarrow> mesh_op topic t (close_sub ch t)"

text \<open>
  A write is a step whatever it returns: a closed store or transport, a value the codec refuses, or a
  mesh whose queues are all full, which leaves the write applied at its own pod. Excluded is a message
  that \<^verbatim>\<open>encoding/json\<close> cannot encode.
\<close>

inductive pods_step :: "Json \<Rightarrow> string \<Rightarrow> 'v p2p_pods \<Rightarrow> 'v p2p_pods \<Rightarrow> bool" for J topic where
  pods_write: "i < length (pp_store P) \<Longrightarrow> s_seq (pp_store P ! i) + 1 \<noteq> 0 \<Longrightarrow> valid_utf8 (write_key w) \<Longrightarrow>
    pods_write picks J now i w P = (err, P') \<Longrightarrow> \<forall>e. err \<noteq> Some (ErrEncodeWire e) \<Longrightarrow> pods_step J topic P P'"
| pods_local: "i < length (pp_store P) \<Longrightarrow> same_pod (pp_store P ! i) s' \<Longrightarrow>
    pods_step J topic P (P\<lparr>pp_store := (pp_store P)[i := s']\<rparr>)"
| pods_stop: "i < length (pp_store P) \<Longrightarrow>
    pods_step J topic P (P\<lparr>pp_store := (pp_store P)[i := (pp_store P ! i)\<lparr>s_closed := True\<rparr>]\<rparr>)"
| pods_send: "fst e < length (pp_store P) \<Longrightarrow> pods_step J topic P (pods_send ok e P)"
| pods_read: "pods_step J topic P (pods_read pick e P)"
| pods_recv: "j < length (pp_store P) \<Longrightarrow> pods_step J topic P (pods_recv J now j P)"
| pods_connect: "i < length (pp_store P) \<Longrightarrow> j < length (pp_store P) \<Longrightarrow> i \<noteq> j \<Longrightarrow>
    pods_step J topic P (pods_connect i to j from P)"
| pods_mesh: "i < length (pp_store P) \<Longrightarrow> mesh_op topic (pp_tr P ! i) t' \<Longrightarrow>
    pods_step J topic P (P\<lparr>pp_tr := (pp_tr P)[i := t']\<rparr>)"

text \<open>The start: new stores without a merger, subscribed at transports without connections.\<close>

definition tr_fresh :: "string \<Rightarrow> P2PTransport \<Rightarrow> bool" where
  "tr_fresh topic t \<longleftrightarrow> p2p_inv t \<and> \<not> p_closed t \<and> p_conns t = [] \<and> (\<forall>c. pc_sendQ (p_cheap t c) = []) \<and>
     (\<exists>ch. p_subs t topic = Some ch \<and> ch_buf (p_heap t ch) = [])"

definition pods_start :: "Json \<Rightarrow> 'v Codec \<Rightarrow> 'v \<Rightarrow> string \<Rightarrow> 'v p2p_pods \<Rightarrow> bool" where
  "pods_start J c z topic P \<longleftrightarrow>
     json_msg_roundtrip J \<and> codec_roundtrip c \<and> length (pp_tr P) = length (pp_store P) \<and>
     distinct (map s_nodeID (pp_store P)) \<and>
     (\<forall>s \<in> set (pp_store P). s_merger s = None \<and> s_codec s = c \<and> s_zero s = z \<and> s_topic s = topic \<and>
        valid_utf8 (s_nodeID s) \<and> s_data s = Map.empty) \<and>
     (\<forall>t \<in> set (pp_tr P). tr_fresh topic t) \<and>
     pp_peer P = Map.empty \<and> pp_wire P = (\<lambda>_. []) \<and> pp_sent P = [] \<and> pp_got P = (\<lambda>_. {})"

text \<open>
  \<open>R\<close> contains every message of the topic that is in a queue or a channel of a transport, or on a wire.
\<close>

definition carries :: "string \<Rightarrow> bytes set \<Rightarrow> p2pFrame \<Rightarrow> bool" where
  "carries topic R f \<longleftrightarrow> (f_msgType f = p2pMsgEvent \<longrightarrow> f_topic f = topic \<longrightarrow> f_payload f \<in> R)"

definition tr_ok :: "string \<Rightarrow> bytes set \<Rightarrow> P2PTransport \<Rightarrow> bool" where
  "tr_ok topic R t \<longleftrightarrow> p2p_inv t \<and> (\<forall>c. \<forall>f \<in> set (pc_sendQ (p_cheap t c)). carries topic R f) \<and>
     (\<forall>ch. p_subs t topic = Some ch \<longrightarrow> set (ch_buf (p_heap t ch)) \<subseteq> R)"

definition wire_of :: "(p2pFrame \<Rightarrow> bool) \<Rightarrow> bytes \<Rightarrow> bool" where
  "wire_of Q bs \<longleftrightarrow> (\<exists>fs. writeFrames fs = Inr bs \<and> (\<forall>f \<in> set fs. Q f))"

abbreviation wire_ok :: "string \<Rightarrow> bytes set \<Rightarrow> bytes \<Rightarrow> bool" where
  "wire_ok topic R \<equiv> wire_of (carries topic R)"

text \<open>
  A run may also begin while the mesh is being built: transports with connections, subscribed to
  the topic or not yet, and with frames under way, as long as nothing was written to the topic. The
  store of a pod is what \<^verbatim>\<open>New\<close> returns when no peer has a snapshot.
\<close>

definition pods_init :: "Json \<Rightarrow> 'v Codec \<Rightarrow> 'v \<Rightarrow> string \<Rightarrow> 'v p2p_pods \<Rightarrow> bool" where
  "pods_init J c z topic P \<longleftrightarrow>
     json_msg_roundtrip J \<and> codec_roundtrip c \<and> length (pp_tr P) = length (pp_store P) \<and>
     distinct (map s_nodeID (pp_store P)) \<and>
     (\<forall>s \<in> set (pp_store P). s_merger s = None \<and> s_codec s = c \<and> s_zero s = z \<and> s_topic s = topic \<and>
        valid_utf8 (s_nodeID s) \<and> s_data s = Map.empty) \<and>
     (\<forall>t \<in> set (pp_tr P). tr_ok topic {} t) \<and> (\<forall>e. wire_ok topic {} (pp_wire P e)) \<and>
     (\<forall>e j d. pp_peer P e = Some (j, d) \<longrightarrow> j < length (pp_store P)) \<and>
     pp_sent P = [] \<and> pp_got P = (\<lambda>_. {})"

inductive pods_reach :: "Json \<Rightarrow> 'v Codec \<Rightarrow> 'v \<Rightarrow> string \<Rightarrow> 'v p2p_pods \<Rightarrow> bool" for J c z topic where
  pods_first: "pods_init J c z topic P \<Longrightarrow> pods_reach J c z topic P"
| pods_next: "pods_reach J c z topic P \<Longrightarrow> pods_step J topic P P' \<Longrightarrow> pods_reach J c z topic P'"

subsection \<open>What is under way was published\<close>

lemma carries_mono: "carries topic R f \<Longrightarrow> R \<subseteq> R' \<Longrightarrow> carries topic R' f"
  by (auto simp: carries_def)

lemma tr_ok_mono: "tr_ok topic R t \<Longrightarrow> R \<subseteq> R' \<Longrightarrow> tr_ok topic R' t"
  unfolding tr_ok_def by (blast intro: carries_mono)

lemma wire_ok_mono: "wire_ok topic R bs \<Longrightarrow> R \<subseteq> R' \<Longrightarrow> wire_ok topic R' bs"
  unfolding wire_of_def by (blast intro: carries_mono)

lemma wire_of_Nil [simp]: "wire_of Q []"
  unfolding wire_of_def by (rule exI [of _ "[]"]) simp

lemma start_init: "pods_start J c z topic P \<Longrightarrow> pods_init J c z topic P"
  by (auto simp: pods_start_def pods_init_def tr_fresh_def tr_ok_def)

lemma pods_begin: "pods_start J c z topic P \<Longrightarrow> pods_reach J c z topic P"
  by (rule pods_first) (rule start_init)

lemma writeFrames_snoc:
  assumes "writeFrames fs = Inr bs" "writeFrame (f_msgType f) (f_topic f) (f_payload f) = Inr b"
  shows "writeFrames (fs @ [f]) = Inr (bs @ b)"
  using assms by (induction fs arbitrary: bs) (auto split: sum.splits)

lemma wire_of_snoc:
  assumes "wire_of Q bs" "writeFrame (f_msgType f) (f_topic f) (f_payload f) = Inr b" "Q f"
  shows "wire_of Q (bs @ b)"
proof -
  obtain fs where "writeFrames fs = Inr bs" "\<forall>f \<in> set fs. Q f" using assms(1) by (auto simp: wire_of_def)
  with writeFrames_snoc [OF this(1) assms(2)] assms(3) show ?thesis
    unfolding wire_of_def by (intro exI [of _ "fs @ [f]"]) auto
qed

lemma wire_of_read:
  assumes "wire_of Q bs" "readFrame bs = Inr (f, rest)"
  shows "Q f \<and> wire_of Q rest"
proof -
  obtain fs where fs: "writeFrames fs = Inr bs" "\<forall>f \<in> set fs. Q f" using assms(1) by (auto simp: wire_of_def)
  show ?thesis
  proof (cases fs)
    case Nil
    then show ?thesis using fs assms(2) by (simp add: readFrame_def readFull_def)
  next
    case (Cons g gs)
    then obtain b r where b: "writeFrame (f_msgType g) (f_topic g) (f_payload g) = Inr b" "writeFrames gs = Inr r" "bs = b @ r"
      using fs(1) by (auto split: sum.splits)
    then have "f = g" "rest = r" using readFrame_writeFrame [OF b(1), of r] assms(2) by (cases g; simp)+
    then show ?thesis using fs(2) b(2) Cons by (auto simp: wire_of_def)
  qed
qed

subsection \<open>The operations of a transport\<close>

lemma tr_ok_cong:
  assumes "tr_ok topic R t" "p2p_inv t'" "p_subs t' topic = p_subs t topic"
    and "\<And>ch. p_subs t topic = Some ch \<Longrightarrow> p_heap t' ch = p_heap t ch"
    and "\<And>c. \<forall>f \<in> set (pc_sendQ (p_cheap t' c)). f \<in> set (pc_sendQ (p_cheap t c)) \<or> carries topic R f"
  shows "tr_ok topic R t'"
  using assms unfolding tr_ok_def by metis

lemma tr_ok_publish:
  assumes "tr_ok topic R t" "topic' = topic \<Longrightarrow> msg \<in> R"
  shows "tr_ok topic R (snd (p2p_Publish picks topic' msg t))"
proof -
  have d: "distinct (p_conns t)" and inv: "p2p_inv t" using assms(1) by (auto simp: tr_ok_def p2p_inv_def)
  have "carries topic R \<lparr>f_msgType = p2pMsgEvent, f_topic = topic', f_payload = msg\<rparr>"
    using assms(2) by (auto simp: carries_def)
  then show ?thesis
    using assms(1) subs.R_publish [of t picks topic' msg] p2p_Publish_inv [OF inv, of picks topic' msg]
    by (intro tr_ok_cong [OF assms(1)])
       (auto simp: same_subs_def p2p_Publish_def publish_frame_spec [OF d] push_frame_def Let_def p2p_report_def)
qed

lemma tr_ok_sender:
  assumes "tr_ok topic R t" "senderLoop_step ok c t = (out, t')"
  shows "tr_ok topic R t' \<and> (\<forall>bs. out = Some bs \<longrightarrow>
    (\<exists>f. carries topic R f \<and> writeFrame (f_msgType f) (f_topic f) (f_payload f) = Inr bs))"
proof -
  have "tr_ok topic R t'"
    using assms subs.R_sender [of t ok c] senderLoop_inv [of t ok c]
    by (intro tr_ok_cong [OF assms(1)])
       (auto simp: same_subs_def tr_ok_def senderLoop_step_def conn_close_def p2p_report_def Let_def
          split: list.splits sum.splits if_splits)
  moreover have "\<exists>f. carries topic R f \<and> writeFrame (f_msgType f) (f_topic f) (f_payload f) = Inr bs" if "out = Some bs" for bs
  proof (cases "pc_sendQ (p_cheap t c)")
    case Nil
    then show ?thesis using assms(2) that by (simp add: senderLoop_step_def)
  next
    case (Cons f fs)
    then have "f \<in> set (pc_sendQ (p_cheap t c))" by simp
    then have "carries topic R f" using assms(1) unfolding tr_ok_def by blast
    with Cons show ?thesis
      using assms(2) that by (auto simp: senderLoop_step_def Let_def split: sum.splits if_splits)
  qed
  ultimately show ?thesis by blast
qed

lemma tr_ok_frame:
  assumes ok: "tr_ok topic R t" and f: "carries topic R f" and out: "serveConn_frame pick d f t = Some t'"
  shows "tr_ok topic R t'"
proof -
  have inv: "p2p_inv t" "p2p_inv t'" using ok serveConn_frame_inv [OF _ out] by (auto simp: tr_ok_def)
  consider (event) "f_msgType f = p2pMsgEvent" | (req) "f_msgType f = p2pMsgSnapReq" "f_msgType f \<noteq> p2pMsgEvent"
    | (resp) "t' = deliverSnapResp (f_topic f) (f_payload f) t \<or> t' = t"
    using out by (auto simp: serveConn_frame_def split: if_splits)
  then show ?thesis
  proof cases
    case event
    then have d: "deliverEvent pick (f_topic f) (f_payload f) t = Some t'" using out by (simp add: serveConn_frame_def)
    have same: "p_subs t' = p_subs t" "p_cheap t' = p_cheap t"
      using d by (auto simp: deliverEvent_def Let_def split: option.splits if_splits)
    have "set (ch_buf (p_heap t' ch)) \<subseteq> R" if ch: "p_subs t topic = Some ch" for ch
    proof (cases "f_topic f = topic")
      case True
      then have "f_payload f \<in> R" using f event by (simp add: carries_def)
      then show ?thesis using d ch ok True
        by (auto simp: deliverEvent_def tr_ok_def Let_def split: option.splits if_splits)
    next
      case False
      then have "p_subs t (f_topic f) \<noteq> Some ch"
        using inv(1) ch by (auto simp: p2p_inv_def inj_on_def dom_def)
      then have "p_heap t' ch = p_heap t ch"
        using d by (auto simp: deliverEvent_def Let_def split: option.splits if_splits)
      with ok ch show ?thesis by (simp add: tr_ok_def)
    qed
    with ok inv same show ?thesis by (simp add: tr_ok_def)
  next
    case req
    then have t': "t' = enqueueOrReport pick \<lparr>f_msgType = p2pMsgSnapResp, f_topic = f_topic f,
        f_payload = (case p_snapshots t (f_topic f) of None \<Rightarrow> [] | Some b \<Rightarrow> b)\<rparr> d t"
      using out by (simp add: serveConn_frame_def Let_def)
    show ?thesis
      using subs.R_enqueue(2) [of t pick _ d] inv(2) unfolding t'
      by (intro tr_ok_cong [OF ok])
         (auto simp: same_subs_def enqueueOrReport_conn push_frame_def carries_def p2pMsgEvent_def p2pMsgSnapResp_def)
  next
    case resp
    have "p_cheap (deliverSnapResp tp b t) = p_cheap t" for tp b
      by (simp add: deliverSnapResp_def Let_def split: option.split)
    then show ?thesis
      using resp ok inv(2) subs.R_snapResp [of t "f_topic f" "f_payload f"]
      by (intro tr_ok_cong [OF ok]) (auto simp: same_subs_def)
  qed
qed

lemma tr_ok_open:
  assumes "tr_ok topic R t" "serveConn_open remote inbound t = (oc, t')"
  shows "tr_ok topic R t'"
  using assms serveConn_open_same [OF assms(2)] serveConn_open_inv [of t remote inbound]
  by (intro tr_ok_cong [OF assms(1)]) (auto simp: same_subs_def tr_ok_def serveConn_open_eq Let_def split: if_splits)

lemma conn_closes_queue: "pc_sendQ (p_cheap (fold conn_close cs t) c) = pc_sendQ (p_cheap t c)"
  by (induction cs arbitrary: t) (simp_all add: conn_close_def)

lemma tr_ok_op:
  assumes "mesh_op topic t t'" "tr_ok topic R t"
  shows "tr_ok topic R t'"
  using assms
proof (induction rule: mesh_op.induct)
  case (1 topic' t picks msg)
  then show ?case by (intro tr_ok_publish) auto
next
  case (2 t topic')
  have inv: "p2p_inv (snd (p2p_Subscribe topic' t))" using 2 p2p_Subscribe_inv [of t topic'] by (simp add: tr_ok_def)
  have "set (ch_buf (p_heap (snd (p2p_Subscribe topic' t)) ch)) \<subseteq> R"
    if "p_subs (snd (p2p_Subscribe topic' t)) topic = Some ch" for ch
    using 2 that unfolding p2p_Subscribe_def tr_ok_def p2p_inv_def
    by (auto simp: Let_def split: if_splits)
  moreover have "p_cheap (snd (p2p_Subscribe topic' t)) = p_cheap t" by (simp add: p2p_Subscribe_def Let_def)
  ultimately show ?case using 2 inv by (simp add: tr_ok_def)
next
  case (3 t topic' body)
  then show ?case using p2p_Snapshot_inv [of t topic' body]
    by (intro tr_ok_cong [OF 3]) (auto simp: tr_ok_def p2p_Snapshot_def)
next
  case (4 t topic')
  then show ?case using fetch_inv(1) [of t topic']
    by (intro tr_ok_cong [OF 4]) (auto simp: tr_ok_def fetch_begin_def Let_def)
next
  case (5 t picks topic' req)
  let ?f = "\<lparr>f_msgType = p2pMsgSnapReq, f_topic = topic', f_payload = []\<rparr>"
  let ?cs = "filter (\<lambda>i. i \<notin> req) (p_conns t)"
  have one: "set (pc_sendQ (p_cheap (enqueueOrReport pick ?f i t) c)) \<subseteq> insert ?f (set (pc_sendQ (p_cheap t c)))" for pick i c t
    by (auto simp: enqueueOrReport_conn push_frame_def)
  have all: "set (pc_sendQ (p_cheap (fold (\<lambda>i. enqueueOrReport (picks i) ?f i) cs t) c)) \<subseteq>
      insert ?f (set (pc_sendQ (p_cheap t c)))" for cs c t
  proof (induction cs arbitrary: t)
    case (Cons i cs)
    from Cons.IH [of "enqueueOrReport (picks i) ?f i t"] one [of "picks i" i t c] show ?case by auto
  qed auto
  have t': "snd (fetch_round picks topic' req t) = fold (\<lambda>i. enqueueOrReport (picks i) ?f i) ?cs t"
    by (simp add: fetch_round_def Let_def)
  have "carries topic R ?f" by (simp add: carries_def p2pMsgEvent_def p2pMsgSnapReq_def)
  moreover have "same_subs t (fold (\<lambda>i. enqueueOrReport (picks i) ?f i) ?cs t)" by (intro subs.R_fold subs.R_enqueue)
  moreover have "p2p_inv (snd (fetch_round picks topic' req t))" using 5 fetch_round_inv by (simp add: tr_ok_def)
  ultimately show ?case using all [of ?cs t] unfolding t'
    by (intro tr_ok_cong [OF 5]) (auto simp: same_subs_def)
next
  case (6 t topic')
  then show ?case using fetch_inv(2) [of t topic']
    by (intro tr_ok_cong [OF 6]) (auto simp: tr_ok_def fetch_end_def)
next
  case (7 t addr)
  then show ?case using AddPeer_inv [of t addr]
    by (intro tr_ok_cong [OF 7]) (auto simp: tr_ok_def AddPeer_def)
next
  case (8 t addr)
  then show ?case
    using RemovePeer_inv [of t addr] subs.R_removePeer [of t addr]
    by (intro tr_ok_cong [OF 8])
       (auto simp: tr_ok_def same_subs_def RemovePeer_def conn_closes_queue Let_def)
next
  case (9 t e c)
  have "p2p_inv (serveConn_error e c t)"
    using 9 serveConn_done_inv [of _ c] by (simp add: tr_ok_def serveConn_error_def)
  then show ?case
    using serveConn_error_same [of t e c]
    by (intro tr_ok_cong [OF 9])
       (auto simp: same_subs_def serveConn_error_def serveConn_done_eq conn_close_def p2p_report_def Let_def)
next
  case (10 t)
  let ?t = "t\<lparr>p_closed := True, p_subs := Map.empty\<rparr>"
  have "p2p_inv ?t" using 10 by (simp add: tr_ok_def p2p_inv_def)
  then have "p2p_inv (fold conn_close cs ?t)" for cs by (rule conn_closes_inv)
  moreover have "same_subs ?t (fold conn_close cs ?t)" for cs by (rule subs.R_fold) (rule subs.R_close)
  ultimately show ?case using 10 by (simp add: tr_ok_def same_subs_def conn_closes_queue)
next
  case (11 t ch)
  then show ?case by (simp add: tr_ok_def p2p_inv_def close_sub_def)
qed

subsection \<open>Every run is a run of the cluster\<close>

definition pods_sim :: "string \<Rightarrow> 'v p2p_pods \<Rightarrow> 'v cluster \<Rightarrow> bool" where
  "pods_sim topic P C \<longleftrightarrow> length (pp_tr P) = length (pp_store P) \<and> c_net C = pp_sent P \<and>
     (\<forall>i < length (pp_store P). c_node C i = pp_store P ! i \<and> c_seen C i = pp_got P i \<and>
        s_topic (pp_store P ! i) = topic \<and> tr_ok topic (set (pp_sent P)) (pp_tr P ! i)) \<and>
     (\<forall>e. wire_ok topic (set (pp_sent P)) (pp_wire P e)) \<and>
     (\<forall>e j d. pp_peer P e = Some (j, d) \<longrightarrow> j < length (pp_store P))"

text \<open>A change at one transport and its wires.\<close>

lemma sim_net:
  assumes "pods_sim topic P C" "j < length (pp_store P) \<Longrightarrow> tr_ok topic (set (pp_sent P)) t'"
    and "\<And>e. wire_ok topic (set (pp_sent P)) (w e)" "\<And>e i d. pr e = Some (i, d) \<Longrightarrow> i < length (pp_store P)"
  shows "pods_sim topic (P\<lparr>pp_tr := (pp_tr P)[j := t'], pp_peer := pr, pp_wire := w\<rparr>) C"
proof -
  have "tr_ok topic (set (pp_sent P)) ((pp_tr P)[j := t'] ! i)" if "i < length (pp_store P)" for i
    using assms(1,2) that by (cases "i = j") (simp_all add: pods_sim_def)
  with assms(1,3,4) show ?thesis by (simp add: pods_sim_def)
qed

lemma sim_peer: "pods_sim topic P C \<Longrightarrow> pp_peer P e = Some (i, d) \<Longrightarrow> i < length (pp_store P)"
  unfolding pods_sim_def by blast

lemma sim_tr: "pods_sim topic P C \<Longrightarrow> i < length (pp_store P) \<Longrightarrow> tr_ok topic (set (pp_sent P)) (pp_tr P ! i)"
  by (simp add: pods_sim_def)

lemma sim_wire: "pods_sim topic P C \<Longrightarrow> wire_ok topic (set (pp_sent P)) (pp_wire P e)"
  unfolding pods_sim_def by blast

lemma send_sim:
  assumes sim: "pods_sim topic P C" and i: "fst e < length (pp_store P)"
  shows "pods_sim topic (pods_send ok e P) C"
proof -
  obtain out t' where o: "senderLoop_step ok (snd e) (pp_tr P ! fst e) = (out, t')" by (metis prod.exhaust)
  note t' = tr_ok_sender [OF sim_tr [OF sim i] o]
  then have "wire_ok topic (set (pp_sent P)) (pp_wire P e @ (case out of None \<Rightarrow> [] | Some bs \<Rightarrow> bs))"
    using sim_wire [OF sim, of e] by (cases out) (auto intro: wire_of_snoc)
  then show ?thesis
    using sim_net [OF sim, of "fst e" t' "(pp_wire P)(e := pp_wire P e @ (case out of None \<Rightarrow> [] | Some bs \<Rightarrow> bs))"
        "pp_peer P"] t' sim_wire [OF sim] sim_peer [OF sim]
    by (simp add: pods_send_def o)
qed

lemma read_sim:
  assumes sim: "pods_sim topic P C"
  shows "pods_sim topic (pods_read pick e P) C"
proof -
  have "pods_sim topic (P\<lparr>pp_tr := (pp_tr P)[j := t'], pp_wire := (pp_wire P)(e := rest)\<rparr>) C"
    if "pp_peer P e = Some (j, d)" "readFrame (pp_wire P e) = Inr (f, rest)" "serveConn_frame pick d f (pp_tr P ! j) = Some t'"
    for j d f rest t'
  proof -
    note w = wire_of_read [OF sim_wire [OF sim] that(2)]
    have "tr_ok topic (set (pp_sent P)) t'"
      using tr_ok_frame [OF sim_tr [OF sim sim_peer [OF sim that(1)]] conjunct1 [OF w] that(3)] .
    then show ?thesis
      using sim_net [OF sim, of j t' "(pp_wire P)(e := rest)" "pp_peer P"] w sim_wire [OF sim] sim_peer [OF sim] by simp
  qed
  then show ?thesis using sim by (auto simp: pods_read_def split: option.split sum.split)
qed

lemma connect_sim:
  assumes sim: "pods_sim topic P C" and ij: "i < length (pp_store P)" "j < length (pp_store P)" "i \<noteq> j"
  shows "pods_sim topic (pods_connect i to j from P) C"
proof -
  have "pods_sim topic (P\<lparr>pp_tr := (pp_tr P)[i := t, j := t'],
      pp_peer := (pp_peer P)((i, c) \<mapsto> (j, d), (j, d) \<mapsto> (i, c)), pp_wire := (pp_wire P)((i, c) := [], (j, d) := [])\<rparr>) C"
    if o: "serveConn_open to False (pp_tr P ! i) = (Some c, t)" "serveConn_open from True (pp_tr P ! j) = (Some d, t')" for c d t t'
  proof -
    have ok: "tr_ok topic (set (pp_sent P)) t" "tr_ok topic (set (pp_sent P)) t'"
      using tr_ok_open [OF sim_tr [OF sim ij(1)] o(1)] tr_ok_open [OF sim_tr [OF sim ij(2)] o(2)] by simp_all
    let ?P = "P\<lparr>pp_tr := (pp_tr P)[i := t], pp_peer := pp_peer P, pp_wire := pp_wire P\<rparr>"
    have sim1: "pods_sim topic ?P C"
      using ok sim_wire [OF sim] sim_peer [OF sim] by (intro sim_net [OF sim]) auto
    have pr: "((pp_peer P)((i, c) \<mapsto> (j, d), (j, d) \<mapsto> (i, c))) e = Some (k, x) \<Longrightarrow> k < length (pp_store ?P)" for e k x
      using sim_peer [OF sim, of e k x] ij by (auto simp: fun_upd_apply split: if_splits)
    have w: "wire_ok topic (set (pp_sent ?P)) (((pp_wire P)((i, c) := [], (j, d) := [])) e)" for e
      using sim_wire [OF sim, of e] by simp
    have "tr_ok topic (set (pp_sent ?P)) t'" using ok(2) by simp
    from sim_net [OF sim1 this w pr, where j = j] show ?thesis by (simp del: fun_upd_apply)
  qed
  then show ?thesis using sim by (auto simp: pods_connect_def split: prod.split option.split)
qed

lemma recv_sim:
  assumes sim: "pods_sim topic P C" and j: "j < length (pp_store P)"
  shows "\<exists>C'. (cluster_step J C C' \<or> C' = C) \<and> pods_sim topic (pods_recv J now j P) C'"
proof -
  let ?t = "pp_tr P ! j"
  have topic: "s_topic (pp_store P ! j) = topic" "c_node C j = pp_store P ! j" using sim j by (simp_all add: pods_sim_def)
  show ?thesis
  proof (cases "\<exists>ch raw raws. p_subs ?t topic = Some ch \<and> ch_buf (p_heap ?t ch) = raw # raws")
    case False
    then have "pods_recv J now j P = P"
      by (auto simp: pods_recv_def topic split: option.split list.split)
    with sim show ?thesis by auto
  next
    case True
    then obtain ch raw raws where ch: "p_subs ?t topic = Some ch" "ch_buf (p_heap ?t ch) = raw # raws" by blast
    have ok: "tr_ok topic (set (pp_sent P)) ?t" by (rule sim_tr [OF sim j])
    then have raw: "raw \<in> set (c_net C)" "set raws \<subseteq> set (pp_sent P)"
      using ch sim by (auto simp: tr_ok_def pods_sim_def)
    have "p2p_inv (p2p_take ch raws ?t)" using ok ch(2) by (auto simp: tr_ok_def p2p_inv_def p2p_take_def le_Suc_eq) (metis Suc_leD length_Cons)
    then have "tr_ok topic (set (pp_sent P)) (p2p_take ch raws ?t)" using ok ch raw by (simp add: tr_ok_def p2p_take_def)
    then have "pods_sim topic (pods_recv J now j P) (C\<lparr>c_node := (c_node C)(j := handleRaw J now raw (c_node C j)),
        c_seen := (c_seen C)(j := insert raw (c_seen C j))\<rparr>)"
      using sim j ch topic by (auto simp: pods_recv_def pods_sim_def nth_list_update)
    with cluster_step.step_deliver [OF raw(1), of J j now] show ?thesis by blast
  qed
qed

lemma write_state_sim:
  assumes sim: "pods_sim topic P C" and i: "i < length (pp_store P)"
    and s': "s_topic s' = topic"
    and pub: "net = pp_sent P \<and> t' = pp_tr P ! i \<or>
       (\<exists>raw. net = pp_sent P @ [raw] \<and> t' = snd (p2p_Publish picks topic raw (pp_tr P ! i)))"
  shows "pods_sim topic (P\<lparr>pp_store := (pp_store P)[i := s'], pp_tr := (pp_tr P)[i := t'], pp_sent := net,
       pp_got := (pp_got P)(i := pp_got P i \<union> set (drop (length (pp_sent P)) net))\<rparr>)
     (C\<lparr>c_node := (c_node C)(i := s'), c_net := net,
       c_seen := (c_seen C)(i := c_seen C i \<union> set (drop (length (c_net C)) net))\<rparr>)"
proof -
  have sub: "set (pp_sent P) \<subseteq> set net" using pub by auto
  have "tr_ok topic (set net) t'"
    using pub tr_ok_mono [OF sim_tr [OF sim i] sub] tr_ok_publish [of topic "set net" "pp_tr P ! i" topic _ picks] by fastforce
  moreover have "tr_ok topic (set net) (pp_tr P ! k)" if "k < length (pp_store P)" for k
    by (rule tr_ok_mono [OF sim_tr [OF sim that] sub])
  ultimately show ?thesis
    using sim i s' wire_ok_mono [OF sim_wire [OF sim] sub] by (auto simp: pods_sim_def nth_list_update)
qed

lemma write_step_sim:
  assumes sim: "pods_sim topic P C" and i: "i < length (pp_store P)"
    and ok: "s_seq (pp_store P ! i) + 1 \<noteq> 0" "valid_utf8 (write_key w)"
    and w: "pods_write picks J now i w P = (err, P')" "\<forall>e. err \<noteq> Some (ErrEncodeWire e)"
  shows "\<exists>C'. (cluster_step J)\<^sup>*\<^sup>* C C' \<and> pods_sim topic P' C'"
proof -
  let ?s = "pp_store P ! i" and ?t = "pp_tr P ! i"
  have n: "c_node C i = ?s" "s_topic ?s = topic" "c_net C = pp_sent P" "c_seen C i = pp_got P i"
    using sim i by (simp_all add: pods_sim_def)
  obtain s' t' where run: "run_write (p2p_transport picks id) J now w ?s ?t = (err, s', t')"
    using w by (auto simp: pods_write_def Let_def split: prod.splits)
  let ?C = "\<lambda>s' net. C\<lparr>c_node := (c_node C)(i := s'), c_net := net,
      c_seen := (c_seen C)(i := c_seen C i \<union> set (drop (length (c_net C)) net))\<rparr>"
  let ?P = "\<lambda>net. P\<lparr>pp_store := (pp_store P)[i := s'], pp_tr := (pp_tr P)[i := t'], pp_sent := net,
      pp_got := (pp_got P)(i := pp_got P i \<union> set (drop (length (pp_sent P)) net))\<rparr>"
  have P': "P' = ?P net" if "snd (snd (run_write net_transport J now w ?s (pp_sent P))) = net" for net
    using w that by (simp add: pods_write_def run)
  have step: "cluster_step J C (?C s2 net)" if "run_write net_transport J now w ?s (pp_sent P) = (None, s2, net)" for s2 net
    using that ok cluster_step.step_Set [of C i _ J now _ s2 net] cluster_step.step_Delete [of C i _ J now s2 net]
    by (cases w) (simp_all add: n)
  have other: "cluster_step J (?C s2 net) (?C s' net)" if "same_replica s2 s'" for s2 net
    using cluster_step.step_other [of "?C s2 net" i s' J] that by (cases C) simp
  show ?thesis
  proof (cases err)
    case None
    obtain net where net: "run_write net_transport J now w ?s (pp_sent P) = (None, s', net)" "s_topic s' = topic"
      and pub: "net = pp_sent P \<and> t' = ?t \<or>
         (\<exists>raw. net = pp_sent P @ [raw] \<and> p2p_Publish picks topic raw ?t = (None, t'))"
      using write_on_net [OF run [unfolded None], of "pp_sent P"] n by (auto simp: p2p_transport_def)
    have "pods_sim topic (?P net) (?C s' net)"
      by (rule write_state_sim [OF sim i net(2), of net t' picks]) (use pub in auto)
    with step [OF net(1)] show ?thesis using P' [of net] net(1) by auto
  next
    case (Some e)
    then have "\<And>x. e \<noteq> ErrEncodeWire x" using w(2) by blast
    note f = failed_write_on_net [OF run [unfolded Some] this, of "pp_sent P"]
    then consider (same) "t' = ?t" "same_replica ?s s'" "snd (snd (run_write net_transport J now w ?s (pp_sent P))) = pp_sent P"
      | (lost) raw s2 x where "run_write net_transport J now w ?s (pp_sent P) = (None, s2, pp_sent P @ [raw])"
          "same_replica s2 s'" "p2p_Publish picks topic raw ?t = (Some x, t')"
      using n by (auto simp: p2p_transport_def)
    then show ?thesis
    proof cases
      case same
      have "pods_sim topic (?P (pp_sent P)) (?C s' (pp_sent P))"
        by (rule write_state_sim [OF sim i]) (use same f n in auto)
      moreover have "cluster_step J C (?C s' (pp_sent P))"
        using cluster_step.step_other [of C i s' J] same(2) n by (cases C) (auto simp: fun_upd_idem)
      ultimately show ?thesis using P' [OF same(3)] by blast
    next
      case lost
      have "pods_sim topic (?P (pp_sent P @ [raw])) (?C s' (pp_sent P @ [raw]))"
        by (rule write_state_sim [OF sim i, of s' _ t' picks]) (use lost f n in auto)
      moreover have "(cluster_step J)\<^sup>*\<^sup>* C (?C s' (pp_sent P @ [raw]))"
        using step [OF lost(1)] other [OF lost(2)] by (rule rtranclp.intros(2) [OF r_into_rtranclp])
      ultimately show ?thesis using P' [of "pp_sent P @ [raw]"] lost(1) by auto
    qed
  qed
qed

lemma pods_step_sim:
  assumes "pods_step J topic P P'" "pods_sim topic P C"
  shows "\<exists>C'. (cluster_step J)\<^sup>*\<^sup>* C C' \<and> pods_sim topic P' C'"
  using assms(1)
proof cases
  case (pods_write i w picks now err)
  from write_step_sim [OF assms(2) this] show ?thesis .
next
  case (pods_stop i)
  let ?s = "(pp_store P ! i)\<lparr>s_closed := True\<rparr>"
  have "same_replica (c_node C i) ?s" "s_topic ?s = topic"
    using assms(2) pods_stop by (simp_all add: pods_sim_def same_replica_def)
  then have "cluster_step J C (C\<lparr>c_node := (c_node C)(i := ?s)\<rparr>)" "pods_sim topic P' (C\<lparr>c_node := (c_node C)(i := ?s)\<rparr>)"
    using pods_stop assms(2) by (auto simp: pods_sim_def nth_list_update intro: cluster_step.step_other)
  then show ?thesis by blast
next
  case (pods_local i s')
  then have "same_replica (c_node C i) s'" "s_topic s' = topic"
    using assms(2) by (simp_all add: pods_sim_def same_pod_def pod_id_def same_replica_def)
  then have "cluster_step J C (C\<lparr>c_node := (c_node C)(i := s')\<rparr>)" "pods_sim topic P' (C\<lparr>c_node := (c_node C)(i := s')\<rparr>)"
    using pods_local assms(2) by (auto simp: pods_sim_def nth_list_update intro: cluster_step.step_other)
  then show ?thesis by blast
next
  case (pods_send e ok)
  then show ?thesis using send_sim [OF assms(2)] by blast
next
  case (pods_read pick e)
  then show ?thesis using read_sim [OF assms(2)] by blast
next
  case (pods_recv j now)
  then show ?thesis using recv_sim [OF assms(2)] by blast
next
  case (pods_connect i j to "from")
  then show ?thesis using connect_sim [OF assms(2)] by blast
next
  case (pods_mesh i t')
  then have "tr_ok topic (set (pp_sent P)) t'" using tr_ok_op [OF pods_mesh(3) sim_tr [OF assms(2) pods_mesh(2)]] by simp
  then show ?thesis
    using sim_net [OF assms(2), of i t' "pp_wire P" "pp_peer P"] sim_wire [OF assms(2)] sim_peer [OF assms(2)] pods_mesh(1) by auto
qed

lemma pods_init_sim:
  assumes "pods_init J c z topic P"
  shows "\<exists>C. cluster_start J c z C \<and> pods_sim topic P C"
proof -
  let ?F = "\<lparr>fl_pods = pp_store P, fl_chans = [0..<length (pp_store P)], fl_tr = ()\<rparr>"
  have "fleet_start (\<lambda>_. True) (\<lambda>_ _. [0..<length (pp_store P)]) (\<lambda>_ _. []) J c z topic ?F"
    using assms by (simp add: pods_init_def fleet_start_def quiet_def)
  from fleet_start_sim [OF this] obtain C where C: "cluster_start J c z C"
      "\<forall>i < length (pp_store P). c_node C i = pp_store P ! i" by (auto simp: fleet_sim_def)
  then have "pods_sim topic P C"
    using assms by (auto simp: pods_sim_def pods_init_def cluster_start_def)
  with C show ?thesis by blast
qed

lemma pods_reach_sim: "pods_reach J c z topic P \<Longrightarrow> \<exists>C. reachable J c z C \<and> pods_sim topic P C"
proof (induction rule: pods_reach.induct)
  case (pods_first P)
  from pods_init_sim [OF this] show ?case by (blast intro: reachable.start)
next
  case (pods_next P P')
  moreover have "(cluster_step J)\<^sup>*\<^sup>* C C' \<Longrightarrow> reachable J c z C \<Longrightarrow> reachable J c z C'" for C C'
    by (induction rule: rtranclp_induct) (auto intro: reachable.step)
  ultimately show ?case using pods_step_sim by blast
qed

end
