(* ===== verification/Mesh_Settles.thy ===== *)
theory Mesh_Settles
  imports P2P_Pods Fleet_Watch
begin

section \<open>A mesh that connects every pair\<close>

text \<open>
  Pods whose transports are connected in pairs, with open connections and empty sockets and channels. A write puts its
  message into the queues of the writer's connections; moving a queue's frames to the other end
  and handling them there (\<open>carry\<close>) brings the message to the other pod. When every queue has been
  carried, every pod has got every message that was published.
\<close>

text \<open>Ends of connections stay whole in quantifiers.\<close>

declare split_paired_All [simp del] split_paired_Ex [simp del]

subsection \<open>Carrying\<close>

definition conn_queue :: "conn_end \<Rightarrow> 'v p2p_pods \<Rightarrow> p2pFrame list" where
  "conn_queue e P = pc_sendQ (p_cheap (pp_tr P ! fst e) (snd e))"

definition carry :: "Json \<Rightarrow> time \<Rightarrow> conn_end \<Rightarrow> 'v p2p_pods \<Rightarrow> 'v p2p_pods" where
  "carry J now e P =
    (case pp_peer P e of
       None \<Rightarrow> P
     | Some (j, d) \<Rightarrow> pods_recv J now j (pods_read True e (pods_send True e P)))"

definition carry_link :: "Json \<Rightarrow> time \<Rightarrow> conn_end \<Rightarrow> 'v p2p_pods \<Rightarrow> 'v p2p_pods" where
  "carry_link J now e P = (carry J now e ^^ length (conn_queue e P)) P"

definition carry_all :: "Json \<Rightarrow> time \<Rightarrow> conn_end list \<Rightarrow> 'v p2p_pods \<Rightarrow> 'v p2p_pods" where
  "carry_all J now es P = fold (carry_link J now) es P"

text \<open>The ends of the connections of all pods.\<close>

definition pods_ends :: "'v p2p_pods \<Rightarrow> conn_end list" where
  "pods_ends P = concat (map (\<lambda>i. map (Pair i) (p_conns (pp_tr P ! i))) [0..<length (pp_store P)])"

lemma set_pods_ends: "e \<in> set (pods_ends P) \<longleftrightarrow> fst e < length (pp_store P) \<and> snd e \<in> set (p_conns (pp_tr P ! fst e))"
  by (cases e) (auto simp: pods_ends_def)

lemma pods_ends_cong:
  assumes "length (pp_store P') = length (pp_store P)"
    and "\<And>k. k < length (pp_store P) \<Longrightarrow> p_conns (pp_tr P' ! k) = p_conns (pp_tr P ! k)"
  shows "pods_ends P' = pods_ends P"
  unfolding pods_ends_def assms(1) using assms(2) by (intro arg_cong [of _ _ concat] map_cong) auto

subsection \<open>A linked mesh\<close>

definition pod_up :: "string \<Rightarrow> P2PTransport \<Rightarrow> bool" where
  "pod_up topic t \<longleftrightarrow> p2p_inv t \<and> \<not> p_closed t \<and> (\<exists>ch. p_subs t topic = Some ch \<and> ch_buf (p_heap t ch) = [])"

definition end_up :: "string \<Rightarrow> 'v p2p_pods \<Rightarrow> conn_end \<Rightarrow> bool" where
  "end_up topic P e \<longleftrightarrow> \<not> pc_cancelled (p_cheap (pp_tr P ! fst e) (snd e)) \<and> pp_wire P e = [] \<and>
     (\<exists>j d. pp_peer P e = Some (j, d) \<and> j < length (pp_store P) \<and> j \<noteq> fst e \<and> d \<in> set (p_conns (pp_tr P ! j))) \<and>
     (\<exists>msgs. conn_queue e P = map (event_frame topic) msgs \<and> (\<forall>m \<in> set msgs. fits topic m))"

definition linked :: "string \<Rightarrow> 'v p2p_pods \<Rightarrow> bool" where
  "linked topic P \<longleftrightarrow> length (pp_tr P) = length (pp_store P) \<and>
     (\<forall>i < length (pp_store P). s_topic (pp_store P ! i) = topic \<and> pod_up topic (pp_tr P ! i)) \<and>
     (\<forall>e \<in> set (pods_ends P). end_up topic P e)"

text \<open>Every pair of pods has a connection, and what a pod has not got is in a queue towards it.\<close>

definition meshed :: "'v p2p_pods \<Rightarrow> bool" where
  "meshed P \<longleftrightarrow> (\<forall>i < length (pp_store P). \<forall>j < length (pp_store P). i \<noteq> j \<longrightarrow>
     (\<exists>e \<in> set (pods_ends P). fst e = i \<and> (\<exists>d. pp_peer P e = Some (j, d))))"

definition owed :: "'v p2p_pods \<Rightarrow> bool" where
  "owed P \<longleftrightarrow> (\<forall>m \<in> set (pp_sent P). \<forall>j < length (pp_store P). m \<in> pp_got P j \<or>
     (\<exists>e \<in> set (pods_ends P). m \<in> f_payload ` set (conn_queue e P) \<and> (\<exists>d. pp_peer P e = Some (j, d))))"

text \<open>One frame goes all the way: the transport at the other end is as before.\<close>

lemma send_frame:
  assumes "conn_queue (i, c) P = event_frame topic m # fs" "fits topic m"
  shows "\<exists>bs. writeFrame p2pMsgEvent topic m = Inr bs \<and>
    pods_send True (i, c) P = P\<lparr>pp_tr := (pp_tr P)[i := set_conn c ((p_cheap (pp_tr P ! i) c)\<lparr>pc_sendQ := fs\<rparr>) (pp_tr P ! i)],
      pp_wire := (pp_wire P)((i, c) := pp_wire P (i, c) @ bs)\<rparr>"
proof -
  obtain bs where bs: "writeFrame p2pMsgEvent topic m = Inr bs" using assms(2) fits_writeFrame by blast
  with assms(1) show ?thesis by (simp add: pods_send_def senderLoop_step_def conn_queue_def)
qed

lemma put_take:
  assumes "ch_buf (p_heap t ch) = []"
  shows "p2p_take ch [] (t\<lparr>p_heap := (p_heap t)(ch := (p_heap t ch)\<lparr>ch_buf := [m]\<rparr>)\<rparr>) = t"
proof -
  have "(p_heap t ch)\<lparr>ch_buf := []\<rparr> = p_heap t ch" using assms by (cases "p_heap t ch") simp
  then have "(p_heap t)(ch := (p_heap t ch)\<lparr>ch_buf := []\<rparr>) = p_heap t" by (simp only: fun_upd_triv)
  then show ?thesis by (cases t) (simp add: p2p_take_def)
qed

lemma carry_eq:
  assumes P: "linked topic P" and e: "(i, c) \<in> set (pods_ends P)" and pr: "pp_peer P (i, c) = Some (j, d)"
    and q: "conn_queue (i, c) P = event_frame topic m # fs" and m: "fits topic m"
  shows "carry J now (i, c) P = P\<lparr>pp_store := (pp_store P)[j := handleRaw J now m (pp_store P ! j)],
    pp_tr := (pp_tr P)[i := set_conn c ((p_cheap (pp_tr P ! i) c)\<lparr>pc_sendQ := fs\<rparr>) (pp_tr P ! i)],
    pp_got := (pp_got P)(j := insert m (pp_got P j))\<rparr>"
proof -
  let ?t = "set_conn c ((p_cheap (pp_tr P ! i) c)\<lparr>pc_sendQ := fs\<rparr>) (pp_tr P ! i)" and ?u = "pp_tr P ! j"
  have up: "end_up topic P (i, c)" using P e by (simp add: linked_def)
  then have j: "j < length (pp_store P)" "j \<noteq> i" "d \<in> set (p_conns ?u)" "pp_wire P (i, c) = []"
    using pr by (auto simp: end_up_def)
  have len: "length (pp_tr P) = length (pp_store P)" "s_topic (pp_store P ! j) = topic" "pod_up topic ?u"
    using P j(1) by (simp_all add: linked_def)
  obtain ch where ch: "p_subs ?u topic = Some ch" "ch_buf (p_heap ?u ch) = []" and u: "\<not> p_closed ?u"
    using len(3) by (auto simp: pod_up_def)
  obtain bs where bs: "writeFrame p2pMsgEvent topic m = Inr bs" and
    send: "pods_send True (i, c) P = P\<lparr>pp_tr := (pp_tr P)[i := ?t], pp_wire := (pp_wire P)((i, c) := pp_wire P (i, c) @ bs)\<rparr>"
    using send_frame [OF q m] by blast
  let ?u' = "?u\<lparr>p_heap := (p_heap ?u)(ch := (p_heap ?u ch)\<lparr>ch_buf := [m]\<rparr>)\<rparr>"
  have rd: "readFrame bs = Inr (event_frame topic m, [])"
    using readFrame_writeFrame [OF bs, of "[]"] by (simp add: event_frame_def)
  have fr: "serveConn_frame True d (event_frame topic m) ?u = Some ?u'"
    using ch u by (simp add: serveConn_frame_def deliverEvent_def mem_depth_def p2p_isClosed_def)
  have "pods_read True (i, c) (pods_send True (i, c) P) = P\<lparr>pp_tr := (pp_tr P)[i := ?t, j := ?u']\<rparr>"
    using j rd fr by (simp add: send pods_read_def pr fun_upd_idem)
  moreover have "(pp_tr P)[i := ?t, j := ?u] = (pp_tr P)[i := ?t]"
    using j(2) by (metis list_update_id list_update_swap)
  ultimately show ?thesis
    using j len ch put_take [OF ch(2), of m] by (simp add: carry_def pr pods_recv_def)
qed

text \<open>
  \<open>moved E P P'\<close>: the queues of the ends \<open>E\<close> have been carried to the other ends and handled there; the rest of the
  mesh is as it was.
\<close>

definition towards :: "nat \<Rightarrow> conn_end \<Rightarrow> 'v p2p_pods \<Rightarrow> bytes set" where
  "towards j e P = (if \<exists>d. pp_peer P e = Some (j, d) then f_payload ` set (conn_queue e P) else {})"

definition moved :: "string \<Rightarrow> conn_end set \<Rightarrow> 'v p2p_pods \<Rightarrow> 'v p2p_pods \<Rightarrow> bool" where
  "moved topic E P P' \<longleftrightarrow> linked topic P' \<and> pods_ends P' = pods_ends P \<and> pp_peer P' = pp_peer P \<and> pp_sent P' = pp_sent P \<and>
     map pod_id (pp_store P') = map pod_id (pp_store P) \<and> map p_sendDepth (pp_tr P') = map p_sendDepth (pp_tr P) \<and>
     (\<forall>e. conn_queue e P' = (if e \<in> E then [] else conn_queue e P)) \<and>
     (\<forall>j. pp_got P' j = pp_got P j \<union> (\<Union>e \<in> E. towards j e P))"

lemma moved_length: "moved topic E P P' \<Longrightarrow> length (pp_store P') = length (pp_store P)"
  unfolding moved_def by (metis map_eq_imp_length_eq)

lemma moved_refl: "linked topic P \<Longrightarrow> moved topic {} P P"
  by (simp add: moved_def)

lemma moved_trans:
  assumes "moved topic E P P'" "moved topic {e} P' P''"
  shows "moved topic (insert e E) P P''"
proof -
  have t: "towards j e P' = (if e \<in> E then {} else towards j e P)" for j
    using assms(1) by (simp add: moved_def towards_def)
  show ?thesis using assms unfolding moved_def by (auto simp: t)
qed

lemma carry_moves:
  fixes J :: Json and now :: time
  assumes P: "linked topic P" and e: "e \<in> set (pods_ends P)" and pr: "pp_peer P e = Some (j, d)"
    and q: "conn_queue e P = event_frame topic m # fs" "\<exists>msgs. fs = map (event_frame topic) msgs \<and> (\<forall>m \<in> set msgs. fits topic m)"
    and m: "fits topic m"
  defines "P' \<equiv> carry J now e P"
  shows "linked topic P' \<and> pods_ends P' = pods_ends P \<and> pp_peer P' = pp_peer P \<and> pp_sent P' = pp_sent P \<and>
    map pod_id (pp_store P') = map pod_id (pp_store P) \<and> map p_sendDepth (pp_tr P') = map p_sendDepth (pp_tr P) \<and>
    (\<forall>e'. conn_queue e' P' = (if e' = e then fs else conn_queue e' P)) \<and>
    pp_got P' = (pp_got P)(j := insert m (pp_got P j))"
proof -
  obtain i c where ic: "e = (i, c)" by (cases e)
  let ?t = "set_conn c ((p_cheap (pp_tr P ! i) c)\<lparr>pc_sendQ := fs\<rparr>) (pp_tr P ! i)"
  have P': "P' = P\<lparr>pp_store := (pp_store P)[j := handleRaw J now m (pp_store P ! j)], pp_tr := (pp_tr P)[i := ?t],
      pp_got := (pp_got P)(j := insert m (pp_got P j))\<rparr>"
    unfolding P'_def ic using carry_eq [OF P _ _ _ m, of i c j d fs J now] e pr q(1) ic by blast
  have i: "i < length (pp_store P)" "length (pp_tr P) = length (pp_store P)" "end_up topic P e"
    using e P ic by (auto simp: set_pods_ends linked_def)
  have j: "j < length (pp_store P)" using i(3) pr by (auto simp: end_up_def)
  have tr: "pp_tr P' ! k = (if k = i then ?t else pp_tr P ! k)" for k using i by (simp add: P')
  have same: "p_conns (pp_tr P' ! k) = p_conns (pp_tr P ! k)"
      "pc_cancelled (p_cheap (pp_tr P' ! k) x) = pc_cancelled (p_cheap (pp_tr P ! k) x)" for k x
    by (simp_all add: tr)
  have queue: "conn_queue e' P' = (if e' = e then fs else conn_queue e' P)" for e'
    by (cases e') (simp add: conn_queue_def tr ic)
  have ends: "pods_ends P' = pods_ends P" by (simp add: pods_ends_def same(1)) (simp add: P')
  have "pod_up topic (pp_tr P' ! k)" if "k < length (pp_store P)" for k
  proof -
    have k: "pod_up topic (pp_tr P ! k)" using P that by (simp add: linked_def)
    have "length fs \<le> p_sendDepth (pp_tr P ! i)"
      using P i(1) q(1) p2p_inv_queue [of "pp_tr P ! i" c] by (simp add: linked_def pod_up_def conn_queue_def ic)
    with k show ?thesis by (auto simp: tr pod_up_def intro: p2p_inv_conn)
  qed
  moreover have "s_topic (pp_store P' ! k) = topic" if "k < length (pp_store P)" for k
    using P that j by (cases "k = j") (simp_all add: P' linked_def)
  moreover have "end_up topic P' e'" if "e' \<in> set (pods_ends P)" for e'
    using P that q(2) unfolding linked_def end_up_def queue same by (auto simp: P')
  ultimately have "linked topic P'" using i(2) by (simp add: linked_def ends) (simp add: P')
  moreover have "map pod_id (pp_store P') = map pod_id (pp_store P)"
    using j by (simp add: P' map_update pod_id_def list_update_same_conv)
  moreover have "map p_sendDepth (pp_tr P') = map p_sendDepth (pp_tr P)"
    using i by (simp add: P' map_update list_update_same_conv)
  ultimately show ?thesis using ends queue by (simp add: P')
qed

text \<open>It is a run of the pods.\<close>

lemma carry_reach:
  assumes "pods_reach J c z topic P" "linked topic P" "e \<in> set (pods_ends P)"
  shows "pods_reach J c z topic (carry J now e P)"
proof -
  obtain j d where pr: "pp_peer P e = Some (j, d)" "j < length (pp_store P)"
    using assms(2,3) by (auto simp: linked_def end_up_def)
  have len: "length (pp_store (pods_read True e (pods_send True e P))) = length (pp_store P)"
    by (simp add: pods_read_def pods_send_def split: prod.split option.split sum.split)
  have "pods_reach J c z topic (pods_send True e P)"
    using assms(3) by (intro pods_next [OF assms(1)] pods_step.pods_send) (simp add: set_pods_ends)
  then have "pods_reach J c z topic (pods_read True e (pods_send True e P))" by (rule pods_next) (rule pods_step.pods_read)
  from pods_next [OF this pods_step.pods_recv] pr len show ?thesis by (simp add: carry_def)
qed

lemma carry_link_moves:
  assumes "linked topic P" "e \<in> set (pods_ends P)"
  shows "moved topic {e} P (carry_link J now e P) \<and>
    (pods_reach J c z topic P \<longrightarrow> pods_reach J c z topic (carry_link J now e P))"
proof -
  have "moved topic {e} P ((carry J now e ^^ length msgs) P) \<and>
      (pods_reach J c z topic P \<longrightarrow> pods_reach J c z topic ((carry J now e ^^ length msgs) P))"
    if "conn_queue e P = map (event_frame topic) msgs" "\<forall>m \<in> set msgs. fits topic m" for msgs
    using assms that
  proof (induction msgs arbitrary: P)
    case Nil
    have "towards j e P = {}" for j using Nil.prems(3) by (simp add: towards_def)
    then show ?case using Nil.prems(1,3) by (simp add: moved_def)
  next
    case (Cons m msgs)
    let ?P = "carry J now e P"
    obtain j d where pr: "pp_peer P e = Some (j, d)" using Cons.prems(1,2) by (auto simp: linked_def end_up_def)
    have cm: "linked topic ?P \<and> pods_ends ?P = pods_ends P \<and> pp_peer ?P = pp_peer P \<and> pp_sent ?P = pp_sent P \<and>
        map pod_id (pp_store ?P) = map pod_id (pp_store P) \<and> map p_sendDepth (pp_tr ?P) = map p_sendDepth (pp_tr P) \<and>
        (\<forall>e'. conn_queue e' ?P = (if e' = e then map (event_frame topic) msgs else conn_queue e' P)) \<and>
        pp_got ?P = (pp_got P)(j := insert m (pp_got P j))"
      using Cons.prems by (intro carry_moves [OF Cons.prems(1,2) pr]) auto
    then have IH: "moved topic {e} ?P ((carry J now e ^^ length msgs) ?P)"
        "pods_reach J c z topic ?P \<longrightarrow> pods_reach J c z topic ((carry J now e ^^ length msgs) ?P)"
      using Cons.IH [of ?P] Cons.prems by auto
    have "towards k e P = (if k = j then insert m (towards k e ?P) else {})" for k
      using cm Cons.prems(3) pr by (auto simp: towards_def)
    with IH(1) cm have "moved topic {e} P ((carry J now e ^^ length msgs) ?P)"
      unfolding moved_def by (auto simp: towards_def pr)
    then show ?case using IH(2) carry_reach [OF _ Cons.prems(1,2)] by (simp add: funpow_swap1)
  qed
  moreover obtain msgs where "conn_queue e P = map (event_frame topic) msgs" "\<forall>m \<in> set msgs. fits topic m"
    using assms by (auto simp: linked_def end_up_def)
  ultimately show ?thesis by (simp add: carry_link_def)
qed

lemma carry_all_moves:
  assumes "linked topic P" "set es \<subseteq> set (pods_ends P)"
  shows "moved topic (set es) P (carry_all J now es P) \<and>
    (pods_reach J c z topic P \<longrightarrow> pods_reach J c z topic (carry_all J now es P))"
  using assms(2)
proof (induction es rule: rev_induct)
  case Nil
  then show ?case by (simp add: carry_all_def moved_refl [OF assms(1)])
next
  case (snoc e es)
  then have IH: "moved topic (set es) P (carry_all J now es P)"
      "pods_reach J c z topic P \<longrightarrow> pods_reach J c z topic (carry_all J now es P)" by simp_all
  then have "linked topic (carry_all J now es P)" "e \<in> set (pods_ends (carry_all J now es P))"
    using snoc.prems by (auto simp: moved_def)
  from moved_trans [OF IH(1) conjunct1 [OF carry_link_moves [OF this, of J now]]] carry_link_moves [OF this, of J now] IH(2)
  show ?case by (simp add: carry_all_def)
qed

lemma carried_all_got:
  assumes P: "linked topic P" "owed P" and es: "set es = set (pods_ends P)" and m: "m \<in> set (pp_sent P)" "j < length (pp_store P)"
  shows "m \<in> pp_got (carry_all J now es P) j"
proof -
  have mv: "moved topic (set es) P (carry_all J now es P)" using carry_all_moves [OF P(1)] es by blast
  then have "pp_got (carry_all J now es P) j = pp_got P j \<union> (\<Union>e \<in> set es. towards j e P)" by (simp add: moved_def)
  moreover have "m \<in> pp_got P j \<or> (\<exists>e \<in> set es. m \<in> towards j e P)"
    using P(2) m es unfolding owed_def towards_def by fastforce
  ultimately show ?thesis by blast
qed

subsection \<open>Writing\<close>

text \<open>A write that does not publish changes one store, one that does also the queues of the writer.\<close>

lemma local_linked:
  assumes "linked topic P" "i < length (pp_store P)" "s_topic s' = topic"
  shows "linked topic (P\<lparr>pp_store := (pp_store P)[i := s'], pp_sent := net, pp_got := g\<rparr>)"
proof -
  let ?P = "P\<lparr>pp_store := (pp_store P)[i := s'], pp_sent := net, pp_got := g\<rparr>"
  have ends: "pods_ends ?P = pods_ends P" by (simp add: pods_ends_def)
  have "end_up topic ?P e = end_up topic P e" for e by (simp add: end_up_def conn_queue_def)
  moreover have "s_topic ((pp_store P)[i := s'] ! k) = topic" if "k < length (pp_store P)" for k
    using assms that by (cases "k = i") (simp_all add: linked_def)
  ultimately show ?thesis using assms unfolding linked_def ends by simp
qed

lemma publish_linked:
  assumes P: "linked topic P" and i: "i < length (pp_store P)" and raw: "fits topic raw"
    and room: "\<forall>c \<in> set (p_conns (pp_tr P ! i)). length (conn_queue (i, c) P) < p_sendDepth (pp_tr P ! i)"
    and pub: "p2p_Publish picks topic raw (pp_tr P ! i) = (None, t')"
  shows "linked topic (P\<lparr>pp_tr := (pp_tr P)[i := t']\<rparr>) \<and> p_conns t' = p_conns (pp_tr P ! i) \<and>
    p_sendDepth t' = p_sendDepth (pp_tr P ! i) \<and>
    (\<forall>e \<in> set (pods_ends P). conn_queue e (P\<lparr>pp_tr := (pp_tr P)[i := t']\<rparr>) =
      conn_queue e P @ (if fst e = i then [event_frame topic raw] else []))"
proof -
  let ?t = "pp_tr P ! i" and ?P = "P\<lparr>pp_tr := (pp_tr P)[i := t']\<rparr>"
  have up: "pod_up topic ?t" "length (pp_tr P) = length (pp_store P)" using P i by (simp_all add: linked_def)
  have same: "p_conns t' = p_conns ?t" "p_subs t' = p_subs ?t" "p_heap t' = p_heap ?t" "p_closed t' = p_closed ?t"
    using conns.R_publish [of ?t picks topic raw] subs.R_publish [of ?t picks topic raw] pub
    by (simp_all add: same_conns_def same_subs_def)
  have c: "conn_up c ?t" if "c \<in> set (p_conns ?t)" for c
  proof -
    have "(i, c) \<in> set (pods_ends P)" using i that by (simp add: set_pods_ends)
    then have "end_up topic P (i, c)" using P by (simp add: linked_def)
    then show ?thesis using that up(1) by (simp add: conn_up_def pod_up_def end_up_def)
  qed
  have q: "\<not> pc_cancelled (p_cheap t' c) \<and> pc_sendQ (p_cheap t' c) = pc_sendQ (p_cheap ?t c) @ [event_frame topic raw]"
    if "c \<in> set (p_conns ?t)" for c
    using publish_up [OF c [OF that], of picks topic raw] room that pub by (auto simp: conn_up_def conn_queue_def)
  have depth: "p_sendDepth t' = p_sendDepth ?t"
  proof (cases "p_conns ?t")
    case Nil
    then show ?thesis using pub by (auto simp: p2p_Publish_def split: if_splits)
  next
    case (Cons c cs)
    then have "c \<in> set (p_conns ?t)" by simp
    with publish_up [OF c [OF this], of picks topic raw] room pub show ?thesis by (auto simp: conn_queue_def)
  qed
  have tr: "(pp_tr P)[i := t'] ! k = (if k = i then t' else pp_tr P ! k)" for k using i up(2) by simp
  have conns: "p_conns (pp_tr ?P ! k) = p_conns (pp_tr P ! k)" for k by (simp add: tr same(1))
  then have ends: "pods_ends ?P = pods_ends P" unfolding pods_ends_def by simp
  have queue: "conn_queue e ?P = conn_queue e P @ (if fst e = i then [event_frame topic raw] else [])"
    if "e \<in> set (pods_ends P)" for e
    using that q [of "snd e"] unfolding set_pods_ends by (auto simp: conn_queue_def tr)
  have "end_up topic ?P e" if e: "e \<in> set (pods_ends P)" for e
  proof -
    have old: "end_up topic P e" using P e by (simp add: linked_def)
    then obtain msgs where msgs: "conn_queue e P = map (event_frame topic) msgs" "\<forall>m \<in> set msgs. fits topic m"
      by (auto simp: end_up_def)
    have "\<exists>msgs. conn_queue e ?P = map (event_frame topic) msgs \<and> (\<forall>m \<in> set msgs. fits topic m)"
      unfolding queue [OF e] using msgs raw
      by (intro exI [of _ "msgs @ (if fst e = i then [raw] else [])"]) auto
    moreover have "\<not> pc_cancelled (p_cheap (pp_tr ?P ! fst e) (snd e))"
      using old q [of "snd e"] e unfolding set_pods_ends by (auto simp: tr end_up_def)
    ultimately show ?thesis using old unfolding end_up_def conns by simp
  qed
  moreover have "pod_up topic (pp_tr ?P ! k)" if "k < length (pp_store P)" for k
  proof -
    have "p2p_inv t'" using p2p_Publish_inv [of ?t picks topic raw] pub up(1) by (simp add: pod_up_def)
    then show ?thesis using P that up(1) by (simp add: tr linked_def pod_up_def same)
  qed
  ultimately have "linked topic ?P" using P unfolding linked_def ends by simp
  with same(1) depth queue show ?thesis by blast
qed

text \<open>Everything that a write keeps.\<close>

definition wrote_pods :: "nat \<Rightarrow> 'v p2p_pods \<Rightarrow> 'v p2p_pods \<Rightarrow> bool" where
  "wrote_pods i P P' \<longleftrightarrow> pods_ends P' = pods_ends P \<and> pp_peer P' = pp_peer P \<and> length (pp_store P') = length (pp_store P) \<and>
     map p_sendDepth (pp_tr P') = map p_sendDepth (pp_tr P) \<and> set (pp_sent P) \<subseteq> set (pp_sent P') \<and>
     (\<forall>e \<in> set (pods_ends P). length (conn_queue e P') \<le> Suc (length (conn_queue e P))) \<and>
     (\<forall>k < length (pp_store P). s_seq (pp_store P' ! k) = s_seq (pp_store P ! k) + (if k = i then 1 else 0))"

lemma write_counts:
  assumes "run_write T J now w s t = (None, s', t')"
  shows "s_seq s' = s_seq s + 1"
  using assms
  by (cases w) (auto simp: Set_eq Delete_eq write_tail_def markDirty_def store_defs
      split: if_splits sum.splits prod.splits option.splits)

lemma write_linked:
  assumes P: "linked topic P" "owed P" "meshed P" and i: "i < length (pp_store P)"
    and room: "\<forall>c \<in> set (p_conns (pp_tr P ! i)). length (conn_queue (i, c) P) < p_sendDepth (pp_tr P ! i)"
    and w: "pods_write picks J now i w P = (None, P')" and fit: "\<forall>m \<in> set (pp_sent P'). fits topic m"
  shows "linked topic P' \<and> owed P' \<and> meshed P' \<and> wrote_pods i P P'"
proof -
  let ?s = "pp_store P ! i" and ?t = "pp_tr P ! i"
  have topic: "s_topic ?s = topic" "length (pp_tr P) = length (pp_store P)" using P(1) i by (simp_all add: linked_def)
  obtain s' t' where run: "run_write (p2p_transport picks id) J now w ?s ?t = (None, s', t')"
    using w by (auto simp: pods_write_def Let_def split: prod.splits)
  obtain net where net: "run_write net_transport J now w ?s (pp_sent P) = (None, s', net)" "s_topic s' = topic"
    and pub: "net = pp_sent P \<and> t' = ?t \<or>
       (\<exists>raw. net = pp_sent P @ [raw] \<and> p2p_Publish picks topic raw ?t = (None, t'))"
    using write_on_net [OF run, of "pp_sent P"] topic by (auto simp: p2p_transport_def)
  let ?g = "(pp_got P)(i := pp_got P i \<union> set (drop (length (pp_sent P)) net))"
  have "P' = P\<lparr>pp_store := (pp_store P)[i := s'], pp_tr := (pp_tr P)[i := t'], pp_sent := net, pp_got := ?g\<rparr>"
    using w by (simp add: pods_write_def run net(1))
  also have "\<dots> = (P\<lparr>pp_tr := (pp_tr P)[i := t']\<rparr>)\<lparr>pp_store := (pp_store P)[i := s'], pp_sent := net, pp_got := ?g\<rparr>"
    by (cases P) simp
  finally have P': "P' = (P\<lparr>pp_tr := (pp_tr P)[i := t']\<rparr>)\<lparr>pp_store := (pp_store P)[i := s'], pp_sent := net, pp_got := ?g\<rparr>" .
  have seq: "s_seq s' = s_seq ?s + 1" by (rule write_counts [OF run])
  from pub consider (none) "net = pp_sent P" "t' = ?t"
    | (raw) raw where "net = pp_sent P @ [raw]" "p2p_Publish picks topic raw ?t = (None, t')" by blast
  then show ?thesis
  proof cases
    case none
    have same: "P' = P\<lparr>pp_store := (pp_store P)[i := s'], pp_sent := pp_sent P, pp_got := pp_got P\<rparr>"
      unfolding P' none by simp
    have "linked topic P'" unfolding same by (rule local_linked [OF P(1) i net(2)])
    moreover have "pods_ends P' = pods_ends P" "\<And>e. conn_queue e P' = conn_queue e P"
      by (simp_all add: same pods_ends_def conn_queue_def)
    ultimately show ?thesis
      using P(2,3) i seq by (simp add: same owed_def meshed_def wrote_pods_def nth_list_update)
  next
    case raw
    then have fr: "fits topic raw" using fit by (simp add: P')
    let ?P = "P\<lparr>pp_tr := (pp_tr P)[i := t']\<rparr>"
    note pl = publish_linked [OF P(1) i fr room raw(2)]
    have "p_conns (pp_tr P' ! k) = p_conns (pp_tr P ! k)" if "k < length (pp_store P)" for k
      using pl that topic(2) by (cases "k = i") (simp_all add: P')
    then have ends: "pods_ends P' = pods_ends P" by (intro pods_ends_cong) (simp_all add: P')
    have depth: "map p_sendDepth (pp_tr P') = map p_sendDepth (pp_tr P)"
      using pl i topic(2) by (simp add: P' map_update list_update_same_conv)
    have q: "conn_queue e P' = conn_queue e P @ (if fst e = i then [event_frame topic raw] else [])" if "e \<in> set (pods_ends P)" for e
      using pl that by (simp add: P' conn_queue_def)
    have lk: "linked topic P'" unfolding P' using local_linked [of topic ?P i s' ?g net] pl i net(2) by simp
    have me: "meshed P'" using P(3) by (simp add: meshed_def ends) (simp add: P')
    have "m \<in> pp_got P' j \<or> (\<exists>e \<in> set (pods_ends P'). m \<in> f_payload ` set (conn_queue e P') \<and> (\<exists>d. pp_peer P' e = Some (j, d)))"
      if m: "m \<in> set (pp_sent P')" and j: "j < length (pp_store P)" for m j
    proof (cases "m = raw")
      case True
      show ?thesis
      proof (cases "j = i")
        case True
        with \<open>m = raw\<close> raw(1) show ?thesis by (simp add: P')
      next
        case False
        then obtain e d where e: "e \<in> set (pods_ends P)" "fst e = i" "pp_peer P e = Some (j, d)"
          using P(3) i j unfolding meshed_def by blast
        then have "raw \<in> f_payload ` set (conn_queue e P')" by (simp add: q)
        with e \<open>m = raw\<close> show ?thesis unfolding ends by (auto simp: P')
      qed
    next
      case False
      with m raw(1) have "m \<in> set (pp_sent P)" by (simp add: P')
      with P(2) j consider "m \<in> pp_got P j"
        | e d where "e \<in> set (pods_ends P)" "m \<in> f_payload ` set (conn_queue e P)" "pp_peer P e = Some (j, d)"
        unfolding owed_def by blast
      then show ?thesis
      proof cases
        case 1
        then show ?thesis by (auto simp: P')
      next
        case 2
        then have "m \<in> f_payload ` set (conn_queue e P')" by (auto simp: q)
        with 2 show ?thesis unfolding ends by (auto simp: P')
      qed
    qed
    then have ow: "owed P'" by (simp add: owed_def P')
    have "wrote_pods i P P'"
      using ends depth q seq raw(1) i by (simp add: wrote_pods_def nth_list_update) (simp add: P' nth_list_update subset_insertI)
    with lk me ow show ?thesis by blast
  qed
qed

text \<open>A list of writes, each with its clock and its pod, up to the first that fails.\<close>

fun pods_writes :: "(nat \<Rightarrow> bool) \<Rightarrow> Json \<Rightarrow> (time \<times> nat \<times> 'v pod_write) list \<Rightarrow> 'v p2p_pods \<Rightarrow> goerror + 'v p2p_pods" where
  "pods_writes picks J [] P = Inr P"
| "pods_writes picks J ((now, i, w) # ws) P =
    (case pods_write picks J now i w P of
       (Some err, _) \<Rightarrow> Inl err
     | (None, P') \<Rightarrow> pods_writes picks J ws P')"

text \<open>\<open>n\<close> more writes find room in every queue and do not wrap a sequence counter.\<close>

definition can_write :: "nat \<Rightarrow> 'v p2p_pods \<Rightarrow> bool" where
  "can_write n P \<longleftrightarrow> length (pp_tr P) = length (pp_store P) \<and>
     (\<forall>e \<in> set (pods_ends P). length (conn_queue e P) + n \<le> map p_sendDepth (pp_tr P) ! fst e) \<and>
     (\<forall>k < length (pp_store P). unat (s_seq (pp_store P ! k)) + n < 2 ^ 64)"

lemma can_write_Suc:
  assumes "can_write (Suc n) P" "wrote_pods i P P'" "length (pp_tr P') = length (pp_store P')"
  shows "can_write n P'"
proof -
  have "unat (s_seq (pp_store P' ! k)) + n < 2 ^ 64" if "k < length (pp_store P)" for k
  proof -
    have b: "unat (s_seq (pp_store P ! k)) + Suc n < 2 ^ 64" using assms(1) that by (simp add: can_write_def)
    then have "unat (s_seq (pp_store P ! k) + 1) = Suc (unat (s_seq (pp_store P ! k)))" using no_wrap by blast
    moreover have "s_seq (pp_store P' ! k) = s_seq (pp_store P ! k) + (if k = i then 1 else 0)"
      using assms(2) that by (simp add: wrote_pods_def)
    ultimately show ?thesis using b by (cases "k = i") simp_all
  qed
  moreover have "length (conn_queue e P') + n \<le> map p_sendDepth (pp_tr P') ! fst e" if "e \<in> set (pods_ends P')" for e
    using assms(1,2) that unfolding can_write_def wrote_pods_def by fastforce
  ultimately show ?thesis using assms(2,3) by (simp add: can_write_def wrote_pods_def)
qed

lemma pods_writes_sent:
  assumes "pods_writes picks J ws P = Inr P'"
  shows "set (pp_sent P) \<subseteq> set (pp_sent P')"
  using assms
proof (induction ws arbitrary: P)
  case (Cons x ws)
  obtain now i w where x: "x = (now, i, w)" by (metis prod.exhaust)
  obtain P1 where P1: "pods_write picks J now i w P = (None, P1)" "pods_writes picks J ws P1 = Inr P'"
    using Cons.prems by (auto simp: x split: prod.splits option.splits)
  obtain s' t' where run: "run_write (p2p_transport picks id) J now w (pp_store P ! i) (pp_tr P ! i) = (None, s', t')"
    using P1(1) by (auto simp: pods_write_def Let_def split: prod.splits)
  obtain net where "run_write net_transport J now w (pp_store P ! i) (pp_sent P) = (None, s', net)"
      "set (pp_sent P) \<subseteq> set net"
    using write_on_net [OF run, of "pp_sent P"] by (auto simp: subset_insertI)
  then have "set (pp_sent P) \<subseteq> set (pp_sent P1)" using P1(1) run by (auto simp: pods_write_def)
  with Cons.IH [OF P1(2)] show ?case by blast
qed simp

lemma pods_writes_linked:
  assumes "pods_writes picks J ws P = Inr P'" "linked topic P" "owed P" "meshed P" "can_write (length ws) P"
    and "\<forall>x \<in> set ws. fst (snd x) < length (pp_store P) \<and> valid_utf8 (write_key (snd (snd x)))"
    and "\<forall>m \<in> set (pp_sent P'). fits topic m"
  shows "linked topic P' \<and> owed P' \<and> pods_ends P' = pods_ends P \<and> length (pp_store P') = length (pp_store P) \<and>
    (pods_reach J c z topic P \<longrightarrow> pods_reach J c z topic P')"
  using assms
proof (induction ws arbitrary: P)
  case (Cons x ws)
  obtain now i w where x: "x = (now, i, w)" by (metis prod.exhaust)
  obtain P1 where P1: "pods_write picks J now i w P = (None, P1)" "pods_writes picks J ws P1 = Inr P'"
    using Cons.prems(1) by (auto simp: x split: prod.splits option.splits)
  have i: "i < length (pp_store P)" "valid_utf8 (write_key w)" using Cons.prems(6) by (simp_all add: x)
  have fit: "\<forall>m \<in> set (pp_sent P1). fits topic m" using pods_writes_sent [OF P1(2)] Cons.prems(7) by blast
  have seq: "s_seq (pp_store P ! i) + 1 \<noteq> 0" using Cons.prems(5) i(1) no_wrap by (fastforce simp: can_write_def)
  have room: "length (conn_queue (i, c) P) < p_sendDepth (pp_tr P ! i)" if "c \<in> set (p_conns (pp_tr P ! i))" for c
  proof -
    have "(i, c) \<in> set (pods_ends P)" using i(1) that by (simp add: set_pods_ends)
    then have "length (conn_queue (i, c) P) + Suc (length ws) \<le> map p_sendDepth (pp_tr P) ! i"
      using Cons.prems(5) unfolding can_write_def by fastforce
    then show ?thesis using i(1) Cons.prems(5) by (simp add: can_write_def)
  qed
  have w: "linked topic P1" "owed P1" "meshed P1" "wrote_pods i P P1"
    using write_linked [OF Cons.prems(2-4) i(1) _ P1(1) fit] room by blast+
  have "pods_reach J c z topic P \<longrightarrow> pods_reach J c z topic P1"
    using pods_step.pods_write [OF i(1) seq i(2) P1(1)] by (auto intro: pods_next)
  moreover have "can_write (length ws) P1"
    using can_write_Suc [OF _ w(4)] Cons.prems(5) w(1) by (simp add: linked_def)
  ultimately show ?case
    using Cons.IH [OF P1(2) w(1-3)] Cons.prems(6,7) w(4) by (auto simp: wrote_pods_def)
qed auto

subsection \<open>Connecting\<close>

text \<open>Pod \<open>i\<close> has a connection to pod \<open>j\<close>.\<close>

definition link :: "nat \<Rightarrow> nat \<Rightarrow> 'v p2p_pods \<Rightarrow> bool" where
  "link i j P \<longleftrightarrow> (\<exists>e \<in> set (pods_ends P). fst e = i \<and> (\<exists>d. pp_peer P e = Some (j, d)))"

lemma meshed_link: "meshed P \<longleftrightarrow> (\<forall>i < length (pp_store P). \<forall>j < length (pp_store P). i \<noteq> j \<longrightarrow> link i j P)"
  by (simp add: meshed_def link_def)

text \<open>Nothing is under way.\<close>

definition still :: "string \<Rightarrow> 'v p2p_pods \<Rightarrow> bool" where
  "still topic P \<longleftrightarrow> linked topic P \<and> (\<forall>e \<in> set (pods_ends P). conn_queue e P = [])"

lemma open_conn:
  assumes "pod_up topic t"
  shows "\<exists>t'. serveConn_open a b t = (Some (p_nextc t), t') \<and> pod_up topic t' \<and> p_conns t' = p_conns t @ [p_nextc t] \<and>
    p_cheap t' = (p_cheap t)(p_nextc t := \<lparr>pc_remote = a, pc_inbound = b, pc_sendQ = [], pc_cancelled = False\<rparr>) \<and>
    p_sendDepth t' = p_sendDepth t \<and> p_nextc t \<notin> set (p_conns t)"
proof -
  obtain t' where t': "serveConn_open a b t = (Some (p_nextc t), t')"
    using assms by (simp add: serveConn_open_eq pod_up_def p2p_isClosed_def Let_def)
  have "p2p_inv t" using assms by (simp add: pod_up_def)
  moreover from this have "p2p_inv t'" using serveConn_open_inv [of t a b] t' by simp
  ultimately show ?thesis
    using assms t' serveConn_open_same [OF t']
    by (auto simp: serveConn_open_eq pod_up_def p2p_isClosed_def p2p_inv_def same_subs_def call_onConnect_def Let_def
        split: if_splits)
qed

lemma connect_still:
  assumes P: "still topic P" and ij: "i < length (pp_store P)" "j < length (pp_store P)" "i \<noteq> j"
  shows "still topic (pods_connect i to j from P) \<and> link i j (pods_connect i to j from P) \<and>
    link j i (pods_connect i to j from P) \<and> (\<forall>a b. link a b P \<longrightarrow> link a b (pods_connect i to j from P)) \<and>
    pp_store (pods_connect i to j from P) = pp_store P \<and> pp_sent (pods_connect i to j from P) = pp_sent P \<and>
    pp_got (pods_connect i to j from P) = pp_got P \<and>
    map p_sendDepth (pp_tr (pods_connect i to j from P)) = map p_sendDepth (pp_tr P)"
proof -
  let ?ti = "pp_tr P ! i" and ?tj = "pp_tr P ! j"
  have up: "pod_up topic ?ti" "pod_up topic ?tj" "length (pp_tr P) = length (pp_store P)"
    using P ij by (simp_all add: still_def linked_def)
  obtain t where t: "serveConn_open to False ?ti = (Some (p_nextc ?ti), t)" "pod_up topic t" "p_conns t = p_conns ?ti @ [p_nextc ?ti]"
      "p_cheap t = (p_cheap ?ti)(p_nextc ?ti := \<lparr>pc_remote = to, pc_inbound = False, pc_sendQ = [], pc_cancelled = False\<rparr>)"
      "p_sendDepth t = p_sendDepth ?ti" "p_nextc ?ti \<notin> set (p_conns ?ti)"
    using open_conn [OF up(1), of to False] by blast
  obtain u where u: "serveConn_open from True ?tj = (Some (p_nextc ?tj), u)" "pod_up topic u" "p_conns u = p_conns ?tj @ [p_nextc ?tj]"
      "p_cheap u = (p_cheap ?tj)(p_nextc ?tj := \<lparr>pc_remote = from, pc_inbound = True, pc_sendQ = [], pc_cancelled = False\<rparr>)"
      "p_sendDepth u = p_sendDepth ?tj" "p_nextc ?tj \<notin> set (p_conns ?tj)"
    using open_conn [OF up(2), of "from" True] by blast
  let ?a = "(i, p_nextc ?ti)" and ?b = "(j, p_nextc ?tj)"
  define P' where "P' = pods_connect i to j from P"
  have P': "P' = P\<lparr>pp_tr := (pp_tr P)[i := t, j := u], pp_peer := (pp_peer P)(?a \<mapsto> ?b, ?b \<mapsto> ?a),
      pp_wire := (pp_wire P)(?a := [], ?b := [])\<rparr>"
    unfolding P'_def by (simp add: pods_connect_def t(1) u(1))
  have tr: "pp_tr P' ! k = (if k = j then u else if k = i then t else pp_tr P ! k)" for k
    using ij up(3) by (simp add: P' nth_list_update)
  have st: "pp_store P' = pp_store P" by (simp add: P')
  have ends: "e \<in> set (pods_ends P') \<longleftrightarrow> e \<in> set (pods_ends P) \<or> e = ?a \<or> e = ?b" for e
    using ij by (cases e) (auto simp: set_pods_ends tr st t(3) u(3))
  have new: "?a \<notin> set (pods_ends P)" "?b \<notin> set (pods_ends P)" using t(6) u(6) by (simp_all add: set_pods_ends)
  have conn: "p_cheap (pp_tr P' ! fst e) (snd e) = p_cheap (pp_tr P ! fst e) (snd e)" if "e \<in> set (pods_ends P)" for e
    using that t(6) u(6) unfolding set_pods_ends by (auto simp: tr t(4) u(4))
  have grow: "set (p_conns (pp_tr P ! k)) \<subseteq> set (p_conns (pp_tr P' ! k))" for k by (auto simp: tr t(3) u(3))
  have peer: "pp_peer P' e = pp_peer P e \<and> pp_wire P' e = pp_wire P e" if "e \<in> set (pods_ends P)" for e
    using that new by (auto simp: P')
  have ab: "pp_peer P' ?a = Some ?b" "pp_peer P' ?b = Some ?a" "pp_wire P' ?a = []" "pp_wire P' ?b = []"
    using ij by (simp_all add: P')
  have q: "conn_queue ?a P' = []" "conn_queue ?b P' = []" using ij by (simp_all add: conn_queue_def tr t(4) u(4))
  have old: "end_up topic P' e \<and> conn_queue e P' = []" if e: "e \<in> set (pods_ends P)" for e
  proof -
    have "end_up topic P e" "conn_queue e P = []" using P e by (simp_all add: still_def linked_def)
    then show ?thesis using peer [OF e] conn [OF e] grow unfolding end_up_def conn_queue_def st by (auto dest: subsetD)
  qed
  have "end_up topic P' ?a" "end_up topic P' ?b"
    unfolding end_up_def using ab q ij by (simp_all add: tr st t(3,4) u(3,4))
  with old q have "\<forall>e \<in> set (pods_ends P'). end_up topic P' e \<and> conn_queue e P' = []" using ends by blast
  moreover have "pod_up topic (pp_tr P' ! k)" if "k < length (pp_store P)" for k
    using P that t(2) u(2) by (simp add: tr still_def linked_def)
  ultimately have s: "still topic P'" using P up(3) by (simp add: still_def linked_def st) (simp add: P')
  have l: "link i j P'" "link j i P'" unfolding link_def using ab(1,2) ends by force+
  have keep: "link x y P'" if "link x y P" for x y
    using that peer ends unfolding link_def by metis
  have "map p_sendDepth (pp_tr P') = map p_sendDepth (pp_tr P)"
    using ij up(3) t(5) u(5) by (intro nth_equalityI) (auto simp: P' nth_list_update)
  with s l keep show ?thesis unfolding P'_def [symmetric] by (simp add: P')
qed

text \<open>Dials in some order: \<open>(i, to, j, from)\<close> is one of pod \<open>i\<close> to pod \<open>j\<close>.\<close>

definition pods_dials :: "(nat \<times> string \<times> nat \<times> string) list \<Rightarrow> 'v p2p_pods \<Rightarrow> 'v p2p_pods" where
  "pods_dials ds P = fold (\<lambda>(i, to, j, from). pods_connect i to j from) ds P"

lemma dials_still:
  assumes "still topic P" "\<forall>(i, to, j, from) \<in> set ds. i < length (pp_store P) \<and> j < length (pp_store P) \<and> i \<noteq> j"
  shows "still topic (pods_dials ds P) \<and> (\<forall>(i, to, j, from) \<in> set ds. link i j (pods_dials ds P) \<and> link j i (pods_dials ds P)) \<and>
    pp_store (pods_dials ds P) = pp_store P \<and> pp_sent (pods_dials ds P) = pp_sent P \<and>
    pp_got (pods_dials ds P) = pp_got P \<and> map p_sendDepth (pp_tr (pods_dials ds P)) = map p_sendDepth (pp_tr P) \<and>
    (pods_reach J c z topic P \<longrightarrow> pods_reach J c z topic (pods_dials ds P))"
  using assms(2)
proof (induction ds rule: rev_induct)
  case Nil
  then show ?case by (simp add: pods_dials_def assms(1))
next
  case (snoc x ds)
  obtain i to j "from" where x: "x = (i, to, j, from)" by (metis prod.exhaust)
  let ?P = "pods_dials ds P" and ?P' = "pods_connect i to j from (pods_dials ds P)"
  have IH: "still topic ?P" "\<forall>(i, to, j, from) \<in> set ds. link i j ?P \<and> link j i ?P" "pp_store ?P = pp_store P"
      "pp_sent ?P = pp_sent P" "pp_got ?P = pp_got P" "map p_sendDepth (pp_tr ?P) = map p_sendDepth (pp_tr P)"
      "pods_reach J c z topic P \<longrightarrow> pods_reach J c z topic ?P"
    using snoc by auto
  have ij: "i < length (pp_store ?P)" "j < length (pp_store ?P)" "i \<noteq> j" using snoc.prems IH(3) by (simp_all add: x)
  have eq: "pods_dials (ds @ [x]) P = ?P'" by (simp add: pods_dials_def x)
  have "pods_reach J c z topic P \<longrightarrow> pods_reach J c z topic ?P'"
    using IH(7) pods_step.pods_connect [OF ij] by (blast intro: pods_next)
  with connect_still [OF IH(1) ij, of to "from"] IH(2-6) show ?case unfolding eq by (auto simp: x)
qed

end
