(* ===== verification/Mesh_Ready.thy ===== *)
theory Mesh_Ready
  imports Mesh_Settles
begin

section \<open>Running programs over a mesh\<close>

text \<open>
  What a program that sets up pods over a full mesh relies on: new pods that have dialled each other are
  ready, a local step or a write that wins keeps them ready, and once the queues have been carried every pod
  holds, under each key, the write with the greatest stamp.
\<close>

subsection \<open>Ready pods\<close>

definition mesh_ready :: "Json \<Rightarrow> 'v Codec \<Rightarrow> 'v \<Rightarrow> string \<Rightarrow> nat \<Rightarrow> 'v p2p_pods \<Rightarrow> bool" where
  "mesh_ready J c z topic n P \<longleftrightarrow> pods_reach J c z topic P \<and> linked topic P \<and> meshed P \<and> owed P \<and> can_write n P \<and>
     (\<forall>m \<in> set (pp_sent P). fits topic m)"

lemma ready_local:
  assumes P: "mesh_ready J c z topic n P" and i: "i < length (pp_store P)" and s': "same_pod (pp_store P ! i) s'"
  shows "mesh_ready J c z topic n (P\<lparr>pp_store := (pp_store P)[i := s']\<rparr>)"
proof -
  let ?P = "P\<lparr>pp_store := (pp_store P)[i := s']\<rparr>"
  have same: "s_topic s' = s_topic (pp_store P ! i)" "s_seq s' = s_seq (pp_store P ! i)"
    using s' by (simp_all add: same_pod_def pod_id_def)
  then have "s_topic s' = topic" using P i by (simp add: mesh_ready_def linked_def)
  then have "linked topic ?P"
    using local_linked [of topic P i s' "pp_got P" "pp_sent P"] P i by (simp add: mesh_ready_def)
  moreover have "pods_reach J c z topic ?P"
    using pods_next [OF _ pods_step.pods_local [OF i s']] P by (simp add: mesh_ready_def)
  moreover have "pods_ends ?P = pods_ends P" "\<And>e. conn_queue e ?P = conn_queue e P" by (simp_all add: pods_ends_def conn_queue_def)
  ultimately show ?thesis
    using P i same by (auto simp: mesh_ready_def meshed_def owed_def can_write_def nth_list_update)
qed

text \<open>A transport of a ready pod accepts a message.\<close>

lemma ready_publish:
  assumes P: "mesh_ready J c z topic (Suc n) P" and i: "i < length (pp_store P)"
  shows "\<exists>t'. p2p_Publish picks topic raw (pp_tr P ! i) = (None, t')"
proof -
  let ?t = "pp_tr P ! i"
  have up: "pod_up topic ?t" "length (pp_tr P) = length (pp_store P)" using P i by (simp_all add: mesh_ready_def linked_def)
  show ?thesis
  proof (cases "p_conns ?t")
    case Nil
    then show ?thesis using up(1) by (simp add: p2p_Publish_def pod_up_def p2p_isClosed_def)
  next
    case (Cons x xs)
    then have e: "(i, x) \<in> set (pods_ends P)" using i by (simp add: set_pods_ends)
    then have "end_up topic P (i, x)" "length (conn_queue (i, x) P) + Suc n \<le> map p_sendDepth (pp_tr P) ! i"
      using P unfolding mesh_ready_def linked_def can_write_def by fastforce+
    then have "conn_up x ?t" "length (pc_sendQ (p_cheap ?t x)) < p_sendDepth ?t"
      using up i Cons by (simp_all add: conn_up_def pod_up_def end_up_def conn_queue_def)
    from publish_up [OF this, of picks topic raw] show ?thesis by blast
  qed
qed

lemma run_write_pod_id:
  assumes "run_write T J now w s t = (None, s', t')"
  shows "pod_id s' = pod_id (s\<lparr>s_seq := s_seq s + 1\<rparr>)"
  using assms
  by (cases w) (auto simp: Set_eq Delete_eq write_tail_def markDirty_def pod_id_def stamped_def store_defs
      split: if_splits sum.splits prod.splits option.splits)

text \<open>A write that publishes \<open>raw\<close>, on this transport as on the log.\<close>

lemma ready_write:
  assumes P: "mesh_ready J c z topic (Suc n) P" and i: "i < length (pp_store P)"
    and k: "valid_utf8 (write_key w)" and raw: "fits topic raw"
    and w: "\<And>(T :: P2PTransport Transport) t t'. tr_Publish T topic raw t = (None, t') \<Longrightarrow>
      run_write T J now w (pp_store P ! i) t = (None, s', t')"
    and net: "run_write net_transport J now w (pp_store P ! i) (pp_sent P) = (None, s', pp_sent P @ [raw])"
  shows "\<exists>P'. pods_write picks J now i w P = (None, P') \<and> mesh_ready J c z topic n P' \<and>
    pp_store P' = (pp_store P)[i := s'] \<and> pp_sent P' = pp_sent P @ [raw] \<and>
    map pod_id (pp_store P') = (map pod_id (pp_store P))[i := pod_id ((pp_store P ! i)\<lparr>s_seq := s_seq (pp_store P ! i) + 1\<rparr>)]"
proof -
  obtain t' where t': "p2p_Publish picks topic raw (pp_tr P ! i) = (None, t')" using ready_publish [OF P i] by blast
  then have run: "run_write (p2p_transport picks id) J now w (pp_store P ! i) (pp_tr P ! i) = (None, s', t')"
    by (intro w) (simp add: p2p_transport_def)
  obtain P' where P': "pods_write picks J now i w P = (None, P')" "pp_sent P' = pp_sent P @ [raw]" "pp_store P' = (pp_store P)[i := s']"
    using run net by (simp add: pods_write_def)
  have one: "pods_writes picks J [(now, i, w)] P = Inr P'" using P'(1) by simp
  have fit: "\<forall>m \<in> set (pp_sent P'). fits topic m" using P raw by (simp add: P'(2) mesh_ready_def)
  have room: "length (conn_queue (i, x) P) < p_sendDepth (pp_tr P ! i)" if "x \<in> set (p_conns (pp_tr P ! i))" for x
  proof -
    have "(i, x) \<in> set (pods_ends P)" using i that by (simp add: set_pods_ends)
    then have "length (conn_queue (i, x) P) + Suc n \<le> map p_sendDepth (pp_tr P) ! i"
      using P unfolding mesh_ready_def can_write_def by fastforce
    then show ?thesis using i P by (simp add: mesh_ready_def can_write_def)
  qed
  have wl: "linked topic P'" "owed P'" "meshed P'" "wrote_pods i P P'"
    using write_linked [OF _ _ _ i _ P'(1) fit] room P by (auto simp: mesh_ready_def)
  have "s_seq (pp_store P ! i) + 1 \<noteq> 0" using P i no_wrap by (fastforce simp: mesh_ready_def can_write_def)
  then have "pods_reach J c z topic P'"
    using pods_next [OF _ pods_step.pods_write [OF i _ k P'(1)]] P by (simp add: mesh_ready_def)
  moreover have "can_write n P'" using can_write_Suc [OF _ wl(4)] P wl(1) by (simp add: mesh_ready_def linked_def)
  ultimately have "mesh_ready J c z topic n P'" using wl(1-3) fit by (simp add: mesh_ready_def)
  with P' run_write_pod_id [OF run] show ?thesis by (simp add: map_update)
qed

lemma Set_publishes:
  assumes "\<not> s_closed s" "Marshal (s_codec s) v = Inr p" "marshalMsg J (stamp_msg kindSet k p now s) = Inr raw"
    and "beats (Stamp now (s_nodeID s) (s_seq s + 1)) (s_data s k)" "tr_Publish T (s_topic s) raw t = (None, t')"
  shows "Set T J now k v s t = (None, markDirty (snd (applyMessage (stamp_msg kindSet k p now s) v (stamped s))), t')"
  using assms by (simp add: Set_eq write_tail_def stamped_def store_defs)

lemma Delete_publishes:
  assumes "\<not> s_closed s" "marshalMsg J (stamp_msg kindDelete k [] now s) = Inr raw"
    and "beats (Stamp now (s_nodeID s) (s_seq s + 1)) (s_data s k)" "tr_Publish T (s_topic s) raw t = (None, t')"
  shows "Delete T J now k s t = (None, markDirty (snd (applyMessage (stamp_msg kindDelete k [] now s) (s_zero s) (stamped s))), t')"
  using assms by (simp add: Delete_eq write_tail_def stamped_def store_defs)

lemma ready_Set:
  assumes P: "mesh_ready J c z topic (Suc n) P" and i: "i < length (pp_store P)"
    and s: "pod_id (pp_store P ! i) = (q, a, c, None, z, topic, False)" and k: "valid_utf8 k"
    and p: "Marshal c v = Inr p" and raw: "marshalMsg J (stamp_msg kindSet k p now (pp_store P ! i)) = Inr raw" "fits topic raw"
    and new: "beats (Stamp now a (q + 1)) (s_data (pp_store P ! i) k)"
  shows "\<exists>P' s'. pods_write picks J now i (PodSet k v) P = (None, P') \<and> mesh_ready J c z topic n P' \<and>
    pp_store P' = (pp_store P)[i := s'] \<and> pp_sent P' = pp_sent P @ [raw] \<and>
    map pod_id (pp_store P') = (map pod_id (pp_store P))[i := (q + 1, a, c, None, z, topic, False)]"
proof -
  let ?s = "pp_store P ! i"
  have f: "\<not> s_closed ?s" "s_codec ?s = c" "s_nodeID ?s = a" "s_seq ?s = q" "s_topic ?s = topic"
    and id: "pod_id (?s\<lparr>s_seq := s_seq ?s + 1\<rparr>) = (q + 1, a, c, None, z, topic, False)"
    using s by (simp_all add: pod_id_def)
  note sp = Set_publishes [of ?s v p J k now raw]
  show ?thesis
    using ready_write [OF P i, where w = "PodSet k v" and raw = raw and picks = picks and now = now
        and s' = "markDirty (snd (applyMessage (stamp_msg kindSet k p now ?s) v (stamped ?s)))"]
      k raw p new f id by (fastforce simp: sp)
qed

lemma ready_Delete:
  assumes P: "mesh_ready J c z topic (Suc n) P" and i: "i < length (pp_store P)"
    and s: "pod_id (pp_store P ! i) = (q, a, c, None, z, topic, False)" and k: "valid_utf8 k"
    and raw: "marshalMsg J (stamp_msg kindDelete k [] now (pp_store P ! i)) = Inr raw" "fits topic raw"
    and new: "beats (Stamp now a (q + 1)) (s_data (pp_store P ! i) k)"
  shows "\<exists>P' s'. pods_write picks J now i (PodDelete k) P = (None, P') \<and> mesh_ready J c z topic n P' \<and>
    pp_store P' = (pp_store P)[i := s'] \<and> pp_sent P' = pp_sent P @ [raw] \<and>
    map pod_id (pp_store P') = (map pod_id (pp_store P))[i := (q + 1, a, c, None, z, topic, False)]"
proof -
  let ?s = "pp_store P ! i"
  have f: "\<not> s_closed ?s" "s_nodeID ?s = a" "s_seq ?s = q" "s_topic ?s = topic"
    and id: "pod_id (?s\<lparr>s_seq := s_seq ?s + 1\<rparr>) = (q + 1, a, c, None, z, topic, False)"
    using s by (simp_all add: pod_id_def)
  note dp = Delete_publishes [of ?s J k now raw]
  show ?thesis
    using ready_write [OF P i, where w = "PodDelete k" and raw = raw and picks = picks and now = now
        and s' = "markDirty (snd (applyMessage (stamp_msg kindDelete k [] now ?s) (s_zero ?s) (stamped ?s)))"]
      k raw new f id by (fastforce simp: dp)
qed

subsection \<open>After the queues have been carried\<close>

lemma carried_ready:
  assumes P: "mesh_ready J c z topic n P" and es: "set es = set (pods_ends P)"
  shows "mesh_ready J c z topic n (carry_all J now es P) \<and> pp_sent (carry_all J now es P) = pp_sent P \<and>
    map pod_id (pp_store (carry_all J now es P)) = map pod_id (pp_store P) \<and>
    (\<forall>i < length (pp_store P). pp_got (carry_all J now es P) i = set (pp_sent P)) \<and>
    pods_ends (carry_all J now es P) = pods_ends P"
proof -
  let ?P = "carry_all J now es P"
  have mv: "moved topic (set es) P ?P" and reach: "pods_reach J c z topic ?P"
    using carry_all_moves [of topic P es J now c z] P es by (auto simp: mesh_ready_def)
  have len: "length (pp_store ?P) = length (pp_store P)" by (rule moved_length [OF mv])
  have eq: "pods_ends ?P = pods_ends P" "pp_peer ?P = pp_peer P" "pp_sent ?P = pp_sent P" "linked topic ?P"
      "map pod_id (pp_store ?P) = map pod_id (pp_store P)" "map p_sendDepth (pp_tr ?P) = map p_sendDepth (pp_tr P)"
      "\<And>e. conn_queue e ?P = (if e \<in> set es then [] else conn_queue e P)"
    using mv by (simp_all add: moved_def)
  have "m \<in> pp_got ?P i" if "m \<in> set (pp_sent P)" "i < length (pp_store P)" for m i
    using carried_all_got [of topic P es m i J now] P es that by (simp add: mesh_ready_def)
  moreover have "pp_got ?P i \<subseteq> set (pp_sent P)" if "i < length (pp_store P)" for i
  proof -
    obtain C where C: "reachable J c z C" "pods_sim topic ?P C" using pods_reach_sim [OF reach] by blast
    have "c_seen C i \<subseteq> set (c_net C)" using reachable_inv [OF C(1)] by (simp add: cluster_inv_def)
    moreover have "c_seen C i = pp_got ?P i" "c_net C = pp_sent ?P" using C(2) that by (simp_all add: pods_sim_def len)
    ultimately show ?thesis by (simp add: eq(3))
  qed
  ultimately have got: "pp_got ?P i = set (pp_sent P)" if "i < length (pp_store P)" for i using that by blast
  have seq: "s_seq (pp_store ?P ! k) = s_seq (pp_store P ! k)" if "k < length (pp_store P)" for k
    using arg_cong [OF eq(5), of "\<lambda>xs. fst (xs ! k)"] that len by (simp add: pod_id_def)
  have "can_write n ?P"
    using P eq(1,4,6,7) len seq unfolding mesh_ready_def can_write_def linked_def by fastforce
  moreover have "meshed ?P" using P eq(1,2) len by (simp add: mesh_ready_def meshed_def)
  moreover have "owed ?P" using got len by (simp add: owed_def eq(3))
  ultimately show ?thesis using P reach eq got by (simp add: mesh_ready_def)
qed

text \<open>What a pod that has got every message holds.\<close>

lemma synced_writes:
  assumes P: "pods_reach J c z topic P" and i: "i < length (pp_store P)"
  obtains ws where "set ws = writes_of J c z (pp_got P i)" "s_data (pp_store P ! i) = fold lww_upd (map abs_write ws) Map.empty"
proof -
  obtain C where C: "reachable J c z C" "pods_sim topic P C" using pods_reach_sim [OF P] by blast
  have "determined (writes_of J c z (c_seen C i)) (s_data (c_node C i))"
    using reachable_inv [OF C(1)] by (simp add: cluster_inv_def)
  moreover have "c_seen C i = pp_got P i" "c_node C i = pp_store P ! i" using C(2) i by (simp_all add: pods_sim_def)
  ultimately show thesis using that by (auto simp: determined_def)
qed

lemma synced_entry:
  assumes P: "pods_reach J c z topic P" "i < length (pp_store P)" and mv: "(m, v) \<in> writes_of J c z (pp_got P i)"
    and max: "\<forall>x \<in> writes_of J c z (pp_got P i). wm_Key (fst x) = wm_Key m \<longrightarrow> x = (m, v) \<or> msg_stamp (fst x) < msg_stamp m"
  shows "s_data (pp_store P ! i) (wm_Key m) = Some (msg_entry m v)"
proof -
  obtain ws where ws: "set ws = writes_of J c z (pp_got P i)" "s_data (pp_store P ! i) = fold lww_upd (map abs_write ws) Map.empty"
    by (rule synced_writes [OF P])
  have "dominated (wm_Key m) (msg_entry m v) (map abs_write ws)"
    using max unfolding ws(1) [symmetric] by (fastforce simp: dominated_def abs_write_def)
  moreover have "(wm_Key m, msg_entry m v) \<in> set (map abs_write ws)" using mv unfolding ws(1) [symmetric] by (force simp: abs_write_def)
  ultimately show ?thesis unfolding ws(2) by (intro fold_lww_upd_max) simp_all
qed

subsection \<open>Setting up\<close>

text \<open>\<^verbatim>\<open>New\<close> over a new transport: nobody answers the request for a snapshot.\<close>

lemma New_over_p2p:
  fixes opts :: "'v Option list" and z :: 'v and jc :: "'v Codec"
  assumes new: "NewP2PTransport po None = Inr t" and topic: "topic \<noteq> ''''"
  defines "s \<equiv> apply_options opts (default_store z jc topic)"
  assumes s: "s_nodeID s \<noteq> ''''"
  shows "\<exists>t'. New z jc J rid topic (Some (p2p_transport picks id)) opts t = (Inr s, t') \<and> tr_fresh topic t' \<and>
    p_sendDepth t' = (if o_SendQueueDepth po \<le> 0 then 1024 else nat (o_SendQueueDepth po))"
proof -
  have inv: "p2p_inv t" by (rule New_inv [OF new])
  have fold: "p_conns (fold (\<lambda>peer t. snd (AddPeer peer t)) ps t) = p_conns t \<and>
      p_cheap (fold (\<lambda>peer t. snd (AddPeer peer t)) ps t) = p_cheap t \<and>
      p_closed (fold (\<lambda>peer t. snd (AddPeer peer t)) ps t) = p_closed t \<and>
      p_subs (fold (\<lambda>peer t. snd (AddPeer peer t)) ps t) = p_subs t \<and>
      p_pending (fold (\<lambda>peer t. snd (AddPeer peer t)) ps t) = p_pending t \<and>
      p_sendDepth (fold (\<lambda>peer t. snd (AddPeer peer t)) ps t) = p_sendDepth t" for ps t
    by (induction ps arbitrary: t) (auto simp: AddPeer_def)
  have t: "p_conns t = []" "\<And>x. pc_sendQ (p_cheap t x) = []" "\<not> p_closed t" "p_subs t = Map.empty" "p_pending t = Map.empty"
      "p_sendDepth t = (if o_SendQueueDepth po \<le> 0 then 1024 else nat (o_SendQueueDepth po))"
    using new by (auto simp: NewP2PTransport_def Let_def fold split: if_splits)
  obtain t1 where sub: "p2p_Subscribe topic t = (Inr (p_next t), t1)" using t by (simp add: p2p_Subscribe_def p2p_isClosed_def Let_def)
  then have t1: "p_conns t1 = []" "p_cheap t1 = p_cheap t" "\<not> p_closed t1" "p_pending t1 = Map.empty" "p_sendDepth t1 = p_sendDepth t"
      "p_subs t1 topic = Some (p_next t)" "ch_buf (p_heap t1 (p_next t)) = []" "p2p_inv t1"
    using t p2p_Subscribe_inv [OF inv, of topic] by (auto simp: p2p_Subscribe_def p2p_isClosed_def Let_def)
  obtain t2 where f: "p2p_FetchSnapshot picks id topic t1 = (Inr [], t2)" "tr_fresh topic t2" "p_sendDepth t2 = p_sendDepth t"
    using t(2) t1 by (simp add: p2p_FetchSnapshot_def fetch_begin_def fetch_round_def fetch_result_def fetch_end_def
        p2p_isClosed_def tr_fresh_def p2p_inv_def Let_def)
  have "New z jc J rid topic (Some (p2p_transport picks id)) opts t = (Inr s, t2)"
    using topic s sub f(1) by (simp add: New_def s_def [symmetric] p2p_transport_def Let_def)
  with f t(6) show ?thesis by auto
qed

text \<open>New pods are still, and once they have dialled each other they are ready.\<close>

lemma start_still: "pods_start J c z topic P \<Longrightarrow> still topic P"
  by (auto simp: pods_start_def still_def linked_def tr_fresh_def pod_up_def set_pods_ends)

lemma dials_ready:
  assumes start: "pods_start J c z topic P"
    and ds: "\<forall>(i, to, j, from) \<in> set ds. i < length (pp_store P) \<and> j < length (pp_store P) \<and> i \<noteq> j"
    and all: "\<And>i j. i < j \<Longrightarrow> j < length (pp_store P) \<Longrightarrow> \<exists>to from. (i, to, j, from) \<in> set ds \<or> (j, to, i, from) \<in> set ds"
    and n: "\<forall>t \<in> set (pp_tr P). n \<le> p_sendDepth t" "\<forall>s \<in> set (pp_store P). unat (s_seq s) + n < 2 ^ 64"
  shows "mesh_ready J c z topic n (pods_dials ds P) \<and> pp_store (pods_dials ds P) = pp_store P \<and> pp_sent (pods_dials ds P) = []"
proof -
  let ?P = "pods_dials ds P"
  note d = dials_still [OF start_still [OF start] ds, of J c z]
  have st: "pp_store ?P = pp_store P" "pp_sent ?P = []" "still topic ?P" "map p_sendDepth (pp_tr ?P) = map p_sendDepth (pp_tr P)"
      "pods_reach J c z topic ?P"
    using d start by (auto simp: pods_start_def intro: pods_begin)
  have "link i j ?P" if "i < length (pp_store P)" "j < length (pp_store P)" "i \<noteq> j" for i j
    using that all [of i j] all [of j i] d by (fastforce simp: nat_neq_iff)
  then have "meshed ?P" by (simp add: meshed_link st(1))
  moreover have "map p_sendDepth (pp_tr P) ! fst e \<ge> n" if "e \<in> set (pods_ends ?P)" for e
    using that n(1) start by (simp add: set_pods_ends st(1) pods_start_def)
  then have "can_write n ?P" using st n(2) by (simp add: can_write_def still_def linked_def)
  ultimately show ?thesis using st by (simp add: mesh_ready_def still_def owed_def)
qed

text \<open>What writes and the carrying of their frames do to ready pods.\<close>

lemma mesh_carried:
  assumes "pods_reach J c z topic P" "linked topic P" "meshed P" "owed P" "can_write (length ws) P"
    and "\<forall>x \<in> set ws. fst (snd x) < length (pp_store P) \<and> valid_utf8 (write_key (snd (snd x)))"
    and "pods_writes picks J ws P = Inr P1" "\<forall>m \<in> set (pp_sent P1). fits topic m" "set es = set (pods_ends P)"
  shows "pods_reach J c z topic (carry_all J now es P1) \<and> length (pp_store (carry_all J now es P1)) = length (pp_store P) \<and>
    pp_sent (carry_all J now es P1) = pp_sent P1 \<and>
    (\<forall>e \<in> set es. conn_queue e (carry_all J now es P1) = []) \<and>
    (\<forall>i < length (pp_store P). pp_got (carry_all J now es P1) i = set (pp_sent P1)) \<and>
    (\<forall>i < length (pp_store P). \<forall>j < length (pp_store P).
      s_data (pp_store (carry_all J now es P1) ! i) = s_data (pp_store (carry_all J now es P1) ! j))"
proof -
  let ?P = "carry_all J now es P1"
  have w: "linked topic P1" "owed P1" "pods_ends P1 = pods_ends P" "length (pp_store P1) = length (pp_store P)"
      "pods_reach J c z topic P1"
    using pods_writes_linked [OF assms(7,2,4,3,5,6,8), of c z] assms(1) by blast+
  have mv: "moved topic (set es) P1 ?P" and reach: "pods_reach J c z topic ?P"
    using carry_all_moves [OF w(1), of es J now c z] w(3,5) assms(9) by auto
  have len: "length (pp_store ?P) = length (pp_store P)" using moved_length [OF mv] w(4) by simp
  obtain C where C: "reachable J c z C" "pods_sim topic ?P C" using pods_reach_sim [OF reach] by blast
  have "pp_got ?P i \<subseteq> set (pp_sent P1)" if "i < length (pp_store P)" for i
  proof -
    have "c_seen C i \<subseteq> set (c_net C)" using reachable_inv [OF C(1)] by (simp add: cluster_inv_def)
    moreover have "c_seen C i = pp_got ?P i" "c_net C = pp_sent ?P" using C(2) that by (simp_all add: pods_sim_def len)
    ultimately show ?thesis using mv by (simp add: moved_def)
  qed
  then have got: "pp_got ?P i = set (pp_sent P1)" if "i < length (pp_store P)" for i
    using carried_all_got [OF w(1,2), of es _ i J now] that w(3,4) assms(9) by (intro equalityI subsetI) auto
  have "s_data (pp_store ?P ! i) = s_data (pp_store ?P ! j)" if ij: "i < length (pp_store P)" "j < length (pp_store P)" for i j
  proof -
    have "c_seen C k = pp_got ?P k \<and> c_node C k = pp_store ?P ! k" if "k < length (pp_store P)" for k
      using C(2) that by (simp add: pods_sim_def len)
    with got [OF ij(1)] got [OF ij(2)] ij same_seen_same_data [OF reachable_inv [OF C(1)], of i j] show ?thesis by simp
  qed
  moreover have "\<forall>e \<in> set es. conn_queue e ?P = []" "pp_sent ?P = pp_sent P1" using mv by (simp_all add: moved_def)
  ultimately show ?thesis using got reach len by blast
qed

subsection \<open>Properties\<close>


text \<open>Two pods over new transports, and a dial between them.\<close>

definition sample_node :: P2PTransport where
  "sample_node = snd (p2p_Subscribe ''t'' (projr (NewP2PTransport sample_p2p_opts None)))"

definition sample_pods :: "string p2p_pods" where
  "sample_pods = \<lparr>pp_store = [sample_store ''a'', sample_store ''b''], pp_tr = [sample_node, sample_node], pp_peer = Map.empty,
     pp_wire = (\<lambda>_. []), pp_sent = [], pp_got = (\<lambda>_. {})\<rparr>"

definition sample_dialled :: "string p2p_pods" where
  "sample_dialled = pods_dials [(0, ''b:1'', 1, ''a:9'')] sample_pods"

lemma sample_node_fresh: "tr_fresh ''t'' sample_node" "p_sendDepth sample_node = 1024"
proof -
  obtain t where t: "NewP2PTransport sample_p2p_opts None = Inr t" "p_subs t = Map.empty" "\<not> p_closed t" "p_conns t = []"
      "\<forall>c. pc_sendQ (p_cheap t c) = []" "p_sendDepth t = 1024"
    by (simp add: NewP2PTransport_def sample_p2p_opts_def Let_def)
  then have n: "sample_node = snd (p2p_Subscribe ''t'' t)" by (simp add: sample_node_def)
  show "tr_fresh ''t'' sample_node"
    unfolding n using t p2p_Subscribe_inv [OF New_inv [OF t(1)], of "''t''"]
    by (simp add: tr_fresh_def p2p_Subscribe_def p2p_isClosed_def Let_def)
  show "p_sendDepth sample_node = 1024"
    unfolding n using t by (simp add: p2p_Subscribe_def p2p_isClosed_def Let_def)
qed

lemma sample_dialled_ready:
  "mesh_ready sample_json sample_codec '''' ''t'' 4 sample_dialled \<and>
   pp_store sample_dialled = [sample_store ''a'', sample_store ''b''] \<and> pp_sent sample_dialled = []"
proof -
  have "valid_utf8 ''a''" "valid_utf8 ''b''" by (simp_all add: valid_utf8_def of_char_def)
  then have "pods_start sample_json sample_codec '''' ''t'' sample_pods"
    using sample_json_msg sample_codec_roundtrip sample_node_fresh(1) by (simp add: pods_start_def sample_pods_def)
  moreover have "\<exists>to from. (i, to, j, from) \<in> set [(0, ''b:1'', 1, ''a:9'')] \<or> (j, to, i, from) \<in> set [(0, ''b:1'', 1, ''a:9'')]"
    if "i < j" "j < length (pp_store sample_pods)" for i j using that by (simp add: sample_pods_def)
  ultimately have "mesh_ready sample_json sample_codec '''' ''t'' 4 (pods_dials [(0, ''b:1'', 1, ''a:9'')] sample_pods) \<and>
      pp_store (pods_dials [(0, ''b:1'', 1, ''a:9'')] sample_pods) = pp_store sample_pods \<and>
      pp_sent (pods_dials [(0, ''b:1'', 1, ''a:9'')] sample_pods) = []"
    using sample_node_fresh(2) by (intro dials_ready) (auto simp: sample_pods_def)
  then show ?thesis by (simp add: sample_dialled_def) (simp add: sample_pods_def)
qed

lemma sample_dialled_write:
  "\<exists>P. pods_writes (\<lambda>_. False) sample_json [(1, 0, PodSet ''k'' ''x'')] sample_dialled = Inr P \<and>
     (\<forall>m \<in> set (pp_sent P). fits ''t'' m) \<and> pp_sent P \<noteq> []"
proof -
  let ?m = "stamp_msg kindSet ''k'' (str_bytes ''x'') 1 (sample_store ''a'')"
  have ready: "mesh_ready sample_json sample_codec '''' ''t'' (Suc 3) sample_dialled"
    and st: "pp_store sample_dialled ! 0 = sample_store ''a''" "0 < length (pp_store sample_dialled)" "pp_sent sample_dialled = []"
    using sample_dialled_ready by (simp_all add: eval_nat_numeral)
  have id: "pod_id (pp_store sample_dialled ! 0) = (0, ''a'', sample_codec, None, '''', ''t'', False)" by (simp add: st(1) pod_id_def)
  have p: "Marshal sample_codec ''x'' = Inr (str_bytes ''x'')" by (simp add: sample_codec_def)
  have k: "valid_utf8 ''k''" by (simp add: valid_utf8_def of_char_def)
  have fit: "fits ''t'' (sample_marshalMsg ?m)"
    by (simp add: fits_def p2pMaxFrame_def sample_marshalMsg_def stamp_msg_def put_bytes_def put_int_def put_nat_def str_bytes_def kindSet_def)
  obtain P where "pods_write (\<lambda>_. False) sample_json 1 0 (PodSet ''k'' ''x'') sample_dialled = (None, P)"
      "pp_sent P = [sample_marshalMsg ?m]"
    using ready_Set [OF ready st(2) id k p, of 1 "sample_marshalMsg ?m" "\<lambda>_. False"] fit by (auto simp: st sample_json_simps)
  with fit show ?thesis by simp
qed


text \<open>
  C5. In a mesh that connects every pair, writes reach every pod. From a state whose queues hold all that a pod has
  not got yet, after any writes that return no error, fit into frames and find room in the queues, carrying
  each connection's frames to the other end and handling them there empties the queues, and then every pod has got every message
  that was published, and all pods hold the same replica.
\<close>

theorem mesh_settles:
  assumes "pods_reach J c z topic P" "linked topic P" "meshed P" "owed P" "can_write (length ws) P"
    and "\<forall>x \<in> set ws. fst (snd x) < length (pp_store P) \<and> valid_utf8 (write_key (snd (snd x)))"
    and "pods_writes picks J ws P = Inr P1" "\<forall>m \<in> set (pp_sent P1). fits topic m" "set es = set (pods_ends P)"
  shows "(\<forall>e \<in> set es. conn_queue e (carry_all J now es P1) = []) \<and>
    (\<forall>i < length (pp_store P). pp_got (carry_all J now es P1) i = set (pp_sent P1)) \<and>
    (\<forall>i < length (pp_store P). \<forall>j < length (pp_store P).
      s_data (pp_store (carry_all J now es P1) ! i) = s_data (pp_store (carry_all J now es P1) ! j))"
  using mesh_carried [OF assms] by blast

theorem mesh_settles_witness:
  "\<exists>P. pods_writes (\<lambda>_. False) sample_json [(1, 0, PodSet ''k'' ''x'')] sample_dialled = Inr P \<and> pp_sent P \<noteq> [] \<and>
     pp_got (carry_all sample_json 2 (pods_ends sample_dialled) P) 1 = set (pp_sent P)"
proof -
  obtain P where P: "pods_writes (\<lambda>_. False) sample_json [(1, 0, PodSet ''k'' ''x'')] sample_dialled = Inr P"
      "\<forall>m \<in> set (pp_sent P). fits ''t'' m" "pp_sent P \<noteq> []"
    using sample_dialled_write by blast
  have r: "pods_reach sample_json sample_codec '''' ''t'' sample_dialled" "linked ''t'' sample_dialled" "meshed sample_dialled"
      "owed sample_dialled" "can_write 4 sample_dialled" and len: "length (pp_store sample_dialled) = 2"
    using sample_dialled_ready by (simp_all add: mesh_ready_def)
  have "can_write (length [(1 :: time, 0 :: nat, PodSet ''k'' ''x'')]) sample_dialled"
    using r(5) unfolding can_write_def by fastforce
  moreover have "valid_utf8 ''k''" by (simp add: valid_utf8_def of_char_def)
  ultimately show ?thesis
    using mesh_settles [OF r(1-4) _ _ P(1,2) refl, of 2] P(1,3) len by auto
qed

end
