(* ===== verification/P2P_Setup.thy ===== *)
theory P2P_Setup
  imports Mesh_Ready
begin

section \<open>Stores that join a mesh while it is being built\<close>

text \<open>
  A process builds its transport and then its store over it. The dials of the transport start at
  once, so connections come up, are lost, and carry the requests for a snapshot and their answers
  while \<^verbatim>\<open>New\<close> subscribes and waits in \<^verbatim>\<open>FetchSnapshot\<close>. Here \<^verbatim>\<open>New\<close> runs over such a mesh: its
  transport acts on the state of all pods, and where its goroutine waits or another one may run, a
  list of events happens, which is a choice of the scheduler and the network. As long as no pod has
  persisted a snapshot, \<^verbatim>\<open>New\<close> returns an empty store, whatever the events are.
\<close>

subsection \<open>What happens meanwhile\<close>

text \<open>
  A dial of pod \<open>i\<close> reaches pod \<open>j\<close>, which sees it come from the address \<open>from\<close>; the sender loop or
  the read loop at an end of a connection makes a turn; the read loop at an end gets an error and
  its goroutine ends. Only a pod that has a transport can be reached.
\<close>

datatype setup_event =
    DialUp nat nat string
  | SendTurn conn_end bool
  | ReadTurn conn_end bool
  | ReadFails conn_end frame_error

fun run_event :: "(nat \<Rightarrow> string) \<Rightarrow> setup_event \<Rightarrow> 'v p2p_pods \<Rightarrow> 'v p2p_pods" where
  "run_event addr (DialUp i j from) P =
    (if i < length (pp_tr P) \<and> j < length (pp_tr P) \<and> i \<noteq> j then pods_connect i (addr j) j from P else P)"
| "run_event addr (SendTurn e ok) P = (if fst e < length (pp_tr P) then pods_send ok e P else P)"
| "run_event addr (ReadTurn e pick) P = pods_read pick e P"
| "run_event addr (ReadFails e err) P =
    (if fst e < length (pp_tr P)
     then P\<lparr>pp_tr := (pp_tr P)[fst e := serveConn_error err (snd e) (pp_tr P ! fst e)]\<rparr> else P)"

definition setup_events :: "(nat \<Rightarrow> string) \<Rightarrow> setup_event list \<Rightarrow> 'v p2p_pods \<Rightarrow> 'v p2p_pods" where
  "setup_events addr evs P = fold (run_event addr) evs P"

subsection \<open>The transport of a pod, in the mesh\<close>

definition on_pod :: "nat \<Rightarrow> (P2PTransport \<Rightarrow> 'a \<times> P2PTransport) \<Rightarrow> 'v p2p_pods \<Rightarrow> 'a \<times> 'v p2p_pods" where
  "on_pod i f P = (case f (pp_tr P ! i) of (x, t') \<Rightarrow> (x, P\<lparr>pp_tr := (pp_tr P)[i := t']\<rparr>))"

text \<open>
  The loop of \<^verbatim>\<open>FetchSnapshot\<close>, one element of the list per round: what happens while it waits, and
  whether the \<^verbatim>\<open>select\<close> takes an answer that is there by then rather than the timer. After the last
  round the time is out. \<open>r\<close> is the channel of the request.
\<close>

fun setup_poll :: "(nat \<Rightarrow> string) \<Rightarrow> (nat \<Rightarrow> bool) \<Rightarrow> nat \<Rightarrow> string \<Rightarrow> nat \<Rightarrow> (setup_event list \<times> bool) list
    \<Rightarrow> nat set \<Rightarrow> 'v p2p_pods \<Rightarrow> bytes \<times> 'v p2p_pods" where
  "setup_poll addr picks i topic r [] req P = ([], P)"
| "setup_poll addr picks i topic r ((evs, takes) # rounds) req P =
    (case on_pod i (fetch_round picks topic req) P of
       (req', P1) \<Rightarrow>
         let P2 = setup_events addr evs P1 in
         case fetch_result r (pp_tr P2 ! i) of
           Some raw \<Rightarrow> if takes then (raw, P2) else setup_poll addr picks i topic r rounds req' P2
         | None \<Rightarrow> setup_poll addr picks i topic r rounds req' P2)"

definition setup_fetch :: "(nat \<Rightarrow> string) \<Rightarrow> (nat \<Rightarrow> bool) \<Rightarrow> nat \<Rightarrow> setup_event list
    \<Rightarrow> (setup_event list \<times> bool) list \<Rightarrow> string \<Rightarrow> 'v p2p_pods \<Rightarrow> (goerror + bytes) \<times> 'v p2p_pods" where
  "setup_fetch addr picks i evs rounds topic P =
    (case on_pod i (fetch_begin topic) P of
       (Inl e, P1) \<Rightarrow> (Inl e, P1)
     | (Inr r, P1) \<Rightarrow>
         (case setup_poll addr picks i topic r rounds {} (setup_events addr evs P1) of
            (raw, P2) \<Rightarrow> (Inr raw, P2\<lparr>pp_tr := (pp_tr P2)[i := fetch_end topic (pp_tr P2 ! i)]\<rparr>)))"

text \<open>\<open>gap\<close> is what happens after \<^verbatim>\<open>Subscribe\<close> returned and after the request was registered.\<close>

definition setup_transport :: "(nat \<Rightarrow> string) \<Rightarrow> (nat \<Rightarrow> bool) \<Rightarrow> nat \<Rightarrow> setup_event list \<times> setup_event list
    \<Rightarrow> (setup_event list \<times> bool) list \<Rightarrow> 'v p2p_pods Transport" where
  "setup_transport addr picks i gap rounds =
    \<lparr>tr_Publish = (\<lambda>topic msg. on_pod i (p2p_Publish picks topic msg)),
     tr_Subscribe = (\<lambda>topic P. case on_pod i (p2p_Subscribe topic) P of
        (res, P1) \<Rightarrow> (res, setup_events addr (fst gap) P1)),
     tr_Snapshot = (\<lambda>topic body. on_pod i (p2p_Snapshot topic body)),
     tr_FetchSnapshot = setup_fetch addr picks i (snd gap) rounds\<rparr>"

subsection \<open>Nothing but requests and empty answers\<close>

definition mute :: "p2pFrame \<Rightarrow> bool" where
  "mute f \<longleftrightarrow> f_msgType f = p2pMsgSnapReq \<or> f_msgType f = p2pMsgSnapResp \<and> f_payload f = []"

definition quiet_tr :: "P2PTransport \<Rightarrow> bool" where
  "quiet_tr t \<longleftrightarrow> p2p_inv t \<and> \<not> p_closed t \<and> p_snapshots t = Map.empty \<and>
     (\<forall>c. \<forall>f \<in> set (pc_sendQ (p_cheap t c)). mute f) \<and> (\<forall>i raw. p_resp t i = Some raw \<longrightarrow> raw = []) \<and>
     (\<forall>ch. ch_buf (p_heap t ch) = [])"

text \<open>What the other goroutines leave of a transport.\<close>

definition calm_tr :: "P2PTransport \<Rightarrow> P2PTransport \<Rightarrow> bool" where
  "calm_tr t t' \<longleftrightarrow> p_subs t' = p_subs t \<and> p_sendDepth t' = p_sendDepth t \<and>
     (\<forall>topic. p_pending t topic = None \<longrightarrow> p_pending t' topic = None)"

lemma calm_tr_refl [simp]: "calm_tr t t"
  by (simp add: calm_tr_def)

lemma calm_tr_trans: "calm_tr t t' \<Longrightarrow> calm_tr t' t'' \<Longrightarrow> calm_tr t t''"
  by (simp add: calm_tr_def)

lemma quiet_open:
  assumes "quiet_tr t" "serveConn_open remote inbound t = (Some c, t')"
  shows "quiet_tr t' \<and> calm_tr t t'"
proof -
  have "p2p_inv t'" using serveConn_open_inv [of t remote inbound] assms by (simp add: quiet_tr_def)
  then show ?thesis
    using assms by (auto simp: quiet_tr_def calm_tr_def serveConn_open_eq call_onConnect_def Let_def split: if_splits)
qed

lemma quiet_error:
  assumes "quiet_tr t"
  shows "quiet_tr (serveConn_error e c t) \<and> calm_tr t (serveConn_error e c t)"
proof -
  have "p2p_inv (p2p_report x t)" for x using assms by (simp add: quiet_tr_def p2p_report_def p2p_inv_def)
  then have "p2p_inv (serveConn_error e c t)"
    using assms serveConn_done_inv by (simp add: quiet_tr_def serveConn_error_def)
  then show ?thesis
    using assms by (auto simp: quiet_tr_def calm_tr_def serveConn_error_def serveConn_done_eq call_onDisconnect_def
        conn_close_def p2p_report_def Let_def)
qed

lemma quiet_sender:
  assumes "quiet_tr t" "senderLoop_step ok c t = (out, t')"
  shows "quiet_tr t' \<and> calm_tr t t' \<and> (\<forall>bs. out = Some bs \<longrightarrow>
    (\<exists>f. mute f \<and> writeFrame (f_msgType f) (f_topic f) (f_payload f) = Inr bs))"
proof (cases "pc_sendQ (p_cheap t c)")
  case Nil
  then show ?thesis using assms by (simp add: senderLoop_step_def)
next
  case (Cons f fs)
  then have f: "mute f" using assms(1) unfolding quiet_tr_def by (metis list.set_intros(1))
  have "p2p_inv t'" using senderLoop_inv [of t ok c] assms by (simp add: quiet_tr_def)
  moreover have "\<forall>g \<in> set fs. mute g" using assms(1) Cons unfolding quiet_tr_def by (metis list.set_intros(2))
  ultimately show ?thesis
    using assms Cons f
    by (auto simp: quiet_tr_def calm_tr_def senderLoop_step_def conn_close_def p2p_report_def Let_def split: sum.splits if_splits)
qed

lemma quiet_enqueue:
  assumes "quiet_tr t" "mute f"
  shows "quiet_tr (enqueueOrReport pick f i t) \<and> calm_tr t (enqueueOrReport pick f i t)"
proof -
  have "p2p_inv (enqueueOrReport pick f i t)" using assms enqueueOrReport_inv by (simp add: quiet_tr_def)
  then show ?thesis
    using assms by (auto simp: quiet_tr_def calm_tr_def enqueueOrReport_def enqueue_def p2p_report_def Let_def)
qed

lemma quiet_round:
  assumes "quiet_tr t"
  shows "quiet_tr (snd (fetch_round picks topic req t)) \<and> calm_tr t (snd (fetch_round picks topic req t))"
proof -
  let ?f = "\<lparr>f_msgType = p2pMsgSnapReq, f_topic = topic, f_payload = []\<rparr>"
  have "quiet_tr (fold (\<lambda>i. enqueueOrReport (picks i) ?f i) cs t) \<and> calm_tr t (fold (\<lambda>i. enqueueOrReport (picks i) ?f i) cs t)" for cs
    using assms
  proof (induction cs arbitrary: t)
    case (Cons i cs)
    have "quiet_tr (enqueueOrReport (picks i) ?f i t) \<and> calm_tr t (enqueueOrReport (picks i) ?f i t)"
      by (rule quiet_enqueue [OF Cons.prems]) (simp add: mute_def)
    with Cons.IH show ?case by (auto intro: calm_tr_trans)
  qed simp
  then show ?thesis by (simp add: fetch_round_def Let_def)
qed

lemma quiet_frame:
  assumes "quiet_tr t" "mute f" "serveConn_frame pick d f t = Some t'"
  shows "quiet_tr t' \<and> calm_tr t t'"
proof -
  from assms(2) consider (req) "f_msgType f = p2pMsgSnapReq" | (resp) "f_msgType f = p2pMsgSnapResp" "f_payload f = []"
    by (auto simp: mute_def)
  then show ?thesis
  proof cases
    case req
    then have "t' = enqueueOrReport pick \<lparr>f_msgType = p2pMsgSnapResp, f_topic = f_topic f, f_payload = []\<rparr> d t"
      using assms(1,3) by (simp add: serveConn_frame_def quiet_tr_def p2pMsgSnapReq_def p2pMsgEvent_def)
    with quiet_enqueue [OF assms(1)] show ?thesis by (simp add: mute_def)
  next
    case resp
    then have "t' = deliverSnapResp (f_topic f) [] t"
      using assms(3) by (simp add: serveConn_frame_def p2pMsgSnapReq_def p2pMsgSnapResp_def p2pMsgEvent_def)
    then show ?thesis
      using assms(1) deliverSnapResp_inv [of t "f_topic f" "[]"]
      by (auto simp: quiet_tr_def calm_tr_def deliverSnapResp_def Let_def split: option.splits if_splits)
  qed
qed

subsection \<open>The mesh during the setup\<close>

definition setup_inv :: "nat \<Rightarrow> 'v p2p_pods \<Rightarrow> bool" where
  "setup_inv m P \<longleftrightarrow> length (pp_tr P) = m \<and> (\<forall>k < m. quiet_tr (pp_tr P ! k)) \<and> (\<forall>e. wire_of mute (pp_wire P e)) \<and>
     (\<forall>e j d. pp_peer P e = Some (j, d) \<longrightarrow> j < m)"

definition calm_pods :: "'v p2p_pods \<Rightarrow> 'v p2p_pods \<Rightarrow> bool" where
  "calm_pods P P' \<longleftrightarrow> length (pp_tr P') = length (pp_tr P) \<and> (\<forall>k < length (pp_tr P). calm_tr (pp_tr P ! k) (pp_tr P' ! k)) \<and>
     pp_store P' = pp_store P \<and> pp_sent P' = pp_sent P \<and> pp_got P' = pp_got P"

lemma calm_pods_refl [simp]: "calm_pods P P"
  by (simp add: calm_pods_def)

lemma calm_pods_trans: "calm_pods P P' \<Longrightarrow> calm_pods P' P'' \<Longrightarrow> calm_pods P P''"
  by (auto simp: calm_pods_def intro: calm_tr_trans)

text \<open>A change at one transport and its wires.\<close>

lemma setup_upd:
  assumes "setup_inv m P" "i < m" "quiet_tr t' \<and> calm_tr (pp_tr P ! i) t'"
    and "\<forall>e. wire_of mute (w e)"
  shows "setup_inv m (P\<lparr>pp_tr := (pp_tr P)[i := t'], pp_wire := w\<rparr>) \<and>
    calm_pods P (P\<lparr>pp_tr := (pp_tr P)[i := t'], pp_wire := w\<rparr>)"
  using assms by (auto simp: setup_inv_def calm_pods_def nth_list_update)

lemma setup_peer: "setup_inv m P \<Longrightarrow> pp_peer P e = Some (j, d) \<Longrightarrow> j < m"
  unfolding setup_inv_def by blast

lemma setup_wire: "setup_inv m P \<Longrightarrow> wire_of mute (pp_wire P e)"
  unfolding setup_inv_def by blast

lemma setup_quiet: "setup_inv m P \<Longrightarrow> k < m \<Longrightarrow> quiet_tr (pp_tr P ! k)"
  unfolding setup_inv_def by blast

lemma setup_tr:
  assumes "setup_inv m P" "i < m" "quiet_tr t' \<and> calm_tr (pp_tr P ! i) t'"
  shows "setup_inv m (P\<lparr>pp_tr := (pp_tr P)[i := t']\<rparr>) \<and> calm_pods P (P\<lparr>pp_tr := (pp_tr P)[i := t']\<rparr>)"
  using setup_upd [OF assms, of "pp_wire P"] setup_wire [OF assms(1)] by simp

lemma setup_connect:
  assumes P: "setup_inv m P" and ij: "i < m" "j < m" "i \<noteq> j"
  shows "setup_inv m (pods_connect i to j from P) \<and> calm_pods P (pods_connect i to j from P)"
proof -
  have "setup_inv m P' \<and> calm_pods P P'"
    if o: "serveConn_open to False (pp_tr P ! i) = (Some c, t)" "serveConn_open from True (pp_tr P ! j) = (Some d, t')"
      and P': "P' = P\<lparr>pp_tr := (pp_tr P)[i := t, j := t'],
        pp_peer := (pp_peer P)((i, c) \<mapsto> (j, d), (j, d) \<mapsto> (i, c)), pp_wire := (pp_wire P)((i, c) := [], (j, d) := [])\<rparr>"
    for c d t t' P'
  proof -
    have q: "quiet_tr t \<and> calm_tr (pp_tr P ! i) t" "quiet_tr t' \<and> calm_tr (pp_tr P ! j) t'"
      using quiet_open [OF _ o(1)] quiet_open [OF _ o(2)] P ij by (simp_all add: setup_inv_def)
    show ?thesis
      unfolding P' using P q ij by (auto simp: setup_inv_def calm_pods_def nth_list_update split: if_splits)
  qed
  then show ?thesis using P by (auto simp: pods_connect_def split: prod.split option.split)
qed

lemma setup_send:
  assumes P: "setup_inv m P" and e: "fst e < m"
  shows "setup_inv m (pods_send ok e P) \<and> calm_pods P (pods_send ok e P)"
proof -
  obtain out t' where o: "senderLoop_step ok (snd e) (pp_tr P ! fst e) = (out, t')" by (metis prod.exhaust)
  have "quiet_tr (pp_tr P ! fst e)" using P e by (simp add: setup_inv_def)
  note t' = quiet_sender [OF this o]
  have "wire_of mute (pp_wire P e @ (case out of None \<Rightarrow> [] | Some bs \<Rightarrow> bs))"
    using setup_wire [OF P, of e] t' by (cases out) (auto intro: wire_of_snoc)
  then have "\<forall>x. wire_of mute (((pp_wire P)(e := pp_wire P e @ (case out of None \<Rightarrow> [] | Some bs \<Rightarrow> bs))) x)"
    using setup_wire [OF P] by simp
  from setup_upd [OF P e _ this, of t'] t' show ?thesis by (simp add: pods_send_def o del: fun_upd_apply)
qed

lemma setup_read:
  assumes P: "setup_inv m P"
  shows "setup_inv m (pods_read pick e P) \<and> calm_pods P (pods_read pick e P)"
proof -
  have "setup_inv m (P\<lparr>pp_tr := (pp_tr P)[j := t'], pp_wire := (pp_wire P)(e := rest)\<rparr>) \<and>
      calm_pods P (P\<lparr>pp_tr := (pp_tr P)[j := t'], pp_wire := (pp_wire P)(e := rest)\<rparr>)"
    if "pp_peer P e = Some (j, d)" "readFrame (pp_wire P e) = Inr (f, rest)" "serveConn_frame pick d f (pp_tr P ! j) = Some t'"
    for j d f rest t'
  proof -
    have j: "j < m" "quiet_tr (pp_tr P ! j)" using setup_peer [OF P that(1)] setup_quiet [OF P] by blast+
    have w: "mute f \<and> wire_of mute rest" by (rule wire_of_read [OF setup_wire [OF P] that(2)])
    then have wires: "\<forall>x. wire_of mute (((pp_wire P)(e := rest)) x)" using setup_wire [OF P] by simp
    from quiet_frame [OF j(2) _ that(3)] w have "quiet_tr t' \<and> calm_tr (pp_tr P ! j) t'" by blast
    from setup_upd [OF P j(1) this wires] show ?thesis by (simp del: fun_upd_apply)
  qed
  then show ?thesis using P by (auto simp: pods_read_def split: option.split sum.split)
qed

lemma run_event_ok:
  assumes "setup_inv m P"
  shows "setup_inv m (run_event addr ev P) \<and> calm_pods P (run_event addr ev P)"
proof (cases ev)
  case (DialUp i j "from")
  have "length (pp_tr P) = m" using assms by (simp add: setup_inv_def)
  then show ?thesis using DialUp setup_connect [OF assms, of i j "addr j" "from"] assms by simp
next
  case (SendTurn e ok)
  have "length (pp_tr P) = m" using assms by (simp add: setup_inv_def)
  then show ?thesis using SendTurn setup_send [OF assms, of e ok] assms by simp
next
  case (ReadTurn e pick)
  then show ?thesis using setup_read [OF assms] by simp
next
  case (ReadFails e err)
  have "length (pp_tr P) = m" using assms by (simp add: setup_inv_def)
  then show ?thesis
    using ReadFails setup_tr [OF assms _ quiet_error [OF setup_quiet [OF assms]], of "fst e" err "snd e"] assms by simp
qed

lemma setup_events_ok:
  assumes "setup_inv m P"
  shows "setup_inv m (setup_events addr evs P) \<and> calm_pods P (setup_events addr evs P)"
  unfolding setup_events_def using assms
proof (induction evs arbitrary: P)
  case (Cons ev evs)
  from run_event_ok [OF Cons.prems, of addr ev] Cons.IH show ?case by (auto intro: calm_pods_trans)
qed simp

subsection \<open>New\<close>

lemma setup_poll_ok:
  assumes "setup_inv m P" "i < m"
  shows "\<exists>P'. setup_poll addr picks i topic r rounds req P = ([], P') \<and> setup_inv m P' \<and> calm_pods P P'"
  using assms
proof (induction rounds arbitrary: req P)
  case Nil
  then show ?case by simp
next
  case (Cons round rounds)
  obtain evs takes where r: "round = (evs, takes)" by (cases round)
  obtain req' t1 where f: "fetch_round picks topic req (pp_tr P ! i) = (req', t1)" by (metis prod.exhaust)
  let ?P1 = "P\<lparr>pp_tr := (pp_tr P)[i := t1]\<rparr>"
  let ?P2 = "setup_events addr evs ?P1"
  have "quiet_tr (pp_tr P ! i)" using Cons.prems by (simp add: setup_inv_def)
  then have "quiet_tr t1 \<and> calm_tr (pp_tr P ! i) t1" using quiet_round [of "pp_tr P ! i" picks topic req] f by simp
  from setup_tr [OF Cons.prems this] have P1: "setup_inv m ?P1" "calm_pods P ?P1" by simp_all
  have P2: "setup_inv m ?P2" "calm_pods P ?P2"
    using setup_events_ok [OF P1(1), of addr evs] P1(2) by (auto intro: calm_pods_trans)
  have "raw = []" if "fetch_result r (pp_tr ?P2 ! i) = Some raw" for raw
    using P2(1) Cons.prems(2) that by (auto simp: setup_inv_def quiet_tr_def fetch_result_def)
  moreover obtain P' where "setup_poll addr picks i topic r rounds req' ?P2 = ([], P')" "setup_inv m P'" "calm_pods ?P2 P'"
    using Cons.IH [OF P2(1) Cons.prems(2), of req'] by blast
  ultimately show ?case
    using P2 f by (auto simp: r on_pod_def Let_def split: option.split intro: calm_pods_trans)
qed

lemma setup_fetch_ok:
  assumes P: "setup_inv m P" "i < m" and idle: "p_pending (pp_tr P ! i) topic = None"
  shows "\<exists>P'. setup_fetch addr picks i evs rounds topic P = (Inr [], P') \<and> setup_inv m P' \<and> calm_pods P P'"
proof -
  let ?t = "pp_tr P ! i"
  let ?r = "p_nextr ?t"
  have t: "quiet_tr ?t" using P by (simp add: setup_inv_def)
  obtain t1 where t1: "fetch_begin topic ?t = (Inr ?r, t1)"
    using t idle by (simp add: fetch_begin_def quiet_tr_def p2p_isClosed_def Let_def)
  have "p2p_inv t1" using fetch_inv(1) [of ?t topic] t t1 by (simp add: quiet_tr_def)
  then have q1: "quiet_tr t1" "p_subs t1 = p_subs ?t" "p_sendDepth t1 = p_sendDepth ?t"
      "\<And>x. x \<noteq> topic \<Longrightarrow> p_pending t1 x = p_pending ?t x"
    using t1 t by (auto simp: fetch_begin_def quiet_tr_def Let_def split: if_splits)
  let ?P1 = "P\<lparr>pp_tr := (pp_tr P)[i := t1]\<rparr>"
  have P1: "setup_inv m ?P1" using P q1(1) by (auto simp: setup_inv_def nth_list_update)
  have P2: "setup_inv m (setup_events addr evs ?P1)" "calm_pods ?P1 (setup_events addr evs ?P1)"
    using setup_events_ok [OF P1] by simp_all
  obtain P3 where P3: "setup_poll addr picks i topic ?r rounds {} (setup_events addr evs ?P1) = ([], P3)" "setup_inv m P3"
      "calm_pods ?P1 P3"
    using setup_poll_ok [OF P2(1) P(2)] P2(2) by (blast intro: calm_pods_trans)
  let ?t' = "fetch_end topic (pp_tr P3 ! i)"
  let ?P' = "P3\<lparr>pp_tr := (pp_tr P3)[i := ?t']\<rparr>"
  have "quiet_tr (pp_tr P3 ! i)" using P3(2) P(2) by (simp add: setup_inv_def)
  then have q: "quiet_tr ?t' \<and> calm_tr (pp_tr P3 ! i) ?t'"
    using fetch_inv(2) [of "pp_tr P3 ! i" topic] by (simp add: quiet_tr_def calm_tr_def fetch_end_def)
  from setup_tr [OF P3(2) P(2) q] have inv: "setup_inv m ?P'" by simp
  have "calm_tr ?t ?t'"
    using P3(3) P q1(2-4) by (auto simp: calm_pods_def setup_inv_def calm_tr_def fetch_end_def)
  then have "calm_pods P ?P'"
    using P3(3) P P3(2) by (auto simp: calm_pods_def setup_inv_def nth_list_update split: if_splits)
  with inv P3(1) t1 show ?thesis by (simp add: setup_fetch_def on_pod_def)
qed

text \<open>
  \<^verbatim>\<open>New\<close> on a mesh in which nobody has a snapshot: the store is empty, its transport is
  subscribed, and the other transports are only touched by the events.
\<close>

lemma New_setup:
  fixes opts :: "'v Option list" and z :: 'v and jc :: "'v Codec"
  assumes P: "setup_inv m P" "i < m" and new: "p_pending (pp_tr P ! i) topic = None" "p_subs (pp_tr P ! i) topic = None"
    and topic: "topic \<noteq> ''''"
  defines "s \<equiv> apply_options opts (default_store z jc topic)"
  assumes s: "s_nodeID s \<noteq> ''''"
  shows "\<exists>P'. New z jc J rid topic (Some (setup_transport addr picks i gap rounds)) opts P = (Inr s, P') \<and>
    setup_inv m P' \<and> length (pp_tr P') = m \<and> pp_store P' = pp_store P \<and> pp_sent P' = pp_sent P \<and> pp_got P' = pp_got P \<and>
    (\<forall>k < m. k \<noteq> i \<longrightarrow> calm_tr (pp_tr P ! k) (pp_tr P' ! k)) \<and>
    p_subs (pp_tr P' ! i) topic \<noteq> None \<and> p_sendDepth (pp_tr P' ! i) = p_sendDepth (pp_tr P ! i)"
proof -
  let ?t = "pp_tr P ! i"
  have t: "quiet_tr ?t" "length (pp_tr P) = m" using P by (simp_all add: setup_inv_def)
  obtain t1 where t1: "p2p_Subscribe topic ?t = (Inr (p_next ?t), t1)"
    using t new(2) by (simp add: p2p_Subscribe_def quiet_tr_def p2p_isClosed_def Let_def)
  have "p2p_inv t1" using p2p_Subscribe_inv [of ?t topic] t t1 by (simp add: quiet_tr_def)
  then have q1: "quiet_tr t1" "p_subs t1 topic \<noteq> None" "p_sendDepth t1 = p_sendDepth ?t" "p_pending t1 topic = None"
    using t1 t new by (auto simp: p2p_Subscribe_def quiet_tr_def Let_def split: if_splits)
  let ?P1 = "P\<lparr>pp_tr := (pp_tr P)[i := t1]\<rparr>"
  let ?P2 = "setup_events addr (fst gap) ?P1"
  have P1: "setup_inv m ?P1" using P q1(1) by (auto simp: setup_inv_def nth_list_update)
  have P2: "setup_inv m ?P2" "calm_pods ?P1 ?P2" using setup_events_ok [OF P1] by simp_all
  have "calm_tr t1 (pp_tr ?P2 ! i)" using P2(2) P t(2) by (auto simp: calm_pods_def)
  then have "p_pending (pp_tr ?P2 ! i) topic = None" using q1(4) by (simp add: calm_tr_def)
  from setup_fetch_ok [OF P2(1) P(2) this, of addr picks "snd gap" rounds] obtain P3 where
    P3: "setup_fetch addr picks i (snd gap) rounds topic ?P2 = (Inr [], P3)" "setup_inv m P3" "calm_pods ?P1 P3"
    using P2(2) by (blast intro: calm_pods_trans)
  have "New z jc J rid topic (Some (setup_transport addr picks i gap rounds)) opts P = (Inr s, P3)"
    using topic s P3(1) t1 by (simp add: New_def s_def [symmetric] setup_transport_def on_pod_def Let_def)
  moreover have "calm_tr (pp_tr ?P1 ! k) (pp_tr P3 ! k)" if "k < m" for k using P3(3) that t(2) by (simp add: calm_pods_def)
  then have "\<forall>k < m. k \<noteq> i \<longrightarrow> calm_tr (pp_tr P ! k) (pp_tr P3 ! k)" "calm_tr t1 (pp_tr P3 ! i)" using P t(2) by force+
  ultimately show ?thesis
    using P3(2,3) q1(2,3) by (auto simp: calm_pods_def setup_inv_def calm_tr_def)
qed

subsection \<open>The mesh is up\<close>

text \<open>
  Every pair of pods is connected, every registered connection is up at both ends, and no frame is
  queued or on a wire.
\<close>

definition mesh_up :: "'v p2p_pods \<Rightarrow> bool" where
  "mesh_up P \<longleftrightarrow>
     (\<forall>i \<in> set [0..<length (pp_store P)]. \<forall>j \<in> set [0..<length (pp_store P)]. i \<noteq> j \<longrightarrow>
        (\<exists>e \<in> set (pods_ends P). fst e = i \<and> map_option fst (pp_peer P e) = Some j)) \<and>
     (\<forall>e \<in> set (pods_ends P). \<not> pc_cancelled (p_cheap (pp_tr P ! fst e) (snd e)) \<and>
        pc_sendQ (p_cheap (pp_tr P ! fst e) (snd e)) = [] \<and> pp_wire P e = [] \<and>
        (case pp_peer P e of None \<Rightarrow> False
         | Some (j, d) \<Rightarrow> j < length (pp_store P) \<and> j \<noteq> fst e \<and> d \<in> set (p_conns (pp_tr P ! j))))"

lemma setup_ready:
  assumes inv: "setup_inv m P" and len: "length (pp_store P) = m" and up: "mesh_up P"
    and J: "json_msg_roundtrip J" "codec_roundtrip c"
    and ids: "distinct (map s_nodeID (pp_store P))"
    and st: "\<And>s. s \<in> set (pp_store P) \<Longrightarrow> s_merger s = None \<and> s_codec s = c \<and> s_zero s = z \<and> s_topic s = topic \<and>
        valid_utf8 (s_nodeID s) \<and> s_data s = Map.empty \<and> s_seq s = 0"
    and tr: "\<And>k. k < m \<Longrightarrow> p_subs (pp_tr P ! k) topic \<noteq> None \<and> n \<le> p_sendDepth (pp_tr P ! k)"
    and none: "pp_sent P = []" "pp_got P = (\<lambda>_. {})" and n: "n < 2 ^ 64"
  shows "mesh_ready J c z topic n P"
proof -
  have quiet: "quiet_tr (pp_tr P ! k)" "length (pp_tr P) = m" if "k < m" for k using inv that by (simp_all add: setup_inv_def)
  have not_event: "carries topic {} f" if "mute f" for f
    using that by (auto simp: carries_def mute_def p2pMsgSnapReq_def p2pMsgSnapResp_def p2pMsgEvent_def)
  have "tr_ok topic {} t" if "t \<in> set (pp_tr P)" for t
    using inv that not_event by (auto simp: setup_inv_def in_set_conv_nth quiet_tr_def tr_ok_def)
  moreover have "wire_ok topic {} (pp_wire P e)" for e
    using setup_wire [OF inv, of e] not_event unfolding wire_of_def by blast
  moreover have "\<forall>e j d. pp_peer P e = Some (j, d) \<longrightarrow> j < length (pp_store P)"
    using setup_peer [OF inv] len by blast
  moreover have "length (pp_tr P) = length (pp_store P)" using inv len by (simp add: setup_inv_def)
  ultimately have "pods_init J c z topic P"
    using J ids st none by (simp add: pods_init_def)
  then have reach: "pods_reach J c z topic P" by (rule pods_first)
  have ends: "end_up topic P e \<and> conn_queue e P = []" if "e \<in> set (pods_ends P)" for e
    using bspec [OF conjunct2 [OF up [unfolded mesh_up_def]] that]
    by (auto simp: end_up_def conn_queue_def split: option.splits)
  have "pod_up topic (pp_tr P ! k)" if "k < m" for k
    using quiet(1) [OF that] tr [OF that] by (auto simp: pod_up_def quiet_tr_def)
  moreover have "s_topic (pp_store P ! k) = topic \<and> s_seq (pp_store P ! k) = 0" if "k < m" for k
    using st [of "pp_store P ! k"] that len by simp
  moreover have tlen: "length (pp_tr P) = m" using inv by (simp add: setup_inv_def)
  ultimately have linked: "linked topic P" and seq: "\<And>k. k < m \<Longrightarrow> s_seq (pp_store P ! k) = 0"
    using ends len by (simp_all add: linked_def)
  have "\<exists>e \<in> set (pods_ends P). fst e = i \<and> (\<exists>d. pp_peer P e = Some (j, d))" if "i < m" "j < m" "i \<noteq> j" for i j
  proof -
    have "\<exists>e \<in> set (pods_ends P). fst e = i \<and> map_option fst (pp_peer P e) = Some j"
      using conjunct1 [OF up [unfolded mesh_up_def]] that len by simp
    then obtain e where e: "e \<in> set (pods_ends P)" "fst e = i" "map_option fst (pp_peer P e) = Some j" by blast
    then obtain d where "pp_peer P e = Some (j, d)" by (cases "pp_peer P e") auto
    with e(1,2) show ?thesis by blast
  qed
  then have "meshed P" using len by (simp add: meshed_def)
  moreover have "owed P" by (simp add: owed_def none)
  moreover have "n \<le> map p_sendDepth (pp_tr P) ! fst e" if "e \<in> set (pods_ends P)" for e
    using that tr [of "fst e"] tlen len by (simp add: set_pods_ends)
  then have "can_write n P"
    unfolding can_write_def using ends seq tlen len n by simp
  ultimately show ?thesis using reach linked by (simp add: mesh_ready_def none)
qed

end
