(* ===== verification/P2P_Example.thy ===== *)
theory P2P_Example
  imports P2P_Setup Discovery
begin

section \<open>Presence over a mesh\<close>








subsection \<open>The setup\<close>







subsection \<open>The goroutine of the first pod\<close>




subsection \<open>The program\<close>









subsection \<open>Names\<close>




subsection \<open>The setup\<close>











subsection \<open>The goroutine\<close>






subsection \<open>The writes\<close>






subsection \<open>The sleeps\<close>







subsection \<open>The reports\<close>





subsection \<open>The end\<close>



subsection \<open>The two halves of the program\<close>





subsection \<open>Properties\<close>








end
