(* ===== verification/Call_Fleet.thy ===== *)
theory Call_Fleet
  imports Fleet Call_Roundtrip Call_Routes
begin

section \<open>Endpoints on one broker\<close>

text \<open>
  The routing stores of the endpoints of one process are a fleet of theory \<open>Fleet\<close>, whose broker also
  carries the inboxes. What is published on an inbox and taken from it again leaves the fleet as it
  is, what the fleet writes and handles leaves the inboxes as they are, and \<^verbatim>\<open>Register\<close> and \<^verbatim>\<open>Unregister\<close> are
  writes of the fleet. Two writes of different pods may be on the way at once: the later one wins.
\<close>

lemma mem_subs_disjoint:
  assumes "mem_inv m" "topic \<noteq> topic'"
  shows "set (m_subs m topic) \<inter> set (m_subs m topic') = {}"
proof (cases "topic \<in> set (m_topics m) \<and> topic' \<in> set (m_topics m)")
  case True
  then obtain xs ys where t: "m_topics m = xs @ topic # ys" by (meson split_list)
  with True assms(2) have "topic' \<in> set xs \<or> topic' \<in> set ys" by auto
  moreover have "distinct (concat (map (m_subs m) (m_topics m)))" using assms(1) by (simp add: mem_inv_def mem_chans_def)
  ultimately show ?thesis unfolding t by auto
next
  case False
  with assms(1) show ?thesis by (auto simp: mem_inv_def)
qed

subsection \<open>Other topics of the broker\<close>

text \<open>Two brokers that agree on the subscriptions and on the channels outside \<open>cs\<close>.\<close>

definition others_same :: "('t \<Rightarrow> bool) \<Rightarrow> ('t \<Rightarrow> string \<Rightarrow> nat list) \<Rightarrow> ('t \<Rightarrow> nat \<Rightarrow> bytes list)
    \<Rightarrow> nat set \<Rightarrow> 't \<Rightarrow> 't \<Rightarrow> bool" where
  "others_same up subs queue cs t t' \<longleftrightarrow> up t' \<and> subs t' = subs t \<and> (\<forall>c. c \<notin> cs \<longrightarrow> queue t' c = queue t c)"

lemma others_same_trans:
  "others_same up subs queue cs t t' \<Longrightarrow> others_same up subs queue cs t' t'' \<Longrightarrow> others_same up subs queue cs t t''"
  by (simp add: others_same_def)

context message_bus
begin

text \<open>One message through an inbox with one reader: everything else is as before.\<close>

lemma post_box:
  assumes "up t" "subs t topic = [i]" "queue t i = []"
  shows "\<exists>t1 t2. tr_Publish T topic raw t = (None, t1) \<and> recv i t1 = (Some raw, t2) \<and> up t2 \<and>
    subs t2 = subs t \<and> queue t2 = queue t"
proof -
  obtain t1 t2 where t: "tr_Publish T topic raw t = (None, t1)" "recv i t1 = (Some raw, t2)" "up t2" "subs t2 = subs t"
      "queue t2 i = []" "\<forall>j. j \<notin> set (subs t topic) \<longrightarrow> queue t2 j = queue t j"
    using publish_recv [OF assms(1), of i topic raw] assms(2,3) by auto
  have "queue t2 j = queue t j" for j using t(5,6) assms(2,3) by (cases "j = i") simp_all
  with t show ?thesis by blast
qed

lemma running_tr:
  assumes "running up subs queue J c z topic F" "up t'" "subs t' = subs (fl_tr F)"
    and "\<forall>c \<in> set (fl_chans F). queue t' c = queue (fl_tr F) c"
  shows "running up subs queue J c z topic (F\<lparr>fl_tr := t'\<rparr>)"
proof -
  obtain C where C: "reachable J c z C" "fleet_sim up subs queue topic F C"
    using assms(1) unfolding running_def by blast
  have "queue t' (fl_chans F ! i) = queue (fl_tr F) (fl_chans F ! i)" if "i < length (fl_pods F)" for i
    using assms(4) C(2) that by (simp add: fleet_sim_def)
  with C(2) assms(2,3) have "fleet_sim up subs queue topic (F\<lparr>fl_tr := t'\<rparr>) C" by (simp add: fleet_sim_def)
  with C(1) show ?thesis unfolding running_def by blast
qed

lemma publish_others:
  assumes "up t" "tr_Publish T topic raw t = (None, t')"
  shows "others_same up subs queue (set (subs t topic)) t t'"
  using publish_bus [OF assms(1), of topic raw] assms(2) by (auto simp: others_same_def)

lemma recv_others:
  assumes "up t" "recv i t = (r, t')" "i \<in> cs"
  shows "others_same up subs queue cs t t'"
proof (cases "queue t i")
  case Nil
  with recv_none assms show ?thesis by (auto simp: others_same_def)
next
  case (Cons raw raws)
  from recv_bus [OF assms(1) Cons] assms(2,3) show ?thesis by (auto simp: others_same_def)
qed

lemma drain_others:
  assumes "up (fl_tr F)" "i < length (fl_pods F)" "length (fl_chans F) = length (fl_pods F)"
  shows "others_same up subs queue (set (fl_chans F)) (fl_tr F) (fl_tr (drain recv J now n i F)) \<and>
    fl_chans (drain recv J now n i F) = fl_chans F \<and> length (fl_pods (drain recv J now n i F)) = length (fl_pods F)"
  using assms
proof (induction n arbitrary: F)
  case 0
  then show ?case by (simp add: others_same_def)
next
  case (Suc n)
  obtain r t' where r: "recv (fl_chans F ! i) (fl_tr F) = (r, t')" by (metis prod.exhaust)
  have "fl_chans F ! i \<in> set (fl_chans F)" using Suc.prems(2,3) by simp
  note o = recv_others [OF Suc.prems(1) r this]
  show ?case
  proof (cases r)
    case None
    with r o show ?thesis by simp
  next
    case (Some raw)
    let ?F = "F\<lparr>fl_pods := (fl_pods F)[i := handleRaw J now raw (fl_pods F ! i)], fl_tr := t'\<rparr>"
    have "up (fl_tr ?F)" using o by (simp add: others_same_def)
    from Suc.IH [OF this] Suc.prems o r Some show ?thesis by (auto intro: others_same_trans)
  qed
qed

lemma settle_others:
  assumes "up (fl_tr F)" "length (fl_chans F) = length (fl_pods F)"
  shows "others_same up subs queue (set (fl_chans F)) (fl_tr F) (fl_tr (settle recv queue J now F))"
proof -
  have "others_same up subs queue (set (fl_chans F)) (fl_tr F)
      (fl_tr (fold (\<lambda>i F. drain recv J now (length (queue (fl_tr F) (fl_chans F ! i))) i F) is F))"
    if "\<forall>i \<in> set is. i < length (fl_pods F)" for "is"
    using that assms
  proof (induction "is" arbitrary: F)
    case Nil
    then show ?case by (simp add: others_same_def)
  next
    case (Cons i "is")
    let ?G = "drain recv J now (length (queue (fl_tr F) (fl_chans F ! i))) i F"
    have d: "others_same up subs queue (set (fl_chans F)) (fl_tr F) (fl_tr ?G)" "fl_chans ?G = fl_chans F"
        "length (fl_pods ?G) = length (fl_pods F)"
      using drain_others [of F i] Cons.prems by simp_all
    then have "others_same up subs queue (set (fl_chans F)) (fl_tr ?G) (fl_tr (fold (\<lambda>i F. drain recv J now
        (length (queue (fl_tr F) (fl_chans F ! i))) i F) is ?G))"
      using Cons.IH [of ?G] Cons.prems by (simp add: others_same_def)
    with d(1) show ?case by (simp add: others_same_trans)
  qed
  then show ?thesis by (simp add: settle_def)
qed

lemma write_others:
  assumes "up (fl_tr F)" "fleet_write T J now i w F = (None, F')"
  shows "others_same up subs queue (set (subs (fl_tr F) (s_topic (fl_pods F ! i)))) (fl_tr F) (fl_tr F')"
proof -
  obtain s' t' where run: "run_write T J now w (fl_pods F ! i) (fl_tr F) = (None, s', t')"
    and F': "F' = F\<lparr>fl_pods := (fl_pods F)[i := s'], fl_tr := t'\<rparr>"
    using assms(2) by (auto simp: fleet_write_def split: prod.splits)
  from write_on_net [OF run, of "[]"] publish_others [OF assms(1)] assms(1) show ?thesis
    by (auto simp: F' others_same_def)
qed

end

subsection \<open>Two writes on the way\<close>

context message_bus
begin

lemma running_write:
  assumes "running up subs queue J c z topic F" "i < length (fl_pods F)" "s_seq (fl_pods F ! i) + 1 \<noteq> 0"
    and "valid_utf8 (write_key w)" "has_room queue depth F" "fleet_write T J now i w F = (None, F')"
  shows "running up subs queue J c z topic F'"
proof -
  obtain C where C: "reachable J c z C" "fleet_sim up subs queue topic F C"
    using assms(1) unfolding running_def by blast
  obtain C' where C': "cluster_step J C C'" "fleet_sim up subs queue topic F' C'"
    using fleet_write_sim [OF C(2) assms(2-6)] by blast
  have "reachable J c z C'" by (rule reachable.step [OF C(1) C'(1)])
  with C'(2) show ?thesis unfolding running_def by blast
qed

lemma published_queue:
  assumes "running up subs queue J c z topic F" "tr_Publish T topic raw (fl_tr F) = (None, t')" "ch \<in> set (fl_chans F)"
    and "length (queue (fl_tr F) ch) < depth"
  shows "up t' \<and> subs t' = subs (fl_tr F) \<and> queue t' ch = queue (fl_tr F) ch @ [raw]"
proof -
  have "up (fl_tr F)" "ch \<in> set (subs (fl_tr F) topic)" using assms(1,3) by (auto simp: running_def fleet_sim_def)
  with publish_bus [of "fl_tr F" topic raw] assms(2,4) show ?thesis by auto
qed

text \<open>Two messages published into empty channels are what every pod handles next, in that order.\<close>

lemma two_published_settle:
  assumes run: "running up subs queue J c z topic F" "running up subs queue J c z topic F1" and q: "quiet queue F"
    and F1: "fl_chans F1 = fl_chans F" "tr_Publish T topic raw1 (fl_tr F) = (None, fl_tr F1)"
    and F2: "fl_chans F2 = fl_chans F" "length (fl_pods F2) = length (fl_pods F)"
      "tr_Publish T topic raw2 (fl_tr F1) = (None, fl_tr F2)"
    and j: "j < length (fl_pods F)" and depth: "1 < depth"
  shows "fl_pods (settle recv queue J now F2) ! j = handleRaw J now raw2 (handleRaw J now raw1 (fl_pods F2 ! j))"
proof -
  have F: "length (fl_chans F) = length (fl_pods F)" "distinct (fl_chans F)"
    using run(1) by (auto simp: running_def fleet_sim_def)
  have c: "fl_chans F ! j \<in> set (fl_chans F)" using j F(1) by simp
  have "queue (fl_tr F) (fl_chans F ! j) = []" using q c by (simp add: quiet_def)
  with published_queue [OF run(1) F1(2) c] depth_pos have "queue (fl_tr F1) (fl_chans F ! j) = [raw1]" by simp
  with published_queue [OF run(2) F2(3)] c F1(1) depth have "up (fl_tr F2)" "queue (fl_tr F2) (fl_chans F ! j) = [raw1, raw2]"
    by simp_all
  then show ?thesis
    using settle_from_exact [of F2 "length (fl_pods F2)" J now] F F2(1,2) j by (simp add: settle_def)
qed

end

text \<open>
  A pod gives up a key and another claims it. Whether the receive loops run in between (\<open>early\<close>) or not, the
  claim is what every pod holds in the end.
\<close>

lemma rejected_message:
  assumes "unmarshalMsg J raw = Inr m" "wm_V m = ProtocolVersion" "wm_Kind m = kindDelete" "wm_Origin m \<noteq> s_nodeID s"
    and "\<not> beats (msg_stamp m) (s_data s (wm_Key m))"
  shows "s_data (handleRaw J r raw s) = s_data s"
  using assms by (simp add: handleRaw_def Let_def applyMessage_data kindSet_def kindDelete_def)

lemma settle_pod:
  "length (fl_pods (settle recv queue J now F)) = length (fl_pods F)"
  "j < length (fl_pods F) \<Longrightarrow> pod_id (fl_pods (settle recv queue J now F) ! j) = pod_id (fl_pods F ! j)"
proof -
  note e = settle_pod_id [of recv queue J now F]
  show l: "length (fl_pods (settle recv queue J now F)) = length (fl_pods F)" by (rule map_eq_imp_length_eq [OF e])
  show "j < length (fl_pods F) \<Longrightarrow> pod_id (fl_pods (settle recv queue J now F) ! j) = pod_id (fl_pods F ! j)"
    using arg_cong [OF e, of "\<lambda>xs. xs ! j"] l by simp
qed

lemma two_writes_handled:
  assumes run: "running up subs queue J c z topic F" and i: "i < length (fl_pods F)" and j: "j < length (fl_pods F)" "i \<noteq> j"
    and k: "valid_utf8 k" and raw1: "marshalMsg J (stamp_msg kindDelete k [] now1 (fl_pods F ! i)) = Inr raw1"
    and raw2: "marshalMsg J (stamp_msg kindSet k p now2 (fl_pods F ! j)) = Inr raw2"
    and later: "Stamp now1 (s_nodeID (fl_pods F ! i)) (s_seq (fl_pods F ! i) + 1) <
      Stamp now2 (s_nodeID (fl_pods F ! j)) (s_seq (fl_pods F ! j) + 1)"
    and s: "s_data s = d(k \<mapsto> msg_entry (stamp_msg kindSet k p now2 (fl_pods F ! j)) v)" "s_nodeID s = s_nodeID (fl_pods F ! j)"
  shows "s_data (handleRaw J r raw2 (handleRaw J r raw1 s)) = s_data s"
proof -
  let ?m1 = "stamp_msg kindDelete k [] now1 (fl_pods F ! i)" and ?m2 = "stamp_msg kindSet k p now2 (fl_pods F ! j)"
  have u: "valid_utf8 kindSet" "valid_utf8 kindDelete" by (simp_all add: valid_utf8_def kindSet_def kindDelete_def of_char_def)
  have dec: "unmarshalMsg J raw1 = Inr ?m1" "unmarshalMsg J raw2 = Inr ?m2"
    using running_ids(1,2) [OF run] i j(1) k raw1 raw2 u by (simp_all add: json_msg_roundtrip_def stamp_msg_def)
  have "s_data (handleRaw J r raw1 s) = s_data s"
    using rejected_message [OF dec(1), of s r] running_ids(3) [OF run j(1) i] j(2) later s
    by (simp add: stamp_msg_def msg_stamp_def)
  moreover have "handleRaw J r raw2 (handleRaw J r raw1 s) = handleRaw J r raw1 s"
    using s(2) by (intro handleRaw_own [OF dec(2)]) (simp_all add: stamp_msg_def)
  ultimately show ?thesis by simp
qed

lemma handover_late:
  assumes calm: "calm J c z topic d F" and i: "i < length (fl_pods F)" and j: "j < length (fl_pods F)" "i \<noteq> j"
    and seq: "s_seq (fl_pods F ! i) + 1 \<noteq> 0" "s_seq (fl_pods F ! j) + 1 \<noteq> 0"
    and op: "\<not> s_closed (fl_pods F ! i)" "\<not> s_closed (fl_pods F ! j)" and k: "valid_utf8 k"
    and raw1: "marshalMsg J (stamp_msg kindDelete k [] now1 (fl_pods F ! i)) = Inr raw1"
    and p: "Marshal c v = Inr p" and raw2: "marshalMsg J (stamp_msg kindSet k p now2 (fl_pods F ! j)) = Inr raw2"
    and new: "beats (Stamp now1 (s_nodeID (fl_pods F ! i)) (s_seq (fl_pods F ! i) + 1)) (d k)"
    and later: "Stamp now1 (s_nodeID (fl_pods F ! i)) (s_seq (fl_pods F ! i) + 1) <
      Stamp now2 (s_nodeID (fl_pods F ! j)) (s_seq (fl_pods F ! j) + 1)"
    and F1: "fleet_write memory_transport J now1 i (PodDelete k) F = (None, F1)"
  shows "\<exists>F2. fleet_write memory_transport J now2 j (PodSet k v) F1 = (None, F2) \<and>
    running mem_up m_subs mem_queue J c z topic F2 \<and>
    calm J c z topic (d(k \<mapsto> msg_entry (stamp_msg kindSet k p now2 (fl_pods F ! j)) v)) (settle mem_recv mem_queue J r2 F2)"
proof -
  let ?m1 = "stamp_msg kindDelete k [] now1 (fl_pods F ! i)" and ?m2 = "stamp_msg kindSet k p now2 (fl_pods F ! j)"
  have run: "running mem_up m_subs mem_queue J c z topic F" and q: "quiet mem_queue F" and d: "s_data (fl_pods F ! j) = d"
    using calm j by (simp_all add: calm_def)
  have fr: "fl_chans F1 = fl_chans F" "length (fl_pods F1) = length (fl_pods F)" "fl_pods F1 ! j = fl_pods F ! j"
    using fleet_write_frame [OF F1] j(2) by auto
  have b: "beats (msg_stamp ?m2) (d k)" using new later by (cases "d k") auto
  have r1: "running mem_up m_subs mem_queue J c z topic F1"
    by (rule membus.running_write [OF run i seq(1) _ membus.quiet_room [OF q] F1]) (simp add: k)
  note pj = running_pod [OF r1, of j]
  obtain t1 where "tr_Publish memory_transport topic raw1 (fl_tr F) = (None, t1)"
    using membus.publish_bus running_pod(5) [OF run i] by metis
  then have t1: "tr_Publish memory_transport topic raw1 (fl_tr F) = (None, fl_tr F1)"
    using winning_Delete [of F i J k now1 raw1 memory_transport t1] op(1) i raw1 new calm F1 running_pod(4) [OF run i]
    by (auto simp: calm_def)
  obtain t2 where t2: "tr_Publish memory_transport topic raw2 (fl_tr F1) = (None, t2)"
    using membus.publish_bus pj(5) j(1) fr(2) by metis
  obtain F2 where F2: "fleet_write memory_transport J now2 j (PodSet k v) F1 = (None, F2)" "fl_tr F2 = t2"
    and d2: "s_data (fl_pods F2 ! j) = d(k \<mapsto> msg_entry ?m2 v)"
    using winning_Set [of F1 j v p J k now2 raw2 memory_transport t2] op(2) p raw2 t2 b j(1) fr pj d by auto
  have fr2: "fl_chans F2 = fl_chans F1" "length (fl_pods F2) = length (fl_pods F1)"
    using fleet_write_frame [OF F2(1)] by auto
  have "has_room mem_queue 256 F1"
    using membus.published_queue [OF run t1] q fr(1) by (auto simp: has_room_def quiet_def)
  then have r2: "running mem_up m_subs mem_queue J c z topic F2"
    by (rule membus.running_write [OF r1 _ _ _ _ F2(1), rotated 3]) (use k j fr seq in simp_all)
  let ?S = "settle mem_recv mem_queue J r2 F2"
  have e: "fl_pods ?S ! j = handleRaw J r2 raw2 (handleRaw J r2 raw1 (fl_pods F2 ! j))"
    using membus.two_published_settle [OF run r1 q fr(1) t1, of F2 raw2 j r2] fr fr2 F2(2) t2 j(1) by simp
  have "s_nodeID (fl_pods F2 ! j) = s_nodeID (fl_pods F ! j)"
    using arg_cong [OF fleet_write_pod_id [OF F2(1)], of "\<lambda>xs. xs ! j"] fr fr2 j(1) by (simp add: pod_id_def)
  then have "s_data (fl_pods ?S ! j) = d(k \<mapsto> msg_entry ?m2 v)"
    unfolding e using two_writes_handled [OF run i j k raw1 raw2 later d2, of r2] d2 by simp
  moreover have "calm J c z topic (s_data (fl_pods ?S ! j)) ?S"
    using membus.running_settle(1,2,4) [OF r2, of r2] fr fr2 j(1) by (intro calm_agree) simp_all
  ultimately show ?thesis using F2(1) r2 by auto
qed

lemma handover_early:
  assumes calm: "calm J c z topic d F" and i: "i < length (fl_pods F)" and j: "j < length (fl_pods F)" "i \<noteq> j"
    and seq: "s_seq (fl_pods F ! j) + 1 \<noteq> 0"
    and op: "\<not> s_closed (fl_pods F ! j)" and k: "valid_utf8 k"
    and p: "Marshal c v = Inr p" and raw2: "marshalMsg J (stamp_msg kindSet k p now2 (fl_pods F ! j)) = Inr raw2"
    and later: "Stamp now1 (s_nodeID (fl_pods F ! i)) (s_seq (fl_pods F ! i) + 1) <
      Stamp now2 (s_nodeID (fl_pods F ! j)) (s_seq (fl_pods F ! j) + 1)"
    and F1: "fleet_write memory_transport J now1 i (PodDelete k) F = (None, F1)"
      "calm J c z topic (d(k \<mapsto> msg_entry (stamp_msg kindDelete k [] now1 (fl_pods F ! i)) z)) (settle mem_recv mem_queue J r1 F1)"
  shows "\<exists>F2. fleet_write memory_transport J now2 j (PodSet k v) (settle mem_recv mem_queue J r1 F1) = (None, F2) \<and>
    running mem_up m_subs mem_queue J c z topic F2 \<and>
    calm J c z topic (d(k \<mapsto> msg_entry (stamp_msg kindSet k p now2 (fl_pods F ! j)) v)) (settle mem_recv mem_queue J r2 F2)"
proof -
  let ?m1 = "stamp_msg kindDelete k [] now1 (fl_pods F ! i)" and ?m2 = "stamp_msg kindSet k p now2 (fl_pods F ! j)"
  let ?G = "settle mem_recv mem_queue J r1 F1"
  have fr: "length (fl_pods F1) = length (fl_pods F)" "fl_pods F1 ! j = fl_pods F ! j"
    using fleet_write_frame [OF F1(1)] j(2) by auto
  have g: "length (fl_pods ?G) = length (fl_pods F1)" "pod_id (fl_pods ?G ! j) = pod_id (fl_pods F ! j)"
    using settle_pod(1) [of mem_recv mem_queue J r1 F1] settle_pod(2) [of j F1 mem_recv mem_queue J r1] fr j(1) by simp_all
  then have G: "j < length (fl_pods ?G)" "s_seq (fl_pods ?G ! j) + 1 \<noteq> 0" "\<not> s_closed (fl_pods ?G ! j)"
      "stamp_msg kindSet k p now2 (fl_pods ?G ! j) = ?m2"
    using seq op j(1) fr(1) by (simp_all add: pod_id_def stamp_msg_def)
  have "beats (Stamp now2 (s_nodeID (fl_pods ?G ! j)) (s_seq (fl_pods ?G ! j) + 1)) ((d(k \<mapsto> msg_entry ?m1 z)) k)"
    using later g(2) by (simp add: pod_id_def)
  from calm_Set [OF F1(2) G(1-3) k p _ this, of raw2 r2] raw2 G(4) obtain F2 where
      F2: "fleet_write memory_transport J now2 j (PodSet k v) ?G = (None, F2)"
      "calm J c z topic (d(k \<mapsto> msg_entry ?m2 v)) (settle mem_recv mem_queue J r2 F2)" by (auto simp del: fun_upd_apply)
  have "running mem_up m_subs mem_queue J c z topic F2"
    by (rule membus.running_write [OF _ G(1,2) _ membus.quiet_room F2(1)]) (use F1(2) k in \<open>simp_all add: calm_def\<close>)
  with F2 show ?thesis by auto
qed

subsection \<open>Registrations are writes of the fleet\<close>

lemma calm_tr:
  assumes "calm J c z topic d F" "mem_up t'" "m_subs t' = m_subs (fl_tr F)"
    and "\<forall>c \<in> set (fl_chans F). mem_queue t' c = mem_queue (fl_tr F) c"
  shows "calm J c z topic d (F\<lparr>fl_tr := t'\<rparr>)"
  using assms membus.running_tr [of J c z topic F t'] by (simp add: calm_def quiet_def)

lemma Register_fleet:
  assumes "target \<noteq> ''''" "method \<noteq> ''''" "ep_handlers e target = None" "ep_routing e = fl_pods F ! i"
    and "fleet_write T J now i (PodSet target \<lparr>rt_PodID = ep_selfID e, rt_UpdatedAt = at\<rparr>) F = (err, F1)"
    and "i < length (fl_pods F)"
  shows "Register T J at now target method (Some h) e (fl_tr F) =
    (map_option CrErr err,
     e\<lparr>ep_handlers := (ep_handlers e)(target \<mapsto> [method \<mapsto> h]), ep_routing := fl_pods F1 ! i\<rparr>, fl_tr F1)"
  using assms by (auto simp: Register_def fleet_write_def Let_def split: prod.splits)

lemma Unregister_fleet:
  assumes "ep_routing e = fl_pods F ! i" "fleet_write T J now i (PodDelete target) F = (err, F1)" "i < length (fl_pods F)"
  shows "Unregister T J now target e (fl_tr F) =
    (map_option CrErr err, e\<lparr>ep_handlers := (ep_handlers e)(target := None), ep_routing := fl_pods F1 ! i\<rparr>, fl_tr F1)"
  using assms by (auto simp: Unregister_def fleet_write_def Let_def split: prod.splits)

end
