(* ===== verification/Ws_Routing.thy ===== *)
theory Ws_Routing
  imports Call_Fleet
begin

section \<open>Routing to WebSocket connections\<close>

text \<open>
  \<^verbatim>\<open>examples/ws-routing/main.go\<close>: two pods of one process hold the connections of their users, and push
  messages to users of either pod through the calls of \<^verbatim>\<open>callreply\<close>.

  \<^item> A connection is a number into \<open>ww_socks\<close>, as \<^verbatim>\<open>conns\<close> holds pointers. A connection that was dropped
    stays there with what was sent on it.
  \<^item> The closure that \<^verbatim>\<open>userConnects\<close> registers reads \<^verbatim>\<open>p.conns\<close> when it runs. Its result is a function of the
    map at that moment (\<open>ws_handle\<close>), so the table of handlers is bound to the map anew whenever the map
    changes (\<open>bind_conns\<close>); what it sends is done to the connections when it runs (\<open>ws_deliver\<close>).
  \<^item> A sleep means that the routing stores have handled their channels. During a call the other pod's loop takes
    the envelope and serves it, and the caller's loop takes the reply, before the timeout.
  \<^item> \<^verbatim>\<open>encoding/json\<close> on strings is a parameter, with an error as its text. The \<open>n\<close>-th reading of the clock
    is \<open>ck n\<close>; the fixed announcements the program prints are left out.
\<close>

record StrJson =
  marshalStr :: "string \<Rightarrow> string + bytes"
  unmarshalStr :: "bytes \<Rightarrow> string + string"

record fakeWS =
  fw_user :: string
  fw_sent :: "string list"

record ws_pod =
  pd_id :: string
  pd_ep :: Endpoint
  pd_conns :: "string \<rightharpoonup> nat"

datatype ws_line =
    WsReceived string string
  | KnowsOwner string
  | SeesOwner string
  | OfflineError callerror

record ws_world =
  ww_pods :: "ws_pod list"
  ww_chans :: "nat list"
  ww_tr :: MemoryTransport
  ww_socks :: "fakeWS list"
  ww_out :: "ws_line list"

definition ws_Send :: "string \<Rightarrow> fakeWS \<Rightarrow> fakeWS" where
  "ws_Send msg w = w\<lparr>fw_sent := fw_sent w @ [msg]\<rparr>"

subsection \<open>The closure of a connection\<close>

text \<open>The result of the closure, and the connection it sent on with the message.\<close>

definition ws_handle :: "StrJson \<Rightarrow> (string \<rightharpoonup> nat) \<Rightarrow> string \<Rightarrow> bytes \<Rightarrow> (string + bytes) \<times> (nat \<times> string) option" where
  "ws_handle sj conns user args =
    (case unmarshalStr sj args of
       Inl err \<Rightarrow> (Inl (''decode msg: '' @ err), None)
     | Inr msg \<Rightarrow>
         (case conns user of
            None \<Rightarrow> (Inl (''user '' @ user @ '' not connected here anymore''), None)
          | Some c \<Rightarrow> (marshalStr sj ''ok'', Some (c, msg))))"

definition ws_handler :: "StrJson \<Rightarrow> (string \<rightharpoonup> nat) \<Rightarrow> string \<Rightarrow> Handler" where
  "ws_handler sj conns user = (\<lambda>ctx args. fst (ws_handle sj conns user args))"

definition ws_target :: "string \<Rightarrow> string" where "ws_target user = ''ws:'' @ user"

definition ws_user :: "string \<Rightarrow> string" where "ws_user target = drop 3 target"

definition bind_conns :: "StrJson \<Rightarrow> (string \<rightharpoonup> nat) \<Rightarrow> Endpoint \<Rightarrow> Endpoint" where
  "bind_conns sj conns e = e\<lparr>ep_handlers :=
     (\<lambda>target. map_option (\<lambda>methods m. map_option (\<lambda>_. ws_handler sj conns (ws_user target)) (methods m))
        (ep_handlers e target))\<rparr>"

definition ws_deliver :: "(nat \<times> string) option \<Rightarrow> ws_world \<Rightarrow> ws_world" where
  "ws_deliver sent W =
    (case sent of
       None \<Rightarrow> W
     | Some (c, msg) \<Rightarrow> W\<lparr>ww_socks := (ww_socks W)[c := ws_Send msg (ww_socks W ! c)],
         ww_out := ww_out W @ [WsReceived (fw_user (ww_socks W ! c)) msg]\<rparr>)"

subsection \<open>The operations of a pod\<close>

definition put_ep :: "nat \<Rightarrow> Endpoint \<Rightarrow> ws_world \<Rightarrow> ws_world" where
  "put_ep i e W = W\<lparr>ww_pods := (ww_pods W)[i := (ww_pods W ! i)\<lparr>pd_ep := e\<rparr>]\<rparr>"

text \<open>\<^verbatim>\<open>newPod\<close>; \<open>rid\<close>, \<open>now\<close> and \<open>ks\<close> are the arguments of \<open>Endpoint_New\<close>.\<close>

definition ws_newPod :: "Route Codec \<Rightarrow> Json \<Rightarrow> goerror + string \<Rightarrow> time \<Rightarrow> string list \<Rightarrow> string \<Rightarrow> ws_world
    \<Rightarrow> callerror + ws_world" where
  "ws_newPod rc J rid now ks i W =
    (case Endpoint_New rc J rid now ks (Some memory_transport)
            \<lparr>co_SelfID = i, co_RoutingTopic = '''', co_InboxPrefix = '''', co_CallTimeout = 2000000000,
             co_OnError = True, co_MaxConcurrentHandlers = 0\<rparr> (ww_tr W) of
       (Inl err, t) \<Rightarrow> Inl err
     | (Inr ep, t) \<Rightarrow>
         Inr (W\<lparr>ww_pods := ww_pods W @ [\<lparr>pd_id = i, pd_ep = ep, pd_conns = Map.empty\<rparr>],
           ww_chans := ww_chans W @ [sub_chan memory_transport ''callreply:routing'' (ww_tr W)], ww_tr := t\<rparr>))"

definition ws_userConnects :: "StrJson \<Rightarrow> Json \<Rightarrow> time \<Rightarrow> time \<Rightarrow> nat \<Rightarrow> string \<Rightarrow> ws_world
    \<Rightarrow> callerror option \<times> ws_world" where
  "ws_userConnects sj J at now i user W =
    (let p = ww_pods W ! i;
         conns = (pd_conns p)(user \<mapsto> length (ww_socks W))
     in case Register memory_transport J at now (ws_target user) ''Send'' (Some (ws_handler sj conns user))
               (bind_conns sj conns (pd_ep p)) (ww_tr W) of
          (err, e', t') \<Rightarrow>
            (err, W\<lparr>ww_pods := (ww_pods W)[i := p\<lparr>pd_ep := e', pd_conns := conns\<rparr>],
               ww_socks := ww_socks W @ [\<lparr>fw_user = user, fw_sent = []\<rparr>], ww_tr := t'\<rparr>))"

definition ws_userDisconnects :: "StrJson \<Rightarrow> Json \<Rightarrow> time \<Rightarrow> nat \<Rightarrow> string \<Rightarrow> ws_world \<Rightarrow> ws_world" where
  "ws_userDisconnects sj J now i user W =
    (let p = ww_pods W ! i;
         conns = (pd_conns p)(user := None)
     in case Unregister memory_transport J now (ws_target user) (bind_conns sj conns (pd_ep p)) (ww_tr W) of
          (_, e', t') \<Rightarrow> W\<lparr>ww_pods := (ww_pods W)[i := p\<lparr>pd_ep := e', pd_conns := conns\<rparr>], ww_tr := t'\<rparr>)"

text \<open>What the closure sends when pod \<open>p\<close> serves the next envelope of its inbox, and the serving of it.\<close>

definition ws_runs :: "StrJson \<Rightarrow> EnvJson \<Rightarrow> time \<Rightarrow> ws_pod \<Rightarrow> MemoryTransport \<Rightarrow> (nat \<times> string) option" where
  "ws_runs sj EJ now p t =
    (case mem_recv (ep_sub (pd_ep p)) t of
       (None, _) \<Rightarrow> None
     | (Some raw, _) \<Rightarrow>
         (case handleInbound EJ raw (pd_ep p) of
            (None, _) \<Rightarrow> None
          | (Some c, e1) \<Rightarrow>
              (case serve_start now c e1 of
                 (Running h ctx, _) \<Rightarrow> snd (ws_handle sj (pd_conns p) (ws_user (en_Target c)) (en_Args c))
               | _ \<Rightarrow> None)))"

definition ws_serve :: "StrJson \<Rightarrow> EnvJson \<Rightarrow> time \<Rightarrow> nat \<Rightarrow> ws_world \<Rightarrow> ws_world" where
  "ws_serve sj EJ now j W =
    (let p = ww_pods W ! j in
     case owner_serves memory_transport EJ mem_recv now (ep_sub (pd_ep p)) (pd_ep p) (ww_tr W) of
       (e', t') \<Rightarrow> ws_deliver (ws_runs sj EJ now p (ww_tr W)) (put_ep j e' (W\<lparr>ww_tr := t'\<rparr>)))"

definition call_error :: "callerror + bytes \<Rightarrow> callerror option" where
  "call_error res = (case res of Inl err \<Rightarrow> Some err | Inr _ \<Rightarrow> None)"

text \<open>
  \<^verbatim>\<open>SendTo\<close> at pod \<open>i\<close>, with \<^verbatim>\<open>Call\<close> written out around what the other pod does meanwhile. \<^verbatim>\<open>json.Marshal\<close>'s
  error is dropped: the arguments are then empty. \<^term>\<open>None\<close> is a call that still waits.
\<close>

definition ws_SendTo :: "StrJson \<Rightarrow> EnvJson \<Rightarrow> time \<Rightarrow> time \<Rightarrow> bytes \<Rightarrow> nat \<Rightarrow> string \<Rightarrow> string \<Rightarrow> ws_world
    \<Rightarrow> (callerror option \<times> ws_world) option" where
  "ws_SendTo sj EJ now now' rnd i user msg W =
    (let args = (case marshalStr sj msg of Inl _ \<Rightarrow> [] | Inr b \<Rightarrow> b);
         target = ws_target user
     in case Call_route now \<lparr>ctx_deadline = None\<rparr> target (pd_ep (ww_pods W ! i)) of
          (Failed err, e1) \<Rightarrow> Some (Some err, put_ep i e1 W)
        | (Here ctx, e1) \<Rightarrow>
            (case callLocal ctx target ''Send'' args e1 of
               (res, e2) \<Rightarrow> Some (call_error res,
                 ws_deliver (case local_start target ''Send'' e1 of
                               (Inl _, _) \<Rightarrow> None
                             | (Inr _, _) \<Rightarrow> snd (ws_handle sj (pd_conns (ww_pods W ! i)) user args))
                   (put_ep i e2 W)))
        | (There pod ctx, e1) \<Rightarrow>
            (case Call_send memory_transport EJ (Inr rnd) ctx pod target ''Send'' args e1 (ww_tr W) of
               (Inl err, e2, t2) \<Rightarrow> Some (Some err, put_ep i e2 (W\<lparr>ww_tr := t2\<rparr>))
             | (Inr (ident, ch), e2, t2) \<Rightarrow>
                 let W1 = ws_serve sj EJ now' (1 - i) (put_ep i e2 (W\<lparr>ww_tr := t2\<rparr>)) in
                 (case caller_receives EJ mem_recv (ep_sub e2) (e2, ww_tr W1) of
                    (e3, t3) \<Rightarrow>
                      map_option (\<lambda>(res, e4). (call_error res, put_ep i e4 (W1\<lparr>ww_tr := t3\<rparr>)))
                        (Call_return GotReply ident ch e3))))"

subsection \<open>The program\<close>

definition ws_fleet :: "ws_world \<Rightarrow> (Route, MemoryTransport) fleet" where
  "ws_fleet W = \<lparr>fl_pods = map (\<lambda>p. ep_routing (pd_ep p)) (ww_pods W), fl_chans = ww_chans W, fl_tr = ww_tr W\<rparr>"

definition ws_put_fleet :: "(Route, MemoryTransport) fleet \<Rightarrow> ws_world \<Rightarrow> ws_world" where
  "ws_put_fleet F W = W\<lparr>ww_pods := map (\<lambda>(p, s). p\<lparr>pd_ep := (pd_ep p)\<lparr>ep_routing := s\<rparr>\<rparr>) (zip (ww_pods W) (fl_pods F)),
     ww_tr := fl_tr F\<rparr>"

definition ws_settle :: "Json \<Rightarrow> time \<Rightarrow> ws_world \<Rightarrow> ws_world" where
  "ws_settle J now W = ws_put_fleet (settle mem_recv mem_queue J now (ws_fleet W)) W"

text \<open>The lookups of the owner that \<^verbatim>\<open>main\<close> prints.\<close>

definition ws_ask :: "nat \<Rightarrow> (string \<Rightarrow> ws_line) \<Rightarrow> ws_world \<Rightarrow> ws_world" where
  "ws_ask i line W =
    (case Owner (ws_target ''alice'') (pd_ep (ww_pods W ! i)) of
       ((owner, ok), e') \<Rightarrow> put_ep i e' W\<lparr>ww_out := ww_out W @ (if ok then [line owner] else [])\<rparr>)"

text \<open>A statement of \<^verbatim>\<open>main\<close> whose error is fatal, and the next one.\<close>

fun run_then :: "(callerror option \<times> ws_world) option \<Rightarrow> (ws_world \<Rightarrow> (callerror + ws_world) option)
    \<Rightarrow> (callerror + ws_world) option" where
  "run_then None f = None"
| "run_then (Some (Some err, _)) f = Some (Inl err)"
| "run_then (Some (None, W)) f = f W"

definition ws_arrive :: "StrJson \<Rightarrow> Json \<Rightarrow> EnvJson \<Rightarrow> (nat \<Rightarrow> time) \<Rightarrow> (nat \<Rightarrow> bytes) \<Rightarrow> ws_world
    \<Rightarrow> (callerror + ws_world) option" where
  "ws_arrive sj J EJ ck rnd W =
    run_then (Some (ws_userConnects sj J (ck 1) (ck 2) 0 ''alice'' W)) (\<lambda>W.
    run_then (ws_SendTo sj EJ (ck 4) (ck 5) (rnd 0) 1 ''alice'' ''new message from bob'' (ws_settle J (ck 3) W)) (\<lambda>W.
    Some (Inr (ws_ask 1 KnowsOwner W))))"

text \<open>
  The migration. The receive loops may run between the two statements or not, \<open>early\<close>.
\<close>

definition ws_migrate :: "StrJson \<Rightarrow> Json \<Rightarrow> EnvJson \<Rightarrow> (nat \<Rightarrow> time) \<Rightarrow> (nat \<Rightarrow> bytes) \<Rightarrow> bool \<Rightarrow> ws_world
    \<Rightarrow> (callerror + ws_world) option" where
  "ws_migrate sj J EJ ck rnd early W =
    (let W1 = ws_userDisconnects sj J (ck 6) 0 ''alice'' W;
         W2 = (if early then ws_settle J (ck 7) W1 else W1)
     in run_then (Some (ws_userConnects sj J (ck 8) (ck 9) 1 ''alice'' W2)) (\<lambda>W.
        run_then (ws_SendTo sj EJ (ck 11) (ck 12) (rnd 1) 0 ''alice'' ''welcome on the new pod'' (ws_settle J (ck 10) W)) (\<lambda>W.
        Some (Inr (ws_ask 1 SeesOwner W)))))"

definition ws_leave :: "StrJson \<Rightarrow> Json \<Rightarrow> EnvJson \<Rightarrow> (nat \<Rightarrow> time) \<Rightarrow> (nat \<Rightarrow> bytes) \<Rightarrow> ws_world
    \<Rightarrow> (callerror + ws_world) option" where
  "ws_leave sj J EJ ck rnd W =
    (let W1 = ws_settle J (ck 14) (ws_userDisconnects sj J (ck 13) 1 ''alice'' W) in
     case ws_SendTo sj EJ (ck 15) (ck 16) (rnd 2) 0 ''alice'' ''are you there?'' W1 of
       None \<Rightarrow> None
     | Some (err, W2) \<Rightarrow>
         Some (Inr (W2\<lparr>ww_out := ww_out W2 @ (case err of None \<Rightarrow> [] | Some e \<Rightarrow> [OfflineError e])\<rparr>)))"

text \<open>The deferred calls, last one first; \<open>ks\<close> are the key orders of the final flushes.\<close>

definition ws_close_pod :: "Json \<Rightarrow> time \<Rightarrow> string list \<Rightarrow> nat \<Rightarrow> ws_world \<Rightarrow> ws_world" where
  "ws_close_pod J now ks i W =
    (case Endpoint_Close memory_transport J now ks (pd_ep (ww_pods W ! i)) (ww_tr W) of
       (e', t') \<Rightarrow> put_ep i e' (W\<lparr>ww_tr := t'\<rparr>))"

definition ws_shutdown :: "Json \<Rightarrow> (nat \<Rightarrow> time) \<Rightarrow> (nat \<Rightarrow> string list) \<Rightarrow> ws_world \<Rightarrow> ws_world" where
  "ws_shutdown J ck ks W =
    (let W1 = ws_close_pod J (ck 17) (ks 1) 1 W;
         W2 = ws_close_pod J (ck 18) (ks 0) 0 W1
     in W2\<lparr>ww_tr := snd (mem_Close (ww_tr W2))\<rparr>)"

fun fatal_or :: "(callerror + ws_world) option \<Rightarrow> (ws_world \<Rightarrow> (callerror + ws_world) option)
    \<Rightarrow> (callerror + ws_world) option" where
  "fatal_or None f = None"
| "fatal_or (Some (Inl err)) f = Some (Inl err)"
| "fatal_or (Some (Inr W)) f = f W"

definition ws_start :: ws_world where
  "ws_start = \<lparr>ww_pods = [], ww_chans = [], ww_tr = NewMemoryTransport False, ww_socks = [], ww_out = []\<rparr>"

definition ws_main :: "StrJson \<Rightarrow> Route Codec \<Rightarrow> Json \<Rightarrow> EnvJson \<Rightarrow> goerror + string \<Rightarrow> (nat \<Rightarrow> time) \<Rightarrow> (nat \<Rightarrow> bytes)
    \<Rightarrow> (nat \<Rightarrow> string list) \<Rightarrow> bool \<Rightarrow> (callerror + ws_world) option" where
  "ws_main sj rc J EJ rid ck rnd ks early =
    fatal_or (Some (ws_newPod rc J rid (ck 0) [] ''pod-A'' ws_start)) (\<lambda>W.
    fatal_or (Some (ws_newPod rc J rid (ck 0) [] ''pod-B'' W)) (\<lambda>W.
    fatal_or (ws_arrive sj J EJ ck rnd W) (\<lambda>W.
    fatal_or (ws_migrate sj J EJ ck rnd early W) (\<lambda>W.
    fatal_or (ws_leave sj J EJ ck rnd W) (\<lambda>W.
    Some (Inr (ws_shutdown J ck ks W)))))))"

subsection \<open>The world between two statements\<close>

text \<open>
  The table of handlers that belongs to a map of connections; the state of a pod whose inbox is empty, on a
  broker \<open>t\<close> with \<open>n\<close> connections made so far; and the world whose routing stores all hold \<open>d\<close>,
  the one of pod \<open>i\<close> after \<open>q i\<close> writes.
\<close>

definition ws_table :: "StrJson \<Rightarrow> (string \<rightharpoonup> nat) \<Rightarrow> string \<rightharpoonup> (string \<rightharpoonup> Handler)" where
  "ws_table sj conns target =
    (if take 3 target = ''ws:'' \<and> conns (ws_user target) \<noteq> None
     then Some [''Send'' \<mapsto> ws_handler sj conns (ws_user target)] else None)"

definition ws_inbox :: "string \<Rightarrow> string" where "ws_inbox i = ''callreply:inbox:'' @ i"

definition ws_pod_ok :: "StrJson \<Rightarrow> MemoryTransport \<Rightarrow> nat \<Rightarrow> string \<Rightarrow> ws_pod \<Rightarrow> bool" where
  "ws_pod_ok sj t n i p \<longleftrightarrow>
    (let e = pd_ep p in
     pd_id p = i \<and> ep_selfID e = i \<and> ep_inboxPrefix e = ''callreply:inbox:'' \<and> ep_inbox e = ws_inbox i \<and>
     ep_timeout e = 2000000000 \<and> ep_sem e = 0 \<and> 0 < ep_semCap e \<and> \<not> ep_closed e \<and>
     s_nodeID (ep_routing e) = i \<and> \<not> s_closed (ep_routing e) \<and>
     m_subs t (ws_inbox i) = [ep_sub e] \<and> mem_queue t (ep_sub e) = [] \<and>
     ep_handlers e = ws_table sj (pd_conns p) \<and> (\<forall>u c. pd_conns p u = Some c \<longrightarrow> c < n))"

abbreviation (input) routes_calm :: "Json \<Rightarrow> Route Codec \<Rightarrow> (string \<rightharpoonup> Route entry) \<Rightarrow> (Route, MemoryTransport) fleet \<Rightarrow> bool" where
  "routes_calm J rc d F \<equiv> calm J rc zero_Route ''callreply:routing'' d F"

abbreviation (input) routes_run :: "Json \<Rightarrow> Route Codec \<Rightarrow> (Route, MemoryTransport) fleet \<Rightarrow> bool" where
  "routes_run J rc F \<equiv> running mem_up m_subs mem_queue J rc zero_Route ''callreply:routing'' F"

definition ws_ids :: "string list" where "ws_ids = [''pod-A'', ''pod-B'']"

definition ws_parts :: "StrJson \<Rightarrow> (nat \<Rightarrow> uint64) \<Rightarrow> ws_world \<Rightarrow> bool" where
  "ws_parts sj q W \<longleftrightarrow> length (ww_pods W) = 2 \<and>
    (\<forall>i < 2. ws_pod_ok sj (ww_tr W) (length (ww_socks W)) (ws_ids ! i) (ww_pods W ! i) \<and>
       s_seq (ep_routing (pd_ep (ww_pods W ! i))) = q i)"

definition ws_ok :: "StrJson \<Rightarrow> Json \<Rightarrow> Route Codec \<Rightarrow> (string \<rightharpoonup> Route entry) \<Rightarrow> (nat \<Rightarrow> uint64) \<Rightarrow> ws_world \<Rightarrow> bool" where
  "ws_ok sj J rc d q W \<longleftrightarrow> routes_calm J rc d (ws_fleet W) \<and> ws_parts sj q W"

lemma ws_target_simps [simp]:
  "ws_user (ws_target u) = u" "take 3 (ws_target u) = ''ws:''" "ws_target u \<noteq> ''''"
  by (simp_all add: ws_user_def ws_target_def)

lemma ws_target_user: "take 3 target = ''ws:'' \<Longrightarrow> target = ws_target (ws_user target)"
  by (metis append_take_drop_id ws_target_def ws_user_def)

lemma bind_table:
  assumes "ep_handlers e = ws_table sj conns"
  shows "ep_handlers (bind_conns sj conns' e) = (\<lambda>target. if take 3 target = ''ws:'' \<and> conns (ws_user target) \<noteq> None
    then Some [''Send'' \<mapsto> ws_handler sj conns' (ws_user target)] else None)"
proof -
  have "(\<lambda>m. map_option (\<lambda>_. h) ([''Send'' \<mapsto> g] m)) = [''Send'' \<mapsto> h]" for g h :: Handler by auto
  with assms show ?thesis by (auto simp: bind_conns_def ws_table_def fun_eq_iff)
qed

lemma ws_table_connect:
  assumes "ep_handlers e = ws_table sj conns"
  shows "(ep_handlers (bind_conns sj (conns(u \<mapsto> c)) e)) (ws_target u \<mapsto> [''Send'' \<mapsto> ws_handler sj (conns(u \<mapsto> c)) u]) =
    ws_table sj (conns(u \<mapsto> c))"
  unfolding bind_table [OF assms] fun_eq_iff using ws_target_user by (auto simp: ws_table_def)

lemma ws_table_disconnect:
  assumes "ep_handlers e = ws_table sj conns"
  shows "(ep_handlers (bind_conns sj (conns(u := None)) e)) (ws_target u := None) = ws_table sj (conns(u := None))"
  unfolding bind_table [OF assms] fun_eq_iff using ws_target_user by (auto simp: ws_table_def)

lemma bind_conns_frame [simp]: "(bind_conns sj conns e)\<lparr>ep_handlers := h\<rparr> = e\<lparr>ep_handlers := h\<rparr>"
    "ep_routing (bind_conns sj conns e) = ep_routing e" "ep_selfID (bind_conns sj conns e) = ep_selfID e"
  by (simp_all add: bind_conns_def)

lemma ws_find_handler:
  "ep_handlers e = ws_table sj conns \<Longrightarrow> find_handler (ws_target u) ''Send'' e =
    (if conns u = None then None else Some (ws_handler sj conns u))"
  by (simp add: find_handler_def ws_table_def)

subsection \<open>Connections come and go\<close>

lemma running_bus:
  assumes "routes_run J rc F"
  shows "mem_up (fl_tr F)" "length (fl_chans F) = length (fl_pods F)"
    "set (fl_chans F) \<subseteq> set (m_subs (fl_tr F) ''callreply:routing'')"
  using assms by (auto simp: running_def fleet_sim_def)

text \<open>The inboxes are not channels of the routing topic.\<close>

lemma ws_pod_ok_others:
  assumes "ws_pod_ok sj t n i p" "mem_inv t" "others_same mem_up m_subs mem_queue cs t t'"
    and "cs \<subseteq> set (m_subs t ''callreply:routing'')"
  shows "ws_pod_ok sj t' n i p"
proof -
  have "ep_sub (pd_ep p) \<in> set (m_subs t (ws_inbox i))" using assms(1) by (simp add: ws_pod_ok_def Let_def)
  moreover have "ws_inbox i \<noteq> ''callreply:routing''" by (simp add: ws_inbox_def)
  ultimately have "ep_sub (pd_ep p) \<notin> cs" using mem_subs_disjoint [OF assms(2)] assms(4) by blast
  with assms(1,3) show ?thesis by (simp add: ws_pod_ok_def Let_def others_same_def)
qed

lemma ws_pod_ok_mono: "ws_pod_ok sj t n i p \<Longrightarrow> n \<le> n' \<Longrightarrow> ws_pod_ok sj t n' i p"
  by (auto simp: ws_pod_ok_def Let_def intro: less_le_trans)

lemma ws_settle_parts:
  assumes "ws_parts sj q W" "routes_run J rc (ws_fleet W)"
  shows "ws_parts sj q (ws_settle J now W)" "ws_fleet (ws_settle J now W) = settle mem_recv mem_queue J now (ws_fleet W)"
    "ww_socks (ws_settle J now W) = ww_socks W" "ww_out (ws_settle J now W) = ww_out W"
    "i < 2 \<Longrightarrow> pd_conns (ww_pods (ws_settle J now W) ! i) = pd_conns (ww_pods W ! i)"
proof -
  let ?F = "ws_fleet W" and ?G = "settle mem_recv mem_queue J now (ws_fleet W)"
  have len: "length (ww_pods W) = 2" "length (fl_pods ?G) = 2"
    using assms(1) settle_pod(1) [of mem_recv mem_queue J now ?F] by (simp_all add: ws_parts_def ws_fleet_def)
  have pods: "ww_pods (ws_settle J now W) ! i = (ww_pods W ! i)\<lparr>pd_ep := (pd_ep (ww_pods W ! i))\<lparr>ep_routing := fl_pods ?G ! i\<rparr>\<rparr>"
    if "i < 2" for i using that len by (simp add: ws_settle_def ws_put_fleet_def)
  have id: "pod_id (fl_pods ?G ! i) = pod_id (ep_routing (pd_ep (ww_pods W ! i)))" if "i < 2" for i
    using that settle_pod(2) [of i ?F mem_recv mem_queue J now] len by (simp add: ws_fleet_def)
  have o: "others_same mem_up m_subs mem_queue (set (fl_chans ?F)) (ww_tr W) (fl_tr ?G)"
    using membus.settle_others [of ?F J now] running_bus [OF assms(2)] by (simp add: ws_fleet_def)
  show "ww_socks (ws_settle J now W) = ww_socks W" "ww_out (ws_settle J now W) = ww_out W"
    by (simp_all add: ws_settle_def ws_put_fleet_def)
  show "ws_parts sj q (ws_settle J now W)"
    unfolding ws_parts_def
  proof (intro conjI allI impI)
    show "length (ww_pods (ws_settle J now W)) = 2" using len by (simp add: ws_settle_def ws_put_fleet_def)
    fix i :: nat assume i: "i < 2"
    have "ws_pod_ok sj (ww_tr W) (length (ww_socks W)) (ws_ids ! i) (ww_pods W ! i)" using assms(1) i by (simp add: ws_parts_def)
    from ws_pod_ok_others [OF this _ o] running_bus [OF assms(2)]
    have "ws_pod_ok sj (fl_tr ?G) (length (ww_socks W)) (ws_ids ! i) (ww_pods W ! i)" by (simp add: ws_fleet_def)
    then show "ws_pod_ok sj (ww_tr (ws_settle J now W)) (length (ww_socks (ws_settle J now W))) (ws_ids ! i)
        (ww_pods (ws_settle J now W) ! i)"
      using pods [OF i] id [OF i] by (simp add: ws_pod_ok_def Let_def pod_id_def) (simp add: ws_settle_def ws_put_fleet_def)
    show "s_seq (ep_routing (pd_ep (ww_pods (ws_settle J now W) ! i))) = q i"
      using pods [OF i] id [OF i] assms(1) i by (simp add: pod_id_def ws_parts_def)
  qed
  show "ws_fleet (ws_settle J now W) = ?G"
    using len membus.running_settle(5) [OF assms(2), of now]
    by (cases ?G) (auto simp: ws_fleet_def ws_settle_def ws_put_fleet_def intro!: nth_equalityI)
  show "i < 2 \<Longrightarrow> pd_conns (ww_pods (ws_settle J now W) ! i) = pd_conns (ww_pods W ! i)" using pods by simp
qed

text \<open>A write of the routing store of pod \<open>i\<close>, together with a change of its connections.\<close>

lemma ws_write_parts:
  fixes W :: ws_world and conns :: "string \<rightharpoonup> nat" and socks :: "fakeWS list"
  assumes ok: "ws_parts sj q W" "routes_run J rc (ws_fleet W)" and i: "i < 2"
    and w: "fleet_write memory_transport J now i w (ws_fleet W) = (None, F1)"
    and conns: "\<forall>u c. conns u = Some c \<longrightarrow> c < length socks" "length (ww_socks W) \<le> length socks"
  defines "W1 \<equiv> W\<lparr>ww_pods := (ww_pods W)[i := (ww_pods W ! i)\<lparr>pd_ep := (pd_ep (ww_pods W ! i))
      \<lparr>ep_handlers := ws_table sj conns, ep_routing := fl_pods F1 ! i\<rparr>, pd_conns := conns\<rparr>], ww_socks := socks, ww_tr := fl_tr F1\<rparr>"
  shows "ws_parts sj (q(i := q i + 1)) W1 \<and> ws_fleet W1 = F1"
proof
  have len: "length (ww_pods W) = 2" "length (fl_pods (ws_fleet W)) = 2" using ok(1) by (simp_all add: ws_parts_def ws_fleet_def)
  have fr: "fl_chans F1 = ww_chans W" "length (fl_pods F1) = 2" "\<forall>j. j \<noteq> i \<longrightarrow> fl_pods F1 ! j = fl_pods (ws_fleet W) ! j"
    using fleet_write_frame [OF w] len by (auto simp: ws_fleet_def)
  show "ws_fleet W1 = F1"
    using fr len i by (cases F1) (auto simp: W1_def ws_fleet_def nth_list_update intro!: nth_equalityI)
  have topic: "s_topic (fl_pods (ws_fleet W) ! i) = ''callreply:routing''" using running_pod(4) [OF ok(2)] i len by simp
  have o: "others_same mem_up m_subs mem_queue (set (m_subs (ww_tr W) ''callreply:routing'')) (ww_tr W) (fl_tr F1)"
    using membus.write_others [OF _ w] running_bus(1) [OF ok(2)] topic by (simp add: ws_fleet_def)
  have id: "s_nodeID (fl_pods F1 ! i) = s_nodeID (ep_routing (pd_ep (ww_pods W ! i)))"
      "s_closed (fl_pods F1 ! i) = s_closed (ep_routing (pd_ep (ww_pods W ! i)))"
      "s_seq (fl_pods F1 ! i) = s_seq (ep_routing (pd_ep (ww_pods W ! i))) + 1"
    using arg_cong [OF fleet_write_pod_id [OF w], of "\<lambda>xs. xs ! i"] i len fr(2)
    by (simp_all add: ws_fleet_def pod_id_def)
  show "ws_parts sj (q(i := q i + 1)) W1"
    unfolding ws_parts_def
  proof (intro conjI allI impI)
    show "length (ww_pods W1) = 2" using len by (simp add: W1_def)
    fix j :: nat assume j: "j < 2"
    have "ws_pod_ok sj (ww_tr W) (length (ww_socks W)) (ws_ids ! j) (ww_pods W ! j)" using ok(1) j by (simp add: ws_parts_def)
    from ws_pod_ok_mono [OF ws_pod_ok_others [OF this _ o] conns(2)] running_bus(1) [OF ok(2)]
    have "ws_pod_ok sj (fl_tr F1) (length socks) (ws_ids ! j) (ww_pods W ! j)" by (simp add: ws_fleet_def)
    then show "ws_pod_ok sj (ww_tr W1) (length (ww_socks W1)) (ws_ids ! j) (ww_pods W1 ! j)"
      using id conns(1) len j by (cases "j = i") (simp_all add: W1_def ws_pod_ok_def Let_def)
    show "s_seq (ep_routing (pd_ep (ww_pods W1 ! j))) = (q(i := q i + 1)) j"
      using id len i j ok(1) by (cases "j = i") (simp_all add: W1_def ws_parts_def)
  qed
qed

lemma ws_connects:
  assumes ok: "ws_parts sj q W" "routes_run J rc (ws_fleet W)" and i: "i < 2" and new: "pd_conns (ww_pods W ! i) u = None"
    and w: "fleet_write memory_transport J now i (PodSet (ws_target u) \<lparr>rt_PodID = ws_ids ! i, rt_UpdatedAt = at\<rparr>) (ws_fleet W) = (None, F1)"
  shows "\<exists>W1. ws_userConnects sj J at now i u W = (None, W1) \<and> ws_parts sj (q(i := q i + 1)) W1 \<and> ws_fleet W1 = F1 \<and>
    ww_socks W1 = ww_socks W @ [\<lparr>fw_user = u, fw_sent = []\<rparr>] \<and> ww_out W1 = ww_out W \<and>
    pd_conns (ww_pods W1 ! i) = (pd_conns (ww_pods W ! i))(u \<mapsto> length (ww_socks W)) \<and>
    (\<forall>j. j \<noteq> i \<longrightarrow> pd_conns (ww_pods W1 ! j) = pd_conns (ww_pods W ! j))"
proof -
  let ?p = "ww_pods W ! i" and ?c = "(pd_conns (ww_pods W ! i))(u \<mapsto> length (ww_socks W))"
  let ?socks = "ww_socks W @ [\<lparr>fw_user = u, fw_sent = []\<rparr>]"
  let ?W1 = "W\<lparr>ww_pods := (ww_pods W)[i := ?p\<lparr>pd_ep := (pd_ep ?p)
      \<lparr>ep_handlers := ws_table sj ?c, ep_routing := fl_pods F1 ! i\<rparr>, pd_conns := ?c\<rparr>], ww_socks := ?socks, ww_tr := fl_tr F1\<rparr>"
  have p: "ws_pod_ok sj (ww_tr W) (length (ww_socks W)) (ws_ids ! i) ?p" and len: "length (ww_pods W) = 2"
    using ok(1) i by (simp_all add: ws_parts_def)
  then have h: "ep_handlers (pd_ep ?p) = ws_table sj (pd_conns ?p)" "ep_selfID (pd_ep ?p) = ws_ids ! i"
    by (simp_all add: ws_pod_ok_def Let_def)
  have none: "ep_handlers (bind_conns sj ?c (pd_ep ?p)) (ws_target u) = None"
    using new by (simp add: bind_table [OF h(1)])
  have W1: "ws_parts sj (q(i := q i + 1)) ?W1 \<and> ws_fleet ?W1 = F1"
    using p by (intro ws_write_parts [OF ok i w]) (auto simp: ws_pod_ok_def Let_def less_SucI)
  have "ws_userConnects sj J at now i u W = (None, ?W1)"
    using Register_fleet [OF _ _ none, of "''Send''" "ws_fleet W" i memory_transport J now at None F1 "ws_handler sj ?c u"]
      w h len i ws_table_connect [OF h(1), of u "length (ww_socks W)"]
    by (simp add: ws_userConnects_def Let_def ws_fleet_def del: fun_upd_apply)
  with W1 len i show ?thesis by (intro exI [of _ ?W1]) simp
qed

lemma ws_disconnects:
  assumes ok: "ws_parts sj q W" "routes_run J rc (ws_fleet W)" and i: "i < 2"
    and w: "fleet_write memory_transport J now i (PodDelete (ws_target u)) (ws_fleet W) = (None, F1)"
  shows "\<exists>W1. ws_userDisconnects sj J now i u W = W1 \<and> ws_parts sj (q(i := q i + 1)) W1 \<and> ws_fleet W1 = F1 \<and>
    ww_socks W1 = ww_socks W \<and> ww_out W1 = ww_out W \<and>
    pd_conns (ww_pods W1 ! i) = (pd_conns (ww_pods W ! i))(u := None) \<and>
    (\<forall>j. j \<noteq> i \<longrightarrow> pd_conns (ww_pods W1 ! j) = pd_conns (ww_pods W ! j))"
proof -
  let ?p = "ww_pods W ! i" and ?c = "(pd_conns (ww_pods W ! i))(u := None)"
  let ?W1 = "W\<lparr>ww_pods := (ww_pods W)[i := ?p\<lparr>pd_ep := (pd_ep ?p)
      \<lparr>ep_handlers := ws_table sj ?c, ep_routing := fl_pods F1 ! i\<rparr>, pd_conns := ?c\<rparr>], ww_socks := ww_socks W, ww_tr := fl_tr F1\<rparr>"
  have p: "ws_pod_ok sj (ww_tr W) (length (ww_socks W)) (ws_ids ! i) ?p" and len: "length (ww_pods W) = 2"
    using ok(1) i by (simp_all add: ws_parts_def)
  then have h: "ep_handlers (pd_ep ?p) = ws_table sj (pd_conns ?p)" by (simp add: ws_pod_ok_def Let_def)
  have W1: "ws_parts sj (q(i := q i + 1)) ?W1 \<and> ws_fleet ?W1 = F1"
    using p by (intro ws_write_parts [OF ok i w]) (auto simp: ws_pod_ok_def Let_def)
  have "ws_userDisconnects sj J now i u W = ?W1"
    using Unregister_fleet [of "bind_conns sj ?c (pd_ep ?p)" "ws_fleet W" i memory_transport J now "ws_target u" None F1]
      w len i ws_table_disconnect [OF h, of u]
    by (simp add: ws_userDisconnects_def Let_def ws_fleet_def del: fun_upd_apply)
  with W1 len i show ?thesis by (intro exI [of _ ?W1]) simp
qed

subsection \<open>Pushing a message\<close>

text \<open>An endpoint and a broker after a call: nothing that concerns the next one has changed.\<close>

definition ep_rest :: "Endpoint \<Rightarrow> _" where
  "ep_rest e = (ep_selfID e, ep_inboxPrefix e, ep_inbox e, ep_timeout e, ep_sem e, ep_semCap e, ep_handlers e, ep_closed e, ep_sub e)"

lemma ws_ok_call:
  assumes ok: "ws_ok sj J rc d q W" and i: "i < 2" and e': "ep_rest e' = ep_rest (pd_ep (ww_pods W ! i))"
      "same_pod (ep_routing (pd_ep (ww_pods W ! i))) (ep_routing e')"
    and t': "mem_up t'" "m_subs t' = m_subs (ww_tr W)" "mem_queue t' = mem_queue (ww_tr W)"
    and socks: "length socks = length (ww_socks W)"
  shows "ws_ok sj J rc d q (W\<lparr>ww_pods := (ww_pods W)[i := (ww_pods W ! i)\<lparr>pd_ep := e'\<rparr>], ww_tr := t', ww_socks := socks, ww_out := out\<rparr>)"
    (is "ws_ok sj J rc d q ?W")
proof -
  let ?F = "ws_fleet W"
  have len: "length (ww_pods W) = 2" "length (fl_pods ?F) = 2" and calm: "routes_calm J rc d ?F"
    using ok by (simp_all add: ws_ok_def ws_parts_def ws_fleet_def)
  have sp: "same_pod (fl_pods ?F ! i) (ep_routing e')" using e'(2) i len by (simp add: ws_fleet_def)
  have q: "mem_queue t' c = mem_queue (ww_tr W) c" for c using fun_cong [OF t'(3), of c] .
  have "routes_calm J rc d ((fleet_local i (ep_routing e') ?F)\<lparr>fl_tr := t'\<rparr>)"
    using calm_local [OF calm _ sp] i len t' q by (intro calm_tr) (simp_all add: fleet_local_def ws_fleet_def)
  moreover have "ws_fleet ?W = (fleet_local i (ep_routing e') ?F)\<lparr>fl_tr := t'\<rparr>"
    by (simp add: ws_fleet_def fleet_local_def map_update)
  moreover have "ws_pod_ok sj t' (length socks) (ws_ids ! j) (ww_pods ?W ! j)" if j: "j < 2" for j
  proof -
    have "ws_pod_ok sj (ww_tr W) (length (ww_socks W)) (ws_ids ! j) (ww_pods W ! j)"
      using ok j by (simp add: ws_ok_def ws_parts_def)
    then show ?thesis
      using e' t'(2) q socks len i by (cases "j = i") (simp_all add: ws_pod_ok_def Let_def ep_rest_def same_pod_def pod_id_def)
  qed
  moreover have "s_seq (ep_routing (pd_ep (ww_pods ?W ! j))) = q j" if "j < 2" for j
    using ok e'(2) that len i by (cases "j = i") (simp_all add: ws_ok_def ws_parts_def same_pod_def pod_id_def)
  ultimately show ?thesis using len by (simp add: ws_ok_def ws_parts_def)
qed

lemma ws_okD:
  assumes "ws_ok sj J rc d q W"
  shows "length (ww_pods W) = 2" "mem_up (ww_tr W)"
    "i < 2 \<Longrightarrow> ws_pod_ok sj (ww_tr W) (length (ww_socks W)) (ws_ids ! i) (ww_pods W ! i)"
    "i < 2 \<Longrightarrow> s_data (ep_routing (pd_ep (ww_pods W ! i))) = d"
proof -
  show len: "length (ww_pods W) = 2" using assms by (simp add: ws_ok_def ws_parts_def)
  have "routes_run J rc (ws_fleet W)" using assms by (simp add: ws_ok_def calm_def)
  from running_bus(1) [OF this] show "mem_up (ww_tr W)" by (simp add: ws_fleet_def)
  show "i < 2 \<Longrightarrow> ws_pod_ok sj (ww_tr W) (length (ww_socks W)) (ws_ids ! i) (ww_pods W ! i)"
    using assms by (simp add: ws_ok_def ws_parts_def)
  show "i < 2 \<Longrightarrow> s_data (ep_routing (pd_ep (ww_pods W ! i))) = d"
    using assms len by (simp add: ws_ok_def calm_def ws_fleet_def)
qed

lemma ws_route:
  assumes ok: "ws_ok sj J rc d q W" and i: "i < 2" and r: "d (ws_target u) = Some r" "\<not> e_Tombstone r"
  defines "e \<equiv> pd_ep (ww_pods W ! i)"
  shows "Call_route now \<lparr>ctx_deadline = None\<rparr> (ws_target u) e =
    (if rt_PodID (e_Value r) = ws_ids ! i then Here (with_timeout now 2000000000)
     else There (rt_PodID (e_Value r)) (with_timeout now 2000000000),
     e\<lparr>ep_routing := snd (Get (ws_target u) (ep_routing e))\<rparr>)"
proof -
  note f = ws_okD(3,4) [OF ok i]
  then show ?thesis
    using r by (simp add: Call_route_def Endpoint_isClosed_def Get_def Let_def ws_pod_ok_def e_def word_sless_alt)
qed

lemma ws_no_route:
  assumes ok: "ws_ok sj J rc d q W" and i: "i < 2" and r: "\<forall>r. d (ws_target u) = Some r \<longrightarrow> e_Tombstone r"
  shows "\<exists>W'. ws_SendTo sj EJ now now' rnd i u msg W =
      Some (Some (CrQuoted ''callreply: no route for'' (ws_target u)), W') \<and> ws_ok sj J rc d q W' \<and>
    ww_socks W' = ww_socks W \<and> ww_out W' = ww_out W \<and> length (ww_pods W') = 2"
proof -
  let ?e = "pd_ep (ww_pods W ! i)"
  let ?e1 = "?e\<lparr>ep_routing := snd (Get (ws_target u) (ep_routing ?e))\<rparr>"
  note len = ws_okD(1) [OF ok] and p = ws_okD(3,4) [OF ok i]
  from p have "Call_route now \<lparr>ctx_deadline = None\<rparr> (ws_target u) ?e =
      (Failed (CrQuoted ''callreply: no route for'' (ws_target u)), ?e1)"
    using r by (cases "d (ws_target u)")
      (simp_all add: Call_route_def Endpoint_isClosed_def Get_def Let_def ws_pod_ok_def)
  then have "ws_SendTo sj EJ now now' rnd i u msg W =
      Some (Some (CrQuoted ''callreply: no route for'' (ws_target u)), put_ep i ?e1 W)"
    by (simp add: ws_SendTo_def Let_def)
  moreover have "ws_ok sj J rc d q (put_ep i ?e1 W)"
    using ws_okD(2) [OF ok] ws_ok_call [OF ok i, of ?e1 "ww_tr W" "ww_socks W" "ww_out W"]
    by (simp add: put_ep_def ep_rest_def Get_same_pod)
  ultimately show ?thesis using len by (simp add: put_ep_def)
qed

text \<open>A reply that arrives changes nothing of the endpoint but its tables of waiting calls.\<close>

lemma reply_returned:
  assumes "unmarshalEnv EJ raw = Inr r" "en_Type r = typeReply" "ep_pending e (en_ID r) = Some ch" "ep_chans e ch = None"
  shows "\<exists>e'. Call_return GotReply (en_ID r) ch (snd (handleInbound EJ raw e)) = Some (reply_result r, e') \<and>
    ep_rest e' = ep_rest e \<and> ep_routing e' = ep_routing e"
  using assms
  by (simp add: handleInbound_def deliverReply_def deliver_lookup_def deliver_send_def Call_return_def Call_select_def
      Let_def drop_pending_def reply_result_def ep_rest_def)

text \<open>The round of one envelope: the owner takes and answers it, the caller has the answer.\<close>

lemma inbox_trip:
  assumes EJ: "env_roundtrip EJ" and t: "mem_up t" and raw: "unmarshalEnv EJ raw = Inr c" "en_Type c = typeCall"
    and c: "en_Reply c \<noteq> ''''" and r: "env_utf8 (answer now c A)"
    and a: "m_subs t topic = [a]" "mem_queue t a = []" and b: "m_subs t (en_Reply c) = [b]" "mem_queue t b = []"
  obtains t1 t2 t3 t4 raw' where "tr_Publish memory_transport topic raw t = (None, t1)"
    "mem_recv a t1 = (Some raw, t2)" "owner_serves memory_transport EJ mem_recv now a A t1 = (A, t3)"
    "mem_recv b t3 = (Some raw', t4)" "unmarshalEnv EJ raw' = Inr (answer now c A)"
    "mem_up t4" "m_subs t4 = m_subs t" "mem_queue t4 = mem_queue t"
proof -
  obtain raw' where raw': "marshalEnv EJ (answer now c A) = Inr raw'" "unmarshalEnv EJ raw' = Inr (answer now c A)"
    using env_roundtripE [OF EJ r] by blast
  obtain t1 t2 where t1: "tr_Publish memory_transport topic raw t = (None, t1)" "mem_recv a t1 = (Some raw, t2)"
      "mem_up t2" "m_subs t2 = m_subs t" "mem_queue t2 = mem_queue t"
    using membus.post_box [OF t a, of raw] by blast
  have b2: "m_subs t2 (en_Reply c) = [b]" "mem_queue t2 b = []" using b t1(4) fun_cong [OF t1(5), of b] by simp_all
  obtain t3 t4 where t3: "tr_Publish memory_transport (en_Reply c) raw' t2 = (None, t3)" "mem_recv b t3 = (Some raw', t4)"
      "mem_up t4" "m_subs t4 = m_subs t2" "mem_queue t4 = mem_queue t2"
    using membus.post_box [OF t1(3) b2, of raw'] by blast
  have "owner_serves memory_transport EJ mem_recv now a A t1 = (A, t3)"
    using t1(2) raw c raw'(1) t3(1) by (simp add: owner_serves_def handleInbound_def serveCall_answer sendReply_def)
  with that t1 t3 raw'(2) show ?thesis by simp
qed

lemma ws_runs_call:
  assumes "mem_recv (ep_sub (pd_ep p)) t = (Some raw, t')" "unmarshalEnv EJ raw = Inr c" "en_Type c = typeCall"
    and "en_Target c = ws_target u" "en_Method c = ''Send''" "ep_sem (pd_ep p) < ep_semCap (pd_ep p)"
    and "ep_handlers (pd_ep p) = ws_table sj (pd_conns p)"
  shows "ws_runs sj EJ now p t =
    (if pd_conns p u = None then None else snd (ws_handle sj (pd_conns p) u (en_Args c)))"
  using assms ws_find_handler [OF assms(7), of u]
  by (simp add: ws_runs_def handleInbound_def serve_start_def sem_acquire_def)

text \<open>The strings the program encodes decode to themselves.\<close>

definition str_roundtrip :: "StrJson \<Rightarrow> bool" where
  "str_roundtrip sj \<longleftrightarrow> (\<forall>s. valid_utf8 s \<longrightarrow> (\<exists>b. marshalStr sj s = Inr b \<and> unmarshalStr sj b = Inr s))"

text \<open>The route leads to the other pod: what the caller gets, and what the owner's closure sent.\<close>

definition ws_result :: "StrJson \<Rightarrow> (string \<rightharpoonup> nat) \<Rightarrow> string \<Rightarrow> bytes \<Rightarrow> (string + bytes) \<times> (nat \<times> string) option" where
  "ws_result sj conns u args =
    (if conns u = None then (Inl (text_no_handler (ws_target u) ''Send''), None) else ws_handle sj conns u args)"

lemma ws_deliver_frame [simp]:
  "ww_pods (ws_deliver sent W) = ww_pods W" "ww_tr (ws_deliver sent W) = ww_tr W"
  "length (ww_socks (ws_deliver sent W)) = length (ww_socks W)"
  by (simp_all add: ws_deliver_def split: option.split prod.split)

lemma ws_deliver_update: "W\<lparr>ww_pods := ps, ww_tr := t, ww_socks := ww_socks (ws_deliver sent W),
    ww_out := ww_out (ws_deliver sent W)\<rparr> = (ws_deliver sent W)\<lparr>ww_pods := ps, ww_tr := t\<rparr>"
  by (simp add: ws_deliver_def split: option.split prod.split)

lemma ws_serve_elsewhere:
  assumes "j \<noteq> i" "owner_serves memory_transport EJ mem_recv now (ep_sub (pd_ep (ww_pods W ! j))) (pd_ep (ww_pods W ! j)) t1 =
      (pd_ep (ww_pods W ! j), t3)" "ws_runs sj EJ now (ww_pods W ! j) t1 = sent"
  shows "ws_serve sj EJ now j (put_ep i e (W\<lparr>ww_tr := t1\<rparr>)) = ws_deliver sent (put_ep i e (W\<lparr>ww_tr := t3\<rparr>))"
proof -
  have "(xs[i := a])[j := xs ! j] = xs[i := a]" for xs :: "ws_pod list" and a
    using assms(1) by (metis list_update_id nth_list_update_neq)
  with assms show ?thesis by (simp add: ws_serve_def put_ep_def Let_def)
qed

lemma ws_push_away:
  assumes ok: "ws_ok sj J rc d q W" and i: "i < 2" and EJ: "env_roundtrip EJ" and u: "valid_utf8 u"
    and r: "d (ws_target u) = Some r" "\<not> e_Tombstone r" "rt_PodID (e_Value r) = ws_ids ! (1 - i)"
    and args: "marshalStr sj msg = Inr args"
    and res: "ws_result sj (pd_conns (ww_pods W ! (1 - i))) u args = (res, sent)" "\<forall>err. res = Inl err \<longrightarrow> valid_utf8 err \<and> err \<noteq> ''''"
  shows "\<exists>W'. ws_SendTo sj EJ now now' rnd i u msg W = Some (call_error (map_sum CrText id res), W') \<and> ws_ok sj J rc d q W' \<and>
    ww_socks W' = ww_socks (ws_deliver sent W) \<and> ww_out W' = ww_out (ws_deliver sent W) \<and>
    (\<forall>j. pd_conns (ww_pods W' ! j) = pd_conns (ww_pods W ! j))"
proof -
  let ?j = "1 - i" let ?p = "ww_pods W ! i" and ?q = "ww_pods W ! (1 - i)"
  let ?e = "pd_ep ?p" and ?A = "pd_ep ?q" and ?t = "ww_tr W" and ?ctx = "with_timeout now 2000000000"
  let ?e1 = "?e\<lparr>ep_routing := snd (Get (ws_target u) (ep_routing ?e))\<rparr>" and ?i = "hex_EncodeToString (take 12 rnd)"
  let ?c = "call_envelope ?i ?ctx (ws_target u) ''Send'' args ?e1"
  let ?e2 = "?e1\<lparr>ep_nextch := Suc (ep_nextch ?e), ep_chans := (ep_chans ?e)(ep_nextch ?e := None),
      ep_pending := (ep_pending ?e)(?i \<mapsto> ep_nextch ?e)\<rparr>"
  have ij: "?j < 2" "?j \<noteq> i" using i by presburger+
  note len = ws_okD(1) [OF ok] and t = ws_okD(2) [OF ok] and p = ws_okD(3) [OF ok i] and q = ws_okD(3) [OF ok ij(1)]
  have ids: "ws_ids ! ?j \<noteq> ws_ids ! i" using i ij by (auto simp: ws_ids_def less_2_cases_iff)
  have route: "Call_route now \<lparr>ctx_deadline = None\<rparr> (ws_target u) ?e = (There (ws_ids ! ?j) ?ctx, ?e1)"
    using ws_route [OF ok i r(1,2), of now] r(3) ids by simp
  have utf8: "valid_utf8 (ws_target u)" "valid_utf8 ''Send''" "valid_utf8 (ws_inbox (ws_ids ! i))"
    using u i by (auto simp: ws_target_def ws_inbox_def ws_ids_def valid_utf8_def of_char_def less_2_cases_iff)
  have uc: "env_utf8 ?c" using utf8 hex_utf8 p by (simp add: env_utf8_def ws_pod_ok_def Let_def)
  obtain raw where raw: "marshalEnv EJ ?c = Inr raw" "unmarshalEnv EJ raw = Inr ?c" using env_roundtripE [OF EJ uc] by blast
  have h: "ep_handlers ?A = ws_table sj (pd_conns ?q)" "ep_sem ?A < ep_semCap ?A" using q by (simp_all add: ws_pod_ok_def Let_def)
  have ans: "answer now' ?c ?A = serve_reply ?c res"
    using h(2) ws_find_handler [OF h(1), of u] res(1)
    by (auto simp: answer_def ws_result_def serve_reply_def ws_handler_def)
  have ua: "env_utf8 (answer now' ?c ?A)"
    unfolding ans using uc res(2) by (cases res) (simp_all add: serve_reply_def reply_to_def env_utf8_def no_envelope_def)
  have reply: "en_Reply ?c = ws_inbox (ws_ids ! i)" "ws_inbox (ws_ids ! i) \<noteq> ''''" using p by (simp_all add: ws_pod_ok_def Let_def ws_inbox_def)
  obtain t1 t2 t3 t4 raw' where trip: "tr_Publish memory_transport (ws_inbox (ws_ids ! ?j)) raw ?t = (None, t1)"
      "mem_recv (ep_sub ?A) t1 = (Some raw, t2)" "owner_serves memory_transport EJ mem_recv now' (ep_sub ?A) ?A t1 = (?A, t3)"
      "mem_recv (ep_sub ?e) t3 = (Some raw', t4)" "unmarshalEnv EJ raw' = Inr (answer now' ?c ?A)"
      "mem_up t4" "m_subs t4 = m_subs ?t" "mem_queue t4 = mem_queue ?t"
    by (rule inbox_trip [OF EJ t raw(2), of now' ?A "ws_inbox (ws_ids ! ?j)" "ep_sub ?A" "ep_sub ?e"])
       (use p q reply ua in \<open>simp_all add: ws_pod_ok_def Let_def\<close>)
  have send: "Call_send memory_transport EJ (Inr rnd) ?ctx (ws_ids ! ?j) (ws_target u) ''Send'' args ?e1 ?t =
      (Inr (?i, ep_nextch ?e), ?e2, t1)"
    using trip(1) raw(1) p by (simp add: Call_send_def Call_pend_def randomID_def Let_def ws_pod_ok_def ws_inbox_def)
  have runs: "ws_runs sj EJ now' ?q t1 = sent"
    using ws_runs_call [OF trip(2) raw(2), of u sj now'] h res(1) by (auto simp: ws_result_def split: if_splits)
  obtain e4 where e4: "Call_return GotReply ?i (ep_nextch ?e) (snd (handleInbound EJ raw' ?e2)) = Some (reply_result (answer now' ?c ?A), e4)"
      "ep_rest e4 = ep_rest ?e2" "ep_routing e4 = ep_routing ?e2"
    using reply_returned [OF trip(5), of ?e2 "ep_nextch ?e"] answer_own [of now' ?c ?A] by auto
  have rr: "call_error (reply_result (answer now' ?c ?A)) = call_error (map_sum CrText id res)"
    unfolding ans using res(2) by (cases res) (simp_all add: reply_result_def serve_reply_def reply_to_def no_envelope_def call_error_def)
  let ?W1 = "ws_serve sj EJ now' ?j (put_ep i ?e2 (W\<lparr>ww_tr := t1\<rparr>))"
  have W1: "?W1 = ws_deliver sent (put_ep i ?e2 (W\<lparr>ww_tr := t3\<rparr>))"
    by (rule ws_serve_elsewhere [OF ij(2) trip(3) runs])
  let ?W' = "put_ep i e4 (?W1\<lparr>ww_tr := t4\<rparr>)"
  have "ws_SendTo sj EJ now now' rnd i u msg W = Some (call_error (map_sum CrText id res), ?W')"
    using route send trip(4) e4(1) rr args W1 by (simp add: ws_SendTo_def Let_def caller_receives_def put_ep_def)
  moreover have eq: "?W' = W\<lparr>ww_pods := (ww_pods W)[i := ?p\<lparr>pd_ep := e4\<rparr>], ww_tr := t4,
      ww_socks := ww_socks (ws_deliver sent W), ww_out := ww_out (ws_deliver sent W)\<rparr>"
    unfolding W1 using i len by (simp add: put_ep_def ws_deliver_def split: option.split prod.split)
  moreover have "ws_ok sj J rc d q ?W'"
    unfolding eq using e4(2,3) trip(6-8) by (intro ws_ok_call [OF ok i]) (simp_all add: ep_rest_def Get_same_pod)
  ultimately show ?thesis using i len by (auto simp: nth_list_update)
qed

lemma ws_push_here:
  assumes ok: "ws_ok sj J rc d q W" and i: "i < 2"
    and r: "d (ws_target u) = Some r" "\<not> e_Tombstone r" "rt_PodID (e_Value r) = ws_ids ! i"
    and args: "marshalStr sj msg = Inr args"
    and res: "pd_conns (ww_pods W ! i) u = Some c" "ws_handle sj (pd_conns (ww_pods W ! i)) u args = (res, sent)"
  shows "\<exists>W'. ws_SendTo sj EJ now now' rnd i u msg W = Some (call_error (map_sum CrText id res), W') \<and> ws_ok sj J rc d q W' \<and>
    ww_socks W' = ww_socks (ws_deliver sent W) \<and> ww_out W' = ww_out (ws_deliver sent W) \<and>
    (\<forall>j. pd_conns (ww_pods W' ! j) = pd_conns (ww_pods W ! j))"
proof -
  let ?p = "ww_pods W ! i"
  let ?e = "pd_ep ?p" and ?ctx = "with_timeout now 2000000000"
  let ?e1 = "?e\<lparr>ep_routing := snd (Get (ws_target u) (ep_routing ?e))\<rparr>"
  note len = ws_okD(1) [OF ok] and t = ws_okD(2) [OF ok] and p = ws_okD(3) [OF ok i]
  have route: "Call_route now \<lparr>ctx_deadline = None\<rparr> (ws_target u) ?e = (Here ?ctx, ?e1)"
    using ws_route [OF ok i r(1,2), of now] r(3) by simp
  have h: "ep_handlers ?e1 = ws_table sj (pd_conns ?p)" "ep_sem ?e1 = 0" "0 < ep_semCap ?e1"
    using p by (simp_all add: ws_pod_ok_def Let_def)
  have start: "local_start (ws_target u) ''Send'' ?e1 = (Inr (ws_handler sj (pd_conns ?p) u), ?e1\<lparr>ep_sem := 1\<rparr>)"
    using ws_find_handler [OF h(1), of u] h(2,3) res(1) by (simp add: local_start_def sem_acquire_def)
  have "?e1\<lparr>ep_sem := 0\<rparr> = ?e1" using h(2) by (cases ?e) simp
  then have local: "callLocal ?ctx (ws_target u) ''Send'' args ?e1 = (map_sum CrText id res, ?e1)"
    using start res(2) by (simp add: callLocal_def sem_release_def ws_handler_def)
  let ?W' = "ws_deliver sent (put_ep i ?e1 W)"
  have "ws_SendTo sj EJ now now' rnd i u msg W = Some (call_error (map_sum CrText id res), ?W')"
    using route start local args res(2) by (simp add: ws_SendTo_def Let_def)
  moreover have eq: "?W' = W\<lparr>ww_pods := (ww_pods W)[i := ?p\<lparr>pd_ep := ?e1\<rparr>], ww_tr := ww_tr W,
      ww_socks := ww_socks (ws_deliver sent W), ww_out := ww_out (ws_deliver sent W)\<rparr>"
    by (simp add: put_ep_def ws_deliver_def split: option.split prod.split)
  moreover have "ws_ok sj J rc d q ?W'"
    unfolding eq using t by (intro ws_ok_call [OF ok i]) (simp_all add: ep_rest_def Get_same_pod)
  ultimately show ?thesis using i len by (auto simp: nth_list_update)
qed

lemma ok_utf8: "valid_utf8 ''ok''"
  by (simp add: valid_utf8_def of_char_def)

lemma ws_push:
  assumes ok: "ws_ok sj J rc d q W" and ij: "i < 2" "j < 2" and EJ: "env_roundtrip EJ" and sj: "str_roundtrip sj"
    and utf8: "valid_utf8 u" "valid_utf8 msg"
    and r: "d (ws_target u) = Some r" "\<not> e_Tombstone r" "rt_PodID (e_Value r) = ws_ids ! j"
    and c: "pd_conns (ww_pods W ! j) u = Some c"
  shows "\<exists>W'. ws_SendTo sj EJ now now' rnd i u msg W = Some (None, W') \<and> ws_ok sj J rc d q W' \<and>
    ww_socks W' = (ww_socks W)[c := ws_Send msg (ww_socks W ! c)] \<and>
    ww_out W' = ww_out W @ [WsReceived (fw_user (ww_socks W ! c)) msg] \<and>
    (\<forall>j. pd_conns (ww_pods W' ! j) = pd_conns (ww_pods W ! j))"
proof -
  obtain args b where args: "marshalStr sj msg = Inr args" "unmarshalStr sj args = Inr msg" and b: "marshalStr sj ''ok'' = Inr b"
    using sj utf8(2) ok_utf8 unfolding str_roundtrip_def by blast
  have h: "ws_handle sj (pd_conns (ww_pods W ! j)) u args = (Inr b, Some (c, msg))"
    using args(2) b c by (simp add: ws_handle_def)
  show ?thesis
  proof (cases "j = i")
    case True
    from ws_push_here [OF ok ij(1) r(1,2) _ args(1), of c "Inr b" "Some (c, msg)" EJ now now' rnd] r(3) c h True
    show ?thesis by (simp add: call_error_def ws_deliver_def)
  next
    case False
    with ij have j: "j = 1 - i" by presburger
    have "ws_result sj (pd_conns (ww_pods W ! (1 - i))) u args = (Inr b, Some (c, msg))"
      using h c j by (simp add: ws_result_def)
    from ws_push_away [OF ok ij(1) EJ utf8(1) r(1,2) _ args(1) this, of now now' rnd] r(3) j show ?thesis
      by (simp add: call_error_def ws_deliver_def)
  qed
qed

subsection \<open>The two pods\<close>

text \<open>Another subscription leaves the pods of a new fleet, and the pods made before, as they are.\<close>

lemma subscribe_old:
  assumes "mem_inv t" "\<not> m_closed t"
  shows "mem_inv (snd (mem_Subscribe topic t))" "\<not> m_closed (snd (mem_Subscribe topic t))"
    "fst (mem_Subscribe topic t) = Inr (m_next t)"
    "m_subs (snd (mem_Subscribe topic t)) = (m_subs t)(topic := m_subs t topic @ [m_next t])"
    "m_snapshots (snd (mem_Subscribe topic t)) = m_snapshots t"
    "mem_queue (snd (mem_Subscribe topic t)) (m_next t) = []"
    "c \<in> set (m_subs t topic') \<Longrightarrow> mem_queue (snd (mem_Subscribe topic t)) c = mem_queue t c"
proof -
  have "c < m_next t" if "c \<in> set (m_subs t topic')"
    using that mem_subs_chans [OF assms(1), of topic'] assms(1) by (auto simp: mem_inv_def)
  then show "c \<in> set (m_subs t topic') \<Longrightarrow> mem_queue (snd (mem_Subscribe topic t)) c = mem_queue t c"
    using assms(2) by (simp add: mem_Subscribe_def Let_def)
  show "mem_inv (snd (mem_Subscribe topic t))" by (rule mem_subscribe_inv [OF assms(1)])
qed (use assms(2) in \<open>simp_all add: mem_Subscribe_def Let_def\<close>)

abbreviation (input) routes_start :: "Json \<Rightarrow> Route Codec \<Rightarrow> (Route, MemoryTransport) fleet \<Rightarrow> bool" where
  "routes_start J rc F \<equiv> fleet_start mem_up m_subs mem_queue J rc zero_Route ''callreply:routing'' F"

lemma start_subscribe_other:
  assumes "routes_start J rc F" "topic \<noteq> ''callreply:routing''"
  shows "routes_start J rc (F\<lparr>fl_tr := snd (mem_Subscribe topic (fl_tr F))\<rparr>)"
proof -
  have t: "mem_inv (fl_tr F)" "\<not> m_closed (fl_tr F)" "set (fl_chans F) \<subseteq> set (m_subs (fl_tr F) ''callreply:routing'')"
    using assms(1) by (simp_all add: fleet_start_def)
  note s = subscribe_old [OF t(1,2), where topic = topic]
  from s(7) t(3) have "mem_queue (snd (mem_Subscribe topic (fl_tr F))) c = mem_queue (fl_tr F) c" if "c \<in> set (fl_chans F)" for c
    using that by blast
  with s(1,2,4) assms t(3) show ?thesis by (simp add: fleet_start_def quiet_def)
qed

lemma ws_pod_ok_subscribe:
  assumes "ws_pod_ok sj t n i p" "mem_up t" "topic \<noteq> ws_inbox i"
  shows "ws_pod_ok sj (snd (mem_Subscribe topic t)) n i p"
proof -
  have "ep_sub (pd_ep p) \<in> set (m_subs t (ws_inbox i))" using assms(1) by (simp add: ws_pod_ok_def Let_def)
  then have "mem_queue (snd (mem_Subscribe topic t)) (ep_sub (pd_ep p)) = mem_queue t (ep_sub (pd_ep p))"
    using assms(2) by (intro subscribe_old(7)) simp_all
  with subscribe_old(4) [of t topic] assms show ?thesis by (simp add: ws_pod_ok_def Let_def)
qed

definition ws_store :: "Route Codec \<Rightarrow> string \<Rightarrow> Route store" where
  "ws_store rc i = apply_options [OptNodeID i, OptErrorHandler True] (default_store zero_Route rc ''callreply:routing'')"

lemma ws_store_simps:
  "i \<noteq> '''' \<Longrightarrow> s_nodeID (ws_store rc i) = i" "s_merger (ws_store rc i) = None" "s_codec (ws_store rc i) = rc"
  "s_seq (ws_store rc i) = 0" "s_closed (ws_store rc i) = False"
  by (simp_all add: ws_store_def apply_options_def option_defs default_store_def)

lemma ws_newPod_joins:
  assumes start: "routes_start J rc (ws_fleet W)" and snap: "m_snapshots (ww_tr W) ''callreply:routing'' = None"
    and i: "i \<noteq> ''''" "valid_utf8 i" "\<forall>p \<in> set (ww_pods W). s_nodeID (ep_routing (pd_ep p)) \<noteq> i"
    and free: "m_subs (ww_tr W) (ws_inbox i) = []"
  defines "t \<equiv> snd (mem_Subscribe (ws_inbox i) (snd (mem_Subscribe ''callreply:routing'' (ww_tr W))))"
  shows "\<exists>W' p. ws_newPod rc J rid now ks i W = Inr W' \<and> ww_pods W' = ww_pods W @ [p] \<and> ww_tr W' = t \<and>
    ww_socks W' = ww_socks W \<and> ww_out W' = ww_out W \<and> routes_start J rc (ws_fleet W') \<and>
    m_snapshots (ww_tr W') ''callreply:routing'' = None \<and> ws_pod_ok sj t n i p \<and> pd_conns p = Map.empty \<and>
    s_seq (ep_routing (pd_ep p)) = 0"
proof -
  let ?t1 = "snd (mem_Subscribe ''callreply:routing'' (ww_tr W))"
  obtain F' where F': "fleet_new zero_Route rc J rid ''callreply:routing'' [OptNodeID i, OptErrorHandler True] memory_transport (ws_fleet W) = (None, F')"
      "fl_pods F' = fl_pods (ws_fleet W) @ [ws_store rc i]" "routes_start J rc F'" "m_snapshots (fl_tr F') ''callreply:routing'' = None"
    using fleet_new_joins [OF start, of "[OptNodeID i, OptErrorHandler True]" rid] snap i ws_store_simps(1-3) [where i = i and rc = rc]
    by (auto simp: ws_store_def ws_fleet_def)
  have up: "mem_inv (ww_tr W)" "\<not> m_closed (ww_tr W)" using start by (simp_all add: fleet_start_def ws_fleet_def)
  note s1 = subscribe_old [OF up, where topic = "''callreply:routing''"]
  note s2 = subscribe_old [OF s1(1,2), where topic = "ws_inbox i"]
  have ne: "ws_inbox i \<noteq> ''callreply:routing''" by (simp add: ws_inbox_def)
  have New: "New zero_Route rc J rid ''callreply:routing'' (Some memory_transport) [OptNodeID i, OptErrorHandler True] (ww_tr W) =
      (Inr (ws_store rc i), fl_tr F')" and ch: "fl_chans F' = ww_chans W @ [sub_chan memory_transport ''callreply:routing'' (ww_tr W)]"
    using F'(1,2) by (auto simp: fleet_new_def ws_fleet_def split: prod.splits sum.splits)
  have t1: "fl_tr F' = ?t1"
    using New up snap i(1) ws_store_simps(1) [OF i(1), of rc]
    by (simp add: New_def ws_store_def Let_def memory_transport_def mem_Subscribe_def mem_FetchSnapshot_def split: if_splits)
  let ?e = "\<lparr>ep_selfID = i, ep_inboxPrefix = ''callreply:inbox:'', ep_inbox = ws_inbox i, ep_timeout = 2000000000,
      ep_onError = True, ep_reports = [], ep_sem = 0, ep_semCap = 1024, ep_routing = ws_store rc i,
      ep_handlers = Map.empty, ep_pending = Map.empty, ep_chans = (\<lambda>_. None), ep_nextch = 0, ep_closed = False,
      ep_sub = m_next ?t1\<rparr>"
  let ?p = "\<lparr>pd_id = i, pd_ep = ?e, pd_conns = Map.empty\<rparr>"
  let ?W' = "W\<lparr>ww_pods := ww_pods W @ [?p], ww_chans := fl_chans F', ww_tr := t\<rparr>"
  have "mem_Subscribe (ws_inbox i) ?t1 = (Inr (m_next ?t1), t)" using s2(3) by (simp add: t_def prod_eq_iff)
  then have "ws_newPod rc J rid now ks i W = Inr ?W'"
    using New t1 ch i(1) unfolding ws_newPod_def Endpoint_New_def
    by (simp add: Let_def ws_inbox_def memory_transport_def)
  moreover have "ws_fleet ?W' = F'\<lparr>fl_tr := snd (mem_Subscribe (ws_inbox i) (fl_tr F'))\<rparr>"
    using F'(2) t1 by (cases F') (simp add: ws_fleet_def t_def)
  then have "routes_start J rc (ws_fleet ?W')" using start_subscribe_other [OF F'(3) ne] by simp
  moreover have "ws_table sj Map.empty = Map.empty" by (simp add: ws_table_def fun_eq_iff)
  then have "ws_pod_ok sj t n i ?p"
    using s1(4) s2(4,6) free ne ws_store_simps [where i = i and rc = rc] i(1) by (simp add: ws_pod_ok_def t_def)
  ultimately show ?thesis
    using F'(4) t1 s2(5) ws_store_simps(4) [of rc i] by (intro exI [of _ ?W'] exI [of _ ?p]) (simp add: t_def)
qed

lemma ws_setup:
  assumes "json_msg_roundtrip J" "codec_roundtrip rc"
  shows "\<exists>A W. ws_newPod rc J rid now [] ''pod-A'' ws_start = Inr A \<and> ws_newPod rc J rid now [] ''pod-B'' A = Inr W \<and>
    ws_ok sj J rc Map.empty (\<lambda>_. 0) W \<and> ww_socks W = [] \<and> ww_out W = [] \<and> (\<forall>i < 2. pd_conns (ww_pods W ! i) = Map.empty)"
proof -
  let ?r = "''callreply:routing''" and ?A = "''pod-A''" and ?B = "''pod-B''"
  have u: "valid_utf8 ?A" "valid_utf8 ?B" by (simp_all add: valid_utf8_def of_char_def)
  have ne: "ws_inbox ?A \<noteq> ws_inbox ?B" "ws_inbox ?B \<noteq> ws_inbox ?A" "?r \<noteq> ws_inbox ?A" "?r \<noteq> ws_inbox ?B" by (simp_all add: ws_inbox_def)
  have "ws_fleet ws_start = no_pods (NewMemoryTransport False)" by (simp add: ws_fleet_def ws_start_def no_pods_def)
  then have s0: "routes_start J rc (ws_fleet ws_start)" "m_snapshots (ww_tr ws_start) ?r = None" "ww_pods ws_start = []"
      "m_subs (ww_tr ws_start) = (\<lambda>_. [])" "mem_up (ww_tr ws_start)" "ww_socks ws_start = []" "ww_out ws_start = []"
    using no_pods_start [OF assms, of zero_Route ?r False] mem_new_inv [of False]
    by (simp_all add: ws_start_def no_pods_def NewMemoryTransport_def)
  let ?t1 = "snd (mem_Subscribe (ws_inbox ?A) (snd (mem_Subscribe ?r (ww_tr ws_start))))"
  obtain W1 p1 where W1: "ws_newPod rc J rid now [] ?A ws_start = Inr W1" "ww_pods W1 = [p1]" "ww_tr W1 = ?t1"
      "routes_start J rc (ws_fleet W1)" "m_snapshots (ww_tr W1) ?r = None" "ws_pod_ok sj ?t1 0 ?A p1" "pd_conns p1 = Map.empty"
      "s_seq (ep_routing (pd_ep p1)) = 0" "ww_socks W1 = []" "ww_out W1 = []"
    using ws_newPod_joins [OF s0(1,2) _ u(1), of rid now "[]" sj 0] s0(3,4,6,7) by auto
  have up1: "mem_up ?t1" using W1(3,4) by (simp add: fleet_start_def ws_fleet_def)
  have "mem_up (snd (mem_Subscribe ?r (ww_tr ws_start)))" using subscribe_old(1,2) s0(5) by simp
  then have "m_subs ?t1 (ws_inbox ?B) = []"
    using subscribe_old(4) [of "ww_tr ws_start" ?r] subscribe_old(4) [of "snd (mem_Subscribe ?r (ww_tr ws_start))" "ws_inbox ?A"] s0(4,5) ne
    by simp
  moreover have "\<forall>p \<in> set (ww_pods W1). s_nodeID (ep_routing (pd_ep p)) \<noteq> ?B"
    using W1(2,6) by (simp add: ws_pod_ok_def Let_def)
  ultimately obtain W2 p2 where W2: "ws_newPod rc J rid now [] ?B W1 = Inr W2" "ww_pods W2 = [p1, p2]"
      "ww_tr W2 = snd (mem_Subscribe (ws_inbox ?B) (snd (mem_Subscribe ?r ?t1)))"
      "routes_start J rc (ws_fleet W2)" "ws_pod_ok sj (ww_tr W2) 0 ?B p2" "pd_conns p2 = Map.empty"
      "s_seq (ep_routing (pd_ep p2)) = 0" "ww_socks W2 = []" "ww_out W2 = []"
    using ws_newPod_joins [OF W1(4,5) _ u(2), of rid now "[]" sj 0] W1(2,3,9,10) by auto
  have "mem_up (snd (mem_Subscribe ?r ?t1))" using subscribe_old(1,2) up1 by simp
  then have "ws_pod_ok sj (ww_tr W2) 0 ?A p1"
    unfolding W2(3) by (rule ws_pod_ok_subscribe [OF ws_pod_ok_subscribe [OF W1(6) up1 ne(3)] _ ne(2)])
  with W2 W1(7,8) calm_start [OF W2(4)] have "ws_ok sj J rc Map.empty (\<lambda>_. 0) W2"
    by (auto simp: ws_ok_def ws_parts_def ws_ids_def less_2_cases_iff)
  with W1(1,7) W2(1,2,6,8,9) show ?thesis by (auto simp: less_2_cases_iff)
qed

subsection \<open>The statements of the program\<close>

lemma ws_ask_ok:
  assumes ok: "ws_ok sj J rc d q W" and i: "i < 2" and r: "d (ws_target ''alice'') = Some r" "\<not> e_Tombstone r"
  shows "\<exists>W'. ws_ask i line W = W' \<and> ws_ok sj J rc d q W' \<and> ww_out W' = ww_out W @ [line (rt_PodID (e_Value r))] \<and>
    ww_socks W' = ww_socks W \<and> (\<forall>j. pd_conns (ww_pods W' ! j) = pd_conns (ww_pods W ! j))"
proof -
  let ?e = "pd_ep (ww_pods W ! i)"
  let ?e1 = "?e\<lparr>ep_routing := snd (Get (ws_target ''alice'') (ep_routing ?e))\<rparr>"
  have "Owner (ws_target ''alice'') ?e = ((rt_PodID (e_Value r), True), ?e1)"
    using ws_okD(4) [OF ok i] r by (simp add: Owner_def Get_def Let_def)
  then have eq: "ws_ask i line W = W\<lparr>ww_pods := (ww_pods W)[i := (ww_pods W ! i)\<lparr>pd_ep := ?e1\<rparr>], ww_tr := ww_tr W,
      ww_socks := ww_socks W, ww_out := ww_out W @ [line (rt_PodID (e_Value r))]\<rparr>"
    by (simp add: ws_ask_def put_ep_def)
  moreover have "ws_ok sj J rc d q (ws_ask i line W)"
    unfolding eq using ws_okD(2) [OF ok] by (intro ws_ok_call [OF ok i]) (simp_all add: ep_rest_def Get_same_pod)
  ultimately show ?thesis using i ws_okD(1) [OF ok] by (auto simp: nth_list_update)
qed

text \<open>Messages with time \<open>now\<close> can be encoded.\<close>

abbreviation (input) enc_at :: "Json \<Rightarrow> time \<Rightarrow> bool" where
  "enc_at J now \<equiv> \<forall>m. wm_Timestamp m = now \<longrightarrow> (\<exists>raw. marshalMsg J m = Inr raw)"

lemma ws_ok_fleet:
  assumes "ws_ok sj J rc d q W" "i < 2"
  shows "routes_calm J rc d (ws_fleet W)" "routes_run J rc (ws_fleet W)" "ws_parts sj q W" "i < length (fl_pods (ws_fleet W))"
    "s_seq (fl_pods (ws_fleet W) ! i) = q i" "s_nodeID (fl_pods (ws_fleet W) ! i) = ws_ids ! i" "\<not> s_closed (fl_pods (ws_fleet W) ! i)"
  using assms by (auto simp: ws_ok_def ws_parts_def ws_fleet_def calm_def ws_pod_ok_def Let_def)

lemma ws_settled:
  assumes "ws_parts sj q W" "routes_run J rc (ws_fleet W)" "routes_calm J rc d (settle mem_recv mem_queue J now (ws_fleet W))"
  shows "ws_ok sj J rc d q (ws_settle J now W)"
  using assms ws_settle_parts(1,2) [OF assms(1,2), of now] by (simp add: ws_ok_def)

text \<open>A user connects, and the pods learn of it; a user leaves.\<close>

lemma ws_connect_settle:
  assumes ok: "ws_ok sj J rc d q W" and i: "i < 2" and new: "pd_conns (ww_pods W ! i) u = None" and u: "valid_utf8 (ws_target u)"
    and q: "q i + 1 \<noteq> 0" and enc: "enc_at J now" and p: "Marshal rc \<lparr>rt_PodID = ws_ids ! i, rt_UpdatedAt = at\<rparr> = Inr p"
    and b: "beats (Stamp now (ws_ids ! i) (q i + 1)) (d (ws_target u))"
  shows "\<exists>W1 m. ws_userConnects sj J at now i u W = (None, W1) \<and>
    ws_ok sj J rc (d(ws_target u \<mapsto> msg_entry m \<lparr>rt_PodID = ws_ids ! i, rt_UpdatedAt = at\<rparr>)) (q(i := q i + 1)) (ws_settle J r W1) \<and>
    msg_stamp m = Stamp now (ws_ids ! i) (q i + 1) \<and> wm_Kind m = kindSet \<and>
    ww_socks (ws_settle J r W1) = ww_socks W @ [\<lparr>fw_user = u, fw_sent = []\<rparr>] \<and> ww_out (ws_settle J r W1) = ww_out W \<and>
    (\<forall>j < 2. pd_conns (ww_pods (ws_settle J r W1) ! j) = (if j = i then (pd_conns (ww_pods W ! i))(u \<mapsto> length (ww_socks W)) else pd_conns (ww_pods W ! j)))"
proof -
  let ?F = "ws_fleet W" and ?v = "\<lparr>rt_PodID = ws_ids ! i, rt_UpdatedAt = at\<rparr>"
  let ?m = "stamp_msg kindSet (ws_target u) p now (fl_pods ?F ! i)"
  note f = ws_ok_fleet [OF ok i]
  obtain raw where raw: "marshalMsg J ?m = Inr raw" using enc [rule_format, of ?m] by (auto simp: stamp_msg_def)
  have q': "s_seq (fl_pods ?F ! i) + 1 \<noteq> 0" "beats (Stamp now (s_nodeID (fl_pods ?F ! i)) (s_seq (fl_pods ?F ! i) + 1)) (d (ws_target u))"
    using q b f by simp_all
  obtain F1 where F1: "fleet_write memory_transport J now i (PodSet (ws_target u) ?v) ?F = (None, F1)"
      "routes_calm J rc (d(ws_target u \<mapsto> msg_entry ?m ?v)) (settle mem_recv mem_queue J r F1)"
    using calm_Set [OF f(1,4) q'(1) f(7) u p raw q'(2), of r] by (elim exE conjE) (rule that)
  have r1: "routes_run J rc F1"
    by (rule membus.running_write [OF f(2,4) q'(1) _ membus.quiet_room F1(1)]) (use f(1) u in \<open>simp_all add: calm_def\<close>)
  obtain W1 where W1: "ws_userConnects sj J at now i u W = (None, W1)" "ws_parts sj (q(i := q i + 1)) W1" "ws_fleet W1 = F1"
      "ww_socks W1 = ww_socks W @ [\<lparr>fw_user = u, fw_sent = []\<rparr>]" "ww_out W1 = ww_out W"
      "pd_conns (ww_pods W1 ! i) = (pd_conns (ww_pods W ! i))(u \<mapsto> length (ww_socks W))"
      "\<forall>j. j \<noteq> i \<longrightarrow> pd_conns (ww_pods W1 ! j) = pd_conns (ww_pods W ! j)"
    using ws_connects [OF f(3,2) i new F1(1)] by (elim exE conjE) (rule that)
  have run: "routes_run J rc (ws_fleet W1)" using r1 W1(3) by simp
  have "ws_ok sj J rc (d(ws_target u \<mapsto> msg_entry ?m ?v)) (q(i := q i + 1)) (ws_settle J r W1)"
    by (rule ws_settled [OF W1(2) run]) (use F1(2) W1(3) in simp)
  moreover have "msg_stamp ?m = Stamp now (ws_ids ! i) (q i + 1)" using f by simp
  ultimately show ?thesis
    using W1(1,4-7) ws_settle_parts(3-5) [OF W1(2) run, where now = r] by (intro exI [of _ W1] exI [of _ ?m]) simp
qed

lemma ws_disconnect_settle:
  assumes ok: "ws_ok sj J rc d q W" and i: "i < 2" and u: "valid_utf8 (ws_target u)" and q: "q i + 1 \<noteq> 0" and enc: "enc_at J now"
    and b: "beats (Stamp now (ws_ids ! i) (q i + 1)) (d (ws_target u))"
  shows "\<exists>W1 m. ws_userDisconnects sj J now i u W = W1 \<and>
    ws_ok sj J rc (d(ws_target u \<mapsto> msg_entry m zero_Route)) (q(i := q i + 1)) (ws_settle J r W1) \<and> wm_Kind m = kindDelete \<and>
    ww_socks (ws_settle J r W1) = ww_socks W \<and> ww_out (ws_settle J r W1) = ww_out W"
proof -
  let ?F = "ws_fleet W"
  let ?m = "stamp_msg kindDelete (ws_target u) [] now (fl_pods ?F ! i)"
  note f = ws_ok_fleet [OF ok i]
  obtain raw where raw: "marshalMsg J ?m = Inr raw" using enc [rule_format, of ?m] by (auto simp: stamp_msg_def)
  have q': "s_seq (fl_pods ?F ! i) + 1 \<noteq> 0" "beats (Stamp now (s_nodeID (fl_pods ?F ! i)) (s_seq (fl_pods ?F ! i) + 1)) (d (ws_target u))"
    using q b f by simp_all
  obtain F1 where F1: "fleet_write memory_transport J now i (PodDelete (ws_target u)) ?F = (None, F1)"
      "routes_calm J rc (d(ws_target u \<mapsto> msg_entry ?m zero_Route)) (settle mem_recv mem_queue J r F1)"
    using calm_Delete [OF f(1,4) q'(1) f(7) u raw q'(2), of r] by (elim exE conjE) (rule that)
  have r1: "routes_run J rc F1"
    by (rule membus.running_write [OF f(2,4) q'(1) _ membus.quiet_room F1(1)]) (use f(1) u in \<open>simp_all add: calm_def\<close>)
  obtain W1 where W1: "ws_userDisconnects sj J now i u W = W1" "ws_parts sj (q(i := q i + 1)) W1" "ws_fleet W1 = F1"
      "ww_socks W1 = ww_socks W" "ww_out W1 = ww_out W"
    using ws_disconnects [OF f(3,2) i F1(1)] by (elim exE conjE) (rule that)
  have run: "routes_run J rc (ws_fleet W1)" using r1 W1(3) by simp
  have "ws_ok sj J rc (d(ws_target u \<mapsto> msg_entry ?m zero_Route)) (q(i := q i + 1)) (ws_settle J r W1)"
    by (rule ws_settled [OF W1(2) run]) (use F1(2) W1(3) in simp)
  with W1(1,4,5) ws_settle_parts(3,4) [OF W1(2) run, of r] show ?thesis
    by (intro exI [of _ W1] exI [of _ ?m]) simp
qed

text \<open>A user leaves one pod and connects to the other.\<close>

lemma ws_move:
  fixes r1 r2 :: time and early :: bool
  assumes ok: "ws_ok sj J rc d q W" and i: "i < 2" "j < 2" "i \<noteq> j" and new: "pd_conns (ww_pods W ! j) u = None"
    and u: "valid_utf8 (ws_target u)" and q: "q i + 1 \<noteq> 0" "q j + 1 \<noteq> 0" and enc: "enc_at J now1" "enc_at J now2"
    and p: "Marshal rc \<lparr>rt_PodID = ws_ids ! j, rt_UpdatedAt = at\<rparr> = Inr p"
    and b: "beats (Stamp now1 (ws_ids ! i) (q i + 1)) (d (ws_target u))"
    and later: "Stamp now1 (ws_ids ! i) (q i + 1) < Stamp now2 (ws_ids ! j) (q j + 1)"
  defines "W2 \<equiv> (if early then ws_settle J r1 (ws_userDisconnects sj J now1 i u W) else ws_userDisconnects sj J now1 i u W)"
  shows "\<exists>W3 m. ws_userConnects sj J at now2 j u W2 = (None, W3) \<and>
    ws_ok sj J rc (d(ws_target u \<mapsto> msg_entry m \<lparr>rt_PodID = ws_ids ! j, rt_UpdatedAt = at\<rparr>)) (q(i := q i + 1, j := q j + 1)) (ws_settle J r2 W3) \<and>
    msg_stamp m = Stamp now2 (ws_ids ! j) (q j + 1) \<and> wm_Kind m = kindSet \<and>
    ww_socks (ws_settle J r2 W3) = ww_socks W @ [\<lparr>fw_user = u, fw_sent = []\<rparr>] \<and> ww_out (ws_settle J r2 W3) = ww_out W \<and>
    pd_conns (ww_pods (ws_settle J r2 W3) ! j) u = Some (length (ww_socks W))"
proof -
  let ?F = "ws_fleet W" and ?v = "\<lparr>rt_PodID = ws_ids ! j, rt_UpdatedAt = at\<rparr>"
  let ?m1 = "stamp_msg kindDelete (ws_target u) [] now1 (fl_pods ?F ! i)" and ?m2 = "stamp_msg kindSet (ws_target u) p now2 (fl_pods ?F ! j)"
  note f = ws_ok_fleet [OF ok i(1)] and g = ws_ok_fleet [OF ok i(2)]
  obtain raw1 raw2 where raw: "marshalMsg J ?m1 = Inr raw1" "marshalMsg J ?m2 = Inr raw2"
    using enc(1) [rule_format, of ?m1] enc(2) [rule_format, of ?m2] by (auto simp: stamp_msg_def)
  have q': "s_seq (fl_pods ?F ! i) + 1 \<noteq> 0" "s_seq (fl_pods ?F ! j) + 1 \<noteq> 0"
      "beats (Stamp now1 (s_nodeID (fl_pods ?F ! i)) (s_seq (fl_pods ?F ! i) + 1)) (d (ws_target u))"
      "Stamp now1 (s_nodeID (fl_pods ?F ! i)) (s_seq (fl_pods ?F ! i) + 1) < Stamp now2 (s_nodeID (fl_pods ?F ! j)) (s_seq (fl_pods ?F ! j) + 1)"
    using q b later f g by simp_all
  obtain F1 where F1: "fleet_write memory_transport J now1 i (PodDelete (ws_target u)) ?F = (None, F1)"
      "routes_calm J rc (d(ws_target u \<mapsto> msg_entry ?m1 zero_Route)) (settle mem_recv mem_queue J r1 F1)"
    using calm_Delete [OF f(1,4) q'(1) f(7) u raw(1) q'(3), of r1] by (elim exE conjE) (rule that)
  let ?G = "if early then settle mem_recv mem_queue J r1 F1 else F1"
  have "\<exists>F2. fleet_write memory_transport J now2 j (PodSet (ws_target u) ?v) ?G = (None, F2) \<and> routes_run J rc F2 \<and>
      routes_calm J rc (d(ws_target u \<mapsto> msg_entry ?m2 ?v)) (settle mem_recv mem_queue J r2 F2)"
  proof (cases early)
    case True
    show ?thesis unfolding if_P [OF True]
      by (rule handover_early [OF f(1,4) g(4) i(3) q'(2) g(7) u p raw(2) q'(4) F1])
  next
    case False
    show ?thesis unfolding if_not_P [OF False]
      by (rule handover_late [OF f(1,4) g(4) i(3) q'(1,2) f(7) g(7) u raw(1) p raw(2) q'(3,4) F1(1)])
  qed
  then obtain F2 where F2: "fleet_write memory_transport J now2 j (PodSet (ws_target u) ?v) ?G = (None, F2)" "routes_run J rc F2"
      "routes_calm J rc (d(ws_target u \<mapsto> msg_entry ?m2 ?v)) (settle mem_recv mem_queue J r2 F2)"
    by (elim exE conjE) (rule that)
  have r1: "routes_run J rc F1"
    by (rule membus.running_write [OF f(2,4) q'(1) _ membus.quiet_room F1(1)]) (use f(1) u in \<open>simp_all add: calm_def\<close>)
  obtain W1 where W1: "ws_userDisconnects sj J now1 i u W = W1" "ws_parts sj (q(i := q i + 1)) W1" "ws_fleet W1 = F1"
      "ww_socks W1 = ww_socks W" "ww_out W1 = ww_out W" "\<forall>j. j \<noteq> i \<longrightarrow> pd_conns (ww_pods W1 ! j) = pd_conns (ww_pods W ! j)"
    using ws_disconnects [OF f(3,2) i(1) F1(1)] by (elim exE conjE) (rule that)
  have r1': "routes_run J rc (ws_fleet W1)" using r1 W1(3) by simp
  note s1 = ws_settle_parts [OF W1(2) r1', where now = r1]
  have W2: "ws_parts sj (q(i := q i + 1)) W2" "ws_fleet W2 = ?G" "ww_socks W2 = ww_socks W" "ww_out W2 = ww_out W"
      "pd_conns (ww_pods W2 ! j) u = None"
    unfolding W2_def W1(1) using s1 W1 new i by simp_all
  have run2: "routes_run J rc (ws_fleet W2)" unfolding W2(2) using r1 membus.running_settle(1) [OF r1] by simp
  obtain W3 where W3: "ws_userConnects sj J at now2 j u W2 = (None, W3)"
      "ws_parts sj ((q(i := q i + 1))(j := (q(i := q i + 1)) j + 1)) W3" "ws_fleet W3 = F2"
      "ww_socks W3 = ww_socks W @ [\<lparr>fw_user = u, fw_sent = []\<rparr>]" "ww_out W3 = ww_out W"
      "pd_conns (ww_pods W3 ! j) u = Some (length (ww_socks W))"
    using ws_connects [OF W2(1) run2 i(2) W2(5), of now2 at F2] F2(1) W2(2-4) by auto
  have run3: "routes_run J rc (ws_fleet W3)" using F2(2) W3(3) by simp
  have "ws_ok sj J rc (d(ws_target u \<mapsto> msg_entry ?m2 ?v)) (q(i := q i + 1, j := q j + 1)) (ws_settle J r2 W3)"
    by (rule ws_settled [OF _ run3]) (use W3(2,3) F2(3) i(3) in simp_all)
  moreover have "msg_stamp ?m2 = Stamp now2 (ws_ids ! j) (q j + 1)" using g by simp
  ultimately show ?thesis
    using W3(1,4-6) ws_settle_parts(3-5) [OF W3(2) run3, where now = r2] i(2)
    by (intro exI [of _ W3] exI [of _ ?m2]) simp
qed

lemma alice_utf8: "valid_utf8 ''alice''" "valid_utf8 (ws_target ''alice'')" "valid_utf8 ''new message from bob''"
    "valid_utf8 ''welcome on the new pod''"
  by (simp_all add: ws_target_def valid_utf8_def of_char_def)

lemma ws_arrive_ok:
  assumes ok: "ws_ok sj J rc Map.empty (\<lambda>_. 0) W" and W: "ww_socks W = []" "ww_out W = []" "\<forall>i < 2. pd_conns (ww_pods W ! i) = Map.empty"
    and EJ: "env_roundtrip EJ" and sj: "str_roundtrip sj" and enc: "enc_at J (ck 2)"
    and p: "\<exists>p. Marshal rc \<lparr>rt_PodID = ''pod-A'', rt_UpdatedAt = ck 1\<rparr> = Inr p"
  shows "\<exists>W' e. ws_arrive sj J EJ ck rnd W = Some (Inr W') \<and> ws_ok sj J rc [ws_target ''alice'' \<mapsto> e] ((\<lambda>_. 0)(0 := 1)) W' \<and>
    entry_stamp e = Stamp (ck 2) ''pod-A'' 1 \<and> ww_socks W' = [\<lparr>fw_user = ''alice'', fw_sent = [''new message from bob'']\<rparr>] \<and>
    ww_out W' = [WsReceived ''alice'' ''new message from bob'', KnowsOwner ''pod-A''] \<and> pd_conns (ww_pods W' ! 1) ''alice'' = None"
proof -
  let ?T = "ws_target ''alice''" and ?v = "\<lparr>rt_PodID = ''pod-A'', rt_UpdatedAt = ck 1\<rparr>" and ?q = "(\<lambda>_. 0)(0 := 1) :: nat \<Rightarrow> uint64"
  have id: "ws_ids ! 0 = ''pod-A''" by (simp add: ws_ids_def)
  obtain W1 m where W1: "ws_userConnects sj J (ck 1) (ck 2) 0 ''alice'' W = (None, W1)"
      "ws_ok sj J rc [?T \<mapsto> msg_entry m ?v] ?q (ws_settle J (ck 3) W1)" "msg_stamp m = Stamp (ck 2) ''pod-A'' 1" "wm_Kind m = kindSet"
      "ww_socks (ws_settle J (ck 3) W1) = [\<lparr>fw_user = ''alice'', fw_sent = []\<rparr>]" "ww_out (ws_settle J (ck 3) W1) = []"
    and "\<forall>j < 2. pd_conns (ww_pods (ws_settle J (ck 3) W1) ! j) =
        (if j = 0 then (pd_conns (ww_pods W ! 0))(''alice'' \<mapsto> length (ww_socks W)) else pd_conns (ww_pods W ! j))"
    using ws_connect_settle [OF ok, of 0 "''alice''" "ck 2" "ck 1" _ "ck 3"] alice_utf8(2) W enc p id by (auto simp del: fun_upd_apply)
  then have c1: "pd_conns (ww_pods (ws_settle J (ck 3) W1) ! 0) ''alice'' = Some 0" "pd_conns (ww_pods (ws_settle J (ck 3) W1) ! 1) ''alice'' = None"
    using W(1,3) by simp_all
  have e: "[?T \<mapsto> msg_entry m ?v] ?T = Some (msg_entry m ?v)" "\<not> e_Tombstone (msg_entry m ?v)" "rt_PodID (e_Value (msg_entry m ?v)) = ws_ids ! 0"
    using W1(4) id by (simp_all add: kindSet_def kindDelete_def)
  obtain W2 where W2: "ws_SendTo sj EJ (ck 4) (ck 5) (rnd 0) 1 ''alice'' ''new message from bob'' (ws_settle J (ck 3) W1) = Some (None, W2)"
      "ws_ok sj J rc [?T \<mapsto> msg_entry m ?v] ?q W2" "ww_socks W2 = [\<lparr>fw_user = ''alice'', fw_sent = [''new message from bob'']\<rparr>]"
      "ww_out W2 = [WsReceived ''alice'' ''new message from bob'']" "pd_conns (ww_pods W2 ! 1) ''alice'' = None"
    using ws_push [OF W1(2) _ _ EJ sj alice_utf8(1,3) e c1(1), of 1 "ck 4" "ck 5" "rnd 0"] W1(5,6) c1(2)
    by (auto simp: ws_Send_def simp del: fun_upd_apply)
  obtain W3 where W3: "ws_ask 1 KnowsOwner W2 = W3" "ws_ok sj J rc [?T \<mapsto> msg_entry m ?v] ?q W3"
      "ww_out W3 = ww_out W2 @ [KnowsOwner ''pod-A'']" "ww_socks W3 = ww_socks W2" "pd_conns (ww_pods W3 ! 1) = pd_conns (ww_pods W2 ! 1)"
    using ws_ask_ok [OF W2(2) _ e(1,2), of 1 KnowsOwner] by (auto simp del: fun_upd_apply)
  show ?thesis
    using W1(1,3) W2(1,3-5) W3 by (intro exI [of _ W3] exI [of _ "msg_entry m ?v"]) (simp add: ws_arrive_def)
qed

lemma ws_migrate_ok:
  assumes ok: "ws_ok sj J rc [ws_target ''alice'' \<mapsto> e] q W" and q: "q 0 = 1" "q 1 = 0" and e: "entry_stamp e = Stamp t0 ''pod-A'' 1"
    and W: "ww_socks W = [s]" "pd_conns (ww_pods W ! 1) ''alice'' = None"
    and EJ: "env_roundtrip EJ" and sj: "str_roundtrip sj" and enc: "enc_at J (ck 6)" "enc_at J (ck 9)" and ck: "t0 \<le> ck 6" "ck 6 \<le> ck 9"
    and p: "\<exists>p. Marshal rc \<lparr>rt_PodID = ''pod-B'', rt_UpdatedAt = ck 8\<rparr> = Inr p"
  shows "\<exists>W' e'. ws_migrate sj J EJ ck rnd early W = Some (Inr W') \<and> ws_ok sj J rc [ws_target ''alice'' \<mapsto> e'] (q(0 := 2, 1 := 1)) W' \<and>
    entry_stamp e' = Stamp (ck 9) ''pod-B'' 1 \<and> ww_socks W' = [s, \<lparr>fw_user = ''alice'', fw_sent = [''welcome on the new pod'']\<rparr>] \<and>
    ww_out W' = ww_out W @ [WsReceived ''alice'' ''welcome on the new pod'', SeesOwner ''pod-B'']"
proof -
  let ?T = "ws_target ''alice''" and ?v = "\<lparr>rt_PodID = ''pod-B'', rt_UpdatedAt = ck 8\<rparr>" and ?q = "q(0 := 2, 1 := 1)"
  have id: "ws_ids ! 0 = ''pod-A''" "ws_ids ! 1 = ''pod-B''" by (simp_all add: ws_ids_def)
  have b: "beats (Stamp (ck 6) (ws_ids ! 0) (q 0 + 1)) ([?T \<mapsto> e] ?T)" using e ck(1) q(1) id by (auto simp: less_stamp_def)
  have later: "Stamp (ck 6) (ws_ids ! 0) (q 0 + 1) < Stamp (ck 9) (ws_ids ! 1) (q 1 + 1)"
    using ck(2) id by (auto simp: less_stamp_def less_char_def of_char_def)
  let ?W2 = "if early then ws_settle J (ck 7) (ws_userDisconnects sj J (ck 6) 0 ''alice'' W) else ws_userDisconnects sj J (ck 6) 0 ''alice'' W"
  obtain W3 m where W3: "ws_userConnects sj J (ck 8) (ck 9) 1 ''alice'' ?W2 = (None, W3)"
      "ws_ok sj J rc ([?T \<mapsto> e](?T \<mapsto> msg_entry m ?v)) (q(0 := q 0 + 1, 1 := q 1 + 1)) (ws_settle J (ck 10) W3)"
      "msg_stamp m = Stamp (ck 9) (ws_ids ! 1) (q 1 + 1)" "wm_Kind m = kindSet"
      "ww_socks (ws_settle J (ck 10) W3) = ww_socks W @ [\<lparr>fw_user = ''alice'', fw_sent = []\<rparr>]" "ww_out (ws_settle J (ck 10) W3) = ww_out W"
      "pd_conns (ww_pods (ws_settle J (ck 10) W3) ! 1) ''alice'' = Some (length (ww_socks W))"
    using ws_move [OF ok _ _ _ W(2) alice_utf8(2) _ _ enc _ b later, of "ck 8" _ early "ck 7" "ck 10"] p q id
    by (simp del: fun_upd_apply) metis
  have ok3: "ws_ok sj J rc [?T \<mapsto> msg_entry m ?v] ?q (ws_settle J (ck 10) W3)" using W3(2) q by (simp del: fun_upd_apply add: fun_upd_upd)
  have e3: "[?T \<mapsto> msg_entry m ?v] ?T = Some (msg_entry m ?v)" "\<not> e_Tombstone (msg_entry m ?v)" "rt_PodID (e_Value (msg_entry m ?v)) = ws_ids ! 1"
    using W3(4) id by (simp_all add: kindSet_def kindDelete_def)
  obtain W4 where W4: "ws_SendTo sj EJ (ck 11) (ck 12) (rnd 1) 0 ''alice'' ''welcome on the new pod'' (ws_settle J (ck 10) W3) = Some (None, W4)"
      "ws_ok sj J rc [?T \<mapsto> msg_entry m ?v] ?q W4" "ww_socks W4 = [s, \<lparr>fw_user = ''alice'', fw_sent = [''welcome on the new pod'']\<rparr>]"
      "ww_out W4 = ww_out W @ [WsReceived ''alice'' ''welcome on the new pod'']"
    using ws_push [OF ok3 _ _ EJ sj alice_utf8(1,4) e3 W3(7), of 0 "ck 11" "ck 12" "rnd 1"] W3(5,6) W(1)
    by (auto simp: ws_Send_def simp del: fun_upd_apply)
  obtain W5 where W5: "ws_ask 1 SeesOwner W4 = W5" "ws_ok sj J rc [?T \<mapsto> msg_entry m ?v] ?q W5"
      "ww_out W5 = ww_out W4 @ [SeesOwner ''pod-B'']" "ww_socks W5 = ww_socks W4"
    using ws_ask_ok [OF W4(2) _ e3(1,2), of 1 SeesOwner] by (auto simp del: fun_upd_apply)
  show ?thesis
    using W3(1,3) W4(1,3,4) W5 q id by (intro exI [of _ W5] exI [of _ "msg_entry m ?v"]) (simp add: ws_migrate_def)
qed

lemma ws_leave_ok:
  assumes ok: "ws_ok sj J rc [ws_target ''alice'' \<mapsto> e] q W" and q: "q 1 = 1" and e: "entry_stamp e = Stamp t0 ''pod-B'' 1"
    and enc: "enc_at J (ck 13)" and ck: "t0 \<le> ck 13"
  shows "\<exists>W'. ws_leave sj J EJ ck rnd W = Some (Inr W') \<and> length (ww_pods W') = 2 \<and> ww_socks W' = ww_socks W \<and>
    ww_out W' = ww_out W @ [OfflineError (CrQuoted ''callreply: no route for'' (ws_target ''alice''))]"
proof -
  let ?T = "ws_target ''alice''"
  have id: "ws_ids ! 1 = ''pod-B''" by (simp add: ws_ids_def)
  have b: "beats (Stamp (ck 13) (ws_ids ! 1) (q 1 + 1)) ([?T \<mapsto> e] ?T)" using e ck q id by (auto simp: less_stamp_def)
  obtain W1 m where W1: "ws_userDisconnects sj J (ck 13) 1 ''alice'' W = W1"
      "ws_ok sj J rc ([?T \<mapsto> e](?T \<mapsto> msg_entry m zero_Route)) (q(1 := q 1 + 1)) (ws_settle J (ck 14) W1)" "wm_Kind m = kindDelete"
      "ww_socks (ws_settle J (ck 14) W1) = ww_socks W" "ww_out (ws_settle J (ck 14) W1) = ww_out W"
    using ws_disconnect_settle [OF ok _ alice_utf8(2) _ enc b, of "ck 14"] q by (auto simp del: fun_upd_apply)
  then have "\<forall>r. ([?T \<mapsto> e](?T \<mapsto> msg_entry m zero_Route)) ?T = Some r \<longrightarrow> e_Tombstone r" by simp
  from ws_no_route [OF W1(2) _ this, of 0 EJ "ck 15" "ck 16" "rnd 2" "''are you there?''"] obtain W2 where
      "ws_SendTo sj EJ (ck 15) (ck 16) (rnd 2) 0 ''alice'' ''are you there?'' (ws_settle J (ck 14) W1) =
        Some (Some (CrQuoted ''callreply: no route for'' ?T), W2)" "ww_socks W2 = ww_socks W" "ww_out W2 = ww_out W" "length (ww_pods W2) = 2"
    using W1(4,5) by auto
  with W1(1) show ?thesis by (simp add: ws_leave_def Let_def)
qed

lemma ws_shutdown_ok:
  assumes "length (ww_pods W) = 2"
  shows "\<exists>W'. ws_shutdown J ck ks W = W' \<and> (\<forall>i < 2. ep_closed (pd_ep (ww_pods W' ! i))) \<and> m_closed (ww_tr W') \<and>
    ww_socks W' = ww_socks W \<and> ww_out W' = ww_out W"
proof -
  have cl: "ep_closed (fst (Endpoint_Close memory_transport J now k e t))" for now k e t
    by (simp add: Endpoint_Close_def Endpoint_isClosed_def split: prod.split)
  with assms show ?thesis
    by (auto simp: mem_Close_closed ws_shutdown_def ws_close_pod_def put_ep_def Let_def case_prod_unfold less_2_cases_iff)
qed

subsection \<open>Properties\<close>

text \<open>
  C16. A push reaches the connection wherever it is. When the pods have handled their routes and the route of
  the user leads to a pod that holds a connection of the user, \<^verbatim>\<open>SendTo\<close> at either pod returns no error,
  the message is received on that connection, once, and on no other, and the pods are ready for the
  next call; when there is no route, \<^verbatim>\<open>SendTo\<close> returns the error that says so and nothing is received.
\<close>

theorem SendTo_reaches_the_connection:
  assumes "ws_ok sj J rc d q W" "i < 2" "j < 2" "env_roundtrip EJ" "str_roundtrip sj" "valid_utf8 u" "valid_utf8 msg"
    and "pd_conns (ww_pods W ! j) u = Some c"
  shows "(\<forall>r. d (ws_target u) = Some r \<longrightarrow> \<not> e_Tombstone r \<longrightarrow> rt_PodID (e_Value r) = ws_ids ! j \<longrightarrow>
      (\<exists>W'. ws_SendTo sj EJ now now' rnd i u msg W = Some (None, W') \<and> ws_ok sj J rc d q W' \<and>
        ww_socks W' = (ww_socks W)[c := ws_Send msg (ww_socks W ! c)])) \<and>
    ((\<forall>r. d (ws_target u) = Some r \<longrightarrow> e_Tombstone r) \<longrightarrow>
      (\<exists>W'. ws_SendTo sj EJ now now' rnd i u msg W = Some (Some (CrQuoted ''callreply: no route for'' (ws_target u)), W') \<and>
        ws_ok sj J rc d q W' \<and> ww_socks W' = ww_socks W))"
proof (intro conjI allI impI)
  fix r assume r: "d (ws_target u) = Some r" "\<not> e_Tombstone r" "rt_PodID (e_Value r) = ws_ids ! j"
  show "\<exists>W'. ws_SendTo sj EJ now now' rnd i u msg W = Some (None, W') \<and> ws_ok sj J rc d q W' \<and>
      ww_socks W' = (ww_socks W)[c := ws_Send msg (ww_socks W ! c)]"
    using ws_push [OF assms(1-7) r assms(8), of now now' rnd] by blast
next
  assume "\<forall>r. d (ws_target u) = Some r \<longrightarrow> e_Tombstone r"
  from ws_no_route [OF assms(1,2) this, of EJ now now' rnd msg]
  show "\<exists>W'. ws_SendTo sj EJ now now' rnd i u msg W = Some (Some (CrQuoted ''callreply: no route for'' (ws_target u)), W') \<and>
      ws_ok sj J rc d q W' \<and> ww_socks W' = ww_socks W" by blast
qed

text \<open>A concrete encoding of strings, and two pods with a connection at the first.\<close>

definition sample_strjson :: StrJson where
  "sample_strjson = \<lparr>marshalStr = (\<lambda>s. Inr (str_bytes s)), unmarshalStr = (\<lambda>b. Inr (bytes_str b))\<rparr>"

lemma sample_str_roundtrip: "str_roundtrip sample_strjson"
  by (simp add: str_roundtrip_def sample_strjson_def)

theorem SendTo_reaches_the_connection_witness:
  "\<exists>d q W W'. ws_ok sample_strjson sample_json sample_route_codec d q W \<and>
     ws_SendTo sample_strjson sample_envjson 5 6 (replicate 12 7) 1 ''alice'' ''hi'' W = Some (None, W') \<and>
     map fw_sent (ww_socks W') = [[''hi'']]"
proof -
  have rc: "codec_roundtrip sample_route_codec" by (rule sample_route_codec_roundtrip)
  let ?v = "\<lparr>rt_PodID = ws_ids ! 0, rt_UpdatedAt = 1\<rparr>"
  obtain p where p: "Marshal sample_route_codec ?v = Inr p" by (simp add: sample_route_codec_def)
  obtain W0 where W0: "ws_ok sample_strjson sample_json sample_route_codec Map.empty (\<lambda>_. 0) W0" "ww_socks W0 = []"
      "\<forall>i < 2. pd_conns (ww_pods W0 ! i) = Map.empty"
    using ws_setup [OF sample_json_msg rc, of "Inr ''x''" 0 sample_strjson] by (elim exE conjE) (rule that)
  have enc: "enc_at sample_json 2" by (simp add: sample_json_def)
  obtain W1 m where W1: "ws_ok sample_strjson sample_json sample_route_codec [ws_target ''alice'' \<mapsto> msg_entry m ?v] ((\<lambda>_. 0)(0 := 0 + 1)) W1"
      "wm_Kind m = kindSet" "ww_socks W1 = [\<lparr>fw_user = ''alice'', fw_sent = []\<rparr>]" "pd_conns (ww_pods W1 ! 0) ''alice'' = Some 0"
    using ws_connect_settle [OF W0(1), of 0 "''alice''" 2 1 p 3] W0(2,3) alice_utf8(2) enc p by (auto simp del: fun_upd_apply simp: fun_upd_same)
  have "valid_utf8 ''hi''" by (simp add: valid_utf8_def of_char_def)
  from SendTo_reaches_the_connection [OF W1(1) _ _ sample_env_roundtrip sample_str_roundtrip alice_utf8(1) this W1(4), of 1 5 6 "replicate 12 7"]
  obtain W' where W': "ws_SendTo sample_strjson sample_envjson 5 6 (replicate 12 7) 1 ''alice'' ''hi'' W1 = Some (None, W')"
      "ww_socks W' = (ww_socks W1)[0 := ws_Send ''hi'' (ww_socks W1 ! 0)]"
    using W1(2) by (auto simp: kindSet_def kindDelete_def)
  with W1(1,3) show ?thesis
    by (intro exI [of _ "[ws_target ''alice'' \<mapsto> msg_entry m ?v]"] exI [of _ "(\<lambda>_. 0)(0 := 0 + 1)"] exI [of _ W1] exI [of _ W'])
       (simp add: ws_Send_def)
qed

text \<open>
  C15. The routing program ends with every message on the connection it was meant for. When routes, strings,
  messages and envelopes can be encoded and decoded and the clock does not go back, the program ends without a fatal
  error, whether or not the receive loops run between the disconnect and the reconnect of the migration:
  the first push is received on the connection at the first pod, the second on the new one at
  the second pod, the lookups name the owner of the moment, the push after the last
  disconnect is refused for want of a route, and in the end both endpoints and the broker are closed.
\<close>

theorem ws_routing_run:
  assumes "json_msg_roundtrip J" "codec_roundtrip rc" "env_roundtrip EJ" "str_roundtrip sj" "mono ck"
    and "\<forall>route. rt_UpdatedAt route \<in> range ck \<longrightarrow> (\<exists>p. Marshal rc route = Inr p)"
    and "\<forall>m. wm_Timestamp m \<in> range ck \<longrightarrow> (\<exists>raw. marshalMsg J m = Inr raw)"
  shows "\<exists>W. ws_main sj rc J EJ rid ck rnd ks early = Some (Inr W) \<and>
    ww_out W = [WsReceived ''alice'' ''new message from bob'', KnowsOwner ''pod-A'',
                WsReceived ''alice'' ''welcome on the new pod'', SeesOwner ''pod-B'',
                OfflineError (CrQuoted ''callreply: no route for'' (ws_target ''alice''))] \<and>
    map fw_sent (ww_socks W) = [[''new message from bob''], [''welcome on the new pod'']] \<and>
    (\<forall>i < 2. ep_closed (pd_ep (ww_pods W ! i))) \<and> m_closed (ww_tr W)"
proof -
  have enc: "enc_at J (ck n)" for n using assms(7) by blast
  have p: "\<exists>p. Marshal rc \<lparr>rt_PodID = i, rt_UpdatedAt = ck n\<rparr> = Inr p" for i n using assms(6) by simp
  have ck: "m \<le> n \<Longrightarrow> ck m \<le> ck n" for m n using assms(5) by (rule monoD)
  obtain A W0 where W0: "ws_newPod rc J rid (ck 0) [] ''pod-A'' ws_start = Inr A" "ws_newPod rc J rid (ck 0) [] ''pod-B'' A = Inr W0"
      "ws_ok sj J rc Map.empty (\<lambda>_. 0) W0" "ww_socks W0 = []" "ww_out W0 = []" "\<forall>i < 2. pd_conns (ww_pods W0 ! i) = Map.empty"
    using ws_setup [OF assms(1,2), of rid "ck 0" sj] by (elim exE conjE) (rule that)
  obtain W1 e1 where W1: "ws_arrive sj J EJ ck rnd W0 = Some (Inr W1)" "ws_ok sj J rc [ws_target ''alice'' \<mapsto> e1] ((\<lambda>_. 0)(0 := 1)) W1"
      "entry_stamp e1 = Stamp (ck 2) ''pod-A'' 1" "ww_socks W1 = [\<lparr>fw_user = ''alice'', fw_sent = [''new message from bob'']\<rparr>]"
      "ww_out W1 = [WsReceived ''alice'' ''new message from bob'', KnowsOwner ''pod-A'']" "pd_conns (ww_pods W1 ! 1) ''alice'' = None"
    using ws_arrive_ok [OF W0(3-6) assms(3,4), of ck rnd, OF enc p] by (elim exE conjE) (rule that)
  have q: "((\<lambda>_. 0)(0 := 1) :: nat \<Rightarrow> uint64) 0 = 1" "((\<lambda>_. 0)(0 := 1) :: nat \<Rightarrow> uint64) 1 = 0" by simp_all
  obtain W2 e2 where W2: "ws_migrate sj J EJ ck rnd early W1 = Some (Inr W2)"
      "ws_ok sj J rc [ws_target ''alice'' \<mapsto> e2] (((\<lambda>_. 0)(0 := 1))(0 := 2, 1 := 1)) W2" "entry_stamp e2 = Stamp (ck 9) ''pod-B'' 1"
      "ww_socks W2 = [\<lparr>fw_user = ''alice'', fw_sent = [''new message from bob'']\<rparr>, \<lparr>fw_user = ''alice'', fw_sent = [''welcome on the new pod'']\<rparr>]"
      "ww_out W2 = ww_out W1 @ [WsReceived ''alice'' ''welcome on the new pod'', SeesOwner ''pod-B'']"
    using ws_migrate_ok [OF W1(2) q W1(3,4,6) assms(3,4), of ck rnd early, OF enc enc _ _ p] ck by (auto simp del: fun_upd_apply)
  obtain W3 where W3: "ws_leave sj J EJ ck rnd W2 = Some (Inr W3)" "length (ww_pods W3) = 2" "ww_socks W3 = ww_socks W2"
      "ww_out W3 = ww_out W2 @ [OfflineError (CrQuoted ''callreply: no route for'' (ws_target ''alice''))]"
    using ws_leave_ok [OF W2(2) _ W2(3), of ck EJ rnd, OF _ enc] ck by auto
  obtain W4 where W4: "ws_shutdown J ck ks W3 = W4" "\<forall>i < 2. ep_closed (pd_ep (ww_pods W4 ! i))" "m_closed (ww_tr W4)"
      "ww_socks W4 = ww_socks W3" "ww_out W4 = ww_out W3"
    using ws_shutdown_ok [OF W3(2), of J ck ks] by (elim exE conjE) (rule that)
  have "ws_main sj rc J EJ rid ck rnd ks early = Some (Inr W4)"
    using W0(1,2) W1(1) W2(1) W3(1) W4(1) by (simp add: ws_main_def)
  with W1(5) W2(4,5) W3(3,4) W4 show ?thesis by (intro exI [of _ W4]) simp
qed

theorem ws_routing_run_witness:
  "\<exists>W. ws_main sample_strjson sample_route_codec sample_json sample_envjson (Inr ''x'') int (\<lambda>n. replicate 12 (of_nat n)) (\<lambda>_. []) False =
       Some (Inr W) \<and>
     map fw_sent (ww_socks W) = [[''new message from bob''], [''welcome on the new pod'']]"
proof -
  have r: "codec_roundtrip sample_route_codec" "\<forall>route. rt_UpdatedAt route \<in> range int \<longrightarrow> (\<exists>p. Marshal sample_route_codec route = Inr p)"
    using sample_route_codec_roundtrip by (simp_all add: sample_route_codec_def)
  have "mono int" "\<forall>m. wm_Timestamp m \<in> range int \<longrightarrow> (\<exists>raw. marshalMsg sample_json m = Inr raw)"
    by (simp_all add: mono_def sample_json_def)
  from ws_routing_run [OF sample_json_msg r(1) sample_env_roundtrip sample_str_roundtrip this(1) r(2) this(2),
      of "Inr ''x''" "\<lambda>n. replicate 12 (of_nat n)" "\<lambda>_. []" False]
  show ?thesis by (elim exE conjE) (intro exI conjI)
qed

end
