(* ===== verification/Spec2Isabelle.thy ===== *)
theory Spec2Isabelle
  imports Cluster_Sync Watch_Replay Discovery Lifecycle Call_Routes Call_Roundtrip Call_Sessions
    Redis_Transport Prom_Collector P2P_Exchange Mesh_Callbacks Codecs Chat_Cache
    Web_Server Feature_Flags Basic_Example Rate_Limits P2P_Example Ws_Routing
begin

text \<open>
  \<^bold>\<open>A verification development for podshare\<close>

  podshare is a Go library for state that every pod of a service holds in memory. A \<^verbatim>\<open>Store\<close> is a
  replica of a map: a write is applied locally, stamped with
  \<^verbatim>\<open>(Timestamp, Origin, Seq)\<close>, and broadcast over a \<^verbatim>\<open>Transport\<close>; a message that arrives is applied
  by last-write-wins on that stamp. Deletes leave tombstones, a background loop persists
  snapshots and collects old tombstones, and watchers receive an event for every change. There
  are three transports (in memory, a TCP mesh, Redis), a discoverer that feeds the mesh its peers,
  a collector that exports a store's counters, and a call/reply layer whose endpoints keep the
  owners of their targets in a store and exchange calls over a transport.

  \<^bold>\<open>The parts and the theories that model them\<close>

  \<^item> \<open>Prelude\<close>: Go's basic types, the errors the program builds, ranging over a map in an
    unknown order, counting entries, 64-bit integers.
  \<^item> \<open>Wire\<close>: \<^verbatim>\<open>wire.go\<close>, and the interfaces of \<^verbatim>\<open>codec.go\<close> and \<^verbatim>\<open>transport.go\<close> as records of
    functions. \<^verbatim>\<open>encoding/json\<close> on the envelope types is a parameter (\<open>Json\<close>) with the hypotheses
    \<open>json_msg_roundtrip\<close> and \<open>json_snap_roundtrip\<close>, a value codec one with \<open>codec_roundtrip\<close>.
    \<open>Codecs\<close>: \<^verbatim>\<open>JSONCodec\<close> and \<^verbatim>\<open>StrictJSONCodec\<close>, which satisfy it.
    \<open>Sample\<close> and \<open>Sample_Store\<close> hold a concrete encoding that satisfies them and concrete stores
    and messages; the witnesses of the properties are evaluated on these.
  \<^item> \<open>Store_State\<close>: the types of \<^verbatim>\<open>podshare.go\<close>, the counters, \<^verbatim>\<open>options.go\<close>.
  \<^item> \<open>Watchers\<close>: \<^verbatim>\<open>Watch\<close>, the watch options, \<^verbatim>\<open>dispatch\<close>, \<^verbatim>\<open>removeWatcher\<close>. A watcher is a
    number into a heap of channels; sending on a closed channel or closing one twice sets
    \<open>s_panic\<close>, as Go would panic. The invariant is \<open>watch_inv\<close>.
  \<^item> \<open>Lww\<close>: \<^verbatim>\<open>lwwAccept\<close> and \<^verbatim>\<open>applyMessage\<close> against the linear order on \<open>stamp\<close>.
  \<^item> \<open>Store_Ops\<close>: \<^verbatim>\<open>Get\<close>, \<^verbatim>\<open>Keys\<close>, \<^verbatim>\<open>Snapshot\<close>, \<^verbatim>\<open>Set\<close>, \<^verbatim>\<open>SetMany\<close>, \<^verbatim>\<open>Delete\<close>, \<^verbatim>\<open>DeleteMany\<close>,
    \<^verbatim>\<open>Seed\<close>, \<^verbatim>\<open>Version\<close>, \<^verbatim>\<open>TrySet\<close>, \<^verbatim>\<open>handleRaw\<close>, \<^verbatim>\<open>recvLoop\<close>.
  \<^item> \<open>Snapshots\<close>: \<^verbatim>\<open>New\<close>, \<^verbatim>\<open>Refresh\<close>, \<^verbatim>\<open>mergeSnapshot\<close>, \<^verbatim>\<open>loadSnapshot\<close>, \<^verbatim>\<open>persistSnapshot\<close>,
    \<^verbatim>\<open>gcTombstones\<close>, \<^verbatim>\<open>finalFlush\<close>, \<^verbatim>\<open>CloseWithContext\<close>, and \<^verbatim>\<open>snapshotLoop\<close> as a step relation
    whose steps are the cases of its \<^verbatim>\<open>select\<close> statements.
  \<^item> \<open>Store_Inv\<close>: the locale \<open>message_change\<close> for the operations that apply one message, contained in
    the locale \<open>store_change\<close>, whose lemmas go through every operation once, and its three
    interpretations: the gauges, the watcher invariant, the growth of stamps.
  \<^item> \<open>Tombstones\<close>, \<open>Writes\<close>, \<open>Receive\<close>, \<open>Lifecycle\<close>: what the operations do, branch by branch.
  \<^item> \<open>Convergence\<close>: the locale \<open>replica\<close> of commuting idempotent updates, interpreted on the
    map update \<open>lww_upd\<close> that \<^verbatim>\<open>applyMessage\<close> refines. \<open>Cluster\<close>: any number of stores over a
    network that delays, reorders, repeats and loses messages. \<open>Cluster_Sync\<close>: the same with
    batches, conditional writes, persisted snapshots, refreshes and nodes that join from them; a
    ghost set per node and per snapshot records the messages it stands for.
  \<^item> \<open>Store_Steps\<close>: the interleavings of one store's goroutines, at the granularity of its locks.
    \<open>Watch_Replay\<close>: what the consumer of a watcher can rebuild from its channel; it interprets
    \<open>message_change\<close>.
  \<^item> \<open>Transport_Contract\<close>: the locales \<open>snapshot_store\<close> and \<open>transport_contract\<close>, what a store needs
    of a transport; the mesh interprets the first, which the second extends. The locale
    \<open>message_bus\<close>: a transport that queues messages for its subscribers.
    \<open>Memory_Transport\<close>: \<^verbatim>\<open>transport/memory.go\<close>, which interprets both.
  \<^item> \<open>Fleet\<close>: pods on one \<open>message_bus\<close>, each with its subscription; their runs are runs of the
    cluster of \<open>Cluster\<close> (\<open>fleet_sim\<close>). \<open>Fleet_Watch\<close>: the goroutines that watch a pod of a fleet, and how they end.
  \<^item> \<open>P2P_Pods\<close>: stores that each run over a mesh of their own, with the connections between the meshes and the
    bytes on them; their runs are runs of the cluster too (\<open>pods_sim\<close>). \<open>Mesh_Settles\<close> and \<open>Mesh_Ready\<close>: a mesh that
    connects every pair carries what is in its queues to every pod.
  \<^item> The programs of \<^verbatim>\<open>examples\<close>, one theory each: \<open>Chat_Cache\<close>, \<open>Feature_Flags\<close>, \<open>Basic_Example\<close> and \<open>Web_Demo\<close> with
    \<open>Web_Server\<close> run a fleet over the in-memory transport, \<open>Ws_Routing\<close> endpoints over it (\<open>Call_Fleet\<close>: what calls and the
    routing stores leave of each other on one broker), \<open>Rate_Limits\<close> a store over Redis, \<open>P2P_Example\<close> stores over meshes.
    What a program prints is a list of lines.
  \<^item> \<open>P2P_Frame\<close> and \<open>P2P_Mesh\<close>: \<^verbatim>\<open>transport/p2p.go\<close>, the bytes of a frame, and peers, connections,
    send queues, subscriptions and snapshot requests. \<open>P2P_Loops\<close>: its loops (\<^verbatim>\<open>FetchSnapshot\<close>,
    \<^verbatim>\<open>dialLoop\<close>, \<^verbatim>\<open>acceptLoop\<close>) as step relations. \<open>Mesh_Steps\<close>: the interleavings of its
    goroutines, with the locale \<open>quiet_change\<close> for the operations that change neither the
    subscriptions nor the set of connections. \<open>Mesh_Callbacks\<close>: the connection callbacks.
    \<open>P2P_Exchange\<close>: the sender and the read loop of a connection, and what two meshes
    exchange over its bytes. \<open>Discovery\<close>: \<^verbatim>\<open>transport/discovery.go\<close>.
  \<^item> \<open>Redis_Transport\<close>: \<^verbatim>\<open>transport/redis.go\<close> over a client that is a parameter (a record of the
    functions the file calls, with the hypothesis \<open>redis_client_ok\<close>); under it the transport
    satisfies \<open>transport_contract\<close> (\<open>redis_contract\<close>).
  \<^item> \<open>Call_Reply\<close>: \<^verbatim>\<open>callreply/callreply.go\<close>, one definition per method, a method that blocks split
    where it does. \<open>Call_Values\<close>: envelopes, identifiers, deadlines. \<open>Call_Sessions\<close>: the
    interleavings of an endpoint's goroutines. \<open>Call_Roundtrip\<close>: a call
    from one pod to another and back over a \<open>message_bus\<close>. \<open>Call_Routes\<close>: registration, owners, replies, shutdown.
  \<^item> \<open>Prom_Collector\<close>: \<^verbatim>\<open>prom/collector.go\<close>, with the conversion to \<^verbatim>\<open>float64\<close>.
  \<^item> This theory: routes that travel from one endpoint through the store and the broker to
    another.

  \<^bold>\<open>How the code is read\<close>

  An operation takes the transport, the JSON functions and the clock value it reads, and returns
  its result, the store and the transport's state. A part of a method that holds a lock is one
  definition. A \<^verbatim>\<open>range\<close> over a Go map takes the order of the keys as an argument and theorems
  hold for every order. Counters and durations are 64-bit words; the gauges are compared with the
  map modulo \<open>2 ^ 64\<close> and read exactly below \<open>2 ^ 63\<close>. All loops of the model are structurally
  recursive over the finite data they range over, and \<open>readFrames\<close> and \<open>serveConn_loop\<close> terminate
  because a frame takes at least seven bytes; there is no fuel. The loops that wait for a clock or a connection
  are step relations; that \<^verbatim>\<open>FetchSnapshot\<close> returns is a theorem. Where a \<^verbatim>\<open>select\<close> has several ready cases the
  model takes the choice as an argument or offers a step for each.

  \<^bold>\<open>What is shown\<close>

  \<^item> Replicas: convergence (clusters with batches, snapshots and joins, any order of messages, the
    receive loop, snapshot merges), that a refresh repairs a node that missed messages, the equality of the two copies of the comparison, the growth of stamps; that no interleaving
    panics and that the gauges follow the map; that the pods of a process agree once their channels are empty; reads against writes, deletes against late writes;
    batches against single writes; persisted against loaded replicas; the fan-out to watchers, and that a
    watcher's events rebuild the map.
  \<^item> Transports: invariants of the in-memory transport and the mesh, fan-out, frames against
    bytes, messages and snapshots that cross the mesh, the order of a Redis subscription, that the mesh never sends on a closed channel, that
    connection callbacks pair up, that a snapshot request ends, peers against the resolver, shutdown.
  \<^item> Stores over meshes: that every run refines the cluster, and that in a mesh that connects every pair the writes
    reach every pod.
  \<^item> Programs: that the chat cache and the basic example print what their comments promise, that the worker of the feature
    flags reads every stage from the one on at which it watches, that an item posted to one pod of
    the web demo is shown by all, whatever requests come, that the pods of the mesh see who is online, that a message
    to a user reaches the connection wherever it is, that the rate limits are those of the last tick;
    and that each of them closes its stores and transports.
  \<^item> Calls: what a remote call returns against a local one, that pods agree on owners and find a
    registered target, the bound on handlers, that a call gets the reply to it, deadlines.
  \<^item> What goes wrong, as theorems: a batch that stops half way, the gauge after a failed
    snapshot, mergers, events of a merge after newer ones, far-future clocks, unknown kinds of
    message, an empty first snapshot answer, a registration that failed and is not repeated, an
    old owner that deletes the new owner's route, a message too large for a frame, data after a
    value that the strict codec ignores, a delete of the empty key by the web demo, a removed peer that is served, a peer
    added by name whose connection stays open, a finished snapshot request that drops the next, a second subscription.

  \<^bold>\<open>What is not modelled\<close>

  Sockets and the TLS handshake (that a dial succeeds or a frame arrives is a choice of the step
  relations); the go-redis and the Prometheus client, which are
  parameters; the logger (\<^verbatim>\<open>WithLogger\<close> installs it, \<^verbatim>\<open>logf\<close> writes to it); the reflection of \<^verbatim>\<open>encoding/json\<close>; the
  getters \<^verbatim>\<open>NodeID\<close>, \<^verbatim>\<open>Topic\<close> and \<^verbatim>\<open>Addr\<close>; the default resolver and interval of the discoverer, whose turns are given.
  \<^verbatim>\<open>doc.go\<close> is documentation. Of the example programs: how the command line is parsed, the HTTP protocol (a
  request arrives decoded, a server listens or fails, \<^verbatim>\<open>Shutdown\<close> is not waited for), signals and tickers, which
  are events of a run, and the format of the printed lines. A \<^verbatim>\<open>time.Sleep\<close> of a modelled program means that every pod has handled its
  channel, and over a mesh that every connection has carried its queue; how long that takes is not modelled. In
  \<open>P2P_Example\<close> the dials connect in the sleep that is there for them, when the three stores exist. The value codec of a fleet returns what it encoded, for every value; for
  JSON that is so for values whose strings are valid UTF-8. A context is
  its deadline, and that it has ended is told to the model. In \<open>Cluster_Sync\<close> a write that returns an
  error is not a step, no tombstone outlives its TTL (what happens otherwise is
  \<open>collected_tombstone_resurrects\<close>), and sequence numbers do not wrap. In \<open>Watch_Replay\<close> one
  operation follows another, with its dispatches; what happens when the dispatches of a merge are
  overtaken is \<open>merge_events_out_of_order\<close>.
\<close>

section \<open>Properties across components\<close>

subsection \<open>Routes travel through the store and the broker\<close>

text \<open>A write over the in-memory transport is what a subscriber with an empty channel receives next.\<close>

lemma Set_reaches_subscriber:
  assumes "json_msg_roundtrip J" "mem_inv t" "\<not> m_closed t"
    and "b \<in> set (m_subs t (s_topic s))" "ch_buf (m_heap t b) = []"
    and "\<not> s_closed s" "Marshal (s_codec s) v = Inr p"
    and "marshalMsg J (stamp_msg kindSet k p now s) = Inr raw"
    and "valid_utf8 k" "valid_utf8 (s_nodeID s)"
    and "beats (Stamp now (s_nodeID s) (s_seq s + 1)) (s_data s k)"
  shows "\<exists>s' t1 t2. Set memory_transport J now k v s t = (None, s', t1) \<and> mem_recv b t1 = (Some raw, t2) \<and>
    unmarshalMsg J raw = Inr (stamp_msg kindSet k p now s)"
proof -
  obtain t1 t2 where "tr_Publish memory_transport (s_topic s) raw t = (None, t1)" "mem_recv b t1 = (Some raw, t2)"
    using membus.publish_recv [of t b "s_topic s" raw] assms(2-5) by blast
  moreover have "valid_utf8 kindSet" by (simp add: kindSet_def valid_utf8_def of_char_def)
  then have "unmarshalMsg J raw = Inr (stamp_msg kindSet k p now s)"
    using assms(1,8-10) by (simp add: json_msg_roundtrip_def stamp_msg_def)
  ultimately show ?thesis
    using assms(6-8,11) by (simp add: Set_eq write_tail_def)
qed

lemma Owner_Get:
  "fst (Get target (ep_routing e)) = (r, True) \<Longrightarrow> fst (Owner target e) = (rt_PodID r, True)"
  by (cases "Get target (ep_routing e)") (simp add: Owner_def)

lemma Call_route_Get:
  assumes "fst (Get target (ep_routing e)) = (r, True)" "\<not> ep_closed e"
  shows "\<exists>ctx1. fst (Call_route now ctx target e) =
    (if rt_PodID r = ep_selfID e then Here ctx1 else There (rt_PodID r) ctx1)"
  using assms
  by (cases "Get target (ep_routing e)") (simp add: Call_route_def Endpoint_isClosed_def Let_def)

text \<open>
  C21. A registered target is found from another pod. Over the in-memory transport the first
  registration of a target succeeds and its route reaches every subscriber of the routing topic
  with an empty channel; an endpoint that handles it, and knows no newer route, reports the
  registering pod as the owner and sends its calls for the target there.
\<close>

theorem registered_target_is_found:
  assumes "json_msg_roundtrip J" "codec_roundtrip (s_codec (ep_routing A))" "mem_inv t" "\<not> m_closed t"
    and "b \<in> set (m_subs t (s_topic (ep_routing A)))" "ch_buf (m_heap t b) = []"
    and "target \<noteq> ''''" "method \<noteq> ''''" "ep_handlers A target = None" "\<not> s_closed (ep_routing A)"
    and "Marshal (s_codec (ep_routing A)) \<lparr>rt_PodID = ep_selfID A, rt_UpdatedAt = at\<rparr> = Inr p"
    and "marshalMsg J (stamp_msg kindSet target p now (ep_routing A)) = Inr raw"
    and "valid_utf8 target" "valid_utf8 (s_nodeID (ep_routing A))"
    and "beats (Stamp now (s_nodeID (ep_routing A)) (s_seq (ep_routing A) + 1)) (s_data (ep_routing A) target)"
    and "beats (Stamp now (s_nodeID (ep_routing A)) (s_seq (ep_routing A) + 1)) (s_data (ep_routing B) target)"
    and "s_codec (ep_routing B) = s_codec (ep_routing A)" "s_merger (ep_routing B) = None"
    and "s_nodeID (ep_routing B) \<noteq> s_nodeID (ep_routing A)" "ep_selfID B \<noteq> ep_selfID A" "\<not> ep_closed B"
    and B': "B' = B\<lparr>ep_routing := handleRaw J now' raw (ep_routing B)\<rparr>"
  shows "\<exists>A' t1 t2 ctx1. Register memory_transport J at now target method (Some h) A t = (None, A', t1) \<and>
    mem_recv b t1 = (Some raw, t2) \<and> fst (Owner target B') = (ep_selfID A, True) \<and>
    fst (Call_route now1 ctx target B') = There (ep_selfID A) ctx1"
proof -
  let ?r = "\<lparr>rt_PodID = ep_selfID A, rt_UpdatedAt = at\<rparr>"
  let ?m = "stamp_msg kindSet target p now (ep_routing A)"
  obtain s' t1 t2 where set: "Set memory_transport J now target ?r (ep_routing A) t = (None, s', t1)"
      "mem_recv b t1 = (Some raw, t2)" "unmarshalMsg J raw = Inr ?m"
    using Set_reaches_subscriber [OF assms(1,3-6,10-15)] by blast
  have reg: "\<exists>A'. Register memory_transport J at now target method (Some h) A t = (None, A', t1)"
    using assms(7-9) set(1) by (simp add: Register_def Let_def)
  have "Unmarshal (s_codec (ep_routing B)) p = Inr ?r"
    using assms(2,11,17) by (simp add: codec_roundtrip_def)
  moreover have "wm_Origin ?m = s_nodeID (ep_routing A)" "wm_Value ?m = p" by (simp_all add: stamp_msg_def)
  ultimately have get: "fst (Get target (ep_routing B')) = (?r, True)"
    using handleRaw_applies [OF set(3), of "ep_routing B" ?r now'] assms(16,18,19) B' by simp
  show ?thesis
    using reg set(2) Owner_Get [OF get] Call_route_Get [OF get, of now1 ctx] assms(20,21) B' by auto
qed

definition routing_bus :: MemoryTransport where
  "routing_bus = snd (mem_Subscribe ''callreply:routing'' (NewMemoryTransport True))"

lemma routing_bus_simps:
  "mem_inv routing_bus" "\<not> m_closed routing_bus" "m_subs routing_bus ''callreply:routing'' = [0]"
  "ch_buf (m_heap routing_bus i) = []"
  using mem_subscribe_inv [OF mem_new_inv, of "''callreply:routing''"]
  by (simp_all add: routing_bus_def mem_Subscribe_def NewMemoryTransport_def Let_def)

theorem registered_target_is_found_witness:
  "\<exists>raw A' t1 t2. Register memory_transport sample_json 3 4 ''svc'' ''m'' (Some echo) (sample_ep ''A'' 0) routing_bus =
       (None, A', t1) \<and> mem_recv 0 t1 = (Some raw, t2) \<and>
     fst (Owner ''svc'' ((sample_ep ''B'' 1)\<lparr>ep_routing := handleRaw sample_json 5 raw (sample_routing ''B'')\<rparr>)) =
       (''A'', True)"
proof -
  let ?A = "sample_ep ''A'' 0" and ?B = "sample_ep ''B'' 1"
  let ?p = "put_bytes (str_bytes ''A'') @ put_int 3"
  let ?m = "stamp_msg kindSet ''svc'' ?p 4 (ep_routing ?A)"
  have p: "Marshal (s_codec (ep_routing ?A)) \<lparr>rt_PodID = ep_selfID ?A, rt_UpdatedAt = 3\<rparr> = Inr ?p"
    by (simp add: sample_route_codec_def)
  have raw: "marshalMsg sample_json ?m = Inr (sample_marshalMsg ?m)" by (simp add: sample_json_def)
  have "valid_utf8 ''svc''" "valid_utf8 (s_nodeID (ep_routing ?A))"
    by (simp_all add: valid_utf8_def of_char_def)
  from registered_target_is_found [OF sample_json_msg _ routing_bus_simps(1,2) _ routing_bus_simps(4) _ _ _ _ p raw this
      _ _ _ _ _ _ _ refl, of 0 "''m''" ?B echo 5 7 "\<lparr>ctx_deadline = None\<rparr>"]
  show ?thesis
    by (simp add: routing_bus_simps sample_route_codec_roundtrip) blast
qed

subsection \<open>Owners agree\<close>

text \<open>
  Pods agree on owners. Endpoints whose routing stores start with the same routes and took the
  same messages of other pods from the routing topic, in whatever order and however often each,
  report the same owner for every target, and unless they own it themselves their calls go there.
\<close>

theorem owners_agree:
  assumes "s_merger (ep_routing A) = None" "s_merger (ep_routing B) = None"
    and "s_data (ep_routing A) = s_data (ep_routing B)"
    and "s_codec (ep_routing A) = c" "s_codec (ep_routing B) = c"
    and "s_zero (ep_routing A) = z" "s_zero (ep_routing B) = z"
    and "\<forall>raw \<in> snd ` set rs. \<exists>m v. dec_write J c z raw = Some (m, v) \<and> wm_V m = ProtocolVersion \<and>
      wm_Origin m \<noteq> s_nodeID (ep_routing A) \<and> wm_Origin m \<noteq> s_nodeID (ep_routing B)"
    and "unique_stamps (writes_of J c z (snd ` set rs))" "snd ` set rs = snd ` set rs'"
    and A': "A' = A\<lparr>ep_routing := recvLoop J rs (ep_routing A)\<rparr>"
    and B': "B' = B\<lparr>ep_routing := recvLoop J rs' (ep_routing B)\<rparr>"
  shows "fst (Owner target A') = fst (Owner target B') \<and>
    (\<forall>pod. fst (Owner target A') = (pod, True) \<longrightarrow> pod \<noteq> ep_selfID B \<longrightarrow> \<not> ep_closed B \<longrightarrow>
      (\<exists>ctx1. fst (Call_route now ctx target B') = There pod ctx1))"
proof -
  have "s_data (ep_routing A') = s_data (ep_routing B')"
    using recvLoop_converges [OF assms(1-10)] A' B' by simp
  then have eq: "fst (Owner target A') = fst (Owner target B')" by (simp add: Owner_view)
  have "\<exists>ctx1. fst (Call_route now ctx target B') = There pod ctx1"
    if own: "fst (Owner target B') = (pod, True)" "pod \<noteq> ep_selfID B" "\<not> ep_closed B" for pod
  proof -
    obtain r where "s_data (ep_routing B') target = Some r" "\<not> e_Tombstone r" "rt_PodID (e_Value r) = pod"
      using own(1) by (auto simp: Owner_view split: option.splits if_splits)
    then show ?thesis using Call_route_owner [of B' target r now ctx] own(2,3) B' by auto
  qed
  with eq show ?thesis by simp
qed

definition route_msg :: "string \<Rightarrow> time \<Rightarrow> wireMessage" where
  "route_msg pod ts = (sample_msg kindSet ''svc'' '''' pod ts 1)
     \<lparr>wm_Value := put_bytes (str_bytes pod) @ put_int ts\<rparr>"

lemma route_msg_dec:
  "dec_write sample_json sample_route_codec z (sample_marshalMsg (route_msg pod ts)) =
     Some (route_msg pod ts, \<lparr>rt_PodID = pod, rt_UpdatedAt = ts\<rparr>)"
  using get_put_int [of ts "[]"]
  by (simp add: dec_write_def route_msg_def sample_msg_def sample_route_codec_def or_bad_def)

theorem owners_agree_witness:
  "fst (Owner ''svc'' ((sample_ep ''A'' 0)\<lparr>ep_routing := recvLoop sample_json
      [(5, sample_marshalMsg (route_msg ''C'' 1)), (6, sample_marshalMsg (route_msg ''D'' 2))] (sample_routing ''A'')\<rparr>)) =
   fst (Owner ''svc'' ((sample_ep ''B'' 0)\<lparr>ep_routing := recvLoop sample_json
      [(7, sample_marshalMsg (route_msg ''D'' 2)), (9, sample_marshalMsg (route_msg ''C'' 1))] (sample_routing ''B'')\<rparr>))"
proof -
  let ?c = "sample_marshalMsg (route_msg ''C'' 1)" and ?d = "sample_marshalMsg (route_msg ''D'' 2)"
  have msgs: "wm_V (route_msg pod ts) = ProtocolVersion" "wm_Origin (route_msg pod ts) = pod" for pod ts
    by (simp_all add: route_msg_def sample_msg_def)
  have "unique_stamps (writes_of sample_json sample_route_codec zero_Route (snd ` set [(5::time, ?c), (6, ?d)]))"
    by (simp add: unique_stamps_def writes_of_def route_msg_dec msg_stamp_def)
       (auto simp: route_msg_def sample_msg_def)
  moreover have "\<forall>raw \<in> snd ` set [(5::time, ?c), (6, ?d)]. \<exists>m v.
      dec_write sample_json sample_route_codec zero_Route raw = Some (m, v) \<and> wm_V m = ProtocolVersion \<and>
      wm_Origin m \<noteq> s_nodeID (ep_routing (sample_ep ''A'' 0)) \<and> wm_Origin m \<noteq> s_nodeID (ep_routing (sample_ep ''B'' 0))"
    by (simp add: route_msg_dec msgs)
  ultimately show ?thesis
    using owners_agree [of "sample_ep ''A'' 0" "sample_ep ''B'' 0" sample_route_codec zero_Route
        "[(5, ?c), (6, ?d)]" sample_json "[(7, ?d), (9, ?c)]" _ _ "''svc''"]
    by (simp add: insert_commute)
qed

subsection \<open>Subscribing twice\<close>

text \<open>
  The built-in transports disagree on a second subscription to a topic: the P2P mesh and Redis
  refuse it, the in-memory transport hands out another channel.
\<close>

theorem second_subscription:
  assumes "mem_Subscribe topic m = (Inr i, m')" "p2p_Subscribe topic p = (Inr j, p')"
    and "redis_Subscribe R topic r = (Inr k, r')"
  shows "(\<exists>i' m''. mem_Subscribe topic m' = (Inr i', m'') \<and> i' \<noteq> i) \<and>
    (\<exists>err. p2p_Subscribe topic p' = (Inl err, p')) \<and> (\<exists>err. redis_Subscribe R topic r' = (Inl err, r'))"
  using assms
  by (auto simp: mem_Subscribe_def p2p_Subscribe_def redis_Subscribe_def p2p_isClosed_def Let_def
      split: if_splits prod.splits option.splits)

end
